(* ===== verification/Prelude.thy ===== *)
theory Prelude
  imports Main "HOL-Library.Word" "HOL-Library.Multiset"
begin

unbundle bit_operations_syntax

text \<open>
  Shared ground of the development.

  Go's types: a byte is an 8-bit word, a Go string and a byte slice are byte lists (Go
  strings are byte sequences), \<open>uint32\<close>/\<open>uint64\<close> are words of that width whose
  arithmetic wraps as in Go, \<open>int64\<close> is the same 64-bit word read with \<^const>\<open>sint\<close>, and
  a slice length (\<open>int\<close>) is a natural number.  Fallible Go functions return a value of
  \<open>'e + 'a\<close> with \<^const>\<open>Inl\<close> for the error.

  What the source uses of \<open>encoding/binary\<close> (little-endian puts and gets), \<open>io\<close>
  (a reader as the list of results its \<open>Read\<close> calls give) and \<open>sort\<close> (\<open>sort.Search\<close>) is
  modelled here, with the lemmas every component shares.
\<close>

type_synonym byte = "8 word"
type_synonym bytes = "8 word list"
type_synonym u32 = "32 word"
type_synonym u64 = "64 word"
type_synonym i64 = "64 word"

named_theorems wire_simps \<open>lengths and decodings of the wire encodings\<close>

subsection \<open>Byte strings\<close>

text \<open>A Go string literal.\<close>

definition str :: "string \<Rightarrow> bytes" where
  "str s = map of_char s"

lemma str_Nil [simp]: "str [] = []"
  and str_Cons [simp]: "str (c # cs) = of_char c # str cs"
  by (simp_all add: str_def)

lemma length_str [simp]: "length (str s) = length s"
  by (simp add: str_def)

text \<open>\<open>uint64(len(x))\<close>.\<close>

abbreviation len64 :: "'a list \<Rightarrow> u64" where
  "len64 xs \<equiv> of_nat (length xs)"

lemma u64_small: "m < 2 ^ 64 \<Longrightarrow> unat (of_nat m :: u64) = m"
  by (simp add: unat_of_nat)

lemma u64_len: "length xs < 2 ^ 64 \<Longrightarrow> unat (len64 xs) = length xs"
  by (rule u64_small)

lemma sint_of_nat63: "n < 2 ^ 63 \<Longrightarrow> sint (of_nat n :: u64) = int n"
  by (simp add: sint_uint signed_take_bit_eq_if_positive bit_iff_odd uint_nat unat_of_nat take_bit_int_eq_self)

lemma nonneg_unat: "\<not> sint (w :: u64) < 0 \<Longrightarrow> unat w < 2 ^ 63"
proof -
  assume "\<not> sint w < 0"
  then have b: "\<not> bit (uint w) 63" by (simp add: sint_uint signed_take_bit_negative_iff)
  have "uint w = take_bit (Suc 63) (uint w)" using unsigned_less [of w, where 'a = int] by (simp add: take_bit_int_eq_self)
  also have "\<dots> = take_bit 63 (uint w)" using b by (simp only: take_bit_Suc_from_most) simp
  finally have e: "uint w = take_bit 63 (uint w)" .
  have "uint w < 2 ^ 63" by (subst e) (rule take_bit_int_less_exp)
  then have "int (unat w) < int (2 ^ 63)" by simp
  then show ?thesis by (simp only: of_nat_less_iff)
qed

lemma nonneg_word:
  assumes "0 \<le> sint (w :: u64)"
  shows "w = of_nat (unat w)" "sint w = int (unat w)" "unat w < 2 ^ 63"
proof -
  show l: "unat w < 2 ^ 63" using nonneg_unat assms by simp
  show "w = of_nat (unat w)" by simp
  show "sint w = int (unat w)" using sint_of_nat63 [OF l] by simp
qed

definition has_suffix :: "bytes \<Rightarrow> bytes \<Rightarrow> bool" where
  "has_suffix s suf \<longleftrightarrow> length suf \<le> length s \<and> drop (length s - length suf) s = suf"

definition has_prefix :: "bytes \<Rightarrow> bytes \<Rightarrow> bool" where
  "has_prefix s p \<longleftrightarrow> take (length p) s = p"

lemma has_suffix_iff: "has_suffix s suf \<longleftrightarrow> (\<exists>p. s = p @ suf)"
proof
  assume "has_suffix s suf"
  then have "s = take (length s - length suf) s @ suf"
    by (metis append_take_drop_id has_suffix_def)
  then show "\<exists>p. s = p @ suf" by blast
qed (auto simp: has_suffix_def)

lemma has_prefix_iff: "has_prefix s p \<longleftrightarrow> (\<exists>t. s = p @ t)"
  by (metis append_eq_conv_conj append_take_drop_id has_prefix_def)

lemma has_prefix_append: "has_prefix s p \<Longrightarrow> has_prefix (s @ t) p"
  by (auto simp: has_prefix_iff)

text \<open>\<open>strings.TrimSuffix\<close>.\<close>

definition trim_suffix :: "bytes \<Rightarrow> bytes \<Rightarrow> bytes" where
  "trim_suffix s suf = (if has_suffix s suf then take (length s - length suf) s else s)"

lemma trim_suffix_append [simp]: "trim_suffix (p @ suf) suf = p"
  by (auto simp: trim_suffix_def has_suffix_def)

subsection \<open>Little-endian integers\<close>

text \<open>
  \<open>le_bytes n w\<close> is the low \<open>n\<close> bytes of \<open>w\<close>, least significant first;
  \<open>le_word\<close> reads such bytes back.  \<open>binary.LittleEndian.AppendUint64\<close> and
  \<open>AppendUint32\<close> are \<open>put64\<close> and \<open>put32\<close>; \<open>Uint64\<close>, \<open>Uint32\<close> and \<open>Uint16\<close>, which
  read from the front of a slice, are \<open>get64\<close>, \<open>get32\<close> and \<open>get16\<close>.
\<close>

fun le_bytes :: "nat \<Rightarrow> 'a::len word \<Rightarrow> bytes" where
  "le_bytes 0 w = []"
| "le_bytes (Suc n) w = ucast w # le_bytes n (drop_bit 8 w)"

fun le_word :: "bytes \<Rightarrow> 'a::len word" where
  "le_word [] = 0"
| "le_word (b # bs) = ucast b OR push_bit 8 (le_word bs)"

definition put64 :: "u64 \<Rightarrow> bytes" where "put64 w = le_bytes 8 w"
definition put32 :: "u32 \<Rightarrow> bytes" where "put32 w = le_bytes 4 w"
definition get64 :: "bytes \<Rightarrow> u64" where "get64 bs = le_word (take 8 bs)"
definition get32 :: "bytes \<Rightarrow> u32" where "get32 bs = le_word (take 4 bs)"
definition get16 :: "bytes \<Rightarrow> 16 word" where "get16 bs = le_word (take 2 bs)"

lemma length_le_bytes [simp]: "length (le_bytes n w) = n"
  by (induction n arbitrary: w) auto

lemma length_put64 [simp, wire_simps]: "length (put64 w) = 8"
  by (simp add: put64_def)

lemma length_put32 [simp, wire_simps]: "length (put32 w) = 4"
  by (simp add: put32_def)

lemma le_word_le_bytes: "le_word (le_bytes n w) = take_bit (8 * n) (w :: 'a::len word)"
proof (induction n arbitrary: w)
  case (Suc n)
  have "ucast (ucast w :: byte) OR push_bit 8 (take_bit (8 * n) (drop_bit 8 w))
        = take_bit (8 * Suc n) w"
  proof (rule bit_word_eqI)
    fix i assume "i < LENGTH('a)"
    then show "bit (ucast (ucast w :: byte) OR push_bit 8 (take_bit (8 * n) (drop_bit 8 w))) i
        = bit (take_bit (8 * Suc n) w) i"
      by (cases "i < 8") (auto simp: bit_simps)
  qed
  with Suc show ?case by simp
qed simp

lemma get64_put64 [simp, wire_simps]: "get64 (put64 w @ r) = w"
  by (simp add: get64_def put64_def le_word_le_bytes take_bit_word_eq_self)

lemma get64_put64' [simp]: "get64 (put64 w) = w"
  using get64_put64 [of w "[]"] by simp

lemma get32_put32 [simp, wire_simps]: "get32 (put32 w @ r) = w"
  by (simp add: get32_def put32_def le_word_le_bytes take_bit_word_eq_self)

lemma drop_put64 [simp, wire_simps]: "drop 8 (put64 w @ r) = r"
  and take_put64 [simp, wire_simps]: "take 8 (put64 w @ r) = put64 w"
  by simp_all

lemma le_bytes_le_word:
  assumes "8 * length bs \<le> LENGTH('a)"
  shows "le_bytes (length bs) (le_word bs :: 'a::len word) = bs"
  using assms
proof (induction bs)
  case (Cons b bs)
  let ?x = "le_word bs :: 'a word"
  from Cons have IH: "le_bytes (length bs) ?x = bs" by simp
  then have x: "take_bit (8 * length bs) ?x = ?x"
    by (metis le_word_le_bytes)
  have lo: "ucast (ucast b OR push_bit 8 ?x :: 'a word) = b"
  proof (rule bit_word_eqI)
    fix i assume "i < LENGTH(8)"
    with Cons.prems show "bit (ucast (ucast b OR push_bit 8 ?x :: 'a word) :: byte) i = bit b i"
      by (auto simp: bit_simps)
  qed
  have hi: "drop_bit 8 (ucast b OR push_bit 8 ?x :: 'a word) = ?x"
  proof (rule bit_word_eqI)
    fix i assume i: "i < LENGTH('a)"
    have "bit ?x i \<longleftrightarrow> i < 8 * length bs \<and> bit ?x i"
      by (subst (1) x [symmetric]) (simp add: bit_take_bit_iff)
    with Cons.prems i show "bit (drop_bit 8 (ucast b OR push_bit 8 ?x :: 'a word)) i = bit ?x i"
      by (auto simp: bit_simps dest: bit_imp_le_length)
  qed
  show ?case using lo hi IH by simp
qed simp

lemma put64_get64: "length bs = 8 \<Longrightarrow> put64 (get64 bs) = bs"
  using le_bytes_le_word [of bs, where 'a = 64] by (simp add: put64_def get64_def)

lemma put64_eq_iff [simp]: "put64 a = put64 b \<longleftrightarrow> a = b"
  by (metis get64_put64')

subsection \<open>Readers\<close>

text \<open>
  An \<open>io.Reader\<close> as the list of results its successive \<open>Read\<close> calls give: the bytes
  delivered with the call's error (none, \<open>io.EOF\<close>, or another one).  A reader whose list is
  used up keeps returning no bytes and \<open>io.EOF\<close>.  \<open>Read\<close> may return fewer bytes than asked
  for, and bytes together with \<open>io.EOF\<close>; both are lists of this type.
\<close>

datatype 'e rstat = ROk | REof | RErr 'e

type_synonym 'e rd = "(bytes \<times> 'e rstat) list"

text \<open>The bytes a reader delivers before its first error or end.\<close>

fun rd_bytes :: "'e rd \<Rightarrow> bytes" where
  "rd_bytes [] = []"
| "rd_bytes ((bs, ROk) # r) = bs @ rd_bytes r"
| "rd_bytes ((bs, REof) # r) = bs"
| "rd_bytes ((bs, RErr e) # r) = bs"

fun rd_error :: "'e rd \<Rightarrow> 'e option" where
  "rd_error [] = None"
| "rd_error ((bs, ROk) # r) = rd_error r"
| "rd_error ((bs, REof) # r) = None"
| "rd_error ((bs, RErr e) # r) = Some e"

text \<open>
  One \<open>Read\<close> into a buffer of \<open>want\<close> bytes: at most \<open>want\<close> bytes of the next result, the rest stays
  for later calls; the error comes with the last bytes of its result, and an end or an error is
  returned again by every later call.
\<close>

fun rd_read :: "'e rd \<Rightarrow> nat \<Rightarrow> bytes \<times> 'e rstat \<times> 'e rd" where
  "rd_read [] want = ([], REof, [])"
| "rd_read ((bs, s) # r) want =
     (if want < length bs then (take want bs, ROk, (drop want bs, s) # r)
      else (bs, s, if s = ROk then r else [([], s)]))"

text \<open>
  \<open>io.ReadFull\<close>: read until \<open>n\<close> bytes are there; an error that comes with the last byte needed is
  dropped, an end before the first byte is \<open>io.EOF\<close>, a later one \<open>io.ErrUnexpectedEOF\<close>.
\<close>

datatype 'e full = FOk | FEof | FUnexpected | FErr 'e

fun read_full :: "'e rd \<Rightarrow> nat \<Rightarrow> bytes \<times> 'e full \<times> 'e rd" where
  "read_full r 0 = ([], FOk, r)"
| "read_full [] (Suc n) = ([], FEof, [])"
| "read_full ((bs, s) # r) (Suc n) =
     (if Suc n < length bs then (take (Suc n) bs, FOk, (drop (Suc n) bs, s) # r)
      else if length bs = Suc n then (bs, FOk, if s = ROk then r else [([], s)])
      else case s of
        ROk \<Rightarrow>
          (case read_full r (Suc n - length bs) of
             (bs', f, r') \<Rightarrow> (bs @ bs', if f = FEof \<and> bs \<noteq> [] then FUnexpected else f, r'))
      | REof \<Rightarrow> (bs, if bs = [] then FEof else FUnexpected, [([], REof)])
      | RErr e \<Rightarrow> (bs, FErr e, [([], RErr e)]))"

text \<open>What \<open>io.ReadFull\<close> does depends only on the bytes the reader delivers and on how it ends.\<close>

definition full_short :: "'e rd \<Rightarrow> 'e full" where
  "full_short r = (case rd_error r of Some e \<Rightarrow> FErr e
     | None \<Rightarrow> if rd_bytes r = [] then FEof else FUnexpected)"

lemma read_full_enough:
  "n \<le> length (rd_bytes r) \<Longrightarrow> \<exists>r'. read_full r n = (take n (rd_bytes r), FOk, r') \<and>
     rd_bytes r' = drop n (rd_bytes r) \<and> rd_error r' = rd_error r"
proof (induction r n rule: read_full.induct)
  case (3 bs s r n)
  show ?case
  proof (cases "length bs < Suc n \<and> s = ROk")
    case True
    then have l: "\<not> Suc n < length bs" "length bs \<noteq> Suc n" "s = ROk"
      and le: "Suc n - length bs \<le> length (rd_bytes r)" using "3.prems" by auto
    obtain r' where r': "read_full r (Suc n - length bs) = (take (Suc n - length bs) (rd_bytes r), FOk, r')"
        "rd_bytes r' = drop (Suc n - length bs) (rd_bytes r)" "rd_error r' = rd_error r"
      using "3.IH" [OF l le] by blast
    then show ?thesis using l by simp
  next
    case False
    then show ?thesis using "3.prems" by (cases s) auto
  qed
qed auto

lemma read_full_short:
  "length (rd_bytes r) < n \<Longrightarrow> \<exists>r'. read_full r n = (rd_bytes r, full_short r, r') \<and>
     rd_bytes r' = [] \<and> rd_error r' = rd_error r"
proof (induction r n rule: read_full.induct)
  case (3 bs s r n)
  show ?case
  proof (cases "s = ROk")
    case True
    then have l: "\<not> Suc n < length bs" "length bs \<noteq> Suc n"
      and le: "length (rd_bytes r) < Suc n - length bs" using "3.prems" by auto
    obtain r' where r': "read_full r (Suc n - length bs) = (rd_bytes r, full_short r, r')"
        "rd_bytes r' = []" "rd_error r' = rd_error r"
      using "3.IH" [OF l True le] by blast
    then show ?thesis using l True by (auto simp: full_short_def split: option.splits)
  next
    case False
    then show ?thesis using "3.prems" by (cases s) (auto simp: full_short_def)
  qed
qed (auto simp: full_short_def)

subsection \<open>Sinks\<close>

text \<open>
  An \<open>io.Writer\<close>: what it has taken so far and the room it has left.  With room \<open>None\<close> it never
  fails; with \<open>Some k\<close> it takes \<open>k\<close> more bytes and then fails, after a short write.
\<close>

datatype sink_error = ErrSink

record sink =
  sk_room :: "nat option"
  sk_out :: bytes

definition sink_take :: "nat option \<Rightarrow> bytes \<Rightarrow> nat" where
  "sink_take room p = (case room of None \<Rightarrow> length p | Some k \<Rightarrow> min k (length p))"

text \<open>The bytes taken, and whether that is all of them.\<close>

definition sink_write :: "sink \<Rightarrow> bytes \<Rightarrow> sink \<times> nat \<times> bool" where
  "sink_write k p =
     (let n = sink_take (sk_room k) p in
      (k\<lparr> sk_out := sk_out k @ take n p, sk_room := map_option (\<lambda>r. r - n) (sk_room k) \<rparr>, n, n = length p))"

lemma sink_take_le: "sink_take room p \<le> length p"
  by (simp add: sink_take_def split: option.splits)

lemma sink_write_ok:
  "sink_write k p = (k', n, True) \<Longrightarrow> n = length p \<and> sk_out k' = sk_out k @ p"
  by (auto simp: sink_write_def Let_def)

lemma sink_write_None:
  "sk_room k = None \<Longrightarrow> sink_write k p = (k\<lparr> sk_out := sk_out k @ p \<rparr>, length p, True)"
  by (cases k) (simp add: sink_write_def sink_take_def)

subsection \<open>Binary search\<close>

text \<open>\<open>sort.Search(n, f)\<close>: the loop of the standard library.\<close>

function search_loop :: "(nat \<Rightarrow> bool) \<Rightarrow> nat \<Rightarrow> nat \<Rightarrow> nat" where
  "search_loop f i j =
     (if i < j then
        (let h = (i + j) div 2 in
         if \<not> f h then search_loop f (h + 1) j else search_loop f i h)
      else i)"
  by pat_completeness auto
termination
  by (relation "measure (\<lambda>(f, i, j). j - i)") (auto simp: Let_def)

declare search_loop.simps [simp del]

definition sort_Search :: "nat \<Rightarrow> (nat \<Rightarrow> bool) \<Rightarrow> nat" where
  "sort_Search n f = search_loop f 0 n"

lemma search_loop_correct:
  assumes "\<And>a b. a \<le> b \<Longrightarrow> b < n \<Longrightarrow> f a \<Longrightarrow> f b"
    and "i \<le> j" "j \<le> n" "\<forall>k<i. \<not> f k" "\<forall>k. j \<le> k \<and> k < n \<longrightarrow> f k"
  shows "search_loop f i j \<le> n \<and> (\<forall>k < search_loop f i j. \<not> f k)
         \<and> (\<forall>k. search_loop f i j \<le> k \<and> k < n \<longrightarrow> f k)"
  using assms
proof (induction f i j rule: search_loop.induct)
  case (1 f i j)
  note mono = "1.prems"(1) and ij = "1.prems"(2) and jn = "1.prems"(3)
    and lo = "1.prems"(4) and hi = "1.prems"(5)
  show ?case
  proof (cases "i < j")
    case False
    then have "search_loop f i j = i" by (simp add: search_loop.simps)
    with False ij jn lo hi show ?thesis by simp
  next
    case True
    define h where "h = (i + j) div 2"
    have h: "i \<le> h" "h < j" using True by (auto simp: h_def)
    show ?thesis
    proof (cases "f h")
      case fh: True
      then have eq: "search_loop f i j = search_loop f i h"
        using True by (subst search_loop.simps) (simp add: Let_def flip: h_def)
      have nn: "\<not> \<not> f h" and hn: "h \<le> n" using fh h jn by simp_all
      have up: "\<forall>k. h \<le> k \<and> k < n \<longrightarrow> f k" using mono fh by blast
      show ?thesis unfolding eq by (rule "1.IH"(2) [OF True h_def nn mono h(1) hn lo up])
    next
      case fh: False
      then have eq: "search_loop f i j = search_loop f (h + 1) j"
        using True by (subst search_loop.simps) (simp add: Let_def flip: h_def)
      have hj: "h + 1 \<le> j" using h by simp
      have dn: "\<forall>k < h + 1. \<not> f k" using mono fh h jn
        by (metis Suc_eq_plus1 less_Suc_eq_le order_less_le_trans)
      show ?thesis unfolding eq by (rule "1.IH"(1) [OF True h_def fh mono hj jn dn hi])
    qed
  qed
qed

lemma sort_Search_correct:
  assumes mono: "\<And>a b. a \<le> b \<Longrightarrow> b < n \<Longrightarrow> f a \<Longrightarrow> f b"
  shows "sort_Search n f \<le> n" "k < sort_Search n f \<Longrightarrow> \<not> f k"
    "sort_Search n f \<le> k \<Longrightarrow> k < n \<Longrightarrow> f k"
proof -
  have "search_loop f 0 n \<le> n \<and> (\<forall>k < search_loop f 0 n. \<not> f k)
         \<and> (\<forall>k. search_loop f 0 n \<le> k \<and> k < n \<longrightarrow> f k)"
    by (rule search_loop_correct [OF mono]) auto
  then show "sort_Search n f \<le> n" "k < sort_Search n f \<Longrightarrow> \<not> f k"
    "sort_Search n f \<le> k \<Longrightarrow> k < n \<Longrightarrow> f k"
    unfolding sort_Search_def by blast+
qed

end
