(* ===== verification/Chunker.thy ===== *)
theory Chunker
  imports Prelude
begin

unbundle bit_operations_syntax

text \<open>
  The content-defined chunker, \<^verbatim>\<open>src/chunker/chunker.go\<close> and \<^verbatim>\<open>src/chunker/table.go\<close>.

  \<open>Chunker\<close> is the struct of the source, field by field; \<open>New\<close>, \<open>Reset\<close>, \<open>Scan\<close> and
  \<open>shallBreak\<close> are its operations, and \<open>Split\<close> is the iterator over a reader.  The two loops
  of \<open>Scan\<close> are \<open>fill_loop\<close> (the window of a fresh chunk) and \<open>roll_loop\<close> (the rolling
  hash); the two loops of \<open>Split\<close> are \<open>split_seg\<close> and \<open>split_loop\<close>.

  The reference definition is \<open>cuts\<close>: it looks at the bytes of the current chunk only, with
  the hash of the last 64 bytes computed from scratch.  The main results: the state's rolling
  hash is that hash (\<open>chunk_ok\<close>), \<open>Split\<close> computes \<open>cuts\<close> of the stream whatever the
  segments in which the reader delivers it, its chunks concatenate to the stream, and all but
  the last have a size between the minimum and the maximum.
\<close>

subsection \<open>The hash table\<close>

definition table :: "u32 list" where
  "table =
    [0x458be752, 0xc10748cc, 0xfbbcdbb8, 0x6ded5b68, 0xb10a82b5, 0x20d75648,
     0xdfc5665f, 0xa8428801, 0x7ebf5191, 0x841135c7, 0x65cc53b3, 0x280a597c,
     0x16f60255, 0xc78cbc3e, 0x294415f5, 0xb938d494, 0xec85c4e6, 0xb7d33edc,
     0xe549b544, 0xfdeda5aa, 0x882bf287, 0x3116737c, 0x05569956, 0xe8cc1f68,
     0x0806ac5e, 0x22a14443, 0x15297e10, 0x50d090e7, 0x4ba60f6f, 0xefd9f1a7,
     0x5c5c885c, 0x82482f93, 0x9bfd7c64, 0x0b3e7276, 0xf2688e77, 0x8fad8abc,
     0xb0509568, 0xf1ada29f, 0xa53efdfe, 0xcb2b1d00, 0xf2a9e986, 0x6463432b,
     0x95094051, 0x5a223ad2, 0x9be8401b, 0x61e579cb, 0x1a556a14, 0x5840fdc2,
     0x9261ddf6, 0xcde002bb, 0x52432bb0, 0xbf17373e, 0x7b7c222f, 0x2955ed16,
     0x9f10ca59, 0xe840c4c9, 0xccabd806, 0x14543f34, 0x1462417a, 0x0d4a1f9c,
     0x087ed925, 0xd7f8f24c, 0x7338c425, 0xcf86c8f5, 0xb19165cd, 0x9891c393,
     0x325384ac, 0x0308459d, 0x86141d7e, 0xc922116a, 0xe2ffa6b6, 0x53f52aed,
     0x2cd86197, 0xf5b9f498, 0xbf319c8f, 0xe0411fae, 0x977eb18c, 0xd8770976,
     0x9833466a, 0xc674df7f, 0x8c297d45, 0x8ca48d26, 0xc49ed8e2, 0x7344f874,
     0x556f79c7, 0x6b25eaed, 0xa03e2b42, 0xf68f66a4, 0x8e8b09a2, 0xf2e0e62a,
     0x0d3a9806, 0x9729e493, 0x8c72b0fc, 0x160b94f6, 0x450e4d3d, 0x7a320e85,
     0xbef8f0e1, 0x21d73653, 0x4e3d977a, 0x1e7b3929, 0x1cc6c719, 0xbe478d53,
     0x8d752809, 0xe6d8c2c6, 0x275f0892, 0xc8acc273, 0x4cc21580, 0xecc4a617,
     0xf5f7be70, 0xe795248a, 0x375a2fe9, 0x425570b6, 0x8898dcf8, 0xdc2d97c4,
     0x0106114b, 0x364dc22f, 0x1e0cad1f, 0xbe63803c, 0x5f69fac2, 0x4d5afa6f,
     0x1bc0dfb5, 0xfb273589, 0x0ea47f7b, 0x3c1c2b50, 0x21b2a932, 0x6b1223fd,
     0x2fe706a8, 0xf9bd6ce2, 0xa268e64e, 0xe987f486, 0x3eacf563, 0x1ca2018c,
     0x65e18228, 0x2207360a, 0x57cf1715, 0x34c37d2b, 0x1f8f3cde, 0x93b657cf,
     0x31a019fd, 0xe69eb729, 0x8bca7b9b, 0x4c9d5bed, 0x277ebeaf, 0xe0d8f8ae,
     0xd150821c, 0x31381871, 0xafc3f1b0, 0x927db328, 0xe95effac, 0x305a47bd,
     0x426ba35b, 0x1233af3f, 0x686a5b83, 0x50e072e5, 0xd9d3bb2a, 0x8befc475,
     0x487f0de6, 0xc88dff89, 0xbd664d5e, 0x971b5d18, 0x63b14847, 0xd7d3c1ce,
     0x7f583cf3, 0x72cbcb09, 0xc0d0a81c, 0x7fa3429b, 0xe9158a1b, 0x225ea19a,
     0xd8ca9ea3, 0xc763b282, 0xbb0c6341, 0x020b8293, 0xd4cd299d, 0x58cfa7f8,
     0x91b4ee53, 0x37e4d140, 0x95ec764c, 0x30f76b06, 0x5ee68d24, 0x679c8661,
     0xa41979c2, 0xf2b61284, 0x4fac1475, 0x0adb49f9, 0x19727a23, 0x15a7e374,
     0xc43a18d5, 0x3fb1aa73, 0x342fc615, 0x924c0793, 0xbee2d7f0, 0x8a279de9,
     0x4aa2d70c, 0xe24dd37f, 0xbe862c0b, 0x177c22c2, 0x5388e5ee, 0xcd8a7510,
     0xf901b4fd, 0xdbc13dbc, 0x6c0bae5b, 0x64efe8c7, 0x48b02079, 0x80331a49,
     0xca3d8ae6, 0xf3546190, 0xfed7108b, 0xc49b941b, 0x32baf4a9, 0xeb833a4a,
     0x88a3f1a5, 0x3a91ce0a, 0x3cc27da1, 0x7112e684, 0x4a3096b1, 0x3794574c,
     0xa3c8b6f3, 0x1d213941, 0x6e0a2e00, 0x233479f1, 0x0f4cd82f, 0x6093edd2,
     0x5d7d209e, 0x464fe319, 0xd4dcac9e, 0x0db845cb, 0xfb5e4bc3, 0xe0256ce1,
     0x09fb4ed1, 0x0914be1e, 0xa5bdb2c3, 0xc6eb57bb, 0x30320350, 0x3f397e91,
     0xa67791bc, 0x86bc0e2c, 0xefa0a7e2, 0xe9ff7543, 0xe733612c, 0xd185897b,
     0x329e5388, 0x91dd236b, 0x2ecb0d93, 0xf4d82a3d, 0x35b5c03f, 0xe4e606f0,
     0x05b21843, 0x37b45964, 0x5eff22f4, 0x6027f4cc, 0x77178b3c, 0xae507131,
     0x7bf7cabc, 0xf9c18d66, 0x593ade65, 0xd95ddf11]"

definition tab :: "byte \<Rightarrow> u32" where
  "tab b = table ! unat b"

lemma length_table: "length table = 256"
  by (simp add: table_def)

text \<open>An index that is a byte never leaves the table.\<close>

lemma tab_in_range: "unat (b :: byte) < length table"
  using unsigned_less [of b] by (simp add: length_table)

subsection \<open>The chunker\<close>

definition DefaultAvg :: u64 where
  "DefaultAvg = push_bit 20 4"

definition windowSize :: nat where
  "windowSize = 64"

record Chunker =
  ck_h :: u32
  ck_winFill :: u64
  ck_chunkSize :: u64
  ck_min :: u64
  ck_max :: u64
  ck_breakMask :: u32
  ck_breakMin :: u32
  ck_window :: bytes

datatype chunker_error = BadAverage u64 | ChunkerRead string

definition New :: "u64 \<Rightarrow> chunker_error + Chunker" where
  "New avg0 =
     (let avg = (if avg0 = 0 then DefaultAvg else avg0) in
      if avg AND (avg - 1) \<noteq> 0 \<or> avg < 4 * of_nat windowSize then Inl (BadAverage avg)
      else
        (let mask = ucast (avg * 2 - 1) in
         Inr \<lparr> ck_h = 0, ck_winFill = 0, ck_chunkSize = 0,
               ck_min = drop_bit 2 avg, ck_max = push_bit 2 avg,
               ck_breakMask = mask, ck_breakMin = mask - 2,
               ck_window = replicate windowSize 0 \<rparr>))"

definition Reset :: "Chunker \<Rightarrow> Chunker" where
  "Reset c = c\<lparr> ck_h := 0, ck_winFill := 0, ck_chunkSize := 0 \<rparr>"

definition shallBreak :: "Chunker \<Rightarrow> bool" where
  "shallBreak c =
     (if ck_max c \<le> ck_chunkSize c then True
      else if ck_chunkSize c < ck_min c then False
      else ck_breakMin c \<le> ck_h c AND ck_breakMask c)"

fun fill_loop :: "Chunker \<Rightarrow> bytes \<Rightarrow> Chunker" where
  "fill_loop c [] = c"
| "fill_loop c (b # bs) =
     fill_loop (c\<lparr> ck_window := (ck_window c)[unat (ck_winFill c) := b],
                  ck_h := word_rotl 1 (ck_h c) XOR tab b,
                  ck_winFill := ck_winFill c + 1 \<rparr>) bs"

fun roll_loop :: "Chunker \<Rightarrow> u64 \<Rightarrow> bytes \<Rightarrow> nat \<Rightarrow> Chunker \<times> nat" where
  "roll_loop c idx [] pos = (c, 0)"
| "roll_loop c idx (enter # rest) pos =
     (let leave = ck_window c ! unat idx;
          c' = c\<lparr> ck_h := word_rotl 1 (ck_h c) XOR tab leave XOR tab enter,
                 ck_chunkSize := ck_chunkSize c + 1,
                 ck_window := (ck_window c)[unat idx := enter] \<rparr>
      in if shallBreak c' then (Reset c', pos + 1)
         else roll_loop c' (ck_chunkSize c' AND (of_nat windowSize - 1)) rest (pos + 1))"

definition Scan :: "Chunker \<Rightarrow> bytes \<Rightarrow> Chunker \<times> nat" where
  "Scan c data =
     (if ck_winFill c < of_nat windowSize then
        (let n = min (windowSize - unat (ck_winFill c)) (length data);
             c1 = fill_loop c (take n data);
             c2 = c1\<lparr> ck_chunkSize := ck_chunkSize c1 + of_nat n \<rparr>
         in if ck_winFill c2 < of_nat windowSize then (c2, 0)
            else roll_loop c2 (ck_chunkSize c2 AND (of_nat windowSize - 1)) (drop n data) n)
      else roll_loop c (ck_chunkSize c AND (of_nat windowSize - 1)) data 0)"

record Chunk =
  ch_Data :: bytes
  ch_Offset :: u64

function split_seg :: "Chunker \<Rightarrow> bytes \<Rightarrow> u64 \<Rightarrow> bytes \<Rightarrow> Chunk list \<times> Chunker \<times> bytes \<times> u64" where
  "split_seg c cur off seg =
     (if seg = [] then ([], c, cur, off)
      else case Scan c seg of (c', pos) \<Rightarrow>
        if pos = 0 then ([], c', cur @ seg, off)
        else
          (let cur' = cur @ take pos seg;
               (ys, st) = split_seg c' [] (off + len64 cur') (drop pos seg)
           in (\<lparr> ch_Data = cur', ch_Offset = off \<rparr> # ys, st)))"
  by pat_completeness auto
termination
  by (relation "measure (\<lambda>(c, cur, off, seg). length seg)") auto

declare split_seg.simps [simp del]

fun split_loop :: "Chunker \<Rightarrow> bytes \<Rightarrow> u64 \<Rightarrow> string rd \<Rightarrow> (chunker_error + Chunk) list" where
  "split_loop c cur off [] = (if cur = [] then [] else [Inr \<lparr> ch_Data = cur, ch_Offset = off \<rparr>])"
| "split_loop c cur off ((buf, st) # r) =
     (case split_seg c cur off buf of (ys, c', cur', off') \<Rightarrow>
        map Inr ys @
        (case st of
           REof \<Rightarrow> if cur' = [] then [] else [Inr \<lparr> ch_Data = cur', ch_Offset = off' \<rparr>]
         | RErr e \<Rightarrow> [Inl (ChunkerRead e)]
         | ROk \<Rightarrow> split_loop c' cur' off' r))"

text \<open>The elements \<open>Split\<close> yields to a consumer that takes them all.\<close>

definition Split :: "string rd \<Rightarrow> u64 \<Rightarrow> (chunker_error + Chunk) list" where
  "Split r avg = (case New avg of Inl e \<Rightarrow> [Inl e] | Inr c \<Rightarrow> split_loop c [] 0 r)"

subsection \<open>The reference cut\<close>

definition hstep :: "u32 \<Rightarrow> byte \<Rightarrow> u32" where
  "hstep h b = word_rotl 1 h XOR tab b"

definition buzhash :: "bytes \<Rightarrow> u32" where
  "buzhash ws = foldl hstep 0 ws"

definition last64 :: "bytes \<Rightarrow> bytes" where
  "last64 cur = drop (length cur - 64) cur"

definition breaks :: "Chunker \<Rightarrow> bytes \<Rightarrow> bool" where
  "breaks c cur \<longleftrightarrow> 64 < length cur \<and>
     (unat (ck_max c) \<le> length cur \<or>
      unat (ck_min c) \<le> length cur \<and>
      ck_breakMin c \<le> buzhash (last64 cur) AND ck_breakMask c)"

fun cuts :: "Chunker \<Rightarrow> bytes \<Rightarrow> bytes \<Rightarrow> bytes list \<times> bytes" where
  "cuts c cur [] = ([], cur)"
| "cuts c cur (b # bs) =
     (if breaks c (cur @ [b]) then
        (let (xs, r) = cuts c [] bs in ((cur @ [b]) # xs, r))
      else cuts c (cur @ [b]) bs)"

subsection \<open>The rolling hash is the hash of the window\<close>

lemma rotl_0: "word_rotl 0 (w :: u32) = w"
  by (rule bit_word_eqI) (simp add: bit_word_rotl_iff)

lemma rotl_roti: "word_rotl n (w :: u32) = word_roti (- int n) w"
proof (cases "n = 0")
  case True
  then show ?thesis by (simp add: rotl_0 del: word_roti_eq_word_rotr_word_rotl)
qed simp

lemma rotl_rotl: "word_rotl 1 (word_rotl n (w :: u32)) = word_rotl (Suc n) w"
proof -
  have "word_roti (- 1) (word_roti (- int n) w) = word_roti (- 1 + - int n) w"
    by (simp only: word_roti_add)
  also have "- 1 + - int n = - int (Suc n)" by simp
  finally show ?thesis by (simp only: rotl_roti of_nat_1)
qed

lemma rotl_64: "word_rotl 64 (w :: u32) = w"
  by (rule bit_word_eqI) (simp add: bit_word_rotl_iff)

lemma foldl_hstep: "foldl hstep h ws = word_rotl (length ws) h XOR foldl hstep 0 ws"
proof (induction ws rule: rev_induct)
  case Nil
  show ?case by (simp add: rotl_0)
next
  case (snoc b ws)
  have "foldl hstep h (ws @ [b]) = word_rotl 1 (word_rotl (length ws) h XOR foldl hstep 0 ws) XOR tab b"
    by (simp add: hstep_def [of _ b] snoc)
  then show ?case
    by (simp only: word_rot_logs rotl_rotl xor.assoc) (simp add: hstep_def [of _ b])
qed

lemma buzhash_roll:
  assumes "length w = 63"
  shows "buzhash (w @ [e]) = word_rotl 1 (buzhash (l # w)) XOR tab l XOR tab e"
proof -
  have "buzhash (l # w) = word_rotl 63 (tab l) XOR foldl hstep 0 w"
    using assms foldl_hstep [of "tab l" w] by (simp add: buzhash_def hstep_def)
  then have "word_rotl 1 (buzhash (l # w)) = tab l XOR word_rotl 1 (foldl hstep 0 w)"
    by (simp only: word_rot_logs rotl_rotl) (simp add: rotl_64)
  moreover have "buzhash (w @ [e]) = word_rotl 1 (foldl hstep 0 w) XOR tab e"
    by (simp add: buzhash_def hstep_def)
  ultimately show ?thesis
    by (simp add: xor.assoc xor.left_commute xor.commute)
qed

lemma buzhash_snoc: "buzhash (w @ [b]) = word_rotl 1 (buzhash w) XOR tab b"
  by (simp add: buzhash_def hstep_def)

lemma last64_short: "length cur \<le> 64 \<Longrightarrow> last64 cur = cur"
  by (simp add: last64_def)

lemma last64_snoc:
  assumes "64 \<le> length cur"
  shows "last64 cur = cur ! (length cur - 64) # drop (length cur - 63) cur"
    "last64 (cur @ [b]) = drop (length cur - 63) cur @ [b]"
proof -
  have "Suc (length cur - 64) = length cur - 63" "length cur - 64 < length cur"
    using assms by simp_all
  then show "last64 cur = cur ! (length cur - 64) # drop (length cur - 63) cur"
    using Cons_nth_drop_Suc [of "length cur - 64" cur] by (simp add: last64_def)
  show "last64 (cur @ [b]) = drop (length cur - 63) cur @ [b]"
    using assms by (simp add: last64_def Suc_diff_le)
qed

text \<open>
  \<open>chunk_ok c cur\<close>: the state \<open>c\<close> of a chunker that has consumed the bytes \<open>cur\<close> since the
  last boundary.
\<close>

definition chunk_ok :: "Chunker \<Rightarrow> bytes \<Rightarrow> bool" where
  "chunk_ok c cur \<longleftrightarrow>
     length (ck_window c) = 64 \<and>
     ck_winFill c = of_nat (min 64 (length cur)) \<and>
     ck_chunkSize c = len64 cur \<and>
     ck_h c = buzhash (last64 cur) \<and>
     (\<forall>j < length cur. length cur \<le> j + 64 \<longrightarrow> ck_window c ! (j mod 64) = cur ! j) \<and>
     64 < unat (ck_max c) \<and> length cur < unat (ck_max c)"

text \<open>The parameters a chunker is created with; no operation changes them.\<close>

definition same_params :: "Chunker \<Rightarrow> Chunker \<Rightarrow> bool" where
  "same_params c d \<longleftrightarrow> ck_min c = ck_min d \<and> ck_max c = ck_max d \<and>
     ck_breakMask c = ck_breakMask d \<and> ck_breakMin c = ck_breakMin d"

lemma same_params_refl [simp]: "same_params c c"
  by (simp add: same_params_def)

lemma same_params_trans: "same_params c d \<Longrightarrow> same_params d e \<Longrightarrow> same_params c e"
  by (simp add: same_params_def)

lemma breaks_cong: "same_params c d \<Longrightarrow> breaks c = breaks d"
  by (auto simp: same_params_def breaks_def fun_eq_iff)

lemma cuts_cong: "same_params c d \<Longrightarrow> cuts c cur bs = cuts d cur bs"
  by (induction bs arbitrary: cur) (auto simp: breaks_cong)

lemma unat_u64_less: "unat (w :: u64) < 18446744073709551616"
  using unsigned_less [of w] by simp

lemma chunk_ok_len: "chunk_ok c cur \<Longrightarrow> length cur < 2 ^ 64 \<and> length cur + 1 < 2 ^ 64"
  using unat_u64_less [of "ck_max c"] by (auto simp: chunk_ok_def)

lemma and_63: "unat ((of_nat n :: u64) AND 63) = n mod 64" if "n < 2 ^ 64"
proof -
  have "(of_nat n :: u64) AND 63 = of_nat n mod 64"
    using take_bit_eq_mask [of 6 "of_nat n :: u64"] by (simp add: take_bit_eq_mod mask_eq_decr_exp)
  then show ?thesis using that by (simp add: unat_mod u64_small)
qed

subsection \<open>The loops keep the invariant\<close>

lemma fill_step:
  assumes "chunk_ok c cur" "length cur < 64"
  shows "chunk_ok (c\<lparr> ck_window := (ck_window c)[unat (ck_winFill c) := b],
                     ck_h := word_rotl 1 (ck_h c) XOR tab b,
                     ck_winFill := ck_winFill c + 1,
                     ck_chunkSize := ck_chunkSize c + 1 \<rparr>) (cur @ [b])"
proof -
  have fill: "unat (ck_winFill c) = length cur"
    using assms by (simp add: chunk_ok_def u64_small)
  have "(ck_window c)[length cur := b] ! (j mod 64) = (cur @ [b]) ! j"
    if "j < Suc (length cur)" for j
    using assms that by (auto simp: chunk_ok_def nth_append nth_list_update less_Suc_eq)
  then show ?thesis
    using assms fill by (auto simp: chunk_ok_def last64_short buzhash_snoc)
qed

lemma fill_loop_chunkSize:
  "fill_loop (c\<lparr> ck_chunkSize := x \<rparr>) bs = (fill_loop c bs)\<lparr> ck_chunkSize := x \<rparr>"
proof (induction bs arbitrary: c)
  case (Cons b bs)
  have "c\<lparr> ck_chunkSize := x, ck_window := w, ck_h := h, ck_winFill := f \<rparr>
      = c\<lparr> ck_window := w, ck_h := h, ck_winFill := f \<rparr>\<lparr> ck_chunkSize := x \<rparr>" for w h f
    by simp
  then show ?case by (simp only: fill_loop.simps Cons.IH) simp
qed simp

lemma fill_loop_chunkSize_same: "ck_chunkSize (fill_loop c bs) = ck_chunkSize c"
  by (induction bs arbitrary: c) simp_all

lemma fill_loop_ok:
  assumes "chunk_ok c cur" "length cur + length bs \<le> 64"
  shows "chunk_ok ((fill_loop c bs)\<lparr> ck_chunkSize := ck_chunkSize c + len64 bs \<rparr>) (cur @ bs)
         \<and> same_params c (fill_loop c bs)"
  using assms
proof (induction bs arbitrary: c cur)
  case Nil
  then show ?case by (simp add: chunk_ok_def)
next
  case (Cons b bs)
  define c1 where "c1 = c\<lparr> ck_window := (ck_window c)[unat (ck_winFill c) := b],
                     ck_h := word_rotl 1 (ck_h c) XOR tab b,
                     ck_winFill := ck_winFill c + 1 \<rparr>"
  define c2 where "c2 = c1\<lparr> ck_chunkSize := ck_chunkSize c + 1 \<rparr>"
  have "chunk_ok c2 (cur @ [b])"
    using fill_step [OF Cons.prems(1)] Cons.prems(2) by (simp add: c2_def c1_def)
  then have "chunk_ok ((fill_loop c2 bs)\<lparr> ck_chunkSize := ck_chunkSize c2 + len64 bs \<rparr>) ((cur @ [b]) @ bs)
      \<and> same_params c2 (fill_loop c2 bs)"
    by (rule Cons.IH) (use Cons.prems in simp)
  moreover have "same_params c c2" by (simp add: c2_def c1_def same_params_def)
  moreover have "fill_loop c (b # bs) = fill_loop c1 bs" by (simp add: c1_def)
  ultimately show ?case
    by (simp add: c2_def fill_loop_chunkSize same_params_def add.assoc)
qed

lemma mod_64_neq:
  assumes "j < n" "n < j + (64::nat)"
  shows "n mod 64 \<noteq> j mod 64"
proof
  assume "n mod 64 = j mod 64"
  then have "64 dvd n - j" using assms by (simp add: mod_eq_dvd_iff_nat)
  then show False using assms nat_dvd_not_less [of "n - j" 64] by simp
qed

lemma roll_step:
  fixes e :: byte
  assumes ok: "chunk_ok c cur" and len: "64 \<le> length cur"
    and idx: "idx = ck_chunkSize c AND (of_nat windowSize - 1)"
  defines "c' \<equiv> c\<lparr> ck_h := word_rotl 1 (ck_h c) XOR tab (ck_window c ! unat idx) XOR tab e,
                   ck_chunkSize := ck_chunkSize c + 1,
                   ck_window := (ck_window c)[unat idx := e] \<rparr>"
  shows "shallBreak c' = breaks c (cur @ [e])"
    and "\<not> breaks c (cur @ [e]) \<Longrightarrow> chunk_ok c' (cur @ [e])"
    and "same_params c c'"
proof -
  have i: "unat idx = length cur mod 64"
    using ok chunk_ok_len [OF ok] by (simp add: idx chunk_ok_def windowSize_def and_63)
  have "ck_window c ! ((length cur - 64) mod 64) = cur ! (length cur - 64)"
    using ok len by (simp add: chunk_ok_def)
  moreover have "(length cur - 64) mod 64 = length cur mod 64"
    using len by (simp add: mod_if)
  ultimately have leave: "ck_window c ! unat idx = cur ! (length cur - 64)" by (simp add: i)
  have h: "ck_h c' = buzhash (last64 (cur @ [e]))"
  proof -
    have "ck_h c = buzhash (cur ! (length cur - 64) # drop (length cur - 63) cur)"
      using ok last64_snoc(1) [OF len] by (simp add: chunk_ok_def)
    then show ?thesis
      using len buzhash_roll [of "drop (length cur - 63) cur" e "cur ! (length cur - 64)"]
      by (simp add: c'_def leave last64_snoc(2) [OF len])
  qed
  have sz1: "ck_chunkSize c' = len64 (cur @ [e])" using ok by (simp add: c'_def chunk_ok_def)
  have sz2: "unat (len64 (cur @ [e])) = length (cur @ [e])"
    by (rule u64_small) (use chunk_ok_len [OF ok] in simp)
  note sz = sz1 sz2
  show "same_params c c'" by (simp add: c'_def same_params_def)
  show br: "shallBreak c' = breaks c (cur @ [e])"
    unfolding shallBreak_def breaks_def word_le_nat_alt [of "ck_max c'"] word_less_nat_alt
      sz(1) h sz(2)
    using len by (auto simp: c'_def)
  show "chunk_ok c' (cur @ [e])" if "\<not> breaks c (cur @ [e])"
  proof -
    have "(ck_window c)[length cur mod 64 := e] ! (j mod 64) = (cur @ [e]) ! j"
      if j: "j < Suc (length cur)" "Suc (length cur) \<le> j + 64" for j
    proof (cases "j = length cur")
      case True
      then show ?thesis using ok by (simp add: chunk_ok_def nth_append)
    next
      case False
      then have "length cur mod 64 \<noteq> j mod 64" using j by (intro mod_64_neq) simp_all
      with False ok j show ?thesis by (auto simp: chunk_ok_def nth_append)
    qed
    moreover have "length (cur @ [e]) < unat (ck_max c)"
      using that len ok by (auto simp: breaks_def chunk_ok_def)
    ultimately show ?thesis
      using ok h sz len by (auto simp: chunk_ok_def c'_def i)
  qed
qed

lemma chunk_ok_Reset:
  assumes "chunk_ok c cur" "same_params c c'" "length (ck_window c') = 64"
  shows "chunk_ok (Reset c') []" and "same_params c (Reset c')"
  using assms by (simp_all add: chunk_ok_def Reset_def same_params_def buzhash_def last64_def)

text \<open>
  What one call of \<open>Scan\<close> returns, against the reference: position 0 and the data appended
  to the chunk, or the end of the first prefix that breaks.
\<close>

definition scan_result :: "Chunker \<Rightarrow> bytes \<Rightarrow> bytes \<Rightarrow> nat \<Rightarrow> Chunker \<times> nat \<Rightarrow> bool" where
  "scan_result c cur data base res \<longleftrightarrow> (case res of (c', pos) \<Rightarrow>
     same_params c c' \<and>
     (if pos = 0
      then chunk_ok c' (cur @ data) \<and> cuts c cur data = ([], cur @ data)
      else base < pos \<and> pos - base \<le> length data \<and> chunk_ok c' [] \<and>
           cuts c cur data =
             ((cur @ take (pos - base) data) # fst (cuts c [] (drop (pos - base) data)),
              snd (cuts c [] (drop (pos - base) data)))))"

lemma roll_loop_result:
  assumes "chunk_ok c cur" "64 \<le> length cur"
    and "idx = ck_chunkSize c AND (of_nat windowSize - 1)"
  shows "scan_result c cur data base (roll_loop c idx data base)"
  using assms
proof (induction data arbitrary: c cur idx base)
  case Nil
  then show ?case by (simp add: scan_result_def)
next
  case (Cons e rest)
  define c' where "c' = c\<lparr> ck_h := word_rotl 1 (ck_h c) XOR tab (ck_window c ! unat idx) XOR tab e,
                   ck_chunkSize := ck_chunkSize c + 1,
                   ck_window := (ck_window c)[unat idx := e] \<rparr>"
  note step = roll_step [OF Cons.prems, of e, folded c'_def]
  have win: "length (ck_window c') = 64" using Cons.prems(1) by (simp add: c'_def chunk_ok_def)
  show ?case
  proof (cases "breaks c (cur @ [e])")
    case True
    then have "roll_loop c idx (e # rest) base = (Reset c', base + 1)"
      using step(1) by (simp add: c'_def Let_def)
    with True chunk_ok_Reset [OF Cons.prems(1) step(3) win] show ?thesis
      by (simp add: scan_result_def split: prod.splits)
  next
    case False
    then have eq: "roll_loop c idx (e # rest) base
        = roll_loop c' (ck_chunkSize c' AND (of_nat windowSize - 1)) rest (base + 1)"
      using step(1) by (simp add: c'_def Let_def)
    have "scan_result c' (cur @ [e]) rest (base + 1)
        (roll_loop c' (ck_chunkSize c' AND (of_nat windowSize - 1)) rest (base + 1))"
      by (rule Cons.IH) (use step(2) False Cons.prems in simp_all)
    then show ?thesis
      unfolding eq using False step(3) cuts_cong [OF step(3)]
      by (auto simp: scan_result_def same_params_def take_Cons' drop_Cons' split: prod.splits if_splits)
  qed
qed

lemma cuts_fill: "length cur + length data \<le> 64 \<Longrightarrow> cuts c cur data = ([], cur @ data)"
  by (induction data arbitrary: cur) (auto simp: breaks_def)

lemma cuts_append:
  "cuts c cur (a @ b) =
     (fst (cuts c cur a) @ fst (cuts c (snd (cuts c cur a)) b), snd (cuts c (snd (cuts c cur a)) b))"
  by (induction a arbitrary: cur) (auto split: prod.splits)

lemma Scan_result:
  assumes ok: "chunk_ok c cur"
  shows "scan_result c cur data 0 (Scan c data)"
proof (cases "length cur < 64")
  case False
  then have "\<not> ck_winFill c < of_nat windowSize"
    using ok by (simp add: chunk_ok_def windowSize_def)
  then show ?thesis using roll_loop_result [OF ok] False by (simp add: Scan_def)
next
  case True
  define n where "n = min (windowSize - unat (ck_winFill c)) (length data)"
  define c2 where "c2 = (fill_loop c (take n data))\<lparr> ck_chunkSize := ck_chunkSize c + of_nat n \<rparr>"
  have fill: "unat (ck_winFill c) = length cur"
    using ok True by (simp add: chunk_ok_def u64_small)
  have n: "length cur + n \<le> 64" "n \<le> length data" "n = 64 - length cur \<or> n = length data"
    using True by (auto simp: n_def fill windowSize_def min_def)
  have ok2: "chunk_ok c2 (cur @ take n data)" and par: "same_params c c2"
    using fill_loop_ok [OF ok, of "take n data"] n
    by (auto simp: c2_def same_params_def min_absorb2)
  have lt: "ck_winFill c < of_nat windowSize"
    using True fill by (simp add: word_less_nat_alt windowSize_def)
  have cf: "cuts c cur (take n data) = ([], cur @ take n data)"
    by (rule cuts_fill) (use n in simp)
  have fill2: "ck_winFill c2 < of_nat windowSize \<longleftrightarrow> length cur + n < 64"
    using ok2 n by (simp add: chunk_ok_def windowSize_def word_less_nat_alt u64_small min_def)
  show ?thesis
  proof (cases "length cur + n < 64")
    case short: True
    then have "n = length data" using n by linarith
    moreover have "Scan c data = (c2, 0)"
      using lt fill2 short
      by (simp add: Scan_def c2_def Let_def fill_loop_chunkSize_same flip: n_def)
    ultimately show ?thesis using ok2 par cf by (simp add: scan_result_def)
  next
    case full: False
    have eq: "Scan c data = roll_loop c2 (ck_chunkSize c2 AND (of_nat windowSize - 1)) (drop n data) n"
      using lt fill2 full
      by (simp add: Scan_def c2_def Let_def fill_loop_chunkSize_same flip: n_def)
    have "scan_result c2 (cur @ take n data) (drop n data) n (Scan c data)"
      unfolding eq using roll_loop_result [OF ok2 _ refl] full n by simp
    then show ?thesis
      using par cuts_cong [OF par] cuts_append [of c cur "take n data" "drop n data"] cf n(2)
      by (auto simp: scan_result_def same_params_def take_add [symmetric] add.commute
          split: prod.splits if_splits)
  qed
qed

text \<open>\<open>Split\<close> against the reference: the chunks of \<open>cuts\<close> at their offsets.\<close>

fun at_offsets :: "u64 \<Rightarrow> bytes list \<Rightarrow> Chunk list" where
  "at_offsets off [] = []"
| "at_offsets off (d # ds) = \<lparr> ch_Data = d, ch_Offset = off \<rparr> # at_offsets (off + len64 d) ds"

definition end_offset :: "u64 \<Rightarrow> bytes list \<Rightarrow> u64" where
  "end_offset off ds = off + len64 (concat ds)"

lemma at_offsets_append:
  "at_offsets off (xs @ ys) = at_offsets off xs @ at_offsets (end_offset off xs) ys"
  by (induction xs arbitrary: off) (simp_all add: end_offset_def add.assoc)

lemma end_offset_append: "end_offset off (xs @ ys) = end_offset (end_offset off xs) ys"
  by (simp add: end_offset_def add.assoc)

lemma split_seg_cuts:
  assumes "chunk_ok c cur"
  shows "\<exists>c'. split_seg c cur off seg =
           (at_offsets off (fst (cuts c cur seg)), c', snd (cuts c cur seg),
            end_offset off (fst (cuts c cur seg)))
         \<and> chunk_ok c' (snd (cuts c cur seg)) \<and> same_params c c'"
  using assms
proof (induction c cur off seg rule: split_seg.induct)
  case (1 c cur off seg)
  show ?case
  proof (cases "seg = []")
    case True
    with "1.prems" show ?thesis by (simp add: split_seg.simps [of c] end_offset_def)
  next
    case False
    obtain c' pos where sc: "Scan c seg = (c', pos)" by fastforce
    have res: "scan_result c cur seg 0 (c', pos)"
      using Scan_result [OF "1.prems", of seg] sc by simp
    show ?thesis
    proof (cases "pos = 0")
      case True
      with False sc res show ?thesis
        by (simp add: split_seg.simps [of c] scan_result_def end_offset_def)
    next
      case pos: False
      let ?cur = "cur @ take pos seg"
      let ?rest = "cuts c [] (drop pos seg)"
      from res pos have ok': "chunk_ok c' []" and par: "same_params c c'"
        and cut: "cuts c cur seg = (?cur # fst ?rest, snd ?rest)"
        by (simp_all add: scan_result_def)
      from "1.IH" [OF False sc [symmetric] pos refl ok'] cuts_cong [OF par]
      obtain c'' where "split_seg c' [] (off + len64 ?cur) (drop pos seg) =
           (at_offsets (off + len64 ?cur) (fst ?rest), c'', snd ?rest,
            end_offset (off + len64 ?cur) (fst ?rest))"
        and "chunk_ok c'' (snd ?rest)" and "same_params c' c''" by auto
      with False sc pos par cut show ?thesis
        by (auto simp: split_seg.simps [of c cur] end_offset_def add.assoc same_params_def)
    qed
  qed
qed

definition chunks_of :: "Chunker \<Rightarrow> bytes \<Rightarrow> bytes list" where
  "chunks_of c bs = (let (xs, r) = cuts c [] bs in xs @ (if r = [] then [] else [r]))"

lemma split_loop_cuts:
  assumes "chunk_ok c cur"
  shows "split_loop c cur off r =
     (let (xs, rest) = cuts c cur (rd_bytes r) in
      map Inr (at_offsets off (xs @ (if rest = [] \<or> rd_error r \<noteq> None then [] else [rest])))
      @ (case rd_error r of None \<Rightarrow> [] | Some e \<Rightarrow> [Inl (ChunkerRead e)]))"
  using assms
proof (induction r arbitrary: c cur off rule: rd_bytes.induct)
  case 1
  then show ?case by simp
next
  case (2 buf r)
  from split_seg_cuts [OF 2(2), of off buf]
  obtain c' where c': "split_seg c cur off buf =
           (at_offsets off (fst (cuts c cur buf)), c', snd (cuts c cur buf),
            end_offset off (fst (cuts c cur buf)))"
    "chunk_ok c' (snd (cuts c cur buf))" "same_params c c'" by blast
  show ?case
    using c'(1) 2(1) [OF c'(2)] cuts_cong [OF c'(3)] cuts_append [of c cur buf "rd_bytes r"]
    by (auto simp: at_offsets_append end_offset_append split: prod.splits option.splits)
next
  case (3 buf r)
  then show ?case using split_seg_cuts [OF 3(1), of off buf]
    by (auto simp: at_offsets_append split: prod.splits)
next
  case (4 buf e r)
  then show ?case using split_seg_cuts [OF 4(1), of off buf]
    by (auto simp: at_offsets_append split: prod.splits)
qed

lemma New_params:
  assumes "New avg = Inr c" "unat avg < 2 ^ 62"
  shows "chunk_ok c []" and "unat (ck_min c) \<le> unat (ck_max c)" and "64 < unat (ck_max c)"
proof -
  define a where "a = (if avg = 0 then DefaultAvg else avg)"
  have a62: "unat a < 2 ^ 62"
    using assms(2) by (simp add: a_def DefaultAvg_def)
  have "New avg = (if a AND (a - 1) \<noteq> 0 \<or> a < 256 then Inl (BadAverage a)
      else Inr \<lparr> ck_h = 0, ck_winFill = 0, ck_chunkSize = 0,
               ck_min = drop_bit 2 a, ck_max = push_bit 2 a,
               ck_breakMask = ucast (a * 2 - 1), ck_breakMin = ucast (a * 2 - 1) - 2,
               ck_window = replicate 64 0 \<rparr>)"
    unfolding New_def a_def Let_def windowSize_def by simp
  with assms(1) have ceq: "256 \<le> a \<and> \<lparr> ck_h = 0, ck_winFill = 0, ck_chunkSize = 0,
               ck_min = drop_bit 2 a, ck_max = push_bit 2 a,
               ck_breakMask = ucast (a * 2 - 1), ck_breakMin = ucast (a * 2 - 1) - 2,
               ck_window = replicate 64 0 \<rparr> = c"
    by (simp only: sum.inject sum.distinct not_less de_Morgan_disj simp_thms split: if_splits)
  have c: "256 \<le> a" "ck_min c = drop_bit 2 a" "ck_max c = push_bit 2 a"
    "c = Reset c" "length (ck_window c) = 64"
    unfolding conjunct2 [OF ceq, symmetric] by (simp_all add: Reset_def conjunct1 [OF ceq])
  have mx: "unat (ck_max c) = unat a * 4"
    using a62 by (simp add: c(3) push_bit_eq_mult unat_word_ariths)
  have mn: "unat (ck_min c) = unat a div 4"
    by (simp add: c(2) drop_bit_eq_div unat_div)
  have "256 \<le> unat a" using c(1) by (simp add: word_le_nat_alt)
  then show g: "64 < unat (ck_max c)" by (simp add: mx)
  show "unat (ck_min c) \<le> unat (ck_max c)" by (simp add: mx mn)
  have "chunk_ok (Reset c) []"
    using g c(5) by (simp add: chunk_ok_def Reset_def buzhash_def last64_def)
  then show "chunk_ok c []" using c(4) by simp
qed

lemma Split_cuts_lemma:
  assumes "New avg = Inr c" "unat avg < 2 ^ 62"
  shows "Split r avg =
     (case rd_error r of
        None \<Rightarrow> map Inr (at_offsets 0 (chunks_of c (rd_bytes r)))
      | Some e \<Rightarrow> map Inr (at_offsets 0 (fst (cuts c [] (rd_bytes r)))) @ [Inl (ChunkerRead e)])"
  using split_loop_cuts [OF New_params(1) [OF assms], of 0 r] assms(1)
  by (auto simp: Split_def chunks_of_def split: option.splits prod.splits)

lemma cuts_bounds:
  assumes "64 < unat (ck_max c)" "unat (ck_min c) \<le> unat (ck_max c)" "length cur < unat (ck_max c)"
  shows "concat (fst (cuts c cur bs)) @ snd (cuts c cur bs) = cur @ bs \<and>
         length (snd (cuts c cur bs)) < unat (ck_max c) \<and>
         (\<forall>x \<in> set (fst (cuts c cur bs)). 64 < length x \<and> unat (ck_min c) \<le> length x
                \<and> length x \<le> unat (ck_max c))"
  using assms(3)
proof (induction bs arbitrary: cur)
  case Nil
  then show ?case by simp
next
  case (Cons b bs)
  show ?case
  proof (cases "breaks c (cur @ [b])")
    case True
    then have "64 < length (cur @ [b])" "unat (ck_min c) \<le> length (cur @ [b])"
      using assms(2) by (auto simp: breaks_def)
    with True Cons.IH [of "[]"] Cons.prems assms show ?thesis by (auto split: prod.splits)
  next
    case False
    then have "length (cur @ [b]) < unat (ck_max c)"
      using Cons.prems assms(1) by (auto simp: breaks_def)
    with False Cons.IH [of "cur @ [b]"] show ?thesis by simp
  qed
qed

lemma map_Data_at_offsets [simp]: "map ch_Data (at_offsets off ds) = ds"
  by (induction ds arbitrary: off) auto

lemma length_at_offsets [simp]: "length (at_offsets off ds) = length ds"
  by (induction ds arbitrary: off) auto

lemma at_offsets_nth:
  "i < length ds \<Longrightarrow> ch_Offset (at_offsets off ds ! i) = off + len64 (concat (take i ds))"
proof (induction ds arbitrary: off i)
  case (Cons d ds)
  then show ?case by (cases i) (simp_all add: add.assoc)
qed simp

subsection \<open>Properties\<close>

text \<open>
  C9: Refinement of the rolling-hash chunker to the reference cut.  For every average that
  \<open>New\<close> accepts below 2^62, and every reader, \<open>Split\<close> yields exactly the chunks of the
  reference \<open>cuts\<close> of the delivered bytes, in order and at their offsets; at the end of the
  stream the rest is the last chunk, on a read error the error is the last element.
\<close>

theorem Split_refines_cuts:
  assumes "New avg = Inr c" "unat avg < 2 ^ 62"
  shows "Split r avg =
     (case rd_error r of
        None \<Rightarrow> map Inr (at_offsets 0 (chunks_of c (rd_bytes r)))
      | Some e \<Rightarrow> map Inr (at_offsets 0 (fst (cuts c [] (rd_bytes r)))) @ [Inl (ChunkerRead e)])"
  by (rule Split_cuts_lemma [OF assms])

definition example_chunker :: Chunker where
  "example_chunker = (case New 256 of Inr c \<Rightarrow> c | Inl _ \<Rightarrow> undefined)"

lemma New_256: "New 256 = Inr example_chunker"
  by (simp add: example_chunker_def New_def windowSize_def)

theorem Split_refines_cuts_witness:
  "Split [([7, 8], ROk), ([9], RErr ''disk'')] 256 = [Inl (ChunkerRead ''disk'')]"
  using Split_refines_cuts [OF New_256, of "[([7, 8], ROk), ([9], RErr ''disk'')]"]
  by (simp add: breaks_def)

text \<open>
  Boundaries depend on content only: two readers that deliver the same bytes, cut into
  segments in whatever way, yield the same chunks.
\<close>

theorem Split_segmentation_independent:
  assumes "rd_bytes r = rd_bytes r'" "rd_error r = rd_error r'" "unat avg < 2 ^ 62"
  shows "Split r avg = Split r' avg"
proof (cases "New avg")
  case (Inl e)
  then show ?thesis by (simp add: Split_def)
next
  case (Inr c)
  show ?thesis by (simp only: Split_cuts_lemma [OF Inr assms(3)] assms(1,2))
qed

theorem Split_segmentation_independent_witness:
  "Split [([1, 2], ROk), ([], ROk), ([3], REof)] 256 = Split [([1], ROk), ([2, 3], ROk)] 256"
  by (rule Split_segmentation_independent) simp_all

text \<open>
  C21: The chunks partition the stream and respect the size bounds: their data concatenates to
  the bytes delivered, each chunk's offset is the number of bytes before it, every chunk but
  the last is at least the minimum (and longer than the window) and no chunk exceeds the
  maximum.
\<close>

theorem Split_partition_bounds:
  assumes "New avg = Inr c" "unat avg < 2 ^ 62" "rd_error r = None"
  shows "\<exists>cs. Split r avg = map Inr cs \<and> concat (map ch_Data cs) = rd_bytes r \<and>
     (\<forall>i < length cs. ch_Offset (cs ! i) = len64 (concat (map ch_Data (take i cs)))) \<and>
     (\<forall>d \<in> set (butlast cs). 64 < length (ch_Data d) \<and> unat (ck_min c) \<le> length (ch_Data d)) \<and>
     (\<forall>d \<in> set cs. ch_Data d \<noteq> [] \<and> length (ch_Data d) \<le> unat (ck_max c))"
proof -
  obtain xs rest where cut: "cuts c [] (rd_bytes r) = (xs, rest)" by fastforce
  define ds where "ds = xs @ (if rest = [] then [] else [rest])"
  define cs where "cs = at_offsets 0 ds"
  note b = cuts_bounds [OF New_params(3,2) [OF assms(1,2)], of "[]" "rd_bytes r", unfolded cut]
  have xs: "\<forall>x \<in> set xs. 64 < length x \<and> unat (ck_min c) \<le> length x \<and> length x \<le> unat (ck_max c)"
    and rest: "length rest < unat (ck_max c)" and cat: "concat xs @ rest = rd_bytes r"
    using b New_params(3) [OF assms(1,2)] by auto
  have split: "Split r avg = map Inr cs"
    using Split_cuts_lemma [OF assms(1,2), of r] assms(3)
    by (simp add: cs_def ds_def chunks_of_def cut)
  have data: "map ch_Data cs = ds" by (simp add: cs_def)
  have off: "\<forall>i < length cs. ch_Offset (cs ! i) = len64 (concat (map ch_Data (take i cs)))"
    unfolding take_map [symmetric] data by (simp add: cs_def at_offsets_nth)
  have "\<forall>d \<in> set cs. ch_Data d \<in> set ds" and "\<forall>d \<in> set (butlast cs). ch_Data d \<in> set (butlast ds)"
    using data by (auto simp flip: data map_butlast)
  moreover have "\<forall>x \<in> set ds. x \<noteq> [] \<and> length x \<le> unat (ck_max c)" "set (butlast ds) \<subseteq> set xs"
    using xs rest by (auto simp: ds_def butlast_append dest: in_set_butlastD)
  moreover have "concat ds = rd_bytes r" using cat by (auto simp: ds_def)
  ultimately show ?thesis
    using split off data xs by (intro exI [of _ cs] conjI) auto
qed

theorem Split_partition_bounds_witness:
  "\<exists>cs. Split [([1, 2, 3], REof)] 256 = map Inr cs \<and> concat (map ch_Data cs) = [1, 2, 3]"
  using Split_partition_bounds [OF New_256, of "[([1, 2, 3], REof)]"] by auto

text \<open>
  The arithmetic of \<open>New\<close> is not guarded against overflow: it accepts the average 2^62, a
  power of two, and sets the maximum to \<open>avg << 2 = 0\<close>.  Every chunk of a longer stream is then
  cut after 65 bytes, although the requested average is 2^62.
\<close>

theorem New_max_overflow:
  "\<exists>c. New (2 ^ 62) = Inr c \<and> ck_max c = 0 \<and> (\<forall>a k. snd (Scan c (replicate (65 + k) a)) = 65)"
proof -
  define c where "c = \<lparr> ck_h = 0, ck_winFill = 0, ck_chunkSize = 0, ck_min = 2 ^ 60, ck_max = 0,
     ck_breakMask = - 1, ck_breakMin = - 3, ck_window = replicate 64 0 \<rparr>"
  have new: "New (2 ^ 62) = Inr c"
    by (simp add: New_def c_def windowSize_def)
  have par: "ck_max (fill_loop d bs) = ck_max d" "ck_winFill (fill_loop d bs) = ck_winFill d + len64 bs"
    for d :: Chunker and bs
    by (induction bs arbitrary: d) (simp_all add: add.assoc)
  have "snd (Scan c data) = 65" if len: "length data > 64" for data
  proof -
    obtain e rest where "drop 64 data = e # rest" using len by (cases "drop 64 data") auto
    then show ?thesis using len
      by (simp add: Scan_def c_def windowSize_def par Let_def shallBreak_def)
  qed
  then have "snd (Scan c (replicate (65 + k) a)) = 65" for a k by simp
  with new show ?thesis by (intro exI [of _ c]) (simp add: c_def)
qed

end
