(* ===== verification/Glob.thy ===== *)
theory Glob
  imports Prelude
begin

unbundle bit_operations_syntax

text \<open>
  Exclude patterns: the compiled glob and its matcher (\<^verbatim>\<open>src/scan/glob.go\<close>) with what it uses of
  \<open>unicode/utf8\<close>.

  Every slice and index expression of the matcher that could be out of range is a branch: \<open>None\<close> is
  the panic.  The matcher recurses on the pattern, so it is total; that it never panics is the
  theorem, and it rests on \<open>compileGlob\<close> scanning bracket classes byte by byte where the matcher scans
  them rune by rune.
\<close>

subsection \<open>Runes\<close>

text \<open>\<open>utf8.DecodeRuneInString\<close>: the rune, or U+FFFD with width 1 for invalid input.\<close>

definition cont :: "byte \<Rightarrow> bool" where
  "cont b \<longleftrightarrow> 0x80 \<le> b \<and> b \<le> 0xBF"

definition second_ok :: "byte \<Rightarrow> byte \<Rightarrow> bool" where
  "second_ok a b \<longleftrightarrow>
     (if a = 0xE0 then 0xA0 \<le> b \<and> b \<le> 0xBF
      else if a = 0xED then 0x80 \<le> b \<and> b \<le> 0x9F
      else if a = 0xF0 then 0x90 \<le> b \<and> b \<le> 0xBF
      else if a = 0xF4 then 0x80 \<le> b \<and> b \<le> 0x8F
      else cont b)"

definition bits :: "byte \<Rightarrow> byte \<Rightarrow> nat" where
  "bits b m = unat (b AND m)"

fun DecodeRune :: "bytes \<Rightarrow> nat \<times> nat" where
  "DecodeRune [] = (0xFFFD, 0)"
| "DecodeRune (a # s) =
     (if a < 0x80 then (unat a, 1)
      else if 0xC2 \<le> a \<and> a \<le> 0xDF then
        (case s of
           b # _ \<Rightarrow> if cont b then (bits a 0x1F * 64 + bits b 0x3F, 2) else (0xFFFD, 1)
         | _ \<Rightarrow> (0xFFFD, 1))
      else if 0xE0 \<le> a \<and> a \<le> 0xEF then
        (case s of
           b # c # _ \<Rightarrow>
             if second_ok a b \<and> cont c then (bits a 0x0F * 4096 + bits b 0x3F * 64 + bits c 0x3F, 3) else (0xFFFD, 1)
         | _ \<Rightarrow> (0xFFFD, 1))
      else if 0xF0 \<le> a \<and> a \<le> 0xF4 then
        (case s of
           b # c # d # _ \<Rightarrow>
             if second_ok a b \<and> cont c \<and> cont d
             then (bits a 0x07 * 262144 + bits b 0x3F * 4096 + bits c 0x3F * 64 + bits d 0x3F, 4) else (0xFFFD, 1)
         | _ \<Rightarrow> (0xFFFD, 1))
      else (0xFFFD, 1))"

abbreviation width :: "bytes \<Rightarrow> nat" where "width s \<equiv> snd (DecodeRune s)"

lemma second_high: "second_ok a b \<Longrightarrow> 0x80 \<le> b"
  by (auto simp: second_ok_def cont_def word_le_nat_alt split: if_splits)

lemma width_bounds: "s \<noteq> [] \<Longrightarrow> 1 \<le> width s \<and> width s \<le> length s"
  by (cases s) (auto split: list.splits)

declare DecodeRune.simps(2) [simp del]

text \<open>What follows the first byte of a rune is never an ASCII byte.\<close>

lemma width_high: "b \<in> set (take (width (a # s) - 1) s) \<Longrightarrow> 0x80 \<le> b"
  by (auto simp: DecodeRune.simps cont_def dest: second_high split: if_splits list.splits)

subsection \<open>Compilation\<close>

abbreviation c_star :: byte where "c_star \<equiv> 42"
abbreviation c_quest :: byte where "c_quest \<equiv> 63"
abbreviation c_open :: byte where "c_open \<equiv> 91"
abbreviation c_close :: byte where "c_close \<equiv> 93"
abbreviation c_back :: byte where "c_back \<equiv> 92"
abbreviation c_caret :: byte where "c_caret \<equiv> 94"
abbreviation c_dash :: byte where "c_dash \<equiv> 45"
abbreviation c_slash :: byte where "c_slash \<equiv> 47"

datatype glob_error = UnterminatedClass | TrailingEscape

text \<open>The length of a class body up to and with the closing bracket, past the leading \<open>^\<close> and \<open>]\<close>.\<close>

fun class_scan :: "bytes \<Rightarrow> nat option" where
  "class_scan [] = None"
| "class_scan (c # r) =
     (if c = c_close then Some 1
      else if c = c_back then
        (case r of [] \<Rightarrow> None | d # r' \<Rightarrow> map_option (\<lambda>k. k + 2) (class_scan r'))
      else map_option Suc (class_scan r))"

definition class_lead :: "bytes \<Rightarrow> nat" where
  "class_lead r =
     (let j = (if r \<noteq> [] \<and> hd r = c_caret then 1 else 0) in
      if drop j r \<noteq> [] \<and> hd (drop j r) = c_close then j + 1 else j)"

definition class_len :: "bytes \<Rightarrow> nat option" where
  "class_len r = map_option (\<lambda>k. class_lead r + k) (class_scan (drop (class_lead r) r))"

function glob_split :: "bytes \<Rightarrow> bytes \<Rightarrow> glob_error + bytes list" where
  "glob_split cur [] = Inr [cur]"
| "glob_split cur (c # r) =
     (if c = c_slash then (case glob_split [] r of Inl e \<Rightarrow> Inl e | Inr cs \<Rightarrow> Inr (cur # cs))
      else if c = c_back then
        (case r of [] \<Rightarrow> Inl TrailingEscape | d # r' \<Rightarrow> glob_split (cur @ [c, d]) r')
      else if c = c_open then
        (case class_len r of
           None \<Rightarrow> Inl UnterminatedClass
         | Some k \<Rightarrow> glob_split (cur @ c # take k r) (drop k r))
      else glob_split (cur @ [c]) r)"
  by pat_completeness auto
termination
  by (relation "measure (\<lambda>(cur, r). length r)") auto

definition compileGlob :: "bytes \<Rightarrow> glob_error + bytes list" where
  "compileGlob pat = glob_split [] pat"

subsection \<open>Matching\<close>

definition classRune :: "bytes \<Rightarrow> nat \<times> nat" where
  "classRune p =
     (case p of
        c # q \<Rightarrow> if c = c_back \<and> q \<noteq> [] then (case DecodeRune q of (r, n) \<Rightarrow> (r, n + 1)) else DecodeRune p
      | [] \<Rightarrow> DecodeRune p)"

lemma classRune_bounds: "p \<noteq> [] \<Longrightarrow> 1 \<le> snd (classRune p) \<and> snd (classRune p) \<le> length p"
  using width_bounds [of p] width_bounds [of "tl p"] by (cases p) (auto simp: classRune_def split: prod.splits)

text \<open>The loop of \<open>matchClass\<close>; \<open>None\<close> is \<open>classRune\<close> on an empty pattern.\<close>

function class_loop :: "bytes \<Rightarrow> nat \<Rightarrow> bool \<Rightarrow> bool \<Rightarrow> (bytes \<times> bool) option" where
  "class_loop p r first matched =
     (if p = [] then None
      else if hd p = c_close \<and> \<not> first then Some (tl p, matched)
      else
        (let lo = fst (classRune p); p1 = drop (snd (classRune p)) p in
         if 2 \<le> length p1 \<and> p1 ! 0 = c_dash \<and> p1 ! 1 \<noteq> c_close
         then
           (let hi = fst (classRune (tl p1)) in
            class_loop (drop (1 + snd (classRune (tl p1))) p1) r False (matched \<or> lo \<le> r \<and> r \<le> hi))
         else class_loop p1 r False (matched \<or> lo \<le> r \<and> r \<le> lo)))"
  by pat_completeness auto
termination
  by (relation "measure (\<lambda>(p, r, f, m). length p)") (use classRune_bounds in \<open>fastforce simp: Let_def\<close>)+

declare class_loop.simps [simp del]

definition matchClass :: "bytes \<Rightarrow> nat \<Rightarrow> (bytes \<times> bool) option" where
  "matchClass p r =
     (let negate = (p \<noteq> [] \<and> hd p = c_caret);
          q = (if negate then tl p else p)
      in map_option (\<lambda>(rest, matched). (rest, matched \<noteq> negate)) (class_loop q r True False))"

text \<open>The loop over the suffixes of the string behind a star.\<close>

fun try_suffixes :: "('a list \<Rightarrow> bool option) \<Rightarrow> 'a list \<Rightarrow> bool option" where
  "try_suffixes f [] = f []"
| "try_suffixes f (x # s) =
     (case f (x # s) of
        None \<Rightarrow> None
      | Some True \<Rightarrow> Some True
      | Some False \<Rightarrow> try_suffixes f s)"

lemma try_suffixes_cong [fundef_cong]:
  "(\<And>x. f x = g x) \<Longrightarrow> s = s' \<Longrightarrow> try_suffixes f s = try_suffixes g s'"
  by (metis ext)

lemma class_loop_shorter: "class_loop p r f m = Some (q, b) \<Longrightarrow> length q < length p"
proof (induction p r f m rule: class_loop.induct)
  case (1 p r f m)
  show ?case
  proof (cases "p = [] \<or> hd p = c_close \<and> \<not> f")
    case True
    then show ?thesis using "1.prems" unfolding class_loop.simps [of p] by (cases p) auto
  next
    case False
    define p1 where "p1 = drop (snd (classRune p)) p"
    have l: "length p1 < length p" using classRune_bounds [of p] False by (simp add: p1_def)
    have ne: "p \<noteq> []" "\<not> (hd p = c_close \<and> \<not> f)" using False by auto
    note u = class_loop.simps [of p r f m, unfolded if_not_P [OF ne(1)] if_not_P [OF ne(2)] Let_def, folded p1_def]
    show ?thesis
    proof (cases "2 \<le> length p1 \<and> p1 ! 0 = c_dash \<and> p1 ! 1 \<noteq> c_close")
      case True
      then show ?thesis using u [unfolded if_P [OF True]] l "1.prems" "1.IH"(1) [OF ne refl p1_def True refl] by simp
    next
      case no: False
      show ?thesis using u [unfolded if_not_P [OF no]] l "1.prems" "1.IH"(2) [OF ne refl p1_def no] by simp
    qed
  qed
qed

lemma matchClass_shorter: "matchClass p r = Some (q, b) \<Longrightarrow> length q < length p"
  by (cases p) (auto simp: matchClass_def Let_def less_Suc_eq dest!: class_loop_shorter split: if_splits)

function matchComponent :: "bytes \<Rightarrow> bytes \<Rightarrow> bool option" where
  "matchComponent [] s = Some (s = [])"
| "matchComponent (c # p) s =
     (if c = c_star then
        (let q = dropWhile (\<lambda>b. b = c_star) p in
         if q = [] then Some True else try_suffixes (matchComponent q) s)
      else if c = c_quest then
        (if s = [] then Some False else matchComponent p (drop (width s) s))
      else if c = c_open then
        (if s = [] then Some False
         else
           (case matchClass p (fst (DecodeRune s)) of
              None \<Rightarrow> None
            | Some (rest, ok) \<Rightarrow> if \<not> ok then Some False else matchComponent rest (drop (width s) s)))
      else
        (let q = (if c = c_back then p else c # p) in
         if q = [] then Some (s = [])
         else if \<not> has_prefix s (take (width q) q) then Some False
         else matchComponent (drop (width q) q) (drop (width q) s)))"
  by pat_completeness auto
termination
proof (relation "measure (\<lambda>(p, s). length p)", goal_cases)
  case (2 c p s q x)
  then show ?case using length_dropWhile_le [of "\<lambda>b. b = c_star" p] by simp
next
  case (4 c p s x rest ok)
  then show ?case using matchClass_shorter [of p "fst (DecodeRune s)" rest ok] by simp
next
  case (5 c p s q)
  then show ?case using width_bounds [of q] by (auto split: if_splits)
qed auto


text \<open>Matching path components, with \<open>**\<close>.\<close>

abbreviation dstar :: bytes where "dstar \<equiv> [c_star, c_star]"

function matchComps :: "bytes list \<Rightarrow> bytes list \<Rightarrow> bool option" where
  "matchComps [] path = Some (path = [])"
| "matchComps (p # pat) path =
     (if p = dstar then
        (let q = dropWhile (\<lambda>b. b = dstar) pat in
         if q = [] then Some (path \<noteq> []) else try_suffixes (matchComps q) path)
      else
        (case path of
           [] \<Rightarrow> Some False
         | x # path' \<Rightarrow>
             (case matchComponent p x of
                None \<Rightarrow> None
              | Some b \<Rightarrow> if b then matchComps pat path' else Some False)))"
  by pat_completeness auto
termination
proof (relation "measure (\<lambda>(p, s). length p)", goal_cases)
  case (2 p pat path q x)
  then show ?case using length_dropWhile_le [of "\<lambda>b. b = dstar" pat] by simp
qed auto

subsection \<open>A compiled glob never panics\<close>

text \<open>Well-formed patterns, byte by byte: every escape and every class is closed.\<close>

function wf_glob :: "bytes \<Rightarrow> bool" where
  "wf_glob [] \<longleftrightarrow> True"
| "wf_glob (c # r) \<longleftrightarrow>
     (if c = c_back then r \<noteq> [] \<and> wf_glob (tl r)
      else if c = c_open then (case class_len r of None \<Rightarrow> False | Some k \<Rightarrow> wf_glob (drop k r))
      else wf_glob r)"
  by pat_completeness auto
termination by (relation "measure length") auto

definition ordinary :: "byte \<Rightarrow> bool" where
  "ordinary b \<longleftrightarrow> b \<notin> {c_back, c_open, c_close}"

lemma high_ordinary: "0x80 \<le> b \<Longrightarrow> ordinary b"
  by (auto simp: ordinary_def word_le_nat_alt)

lemma class_scan_skip:
  "\<forall>b \<in> set xs. ordinary b \<Longrightarrow> class_scan (xs @ p) = map_option (\<lambda>k. length xs + k) (class_scan p)"
proof (induction xs)
  case (Cons x xs)
  then show ?case by (cases "class_scan p") (auto simp: ordinary_def)
qed (cases "class_scan p", simp_all)

lemma wf_glob_skip: "\<forall>b \<in> set xs. ordinary b \<Longrightarrow> wf_glob (xs @ p) = wf_glob p"
  by (induction xs) (auto simp: ordinary_def)

lemma rune_tail: "\<forall>b \<in> set (take (width (a # s) - 1) s). ordinary b"
  using width_high high_ordinary by blast

lemma rune_split: "s = take (width (a # s) - 1) s @ drop (width (a # s)) (a # s)"
  using width_bounds [of "a # s"] by (cases "width (a # s)") auto

lemma rune_tail_len: "length (take (width (a # s) - 1) s) = width (a # s) - 1"
  using width_bounds [of "a # s"] by (simp add: min_def) linarith

text \<open>One class member, read as a rune, is the bytes that the byte scan skips.\<close>

lemma classRune_scan:
  assumes "class_scan p = Some k" "hd p \<noteq> c_close"
  shows "\<exists>k'. class_scan (drop (snd (classRune p)) p) = Some k' \<and> k = snd (classRune p) + k'"
proof -
  obtain c q where p: "p = c # q" using assms(1) by (cases p) auto
  show ?thesis
  proof (cases "c = c_back")
    case True
    then obtain d q' where q: "q = d # q'" using assms(1) p by (cases q) auto
    define w where "w = width (d # q')"
    have w: "1 \<le> w" using width_bounds [of "d # q'"] by (simp add: w_def)
    obtain k1 where k1: "class_scan q' = Some k1" "k = k1 + 2" using assms(1) p q True by auto
    have "class_scan (take (w - 1) q' @ drop w (d # q')) = map_option (\<lambda>k. (w - 1) + k) (class_scan (drop w (d # q')))"
      using class_scan_skip [OF rune_tail [of d q'], of "drop w (d # q')"] rune_tail_len [of d q'] by (simp add: w_def)
    then have "map_option (\<lambda>k. (w - 1) + k) (class_scan (drop w (d # q'))) = Some k1"
      using k1(1) rune_split [of q' d] by (simp add: w_def)
    moreover have "snd (classRune p) = w + 1" "drop (w + 1) p = drop w (d # q')"
      using p q True by (simp_all add: classRune_def w_def split: prod.splits)
    ultimately show ?thesis using k1(2) w by auto
  next
    case False
    define w where "w = width (c # q)"
    have w: "1 \<le> w" using width_bounds [of "c # q"] by (simp add: w_def)
    obtain k1 where k1: "class_scan q = Some k1" "k = Suc k1" using assms p False by auto
    have "class_scan (take (w - 1) q @ drop w (c # q)) = map_option (\<lambda>k. (w - 1) + k) (class_scan (drop w (c # q)))"
      using class_scan_skip [OF rune_tail [of c q], of "drop w (c # q)"] rune_tail_len [of c q] by (simp add: w_def)
    then have "map_option (\<lambda>k. (w - 1) + k) (class_scan (drop w (c # q))) = Some k1"
      using k1(1) rune_split [of q c] by (simp add: w_def)
    moreover have "snd (classRune p) = w" using p False by (simp add: classRune_def w_def)
    ultimately show ?thesis using k1(2) w p by auto
  qed
qed

lemma class_loop_scan:
  assumes "class_scan p = Some k"
  shows "\<exists>b. class_loop p r False m = Some (drop k p, b)"
  using assms
proof (induction "length p" arbitrary: p k m rule: less_induct)
  case less
  have ne: "p \<noteq> []" using less.prems by auto
  show ?case
  proof (cases "hd p = c_close")
    case True
    then show ?thesis using less.prems ne by (cases p) (auto simp: class_loop.simps [of "c_close # _"])
  next
    case False
    define n where "n = snd (classRune p)"
    define p1 where "p1 = drop n p"
    have n: "1 \<le> n" "n \<le> length p" using classRune_bounds [OF ne] by (simp_all add: n_def)
    obtain k1 where k1: "class_scan p1 = Some k1" "k = n + k1"
      using classRune_scan [OF less.prems False] by (auto simp: n_def p1_def)
    have l1: "length p1 < length p" using n by (simp add: p1_def)
    note u = class_loop.simps [of p r False m, unfolded if_not_P [OF ne] Let_def, folded n_def, folded p1_def]
    show ?thesis
    proof (cases "2 \<le> length p1 \<and> p1 ! 0 = c_dash \<and> p1 ! 1 \<noteq> c_close")
      case True
      then obtain e q where p1: "p1 = c_dash # e # q" "e \<noteq> c_close" by (cases p1; cases "tl p1") auto
      have sc: "class_scan (e # q) = Some (k1 - 1)" "1 \<le> k1" using k1(1) p1 by auto
      define n2 where "n2 = snd (classRune (e # q))"
      obtain k2 where k2: "class_scan (drop n2 (e # q)) = Some k2" "k1 - 1 = n2 + k2"
        using classRune_scan [OF sc(1)] p1(2) by (auto simp: n2_def)
      have d: "drop (1 + n2) p1 = drop n2 (e # q)" by (simp add: p1(1))
      obtain b where "class_loop (drop n2 (e # q)) r False (m \<or> fst (classRune p) \<le> r \<and> r \<le> fst (classRune (e # q))) =
          Some (drop k2 (drop n2 (e # q)), b)"
        using less.hyps [OF _ k2(1)] l1 p1(1) by fastforce
      moreover have "drop k2 (drop n2 (e # q)) = drop k p"
      proof -
        have "k = k2 + (1 + n2) + n" using k1(2) k2(2) sc(2) by simp
        then show ?thesis unfolding d [symmetric] p1_def drop_drop by (simp add: ac_simps)
      qed
      ultimately show ?thesis using u [unfolded if_P [OF True]] False ne
        by (simp add: d n2_def [symmetric] p1(1))
    next
      case no: False
      obtain b where "class_loop p1 r False (m \<or> fst (classRune p) \<le> r \<and> r \<le> fst (classRune p)) = Some (drop k1 p1, b)"
        using less.hyps [OF l1 k1(1)] by blast
      then show ?thesis using u [unfolded if_not_P [OF no]] False k1(2) by (simp add: p1_def add.commute)
    qed
  qed
qed


lemma matchClass_scan:
  assumes "class_len p = Some k"
  shows "\<exists>b. matchClass p r = Some (drop k p, b)"
proof -
  define neg where "neg = (p \<noteq> [] \<and> hd p = c_caret)"
  define q where "q = (if neg then tl p else p)"
  define j where "j = (if neg then 1 else 0 :: nat)"
  have q: "q = drop j p" by (auto simp: q_def j_def drop_Suc)
  obtain k0 where k0: "class_scan (drop (class_lead p) p) = Some k0" "k = class_lead p + k0"
    using assms by (auto simp: class_len_def)
  have lead: "class_lead p = (if q \<noteq> [] \<and> hd q = c_close then j + 1 else j)"
    by (simp add: class_lead_def Let_def q j_def neg_def [symmetric])
  have "\<exists>b. class_loop q r True False = Some (drop k p, b)"
  proof (cases "q \<noteq> [] \<and> hd q = c_close")
    case True
    then obtain q' where q': "q = c_close # q'" by (cases q) auto
    have dq: "drop (j + 1) p = q'" using q q' by (metis Suc_eq_plus1 drop_Suc list.sel(3) tl_drop)
    have cr: "classRune q = (93, 1)" by (simp add: classRune_def q' DecodeRune.simps)
    have sc: "class_scan q' = Some k0" using k0(1) lead True dq by simp
    have kp: "drop k p = drop k0 q'" using k0(2) lead True dq by (metis add.commute drop_drop)
    note u = class_loop.simps [of q r True False, unfolded Let_def cr fst_conv snd_conv]
    show ?thesis
    proof (cases "2 \<le> length q' \<and> q' ! 0 = c_dash \<and> q' ! 1 \<noteq> c_close")
      case True
      then obtain e x where x: "q' = c_dash # e # x" "e \<noteq> c_close" by (cases q'; cases "tl q'") auto
      have sc2: "class_scan (e # x) = Some (k0 - 1)" "1 \<le> k0" using sc x by auto
      define n2 where "n2 = snd (classRune (e # x))"
      obtain k2 where k2: "class_scan (drop n2 (e # x)) = Some k2" "k0 - 1 = n2 + k2"
        using classRune_scan [OF sc2(1)] x(2) by (auto simp: n2_def)
      have "drop k2 (drop n2 (e # x)) = drop k p"
      proof -
        have "k0 = k2 + n2 + 1" using k2(2) sc2(2) by simp
        then show ?thesis unfolding kp x(1) drop_drop by simp
      qed
      then show ?thesis using u True class_loop_scan [OF k2(1)] by (simp add: q' x(1) n2_def [symmetric])
    next
      case False
      then show ?thesis using u class_loop_scan [OF sc] kp by (auto simp: q')
    qed
  next
    case False
    have sc: "class_scan q = Some k0" using k0(1) lead [unfolded if_not_P [OF False]] q by simp
    have kp: "drop k p = drop k0 q" using k0(2) lead [unfolded if_not_P [OF False]] q by (simp add: add.commute)
    have "class_loop q r True False = class_loop q r False False"
      using False by (subst (1 2) class_loop.simps) auto
    then show ?thesis using class_loop_scan [OF sc] kp by simp
  qed
  then show ?thesis by (auto simp: matchClass_def Let_def neg_def [symmetric] q_def [symmetric])
qed

lemma try_suffixes_total: "(\<And>x. f x \<noteq> None) \<Longrightarrow> try_suffixes f s \<noteq> None"
  by (induction f s rule: try_suffixes.induct) (auto split: option.splits bool.splits)

lemma wf_glob_rune:
  assumes "wf_glob (c # p)" "ordinary c"
  shows "wf_glob (drop (width (c # p)) (c # p))"
proof -
  have "wf_glob p" using assms by (auto simp: ordinary_def)
  then have "wf_glob (take (width (c # p) - 1) p @ drop (width (c # p)) (c # p))" using rune_split [of p c] by simp
  then show ?thesis using wf_glob_skip [OF rune_tail [of c p]] by simp
qed

lemma wf_glob_tail_rune:
  assumes "wf_glob p"
  shows "wf_glob (drop (width (c # p)) (c # p))"
  using assms wf_glob_skip [OF rune_tail [of c p], of "drop (width (c # p)) (c # p)"] rune_split [of p c] by simp

lemma wf_glob_dropWhile: "wf_glob p \<Longrightarrow> wf_glob (dropWhile (\<lambda>b. b = c_star) p)"
  by (induction p) auto

lemma matchComponent_total: "wf_glob p \<Longrightarrow> matchComponent p s \<noteq> None"
proof (induction p s rule: matchComponent.induct)
  case (2 c p s)
  consider (star) "c = c_star" | (quest) "c = c_quest" | (cls) "c = c_open"
    | (other) "c \<noteq> c_star" "c \<noteq> c_quest" "c \<noteq> c_open" by blast
  then show ?case
  proof cases
    case star
    let ?q = "dropWhile (\<lambda>b. b = c_star) p"
    have "wf_glob ?q" using "2.prems" star by (intro wf_glob_dropWhile) simp
    then have "\<And>x. matchComponent ?q x \<noteq> None" if "?q \<noteq> []" using "2.IH"(1) [OF star refl that] by blast
    then show ?thesis using star try_suffixes_total [of "matchComponent ?q" s] by (auto simp: Let_def simp del: not_None_eq)
  next
    case quest
    then show ?thesis using "2.IH"(2) [of] "2.prems" by (auto simp del: not_None_eq)
  next
    case cls
    then obtain k where k: "class_len p = Some k" "wf_glob (drop k p)" using "2.prems" by (auto split: option.splits)
    obtain b where b: "matchClass p (fst (DecodeRune s)) = Some (drop k p, b)" using matchClass_scan [OF k(1)] by blast
    show ?thesis
    proof (cases "s = [] \<or> \<not> b")
      case True
      then show ?thesis using cls b by auto
    next
      case False
      then show ?thesis using cls b "2.IH"(3) [OF _ _ cls _ b refl] k(2) by auto
    qed
  next
    case other
    define q where "q = (if c = c_back then p else c # p)"
    have wf: "wf_glob (drop (width q) q)" if ne: "q \<noteq> []"
    proof (cases "c = c_back")
      case True
      then obtain d p' where "p = d # p'" using ne q_def by (cases p) auto
      then show ?thesis using True "2.prems" wf_glob_tail_rune [of p' d] by (simp add: q_def)
    next
      case False
      have "wf_glob p" using False other "2.prems" by simp
      then show ?thesis using False wf_glob_tail_rune [of p c] by (simp add: q_def)
    qed
    show ?thesis
    proof (cases "q = [] \<or> \<not> has_prefix s (take (width q) q)")
      case True
      then show ?thesis using other q_def by (auto simp: Let_def)
    next
      case False
      then have "matchComponent (drop (width q) q) (drop (width q) s) \<noteq> None"
        using "2.IH"(4) [OF other q_def] wf by blast
      then show ?thesis using False other by (simp add: Let_def q_def [symmetric])
    qed
  qed
qed simp

lemma matchComps_total: "list_all wf_glob pat \<Longrightarrow> matchComps pat path \<noteq> None"
proof (induction pat path rule: matchComps.induct)
  case (2 p pat path)
  let ?q = "dropWhile (\<lambda>b. b = dstar) pat"
  show ?case
  proof (cases "p = dstar")
    case True
    have "list_all wf_glob ?q" using "2.prems" by (auto simp: list_all_iff dest: set_dropWhileD)
    then have "\<And>x. matchComps ?q x \<noteq> None" if "?q \<noteq> []" using "2.IH"(1) [OF True refl that] by blast
    then show ?thesis using True try_suffixes_total [of "matchComps ?q" path] by (auto simp: Let_def simp del: not_None_eq)
  next
    case False
    show ?thesis
    proof (cases path)
      case (Cons x path')
      have "matchComponent p x \<noteq> None" using matchComponent_total "2.prems" by simp
      then obtain b where b: "matchComponent p x = Some b" by blast
      then show ?thesis using False Cons "2.IH"(2) [OF False Cons b] "2.prems" by (cases b) auto
    qed (use False in simp)
  qed
qed simp

lemma class_scan_len: "class_scan r = Some k \<Longrightarrow> k \<le> length r"
  by (induction r arbitrary: k rule: class_scan.induct) (auto split: if_splits list.splits)

lemma class_scan_pos: "class_scan r = Some k \<Longrightarrow> 0 < k"
  by (induction r arbitrary: k rule: class_scan.induct) (auto split: if_splits list.splits)

lemma class_scan_local: "class_scan r = Some k \<Longrightarrow> class_scan (take k r @ x) = Some k"
  by (induction r arbitrary: k rule: class_scan.induct) (auto split: if_splits list.splits)

lemma class_lead_local:
  assumes "class_lead r < k" "k \<le> length r"
  shows "class_lead (take k r @ x) = class_lead r"
proof (cases r)
  case (Cons a q)
  then obtain k' where k: "k = Suc k'" using assms(1) by (cases k) auto
  show ?thesis
  proof (cases q)
    case Nil
    then show ?thesis using Cons k assms by (auto simp: class_lead_def Let_def split: if_splits)
  next
    case (Cons b q')
    then show ?thesis using \<open>r = a # q\<close> k assms by (cases k') (auto simp: class_lead_def Let_def split: if_splits)
  qed
qed (use assms in simp)

lemma class_len_local:
  assumes "class_len r = Some k"
  shows "class_len (take k r @ x) = Some k" "k \<le> length r"
proof -
  obtain k0 where k0: "class_scan (drop (class_lead r) r) = Some k0" "k = class_lead r + k0"
    using assms by (auto simp: class_len_def)
  note b = class_scan_len [OF k0(1)] class_scan_pos [OF k0(1)]
  then show le: "k \<le> length r" using k0(2) by auto
  have lead: "class_lead (take k r @ x) = class_lead r"
    by (rule class_lead_local [OF _ le]) (use k0(2) b in simp)
  have "drop (class_lead r) (take k r @ x) = take k0 (drop (class_lead r) r) @ x"
    using k0(2) le by (simp add: drop_take)
  then show "class_len (take k r @ x) = Some k"
    using class_scan_local [OF k0(1), of x] k0(2) lead by (simp add: class_len_def)
qed

lemma glob_split_wf:
  "glob_split cur r = Inr cs \<Longrightarrow> \<forall>x. wf_glob (cur @ x) = wf_glob x \<Longrightarrow> list_all wf_glob cs"
proof (induction cur r arbitrary: cs rule: glob_split.induct)
  case (1 cur)
  then have "wf_glob (cur @ []) = wf_glob []" by blast
  then show ?case using 1 by auto
next
  case (2 cur c r)
  consider (slash) "c = c_slash" | (esc) "c = c_back" | (cls) "c = c_open"
    | (other) "c \<noteq> c_slash" "c \<noteq> c_back" "c \<noteq> c_open" by blast
  then show ?case
  proof cases
    case slash
    then obtain cs' where "glob_split [] r = Inr cs'" "cs = cur # cs'"
      using "2.prems"(1) by (auto split: sum.splits)
    moreover have "wf_glob cur" using "2.prems"(2) by (metis append_Nil2 wf_glob.simps(1))
    ultimately show ?thesis using "2.IH"(1) [OF slash] by simp
  next
    case esc
    then obtain d r' where r: "r = d # r'" using "2.prems"(1) by (auto split: list.splits)
    show ?thesis
      by (rule "2.IH"(2) [OF _ esc r]) (use "2.prems" esc r in auto)
  next
    case cls
    then obtain k where k: "class_len r = Some k" using "2.prems"(1) by (auto split: option.splits)
    have "wf_glob ((cur @ c # take k r) @ x) = wf_glob x" for x
      using "2.prems"(2) cls class_len_local [OF k] by simp
    then show ?thesis
      by (intro "2.IH"(3) [OF _ _ cls k]) (use "2.prems"(1) cls k in auto)
  next
    case other
    show ?thesis
      by (rule "2.IH"(4) [OF other]) (use "2.prems" other in auto)
  qed
qed

text \<open>
  C27: matching a compiled glob never panics.  Whatever pattern \<open>compileGlob\<close> accepts and whatever the
  path components are, valid UTF-8 or not, no index or slice of the matcher is out of range: it
  returns, and says whether the path matches.
\<close>

theorem compiled_glob_never_panics:
  assumes "compileGlob pat = Inr comps"
  shows "\<exists>b. matchComps comps path = Some b"
  using matchComps_total [OF glob_split_wf [of "[]" pat comps]] assms by (auto simp: compileGlob_def)

theorem compiled_glob_never_panics_witness:
  "compileGlob (str ''a[^]x]/**'') = Inr [str ''a[^]x]'', str ''**''] \<and>
     (\<exists>b. matchComps [str ''a[^]x]'', str ''**''] [str ''a]'', [0xFF]] = Some b)"
proof -
  have c: "compileGlob (str ''a[^]x]/**'') = Inr [str ''a[^]x]'', str ''**'']"
    by (simp add: compileGlob_def class_len_def class_lead_def Let_def)
  then show ?thesis using compiled_glob_never_panics [OF c] by blast
qed

end
