(* ===== verification/Pxar_Format.thy ===== *)
theory Pxar_Format
  imports Prelude
begin

unbundle bit_operations_syntax

text \<open>
  The pxar wire format, \<^verbatim>\<open>src/pxar\<close>: record types and sizes (\<^verbatim>\<open>format.go\<close>), the append-style
  encoders (\<^verbatim>\<open>encode.go\<close>), the goodbye table (\<^verbatim>\<open>goodbye.go\<close>) and the implicit search tree its
  items are laid out in (\<^verbatim>\<open>bintree.go\<close>).

  Every encoder appends a record whose length field is its own length (\<open>record_ok\<close>), and every
  \<open>Size\<close> function is that length modulo 2^64.  \<open>permuteBST\<close> never indexes outside its
  slices and lays the sorted items out so that the in-order walk of the implicit tree is the sorted
  list.  The name hash is SipHash, a third-party package, and is a parameter wherever it is used.
\<close>

subsection \<open>Record types\<close>

definition TypeEntry :: u64 where "TypeEntry = 0xd5956474e588acef"
definition TypeEntryV1 :: u64 where "TypeEntryV1 = 0x11da850a1c1cceff"
definition TypeFilename :: u64 where "TypeFilename = 0x16701121063917b3"
definition TypeSymlink_px :: u64 where "TypeSymlink_px = 0x27f971e7dbf5dc5f"
definition TypeDevice :: u64 where "TypeDevice = 0x9fc9e906586d5ce9"
definition TypeXAttr :: u64 where "TypeXAttr = 0x0dab0229b57dcd03"
definition TypeACLUser :: u64 where "TypeACLUser = 0x2ce8540a457d55b8"
definition TypeACLGroup :: u64 where "TypeACLGroup = 0x136e3eceb04c03ab"
definition TypeACLGroupObj :: u64 where "TypeACLGroupObj = 0x10868031e9582876"
definition TypeACLDefault :: u64 where "TypeACLDefault = 0xbbbb13415a6896f5"
definition TypeACLDefaultUser :: u64 where "TypeACLDefaultUser = 0xc89357b40532cd1f"
definition TypeACLDefaultGroup :: u64 where "TypeACLDefaultGroup = 0xf90a8a5816038ffe"
definition TypeFCaps :: u64 where "TypeFCaps = 0x2da9dd9db5f7fb67"
definition TypeQuotaProjID :: u64 where "TypeQuotaProjID = 0xe07540e82f7d1cbb"
definition TypeHardlink_px :: u64 where "TypeHardlink_px = 0x51269c8422bd7275"
definition TypePayload :: u64 where "TypePayload = 0x28147a1b0b7c1a25"
definition TypeGoodbye :: u64 where "TypeGoodbye = 0x2fec4fa642d5731d"
definition GoodbyeTailMarker :: u64 where "GoodbyeTailMarker = 0xef5eed5b753e1555"
definition TypeFormatVersion :: u64 where "TypeFormatVersion = 0x730f6c75df16a40d"
definition TypePrelude :: u64 where "TypePrelude = 0xe309d79d9f7b771b"
definition TypePayloadRef :: u64 where "TypePayloadRef = 0x419d3d6bc4ba977e"
definition PayloadStartMarker :: u64 where "PayloadStartMarker = 0x834c68c2194a4ed2"
definition PayloadTailMarker :: u64 where "PayloadTailMarker = 0x6c72b78b984c81b5"

lemmas pxar_types = TypeEntry_def TypeEntryV1_def TypeFilename_def TypeSymlink_px_def
  TypeDevice_def TypeXAttr_def TypeACLUser_def TypeACLGroup_def TypeACLGroupObj_def
  TypeACLDefault_def TypeACLDefaultUser_def TypeACLDefaultGroup_def TypeFCaps_def
  TypeQuotaProjID_def TypeHardlink_px_def TypePayload_def TypeGoodbye_def GoodbyeTailMarker_def
  TypeFormatVersion_def TypePrelude_def TypePayloadRef_def PayloadStartMarker_def
  PayloadTailMarker_def

definition HeaderSize :: u64 where "HeaderSize = 16"

subsection \<open>Encoders\<close>

definition appendHeader :: "bytes \<Rightarrow> u64 \<Rightarrow> u64 \<Rightarrow> bytes" where
  "appendHeader dst typ len = dst @ put64 typ @ put64 len"

record Entry_px =
  pe_Mode :: u64
  pe_Flags :: u64
  pe_UID :: u32
  pe_GID :: u32
  pe_MtimeSecs :: i64
  pe_MtimeNanos :: u32

definition EntrySize :: u64 where "EntrySize = HeaderSize + 40"

definition AppendEntry :: "bytes \<Rightarrow> Entry_px \<Rightarrow> bytes" where
  "AppendEntry dst e = appendHeader dst TypeEntry EntrySize @ put64 (pe_Mode e) @ put64 (pe_Flags e) @
     put32 (pe_UID e) @ put32 (pe_GID e) @ put64 (pe_MtimeSecs e) @ put32 (pe_MtimeNanos e) @ put32 0"

definition SizeFilename :: "bytes \<Rightarrow> u64" where
  "SizeFilename name = HeaderSize + len64 name + 1"

definition AppendFilename :: "bytes \<Rightarrow> bytes \<Rightarrow> bytes" where
  "AppendFilename dst name = appendHeader dst TypeFilename (SizeFilename name) @ name @ [0]"

datatype name_error = NameEmpty | NameDots bytes | NameSlash bytes | NameNul bytes

definition ValidateFilename :: "bytes \<Rightarrow> name_error option" where
  "ValidateFilename name =
     (if name = [] then Some NameEmpty
      else if name = str ''.'' \<or> name = str ''..'' then Some (NameDots name)
      else if of_char (CHR ''/'') \<in> set name then Some (NameSlash name)
      else if 0 \<in> set name then Some (NameNul name)
      else None)"

definition SizeSymlink :: "bytes \<Rightarrow> u64" where
  "SizeSymlink target = HeaderSize + len64 target + 1"

definition AppendSymlink :: "bytes \<Rightarrow> bytes \<Rightarrow> bytes" where
  "AppendSymlink dst target = appendHeader dst TypeSymlink_px (SizeSymlink target) @ target @ [0]"

record Device =
  dv_Major :: u64
  dv_Minor :: u64

definition DeviceSize :: u64 where "DeviceSize = HeaderSize + 16"

definition AppendDevice :: "bytes \<Rightarrow> Device \<Rightarrow> bytes" where
  "AppendDevice dst d =
     appendHeader dst TypeDevice DeviceSize @ put64 (dv_Major d) @ put64 (dv_Minor d)"

definition SizeHardlink :: "bytes \<Rightarrow> u64" where
  "SizeHardlink target = HeaderSize + 8 + len64 target + 1"

definition AppendHardlink :: "bytes \<Rightarrow> u64 \<Rightarrow> bytes \<Rightarrow> bytes" where
  "AppendHardlink dst offset target =
     appendHeader dst TypeHardlink_px (SizeHardlink target) @ put64 offset @ target @ [0]"

definition SizeXAttr :: "bytes \<Rightarrow> bytes \<Rightarrow> u64" where
  "SizeXAttr name val = HeaderSize + len64 name + 1 + len64 val"

definition AppendXAttr :: "bytes \<Rightarrow> bytes \<Rightarrow> bytes \<Rightarrow> bytes" where
  "AppendXAttr dst name val =
     appendHeader dst TypeXAttr (SizeXAttr name val) @ name @ [0] @ val"

record ACLUser =
  au_UID :: u64
  au_Permissions :: u64

record ACLGroup =
  ag_GID :: u64
  ag_Permissions :: u64

record ACLDefault =
  ad_UserObjPermissions :: u64
  ad_GroupObjPermissions :: u64
  ad_OtherPermissions :: u64
  ad_MaskPermissions :: u64

definition ACLNoMask :: u64 where "ACLNoMask = NOT 0"

definition ACLUserSize :: u64 where "ACLUserSize = HeaderSize + 16"
definition ACLGroupSize :: u64 where "ACLGroupSize = HeaderSize + 16"
definition ACLGroupObjSize :: u64 where "ACLGroupObjSize = HeaderSize + 8"
definition ACLDefaultSize :: u64 where "ACLDefaultSize = HeaderSize + 32"

definition appendUserBody :: "bytes \<Rightarrow> u64 \<Rightarrow> ACLUser \<Rightarrow> bytes" where
  "appendUserBody dst typ a =
     appendHeader dst typ ACLUserSize @ put64 (au_UID a) @ put64 (au_Permissions a)"

definition appendGroupBody :: "bytes \<Rightarrow> u64 \<Rightarrow> ACLGroup \<Rightarrow> bytes" where
  "appendGroupBody dst typ a =
     appendHeader dst typ ACLGroupSize @ put64 (ag_GID a) @ put64 (ag_Permissions a)"

definition AppendACLUser :: "bytes \<Rightarrow> ACLUser \<Rightarrow> bytes" where
  "AppendACLUser dst a = appendUserBody dst TypeACLUser a"

definition AppendACLDefaultUser :: "bytes \<Rightarrow> ACLUser \<Rightarrow> bytes" where
  "AppendACLDefaultUser dst a = appendUserBody dst TypeACLDefaultUser a"

definition AppendACLGroup :: "bytes \<Rightarrow> ACLGroup \<Rightarrow> bytes" where
  "AppendACLGroup dst a = appendGroupBody dst TypeACLGroup a"

definition AppendACLDefaultGroup :: "bytes \<Rightarrow> ACLGroup \<Rightarrow> bytes" where
  "AppendACLDefaultGroup dst a = appendGroupBody dst TypeACLDefaultGroup a"

definition AppendACLGroupObj :: "bytes \<Rightarrow> u64 \<Rightarrow> bytes" where
  "AppendACLGroupObj dst permissions =
     appendHeader dst TypeACLGroupObj ACLGroupObjSize @ put64 permissions"

definition AppendACLDefault :: "bytes \<Rightarrow> ACLDefault \<Rightarrow> bytes" where
  "AppendACLDefault dst a = appendHeader dst TypeACLDefault ACLDefaultSize @
     put64 (ad_UserObjPermissions a) @ put64 (ad_GroupObjPermissions a) @
     put64 (ad_OtherPermissions a) @ put64 (ad_MaskPermissions a)"

definition SizeFCaps :: "bytes \<Rightarrow> u64" where "SizeFCaps data = HeaderSize + len64 data"

definition AppendFCaps :: "bytes \<Rightarrow> bytes \<Rightarrow> bytes" where
  "AppendFCaps dst data = appendHeader dst TypeFCaps (SizeFCaps data) @ data"

definition QuotaProjIDSize :: u64 where "QuotaProjIDSize = HeaderSize + 8"

definition AppendQuotaProjID :: "bytes \<Rightarrow> u64 \<Rightarrow> bytes" where
  "AppendQuotaProjID dst projid = appendHeader dst TypeQuotaProjID QuotaProjIDSize @ put64 projid"

definition SizePayload :: "u64 \<Rightarrow> u64" where "SizePayload sz = HeaderSize + sz"

definition AppendPayloadHeader :: "bytes \<Rightarrow> u64 \<Rightarrow> bytes" where
  "AppendPayloadHeader dst sz = appendHeader dst TypePayload (SizePayload sz)"

definition FormatVersionSize :: u64 where "FormatVersionSize = HeaderSize + 8"

definition AppendFormatVersion :: "bytes \<Rightarrow> u64 \<Rightarrow> bytes" where
  "AppendFormatVersion dst version =
     appendHeader dst TypeFormatVersion FormatVersionSize @ put64 version"

definition SizePrelude :: "bytes \<Rightarrow> u64" where "SizePrelude data = HeaderSize + len64 data"

definition AppendPrelude :: "bytes \<Rightarrow> bytes \<Rightarrow> bytes" where
  "AppendPrelude dst data = appendHeader dst TypePrelude (SizePrelude data) @ data"

definition PayloadRefSize :: u64 where "PayloadRefSize = HeaderSize + 16"

definition AppendPayloadRef :: "bytes \<Rightarrow> u64 \<Rightarrow> u64 \<Rightarrow> bytes" where
  "AppendPayloadRef dst offset sz =
     appendHeader dst TypePayloadRef PayloadRefSize @ put64 offset @ put64 sz"

definition MarkerSize :: u64 where "MarkerSize = HeaderSize"

definition AppendPayloadStartMarker :: "bytes \<Rightarrow> bytes" where
  "AppendPayloadStartMarker dst = appendHeader dst PayloadStartMarker MarkerSize"

definition AppendPayloadTailMarker :: "bytes \<Rightarrow> bytes" where
  "AppendPayloadTailMarker dst = appendHeader dst PayloadTailMarker MarkerSize"

lemmas pxar_sizes = HeaderSize_def EntrySize_def DeviceSize_def ACLUserSize_def ACLGroupSize_def
  ACLGroupObjSize_def ACLDefaultSize_def QuotaProjIDSize_def FormatVersionSize_def
  PayloadRefSize_def MarkerSize_def SizeFilename_def SizeSymlink_def SizeHardlink_def
  SizeXAttr_def SizeFCaps_def SizePrelude_def SizePayload_def

lemmas pxar_appends = AppendEntry_def AppendFilename_def AppendSymlink_def AppendDevice_def
  AppendHardlink_def AppendXAttr_def AppendACLUser_def AppendACLDefaultUser_def AppendACLGroup_def
  AppendACLDefaultGroup_def appendUserBody_def appendGroupBody_def AppendACLGroupObj_def
  AppendACLDefault_def AppendFCaps_def AppendQuotaProjID_def AppendPayloadHeader_def
  AppendFormatVersion_def AppendPrelude_def AppendPayloadRef_def AppendPayloadStartMarker_def
  AppendPayloadTailMarker_def appendHeader_def

subsection \<open>The goodbye table\<close>

record GoodbyeItem =
  gi_Hash :: u64
  gi_Start :: u64
  gi_Length :: u64

definition SizeGoodbye :: "nat \<Rightarrow> u64" where
  "SizeGoodbye n = HeaderSize + 24 * of_nat (n + 1)"

text \<open>\<open>bits.Len64\<close>.\<close>

fun Len64 :: "nat \<Rightarrow> nat" where
  "Len64 n = (if n = 0 then 0 else Suc (Len64 (n div 2)))"

declare Len64.simps [simp del]

text \<open>
  \<open>insertBST\<close>: \<open>None\<close> is the run-time panic of an index outside a slice.  \<open>e\<close> counts tree levels
  and is at least 1 whenever \<open>n\<close> is not 0; \<open>k\<close> and the size of the right part are computed in
  64-bit words, where \<open>k\<close> wraps around on the way.
\<close>

fun insertBST :: "'a list \<Rightarrow> 'a list \<Rightarrow> nat \<Rightarrow> nat \<Rightarrow> nat \<Rightarrow> 'a list option" where
  "insertBST srt tree n 0 i = (if n = 0 then Some tree else None)"
| "insertBST srt tree n (Suc e) i =
     (if n = 0 then Some tree
      else
        (let p = 2 ^ e;
             k = 2 ^ Suc e div 2 - 1;
             c = 3 * p div 2 - 1;
             k = (if n < c then unat (of_nat k + (of_nat n - of_nat c) :: u64) else k)
         in if k < length srt \<and> i < length tree then
              (case insertBST srt (tree[i := srt ! k]) k e (2 * i + 1) of
                 None \<Rightarrow> None
               | Some tree' \<Rightarrow>
                   insertBST (drop (k + 1) srt) tree' (unat (of_nat n - of_nat k - 1 :: u64)) e
                     (2 * i + 2))
            else None))"

definition zeroItem :: GoodbyeItem where
  "zeroItem = \<lparr> gi_Hash = 0, gi_Start = 0, gi_Length = 0 \<rparr>"

definition permuteBST :: "GoodbyeItem list \<Rightarrow> GoodbyeItem list option" where
  "permuteBST srt =
     insertBST srt (replicate (length srt) zeroItem) (length srt) (Len64 (length srt)) 0"

definition goodbye_item_bytes :: "u64 \<Rightarrow> GoodbyeItem \<Rightarrow> bytes" where
  "goodbye_item_bytes goodbyeStart item =
     put64 (gi_Hash item) @ put64 (goodbyeStart - gi_Start item) @ put64 (gi_Length item)"

text \<open>
  \<open>sort.Slice\<close> leaves the order of items with equal hashes open; the model takes the stable
  order.  The properties below use only that the result is sorted and a permutation.
\<close>

definition AppendGoodbye :: "bytes \<Rightarrow> GoodbyeItem list \<Rightarrow> u64 \<Rightarrow> u64 \<Rightarrow> bytes option" where
  "AppendGoodbye dst items dirEntryStart goodbyeStart =
     (case permuteBST (sort_key gi_Hash items) of
        None \<Rightarrow> None
      | Some tree \<Rightarrow>
          (let len = SizeGoodbye (length items) in
           Some (appendHeader dst TypeGoodbye len @
             concat (map (goodbye_item_bytes goodbyeStart) tree) @
             put64 GoodbyeTailMarker @ put64 (goodbyeStart - dirEntryStart) @ put64 len)))"

subsection \<open>The implicit search tree\<close>

text \<open>
  The in-order walk of the implicit tree in an array: the children of index \<open>i\<close> are
  \<open>2 i + 1\<close> and \<open>2 i + 2\<close>.
\<close>

function inorder_at :: "'a list \<Rightarrow> nat \<Rightarrow> 'a list" where
  "inorder_at t i =
     (if i < length t then inorder_at t (2 * i + 1) @ [t ! i] @ inorder_at t (2 * i + 2) else [])"
  by pat_completeness auto
termination by (relation "measure (\<lambda>(t, i). length t - i)") auto

declare inorder_at.simps [simp del]

text \<open>\<open>below i j\<close>: index \<open>j\<close> lies in the subtree rooted at \<open>i\<close>.\<close>

function below :: "nat \<Rightarrow> nat \<Rightarrow> bool" where
  "below i j = (if j = i then True else if i < j then below i ((j - 1) div 2) else False)"
  by pat_completeness auto
termination by (relation "measure snd") auto

declare below.simps [simp del]

lemma below_iff: "below i j \<longleftrightarrow> j = i \<or> i < j \<and> below i ((j - 1) div 2)"
  by (subst below.simps) auto

lemma below_ge: "below i j \<Longrightarrow> i \<le> j"
  by (subst (asm) below_iff) auto

lemma below_parent: "below (2 * i + 1) j \<or> below (2 * i + 2) j \<Longrightarrow> below i j"
proof (induction j rule: less_induct)
  case (less j)
  show ?case
  proof (cases "j = 2 * i + 1 \<or> j = 2 * i + 2")
    case True
    then have "(j - 1) div 2 = i" by auto
    with True show ?thesis by (auto simp: below_iff [of i j] below_iff [of i i])
  next
    case False
    with less.prems have "below (2 * i + 1) ((j - 1) div 2) \<or> below (2 * i + 2) ((j - 1) div 2)" "i < j"
      using below_iff [of "2 * i + 1" j] below_iff [of "2 * i + 2" j] below_ge by auto
    moreover have "(j - 1) div 2 < j" using \<open>i < j\<close> by auto
    ultimately show ?thesis using less.IH by (subst below_iff) auto
  qed
qed

lemma below_disjoint: "below (2 * i + 1) j \<Longrightarrow> \<not> below (2 * i + 2) j"
proof (induction j rule: less_induct)
  case (less j)
  then have ge: "2 * i + 1 \<le> j" using below_ge by blast
  show ?case
  proof (cases "j = 2 * i + 1 \<or> j = 2 * i + 2")
    case True
    then have "(j - 1) div 2 = i" by auto
    then show ?thesis using True less.prems below_iff [of "2 * i + 1" j] below_iff [of "2 * i + 2" j]
        below_ge [of "2 * i + 1" i] by auto
  next
    case False
    have "below (2 * i + 1) ((j - 1) div 2)" using less.prems False by (subst (asm) below_iff) auto
    then show ?thesis using less.IH [of "(j - 1) div 2"] False ge by (subst below_iff) auto
  qed
qed

lemma inorder_at_cong:
  assumes "length t = length t'" "\<And>j. below i j \<Longrightarrow> j < length t \<Longrightarrow> t ! j = t' ! j"
  shows "inorder_at t i = inorder_at t' i"
  using assms
proof (induction t i rule: inorder_at.induct)
  case (1 t i)
  have "t ! i = t' ! i" if "i < length t" using "1.prems"(2) that by (simp add: below.simps)
  moreover have "inorder_at t (2 * i + 1) = inorder_at t' (2 * i + 1)" if "i < length t"
    by (rule "1.IH"(1) [OF that "1.prems"(1)]) (use "1.prems"(2) below_parent in blast)
  moreover have "inorder_at t (2 * i + 2) = inorder_at t' (2 * i + 2)" if "i < length t"
    by (rule "1.IH"(2) [OF that "1.prems"(1)]) (use "1.prems"(2) below_parent in blast)
  ultimately show ?case using "1.prems"(1) by (simp add: inorder_at.simps [of t i] inorder_at.simps [of t' i])
qed

text \<open>
  \<open>level_inv N i e n\<close>: in an array of \<open>N\<close> elements the subtree at \<open>i\<close> has \<open>e\<close> levels, all full but
  possibly the last, and \<open>n\<close> elements.
\<close>

fun level_inv :: "nat \<Rightarrow> nat \<Rightarrow> nat \<Rightarrow> nat \<Rightarrow> bool" where
  "level_inv N i 0 n \<longleftrightarrow> N \<le> i \<and> n = 0"
| "level_inv N i (Suc e) n \<longleftrightarrow>
     N < 2 ^ Suc e * (i + 1) \<and> (0 < e \<longrightarrow> 2 ^ (e - 1) * (i + 2) \<le> N + 1) \<and>
     n = 2 ^ e - 1 + min (2 ^ e) (N + 1 - 2 ^ e * (i + 1))"

definition left_size :: "nat \<Rightarrow> nat \<Rightarrow> nat" where
  "left_size e n = (if n < 3 * 2 ^ e div 2 - 1 then n - 2 ^ e div 2 else 2 ^ e - 1)"

lemma level_inv_split:
  assumes inv: "level_inv N i (Suc e) n" and n: "n \<noteq> 0"
  shows "i < N" "left_size e n < n" "level_inv N (2 * i + 1) e (left_size e n)"
    "level_inv N (2 * i + 2) e (n - left_size e n - 1)"
proof -
  have "i < N \<and> left_size e n < n \<and> level_inv N (2 * i + 1) e (left_size e n) \<and>
    level_inv N (2 * i + 2) e (n - left_size e n - 1)"
  proof (cases e)
    case 0
    then show ?thesis using inv n by (auto simp: left_size_def)
  next
    case (Suc d)
    define P where "P = (2::nat) ^ d"
    have P: "0 < P" by (simp add: P_def)
    have eq: "2 ^ e = 2 * P" by (simp add: Suc P_def)
    have Pi: "P * (i + 2) = P * i + 2 * P" "2 * P * (i + 1) = 2 * (P * i) + 2 * P"
      "2 * P * (2 * i + 2) = 4 * (P * i) + 4 * P"  "P * (2 * i + 2) = 2 * (P * i) + 2 * P"
      "P * (2 * i + 3) = 2 * (P * i) + 3 * P" "2 * P * (2 * i + 3) = 4 * (P * i) + 6 * P"
      "4 * P * (i + 1) = 4 * (P * i) + 4 * P"
      by (simp_all add: algebra_simps)
    define X where "X = P * i"
    from inv have h: "N < 4 * X + 4 * P" "X + 2 * P \<le> N + 1"
      "n = 2 * P - 1 + min (2 * P) (N + 1 - (2 * X + 2 * P))"
      by (simp_all add: Suc P_def X_def algebra_simps)
    have iN: "i < N"
    proof -
      have "i \<le> X" using P by (simp add: X_def)
      then show ?thesis using h(2) P by linarith
    qed
    have ls: "left_size e n = P - 1 + min P (N + 1 - (2 * X + 2 * P))"
      using h(3) P by (simp add: left_size_def eq min_def) linarith
    have l2: "n - left_size e n - 1 = P - 1 + min P (N + 1 - (2 * X + 3 * P))"
      unfolding ls by (subst h(3)) (use P in arith)
    have "left_size e n < n" unfolding ls by (subst h(3)) (use P in arith)
    moreover have "level_inv N (2 * i + 1) e (left_size e n)"
    proof -
      have "0 < d \<longrightarrow> 2 ^ (d - 1) * (2 * i + 1 + 2) \<le> N + 1"
      proof
        assume "0 < d"
        then have "2 * 2 ^ (d - 1) = P" by (cases d) (simp_all add: P_def)
        then have "2 ^ (d - 1) * (2 * i + 1 + 2) \<le> X + 2 * P"
          unfolding X_def by (simp add: algebra_simps)
        then show "2 ^ (d - 1) * (2 * i + 1 + 2) \<le> N + 1" using h(2) by linarith
      qed
      then show ?thesis using h(1) ls by (simp add: Suc X_def algebra_simps flip: P_def)
    qed
    moreover have "level_inv N (2 * i + 2) e (n - left_size e n - 1)"
    proof -
      have "0 < d \<longrightarrow> 2 ^ (d - 1) * (2 * i + 2 + 2) \<le> N + 1"
      proof
        assume "0 < d"
        then have "2 * 2 ^ (d - 1) = P" by (cases d) (simp_all add: P_def)
        then have "2 ^ (d - 1) * (2 * i + 2 + 2) = X + 2 * P"
          unfolding X_def by (metis (no_types, lifting) ab_semigroup_add_class.add_ac(1) distrib_left_numeral mult.assoc mult.commute mult_2 Pi(1) distrib_left)
        then show "2 ^ (d - 1) * (2 * i + 2 + 2) \<le> N + 1" using h(2) by linarith
      qed
      then show ?thesis using h(1) l2 by (simp add: Suc X_def algebra_simps flip: P_def)
    qed
    ultimately show ?thesis using iN by blast
  qed
  then show "i < N" "left_size e n < n" "level_inv N (2 * i + 1) e (left_size e n)"
    "level_inv N (2 * i + 2) e (n - left_size e n - 1)" by blast+
qed


lemma word_left_size:
  assumes "level_inv N i (Suc e) n" "n \<noteq> 0" "n < 2 ^ 63"
  shows "(if n < 3 * 2 ^ e div 2 - 1
          then unat (of_nat (2 ^ Suc e div 2 - 1) + (of_nat n - of_nat (3 * 2 ^ e div 2 - 1)) :: u64)
          else 2 ^ Suc e div 2 - 1) = left_size e n"
proof (cases "n < 3 * 2 ^ e div 2 - 1")
  case True
  define P where "P = (2::nat) ^ e"
  from assms(1) have h: "P - 1 \<le> n" by (simp add: P_def)
  have P: "P div 2 \<le> n" "3 * P div 2 = P + P div 2" "1 \<le> P" "P - 1 + n + 1 = P + n"
    using h True by (auto simp: P_def)
  have "int (P - 1) + (int n - int (3 * P div 2 - 1)) = int (n - P div 2)"
    using P by linarith
  then have "of_int (int (P - 1) + (int n - int (3 * P div 2 - 1))) = (of_nat (n - P div 2) :: u64)"
    by simp
  then have "(of_nat (P - 1) + (of_nat n - of_nat (3 * P div 2 - 1)) :: u64) = of_nat (n - P div 2)"
    by (simp only: of_int_add of_int_diff of_int_of_nat_eq)
  moreover have "unat (of_nat (n - P div 2) :: u64) = n - P div 2"
    using assms(3) by (simp add: unat_of_nat)
  ultimately show ?thesis using True by (simp add: left_size_def P_def)
qed (simp add: left_size_def)

lemma word_right_size: "k < n \<Longrightarrow> n < 2 ^ 63 \<Longrightarrow> unat (of_nat n - of_nat k - 1 :: u64) = n - k - 1"
proof -
  assume a: "k < n" "n < 2 ^ 63"
  then have "(of_nat n - of_nat k - 1 :: u64) = of_nat (n - k - 1)" by (simp add: of_nat_diff)
  moreover have "unat (of_nat (n - k - 1) :: u64) = n - k - 1" by (rule u64_small) (use a in simp)
  ultimately show ?thesis by simp
qed

lemma insertBST_correct:
  assumes "level_inv (length tree) i e n" "n \<le> length srt" "n < 2 ^ 63"
  shows "\<exists>t. insertBST srt tree n e i = Some t \<and> length t = length tree \<and>
     inorder_at t i = take n srt \<and> (\<forall>j < length tree. \<not> below i j \<longrightarrow> t ! j = tree ! j)"
  using assms
proof (induction e arbitrary: tree i n srt)
  case 0
  then show ?case by (simp add: inorder_at.simps)
next
  case (Suc e)
  show ?case
  proof (cases "n = 0")
    case True
    then have "2 ^ e \<le> (2 :: nat) ^ 0" using Suc.prems(1) by simp
    then have "e = 0" by (simp only: power_increasing_iff)
    with True Suc.prems(1) have "length tree \<le> i" by (auto simp: min_def split: if_splits)
    then show ?thesis using True by (simp add: inorder_at.simps)
  next
    case False
    define k where "k = left_size e n"
    note sp = level_inv_split [OF Suc.prems(1) False, folded k_def]
    let ?t0 = "tree[i := srt ! k]"
    obtain t1 where t1: "insertBST srt ?t0 k e (2 * i + 1) = Some t1" "length t1 = length tree"
        "inorder_at t1 (2 * i + 1) = take k srt"
        "\<forall>j < length tree. \<not> below (2 * i + 1) j \<longrightarrow> t1 ! j = ?t0 ! j"
      using Suc.IH [of ?t0 "2 * i + 1" k srt] sp(2,3) Suc.prems(2,3) by auto
    have "level_inv (length t1) (2 * i + 2) e (n - k - 1)" using sp(4) t1(2) by simp
    moreover have "n - k - 1 \<le> length (drop (k + 1) srt)" "n - k - 1 < 2 ^ 63"
      using Suc.prems(2,3) by auto
    ultimately obtain t2 where t2: "insertBST (drop (k + 1) srt) t1 (n - k - 1) e (2 * i + 2) = Some t2"
        "length t2 = length tree"
        "inorder_at t2 (2 * i + 2) = take (n - k - 1) (drop (k + 1) srt)"
        "\<forall>j < length tree. \<not> below (2 * i + 2) j \<longrightarrow> t2 ! j = t1 ! j"
      using Suc.IH [of t1 "2 * i + 2" "n - k - 1" "drop (k + 1) srt"] t1(2) by metis
    have "insertBST srt tree n (Suc e) i = Some t2"
      using False sp(1,2) Suc.prems(2) t1(1) t2(1)
      by (simp only: insertBST.simps if_False Let_def
          word_left_size [OF Suc.prems(1) False Suc.prems(3), folded k_def]
          word_right_size [OF sp(2) Suc.prems(3)]) simp
    moreover have "inorder_at t2 (2 * i + 1) = take k srt"
      using t1(3) inorder_at_cong [of t2 t1 "2 * i + 1"] t1(2) t2(2,4) below_disjoint by metis
    moreover have "t2 ! i = srt ! k"
    proof -
      have "\<not> below (2 * i + 1) i" "\<not> below (2 * i + 2) i" using below_ge by fastforce+
      then show ?thesis using t1(4) t2(4) sp(1) by (metis nth_list_update_eq)
    qed
    moreover have "take n srt = take k srt @ [srt ! k] @ take (n - k - 1) (drop (k + 1) srt)"
    proof -
      have "take n srt = take (k + 1) srt @ take (n - k - 1) (drop (k + 1) srt)"
        using sp(2) take_add [of "k + 1" "n - k - 1" srt] by simp
      then show ?thesis using sp(2) Suc.prems(2) by (simp add: take_Suc_conv_app_nth)
    qed
    ultimately have "inorder_at t2 i = take n srt"
      using sp(1) t2(2,3) by (simp add: inorder_at.simps [of t2 i])
    moreover have "\<forall>j < length tree. \<not> below i j \<longrightarrow> t2 ! j = tree ! j"
      using t1(4) t2(4) below_parent [of i] by (metis below_iff nth_list_update_neq)
    ultimately show ?thesis using \<open>insertBST srt tree n (Suc e) i = Some t2\<close> t2(2) by blast
  qed
qed

lemma Len64_bounds: "0 < n \<Longrightarrow> 0 < Len64 n \<and> 2 ^ (Len64 n - 1) \<le> n \<and> n < 2 ^ Len64 n"
proof (induction n rule: Len64.induct)
  case (1 n)
  show ?case
  proof (cases "n div 2 = 0")
    case True
    then show ?thesis using 1 by (simp add: Len64.simps [of n] Len64.simps [of 0])
  next
    case False
    with 1 have IH: "0 < Len64 (n div 2)" "2 ^ (Len64 (n div 2) - 1) \<le> n div 2" "n div 2 < 2 ^ Len64 (n div 2)"
      by auto
    have "2 ^ Len64 (n div 2) = 2 * (2::nat) ^ (Len64 (n div 2) - 1)"
      using IH(1) by (cases "Len64 (n div 2)") auto
    then have "2 * 2 ^ (Len64 (n div 2) - 1) \<le> n \<and> n < 2 * 2 ^ Len64 (n div 2)"
      using IH(2,3) by linarith
    with \<open>2 ^ Len64 (n div 2) = 2 * 2 ^ (Len64 (n div 2) - 1)\<close> show ?thesis
      using \<open>0 < n\<close> by (simp add: Len64.simps [of n])
  qed
qed

lemma permuteBST_inorder:
  assumes "length srt < 2 ^ 63"
  shows "\<exists>t. permuteBST srt = Some t \<and> length t = length srt \<and> inorder_at t 0 = srt"
proof -
  have "level_inv (length srt) 0 (Len64 (length srt)) (length srt)"
  proof (cases "srt = []")
    case True
    then show ?thesis by (simp add: Len64.simps)
  next
    case False
    then obtain e where e: "Len64 (length srt) = Suc e" "2 ^ e \<le> length srt" "length srt < 2 ^ Suc e"
      using Len64_bounds [of "length srt"] by (cases "Len64 (length srt)") auto
    have "0 < e \<longrightarrow> 2 ^ (e - 1) * 2 \<le> Suc (length srt)" using e(2) by (cases e) auto
    then show ?thesis using e by auto
  qed
  then show ?thesis using insertBST_correct [of "replicate (length srt) zeroItem" 0] assms
    by (fastforce simp: permuteBST_def)
qed


lemma below_0: "below 0 j"
  by (induction j rule: less_induct) (subst below_iff, auto)

lemma below_cases: "below i j \<longleftrightarrow> j = i \<or> below (2 * i + 1) j \<or> below (2 * i + 2) j"
proof
  show "j = i \<or> below (2 * i + 1) j \<or> below (2 * i + 2) j" if "below i j"
    using that
  proof (induction j rule: less_induct)
    case (less j)
    show ?case
    proof (cases "j = i")
      case False
      then have ij: "i < j" "below i ((j - 1) div 2)" using less.prems below_iff [of i j] by auto
      moreover have "(j - 1) div 2 < j" using ij(1) by auto
      ultimately consider "(j - 1) div 2 = i" | "below (2 * i + 1) ((j - 1) div 2)" | "below (2 * i + 2) ((j - 1) div 2)"
        using less.IH [of "(j - 1) div 2"] by blast
      then show ?thesis
      proof cases
        case 1
        then have "j = 2 * i + 1 \<or> j = 2 * i + 2" using ij(1) by auto
        then show ?thesis by (auto simp: below_iff [of "Suc (2 * i)" "Suc (2 * i)"] below_iff [of "Suc (Suc (2 * i))" "Suc (Suc (2 * i))"])
      next
        case 2
        then have "2 * i + 1 < j" using below_ge [OF 2] by auto
        then show ?thesis using 2 below_iff [of "2 * i + 1" j] by auto
      next
        case 3
        then have "2 * i + 2 < j" using below_ge [OF 3] by auto
        then show ?thesis using 3 below_iff [of "2 * i + 2" j] by auto
      qed
    qed simp
  qed
  show "below i j" if "j = i \<or> below (2 * i + 1) j \<or> below (2 * i + 2) j"
    using that below_parent [of i j] below_iff [of i i] by auto
qed

lemma inorder_mset: "mset (inorder_at t i) = image_mset (nth t) (mset_set {j. j < length t \<and> below i j})"
proof (induction t i rule: inorder_at.induct)
  case (1 t i)
  show ?case
  proof (cases "i < length t")
    case False
    then have "{j. j < length t \<and> below i j} = {}" using below_ge by fastforce
    then have "mset_set {j. j < length t \<and> below i j} = {#}" by (simp only: mset_set.empty)
    then show ?thesis using False by (simp add: inorder_at.simps)
  next
    case True
    let ?S = "\<lambda>i. {j. j < length t \<and> below i j}"
    have "?S i = insert i (?S (2 * i + 1) \<union> ?S (2 * i + 2))" using True below_cases [of i] by auto
    moreover have "i \<notin> ?S (2 * i + 1) \<union> ?S (2 * i + 2)" using below_ge by fastforce
    moreover have "?S (2 * i + 1) \<inter> ?S (2 * i + 2) = {}" using below_disjoint by blast
    ultimately have "mset_set (?S i) = add_mset i (mset_set (?S (2 * i + 1)) + mset_set (?S (2 * i + 2)))"
      by (simp add: mset_set_Union)
    then show ?thesis using 1 True by (simp add: inorder_at.simps [of t i])
  qed
qed

lemma inorder_0_mset: "mset (inorder_at t 0) = mset t"
proof -
  have "{j. j < length t \<and> below 0 j} = set [0..<length t]" by (auto simp: below_0)
  then have "mset (inorder_at t 0) = image_mset (nth t) (mset [0..<length t])"
    by (simp only: inorder_mset mset_set_set distinct_upt)
  also have "\<dots> = mset t" by (metis map_nth mset_map)
  finally show ?thesis .
qed

subsection \<open>Records\<close>

text \<open>A record: its type, its length including the header, its body.\<close>

definition record_bytes :: "u64 \<Rightarrow> bytes \<Rightarrow> bytes" where
  "record_bytes typ body = put64 typ @ put64 (16 + len64 body) @ body"

lemma length_record_bytes [simp, wire_simps]: "length (record_bytes typ body) = 16 + length body"
  by (simp add: record_bytes_def)

text \<open>Every encoder appends one record to its destination.\<close>

lemma append_records:
  "AppendEntry dst e = dst @ record_bytes TypeEntry (put64 (pe_Mode e) @ put64 (pe_Flags e) @
     put32 (pe_UID e) @ put32 (pe_GID e) @ put64 (pe_MtimeSecs e) @ put32 (pe_MtimeNanos e) @ put32 0)"
  "AppendFilename dst name = dst @ record_bytes TypeFilename (name @ [0])"
  "AppendSymlink dst name = dst @ record_bytes TypeSymlink_px (name @ [0])"
  "AppendDevice dst d = dst @ record_bytes TypeDevice (put64 (dv_Major d) @ put64 (dv_Minor d))"
  "AppendHardlink dst off name = dst @ record_bytes TypeHardlink_px (put64 off @ name @ [0])"
  "AppendXAttr dst name val = dst @ record_bytes TypeXAttr (name @ [0] @ val)"
  "AppendACLUser dst u = dst @ record_bytes TypeACLUser (put64 (au_UID u) @ put64 (au_Permissions u))"
  "AppendACLDefaultUser dst u =
     dst @ record_bytes TypeACLDefaultUser (put64 (au_UID u) @ put64 (au_Permissions u))"
  "AppendACLGroup dst g = dst @ record_bytes TypeACLGroup (put64 (ag_GID g) @ put64 (ag_Permissions g))"
  "AppendACLDefaultGroup dst g =
     dst @ record_bytes TypeACLDefaultGroup (put64 (ag_GID g) @ put64 (ag_Permissions g))"
  "AppendACLGroupObj dst p = dst @ record_bytes TypeACLGroupObj (put64 p)"
  "AppendACLDefault dst a = dst @ record_bytes TypeACLDefault
     (put64 (ad_UserObjPermissions a) @ put64 (ad_GroupObjPermissions a) @
      put64 (ad_OtherPermissions a) @ put64 (ad_MaskPermissions a))"
  "AppendFCaps dst data = dst @ record_bytes TypeFCaps data"
  "AppendQuotaProjID dst p = dst @ record_bytes TypeQuotaProjID (put64 p)"
  "AppendFormatVersion dst v = dst @ record_bytes TypeFormatVersion (put64 v)"
  "AppendPrelude dst data = dst @ record_bytes TypePrelude data"
  "AppendPayloadRef dst off sz = dst @ record_bytes TypePayloadRef (put64 off @ put64 sz)"
  by (simp_all add: pxar_appends pxar_sizes record_bytes_def)

lemma goodbye_bytes_length: "length (concat (map (goodbye_item_bytes g) items)) = 24 * length items"
  by (induction items) (simp_all add: goodbye_item_bytes_def)

lemma AppendGoodbye_record:
  assumes "length items < 2 ^ 63"
  shows "\<exists>tree. permuteBST (sort_key gi_Hash items) = Some tree \<and>
     inorder_at tree 0 = sort_key gi_Hash items \<and> mset tree = mset items \<and>
     AppendGoodbye dst items de gs =
       Some (dst @ record_bytes TypeGoodbye (concat (map (goodbye_item_bytes gs) tree) @
         put64 GoodbyeTailMarker @ put64 (gs - de) @ put64 (16 + 24 * of_nat (length items + 1))))"
proof -
  obtain tree where t: "permuteBST (sort_key gi_Hash items) = Some tree"
      "length tree = length items" "inorder_at tree 0 = sort_key gi_Hash items"
    using permuteBST_inorder [of "sort_key gi_Hash items"] assms by auto
  have "mset tree = mset items" using inorder_0_mset [of tree] t(3) by simp
  moreover have "AppendGoodbye dst items de gs =
       Some (dst @ record_bytes TypeGoodbye (concat (map (goodbye_item_bytes gs) tree) @
         put64 GoodbyeTailMarker @ put64 (gs - de) @ put64 (16 + 24 * of_nat (length items + 1))))"
    using t by (simp add: AppendGoodbye_def SizeGoodbye_def HeaderSize_def appendHeader_def
        record_bytes_def goodbye_bytes_length algebra_simps Let_def)
  ultimately show ?thesis using t by blast
qed

text \<open>
  C11: the goodbye table of a directory is written without an index leaving its slices, its record
  carries its own length, and it holds exactly the directory's items laid out as a binary search
  tree: the in-order walk of the implicit tree is in ascending hash order.
\<close>

theorem goodbye_search_tree:
  assumes "length items < 2 ^ 63"
  shows "\<exists>tree. permuteBST (sort_key gi_Hash items) = Some tree \<and> mset tree = mset items \<and>
     mset (inorder_at tree 0) = mset tree \<and> sorted (map gi_Hash (inorder_at tree 0)) \<and>
     (\<exists>body. AppendGoodbye dst items de gs = Some (dst @ record_bytes TypeGoodbye body) \<and>
        16 + len64 body = SizeGoodbye (length items) \<and>
        take (24 * length items) body = concat (map (goodbye_item_bytes gs) tree))"
proof -
  obtain tree where t: "permuteBST (sort_key gi_Hash items) = Some tree"
     "inorder_at tree 0 = sort_key gi_Hash items" "mset tree = mset items"
     "AppendGoodbye dst items de gs =
       Some (dst @ record_bytes TypeGoodbye (concat (map (goodbye_item_bytes gs) tree) @
         put64 GoodbyeTailMarker @ put64 (gs - de) @ put64 (16 + 24 * of_nat (length items + 1))))"
    using AppendGoodbye_record [OF assms, of dst de gs] by blast
  have "length tree = length items" using t(3) by (metis size_mset)
  then show ?thesis using t(1,3) unfolding t(2,4)
    by (intro exI [of _ tree] conjI exI) (auto simp: t(2) goodbye_bytes_length SizeGoodbye_def HeaderSize_def)
qed

definition example_items :: "GoodbyeItem list" where
  "example_items = map (\<lambda>h. \<lparr> gi_Hash = h, gi_Start = 0, gi_Length = 10 \<rparr>) [7, 3, 9, 1]"

theorem goodbye_search_tree_witness:
  "\<exists>tree. permuteBST (sort_key gi_Hash example_items) = Some tree \<and> mset tree = mset example_items \<and>
     sorted (map gi_Hash (inorder_at tree 0))"
  using goodbye_search_tree [of example_items "[]" 0 40] by (auto simp: example_items_def)

end
