(* ===== verification/Scan_Node.thy ===== *)
theory Scan_Node
  imports Pxar_Format "HOL-Library.List_Lexorder"
begin

unbundle bit_operations_syntax

text \<open>
  The node tree that scanning produces and archive generation consumes: \<^verbatim>\<open>src/scan/scan.go\<close>
  (\<open>Kind\<close>, \<open>Node\<close>, \<open>StreamNode\<close>, \<open>VirtualRoot\<close>) and \<^verbatim>\<open>src/scan/reader.go\<close> (\<open>Stat\<close>), with the extended
  attributes and access control lists of \<^verbatim>\<open>src/pxar/reader.go\<close>.

  A node's stream is the reader it is backed by; Go's \<open>Kind\<close> is an \<open>int\<close>, so a value outside the
  declared constants is possible and has a constructor of its own.  Names are compared bytewise,
  which is the lexicographic order on byte lists.
\<close>

definition ModeTypeMask :: u64 where "ModeTypeMask = 0xF000"
definition ModeSocket :: u64 where "ModeSocket = 0xC000"
definition ModeSymlink :: u64 where "ModeSymlink = 0xA000"
definition ModeRegular :: u64 where "ModeRegular = 0x8000"
definition ModeBlockDev :: u64 where "ModeBlockDev = 0x6000"
definition ModeDir :: u64 where "ModeDir = 0x4000"
definition ModeCharDev :: u64 where "ModeCharDev = 0x2000"
definition ModeFifo :: u64 where "ModeFifo = 0x1000"

lemmas mode_defs = ModeTypeMask_def ModeSocket_def ModeSymlink_def ModeRegular_def ModeBlockDev_def
  ModeDir_def ModeCharDev_def ModeFifo_def

datatype Kind =
    KindDirectory | KindFile | KindSymlink | KindHardlink | KindBlockDevice | KindCharDevice
  | KindFifo | KindSocket | KindStream | KindOther int

record Stat =
  st_Mode :: u64
  st_UID :: u32
  st_GID :: u32
  st_MtimeSecs :: i64
  st_MtimeNanos :: u32
  st_Size :: i64
  st_Nlink :: u64
  st_Dev :: u64
  st_Ino :: u64
  st_Rdev :: Device

definition zero_stat :: Stat where
  "zero_stat = \<lparr> st_Mode = 0, st_UID = 0, st_GID = 0, st_MtimeSecs = 0, st_MtimeNanos = 0, st_Size = 0,
     st_Nlink = 0, st_Dev = 0, st_Ino = 0, st_Rdev = \<lparr> dv_Major = 0, dv_Minor = 0 \<rparr> \<rparr>"

record Xattr =
  xa_Name :: bytes
  xa_Value :: bytes

record ACLs =
  acl_Users :: "ACLUser list"
  acl_Groups :: "ACLGroup list"
  acl_GroupObj :: "u64 option"
  acl_Default :: "ACLDefault option"
  acl_DefaultUsers :: "ACLUser list"
  acl_DefaultGroups :: "ACLGroup list"

definition no_acls :: ACLs where
  "no_acls = \<lparr> acl_Users = [], acl_Groups = [], acl_GroupObj = None, acl_Default = None,
     acl_DefaultUsers = [], acl_DefaultGroups = [] \<rparr>"

datatype Node = Node
  (nd_Name: bytes) (nd_Path: bytes) (nd_Kind: Kind) (nd_Stat: Stat) (nd_LinkTarget: bytes)
  (nd_Xattrs: "Xattr list") (nd_ACL: "ACLs option") (nd_FCaps: bytes) (nd_QuotaProjID: u64)
  (nd_Children: "Node list") (nd_Stream: "string rd option")

lemma size_child [termination_simp]: "c \<in> set (nd_Children n) \<Longrightarrow> size c < size n"
  by (cases n) (auto dest: size_list_estimation' [where f = size, OF _ order_refl])

text \<open>A node of a kind with everything else at its zero value.\<close>

definition mk_node :: "bytes \<Rightarrow> Kind \<Rightarrow> Stat \<Rightarrow> Node" where
  "mk_node name kind st = Node name [] kind st [] [] None [] 0 [] None"

definition joinArchive :: "bytes \<Rightarrow> bytes \<Rightarrow> bytes" where
  "joinArchive prefix name = (if prefix = [] then name else prefix @ str ''/'' @ name)"

datatype scan_error =
    ScanName name_error
  | ScanNegativeSize i64
  | ScanDuplicate bytes

definition StreamNode :: "bytes \<Rightarrow> i64 \<Rightarrow> string rd \<Rightarrow> scan_error + Node" where
  "StreamNode name sz r =
     (case ValidateFilename name of
        Some e \<Rightarrow> Inl (ScanName e)
      | None \<Rightarrow>
          (if sint sz < 0 then Inl (ScanNegativeSize sz)
           else Inr (Node name [] KindStream
             (zero_stat\<lparr> st_Mode := ModeRegular OR 0x1A4, st_Size := sz, st_Nlink := 1 \<rparr>)
             [] [] None [] 0 [] (Some r))))"

fun virtual_check :: "bytes set \<Rightarrow> Node list \<Rightarrow> scan_error option" where
  "virtual_check seen [] = None"
| "virtual_check seen (c # cs) =
     (case ValidateFilename (nd_Name c) of
        Some e \<Rightarrow> Some (ScanName e)
      | None \<Rightarrow>
          (if nd_Name c \<in> seen then Some (ScanDuplicate (nd_Name c))
           else virtual_check (insert (nd_Name c) seen) cs))"

definition VirtualRoot :: "bytes \<Rightarrow> Node list \<Rightarrow> scan_error + Node" where
  "VirtualRoot name children =
     (case virtual_check {} children of
        Some e \<Rightarrow> Inl e
      | None \<Rightarrow> Inr (Node name [] KindDirectory
          (zero_stat\<lparr> st_Mode := ModeDir OR 0x1FF, st_Nlink := 1 \<rparr>)
          [] [] None [] 0 (sort_key nd_Name children) None))"

subsection \<open>The virtual root\<close>

lemma virtual_check_None:
  "virtual_check seen cs = None \<longleftrightarrow>
     (\<forall>c \<in> set cs. ValidateFilename (nd_Name c) = None) \<and> distinct (map nd_Name cs) \<and>
     set (map nd_Name cs) \<inter> seen = {}"
  by (induction cs arbitrary: seen) (auto split: option.splits)

text \<open>\<open>sorted_wrt (<)\<close>: strictly ascending, so no name occurs twice.\<close>

lemma VirtualRoot_children:
  assumes "VirtualRoot name cs = Inr r"
  shows "sorted_wrt (<) (map nd_Name (nd_Children r)) \<and> mset (nd_Children r) = mset cs \<and>
    (\<forall>c \<in> set (nd_Children r). ValidateFilename (nd_Name c) = None)"
proof -
  from assms have v: "virtual_check {} cs = None" and ch: "nd_Children r = sort_key nd_Name cs"
    by (auto simp: VirtualRoot_def split: option.splits)
  have "distinct (map nd_Name (sort_key nd_Name cs))"
    using v by (metis distinct_map distinct_sort set_sort virtual_check_None)
  then have "sorted_wrt (<) (map nd_Name (sort_key nd_Name cs))"
    by (simp add: strict_sorted_iff)
  then show ?thesis using v ch by (simp add: virtual_check_None)
qed

end
