(* ===== verification/Pxar_Reader.thy ===== *)
theory Pxar_Reader
  imports Scan_Node
begin

unbundle bit_operations_syntax

text \<open>
  The pxar reader, \<^verbatim>\<open>src/pxar/reader.go\<close>, and the metadata walk of \<^verbatim>\<open>src/pxar/decode.go\<close>.

  The reader is a state machine with a one-record lookahead.  Its input, behind a buffered reader,
  is the bytes not read yet and how they end (end of file or a read error), which is all that
  \<open>io.ReadFull\<close> and \<open>io.CopyN\<close> can observe (\<open>read_full_enough\<close> and \<open>read_full_short\<close> of the prelude).  The payload stream of a v2 archive is an \<open>io.ReaderAt\<close>, a function from offset and
  length.  Archives are untrusted, so every check of the source is a branch; \<open>int64\<close> conversions
  are kept, which matters for the content skip of \<open>next\<close>.
\<close>

subsection \<open>State\<close>

record PNode =
  pn_Path :: bytes
  pn_Entry :: Entry_px
  pn_Hardlink :: bool
  pn_LinkTarget :: bytes
  pn_Xattrs :: "Xattr list"
  pn_ACL :: "ACLs option"
  pn_FCaps :: bytes
  pn_QuotaProjID :: u64
  pn_Device :: Device
  pn_Size :: u64
  pn_PayloadOffset :: u64
  pn_meta :: bytes

definition zero_entry :: Entry_px where
  "zero_entry = \<lparr> pe_Mode = 0, pe_Flags = 0, pe_UID = 0, pe_GID = 0, pe_MtimeSecs = 0, pe_MtimeNanos = 0 \<rparr>"

definition new_node :: "bytes \<Rightarrow> PNode" where
  "new_node path = \<lparr> pn_Path = path, pn_Entry = zero_entry, pn_Hardlink = False, pn_LinkTarget = [],
     pn_Xattrs = [], pn_ACL = None, pn_FCaps = [], pn_QuotaProjID = 0,
     pn_Device = \<lparr> dv_Major = 0, dv_Minor = 0 \<rparr>, pn_Size = 0, pn_PayloadOffset = 0, pn_meta = [] \<rparr>"

definition maxRecordBody :: u64 where "maxRecordBody = 2 ^ 20"
definition maxDepth_px :: nat where "maxDepth_px = 2048"

datatype pxar_error =
    PxEOF
  | PxTrailing u64
  | PxIO string
  | PxTruncated u64
  | PxBadLength u64 u64 u64
  | PxTooLarge u64 u64 u64
  | PxTruncatedRecord u64 u64
  | PxExpected bytes u64 u64
  | PxFilename bytes
  | PxName name_error
  | PxNotTerminated
  | PxNoFormatVersion
  | PxV2Given
  | PxFormatVersion bytes
  | PxHardlinkShort bytes
  | PxEntryV1 u64
  | PxEntryLength bytes u64
  | PxTooDeep bytes
  | PxSymlink bytes
  | PxEmptyTarget
  | PxDevice bytes u64 u64
  | PxMode u64 bytes
  | PxMetaLength bytes u64 u64
  | PxXattr bytes
  | PxPayloadRef bytes u64
  | PxPayloadStream string
  | PxNoStartMarker
  | PxRefRange bytes
  | PxRefMismatch bytes u64
  | PxContent string
  | PxWrap bytes pxar_error

type_synonym readerAt = "nat \<Rightarrow> nat \<Rightarrow> bytes \<times> string rstat"

text \<open>Where the content of the current file is read from.\<close>

datatype content = NoContent | Inline | Section nat | NoPayload

record Reader_px =
  pr_in :: bytes
  pr_ioerr :: "string option"
  pr_payload :: "readerAt option"
  pr_version :: nat
  pr_keepMeta :: bool
  pr_started :: bool
  pr_checked :: bool
  pr_dirs :: "bytes list"
  pr_pos :: u64
  pr_have :: bool
  pr_typ :: u64
  pr_length :: u64
  pr_content :: content
  pr_left :: u64
  pr_inline :: bool
  pr_err :: "pxar_error option"

type_synonym 'a pxres = "Reader_px \<times> (pxar_error + 'a)"

abbreviation px_bind :: "'a pxres \<Rightarrow> (Reader_px \<Rightarrow> 'a \<Rightarrow> 'b pxres) \<Rightarrow> 'b pxres" where
  "px_bind m f \<equiv> (case m of (s, Inl e) \<Rightarrow> (s, Inl e) | (s, Inr x) \<Rightarrow> f s x)"

definition new_reader :: "nat \<Rightarrow> bytes \<Rightarrow> string option \<Rightarrow> readerAt option \<Rightarrow> Reader_px" where
  "new_reader v inp ioerr payload = \<lparr> pr_in = inp, pr_ioerr = ioerr, pr_payload = payload,
     pr_version = v, pr_keepMeta = False, pr_started = False, pr_checked = False, pr_dirs = [],
     pr_pos = 0, pr_have = False, pr_typ = 0, pr_length = 0, pr_content = NoContent, pr_left = 0,
     pr_inline = False, pr_err = None \<rparr>"

definition NewReaderV1 :: "bytes \<Rightarrow> string option \<Rightarrow> Reader_px" where
  "NewReaderV1 inp ioerr = new_reader 1 inp ioerr None"

definition NewReaderV2 :: "bytes \<Rightarrow> string option \<Rightarrow> readerAt option \<Rightarrow> Reader_px" where
  "NewReaderV2 inp ioerr payload = new_reader 2 inp ioerr payload"

subsection \<open>Records\<close>

text \<open>\<open>io.ReadFull\<close> on the buffered input.\<close>

definition in_full :: "Reader_px \<Rightarrow> nat \<Rightarrow> Reader_px \<times> bytes \<times> string full" where
  "in_full r n =
     (if n \<le> length (pr_in r) then (r\<lparr> pr_in := drop n (pr_in r) \<rparr>, take n (pr_in r), FOk)
      else (r\<lparr> pr_in := [] \<rparr>, pr_in r,
            case pr_ioerr r of Some e \<Rightarrow> FErr e | None \<Rightarrow> if pr_in r = [] then FEof else FUnexpected))"

definition px_peek :: "Reader_px \<Rightarrow> (u64 \<times> u64) pxres" where
  "px_peek r =
     (if pr_have r then (r, Inr (pr_typ r, pr_length r))
      else
        (case in_full r 16 of
           (r, hdr, FOk) \<Rightarrow>
             (let r = r\<lparr> pr_typ := get64 hdr, pr_length := get64 (drop 8 hdr) \<rparr> in
              if pr_length r < HeaderSize then (r, Inl (PxBadLength (pr_typ r) (pr_pos r) (pr_length r)))
              else (r\<lparr> pr_have := True \<rparr>, Inr (pr_typ r, pr_length r)))
         | (r, hdr, FErr e) \<Rightarrow> (r, Inl (PxIO e))
         | (r, hdr, _) \<Rightarrow> (r, Inl (PxTruncated (pr_pos r)))))"

definition px_body :: "Reader_px \<Rightarrow> u64 \<Rightarrow> bytes pxres" where
  "px_body r len =
     (let n = len - HeaderSize in
      if n > maxRecordBody then (r, Inl (PxTooLarge (pr_typ r) (pr_pos r) n))
      else
        (case in_full r (unat n) of
           (r, body, FOk) \<Rightarrow> (r\<lparr> pr_have := False, pr_pos := pr_pos r + len \<rparr>, Inr body)
         | (r, body, _) \<Rightarrow> (r, Inl (PxTruncatedRecord (pr_typ r) (pr_pos r)))))"

definition px_skip :: "Reader_px \<Rightarrow> u64 \<Rightarrow> unit pxres" where
  "px_skip r len =
     (let n = len - HeaderSize in
      if n > 2 ^ 62 then (r, Inl (PxBadLength (pr_typ r) (pr_pos r) len))
      else if unat n \<le> length (pr_in r) then
        (r\<lparr> pr_in := drop (unat n) (pr_in r), pr_have := False, pr_pos := pr_pos r + len \<rparr>, Inr ())
      else (r\<lparr> pr_in := [] \<rparr>, Inl (PxTruncatedRecord (pr_typ r) (pr_pos r))))"

definition cstring :: "bytes \<Rightarrow> pxar_error + bytes" where
  "cstring b = (if b = [] \<or> last b \<noteq> 0 then Inl PxNotTerminated else Inr (butlast b))"

text \<open>\<open>strings.SplitSeq(p, "/")\<close>.\<close>

fun split_slash :: "bytes \<Rightarrow> bytes list" where
  "split_slash [] = [[]]"
| "split_slash (b # bs) =
     (if b = of_char (CHR ''/'') then [] # split_slash bs
      else case split_slash bs of [] \<Rightarrow> [[b]] | c # cs \<Rightarrow> (b # c) # cs)"

definition validatePath :: "bytes \<Rightarrow> name_error option" where
  "validatePath p =
     (case List.find (\<lambda>c. ValidateFilename c \<noteq> None) (split_slash p) of
        None \<Rightarrow> None
      | Some c \<Rightarrow> ValidateFilename c)"

definition metadataRecord :: "u64 \<Rightarrow> u64 option" where
  "metadataRecord typ =
     (if typ = TypeACLUser \<or> typ = TypeACLDefaultUser then Some ACLUserSize
      else if typ = TypeACLGroup \<or> typ = TypeACLDefaultGroup then Some ACLGroupSize
      else if typ = TypeACLGroupObj then Some ACLGroupObjSize
      else if typ = TypeACLDefault then Some ACLDefaultSize
      else if typ = TypeQuotaProjID then Some QuotaProjIDSize
      else if typ = TypeXAttr \<or> typ = TypeFCaps then Some 0
      else None)"

definition px_keep :: "Reader_px \<Rightarrow> PNode \<Rightarrow> u64 \<Rightarrow> bytes \<Rightarrow> PNode" where
  "px_keep r n typ body =
     (if pr_keepMeta r
      then n\<lparr> pn_meta := appendHeader (pn_meta n) typ (HeaderSize + len64 body) @ body \<rparr> else n)"

definition node_acl :: "PNode \<Rightarrow> ACLs" where
  "node_acl n = (case pn_ACL n of None \<Rightarrow> no_acls | Some a \<Rightarrow> a)"

text \<open>The body of one metadata record put into the node.\<close>

definition meta_field :: "PNode \<Rightarrow> u64 \<Rightarrow> bytes \<Rightarrow> pxar_error + PNode" where
  "meta_field n typ body =
     (let u = (\<lambda>i. get64 (drop (8 * i) body)); acl = node_acl n in
      if typ = TypeXAttr then
        (if 0 \<notin> set body \<or> hd body = 0 then Inl (PxXattr (pn_Path n))
         else Inr (n\<lparr> pn_Xattrs := pn_Xattrs n @
           [\<lparr> xa_Name = takeWhile (\<lambda>b. b \<noteq> 0) body, xa_Value = tl (dropWhile (\<lambda>b. b \<noteq> 0) body) \<rparr>] \<rparr>))
      else if typ = TypeACLUser then
        Inr (n\<lparr> pn_ACL := Some (acl\<lparr> acl_Users := acl_Users acl @ [\<lparr> au_UID = u 0, au_Permissions = u 1 \<rparr>] \<rparr>) \<rparr>)
      else if typ = TypeACLDefaultUser then
        Inr (n\<lparr> pn_ACL := Some (acl\<lparr> acl_DefaultUsers := acl_DefaultUsers acl @ [\<lparr> au_UID = u 0, au_Permissions = u 1 \<rparr>] \<rparr>) \<rparr>)
      else if typ = TypeACLGroup then
        Inr (n\<lparr> pn_ACL := Some (acl\<lparr> acl_Groups := acl_Groups acl @ [\<lparr> ag_GID = u 0, ag_Permissions = u 1 \<rparr>] \<rparr>) \<rparr>)
      else if typ = TypeACLDefaultGroup then
        Inr (n\<lparr> pn_ACL := Some (acl\<lparr> acl_DefaultGroups := acl_DefaultGroups acl @ [\<lparr> ag_GID = u 0, ag_Permissions = u 1 \<rparr>] \<rparr>) \<rparr>)
      else if typ = TypeACLGroupObj then
        Inr (n\<lparr> pn_ACL := Some (acl\<lparr> acl_GroupObj := Some (u 0) \<rparr>) \<rparr>)
      else if typ = TypeACLDefault then
        Inr (n\<lparr> pn_ACL := Some (acl\<lparr> acl_Default := Some \<lparr> ad_UserObjPermissions = u 0,
          ad_GroupObjPermissions = u 1, ad_OtherPermissions = u 2, ad_MaskPermissions = u 3 \<rparr> \<rparr>) \<rparr>)
      else if typ = TypeFCaps then Inr (n\<lparr> pn_FCaps := body \<rparr>)
      else if typ = TypeQuotaProjID then Inr (n\<lparr> pn_QuotaProjID := u 0 \<rparr>)
      else Inr n)"

text \<open>What is left to read, counting a header that is already taken from the input.\<close>

definition px_measure :: "Reader_px \<Rightarrow> nat" where
  "px_measure r = 2 * length (pr_in r) + (if pr_have r then 1 else 0)"

lemma px_peek_have: "px_peek r = (r', Inr x) \<Longrightarrow> pr_have r' \<and> px_measure r' \<le> px_measure r"
  by (auto simp: px_peek_def in_full_def px_measure_def Let_def split: if_splits option.splits)

lemma px_body_measure: "px_body r len = (r', Inr b) \<Longrightarrow> pr_have r \<Longrightarrow> px_measure r' < px_measure r"
  by (auto simp: px_body_def in_full_def px_measure_def Let_def split: if_splits option.splits)

function px_metadata :: "Reader_px \<Rightarrow> PNode \<Rightarrow> (PNode \<times> u64 \<times> u64) pxres" where
  "px_metadata r n =
     px_bind (px_peek r)
       (\<lambda>r tl. case tl of (typ, len) \<Rightarrow>
          (case metadataRecord typ of
             None \<Rightarrow> (r, Inr (n, typ, len))
           | Some want \<Rightarrow>
               (if want \<noteq> 0 \<and> len \<noteq> want then (r, Inl (PxMetaLength (pn_Path n) typ len))
                else
                  px_bind (px_body r len)
                    (\<lambda>r body.
                       case meta_field (px_keep r n typ body) typ body of
                         Inl e \<Rightarrow> (r, Inl e)
                       | Inr n \<Rightarrow> px_metadata r n))))"
  by pat_completeness auto
termination
  by (relation "measure (\<lambda>(r, n). px_measure r)")
    (auto dest!: px_peek_have [OF sym] px_body_measure [OF sym])

declare px_metadata.simps [simp del]

subsection \<open>Content\<close>

definition checkPayloadStart :: "readerAt \<Rightarrow> pxar_error option" where
  "checkPayloadStart payload =
     (case payload 0 16 of
        (hdr, ROk) \<Rightarrow> (if get64 hdr \<noteq> PayloadStartMarker then Some PxNoStartMarker else None)
      | (hdr, REof) \<Rightarrow> Some (PxPayloadStream ''EOF'')
      | (hdr, RErr e) \<Rightarrow> Some (PxPayloadStream e))"

definition checkPayloadRecord :: "readerAt \<Rightarrow> PNode \<Rightarrow> pxar_error option" where
  "checkPayloadRecord payload n =
     (if pn_PayloadOffset n > 2 ^ 62 \<or> pn_Size n > 2 ^ 62 then Some (PxRefRange (pn_Path n))
      else
        (case payload (unat (pn_PayloadOffset n)) 16 of
           (hdr, ROk) \<Rightarrow>
             (if get64 hdr \<noteq> TypePayload \<or> get64 (drop 8 hdr) \<noteq> HeaderSize + pn_Size n
              then Some (PxRefMismatch (pn_Path n) (pn_Size n)) else None)
         | (hdr, REof) \<Rightarrow> Some (PxPayloadStream ''EOF'')
         | (hdr, RErr e) \<Rightarrow> Some (PxPayloadStream e)))"

definition px_payloadRecord :: "Reader_px \<Rightarrow> PNode \<Rightarrow> u64 \<Rightarrow> u64 \<Rightarrow> PNode pxres" where
  "px_payloadRecord r n typ len =
     (if pr_version r = 1 \<and> typ = TypePayload then
        (let sz = len - HeaderSize in
         (r\<lparr> pr_have := False, pr_pos := pr_pos r + HeaderSize, pr_content := Inline, pr_left := sz,
             pr_inline := True \<rparr>, Inr (n\<lparr> pn_Size := sz \<rparr>)))
      else if pr_version r = 2 \<and> typ = TypePayloadRef then
        (if len \<noteq> PayloadRefSize then (r, Inl (PxPayloadRef (pn_Path n) len))
         else
           px_bind (px_body r len)
             (\<lambda>r body.
                let n = n\<lparr> pn_PayloadOffset := get64 body, pn_Size := get64 (drop 8 body) \<rparr> in
                case pr_payload r of
                  None \<Rightarrow> (r\<lparr> pr_content := NoPayload, pr_left := pn_Size n \<rparr>, Inr n)
                | Some p \<Rightarrow>
                    (case (if pr_checked r then None else checkPayloadStart p) of
                       Some e \<Rightarrow> (r, Inl e)
                     | None \<Rightarrow>
                         (let r = r\<lparr> pr_checked := True \<rparr> in
                          case checkPayloadRecord p n of
                            Some e \<Rightarrow> (r, Inl e)
                          | None \<Rightarrow>
                              (r\<lparr> pr_content := Section (unat (pn_PayloadOffset n + HeaderSize)),
                                 pr_left := pn_Size n \<rparr>, Inr n)))))
      else (r, Inl (PxExpected (pn_Path n) (pr_pos r) typ)))"

text \<open>
  \<open>Read\<close> into a buffer of \<open>want\<close> bytes.  The underlying source delivers all it can of what is asked
  for; a source that delivers less gives the same bytes over more calls.
\<close>

definition px_Read :: "Reader_px \<Rightarrow> nat \<Rightarrow> Reader_px \<times> bytes \<times> pxar_error option" where
  "px_Read r want =
     (if pr_left r = 0 then (r, [], Some PxEOF)
      else
        (let want = min want (unat (pr_left r));
             (r, bs, st) =
               (case pr_content r of
                  Inline \<Rightarrow>
                    (if pr_in r = [] \<and> 0 < want
                     then (r, [], case pr_ioerr r of None \<Rightarrow> REof | Some e \<Rightarrow> RErr e)
                     else (r\<lparr> pr_in := drop want (pr_in r) \<rparr>, take want (pr_in r), ROk))
                | Section off \<Rightarrow>
                    (case pr_payload r of
                       None \<Rightarrow> (r, [], REof)
                     | Some p \<Rightarrow>
                         (case p off want of
                            (bs, st) \<Rightarrow> (r\<lparr> pr_content := Section (off + length bs) \<rparr>, bs, st)))
                | NoPayload \<Rightarrow> (r, [], RErr ''no payload stream'')
                | NoContent \<Rightarrow> (r, [], REof));
             r = r\<lparr> pr_left := pr_left r - len64 bs,
                    pr_pos := (if pr_inline r then pr_pos r + len64 bs else pr_pos r) \<rparr>
         in if pr_left r = 0 \<or> st = ROk then (r, bs, None)
            else
              (let e = PxContent (case st of RErr e \<Rightarrow> e | _ \<Rightarrow> ''unexpected EOF'') in
               (r\<lparr> pr_err := Some e \<rparr>, bs, Some e))))"

subsection \<open>Entries\<close>

definition modeType :: "u64 \<Rightarrow> u64" where "modeType m = m AND ModeTypeMask"

definition px_hardlink :: "Reader_px \<Rightarrow> bytes \<Rightarrow> u64 \<Rightarrow> PNode pxres" where
  "px_hardlink r path len =
     px_bind (px_body r len)
       (\<lambda>r body.
          if length body < 9 then (r, Inl (PxHardlinkShort path))
          else
            (case cstring (drop 8 body) of
               Inl e \<Rightarrow> (r, Inl (PxWrap path e))
             | Inr target \<Rightarrow>
                 (case validatePath target of
                    Some e \<Rightarrow> (r, Inl (PxWrap path (PxName e)))
                  | None \<Rightarrow> (r, Inr ((new_node path)\<lparr> pn_Hardlink := True, pn_LinkTarget := target \<rparr>)))))"

definition px_symlink :: "Reader_px \<Rightarrow> PNode \<Rightarrow> u64 \<Rightarrow> u64 \<Rightarrow> PNode pxres" where
  "px_symlink r n typ len =
     (if typ \<noteq> TypeSymlink_px then (r, Inl (PxExpected (pn_Path n) (pr_pos r) typ))
      else
        px_bind (px_body r len)
          (\<lambda>r body.
             case cstring body of
               Inl e \<Rightarrow> (r, Inl (PxWrap (pn_Path n) e))
             | Inr target \<Rightarrow>
                 (if target = [] then (r, Inl (PxWrap (pn_Path n) PxEmptyTarget))
                  else (r, Inr (n\<lparr> pn_LinkTarget := target \<rparr>)))))"

definition px_device :: "Reader_px \<Rightarrow> PNode \<Rightarrow> u64 \<Rightarrow> u64 \<Rightarrow> PNode pxres" where
  "px_device r n typ len =
     (if typ \<noteq> TypeDevice \<or> len \<noteq> DeviceSize then (r, Inl (PxDevice (pn_Path n) typ len))
      else
        px_bind (px_body r len)
          (\<lambda>r body. (r, Inr (n\<lparr> pn_Device := \<lparr> dv_Major = get64 body, dv_Minor = get64 (drop 8 body) \<rparr> \<rparr>))))"

definition entry_of :: "bytes \<Rightarrow> Entry_px" where
  "entry_of body = \<lparr> pe_Mode = get64 body, pe_Flags = get64 (drop 8 body), pe_UID = get32 (drop 16 body),
     pe_GID = get32 (drop 20 body), pe_MtimeSecs = get64 (drop 24 body), pe_MtimeNanos = get32 (drop 32 body) \<rparr>"

text \<open>What follows the metadata, by the type bits of the mode.\<close>

definition px_kind :: "Reader_px \<Rightarrow> PNode \<Rightarrow> u64 \<Rightarrow> u64 \<Rightarrow> PNode pxres" where
  "px_kind r n typ len =
     (let m = modeType (pe_Mode (pn_Entry n)) in
      if m = ModeDir then
        (if maxDepth_px \<le> length (pr_dirs r) then (r, Inl (PxTooDeep (pn_Path n)))
         else (r\<lparr> pr_dirs := pn_Path n # pr_dirs r \<rparr>, Inr n))
      else if m = ModeRegular then px_payloadRecord r n typ len
      else if m = ModeSymlink then px_symlink r n typ len
      else if m = ModeBlockDev \<or> m = ModeCharDev then px_device r n typ len
      else if m = ModeFifo \<or> m = ModeSocket then (r, Inr n)
      else (r, Inl (PxMode (pe_Mode (pn_Entry n)) (pn_Path n))))"

definition px_node :: "Reader_px \<Rightarrow> bytes \<Rightarrow> PNode pxres" where
  "px_node r path =
     px_bind (px_peek r)
       (\<lambda>r tl. case tl of (typ, len) \<Rightarrow>
          if typ = TypeHardlink_px \<and> path \<noteq> [] then px_hardlink r path len
          else if typ = TypeEntryV1 then (r, Inl (PxEntryV1 (pr_pos r)))
          else if typ \<noteq> TypeEntry then (r, Inl (PxExpected path (pr_pos r) typ))
          else if len \<noteq> EntrySize then (r, Inl (PxEntryLength path len))
          else
            px_bind (px_body r len)
              (\<lambda>r body.
                 px_bind (px_metadata r (px_keep r ((new_node path)\<lparr> pn_Entry := entry_of body \<rparr>) TypeEntry body))
                   (\<lambda>r ntl. case ntl of (n, typ, len) \<Rightarrow> px_kind r n typ len)))"

definition px_readHead :: "Reader_px \<Rightarrow> unit pxres" where
  "px_readHead r =
     px_bind (px_peek r)
       (\<lambda>r tl. case tl of (typ, len) \<Rightarrow>
          if typ \<noteq> TypeFormatVersion then
            (if pr_version r = 2 then (r, Inl PxNoFormatVersion) else (r\<lparr> pr_version := 1 \<rparr>, Inr ()))
          else if pr_version r = 1 then (r, Inl PxV2Given)
          else
            px_bind (px_body r len)
              (\<lambda>r body.
                 if length body \<noteq> 8 \<or> get64 body \<noteq> 2 then (r, Inl (PxFormatVersion body))
                 else
                   px_bind (px_peek (r\<lparr> pr_version := 2 \<rparr>))
                     (\<lambda>r tl. case tl of (typ, len) \<Rightarrow>
                        if typ = TypePrelude then px_bind (px_body r len) (\<lambda>r _. (r, Inr ()))
                        else (r, Inr ()))))"

text \<open>
  The loop of \<open>next\<close>: goodbye records close directories until a filename or the end of the archive.
  \<open>dirs\<close> are the open directories, which is what the loop recurses on.
\<close>

fun px_loop :: "Reader_px \<Rightarrow> bytes list \<Rightarrow> PNode pxres" where
  "px_loop r [] =
     (if pr_in r \<noteq> [] then (r, Inl (PxTrailing (pr_pos r)))
      else case pr_ioerr r of None \<Rightarrow> (r, Inl PxEOF) | Some e \<Rightarrow> (r, Inl (PxIO e)))"
| "px_loop r (dir # dirs) =
     px_bind (px_peek r)
       (\<lambda>r tl. case tl of (typ, len) \<Rightarrow>
          if typ = TypeGoodbye then
            px_bind (px_skip r len) (\<lambda>r _. px_loop (r\<lparr> pr_dirs := dirs \<rparr>) dirs)
          else if typ = TypeFilename then
            px_bind (px_body r len)
              (\<lambda>r body.
                 case cstring body of
                   Inl e \<Rightarrow> (r, Inl (PxWrap dir e))
                 | Inr name \<Rightarrow>
                     (case ValidateFilename name of
                        Some e \<Rightarrow> (r, Inl (PxWrap dir (PxName e)))
                      | None \<Rightarrow> px_node r (joinArchive dir name)))
          else (r, Inl (PxExpected dir (pr_pos r) typ)))"

text \<open>
  The content of a v1 file that was not read is skipped with \<open>io.CopyN(io.Discard, r, int64(r.left))\<close>:
  a count that is negative as an \<open>int64\<close> copies nothing and reports no error.
\<close>

definition px_skip_content :: "Reader_px \<Rightarrow> unit pxres" where
  "px_skip_content r =
     (if pr_inline r \<and> pr_left r > 0 \<and> 0 \<le> sint (pr_left r) then
        (if unat (pr_left r) \<le> length (pr_in r)
         then (r\<lparr> pr_in := drop (unat (pr_left r)) (pr_in r), pr_pos := pr_pos r + pr_left r, pr_left := 0 \<rparr>, Inr ())
         else (let e = PxContent (case pr_ioerr r of Some e \<Rightarrow> e | None \<Rightarrow> ''unexpected EOF'') in
               (r\<lparr> pr_in := [], pr_err := Some e \<rparr>, Inl e)))
      else (r, Inr ()))"

definition px_next :: "Reader_px \<Rightarrow> PNode pxres" where
  "px_next r =
     px_bind (px_skip_content r)
       (\<lambda>r _.
          let r = r\<lparr> pr_content := NoContent, pr_left := 0, pr_inline := False \<rparr> in
          if \<not> pr_started r then
            px_bind (px_readHead (r\<lparr> pr_started := True \<rparr>)) (\<lambda>r _. px_node r [])
          else px_loop r (pr_dirs r))"

definition px_Next :: "Reader_px \<Rightarrow> PNode pxres" where
  "px_Next r =
     (case pr_err r of
        Some e \<Rightarrow> (r, Inl e)
      | None \<Rightarrow>
          (case px_next r of
             (r, Inl e) \<Rightarrow> (r\<lparr> pr_err := Some e \<rparr>, Inl e)
           | (r, Inr n) \<Rightarrow> (r, Inr n)))"

subsection \<open>Progress\<close>

lemma px_measure_upd [simp]:
  "px_measure (r\<lparr> pr_dirs := d \<rparr>) = px_measure r" "px_measure (r\<lparr> pr_version := v \<rparr>) = px_measure r"
  "px_measure (r\<lparr> pr_started := b \<rparr>) = px_measure r" "px_measure (r\<lparr> pr_content := c \<rparr>) = px_measure r"
  "px_measure (r\<lparr> pr_left := l \<rparr>) = px_measure r" "px_measure (r\<lparr> pr_inline := b \<rparr>) = px_measure r"
  "px_measure (r\<lparr> pr_err := e \<rparr>) = px_measure r"
  by (simp_all add: px_measure_def)

lemma px_peek_le: "px_peek r = (r', x) \<Longrightarrow> px_measure r' \<le> px_measure r"
  by (auto simp: px_peek_def in_full_def px_measure_def Let_def split: if_splits option.splits)

lemma px_body_le: "px_body r len = (r', x) \<Longrightarrow> px_measure r' \<le> px_measure r"
  by (auto simp: px_body_def in_full_def px_measure_def Let_def split: if_splits option.splits)

lemma px_skip_le: "px_skip r len = (r', x) \<Longrightarrow> px_measure r' \<le> px_measure r"
  by (auto simp: px_skip_def px_measure_def Let_def split: if_splits)

lemma px_metadata_le: "px_metadata r n = (r', x) \<Longrightarrow> px_measure r' \<le> px_measure r"
proof (induction r n rule: px_metadata.induct)
  case (1 r n)
  obtain r1 a where p: "px_peek r = (r1, a)" by fastforce
  show ?case
  proof (cases a)
    case (Inl e)
    then show ?thesis using "1.prems" p px_peek_le by (auto simp: px_metadata.simps [of r n])
  next
    case (Inr tl)
    obtain ty len where tl: "tl = (ty, len)" by fastforce
    obtain r2 b where b: "px_body r1 len = (r2, b)" by fastforce
    show ?thesis
    proof (cases "\<exists>w body n'. metadataRecord ty = Some w \<and> \<not> (w \<noteq> 0 \<and> len \<noteq> w) \<and> b = Inr body \<and>
        meta_field (px_keep r2 n ty body) ty body = Inr n'")
      case True
      then obtain w body n' where h: "metadataRecord ty = Some w" "\<not> (w \<noteq> 0 \<and> len \<noteq> w)" "b = Inr body"
        "meta_field (px_keep r2 n ty body) ty body = Inr n'" by blast
      have "px_metadata r2 n' = (r', x)"
        using "1.prems" p Inr tl b h by (simp add: px_metadata.simps [of r n])
      then have "px_measure r' \<le> px_measure r2"
        using "1.IH" [OF p [symmetric] Inr tl [symmetric] h(1,2) b [symmetric] h(3,4)] by blast
      then show ?thesis using px_peek_le [OF p] px_body_le [OF b] by simp
    next
      case False
      then have "r' = r1 \<or> r' = r2"
        using "1.prems" p Inr tl b
        by (auto simp: px_metadata.simps [of r n] split: option.splits if_splits sum.splits)
      then show ?thesis using px_peek_le [OF p] px_body_le [OF b] by auto
    qed
  qed
qed

lemma px_payloadRecord_le: "px_payloadRecord r n typ len = (r', x) \<Longrightarrow> px_measure r' \<le> px_measure r"
proof -
  assume a: "px_payloadRecord r n typ len = (r', x)"
  obtain r1 b where b: "px_body r len = (r1, b)" by fastforce
  then have "px_measure r1 \<le> px_measure r" by (rule px_body_le)
  with a b show ?thesis
    by (auto simp: px_payloadRecord_def px_measure_def Let_def split: if_splits option.splits sum.splits)
qed

lemma px_kind_le: "px_kind r n typ len = (r', x) \<Longrightarrow> px_measure r' \<le> px_measure r"
proof -
  assume a: "px_kind r n typ len = (r', x)"
  obtain r1 b where b: "px_body r len = (r1, b)" by fastforce
  then have "px_measure r1 \<le> px_measure r" by (rule px_body_le)
  moreover have "px_measure (r\<lparr> pr_dirs := d \<rparr>) = px_measure r" for d by (simp add: px_measure_def)
  ultimately show ?thesis using a b
    by (auto simp: px_kind_def px_symlink_def px_device_def Let_def
        split: if_splits option.splits sum.splits dest: px_payloadRecord_le)
qed

lemma px_node_less: "px_node r path = (r', Inr n) \<Longrightarrow> px_measure r' < px_measure r"
proof -
  assume a: "px_node r path = (r', Inr n)"
  obtain r1 ty len where p: "px_peek r = (r1, Inr (ty, len))"
    using a by (auto simp: px_node_def split: prod.splits sum.splits)
  obtain r2 body where b: "px_body r1 len = (r2, Inr body)"
    using a p by (auto simp: px_node_def px_hardlink_def split: prod.splits sum.splits if_splits)
  have "px_measure r2 < px_measure r"
    using px_peek_have [OF p] px_body_measure [OF b] by simp
  moreover have "px_measure r' \<le> px_measure r2"
    using a p b
    by (auto simp: px_node_def px_hardlink_def split: prod.splits sum.splits if_splits option.splits
        dest!: px_metadata_le px_kind_le)
  ultimately show ?thesis by simp
qed

lemma px_loop_less: "px_loop r dirs = (r', Inr n) \<Longrightarrow> px_measure r' < px_measure r"
proof (induction r dirs rule: px_loop.induct)
  case (1 r)
  then show ?case by (auto split: if_splits option.splits)
next
  case (2 r dir dirs)
  obtain r1 ty len where p: "px_peek r = (r1, Inr (ty, len))"
    using "2.prems" by (auto split: prod.splits sum.splits)
  show ?case
  proof (cases "ty = TypeGoodbye")
    case True
    obtain r2 where k: "px_skip r1 len = (r2, Inr ())" "px_loop (r2\<lparr> pr_dirs := dirs \<rparr>) dirs = (r', Inr n)"
      using "2.prems" p True by (auto split: prod.splits sum.splits)
    have "px_measure r' < px_measure (r2\<lparr> pr_dirs := dirs \<rparr>)"
      by (rule "2.IH" [OF p [symmetric] refl refl True k(1) [symmetric] refl k(2)])
    then show ?thesis using px_peek_le [OF p] px_skip_le [OF k(1)] by (simp add: px_measure_def)
  next
    case False
    obtain r2 body where b: "px_body r1 len = (r2, Inr body)"
      using "2.prems" p False by (auto split: prod.splits sum.splits if_splits)
    then have "px_measure r' < px_measure r2"
      using "2.prems" p False by (auto split: prod.splits sum.splits if_splits option.splits dest: px_node_less)
    then show ?thesis using px_peek_le [OF p] px_body_le [OF b] by simp
  qed
qed

lemma px_readHead_le: "px_readHead r = (r', Inr x) \<Longrightarrow> px_measure r' \<le> px_measure r"
proof -
  assume a: "px_readHead r = (r', Inr x)"
  obtain r1 ty len where p: "px_peek r = (r1, Inr (ty, len))"
    using a by (auto simp: px_readHead_def split: prod.splits sum.splits)
  show ?thesis
  proof (cases "ty = TypeFormatVersion")
    case False
    then show ?thesis using a p px_peek_le [OF p] by (auto simp: px_readHead_def split: if_splits)
  next
    case True
    obtain r2 body where b: "px_body r1 len = (r2, Inr body)"
      using a p True by (auto simp: px_readHead_def split: prod.splits sum.splits if_splits)
    obtain r3 ty' len' where p': "px_peek (r2\<lparr> pr_version := 2 \<rparr>) = (r3, Inr (ty', len'))"
      using a p True b by (auto simp: px_readHead_def split: prod.splits sum.splits if_splits)
    have "px_measure r' \<le> px_measure r3"
      using a p True b p'
      by (auto simp: px_readHead_def split: prod.splits sum.splits if_splits dest: px_body_le)
    then show ?thesis using px_peek_le [OF p] px_body_le [OF b] px_peek_le [OF p'] by simp
  qed
qed

lemma px_skip_content_le: "px_skip_content r = (r', x) \<Longrightarrow> px_measure r' \<le> px_measure r"
  by (auto simp: px_skip_content_def px_measure_def Let_def split: if_splits)

lemma px_next_less:
  assumes "px_next r = (r', Inr n)"
  shows "px_measure r' < px_measure r"
proof -
  obtain r1 where k: "px_skip_content r = (r1, Inr ())"
    using assms by (auto simp: px_next_def split: prod.splits sum.splits)
  let ?r = "r1\<lparr> pr_content := NoContent, pr_left := 0, pr_inline := False \<rparr>"
  have "px_measure r' < px_measure ?r"
  proof (cases "pr_started ?r")
    case True
    then have "px_loop ?r (pr_dirs ?r) = (r', Inr n)" using assms k by (simp add: px_next_def)
    then show ?thesis by (rule px_loop_less)
  next
    case False
    then obtain r2 where h: "px_readHead (?r\<lparr> pr_started := True \<rparr>) = (r2, Inr ())" "px_node r2 [] = (r', Inr n)"
      using assms k by (auto simp: px_next_def split: prod.splits sum.splits)
    show ?thesis using px_node_less [OF h(2)] px_readHead_le [OF h(1)] by simp
  qed
  then show ?thesis using px_skip_content_le [OF k] by simp
qed

lemma px_Next_less: "px_Next r = (r', Inr n) \<Longrightarrow> px_measure r' < px_measure r"
  by (auto simp: px_Next_def split: option.splits prod.splits sum.splits dest: px_next_less)

subsection \<open>The metadata walk\<close>

record MetaFile =
  mf_Path :: bytes
  mf_Meta :: bytes
  mf_Size :: u64
  mf_PayloadOffset :: u64

text \<open>\<open>visit\<close> is a callback with a state of its own; its error ends the walk.\<close>

function decode_loop ::
  "('s \<Rightarrow> MetaFile \<Rightarrow> pxar_error + 's) \<Rightarrow> Reader_px \<Rightarrow> 's \<Rightarrow> pxar_error + (nat \<times> 's)" where
  "decode_loop visit r s =
     (case px_Next r of
        (r', Inl e) \<Rightarrow> (if e = PxEOF then Inr (pr_version r', s) else Inl e)
      | (r', Inr n) \<Rightarrow>
          (if pn_Hardlink n \<or> modeType (pe_Mode (pn_Entry n)) \<noteq> ModeRegular then decode_loop visit r' s
           else
             (case visit s \<lparr> mf_Path = pn_Path n, mf_Meta = pn_meta n, mf_Size = pn_Size n,
                            mf_PayloadOffset = pn_PayloadOffset n \<rparr> of
                Inl e \<Rightarrow> Inl e
              | Inr s' \<Rightarrow> decode_loop visit r' s')))"
  by pat_completeness auto
termination
  by (relation "measure (\<lambda>(v, r, s). px_measure r)") (auto dest!: px_Next_less [OF sym])

declare decode_loop.simps [simp del]

definition DecodeMetadata ::
  "('s \<Rightarrow> MetaFile \<Rightarrow> pxar_error + 's) \<Rightarrow> bytes \<Rightarrow> string option \<Rightarrow> 's \<Rightarrow> pxar_error + (nat \<times> 's)" where
  "DecodeMetadata visit inp ioerr s =
     decode_loop visit ((NewReaderV1 inp ioerr)\<lparr> pr_version := 0, pr_keepMeta := True \<rparr>) s"

end
