(* ===== verification/Pattern.thy ===== *)
theory Pattern
  imports Glob Pxar_Reader
begin

text \<open>
  Exclude patterns and lists of them, \<^verbatim>\<open>src/scan/pattern.go\<close>.  Matching a pattern runs the compiled
  glob, so it has the panic of the matcher as a value; a list is evaluated from its end.
\<close>

datatype MatchType = MatchExclude | MatchInclude

record Pattern =
  pt_Text :: bytes
  pt_Anchored :: bool
  pt_DirOnly :: bool
  pt_Include :: bool
  pt_g :: "bytes list option"

datatype pattern_cause = EmptyPattern | BadByte | BadGlob glob_error

datatype pattern_error = PatternError bytes pattern_cause

abbreviation c_bang :: byte where "c_bang \<equiv> 33"
abbreviation c_nl :: byte where "c_nl \<equiv> 10"

text \<open>The leading and trailing markers of a pattern, and its body.\<close>

definition strip_pattern :: "bytes \<Rightarrow> bool \<times> bool \<times> bool \<times> bytes" where
  "strip_pattern s =
     (let incl = has_prefix s [c_bang];
          body = (if incl then tl s else s);
          anch = has_prefix body [c_slash];
          body = (if anch then tl body else body);
          dir = has_suffix body [c_slash];
          body = (if dir then butlast body else body)
      in (incl, anch, dir, body))"

definition bad_byte :: "bytes \<Rightarrow> bool" where
  "bad_byte body \<longleftrightarrow> (\<exists>b \<in> set body. b = 0 \<or> b = c_nl)"

definition has_meta :: "bytes \<Rightarrow> bool" where
  "has_meta body \<longleftrightarrow> (\<exists>b \<in> set body. b \<in> {c_star, c_quest, c_open, c_back})"

definition ParsePattern :: "bytes \<Rightarrow> pattern_error + Pattern" where
  "ParsePattern s =
     (case strip_pattern s of (incl, anch, dir, body) \<Rightarrow>
        if body = [] then Inl (PatternError s EmptyPattern)
        else if bad_byte body then Inl (PatternError s BadByte)
        else if has_meta body then
          (case compileGlob body of
             Inl e \<Rightarrow> Inl (PatternError s (BadGlob e))
           | Inr g \<Rightarrow> Inr \<lparr> pt_Text = body, pt_Anchored = anch, pt_DirOnly = dir, pt_Include = incl, pt_g = Some g \<rparr>)
        else Inr \<lparr> pt_Text = body, pt_Anchored = anch, pt_DirOnly = dir, pt_Include = incl, pt_g = None \<rparr>)"

fun ParsePatterns :: "bytes list \<Rightarrow> pattern_error + Pattern list" where
  "ParsePatterns [] = Inr []"
| "ParsePatterns (s # ss) =
     (case ParsePattern s of
        Inl e \<Rightarrow> Inl e
      | Inr p \<Rightarrow>
          (case ParsePatterns ss of
             Inl e \<Rightarrow> Inl e
           | Inr ps \<Rightarrow> Inr (p # ps)))"

definition Pattern_String :: "Pattern \<Rightarrow> bytes" where
  "Pattern_String p =
     (if pt_Include p then [c_bang] else []) @ (if pt_Anchored p then [c_slash] else []) @
     pt_Text p @ (if pt_DirOnly p then [c_slash] else [])"

fun any_suffix_from :: "('a list \<Rightarrow> bool option) \<Rightarrow> 'a list \<Rightarrow> bool option" where
  "any_suffix_from f [] = Some False"
| "any_suffix_from f (x # s) =
     (case f (x # s) of
        None \<Rightarrow> None
      | Some True \<Rightarrow> Some True
      | Some False \<Rightarrow> any_suffix_from f s)"

definition Pattern_Match :: "Pattern \<Rightarrow> bytes \<Rightarrow> bool \<Rightarrow> bool option" where
  "Pattern_Match p archivePath isDir =
     (if pt_DirOnly p \<and> \<not> isDir then Some False
      else if archivePath = [] then Some False
      else
        (case pt_g p of
           None \<Rightarrow>
             (if pt_Anchored p then Some (archivePath = pt_Text p)
              else Some (archivePath = pt_Text p \<or> has_suffix archivePath (c_slash # pt_Text p)))
         | Some g \<Rightarrow>
             (let comps = split_slash archivePath in
              if pt_Anchored p then matchComps g comps else any_suffix_from (matchComps g) comps)))"

text \<open>The list from its end: \<open>go_match\<close> runs over the reversed list.\<close>

fun go_match :: "Pattern list \<Rightarrow> bytes \<Rightarrow> bool \<Rightarrow> (MatchType \<times> bool) option" where
  "go_match [] archivePath isDir = Some (MatchExclude, False)"
| "go_match (p # ps) archivePath isDir =
     (case Pattern_Match p archivePath isDir of
        None \<Rightarrow> None
      | Some True \<Rightarrow> Some (if pt_Include p then MatchInclude else MatchExclude, True)
      | Some False \<Rightarrow> go_match ps archivePath isDir)"

definition PatternList_Match :: "Pattern list \<Rightarrow> bytes \<Rightarrow> bool \<Rightarrow> (MatchType \<times> bool) option" where
  "PatternList_Match l archivePath isDir = go_match (rev l) archivePath isDir"

definition PatternList_String :: "Pattern list \<Rightarrow> bytes" where
  "PatternList_String l = concat (map (\<lambda>p. Pattern_String p @ [c_nl]) l)"

subsection \<open>Parsed patterns\<close>

lemma strip_front: "has_prefix s [b] \<Longrightarrow> b # tl s = s"
  by (cases s) (auto simp: has_prefix_def)

lemma strip_back: "has_suffix s [b] \<Longrightarrow> butlast s @ [b] = s"
  by (auto simp: has_suffix_iff)

lemma strip_pattern_back:
  assumes "strip_pattern s = (i, a, d, body)"
  shows "s = (if i then [c_bang] else []) @ (if a then [c_slash] else []) @ body @ (if d then [c_slash] else [])"
proof -
  define b1 where "b1 = (if has_prefix s [c_bang] then tl s else s)"
  define b2 where "b2 = (if has_prefix b1 [c_slash] then tl b1 else b1)"
  have f: "i = has_prefix s [c_bang]" "a = has_prefix b1 [c_slash]" "d = has_suffix b2 [c_slash]"
      "body = (if has_suffix b2 [c_slash] then butlast b2 else b2)"
    using assms [unfolded strip_pattern_def Let_def, folded b1_def, folded b2_def] by auto
  have "s = (if i then [c_bang] else []) @ b1" using f(1) strip_front [of s c_bang] by (simp add: b1_def)
  moreover have "b1 = (if a then [c_slash] else []) @ b2" using f(2) strip_front [of b1 c_slash] by (simp add: b2_def)
  moreover have "b2 = body @ (if d then [c_slash] else [])" using f(3,4) strip_back [of b2 c_slash] by simp
  ultimately show ?thesis by simp
qed

text \<open>What a pattern has after parsing: when it has a glob, the glob is compiled.\<close>

definition compiled :: "Pattern \<Rightarrow> bool" where
  "compiled p \<longleftrightarrow> (\<forall>g. pt_g p = Some g \<longrightarrow> list_all wf_glob g)"

lemma ParsePattern_ok:
  assumes "ParsePattern s = Inr p"
  shows "Pattern_String p = s" "c_nl \<notin> set s" "compiled p"
proof -
  obtain i a d body where st: "strip_pattern s = (i, a, d, body)" by (metis prod_cases4)
  have p: "pt_Include p = i \<and> pt_Anchored p = a \<and> pt_DirOnly p = d \<and> pt_Text p = body" "\<not> bad_byte body"
    using assms st by (auto simp: ParsePattern_def split: if_splits sum.splits)
  then have "c_nl \<notin> set body" by (auto simp: bad_byte_def)
  with p(1) show "Pattern_String p = s" "c_nl \<notin> set s" using strip_pattern_back [OF st] by (auto simp: Pattern_String_def)
  have "pt_g p = None \<or> (\<exists>g. compileGlob body = Inr g \<and> pt_g p = Some g)"
    using assms st by (auto simp: ParsePattern_def split: if_splits sum.splits)
  then show "compiled p" using glob_split_wf [of "[]" body] by (auto simp: compiled_def compileGlob_def)
qed

lemma any_suffix_total: "(\<And>x. f x \<noteq> None) \<Longrightarrow> any_suffix_from f s \<noteq> None"
  by (induction f s rule: any_suffix_from.induct) (auto split: option.splits bool.splits)

lemma Pattern_Match_total: "compiled p \<Longrightarrow> Pattern_Match p path isDir \<noteq> None"
proof -
  assume c: "compiled p"
  have "matchComps g x \<noteq> None" "any_suffix_from (matchComps g) x \<noteq> None" if "pt_g p = Some g" for g x
    using c that matchComps_total any_suffix_total [of "matchComps g" x] by (auto simp: compiled_def simp del: not_None_eq)
  then show ?thesis by (auto simp: Pattern_Match_def Let_def simp del: not_None_eq split: option.splits)
qed

lemma ParsePatterns_all:
  "ParsePatterns ss = Inr l \<Longrightarrow> map Pattern_String l = ss \<and> list_all compiled l \<and> (\<forall>s \<in> set ss. c_nl \<notin> set s)"
  by (induction ss arbitrary: l)
    (auto split: sum.splits dest: ParsePattern_ok)

text \<open>The lines of a text that ends every line with a newline.\<close>

fun text_lines :: "bytes \<Rightarrow> bytes \<Rightarrow> bytes list" where
  "text_lines cur [] = (if cur = [] then [] else [cur])"
| "text_lines cur (b # bs) = (if b = c_nl then cur # text_lines [] bs else text_lines (cur @ [b]) bs)"

lemma text_lines_line: "c_nl \<notin> set s \<Longrightarrow> text_lines cur (s @ c_nl # r) = (cur @ s) # text_lines [] r"
  by (induction s arbitrary: cur) auto

lemma text_lines_concat: "\<forall>s \<in> set ss. c_nl \<notin> set s \<Longrightarrow> text_lines [] (concat (map (\<lambda>s. s @ [c_nl]) ss)) = ss"
  by (induction ss) (simp_all add: text_lines_line)

subsection \<open>Properties\<close>

text \<open>
  C28: the recorded pattern list is the given one.  When a list of patterns parses, rendering it gives
  one line per pattern, each exactly the string it was parsed from, and parsing those lines gives the
  same list again; so the list recorded in the archive selects what the given list selected.
\<close>

theorem pattern_list_roundtrip:
  assumes "ParsePatterns ss = Inr l"
  shows "text_lines [] (PatternList_String l) = ss \<and> ParsePatterns (text_lines [] (PatternList_String l)) = Inr l"
proof -
  note a = ParsePatterns_all [OF assms]
  have "PatternList_String l = concat (map (\<lambda>s. s @ [c_nl]) (map Pattern_String l))"
    by (simp add: PatternList_String_def comp_def)
  then have "text_lines [] (PatternList_String l) = ss" using a text_lines_concat [of ss] by simp
  then show ?thesis using assms by simp
qed

theorem pattern_list_roundtrip_witness:
  "\<exists>l. ParsePatterns [str ''!/a*/'', str ''b''] = Inr l \<and> text_lines [] (PatternList_String l) = [str ''!/a*/'', str ''b'']"
proof -
  obtain l where l: "ParsePatterns [str ''!/a*/'', str ''b''] = Inr l"
    by (simp add: ParsePattern_def bad_byte_def has_meta_def strip_pattern_def has_prefix_def has_suffix_def compileGlob_def Let_def)
  then show ?thesis using pattern_list_roundtrip [OF l] by blast
qed

lemma go_match_total: "list_all compiled ps \<Longrightarrow> \<exists>mt ok. go_match ps path isDir = Some (mt, ok)"
proof (induction ps)
  case (Cons p ps)
  then obtain b where "Pattern_Match p path isDir = Some b" using Pattern_Match_total by fastforce
  then show ?case using Cons by (cases b) auto
qed auto

lemma go_match_hit:
  "go_match ps path isDir = Some (mt, True) \<Longrightarrow>
     \<exists>qs p rs. ps = qs @ p # rs \<and> Pattern_Match p path isDir = Some True \<and>
       (\<forall>q \<in> set qs. Pattern_Match q path isDir = Some False) \<and> mt = (if pt_Include p then MatchInclude else MatchExclude)"
proof (induction ps)
  case (Cons p ps)
  then obtain b where b: "Pattern_Match p path isDir = Some b" by (auto split: option.splits)
  show ?case
  proof (cases b)
    case True
    then show ?thesis using Cons.prems b by (intro exI [of _ "[]"]) auto
  next
    case False
    then obtain qs q rs where "ps = qs @ q # rs" "Pattern_Match q path isDir = Some True"
        "\<forall>x \<in> set qs. Pattern_Match x path isDir = Some False" "mt = (if pt_Include q then MatchInclude else MatchExclude)"
      using Cons b by auto
    then show ?thesis using b False by (intro exI [of _ "p # qs"] exI [of _ q] exI [of _ rs]) auto
  qed
qed simp

lemma go_match_miss:
  "go_match ps path isDir = Some (mt, False) \<Longrightarrow> \<forall>p \<in> set ps. Pattern_Match p path isDir = Some False"
  by (induction ps) (auto split: option.splits bool.splits)

text \<open>
  the last matching pattern decides.  For a parsed list and any path, evaluation returns without a
  panic; when it reports a match there is a pattern that matches, none behind it does, and the verdict
  is that pattern's; when it reports none, no pattern of the list matches.
\<close>

theorem last_match_wins:
  assumes "ParsePatterns ss = Inr l"
  shows "(\<exists>mt ok. PatternList_Match l path isDir = Some (mt, ok)) \<and>
    (\<forall>mt. PatternList_Match l path isDir = Some (mt, True) \<longrightarrow>
       (\<exists>rs p qs. l = rs @ p # qs \<and> Pattern_Match p path isDir = Some True \<and>
          (\<forall>q \<in> set qs. Pattern_Match q path isDir = Some False) \<and>
          mt = (if pt_Include p then MatchInclude else MatchExclude))) \<and>
    (\<forall>mt. PatternList_Match l path isDir = Some (mt, False) \<longrightarrow> (\<forall>p \<in> set l. Pattern_Match p path isDir = Some False))"
proof (intro conjI allI impI)
  have c: "list_all compiled (rev l)" using ParsePatterns_all [OF assms] by (simp add: list_all_iff)
  then show "\<exists>mt ok. PatternList_Match l path isDir = Some (mt, ok)"
    using go_match_total by (simp add: PatternList_Match_def)
next
  fix mt assume "PatternList_Match l path isDir = Some (mt, True)"
  from go_match_hit [OF this [unfolded PatternList_Match_def]] obtain qs p rs where p: "rev l = qs @ p # rs"
      "Pattern_Match p path isDir = Some True" "\<forall>q \<in> set qs. Pattern_Match q path isDir = Some False"
      "mt = (if pt_Include p then MatchInclude else MatchExclude)" by blast
  have "l = rev (qs @ p # rs)" using p(1) by (metis rev_rev_ident)
  then show "\<exists>rs p qs. l = rs @ p # qs \<and> Pattern_Match p path isDir = Some True \<and>
          (\<forall>q \<in> set qs. Pattern_Match q path isDir = Some False) \<and> mt = (if pt_Include p then MatchInclude else MatchExclude)"
    using p by (intro exI [of _ "rev rs"] exI [of _ p] exI [of _ "rev qs"]) simp
next
  fix mt assume "PatternList_Match l path isDir = Some (mt, False)"
  then show "\<forall>p \<in> set l. Pattern_Match p path isDir = Some False"
    using go_match_miss [of "rev l"] by (simp add: PatternList_Match_def)
qed

theorem last_match_wins_witness:
  "\<exists>l. ParsePatterns [str ''b'', str ''!b''] = Inr l \<and> PatternList_Match l (str ''a/b'') False = Some (MatchInclude, True)
     \<and> (\<exists>rs p qs. l = rs @ p # qs \<and> pt_Include p \<and> Pattern_Match p (str ''a/b'') False = Some True)"
proof -
  define p q where "p = \<lparr> pt_Text = [98], pt_Anchored = False, pt_DirOnly = False, pt_Include = False, pt_g = None \<rparr>"
    and "q = \<lparr> pt_Text = [98], pt_Anchored = False, pt_DirOnly = False, pt_Include = True, pt_g = None \<rparr>"
  have "ParsePattern [98] = Inr p" "ParsePattern [33, 98] = Inr q"
    by (simp_all add: ParsePattern_def bad_byte_def has_meta_def strip_pattern_def has_prefix_def has_suffix_def Let_def p_def q_def)
  then have l1: "ParsePatterns [str ''b'', str ''!b''] = Inr [p, q]" by simp
  have l2: "PatternList_Match [p, q] (str ''a/b'') False = Some (MatchInclude, True)"
    by (simp add: has_suffix_def PatternList_Match_def Pattern_Match_def q_def)
  obtain rs x qs where "[p, q] = rs @ x # qs" "Pattern_Match x (str ''a/b'') False = Some True"
      "MatchInclude = (if pt_Include x then MatchInclude else MatchExclude)"
    using last_match_wins [OF l1, of "str ''a/b''" False] l2 by blast
  then show ?thesis using l1 l2 by (intro exI [of _ "[p, q]"]) (auto split: if_splits)
qed

end
