(* ===== verification/Scanner.thy ===== *)
theory Scanner
  imports Pattern Scan_Node
begin

unbundle bit_operations_syntax

text \<open>
  The scanner, \<^verbatim>\<open>src/scan/scan.go\<close>: a walk over a file system that builds the node tree, with exclude
  patterns and hardlink detection.

  The file system is the interface \<open>MetadataReader\<close> of \<^verbatim>\<open>src/scan/reader.go\<close>, a record of functions from
  paths.  Nothing bounds the depth such functions describe, so the walk takes the number of directory
  levels it may enter; \<open>ScDepth\<close> is running out of it, and more fuel never changes another outcome.
  A panic of the pattern matcher would be \<open>ScPanic\<close>.
\<close>

subsection \<open>The interface of the file system\<close>

datatype oserr = ENotExist | EOther string

record MetadataReader =
  mr_Lstat :: "bytes \<Rightarrow> oserr + Stat"
  mr_ReadDirNames :: "bytes \<Rightarrow> oserr + bytes list"
  mr_Readlink :: "bytes \<Rightarrow> oserr + bytes"
  mr_Xattrs :: "bytes \<Rightarrow> oserr + Xattr list"
  mr_ACLs :: "bytes \<Rightarrow> oserr + ACLs option"
  mr_FCaps :: "bytes \<Rightarrow> oserr + bytes"
  mr_QuotaProjID :: "bytes \<Rightarrow> oserr + (u64 \<times> bool)"
  mr_ReadFile :: "bytes \<Rightarrow> oserr + bytes"
  mr_Stat :: "(bytes \<Rightarrow> oserr + Stat) option"
  mr_Abs :: "bytes \<Rightarrow> oserr + bytes"

datatype sc_error =
    ScOs bytes oserr
  | ScNotDirectory bytes
  | ScIsDirectory bytes
  | ScFileType bytes u64
  | ScBadName bytes name_error
  | ScTooLarge bytes i64
  | ScPattern pattern_error
  | ScDepth
  | ScPanic

record Options_sc =
  so_SkipOnError :: bool
  so_SkipQuotaProjIDs :: bool
  so_Exclude :: "bytes list"
  so_PxarExcludeFiles :: bool
  so_Filter :: "(bytes \<Rightarrow> bytes \<Rightarrow> Stat \<Rightarrow> bool) option"

text \<open>The scanner's state, with the warnings and exclusions it has reported.\<close>

record Scanner_st =
  ss_hardlinks :: "u64 \<times> u64 \<rightharpoonup> bytes"
  ss_patterns :: "Pattern list"
  ss_followedRoot :: bytes
  ss_warns :: "(bytes \<times> sc_error) list"
  ss_excluded :: "(bytes \<times> bytes) list"

type_synonym 'a scres = "Scanner_st \<times> (sc_error + 'a)"

definition NewScanner :: "Options_sc \<Rightarrow> sc_error + Scanner_st" where
  "NewScanner opts =
     (case ParsePatterns (so_Exclude opts) of
        Inl e \<Rightarrow> Inl (ScPattern e)
      | Inr ps \<Rightarrow> Inr \<lparr> ss_hardlinks = Map.empty, ss_patterns = ps, ss_followedRoot = [], ss_warns = [], ss_excluded = [] \<rparr>)"

text \<open>\<open>filepath.Join\<close> of a clean directory and one name, \<open>filepath.Base\<close> of a clean absolute path.\<close>

definition path_Join :: "bytes \<Rightarrow> bytes \<Rightarrow> bytes" where
  "path_Join d name = (if d = [c_slash] then d @ name else d @ [c_slash] @ name)"

definition path_Base :: "bytes \<Rightarrow> bytes" where
  "path_Base p = (if p = [c_slash] then p else last (split_slash p))"

definition sc_warn :: "Scanner_st \<Rightarrow> bytes \<Rightarrow> sc_error \<Rightarrow> Scanner_st" where
  "sc_warn s path e = s\<lparr> ss_warns := ss_warns s @ [(path, e)] \<rparr>"

subsection \<open>Extras\<close>

definition readExtras :: "Options_sc \<Rightarrow> MetadataReader \<Rightarrow> Node \<Rightarrow> bool \<Rightarrow> sc_error + Node" where
  "readExtras o' r n fidelity =
     (case mr_Xattrs r (nd_Path n) of
        Inl e \<Rightarrow> Inl (ScOs (nd_Path n) e)
      | Inr xs \<Rightarrow>
          (case mr_ACLs r (nd_Path n) of
             Inl e \<Rightarrow> Inl (ScOs (nd_Path n) e)
           | Inr acl \<Rightarrow>
               (case (if fidelity \<and> nd_Kind n = KindFile then mr_FCaps r (nd_Path n) else Inr []) of
                  Inl e \<Rightarrow> Inl (ScOs (nd_Path n) e)
                | Inr fcaps \<Rightarrow>
                    (case (if fidelity \<and> \<not> so_SkipQuotaProjIDs o' then mr_QuotaProjID r (nd_Path n) else Inr (0, False)) of
                       Inl e \<Rightarrow> Inl (ScOs (nd_Path n) e)
                     | Inr (id', ok) \<Rightarrow>
                         Inr (Node (nd_Name n) (nd_Path n) (nd_Kind n) (nd_Stat n) (nd_LinkTarget n) xs acl fcaps
                           (if ok then id' else 0) (nd_Children n) (nd_Stream n))))))"

subsection \<open>Exclusion\<close>

definition excluded :: "Options_sc \<Rightarrow> bytes \<Rightarrow> bytes \<Rightarrow> Stat \<Rightarrow> Scanner_st \<Rightarrow> bool scres" where
  "excluded o' absp archivePath st s =
     (let isDir = (modeType (st_Mode st) = ModeDir) in
      case PatternList_Match (ss_patterns s) archivePath isDir of
        None \<Rightarrow> (s, Inl ScPanic)
      | Some (mt, ok) \<Rightarrow>
          (if ok \<and> mt = MatchExclude \<or>
              (case so_Filter o' of None \<Rightarrow> False | Some f \<Rightarrow> \<not> f absp archivePath st)
           then (s\<lparr> ss_excluded := ss_excluded s @ [(absp, archivePath)] \<rparr>, Inr True)
           else (s, Inr False)))"

definition pxarExcludeName :: bytes where "pxarExcludeName = str ''.pxarexclude''"
definition maxPxarExcludeSize :: i64 where "maxPxarExcludeSize = 2 ^ 24"

definition parseExcludeLine :: "bytes \<Rightarrow> bytes \<Rightarrow> pattern_error + Pattern" where
  "parseExcludeLine line dirArchivePath =
     (let incl = has_prefix line [c_bang];
          text = (if incl then tl line else line);
          text = (if has_prefix text [c_slash] \<and> dirArchivePath \<noteq> [] then c_slash # dirArchivePath @ text else text);
          text = (if incl then c_bang # text else text)
      in case ParsePattern text of
           Inl (PatternError _ e) \<Rightarrow> Inl (PatternError line e)
         | Inr p \<Rightarrow> Inr p)"

text \<open>\<open>bytes.Split\<close> at newlines and \<open>bytes.Trim\<close> of blanks.\<close>

fun split_nl :: "bytes \<Rightarrow> bytes list" where
  "split_nl [] = [[]]"
| "split_nl (b # bs) =
     (if b = c_nl then [] # split_nl bs
      else case split_nl bs of [] \<Rightarrow> [[b]] | c # cs \<Rightarrow> (b # c) # cs)"

definition blank :: "byte \<Rightarrow> bool" where
  "blank b \<longleftrightarrow> b \<in> {32, 9, 13, 11, 12}"

definition trim_blank :: "bytes \<Rightarrow> bytes" where
  "trim_blank l = rev (dropWhile blank (rev (dropWhile blank l)))"

fun exclude_lines :: "bytes \<Rightarrow> bytes \<Rightarrow> bytes list \<Rightarrow> Scanner_st \<Rightarrow> Scanner_st" where
  "exclude_lines path dir [] s = s"
| "exclude_lines path dir (l # ls) s =
     (let line = trim_blank l in
      if line = [] \<or> hd line = 35 then exclude_lines path dir ls s
      else
        (case parseExcludeLine line dir of
           Inl e \<Rightarrow> exclude_lines path dir ls (sc_warn s path (ScPattern e))
         | Inr p \<Rightarrow> exclude_lines path dir ls (s\<lparr> ss_patterns := ss_patterns s @ [p] \<rparr>)))"

definition readPxarExclude :: "MetadataReader \<Rightarrow> bytes \<Rightarrow> bytes \<Rightarrow> Scanner_st \<Rightarrow> unit scres" where
  "readPxarExclude r dirAbs dirArchivePath s =
     (let path = path_Join dirAbs pxarExcludeName in
      case mr_Lstat r path of
        Inl e \<Rightarrow> (s, if e = ENotExist then Inr () else Inl (ScOs path e))
      | Inr st \<Rightarrow>
          (if modeType (st_Mode st) \<noteq> ModeRegular then (s, Inr ())
           else if sint maxPxarExcludeSize < sint (st_Size st) then (s, Inl (ScTooLarge path (st_Size st)))
           else
             (case mr_ReadFile r path of
                Inl e \<Rightarrow> (s, if e = ENotExist then Inr () else Inl (ScOs path e))
              | Inr data \<Rightarrow> (exclude_lines path dirArchivePath (split_nl data) s, Inr ()))))"

subsection \<open>The walk\<close>

text \<open>An entry that is not a directory.\<close>

definition scan_leaf :: "Options_sc \<Rightarrow> MetadataReader \<Rightarrow> bytes \<Rightarrow> bytes \<Rightarrow> bytes \<Rightarrow> Stat \<Rightarrow> Scanner_st \<Rightarrow> Node scres" where
  "scan_leaf o' r absp name archivePath st s =
     (let node = (\<lambda>k target. Node name absp k st target [] None [] 0 [] None);
          m = modeType (st_Mode st)
      in if m = ModeRegular then
           (let key = (st_Dev st, st_Ino st) in
            if 1 < st_Nlink st \<and> ss_hardlinks s key \<noteq> None then
              (s, Inr (node KindHardlink (the (ss_hardlinks s key))))
            else
              (let s = (if 1 < st_Nlink st then s\<lparr> ss_hardlinks := (ss_hardlinks s)(key \<mapsto> archivePath) \<rparr> else s) in
               (s, readExtras o' r (node KindFile []) True)))
         else if m = ModeSymlink then
           (s, case mr_Readlink r absp of Inl e \<Rightarrow> Inl (ScOs absp e) | Inr t \<Rightarrow> Inr (node KindSymlink t))
         else if m = ModeBlockDev then (s, readExtras o' r (node KindBlockDevice []) False)
         else if m = ModeCharDev then (s, readExtras o' r (node KindCharDevice []) False)
         else if m = ModeFifo then (s, readExtras o' r (node KindFifo []) False)
         else if m = ModeSocket then (s, readExtras o' r (node KindSocket []) False)
         else (s, Inl (ScFileType absp m)))"

text \<open>
  The loop over the names of a directory; \<open>child\<close> scans one entry.  The two outcomes that are no error
  values of the program, exhausted fuel and a panic, are not skipped.
\<close>

definition skippable :: "Options_sc \<Rightarrow> sc_error \<Rightarrow> bool" where
  "skippable o' e \<longleftrightarrow> so_SkipOnError o' \<and> e \<noteq> ScDepth \<and> e \<noteq> ScPanic"

fun scan_names :: "Options_sc \<Rightarrow> (bytes \<Rightarrow> Scanner_st \<Rightarrow> Node option scres) \<Rightarrow> bytes \<Rightarrow> bytes list \<Rightarrow> Scanner_st \<Rightarrow> Node list scres" where
  "scan_names o' child absp [] s = (s, Inr [])"
| "scan_names o' child absp (name # names) s =
     (case child name s of
        (s, Inl e) \<Rightarrow>
          (if skippable o' e then scan_names o' child absp names (sc_warn s (path_Join absp name) e)
           else (s, Inl e))
      | (s, Inr None) \<Rightarrow> scan_names o' child absp names s
      | (s, Inr (Some n)) \<Rightarrow>
          (case scan_names o' child absp names s of
             (s, Inl e) \<Rightarrow> (s, Inl e)
           | (s, Inr ns) \<Rightarrow> (s, Inr (n # ns))))"

definition scanChild :: "Options_sc \<Rightarrow> MetadataReader \<Rightarrow> (bytes \<Rightarrow> bytes \<Rightarrow> bytes \<Rightarrow> Stat \<Rightarrow> Scanner_st \<Rightarrow> Node scres) \<Rightarrow>
    bytes \<Rightarrow> bytes \<Rightarrow> bytes \<Rightarrow> Scanner_st \<Rightarrow> Node option scres" where
  "scanChild o' r node absp name archivePath s =
     (case ValidateFilename name of
        Some e \<Rightarrow> (s, Inl (ScBadName absp e))
      | None \<Rightarrow>
          (case mr_Lstat r absp of
             Inl e \<Rightarrow> (s, Inl (ScOs absp e))
           | Inr st \<Rightarrow>
               (case excluded o' absp archivePath st s of
                  (s, Inl e) \<Rightarrow> (s, Inl e)
                | (s, Inr True) \<Rightarrow> (s, Inr None)
                | (s, Inr False) \<Rightarrow>
                    (case node absp name archivePath st s of
                       (s, Inl e) \<Rightarrow> (s, Inl e)
                     | (s, Inr n) \<Rightarrow> (s, Inr (Some n))))))"

text \<open>The patterns of a directory's own exclude file, pushed for its subtree.\<close>

definition dir_excludes :: "Options_sc \<Rightarrow> MetadataReader \<Rightarrow> bytes \<Rightarrow> bytes \<Rightarrow> Scanner_st \<Rightarrow> unit scres" where
  "dir_excludes o' r absp archivePath s =
     (if so_PxarExcludeFiles o' then
        (case readPxarExclude r absp archivePath s of
           (s, Inr _) \<Rightarrow> (s, Inr ())
         | (s, Inl e) \<Rightarrow>
             if so_SkipOnError o' then (sc_warn s (path_Join absp pxarExcludeName) e, Inr ()) else (s, Inl e))
      else (s, Inr ()))"

text \<open>A directory, once its extras are read; \<open>pop\<close> is the deferred reset of the pattern list.\<close>

definition scan_dir :: "Options_sc \<Rightarrow> MetadataReader \<Rightarrow> (bytes \<Rightarrow> bytes \<Rightarrow> bytes \<Rightarrow> Stat \<Rightarrow> Scanner_st \<Rightarrow> Node scres) \<Rightarrow>
    Node \<Rightarrow> bytes \<Rightarrow> bytes \<Rightarrow> Scanner_st \<Rightarrow> Node scres" where
  "scan_dir o' r node n absp archivePath s =
     (let mark = length (ss_patterns s);
          pop = (\<lambda>s. s\<lparr> ss_patterns := take mark (ss_patterns s) \<rparr>)
      in case dir_excludes o' r absp archivePath s of
           (s, Inl e) \<Rightarrow> (pop s, Inl e)
         | (s, Inr _) \<Rightarrow>
             (case mr_ReadDirNames r absp of
                Inl e \<Rightarrow> (pop s, Inl (ScOs absp e))
              | Inr names \<Rightarrow>
                  (case scan_names o'
                          (\<lambda>name. scanChild o' r node (path_Join absp name) name (joinArchive archivePath name))
                          absp names s of
                     (s, Inl e) \<Rightarrow> (pop s, Inl e)
                   | (s, Inr ns) \<Rightarrow>
                       (pop s, Inr (Node (nd_Name n) (nd_Path n) (nd_Kind n) (nd_Stat n) (nd_LinkTarget n)
                          (nd_Xattrs n) (nd_ACL n) (nd_FCaps n) (nd_QuotaProjID n) ns (nd_Stream n))))))"

primrec scanNode :: "Options_sc \<Rightarrow> MetadataReader \<Rightarrow> nat \<Rightarrow> bytes \<Rightarrow> bytes \<Rightarrow> bytes \<Rightarrow> Stat \<Rightarrow> Scanner_st \<Rightarrow> Node scres" where
  "scanNode o' r 0 = (\<lambda>absp name archivePath st s.
     if modeType (st_Mode st) = ModeDir then (s, Inl ScDepth) else scan_leaf o' r absp name archivePath st s)"
| "scanNode o' r (Suc k) = (\<lambda>absp name archivePath st s.
     if modeType (st_Mode st) = ModeDir then
       (let n = Node name absp KindDirectory st [] [] None [] 0 [] None in
        case (if absp \<noteq> ss_followedRoot s then readExtras o' r n True else Inr n) of
          Inl e \<Rightarrow> (s, Inl e)
        | Inr n \<Rightarrow> scan_dir o' r (scanNode o' r k) n absp archivePath s)
     else scan_leaf o' r absp name archivePath st s)"

definition ScanDirectory :: "Options_sc \<Rightarrow> MetadataReader \<Rightarrow> nat \<Rightarrow> bytes \<Rightarrow> bytes \<Rightarrow> Scanner_st \<Rightarrow> Node scres" where
  "ScanDirectory o' r k path archivePath s =
     (case mr_Abs r path of
        Inl e \<Rightarrow> (s, Inl (ScOs path e))
      | Inr absp \<Rightarrow>
          (case mr_Lstat r absp of
             Inl e \<Rightarrow> (s, Inl (ScOs absp e))
           | Inr st0 \<Rightarrow>
               (let target = (if modeType (st_Mode st0) = ModeSymlink then
                      (case mr_Stat r of
                         None \<Rightarrow> None
                       | Some f \<Rightarrow> (case f absp of Inr t \<Rightarrow> if modeType (st_Mode t) = ModeDir then Some t else None | Inl _ \<Rightarrow> None))
                    else None);
                    st = (case target of Some t \<Rightarrow> t | None \<Rightarrow> st0);
                    s = (if target = None then s else s\<lparr> ss_followedRoot := absp \<rparr>)
                in if modeType (st_Mode st) \<noteq> ModeDir then (s, Inl (ScNotDirectory absp))
                   else scanNode o' r k absp (path_Base absp) archivePath st s)))"

definition ScanFile :: "Options_sc \<Rightarrow> MetadataReader \<Rightarrow> nat \<Rightarrow> bytes \<Rightarrow> bytes \<Rightarrow> Scanner_st \<Rightarrow> Node scres" where
  "ScanFile o' r k path archivePath s =
     (case mr_Abs r path of
        Inl e \<Rightarrow> (s, Inl (ScOs path e))
      | Inr absp \<Rightarrow>
          (case mr_Lstat r absp of
             Inl e \<Rightarrow> (s, Inl (ScOs absp e))
           | Inr st \<Rightarrow>
               (if modeType (st_Mode st) = ModeDir then (s, Inl (ScIsDirectory absp))
                else scanNode o' r k absp (path_Base absp) archivePath st s)))"

end
