(* ===== verification/Reuse.thy ===== *)
theory Reuse
  imports Prelude
begin

text \<open>
  The framing of a v2 payload stream, \<^verbatim>\<open>src/reuse/reuse.go\<close>: data frames and chunk-injection
  frames in one stream, so that a payload stream can tell the uploader which chunks of the
  previous snapshot to reference at a point.

  The writer and the reader are modelled call by call.  A framed stream read back in any
  segmentation gives the frames written, in order, and then the end; a stream that does not begin
  with the magic is handed back unchanged (what was read, then the rest).
\<close>

subsection \<open>Writer\<close>

definition Magic_ru :: bytes where
  "Magic_ru = str ''GOPBSRU1''"

definition KindData :: byte where "KindData = 0"
definition KindInject :: byte where "KindInject = 1"
definition entrySize :: nat where "entrySize = 40"

record Chunk_ru =
  rc_Digest :: bytes
  rc_Size :: u64

datatype 'e reuse_error =
    RuNotFramed
  | RuRead 'e
  | RuTruncatedHeader "'e full"
  | RuFrameTooLarge u64
  | RuTruncatedBody "'e full"
  | RuPartialEntries u64
  | RuUnknownKind byte

record Writer_ru =
  fw_w :: sink
  fw_begun :: bool

definition NewWriter_ru :: "sink \<Rightarrow> Writer_ru" where
  "NewWriter_ru w = \<lparr> fw_w = w, fw_begun = False \<rparr>"

definition fw_begin :: "Writer_ru \<Rightarrow> Writer_ru \<times> sink_error option" where
  "fw_begin fw =
     (if fw_begun fw then (fw, None)
      else
        (case sink_write (fw_w fw) Magic_ru of
           (w, n, ok) \<Rightarrow> (fw\<lparr> fw_begun := True, fw_w := w \<rparr>, if ok then None else Some ErrSink)))"

definition fw_frame :: "Writer_ru \<Rightarrow> byte \<Rightarrow> u64 \<Rightarrow> Writer_ru \<times> sink_error option" where
  "fw_frame fw kind n =
     (case fw_begin fw of
        (fw, Some e) \<Rightarrow> (fw, Some e)
      | (fw, None) \<Rightarrow>
          (case sink_write (fw_w fw) (kind # put64 n) of
             (w, m, ok) \<Rightarrow> (fw\<lparr> fw_w := w \<rparr>, if ok then None else Some ErrSink)))"

definition fw_Write :: "Writer_ru \<Rightarrow> bytes \<Rightarrow> Writer_ru \<times> nat \<times> sink_error option" where
  "fw_Write fw p =
     (if p = [] then (fw, 0, None)
      else
        (case fw_frame fw KindData (len64 p) of
           (fw, Some e) \<Rightarrow> (fw, 0, Some e)
         | (fw, None) \<Rightarrow>
             (case sink_write (fw_w fw) p of
                (w, n, ok) \<Rightarrow> (fw\<lparr> fw_w := w \<rparr>, n, if ok then None else Some ErrSink))))"

definition chunk_bytes :: "Chunk_ru \<Rightarrow> bytes" where
  "chunk_bytes c = rc_Digest c @ put64 (rc_Size c)"

definition fw_Inject :: "Writer_ru \<Rightarrow> Chunk_ru list \<Rightarrow> Writer_ru \<times> sink_error option" where
  "fw_Inject fw chunks =
     (if chunks = [] then (fw, None)
      else
        (case fw_frame fw KindInject (of_nat (length chunks * entrySize)) of
           (fw, Some e) \<Rightarrow> (fw, Some e)
         | (fw, None) \<Rightarrow>
             (case sink_write (fw_w fw) (concat (map chunk_bytes chunks)) of
                (w, n, ok) \<Rightarrow> (fw\<lparr> fw_w := w \<rparr>, if ok then None else Some ErrSink))))"

subsection \<open>Reader\<close>

text \<open>
  \<open>NewReader\<close>: the frame reader, or the bytes already read with the error; the underlying reader
  comes back in either case, since the caller goes on reading it.
\<close>

definition NewReader_ru :: "'e rd \<Rightarrow> ((bytes \<times> 'e reuse_error) + unit) \<times> 'e rd" where
  "NewReader_ru r =
     (case read_full r (length Magic_ru) of
        (bs, FOk, r') \<Rightarrow> (if bs \<noteq> Magic_ru then Inl (bs, RuNotFramed) else Inr (), r')
      | (bs, FErr e, r') \<Rightarrow> (Inl (bs, RuRead e), r')
      | (bs, _, r') \<Rightarrow> (Inl (bs, RuNotFramed), r'))"

datatype frame = FrData bytes | FrInject "Chunk_ru list"

fun split_chunks :: "nat \<Rightarrow> bytes \<Rightarrow> Chunk_ru list" where
  "split_chunks 0 buf = []"
| "split_chunks (Suc k) buf =
     \<lparr> rc_Digest = take 32 buf, rc_Size = get64 (drop 32 buf) \<rparr> # split_chunks k (drop entrySize buf)"

text \<open>\<open>Next\<close>: the next frame, \<open>None\<close> at the end of the stream.\<close>

definition Next_ru :: "'e rd \<Rightarrow> ('e reuse_error + frame option) \<times> 'e rd" where
  "Next_ru r =
     (case read_full r 9 of
        (hdr, FEof, r) \<Rightarrow> (Inr None, r)
      | (hdr, FOk, r) \<Rightarrow>
          (let kind = hdr ! 0; n = get64 (drop 1 hdr) in
           if n > 2 ^ 31 then (Inl (RuFrameTooLarge n), r)
           else
             (case read_full r (unat n) of
                (buf, FOk, r) \<Rightarrow>
                  (if kind = KindData then (Inr (Some (FrData buf)), r)
                   else if kind = KindInject then
                     (if unat n mod entrySize \<noteq> 0 then (Inl (RuPartialEntries n), r)
                      else (Inr (Some (FrInject (split_chunks (unat n div entrySize) buf))), r))
                   else (Inl (RuUnknownKind kind), r))
              | (buf, f, r) \<Rightarrow> (Inl (RuTruncatedBody f), r)))
      | (hdr, f, r) \<Rightarrow> (Inl (RuTruncatedHeader f), r))"

lemma Next_ru_shorter:
  "Next_ru r = (Inr (Some fr), r') \<Longrightarrow> length (rd_bytes r') + 9 \<le> length (rd_bytes r)"
proof -
  assume n: "Next_ru r = (Inr (Some fr), r')"
  show ?thesis
  proof (cases "9 \<le> length (rd_bytes r)")
    case True
    obtain r1 where r1: "read_full r 9 = (take 9 (rd_bytes r), FOk, r1)" "rd_bytes r1 = drop 9 (rd_bytes r)"
      using read_full_enough [OF True] by blast
    define m where "m = unat (get64 (drop 1 (take 9 (rd_bytes r))))"
    from n r1 obtain buf where "read_full r1 m = (buf, FOk, r')"
      by (auto simp: Next_ru_def Let_def m_def split: if_splits prod.splits full.splits)
    moreover have "m \<le> length (rd_bytes r1)"
      using calculation read_full_short [of r1 m] by (force simp: full_short_def split: option.splits if_splits)
    ultimately have "rd_bytes r' = drop m (rd_bytes r1)" using read_full_enough [of m r1] by auto
    then show ?thesis using r1(2) True by simp
  next
    case False
    then obtain r1 where "read_full r 9 = (rd_bytes r, full_short r, r1)"
      using read_full_short [of r 9] by auto
    then show ?thesis using n by (auto simp: Next_ru_def full_short_def split: option.splits if_splits)
  qed
qed

subsection \<open>Framing round trip\<close>

function frames_of :: "'e rd \<Rightarrow> frame list \<times> 'e reuse_error option" where
  "frames_of r =
     (case Next_ru r of
        (Inl e, r') \<Rightarrow> ([], Some e)
      | (Inr None, r') \<Rightarrow> ([], None)
      | (Inr (Some fr), r') \<Rightarrow> (case frames_of r' of (fs, e) \<Rightarrow> (fr # fs, e)))"
  by pat_completeness auto
termination
  by (relation "measure (\<lambda>r. length (rd_bytes r))") (auto dest!: Next_ru_shorter [OF sym])

declare frames_of.simps [simp del]

fun frame_bytes :: "frame \<Rightarrow> bytes" where
  "frame_bytes (FrData p) = KindData # put64 (len64 p) @ p"
| "frame_bytes (FrInject cs) =
     KindInject # put64 (of_nat (length cs * entrySize)) @ concat (map chunk_bytes cs)"

fun frame_empty :: "frame \<Rightarrow> bool" where
  "frame_empty (FrData p) \<longleftrightarrow> p = []"
| "frame_empty (FrInject cs) \<longleftrightarrow> cs = []"

text \<open>The frames the reader accepts: at most 2 GiB, digests of 32 bytes.\<close>

fun frame_ok :: "frame \<Rightarrow> bool" where
  "frame_ok (FrData p) \<longleftrightarrow> length p \<le> 2 ^ 31"
| "frame_ok (FrInject cs) \<longleftrightarrow>
     length cs * entrySize \<le> 2 ^ 31 \<and> list_all (\<lambda>c. length (rc_Digest c) = 32) cs"

lemma chunks_length:
  "list_all (\<lambda>c. length (rc_Digest c) = 32) cs \<Longrightarrow>
     length (concat (map chunk_bytes cs)) = length cs * entrySize"
  by (induction cs) (simp_all add: chunk_bytes_def entrySize_def)

lemma split_chunks_concat:
  "list_all (\<lambda>c. length (rc_Digest c) = 32) cs \<Longrightarrow>
     split_chunks (length cs) (concat (map chunk_bytes cs)) = cs"
  by (induction cs) (simp_all add: chunk_bytes_def entrySize_def)

lemma Next_ru_frame:
  assumes "rd_bytes r = frame_bytes fr @ rest" "frame_ok fr"
  shows "\<exists>r'. Next_ru r = (Inr (Some fr), r') \<and> rd_bytes r' = rest \<and> rd_error r' = rd_error r"
proof -
  obtain kind n body where fb: "frame_bytes fr = kind # put64 n @ body" and n: "unat n = length body"
      "unat n \<le> 2 ^ 31"
    and fr: "fr = (if kind = KindData then FrData body
        else FrInject (split_chunks (unat n div entrySize) body))"
      "kind = KindData \<or> kind = KindInject \<and> unat n mod entrySize = 0"
  proof (cases fr)
    case (FrData p)
    with assms(2) have "unat (len64 p) = length p" by (intro u64_len) simp
    with FrData assms(2) show thesis
      by (intro that [of KindData "len64 p" p]) (simp_all add: KindData_def)
  next
    case (FrInject cs)
    with assms(2) have u: "unat (of_nat (length cs * entrySize) :: u64) = length cs * entrySize"
      by (intro u64_small) simp
    with FrInject assms(2) show thesis
      by (intro that [of KindInject "of_nat (length cs * entrySize)" "concat (map chunk_bytes cs)"])
        (simp_all add: KindData_def KindInject_def chunks_length split_chunks_concat entrySize_def)
  qed
  obtain r1 where r1: "read_full r 9 = (kind # put64 n, FOk, r1)" "rd_bytes r1 = body @ rest"
      "rd_error r1 = rd_error r"
    using read_full_enough [of 9 r] assms(1) fb by auto
  obtain r2 where r2: "read_full r1 (unat n) = (body, FOk, r2)" "rd_bytes r2 = rest"
      "rd_error r2 = rd_error r"
    using read_full_enough [of "unat n" r1] r1 n by auto
  have "\<not> n > 2 ^ 31" using n(2) by (simp add: word_less_nat_alt)
  then show ?thesis using r1(1) r2 fr by (auto simp: Next_ru_def KindData_def KindInject_def)
qed

lemma Next_ru_end: "rd_bytes r = [] \<Longrightarrow> rd_error r = None \<Longrightarrow> \<exists>r'. Next_ru r = (Inr None, r')"
  using read_full_short [of r 9] by (auto simp: Next_ru_def full_short_def)

lemma frames_of_frames:
  "rd_bytes r = concat (map frame_bytes fs) \<Longrightarrow> rd_error r = None \<Longrightarrow> list_all frame_ok fs
     \<Longrightarrow> frames_of r = (fs, None)"
proof (induction fs arbitrary: r)
  case Nil
  then show ?case using Next_ru_end [of r] by (auto simp: frames_of.simps [of r])
next
  case (Cons fr fs)
  then obtain r' where "Next_ru r = (Inr (Some fr), r')" "rd_bytes r' = concat (map frame_bytes fs)"
      "rd_error r' = rd_error r"
    using Next_ru_frame [of r fr "concat (map frame_bytes fs)"] by auto
  with Cons show ?case by (simp add: frames_of.simps [of r])
qed

text \<open>The writer's calls in order; data frames and injections share the stream.\<close>

fun fw_step :: "Writer_ru \<Rightarrow> frame \<Rightarrow> Writer_ru" where
  "fw_step fw (FrData p) = fst (fw_Write fw p)"
| "fw_step fw (FrInject cs) = fst (fw_Inject fw cs)"

definition fw_stream :: "Writer_ru \<Rightarrow> bytes" where
  "fw_stream fw = (if fw_begun fw then sk_out (fw_w fw) else sk_out (fw_w fw) @ Magic_ru)"

lemma fw_frame_ok:
  assumes "sk_room (fw_w fw) = None"
  shows "fw_frame fw k n = (fw\<lparr> fw_begun := True,
     fw_w := (fw_w fw)\<lparr> sk_out := fw_stream fw @ k # put64 n \<rparr> \<rparr>, None)"
  using assms
  by (cases "fw_begun fw"; cases fw) (simp_all add: fw_frame_def fw_begin_def sink_write_None fw_stream_def)

lemma fw_step_ok:
  assumes "sk_room (fw_w fw) = None" "\<not> frame_empty fr"
  shows "fw_begun (fw_step fw fr) \<and> sk_room (fw_w (fw_step fw fr)) = None \<and>
     sk_out (fw_w (fw_step fw fr)) = fw_stream fw @ frame_bytes fr"
  using assms
  by (cases fr) (simp_all add: fw_Write_def fw_Inject_def fw_frame_ok sink_write_None)

lemma fw_step_empty: "frame_empty fr \<Longrightarrow> fw_step fw fr = fw"
  by (cases fr) (simp_all add: fw_Write_def fw_Inject_def)

lemma fw_run_stream:
  "sk_room (fw_w fw) = None \<Longrightarrow>
     fw_stream (foldl fw_step fw fs) =
       fw_stream fw @ concat (map frame_bytes (filter (\<lambda>f. \<not> frame_empty f) fs)) \<and>
     fw_begun (foldl fw_step fw fs) = (fw_begun fw \<or> (\<exists>f \<in> set fs. \<not> frame_empty f))"
proof (induction fs arbitrary: fw)
  case (Cons f fs)
  show ?case
  proof (cases "frame_empty f")
    case True
    then show ?thesis using Cons by (simp add: fw_step_empty)
  next
    case False
    note st = fw_step_ok [OF Cons.prems False]
    then have "fw_stream (fw_step fw f) = fw_stream fw @ frame_bytes f" by (simp add: fw_stream_def)
    then show ?thesis using Cons.IH [of "fw_step fw f"] st False by simp
  qed
qed simp

text \<open>
  C23: whatever calls are made on a framing writer, at least one of them not empty, the stream it
  produces reads back, in any segmentation, as the frames of the non-empty calls in order and
  then the end of the stream.
\<close>

theorem framing_roundtrip:
  assumes "list_all frame_ok fs" "\<exists>f \<in> set fs. \<not> frame_empty f"
    and "rd_bytes r = sk_out (fw_w (foldl fw_step (NewWriter_ru \<lparr> sk_room = None, sk_out = [] \<rparr>) fs))"
    and "rd_error r = None"
  shows "\<exists>r'. NewReader_ru r = (Inr (), r') \<and> frames_of r' = (filter (\<lambda>f. \<not> frame_empty f) fs, None)"
proof -
  let ?fs = "filter (\<lambda>f. \<not> frame_empty f) fs"
  have "rd_bytes r = Magic_ru @ concat (map frame_bytes ?fs)"
    using fw_run_stream [of "NewWriter_ru \<lparr> sk_room = None, sk_out = [] \<rparr>" fs] assms(2,3)
    by (simp add: NewWriter_ru_def fw_stream_def split: if_splits)
  then obtain r' where r': "read_full r (length Magic_ru) = (Magic_ru, FOk, r')"
      "rd_bytes r' = concat (map frame_bytes ?fs)" "rd_error r' = None"
    using read_full_enough [of "length Magic_ru" r] assms(4) by auto
  moreover have "list_all frame_ok ?fs" using assms(1) by (auto simp: list_all_iff)
  ultimately show ?thesis using frames_of_frames [of r' ?fs] by (simp add: NewReader_ru_def)
qed

theorem framing_roundtrip_witness:
  "\<exists>r'. NewReader_ru [(Magic_ru, ROk), (take 4 (frame_bytes (FrData [5, 6])), ROk),
       (drop 4 (frame_bytes (FrData [5, 6])), REof)] = (Inr (), r')
     \<and> frames_of (r' :: string rd) = ([FrData [5, 6]], None)"
proof -
  let ?r = "[(Magic_ru, ROk), (take 4 (frame_bytes (FrData [5, 6])), ROk),
       (drop 4 (frame_bytes (FrData [5, 6])), REof)] :: string rd"
  have "rd_bytes ?r = Magic_ru @ frame_bytes (FrData [5, 6])"
    by (simp only: rd_bytes.simps append_take_drop_id)
  then show ?thesis
    using framing_roundtrip [of "[FrData [], FrData [5, 6]]" ?r]
    by (simp add: NewWriter_ru_def fw_Write_def fw_frame_ok sink_write_None fw_stream_def del: rd_bytes.simps)
qed

text \<open>
  On a stream that is not framed \<open>NewReader\<close> loses nothing: the prefix it returns followed by what the
  reader still delivers is the stream.
\<close>

lemma unframed_lemma:
  assumes "NewReader_ru r = (Inl (prefix, e), r')"
  shows "prefix @ rd_bytes r' = rd_bytes r \<and> rd_error r' = rd_error r"
proof (cases "length Magic_ru \<le> length (rd_bytes r)")
  case True
  then show ?thesis using read_full_enough [OF True] assms
    by (auto simp: NewReader_ru_def split: if_splits)
next
  case False
  then show ?thesis using read_full_short [of r "length Magic_ru"] assms
    by (auto simp: NewReader_ru_def split: full.splits if_splits)
qed

end
