(* ===== verification/Payload.thy ===== *)
theory Payload
  imports Scan_Node Reuse
begin

unbundle bit_operations_syntax

text \<open>
  Payload input and output of archive generation: the counting writer (\<^verbatim>\<open>src/archive/emit.go\<close>), the
  payload source and the exact copy (\<^verbatim>\<open>src/archive/payload.go\<close>), and the ledger that hands bound
  sizes from the payload stream to the metadata stream (\<^verbatim>\<open>src/archive/refs.go\<close>).

  The counting writer's context is a number of further writes before cancellation is seen.  A Go
  interface is a record of functions: \<open>payloadSource\<close> is the emitter's view of payload I/O, and the
  locale \<open>payload_contract\<close> is what its documentation promises: a copy that succeeds writes the image
  of its payload, which has exactly the bound number of bytes.  It is interpreted on the synchronous source, whose files are
  a parameter.
\<close>

subsection \<open>The counting writer\<close>

datatype emit_error =
    EmCanceled
  | EmSink
  | EmHardlink bytes bytes
  | EmOpen string
  | EmReadPayload string
  | EmKind Kind bytes
  | EmMoreFiles
  | EmPayloadStream emit_error
  | EmPanic

datatype outw = Plain sink | Framed Writer_ru

fun out_write :: "outw \<Rightarrow> bytes \<Rightarrow> outw \<times> nat \<times> bool" where
  "out_write (Plain k) p = (case sink_write k p of (k', n, ok) \<Rightarrow> (Plain k', n, ok))"
| "out_write (Framed fw) p = (case fw_Write fw p of (fw', n, e) \<Rightarrow> (Framed fw', n, e = None))"

record countWriter =
  cn_ctx :: "nat option"
  cn_w :: outw
  cn_pos :: u64

definition cn_Write :: "countWriter \<Rightarrow> bytes \<Rightarrow> countWriter \<times> nat \<times> emit_error option" where
  "cn_Write cw p =
     (if cn_ctx cw = Some 0 then (cw, 0, Some EmCanceled)
      else
        (case out_write (cn_w cw) p of
           (w, n, ok) \<Rightarrow>
             (cw\<lparr> cn_ctx := map_option (\<lambda>k. k - 1) (cn_ctx cw), cn_w := w, cn_pos := cn_pos cw + of_nat n \<rparr>,
              n, if ok then None else Some EmSink)))"

definition cn_write :: "countWriter \<Rightarrow> bytes \<Rightarrow> countWriter \<times> emit_error option" where
  "cn_write cw p = (case cn_Write cw p of (cw', n, e) \<Rightarrow> (cw', e))"

text \<open>
  \<open>cn_advances cw cw' p\<close>: from \<open>cw\<close> to \<open>cw'\<close> exactly the payload bytes \<open>p\<close> were written, in a framed
  stream as some non-empty data frames.
\<close>

definition fw_advances :: "Writer_ru \<Rightarrow> Writer_ru \<Rightarrow> bytes \<Rightarrow> bool" where
  "fw_advances fw fw' p \<longleftrightarrow>
     (\<exists>ps. concat ps = p \<and> [] \<notin> set ps \<and>
        fw_stream fw' = fw_stream fw @ concat (map (\<lambda>p. frame_bytes (FrData p)) ps) \<and>
        (fw_begun fw \<or> ps \<noteq> [] \<longrightarrow> fw_begun fw'))"

fun out_advances :: "outw \<Rightarrow> outw \<Rightarrow> bytes \<Rightarrow> bool" where
  "out_advances (Plain k) (Plain k') p \<longleftrightarrow> sk_out k' = sk_out k @ p"
| "out_advances (Framed fw) (Framed fw') p \<longleftrightarrow> fw_advances fw fw' p"
| "out_advances _ _ p \<longleftrightarrow> False"

definition cn_advances :: "countWriter \<Rightarrow> countWriter \<Rightarrow> bytes \<Rightarrow> bool" where
  "cn_advances cw cw' p \<longleftrightarrow>
     cn_pos cw' = cn_pos cw + len64 p \<and> out_advances (cn_w cw) (cn_w cw') p"

subsection \<open>Exact copies\<close>

definition copyChunk :: nat where "copyChunk = 2 ^ 20"

fun rd_size :: "'e rd \<Rightarrow> nat" where
  "rd_size [] = 0"
| "rd_size ((bs, s) # r) = Suc (length bs + rd_size r)"

lemma rd_read_size:
  "rd_read r want = (bs, ROk, r') \<Longrightarrow> 0 < want \<Longrightarrow> rd_size r' < rd_size r"
  by (cases r) (auto split: if_splits)

function copy_loop ::
  "countWriter \<Rightarrow> string rd \<Rightarrow> nat \<Rightarrow> nat \<Rightarrow> countWriter \<times> string rd \<times> nat \<times> emit_error option" where
  "copy_loop w r sz fromSource =
     (if fromSource < sz then
        (case rd_read r (min (sz - fromSource) copyChunk) of
           (bs, s, r') \<Rightarrow>
             (case (if bs \<noteq> [] then cn_write w bs else (w, None)) of
                (w', Some e) \<Rightarrow> (w', r', fromSource, Some e)
              | (w', None) \<Rightarrow>
                  (case s of
                     REof \<Rightarrow> (w', r', fromSource + length bs, None)
                   | RErr e \<Rightarrow> (w', r', fromSource + length bs, Some (EmReadPayload e))
                   | ROk \<Rightarrow> copy_loop w' r' sz (fromSource + length bs))))
      else (w, r, fromSource, None))"
  by pat_completeness auto
termination
  by (relation "measure (\<lambda>(w, r, sz, k). rd_size r)")
    (auto simp: copyChunk_def dest!: rd_read_size [OF sym])

declare copy_loop.simps [simp del]

function pad_loop :: "countWriter \<Rightarrow> nat \<Rightarrow> countWriter \<times> emit_error option" where
  "pad_loop w pad =
     (if 0 < pad then
        (let n = min pad copyChunk in
         case cn_write w (replicate n 0) of
           (w', Some e) \<Rightarrow> (w', Some e)
         | (w', None) \<Rightarrow> pad_loop w' (pad - n))
      else (w, None))"
  by pat_completeness auto
termination
  by (relation "measure (\<lambda>(w, pad). pad)") (auto simp: copyChunk_def)

declare pad_loop.simps [simp del]

text \<open>
  \<open>copyExactly\<close> with \<open>size\<close> as a natural number: a negative \<open>int64\<close> size runs neither loop, like 0.
  The reader comes back for the caller that goes on reading it.
\<close>

definition copyExactly ::
  "countWriter \<Rightarrow> string rd \<Rightarrow> nat \<Rightarrow> countWriter \<times> string rd \<times> nat \<times> emit_error option" where
  "copyExactly w r sz =
     (case copy_loop w r sz 0 of
        (w', r', k, Some e) \<Rightarrow> (w', r', k, Some e)
      | (w', r', k, None) \<Rightarrow> (case pad_loop w' (sz - k) of (w'', e) \<Rightarrow> (w'', r', k, e)))"

subsection \<open>Payloads and sources\<close>

datatype WarnKind = WarnSkipped | WarnSizeChanged | WarnTorn | WarnBadPattern

record Warning =
  wn_Kind :: WarnKind
  wn_Path :: bytes
  wn_Err :: "string option"
  wn_Bound :: i64
  wn_Actual :: i64

text \<open>
  An open file: what it delivers, and what \<open>fstat\<close> on it returns first and after the copy (size and
  modification time, or an error).  The operating system's \<open>open\<close> is a parameter.
\<close>

type_synonym fstat = "string + (i64 \<times> (i64 \<times> u32))"

record osfile =
  of_reader :: "string rd"
  of_stat :: fstat
  of_restat :: fstat

type_synonym os_open = "bytes \<Rightarrow> string + osfile"

datatype payload =
    FilePayload (fp_node: Node) (fp_f: osfile) (fp_size: i64) (fp_mtime: "i64 \<times> u32")
  | StreamPayload (sp_node: Node)

record 'p payloadSource =
  ps_open :: "Node \<Rightarrow> emit_error + 'p"
  ps_Size :: "'p \<Rightarrow> i64"
  ps_Copy :: "'p \<Rightarrow> countWriter \<Rightarrow> countWriter \<times> emit_error option \<times> Warning list"

definition syncSource_open :: "os_open \<Rightarrow> Node \<Rightarrow> emit_error + payload" where
  "syncSource_open os n =
     (if nd_Kind n = KindStream then Inr (StreamPayload n)
      else
        (case os (nd_Path n) of
           Inl e \<Rightarrow> Inl (EmOpen e)
         | Inr f \<Rightarrow>
             (case of_stat f of
                Inl e \<Rightarrow> Inl (EmOpen e)
              | Inr (sz, mtime) \<Rightarrow> Inr (FilePayload n f sz mtime))))"

fun payload_Size :: "payload \<Rightarrow> i64" where
  "payload_Size (FilePayload n f sz mtime) = sz"
| "payload_Size (StreamPayload n) = st_Size (nd_Stat n)"

definition size_changed :: "bytes \<Rightarrow> i64 \<Rightarrow> i64 \<Rightarrow> Warning" where
  "size_changed path bound actual = \<lparr> wn_Kind = WarnSizeChanged, wn_Path = path, wn_Err = None,
     wn_Bound = bound, wn_Actual = actual \<rparr>"

definition filePayload_Copy ::
  "Node \<Rightarrow> osfile \<Rightarrow> i64 \<Rightarrow> i64 \<times> u32 \<Rightarrow> countWriter \<Rightarrow> countWriter \<times> emit_error option \<times> Warning list" where
  "filePayload_Copy n f sz mtime w =
     (case copyExactly w (of_reader f) (nat (sint sz)) of
        (w', r', written, Some e) \<Rightarrow> (w', Some e, [])
      | (w', r', written, None) \<Rightarrow>
          (w', None,
           (if int written < sint sz then [size_changed (nd_Path n) sz (of_nat written)] else []) @
           (case of_restat f of
              Inl e \<Rightarrow> [\<lparr> wn_Kind = WarnTorn, wn_Path = nd_Path n, wn_Err = Some e, wn_Bound = 0,
                         wn_Actual = 0 \<rparr>]
            | Inr (sz', mtime') \<Rightarrow>
                (if sz' \<noteq> sz \<or> mtime' \<noteq> mtime
                 then [\<lparr> wn_Kind = WarnTorn, wn_Path = nd_Path n, wn_Err = None, wn_Bound = sz,
                         wn_Actual = sz' \<rparr>]
                 else []))))"

text \<open>A stream node without a reader would be a nil interface call: \<open>EmPanic\<close>.\<close>

definition streamPayload_Copy ::
  "Node \<Rightarrow> countWriter \<Rightarrow> countWriter \<times> emit_error option \<times> Warning list" where
  "streamPayload_Copy n w =
     (let sz = st_Size (nd_Stat n) in
      case nd_Stream n of
        None \<Rightarrow> (w, Some EmPanic, [])
      | Some r \<Rightarrow>
          (case copyExactly w r (nat (sint sz)) of
             (w', r', written, Some e) \<Rightarrow> (w', Some e, [])
           | (w', r', written, None) \<Rightarrow>
               (if int written < sint sz then (w', None, [size_changed (nd_Name n) sz (of_nat written)])
                else
                  (case read_full r' 1 of
                     (probe, f, r'') \<Rightarrow>
                       (w', None, if probe \<noteq> [] then [size_changed (nd_Name n) sz (sz + 1)] else [])))))"

fun payload_Copy :: "payload \<Rightarrow> countWriter \<Rightarrow> countWriter \<times> emit_error option \<times> Warning list" where
  "payload_Copy (FilePayload n f sz mtime) = filePayload_Copy n f sz mtime"
| "payload_Copy (StreamPayload n) = streamPayload_Copy n"

definition syncSource :: "os_open \<Rightarrow> payload payloadSource" where
  "syncSource os = \<lparr> ps_open = syncSource_open os, ps_Size = payload_Size, ps_Copy = payload_Copy \<rparr>"

subsection \<open>What the writer takes\<close>

lemma fw_advances_refl: "fw_advances fw fw []"
  unfolding fw_advances_def by (intro exI [of _ "[]"]) simp

lemma fw_advances_trans:
  assumes "fw_advances a b p" "fw_advances b c q"
  shows "fw_advances a c (p @ q)"
proof -
  obtain ps where ps: "concat ps = p" "[] \<notin> set ps"
      "fw_stream b = fw_stream a @ concat (map (\<lambda>p. frame_bytes (FrData p)) ps)"
      "fw_begun a \<or> ps \<noteq> [] \<longrightarrow> fw_begun b"
    using assms(1) unfolding fw_advances_def by blast
  obtain qs where qs: "concat qs = q" "[] \<notin> set qs"
      "fw_stream c = fw_stream b @ concat (map (\<lambda>p. frame_bytes (FrData p)) qs)"
      "fw_begun b \<or> qs \<noteq> [] \<longrightarrow> fw_begun c"
    using assms(2) unfolding fw_advances_def by blast
  show ?thesis unfolding fw_advances_def
    by (intro exI [of _ "ps @ qs"]) (use ps qs in auto)
qed

lemma out_advances_refl: "out_advances w w []"
  by (cases w) (auto simp: fw_advances_refl)

lemma out_advances_trans: "out_advances a b p \<Longrightarrow> out_advances b c q \<Longrightarrow> out_advances a c (p @ q)"
  by (cases a; cases b; cases c) (auto intro: fw_advances_trans)

lemma cn_advances_refl [simp]: "cn_advances w w []"
  by (simp add: cn_advances_def out_advances_refl)

lemma cn_advances_trans: "cn_advances a b p \<Longrightarrow> cn_advances b c q \<Longrightarrow> cn_advances a c (p @ q)"
  by (auto simp: cn_advances_def intro: out_advances_trans)

lemma fw_begin_ok: "fw_begin fw = (fw', None) \<Longrightarrow> fw_begun fw' \<and> fw_stream fw' = fw_stream fw"
  by (auto simp: fw_begin_def fw_stream_def dest: sink_write_ok split: if_splits prod.splits)

lemma fw_frame_adds:
  assumes "fw_frame fw k n = (fw', None)"
  shows "fw_begun fw' \<and> fw_stream fw' = fw_stream fw @ k # put64 n"
proof -
  obtain fw1 where b: "fw_begin fw = (fw1, None)"
    using assms by (auto simp: fw_frame_def split: prod.splits option.splits)
  obtain w m ok where w: "sink_write (fw_w fw1) (k # put64 n) = (w, m, ok)" by (metis prod_cases3)
  have "ok" "fw' = fw1\<lparr> fw_w := w \<rparr>" using assms b w by (auto simp: fw_frame_def split: if_splits)
  then show ?thesis using fw_begin_ok [OF b] w
    by (auto simp: fw_stream_def dest: sink_write_ok)
qed

lemma fw_Write_advances:
  assumes "fw_Write fw p = (fw', n, None)"
  shows "n = length p \<and> fw_advances fw fw' p"
proof (cases "p = []")
  case True
  then show ?thesis using assms by (simp add: fw_Write_def fw_advances_refl)
next
  case False
  obtain fw1 where b: "fw_frame fw KindData (len64 p) = (fw1, None)"
    using assms False by (auto simp: fw_Write_def split: prod.splits option.splits)
  obtain w m ok where w: "sink_write (fw_w fw1) p = (w, m, ok)" by (metis prod_cases3)
  have "ok" "fw' = fw1\<lparr> fw_w := w \<rparr>" "n = m"
    using assms b w False by (auto simp: fw_Write_def split: if_splits)
  then have "n = length p" "fw_stream fw' = fw_stream fw @ frame_bytes (FrData p)" "fw_begun fw'"
    using fw_frame_adds [OF b] w by (auto simp: fw_stream_def dest: sink_write_ok)
  then show ?thesis using False unfolding fw_advances_def
    by (intro conjI exI [of _ "[p]"]) auto
qed

lemma out_write_advances: "out_write w p = (w', n, True) \<Longrightarrow> n = length p \<and> out_advances w w' p"
  by (cases w) (auto simp: fw_Write_advances split: prod.splits dest: sink_write_ok)

lemma cn_write_advances: "cn_write w p = (w', None) \<Longrightarrow> cn_advances w w' p"
  by (auto simp: cn_write_def cn_Write_def cn_advances_def split: if_splits prod.splits
      dest!: out_write_advances)

lemma rd_read_bytes:
  assumes "rd_read r want = (bs, s, r')"
  shows "(s = ROk \<longrightarrow> rd_bytes r = bs @ rd_bytes r' \<and> rd_error r' = rd_error r) \<and>
    (s \<noteq> ROk \<longrightarrow> rd_bytes r = bs \<and> rd_bytes r' = [] \<and> rd_error r' = rd_error r) \<and>
    (s = REof \<longrightarrow> rd_error r = None) \<and> length bs \<le> want"
proof (cases r)
  case Nil
  then show ?thesis using assms by auto
next
  case (Cons x r1)
  obtain b t where "x = (b, t)" by (cases x)
  then show ?thesis using assms Cons by (cases t) (auto split: if_splits)
qed

lemma copy_loop_ok:
  assumes "copy_loop w r sz k = (w', r', k', None)" "k \<le> sz"
  shows "k' = k + length (take (sz - k) (rd_bytes r)) \<and> cn_advances w w' (take (sz - k) (rd_bytes r)) \<and>
    rd_bytes r' = drop (sz - k) (rd_bytes r) \<and> (k' < sz \<longrightarrow> rd_error r = None)"
  using assms
proof (induction w r sz k rule: copy_loop.induct)
  case (1 w r sz k)
  show ?case
  proof (cases "k < sz")
    case False
    then have "copy_loop w r sz k = (w, r, k, None)" by (subst copy_loop.simps) simp
    then show ?thesis using "1.prems" False by simp
  next
    case True
    obtain bs s r1 where rd: "rd_read r (min (sz - k) copyChunk) = (bs, s, r1)" by (metis prod_cases3)
    obtain w1 e where wr: "(if bs \<noteq> [] then cn_write w bs else (w, None)) = (w1, e)" by fastforce
    have e: "e = None" using "1.prems"(1) True rd wr
      by (cases e) (simp_all add: copy_loop.simps [of w r sz k])
    have adv: "cn_advances w w1 bs"
      using wr e by (auto split: if_splits intro: cn_write_advances)
    note b = rd_read_bytes [OF rd]
    show ?thesis
    proof (cases s)
      case ROk
      have rec: "copy_loop w1 r1 sz (k + length bs) = (w', r', k', None)"
        using "1.prems"(1) True rd wr e ROk by (simp add: copy_loop.simps [of w r sz k])
      have "length bs \<le> sz - k" using b by simp
      then have le: "k + length bs \<le> sz" using True by linarith
      note IH = "1.IH" [OF True rd [symmetric] refl wr [symmetric] e ROk rec le]
      then show ?thesis using cn_advances_trans [OF adv] b ROk le by auto
    next
      case REof
      then show ?thesis using "1.prems"(1) True rd wr e b adv
        by (auto simp: copy_loop.simps [of w r sz k])
    next
      case (RErr err)
      then show ?thesis using "1.prems"(1) True rd wr e by (simp add: copy_loop.simps [of w r sz k])
    qed
  qed
qed

lemma pad_loop_ok: "pad_loop w pad = (w', None) \<Longrightarrow> cn_advances w w' (replicate pad 0)"
proof (induction w pad rule: pad_loop.induct)
  case (1 w pad)
  show ?case
  proof (cases "0 < pad")
    case False
    then have "pad_loop w pad = (w, None)" by (subst pad_loop.simps) simp
    then show ?thesis using "1.prems" False by simp
  next
    case True
    obtain w1 e where wr: "cn_write w (replicate (min pad copyChunk) 0) = (w1, e)" by fastforce
    have e: "e = None" using "1.prems" True wr by (cases e) (simp_all add: pad_loop.simps [of w pad])
    have "cn_advances w1 w' (replicate (pad - min pad copyChunk) 0)"
      using "1.IH" [OF True refl wr [symmetric] e] "1.prems" True wr e
      by (simp add: pad_loop.simps [of w pad])
    then show ?thesis
      using cn_advances_trans [OF cn_write_advances] wr e
      by (metis le_add_diff_inverse min.cobounded1 replicate_add)
  qed
qed

lemma copyExactly_ok:
  assumes "copyExactly w r sz = (w', r', k, None)"
  shows "k = min sz (length (rd_bytes r)) \<and>
    cn_advances w w' (take sz (rd_bytes r) @ replicate (sz - length (rd_bytes r)) 0) \<and>
    rd_bytes r' = drop sz (rd_bytes r) \<and> (k < sz \<longrightarrow> rd_error r = None)"
proof -
  obtain w1 where c: "copy_loop w r sz 0 = (w1, r', k, None)" and p: "pad_loop w1 (sz - k) = (w', None)"
    using assms by (auto simp: copyExactly_def split: prod.splits option.splits)
  note l = copy_loop_ok [OF c, simplified]
  have "sz - k = sz - length (rd_bytes r)" using l by auto
  then show ?thesis using l cn_advances_trans [OF _ pad_loop_ok [OF p]] by (auto simp: min_def)
qed

subsection \<open>The payload contract\<close>

text \<open>A source cut or padded to a size.\<close>

definition fit :: "nat \<Rightarrow> bytes \<Rightarrow> bytes" where
  "fit sz bs = take sz bs @ replicate (sz - length bs) 0"

lemma length_fit [simp]: "length (fit sz bs) = sz"
  by (simp add: fit_def)

locale payload_contract =
  fixes S :: "'p payloadSource" and image :: "'p \<Rightarrow> bytes"
  assumes Copy_exact: "ps_Copy S p w = (w', None, ws) \<Longrightarrow> cn_advances w w' (image p)"
    and image_size: "length (image p) = nat (sint (ps_Size S p))"
begin

lemma image_len64:
  assumes "0 \<le> sint (ps_Size S p)"
  shows "len64 (image p) = ps_Size S p"
proof -
  have "(len64 (image p) :: u64) = of_int (int (length (image p)))" by simp
  also have "\<dots> = ps_Size S p" using assms by (simp add: image_size)
  finally show ?thesis .
qed

lemma Copy_pos:
  assumes "ps_Copy S p w = (w', None, ws)" "0 \<le> sint (ps_Size S p)"
  shows "cn_pos w' = cn_pos w + ps_Size S p"
  using Copy_exact [OF assms(1)] image_len64 [OF assms(2)] by (simp add: cn_advances_def)

lemma image_less: "length (image p) < 2 ^ 63"
proof -
  have "sint (ps_Size S p) < 2 ^ 63" using sint_less [of "ps_Size S p"] by simp
  then show ?thesis unfolding image_size by (cases "0 \<le> sint (ps_Size S p)") (simp_all add: nat_less_iff)
qed

end

fun payload_image :: "payload \<Rightarrow> bytes" where
  "payload_image (FilePayload n f sz mtime) = fit (nat (sint sz)) (rd_bytes (of_reader f))"
| "payload_image (StreamPayload n) =
     fit (nat (sint (st_Size (nd_Stat n)))) (case nd_Stream n of None \<Rightarrow> [] | Some r \<Rightarrow> rd_bytes r)"

lemma sync_copy_exact:
  assumes "payload_Copy p w = (w', None, ws)"
  shows "cn_advances w w' (payload_image p)"
proof (cases p)
  case (FilePayload n f sz mtime)
  then obtain r' k where "copyExactly w (of_reader f) (nat (sint sz)) = (w', r', k, None)"
    using assms by (auto simp: filePayload_Copy_def split: prod.splits option.splits)
  from copyExactly_ok [OF this] show ?thesis by (simp add: FilePayload fit_def)
next
  case (StreamPayload n)
  then obtain r r' k where "nd_Stream n = Some r"
      "copyExactly w r (nat (sint (st_Size (nd_Stat n)))) = (w', r', k, None)"
    using assms by (auto simp: streamPayload_Copy_def Let_def split: prod.splits option.splits if_splits)
  with copyExactly_ok [OF this(2)] show ?thesis by (simp add: StreamPayload fit_def)
qed

interpretation sync: payload_contract "syncSource os" payload_image for os
proof
  show "length (payload_image p) = nat (sint (ps_Size (syncSource os) p))" for p
    by (cases p) (simp_all add: syncSource_def)
qed (auto simp: syncSource_def dest: sync_copy_exact)

text \<open>
  a payload copy that succeeds writes exactly the bound number of bytes to the stream: what the
  source delivers, cut at the bound, and zeros for what it does not deliver; the count it returns
  tells the two apart, and a source that ends with a read error inside the bound never succeeds.
\<close>

theorem copy_pads_and_truncates:
  assumes "copyExactly w r sz = (w', r', k, None)"
  shows "k = min sz (length (rd_bytes r)) \<and>
    cn_advances w w' (take sz (rd_bytes r) @ replicate (sz - length (rd_bytes r)) 0) \<and>
    length (take sz (rd_bytes r) @ replicate (sz - length (rd_bytes r)) (0 :: byte)) = sz \<and>
    (k < sz \<longrightarrow> rd_error r = None)"
  using copyExactly_ok [OF assms] by auto

theorem copy_pads_and_truncates_witness:
  "\<exists>w'. copyExactly \<lparr> cn_ctx = None, cn_w = Plain \<lparr> sk_room = None, sk_out = [9] \<rparr>, cn_pos = 1 \<rparr>
       [([7], ROk), ([8], REof)] 3 = (w', [([], REof)], 2, None) \<and>
     cn_w w' = Plain \<lparr> sk_room = None, sk_out = [9, 7, 8, 0] \<rparr> \<and> cn_pos w' = 4"
proof -
  let ?w = "\<lparr> cn_ctx = None, cn_w = Plain \<lparr> sk_room = None, sk_out = [9] \<rparr>, cn_pos = 1 \<rparr>"
  have wr: "cn_write \<lparr> cn_ctx = None, cn_w = Plain \<lparr> sk_room = None, sk_out = o' \<rparr>, cn_pos = p' \<rparr> bs =
    (\<lparr> cn_ctx = None, cn_w = Plain \<lparr> sk_room = None, sk_out = o' @ bs \<rparr>, cn_pos = p' + len64 bs \<rparr>, None)"
    for o' p' bs
    by (simp add: cn_write_def cn_Write_def sink_write_None)
  have c: "copyExactly ?w [([7], ROk), ([8], REof)] 3 =
     (\<lparr> cn_ctx = None, cn_w = Plain \<lparr> sk_room = None, sk_out = [9, 7, 8, 0] \<rparr>, cn_pos = 4 \<rparr>,
      [([], REof)], 2, None)"
    by (simp add: copyExactly_def copy_loop.simps pad_loop.simps copyChunk_def wr)
  show ?thesis using copy_pads_and_truncates [OF c] c by (simp add: cn_advances_def)
qed

end
