(* ===== verification/Emit.thy ===== *)
theory Emit
  imports Payload
begin

unbundle bit_operations_syntax

text \<open>
  Archive emission: the size ledger and the payload references (\<^verbatim>\<open>src/archive/refs.go\<close>), the tree
  emitter of a v1 archive or a v2 metadata stream (\<^verbatim>\<open>src/archive/emit.go\<close>), the v2 payload stream
  (\<^verbatim>\<open>src/archive/emitv2.go\<close>) and the size estimates (\<^verbatim>\<open>src/archive/estimate.go\<close>).

  The emitter is a recursive walk over explicit state: the counting writer, the positions of the
  hardlink targets emitted so far, the reference reader and the warnings.  The name hash and the
  payload source are parameters.  The ledger's waiting is explicit: \<open>None\<close> is a call that has not
  returned yet, and what a call returns never depends on what is published after it.
\<close>

subsection \<open>The reuse plan and the ledger\<close>

record payloadPlan =
  pp_node :: Node
  pp_reuse :: bool
  pp_rel :: u64
  pp_size :: u64
  pp_inject :: "Chunk_ru list option"
  pp_runEnd :: bool
  pp_runTotal :: u64
  pp_readSeq :: nat

record refLedger =
  lg_sizes :: "i64 list"
  lg_err :: "emit_error option"

definition newRefLedger :: refLedger where
  "newRefLedger = \<lparr> lg_sizes = [], lg_err = None \<rparr>"

definition publish :: "refLedger \<Rightarrow> i64 \<Rightarrow> emit_error option \<Rightarrow> refLedger" where
  "publish l sz err =
     (if lg_err l \<noteq> None then l
      else case err of
        Some e \<Rightarrow> l\<lparr> lg_err := Some e \<rparr>
      | None \<Rightarrow> l\<lparr> lg_sizes := lg_sizes l @ [sz] \<rparr>)"

definition ledger_fail :: "refLedger \<Rightarrow> emit_error \<Rightarrow> refLedger" where
  "ledger_fail l err = (if lg_err l = None then l\<lparr> lg_err := Some err \<rparr> else l)"

text \<open>
  \<open>get\<close> on the ledger as it is when the lock is held, \<open>done\<close> telling whether generation has been
  cancelled: \<open>None\<close> keeps waiting.
\<close>

definition ledger_get :: "refLedger \<Rightarrow> bool \<Rightarrow> nat \<Rightarrow> (emit_error + i64) option" where
  "ledger_get l don i =
     (if length (lg_sizes l) \<le> i \<and> lg_err l = None then
        (if don then Some (Inl EmCanceled) else None)
      else if length (lg_sizes l) \<le> i then Some (Inl (the (lg_err l)))
      else Some (Inr (lg_sizes l ! i)))"

record refReader =
  rr_ledger :: refLedger
  rr_plan :: "payloadPlan list"
  rr_seq :: nat
  rr_offset :: u64

definition newRefReader :: "refLedger \<Rightarrow> payloadPlan list \<Rightarrow> refReader" where
  "newRefReader l plan = \<lparr> rr_ledger = l, rr_plan = plan, rr_seq = 0, rr_offset = MarkerSize \<rparr>"

text \<open>
  \<open>next\<close>, run against the ledger as it stands once generation is over, when no call waits any more.
\<close>

definition rr_next :: "refReader \<Rightarrow> refReader \<times> (emit_error + (u64 \<times> u64))" where
  "rr_next r =
     (if length (rr_plan r) \<le> rr_seq r then (r, Inl EmMoreFiles)
      else
        (let p = rr_plan r ! rr_seq r; r = r\<lparr> rr_seq := rr_seq r + 1 \<rparr> in
         if pp_reuse p then
           (let offset = rr_offset r + pp_rel p in
            (if pp_runEnd p then r\<lparr> rr_offset := rr_offset r + pp_runTotal p \<rparr> else r,
             Inr (offset, pp_size p)))
         else
           (case ledger_get (rr_ledger r) True (pp_readSeq p) of
              Some (Inr s) \<Rightarrow>
                (r\<lparr> rr_offset := rr_offset r + (HeaderSize + s) \<rparr>, Inr (rr_offset r, s))
            | Some (Inl e) \<Rightarrow> (r, Inl e)
            | None \<Rightarrow> (r, Inl EmCanceled))))"

subsection \<open>The emitter\<close>

definition metadataBytes :: "bytes \<Rightarrow> Node \<Rightarrow> bytes" where
  "metadataBytes dst n =
     (let st = nd_Stat n;
          buf = AppendEntry dst \<lparr> pe_Mode = st_Mode st, pe_Flags = 0, pe_UID = st_UID st,
            pe_GID = st_GID st, pe_MtimeSecs = st_MtimeSecs st, pe_MtimeNanos = st_MtimeNanos st \<rparr>;
          buf = foldl (\<lambda>b x. AppendXAttr b (xa_Name x) (xa_Value x)) buf (nd_Xattrs n);
          buf = (case nd_ACL n of
                   None \<Rightarrow> buf
                 | Some acl \<Rightarrow>
                     (let buf = foldl AppendACLUser buf (acl_Users acl);
                          buf = foldl AppendACLGroup buf (acl_Groups acl);
                          buf = (case acl_GroupObj acl of None \<Rightarrow> buf | Some p \<Rightarrow> AppendACLGroupObj buf p);
                          buf = (case acl_Default acl of None \<Rightarrow> buf | Some d \<Rightarrow> AppendACLDefault buf d);
                          buf = foldl AppendACLDefaultUser buf (acl_DefaultUsers acl)
                      in foldl AppendACLDefaultGroup buf (acl_DefaultGroups acl)));
          buf = (if 0 < length (nd_FCaps n) then AppendFCaps buf (nd_FCaps n) else buf)
      in if nd_QuotaProjID n \<noteq> 0 then AppendQuotaProjID buf (nd_QuotaProjID n) else buf)"

record emst =
  es_w :: countWriter
  es_links :: "bytes \<rightharpoonup> u64"
  es_refs :: "refReader option"
  es_warns :: "Warning list"

type_synonym 'a emres = "emst \<times> (emit_error + 'a)"

definition em_write :: "emst \<Rightarrow> bytes \<Rightarrow> unit emres" where
  "em_write s p =
     (case cn_write (es_w s) p of
        (w, None) \<Rightarrow> (s\<lparr> es_w := w \<rparr>, Inr ())
      | (w, Some e) \<Rightarrow> (s\<lparr> es_w := w \<rparr>, Inl e))"

abbreviation em_bind :: "'a emres \<Rightarrow> (emst \<Rightarrow> 'a \<Rightarrow> 'b emres) \<Rightarrow> 'b emres" where
  "em_bind m f \<equiv> (case m of (s, Inl e) \<Rightarrow> (s, Inl e) | (s, Inr x) \<Rightarrow> f s x)"

text \<open>The content of a regular file or stream: \<open>pl\<close> is the payload bound before its metadata (v1).\<close>

definition em_content :: "'p payloadSource \<Rightarrow> Node \<Rightarrow> 'p option \<Rightarrow> bytes \<Rightarrow> u64 \<Rightarrow> emst \<Rightarrow> u64 emres" where
  "em_content src n pl apath start s =
     em_bind
       (case es_refs s of
          Some refs \<Rightarrow>
            (case rr_next refs of
               (refs', Inl e) \<Rightarrow> (s\<lparr> es_refs := Some refs' \<rparr>, Inl e)
             | (refs', Inr (offset, sz)) \<Rightarrow>
                 em_bind (em_write (s\<lparr> es_refs := Some refs' \<rparr>) (AppendPayloadRef [] offset sz))
                   (\<lambda>s _. (s, Inr sz)))
        | None \<Rightarrow>
            (case pl of
               None \<Rightarrow> (s, Inl EmPanic)
             | Some p \<Rightarrow>
                 em_bind (em_write s (AppendPayloadHeader [] (ps_Size src p)))
                   (\<lambda>s _. case ps_Copy src p (es_w s) of
                      (w, Some e, ws) \<Rightarrow> (s\<lparr> es_w := w \<rparr>, Inl e)
                    | (w, None, ws) \<Rightarrow> (s\<lparr> es_w := w, es_warns := es_warns s @ ws \<rparr>, Inr 0))))
       (\<lambda>s extra.
          (if nd_Kind n = KindFile \<and> st_Nlink (nd_Stat n) > 1
           then s\<lparr> es_links := (es_links s)(apath \<mapsto> start) \<rparr> else s, Inr extra))"

definition em_open :: "'p payloadSource \<Rightarrow> Node \<Rightarrow> emst \<Rightarrow> 'p option emres" where
  "em_open src n s =
     (if es_refs s = None \<and> (nd_Kind n = KindFile \<or> nd_Kind n = KindStream) then
        (case ps_open src n of Inl e \<Rightarrow> (s, Inl e) | Inr p \<Rightarrow> (s, Inr (Some p)))
      else (s, Inr None))"

lemma size_list_children: "Suc (2 * size_list size (nd_Children n)) < 2 * size n"
  by (cases n) simp

function (sequential) em_node ::
    "(bytes \<Rightarrow> u64) \<Rightarrow> 'p payloadSource \<Rightarrow> Node \<Rightarrow> bytes \<Rightarrow> bool \<Rightarrow> emst \<Rightarrow> u64 emres"
  and em_children ::
    "(bytes \<Rightarrow> u64) \<Rightarrow> 'p payloadSource \<Rightarrow> Node list \<Rightarrow> bytes \<Rightarrow> GoodbyeItem list \<Rightarrow> emst \<Rightarrow> GoodbyeItem list emres"
where
  "em_node Hash src n apath isRoot s0 =
     (let start = cn_pos (es_w s0) in
      em_bind (if isRoot then (s0, Inr ()) else em_write s0 (AppendFilename [] (nd_Name n)))
       (\<lambda>s _.
        if nd_Kind n = KindHardlink then
          (case es_links s (nd_LinkTarget n) of
             None \<Rightarrow> (s, Inl (EmHardlink apath (nd_LinkTarget n)))
           | Some targetStart \<Rightarrow>
               em_bind (em_write s (AppendHardlink [] (start - targetStart) (nd_LinkTarget n)))
                 (\<lambda>s _. (s, Inr 0)))
        else
          em_bind (em_open src n s)
           (\<lambda>s pl.
            let entryStart = cn_pos (es_w s) in
            em_bind (em_write s (metadataBytes [] n))
             (\<lambda>s _.
              case nd_Kind n of
                KindDirectory \<Rightarrow>
                  em_bind (em_children Hash src (nd_Children n) apath [] s)
                    (\<lambda>s items.
                     case AppendGoodbye [] items (if isRoot then 0 else entryStart) (cn_pos (es_w s)) of
                       None \<Rightarrow> (s, Inl EmPanic)
                     | Some bs \<Rightarrow> em_bind (em_write s bs) (\<lambda>s _. (s, Inr 0)))
              | KindFile \<Rightarrow> em_content src n pl apath start s
              | KindStream \<Rightarrow> em_content src n pl apath start s
              | KindSymlink \<Rightarrow> em_bind (em_write s (AppendSymlink [] (nd_LinkTarget n))) (\<lambda>s _. (s, Inr 0))
              | KindBlockDevice \<Rightarrow> em_bind (em_write s (AppendDevice [] (st_Rdev (nd_Stat n)))) (\<lambda>s _. (s, Inr 0))
              | KindCharDevice \<Rightarrow> em_bind (em_write s (AppendDevice [] (st_Rdev (nd_Stat n)))) (\<lambda>s _. (s, Inr 0))
              | KindFifo \<Rightarrow> (s, Inr 0)
              | KindSocket \<Rightarrow> (s, Inr 0)
              | k \<Rightarrow> (s, Inl (EmKind k apath))))))"
| "em_children Hash src [] apath items s = (s, Inr items)"
| "em_children Hash src (c # cs) apath items s =
     (let childStart = cn_pos (es_w s) in
      em_bind (em_node Hash src c (joinArchive apath (nd_Name c)) False s)
        (\<lambda>s extra.
           em_children Hash src cs apath
             (items @ [\<lparr> gi_Hash = Hash (nd_Name c), gi_Start = childStart,
                gi_Length = cn_pos (es_w s) - childStart + extra \<rparr>]) s))"
  by pat_completeness auto
termination
  by (relation "measure (\<lambda>x. case x of Inl (h, src, n, a, r, s) \<Rightarrow> 2 * size n
       | Inr (h, src, cs, a, i, s) \<Rightarrow> Suc (2 * size_list size cs))")
    (auto simp: size_list_children)

declare em_node.simps [simp del]

definition em_run ::
  "(bytes \<Rightarrow> u64) \<Rightarrow> 'p payloadSource \<Rightarrow> bytes option \<Rightarrow> Node \<Rightarrow> emst \<Rightarrow> unit emres" where
  "em_run Hash src prelude root s =
     (let s = s\<lparr> es_links := Map.empty \<rparr> in
      em_bind
        (if es_refs s = None then (s, Inr ())
         else
           em_bind (em_write s (AppendFormatVersion [] 2))
             (\<lambda>s _. case prelude of None \<Rightarrow> (s, Inr ()) | Some p \<Rightarrow> em_write s (AppendPrelude [] p)))
        (\<lambda>s _. em_bind (em_node Hash src root [] True s) (\<lambda>s _. (s, Inr ()))))"

text \<open>An emitter at the start of a stream, and what it has written.\<close>

definition new_emitter :: "nat option \<Rightarrow> nat option \<Rightarrow> refReader option \<Rightarrow> emst" where
  "new_emitter ctx room refs = \<lparr> es_w = \<lparr> cn_ctx = ctx, cn_w = Plain \<lparr> sk_room = room, sk_out = [] \<rparr>, cn_pos = 0 \<rparr>,
     es_links = Map.empty, es_refs = refs, es_warns = [] \<rparr>"

definition cn_out :: "countWriter \<Rightarrow> bytes" where
  "cn_out w = (case cn_w w of Plain k \<Rightarrow> sk_out k | Framed fw \<Rightarrow> sk_out (fw_w fw))"

abbreviation em_out :: "emst \<Rightarrow> bytes" where
  "em_out s \<equiv> cn_out (es_w s)"

subsection \<open>The payload stream\<close>

record pest =
  pe_w :: countWriter
  pe_ledger :: refLedger
  pe_warns :: "Warning list"

type_synonym peres = "pest \<times> emit_error option"

definition pe_write :: "pest \<Rightarrow> bytes \<Rightarrow> peres" where
  "pe_write s p = (case cn_write (pe_w s) p of (w, e) \<Rightarrow> (s\<lparr> pe_w := w \<rparr>, e))"

text \<open>\<open>publish\<close> is set when the source does not publish the sizes it binds itself.\<close>

definition pe_payload :: "'p payloadSource \<Rightarrow> bool \<Rightarrow> Node \<Rightarrow> pest \<Rightarrow> peres" where
  "pe_payload src pub n s =
     (case ps_open src n of
        Inl e \<Rightarrow> (if pub then s\<lparr> pe_ledger := publish (pe_ledger s) 0 (Some e) \<rparr> else s, Some e)
      | Inr p \<Rightarrow>
          (let s = (if pub then s\<lparr> pe_ledger := publish (pe_ledger s) (ps_Size src p) None \<rparr> else s) in
           case pe_write s (AppendPayloadHeader [] (ps_Size src p)) of
             (s, Some e) \<Rightarrow> (s, Some e)
           | (s, None) \<Rightarrow>
               (case ps_Copy src p (pe_w s) of
                  (w, Some e, ws) \<Rightarrow> (s\<lparr> pe_w := w \<rparr>, Some e)
                | (w, None, ws) \<Rightarrow> (s\<lparr> pe_w := w, pe_warns := pe_warns s @ ws \<rparr>, None))))"

text \<open>\<open>Inject\<close> goes to the framing writer below the counting writer; there is none in a plain stream.\<close>

definition pe_inject :: "pest \<Rightarrow> Chunk_ru list \<Rightarrow> peres" where
  "pe_inject s cs =
     (case cn_w (pe_w s) of
        Plain _ \<Rightarrow> (s, Some EmPanic)
      | Framed fw \<Rightarrow>
          (case fw_Inject fw cs of
             (fw', e) \<Rightarrow> (s\<lparr> pe_w := (pe_w s)\<lparr> cn_w := Framed fw' \<rparr> \<rparr>, if e = None then None else Some EmSink)))"

fun pe_loop :: "'p payloadSource \<Rightarrow> bool \<Rightarrow> payloadPlan list \<Rightarrow> pest \<Rightarrow> peres" where
  "pe_loop src pub [] s = pe_write s (AppendPayloadTailMarker [])"
| "pe_loop src pub (p # ps) s =
     (case (if pp_reuse p then
              (case pp_inject p of Some cs \<Rightarrow> pe_inject s cs | None \<Rightarrow> (s, None))
            else pe_payload src pub (pp_node p) s) of
        (s, Some e) \<Rightarrow> (s, Some e)
      | (s, None) \<Rightarrow> pe_loop src pub ps s)"

definition pe_run :: "'p payloadSource \<Rightarrow> bool \<Rightarrow> payloadPlan list \<Rightarrow> pest \<Rightarrow> peres" where
  "pe_run src pub plan s =
     (case pe_write s (AppendPayloadStartMarker []) of
        (s, Some e) \<Rightarrow> (s, Some e)
      | (s, None) \<Rightarrow> pe_loop src pub plan s)"

subsection \<open>Estimates\<close>

definition sizeMetadata :: "Node \<Rightarrow> u64" where
  "sizeMetadata n =
     EntrySize + sum_list (map (\<lambda>x. SizeXAttr (xa_Name x) (xa_Value x)) (nd_Xattrs n)) +
     (case nd_ACL n of
        None \<Rightarrow> 0
      | Some acl \<Rightarrow>
          len64 (acl_Users acl) * ACLUserSize + len64 (acl_Groups acl) * ACLGroupSize +
          (if acl_GroupObj acl \<noteq> None then ACLGroupObjSize else 0) +
          (if acl_Default acl \<noteq> None then ACLDefaultSize else 0) +
          len64 (acl_DefaultUsers acl) * ACLUserSize + len64 (acl_DefaultGroups acl) * ACLGroupSize) +
     (if 0 < length (nd_FCaps n) then SizeFCaps (nd_FCaps n) else 0) +
     (if nd_QuotaProjID n \<noteq> 0 then QuotaProjIDSize else 0)"

fun estimateV1 :: "Node \<Rightarrow> bool \<Rightarrow> u64" where
  "estimateV1 n isRoot =
     (let s = (if isRoot then 0 else SizeFilename (nd_Name n)) in
      if nd_Kind n = KindHardlink then s + SizeHardlink (nd_LinkTarget n)
      else
        s + sizeMetadata n +
        (case nd_Kind n of
           KindDirectory \<Rightarrow>
             sum_list (map (\<lambda>c. estimateV1 c False) (nd_Children n)) + SizeGoodbye (length (nd_Children n))
         | KindFile \<Rightarrow> SizePayload (st_Size (nd_Stat n))
         | KindStream \<Rightarrow> SizePayload (st_Size (nd_Stat n))
         | KindSymlink \<Rightarrow> SizeSymlink (nd_LinkTarget n)
         | KindBlockDevice \<Rightarrow> DeviceSize
         | KindCharDevice \<Rightarrow> DeviceSize
         | _ \<Rightarrow> 0))"

declare estimateV1.simps [simp del]

fun estimateV2 :: "Node \<Rightarrow> bool \<Rightarrow> u64 \<times> u64" where
  "estimateV2 n isRoot =
     (let m = (if isRoot then FormatVersionSize else SizeFilename (nd_Name n));
          p = (if isRoot then 2 * MarkerSize else 0)
      in if nd_Kind n = KindHardlink then (m + SizeHardlink (nd_LinkTarget n), p)
         else
           (let m = m + sizeMetadata n in
            case nd_Kind n of
              KindDirectory \<Rightarrow>
                (let cs = map (\<lambda>c. estimateV2 c False) (nd_Children n) in
                 (m + sum_list (map fst cs) + SizeGoodbye (length (nd_Children n)), p + sum_list (map snd cs)))
            | KindFile \<Rightarrow> (m + PayloadRefSize, p + SizePayload (st_Size (nd_Stat n)))
            | KindStream \<Rightarrow> (m + PayloadRefSize, p + SizePayload (st_Size (nd_Stat n)))
            | KindSymlink \<Rightarrow> (m + SizeSymlink (nd_LinkTarget n), p)
            | KindBlockDevice \<Rightarrow> (m + DeviceSize, p)
            | KindCharDevice \<Rightarrow> (m + DeviceSize, p)
            | _ \<Rightarrow> (m, p)))"

declare estimateV2.simps [simp del]

end
