(* ===== verification/Image.thy ===== *)
theory Image
  imports Emit
begin

unbundle bit_operations_syntax

text \<open>
  What the emitter writes, as a relation between a node and bytes.  \<open>archived v P n bs\<close> says that
  \<open>bs\<close> is an encoding of node \<open>n\<close> without its filename record, in the v2 metadata format when \<open>v\<close>
  holds and as part of a v1 archive otherwise: its metadata records in canonical order, then its
  content, with the children of a directory each behind its filename record and the goodbye record
  at the end.  \<open>P m c\<close> tells which content \<open>c\<close> (in v2, which body of the reference record) may stand
  for the file \<open>m\<close>, and \<open>G ns es g\<close> which goodbye table \<open>g\<close> may close a directory with children \<open>ns\<close>
  whose encodings have the lengths and the extra payload sizes \<open>es\<close>.  \<open>x\<close> is the payload size that a
  v2 file adds to the length of its goodbye item.

  The emitter refines this relation in the locale of the payload contract, so for every source that
  keeps it; the estimates are the length of any such encoding.
\<close>

subsection \<open>Metadata records\<close>

definition user_body :: "ACLUser \<Rightarrow> bytes" where
  "user_body u = put64 (au_UID u) @ put64 (au_Permissions u)"

definition group_body :: "ACLGroup \<Rightarrow> bytes" where
  "group_body g = put64 (ag_GID g) @ put64 (ag_Permissions g)"

definition default_body :: "ACLDefault \<Rightarrow> bytes" where
  "default_body a = put64 (ad_UserObjPermissions a) @ put64 (ad_GroupObjPermissions a) @
     put64 (ad_OtherPermissions a) @ put64 (ad_MaskPermissions a)"

definition entry_body :: "Stat \<Rightarrow> bytes" where
  "entry_body st = put64 (st_Mode st) @ put64 0 @ put32 (st_UID st) @ put32 (st_GID st) @
     put64 (st_MtimeSecs st) @ put32 (st_MtimeNanos st) @ put32 0"

definition acl_records :: "ACLs \<Rightarrow> (u64 \<times> bytes) list" where
  "acl_records acl =
     map (\<lambda>u. (TypeACLUser, user_body u)) (acl_Users acl) @
     map (\<lambda>g. (TypeACLGroup, group_body g)) (acl_Groups acl) @
     (case acl_GroupObj acl of None \<Rightarrow> [] | Some p \<Rightarrow> [(TypeACLGroupObj, put64 p)]) @
     (case acl_Default acl of None \<Rightarrow> [] | Some d \<Rightarrow> [(TypeACLDefault, default_body d)]) @
     map (\<lambda>u. (TypeACLDefaultUser, user_body u)) (acl_DefaultUsers acl) @
     map (\<lambda>g. (TypeACLDefaultGroup, group_body g)) (acl_DefaultGroups acl)"

definition extra_records :: "Node \<Rightarrow> (u64 \<times> bytes) list" where
  "extra_records n =
     map (\<lambda>x. (TypeXAttr, xa_Name x @ [0] @ xa_Value x)) (nd_Xattrs n) @
     (case nd_ACL n of None \<Rightarrow> [] | Some acl \<Rightarrow> acl_records acl) @
     (if nd_FCaps n = [] then [] else [(TypeFCaps, nd_FCaps n)]) @
     (if nd_QuotaProjID n = 0 then [] else [(TypeQuotaProjID, put64 (nd_QuotaProjID n))])"

abbreviation records_bytes :: "(u64 \<times> bytes) list \<Rightarrow> bytes" where
  "records_bytes rs \<equiv> concat (map (\<lambda>(t, b). record_bytes t b) rs)"

lemma foldl_append: "(\<And>b x. f b x = b @ g x) \<Longrightarrow> foldl f b xs = b @ concat (map g xs)"
  by (induction xs arbitrary: b) auto

lemma acl_folds:
  "foldl AppendACLUser b us = b @ concat (map (\<lambda>u. record_bytes TypeACLUser (user_body u)) us)"
  "foldl AppendACLDefaultUser b us = b @ concat (map (\<lambda>u. record_bytes TypeACLDefaultUser (user_body u)) us)"
  "foldl AppendACLGroup b gs = b @ concat (map (\<lambda>g. record_bytes TypeACLGroup (group_body g)) gs)"
  "foldl AppendACLDefaultGroup b gs = b @ concat (map (\<lambda>g. record_bytes TypeACLDefaultGroup (group_body g)) gs)"
  "foldl (\<lambda>b x. AppendXAttr b (xa_Name x) (xa_Value x)) b xs =
     b @ concat (map (\<lambda>x. record_bytes TypeXAttr (xa_Name x @ [0] @ xa_Value x)) xs)"
  by (rule foldl_append, simp add: append_records user_body_def group_body_def)+

lemma metadataBytes_records:
  "metadataBytes dst n = dst @ record_bytes TypeEntry (entry_body (nd_Stat n)) @ records_bytes (extra_records n)"
  unfolding metadataBytes_def Let_def acl_folds
  by (simp add: append_records extra_records_def acl_records_def
      entry_body_def default_body_def comp_def split: option.splits)

lemma len64_concat: "(len64 (concat xss) :: u64) = sum_list (map len64 xss)"
  by (induction xss) simp_all

lemma body_lengths:
  "length (user_body u) = 16" "length (group_body g) = 16" "length (default_body d) = 32"
  "length (entry_body st) = 40"
  by (simp_all add: user_body_def group_body_def default_body_def entry_body_def)

lemma sum_list_const: "sum_list (map (\<lambda>x. c) xs) = len64 xs * (c :: u64)"
  by (induction xs) (simp_all add: algebra_simps)

lemma metadata_length: "len64 (metadataBytes [] n) = sizeMetadata n"
  by (simp add: metadataBytes_records extra_records_def acl_records_def sizeMetadata_def
      len64_concat comp_def body_lengths pxar_sizes sum_list_const algebra_simps split: option.splits)

subsection \<open>Encodings of a tree\<close>

fun nodes_of :: "Node \<Rightarrow> Node list" where
  "nodes_of n = n # concat (map nodes_of (nd_Children n))"

declare nodes_of.simps [simp del]

lemma nodes_of_self [simp]: "n \<in> set (nodes_of n)"
  by (subst nodes_of.simps) simp

lemma nodes_of_child: "c \<in> set (nd_Children n) \<Longrightarrow> set (nodes_of c) \<subseteq> set (nodes_of n)"
  by (subst nodes_of.simps [of n]) auto

inductive archived :: "bool \<Rightarrow> (Node \<Rightarrow> bytes \<Rightarrow> bool) \<Rightarrow> (Node list \<Rightarrow> (nat \<times> u64) list \<Rightarrow> bytes \<Rightarrow> bool) \<Rightarrow>
    Node \<Rightarrow> u64 \<Rightarrow> bytes \<Rightarrow> bool"
  and archived_list :: "bool \<Rightarrow> (Node \<Rightarrow> bytes \<Rightarrow> bool) \<Rightarrow> (Node list \<Rightarrow> (nat \<times> u64) list \<Rightarrow> bytes \<Rightarrow> bool) \<Rightarrow>
    Node list \<Rightarrow> (nat \<times> u64) list \<Rightarrow> bytes \<Rightarrow> bool"
  for v :: bool and P :: "Node \<Rightarrow> bytes \<Rightarrow> bool" and G :: "Node list \<Rightarrow> (nat \<times> u64) list \<Rightarrow> bytes \<Rightarrow> bool"
where
  arch_hardlink: "nd_Kind n = KindHardlink \<Longrightarrow>
     archived v P G n 0 (record_bytes TypeHardlink_px (put64 off @ nd_LinkTarget n @ [0]))"
| arch_dir: "nd_Kind n = KindDirectory \<Longrightarrow> archived_list v P G (nd_Children n) es bs \<Longrightarrow>
     length g = 24 * (length (nd_Children n) + 1) \<Longrightarrow> G (nd_Children n) es g \<Longrightarrow>
     archived v P G n 0 (metadataBytes [] n @ bs @ record_bytes TypeGoodbye g)"
| arch_inline: "nd_Kind n \<in> {KindFile, KindStream} \<Longrightarrow> \<not> v \<Longrightarrow> P n content \<Longrightarrow>
     length content < 2 ^ 63 \<Longrightarrow>
     archived v P G n 0 (metadataBytes [] n @ record_bytes TypePayload content)"
| arch_ref: "nd_Kind n \<in> {KindFile, KindStream} \<Longrightarrow> v \<Longrightarrow> P n (put64 off @ put64 sz) \<Longrightarrow>
     archived v P G n sz (metadataBytes [] n @ record_bytes TypePayloadRef (put64 off @ put64 sz))"
| arch_symlink: "nd_Kind n = KindSymlink \<Longrightarrow>
     archived v P G n 0 (metadataBytes [] n @ record_bytes TypeSymlink_px (nd_LinkTarget n @ [0]))"
| arch_device: "nd_Kind n \<in> {KindBlockDevice, KindCharDevice} \<Longrightarrow>
     archived v P G n 0 (metadataBytes [] n @ record_bytes TypeDevice
       (put64 (dv_Major (st_Rdev (nd_Stat n))) @ put64 (dv_Minor (st_Rdev (nd_Stat n)))))"
| arch_special: "nd_Kind n \<in> {KindFifo, KindSocket} \<Longrightarrow> archived v P G n 0 (metadataBytes [] n)"
| arch_nil: "archived_list v P G [] [] []"
| arch_cons: "archived v P G n x bs \<Longrightarrow> archived_list v P G ns es bs' \<Longrightarrow>
     archived_list v P G (n # ns) ((16 + length (nd_Name n) + 1 + length bs, x) # es)
       (record_bytes TypeFilename (nd_Name n @ [0]) @ bs @ bs')"

inductive_cases archived_listE: "archived_list v P G ns es bs"

lemmas archived_intros = arch_hardlink arch_dir arch_inline arch_ref arch_symlink arch_device
  arch_special arch_nil arch_cons

subsection \<open>The emitter writes such an encoding\<close>

lemma em_bind_ok:
  assumes "em_bind m f = (s', Inr y)"
  obtains s1 x where "m = (s1, Inr x)" "f s1 x = (s', Inr y)"
  using assms by (cases m; cases "snd m") auto

lemma em_write_ok:
  assumes "em_write s p = (s', Inr u)"
  shows "cn_advances (es_w s) (es_w s') p" "es_refs s' = es_refs s" "es_links s' = es_links s"
  using assms by (auto simp: em_write_def split: prod.splits option.splits intro: cn_write_advances)

lemma insertBST_length: "insertBST srt tree n e i = Some t \<Longrightarrow> length t = length tree"
proof (induction e arbitrary: srt tree n i t)
  case (Suc e)
  show ?case
  proof (cases "n = 0")
    case False
    obtain k k' t1 where "insertBST srt (tree[i := srt ! k]) k e (2 * i + 1) = Some t1"
        "insertBST (drop (k + 1) srt) t1 k' e (2 * i + 2) = Some t"
      using Suc.prems unfolding insertBST.simps Let_def if_not_P [OF False]
      by (simp only: split: if_split_asm option.split_asm) blast+
    then show ?thesis using Suc.IH by fastforce
  qed (use Suc.prems in simp)
qed (simp split: if_splits)

text \<open>
  The items of a directory whose first child starts at \<open>base\<close>, and the body of the goodbye record that
  holds them as a search tree, behind them the tail with the length of the record.
\<close>

fun gb_items :: "(bytes \<Rightarrow> u64) \<Rightarrow> u64 \<Rightarrow> Node list \<Rightarrow> (nat \<times> u64) list \<Rightarrow> GoodbyeItem list" where
  "gb_items H base (n # ns) ((l, x) # es) =
     \<lparr> gi_Hash = H (nd_Name n), gi_Start = base, gi_Length = of_nat l + x \<rparr> # gb_items H (base + of_nat l) ns es"
| "gb_items H base _ _ = []"

definition goodbye_body :: "GoodbyeItem list \<Rightarrow> u64 \<Rightarrow> u64 \<Rightarrow> bytes" where
  "goodbye_body tree gs tail = concat (map (goodbye_item_bytes gs) tree) @
     put64 GoodbyeTailMarker @ put64 tail @ put64 (SizeGoodbye (length tree))"

definition goodbye_of :: "(bytes \<Rightarrow> u64) \<Rightarrow> Node list \<Rightarrow> (nat \<times> u64) list \<Rightarrow> bytes \<Rightarrow> bool" where
  "goodbye_of H ns es g \<longleftrightarrow> (\<exists>base tree tail. permuteBST (sort_key gi_Hash (gb_items H base ns es)) = Some tree \<and>
     length tree = length (gb_items H base ns es) \<and>
     g = goodbye_body tree (base + of_nat (sum_list (map fst es))) tail)"

lemma AppendGoodbye_shape:
  assumes "AppendGoodbye dst items de gs = Some bs"
  shows "\<exists>tree. permuteBST (sort_key gi_Hash items) = Some tree \<and> length tree = length items \<and>
    bs = dst @ record_bytes TypeGoodbye (goodbye_body tree gs (gs - de)) \<and>
    length (goodbye_body tree gs (gs - de)) = 24 * (length items + 1)"
proof -
  obtain tree where t: "permuteBST (sort_key gi_Hash items) = Some tree"
    using assms by (auto simp: AppendGoodbye_def split: option.splits)
  then have l: "length tree = length items"
    unfolding permuteBST_def by (auto dest: insertBST_length)
  show ?thesis using assms t
    by (intro exI [of _ tree])
      (auto simp: goodbye_body_def AppendGoodbye_def SizeGoodbye_def HeaderSize_def appendHeader_def record_bytes_def
        goodbye_bytes_length l algebra_simps Let_def)
qed

text \<open>The records before the root: none in v1, the format version and the prelude in v2.\<close>

definition head_bytes :: "bool \<Rightarrow> bytes option \<Rightarrow> bytes" where
  "head_bytes v prelude = (if v then record_bytes TypeFormatVersion (put64 2) @
     (case prelude of None \<Rightarrow> [] | Some p \<Rightarrow> record_bytes TypePrelude p) else [])"

text \<open>The sizes that the references of a reader can carry, which no call of \<open>next\<close> changes.\<close>

definition ref_sizes :: "refReader \<Rightarrow> u64 set" where
  "ref_sizes r = pp_size ` set (rr_plan r) \<union> set (lg_sizes (rr_ledger r))"

abbreviation es_sizes :: "emst \<Rightarrow> u64 set option" where
  "es_sizes s \<equiv> map_option ref_sizes (es_refs s)"

lemma rr_next_sizes:
  assumes "rr_next r = (r', Inr (off, sz))"
  shows "sz \<in> ref_sizes r" "ref_sizes r' = ref_sizes r"
  using assms
  by (auto simp: rr_next_def ref_sizes_def ledger_get_def Let_def split: if_splits option.splits sum.splits)

context payload_contract
begin

definition sized :: "Node \<Rightarrow> bytes \<Rightarrow> bool" where
  "sized n c \<longleftrightarrow> (\<exists>p. ps_open S n = Inr p \<and> 0 \<le> sint (ps_Size S p) \<and> image p = c)"

text \<open>What stands for a file: its content in v1, a reference of one of the given sizes in v2.\<close>

definition holds :: "u64 set option \<Rightarrow> Node \<Rightarrow> bytes \<Rightarrow> bool" where
  "holds Z n c \<longleftrightarrow> (case Z of None \<Rightarrow> sized n c | Some sizes \<Rightarrow> \<exists>off sz. c = put64 off @ put64 sz \<and> sz \<in> sizes)"

lemma holds_None [simp]: "holds None = sized"
  by (intro ext) (simp add: holds_def)

lemma em_content_archived:
  assumes "em_content S n pl apath start s = (s', Inr x)"
    and "es_refs s = None \<Longrightarrow> \<exists>p. pl = Some p \<and> ps_open S n = Inr p"
    and "\<And>p. ps_open S n = Inr p \<Longrightarrow> 0 \<le> sint (ps_Size S p)"
    and "nd_Kind n \<in> {KindFile, KindStream}"
  shows "\<exists>c. cn_advances (es_w s) (es_w s') c \<and>
    archived (es_refs s \<noteq> None) (holds (es_sizes s)) G n x (metadataBytes [] n @ c) \<and> es_sizes s' = es_sizes s"
proof (cases "es_refs s")
  case None
  with assms(2) obtain p where p: "pl = Some p" "ps_open S n = Inr p" by auto
  from assms(1) None p obtain s1 w ws where w: "em_write s (AppendPayloadHeader [] (ps_Size S p)) = (s1, Inr ())"
      "ps_Copy S p (es_w s1) = (w, None, ws)" "es_w s' = w" "es_refs s' = es_refs s1" "x = 0"
    unfolding em_content_def
    by (auto elim!: em_bind_ok split: prod.splits option.splits if_splits sum.splits)
  define c where "c = image p"
  have c: "cn_advances (es_w s1) w c" unfolding c_def by (rule Copy_exact [OF w(2)])
  have sz: "0 \<le> sint (ps_Size S p)" using assms(3) p by blast
  have l: "(len64 c :: u64) = ps_Size S p" unfolding c_def by (rule image_len64 [OF sz])
  have lt: "length c < 2 ^ 63" unfolding c_def by (rule image_less)
  have h: "AppendPayloadHeader [] (ps_Size S p) @ c = record_bytes TypePayload c"
    by (simp add: AppendPayloadHeader_def appendHeader_def record_bytes_def SizePayload_def HeaderSize_def l)
  have "cn_advances (es_w s) (es_w s') (record_bytes TypePayload c)"
    using cn_advances_trans [OF em_write_ok(1) [OF w(1)] c] w(3) h by simp
  moreover have "archived False sized G n 0 (metadataBytes [] n @ record_bytes TypePayload c)"
    using assms(4) p(2) sz lt by (intro arch_inline) (auto simp: sized_def c_def)
  ultimately show ?thesis using None w(4,5) em_write_ok(2) [OF w(1)] by auto
next
  case (Some refs)
  obtain refs' off sz where rn: "rr_next refs = (refs', Inr (off, sz))"
  proof (cases "rr_next refs")
    case (Pair r' y)
    then show thesis using assms(1) Some that by (cases y) (auto simp: em_content_def)
  qed
  from assms(1) obtain s1 where
      w: "em_write (s\<lparr> es_refs := Some refs' \<rparr>) (AppendPayloadRef [] off sz) = (s1, Inr ())"
      "es_w s' = es_w s1" "es_refs s' = es_refs s1" "x = sz"
    unfolding em_content_def Some option.case rn prod.case sum.case
    by (auto elim!: em_bind_ok split: if_splits)
  note w = w rn
  have "archived True (holds (es_sizes s)) G n sz (metadataBytes [] n @ AppendPayloadRef [] off sz)"
    using assms(4) rr_next_sizes(1) [OF w(5)] Some by (auto simp: append_records holds_def intro!: arch_ref)
  then show ?thesis using em_write_ok [OF w(1)] w(2,3,4) rr_next_sizes(2) [OF w(5)] Some by auto
qed

definition node_emits :: "(bytes \<Rightarrow> u64) \<Rightarrow> Node \<Rightarrow> bool" where
  "node_emits H n \<longleftrightarrow> (\<forall>apath isRoot s s' x. em_node H S n apath isRoot s = (s', Inr x) \<longrightarrow>
     (\<exists>bs. cn_advances (es_w s) (es_w s')
          ((if isRoot then [] else record_bytes TypeFilename (nd_Name n @ [0])) @ bs) \<and>
        archived (es_refs s \<noteq> None) (holds (es_sizes s)) (goodbye_of H) n x bs \<and> es_sizes s' = es_sizes s))"

lemma node_emitsD:
  assumes "node_emits H n" "em_node H S n apath isRoot s = (s', Inr x)"
  obtains bs where "cn_advances (es_w s) (es_w s')
        ((if isRoot then [] else record_bytes TypeFilename (nd_Name n @ [0])) @ bs)"
    "archived (es_refs s \<noteq> None) (holds (es_sizes s)) (goodbye_of H) n x bs" "es_sizes s' = es_sizes s"
  using assms unfolding node_emits_def by blast

lemma em_children_emits:
  assumes "\<And>c. c \<in> set cs \<Longrightarrow> node_emits H c" "em_children H S cs apath items s = (s', Inr items')"
  shows "\<exists>bs es. cn_advances (es_w s) (es_w s') bs \<and>
     archived_list (es_refs s \<noteq> None) (holds (es_sizes s)) (goodbye_of H) cs es bs \<and>
     es_sizes s' = es_sizes s \<and> items' = items @ gb_items H (cn_pos (es_w s)) cs es \<and>
     length (gb_items H (cn_pos (es_w s)) cs es) = length cs \<and> length bs = sum_list (map fst es)"
  using assms
proof (induction cs arbitrary: items s)
  case Nil
  then show ?case by (intro exI [of _ "[]"]) (auto intro: arch_nil)
next
  case (Cons c cs)
  from Cons.prems(2) obtain s1 x where
      n: "em_node H S c (joinArchive apath (nd_Name c)) False s = (s1, Inr x)"
    and r: "em_children H S cs apath (items @ [\<lparr> gi_Hash = H (nd_Name c), gi_Start = cn_pos (es_w s),
         gi_Length = cn_pos (es_w s1) - cn_pos (es_w s) + x \<rparr>]) s1 = (s', Inr items')"
    by (auto simp: Let_def elim!: em_bind_ok)
  obtain b where b: "cn_advances (es_w s) (es_w s1) (record_bytes TypeFilename (nd_Name c @ [0]) @ b)"
      "archived (es_refs s \<noteq> None) (holds (es_sizes s)) (goodbye_of H) c x b" "es_sizes s1 = es_sizes s"
    using node_emitsD [OF Cons.prems(1) n] by force
  obtain b' es where b': "cn_advances (es_w s1) (es_w s') b'"
      "archived_list (es_refs s1 \<noteq> None) (holds (es_sizes s1)) (goodbye_of H) cs es b'"
      "es_sizes s' = es_sizes s1" "items' = (items @ [\<lparr> gi_Hash = H (nd_Name c), gi_Start = cn_pos (es_w s),
         gi_Length = cn_pos (es_w s1) - cn_pos (es_w s) + x \<rparr>]) @ gb_items H (cn_pos (es_w s1)) cs es"
      "length (gb_items H (cn_pos (es_w s1)) cs es) = length cs" "length b' = sum_list (map fst es)"
    using Cons.IH [OF _ r] Cons.prems(1) by auto
  have v: "(es_refs s1 \<noteq> None) = (es_refs s \<noteq> None)" using b(3) by (metis option.map_disc_iff)
  have pos: "cn_pos (es_w s1) = cn_pos (es_w s) + of_nat (16 + length (nd_Name c) + 1 + length b)"
    using b(1) by (simp add: cn_advances_def ac_simps)
  let ?l = "16 + length (nd_Name c) + 1 + length b"
  have "items' = items @ gb_items H (cn_pos (es_w s)) (c # cs) ((?l, x) # es)"
    unfolding b'(4) gb_items.simps pos by simp
  moreover have "length (gb_items H (cn_pos (es_w s)) (c # cs) ((?l, x) # es)) = length (c # cs)"
    unfolding gb_items.simps pos [symmetric] using b'(5) by simp
  ultimately show ?case
    using cn_advances_trans [OF b(1) b'(1)] arch_cons [OF b(2) b'(2) [unfolded v b(3)]] b'(3,6) b(3)
    by (intro exI [of _ "record_bytes TypeFilename (nd_Name c @ [0]) @ b @ b'"] exI [of _ "(?l, x) # es"]) auto
qed

lemma em_node_emits:
  assumes "\<And>m p. m \<in> set (nodes_of n) \<Longrightarrow> ps_open S m = Inr p \<Longrightarrow> 0 \<le> sint (ps_Size S p)"
  shows "node_emits H n"
  using assms
proof (induction n rule: measure_induct_rule [of size])
  case (less n)
  have kids: "node_emits H c" if "c \<in> set (nd_Children n)" for c
    using less.IH [OF size_child [OF that]] less.prems nodes_of_child [OF that] by blast
  show ?case unfolding node_emits_def
  proof (intro allI impI)
    fix apath isRoot s s' x
    let ?fn = "if isRoot then [] else record_bytes TypeFilename (nd_Name n @ [0])"
    assume em: "em_node H S n apath isRoot s = (s', Inr x)"
    then obtain s1 where s1: "(if isRoot then (s, Inr ()) else em_write s (AppendFilename [] (nd_Name n))) = (s1, Inr ())"
      unfolding em_node.simps [of H S n] Let_def by (auto elim!: em_bind_ok)
    have a1: "cn_advances (es_w s) (es_w s1) ?fn" "es_refs s1 = es_refs s"
      using s1 by (auto split: if_splits simp: append_records dest: em_write_ok)
    note em1 = em [unfolded em_node.simps [of H S n] Let_def s1, simplified]
    show "\<exists>bs. cn_advances (es_w s) (es_w s') (?fn @ bs) \<and>
        archived (es_refs s \<noteq> None) (holds (es_sizes s)) (goodbye_of H) n x bs \<and> es_sizes s' = es_sizes s"
    proof (cases "nd_Kind n = KindHardlink")
      case True
      then obtain off where w: "em_write s1 (AppendHardlink [] off (nd_LinkTarget n)) = (s', Inr ())" "x = 0"
        using em1 by (auto split: option.splits elim!: em_bind_ok)
      then show ?thesis
        using cn_advances_trans [OF a1(1) em_write_ok(1) [OF w(1)]] em_write_ok(2) [OF w(1)] a1(2)
          arch_hardlink [OF True, of "es_refs s \<noteq> None" "holds (es_sizes s)" "goodbye_of H" off]
        by (intro exI [of _ "AppendHardlink [] off (nd_LinkTarget n)"]) (simp add: append_records)
    next
      case False
      then obtain s2 pl s3 where s2: "em_open S n s1 = (s2, Inr pl)"
        and s3: "em_write s2 (metadataBytes [] n) = (s3, Inr ())"
        using em1 by (auto elim!: em_bind_ok)
      have o: "s2 = s1" "nd_Kind n \<in> {KindFile, KindStream} \<Longrightarrow> es_refs s1 = None \<Longrightarrow>
          \<exists>p. pl = Some p \<and> ps_open S n = Inr p"
        using s2 by (auto simp: em_open_def split: if_splits sum.splits)
      note em3 = em1 [unfolded if_not_P [OF False] s2, simplified, unfolded s3, simplified]
      have a3: "cn_advances (es_w s) (es_w s3) (?fn @ metadataBytes [] n)" "es_refs s3 = es_refs s"
        using cn_advances_trans [OF a1(1) em_write_ok(1) [OF s3 [unfolded o(1)]]]
          em_write_ok(2) [OF s3] o(1) a1(2) by simp_all
      have fin: ?thesis if "cn_advances (es_w s3) (es_w s') c"
          "archived (es_refs s \<noteq> None) (holds (es_sizes s)) (goodbye_of H) n x (metadataBytes [] n @ c)"
          "es_sizes s' = es_sizes s3" for c
        using cn_advances_trans [OF a3(1) that(1)] that(2,3) a3(2)
        by (intro exI [of _ "metadataBytes [] n @ c"]) simp
      consider (dir) "nd_Kind n = KindDirectory" | (reg) "nd_Kind n \<in> {KindFile, KindStream}"
        | (sym) "nd_Kind n = KindSymlink" | (dev) "nd_Kind n \<in> {KindBlockDevice, KindCharDevice}"
        | (spec) "nd_Kind n \<in> {KindFifo, KindSocket}" | (other) k where "nd_Kind n = KindOther k"
        using False by (cases "nd_Kind n") auto
      then show ?thesis
      proof cases
        case dir
        then obtain s4 items bs where s4: "em_children H S (nd_Children n) apath [] s3 = (s4, Inr items)"
            "AppendGoodbye [] items (if isRoot then 0 else cn_pos (es_w s1)) (cn_pos (es_w s4)) = Some bs"
            "em_write s4 bs = (s', Inr ())" "x = 0"
          using em3 o(1) by (auto split: option.splits elim!: em_bind_ok)
        obtain b es where b: "cn_advances (es_w s3) (es_w s4) b"
            "archived_list (es_refs s3 \<noteq> None) (holds (es_sizes s3)) (goodbye_of H) (nd_Children n) es b"
            "es_sizes s4 = es_sizes s3" "items = gb_items H (cn_pos (es_w s3)) (nd_Children n) es"
            "length items = length (nd_Children n)" "length b = sum_list (map fst es)"
          using em_children_emits [OF kids s4(1)] by auto
        have pos: "cn_pos (es_w s4) = cn_pos (es_w s3) + of_nat (sum_list (map fst es))"
          using b(1) by (simp add: cn_advances_def b(6) [symmetric])
        obtain g where g: "bs = record_bytes TypeGoodbye g" "length g = 24 * (length items + 1)"
            "goodbye_of H (nd_Children n) es g"
          using AppendGoodbye_shape [OF s4(2)] unfolding goodbye_of_def pos b(4) by auto
        have "archived (es_refs s \<noteq> None) (holds (es_sizes s)) (goodbye_of H) n 0 (metadataBytes [] n @ b @ bs)"
          unfolding g(1) by (rule arch_dir [OF dir]) (use b(2,5) g(2,3) a3(2) in simp_all)
        then show ?thesis
          using fin [OF cn_advances_trans [OF b(1) em_write_ok(1) [OF s4(3)]]] b(3) s4(4)
            em_write_ok(2) [OF s4(3)] a3(2) by simp
      next
        case reg
        then have c: "em_content S n pl apath (cn_pos (es_w s)) s3 = (s', Inr x)" using em3 by auto
        have "\<exists>c. cn_advances (es_w s3) (es_w s') c \<and>
            archived (es_refs s3 \<noteq> None) (holds (es_sizes s3)) (goodbye_of H) n x (metadataBytes [] n @ c) \<and>
            es_sizes s' = es_sizes s3"
          by (rule em_content_archived [OF c]) (use o(2) reg a3(2) a1(2) less.prems [OF nodes_of_self] in auto)
        then show ?thesis unfolding a3(2) using fin a3(2) by metis
      next
        case sym
        then have w: "em_write s3 (AppendSymlink [] (nd_LinkTarget n)) = (s', Inr ())" "x = 0"
          using em3 by (auto elim!: em_bind_ok)
        from em_write_ok [OF w(1)] w(2) show ?thesis
          by (intro fin) (auto simp: append_records intro: arch_symlink [OF sym])
      next
        case dev
        then have w: "em_write s3 (AppendDevice [] (st_Rdev (nd_Stat n))) = (s', Inr ())" "x = 0"
          using em3 by (auto elim!: em_bind_ok)
        from em_write_ok [OF w(1)] w(2) show ?thesis
          by (intro fin) (auto simp: append_records intro: arch_device [OF dev])
      next
        case spec
        then have "s' = s3" "x = 0" using em3 by auto
        then show ?thesis using fin [of "[]"] arch_special [OF spec] by simp
      next
        case other
        then show ?thesis using em3 by simp
      qed
    qed
  qed
qed

lemma em_run_archived:
  assumes "em_run H S prelude root s = (s', Inr ())"
    and "\<And>m p. m \<in> set (nodes_of root) \<Longrightarrow> ps_open S m = Inr p \<Longrightarrow> 0 \<le> sint (ps_Size S p)"
  shows "\<exists>bs x. cn_advances (es_w s) (es_w s') (head_bytes (es_refs s \<noteq> None) prelude @ bs) \<and>
    archived (es_refs s \<noteq> None) (holds (es_sizes s)) (goodbye_of H) root x bs"
proof -
  let ?s = "s\<lparr> es_links := Map.empty \<rparr>"
  obtain s1 x where s1: "cn_advances (es_w s) (es_w s1) (head_bytes (es_refs s \<noteq> None) prelude)"
      "es_sizes s1 = es_sizes s" and n: "em_node H S root [] True s1 = (s', Inr x)"
  proof (cases "es_refs s = None")
    case True
    then show thesis using assms(1) that [of ?s]
      by (auto simp: em_run_def head_bytes_def Let_def elim!: em_bind_ok)
  next
    case False
    then obtain s0 s1 x where s0: "em_write ?s (AppendFormatVersion [] 2) = (s0, Inr ())"
        "(case prelude of None \<Rightarrow> (s0, Inr ()) | Some p \<Rightarrow> em_write s0 (AppendPrelude [] p)) = (s1, Inr ())"
        "em_node H S root [] True s1 = (s', Inr x)"
      using assms(1) by (auto simp: em_run_def Let_def elim!: em_bind_ok)
    show thesis
    proof (rule that [of s1 x])
      show "cn_advances (es_w s) (es_w s1) (head_bytes (es_refs s \<noteq> None) prelude)"
        using em_write_ok(1) [OF s0(1)] s0(2) False
        by (cases prelude) (auto simp: head_bytes_def append_records dest: em_write_ok intro: cn_advances_trans)
      show "es_sizes s1 = es_sizes s"
        using em_write_ok(2) [OF s0(1)] s0(2) by (cases prelude) (auto dest: em_write_ok)
    qed (rule s0(3))
  qed
  have "node_emits H root" by (rule em_node_emits) (rule assms(2))
  then obtain bs where bs: "cn_advances (es_w s1) (es_w s') bs"
      "archived (es_refs s1 \<noteq> None) (holds (es_sizes s1)) (goodbye_of H) root x bs"
    by (rule node_emitsD [OF _ n]) simp
  have "(es_refs s1 \<noteq> None) = (es_refs s \<noteq> None)" using s1(2) by (metis option.map_disc_iff)
  then show ?thesis using cn_advances_trans [OF s1(1) bs(1)] bs(2) unfolding s1(2) by (intro exI conjI) simp_all
qed

end

subsection \<open>Estimates are exact\<close>

lemma estimateV1_False: "estimateV1 n False = SizeFilename (nd_Name n) + estimateV1 n True"
  by (simp add: estimateV1.simps [of n] Let_def)

lemma len64_record: "(len64 (record_bytes t b) :: u64) = 16 + len64 b"
  by simp

lemma estimateV1_leaf: "nd_Kind n \<noteq> KindDirectory \<Longrightarrow> estimateV1 n True =
   (if nd_Kind n = KindHardlink then SizeHardlink (nd_LinkTarget n)
    else sizeMetadata n +
      (if nd_Kind n \<in> {KindFile, KindStream} then SizePayload (st_Size (nd_Stat n))
       else if nd_Kind n = KindSymlink then SizeSymlink (nd_LinkTarget n)
       else if nd_Kind n \<in> {KindBlockDevice, KindCharDevice} then DeviceSize else 0))"
  by (cases "nd_Kind n") (simp_all add: estimateV1.simps [of n])

lemma estimateV2_leaf: "nd_Kind n \<noteq> KindDirectory \<Longrightarrow> fst (estimateV2 n True) = FormatVersionSize +
   (if nd_Kind n = KindHardlink then SizeHardlink (nd_LinkTarget n)
    else sizeMetadata n +
      (if nd_Kind n \<in> {KindFile, KindStream} then PayloadRefSize
       else if nd_Kind n = KindSymlink then SizeSymlink (nd_LinkTarget n)
       else if nd_Kind n \<in> {KindBlockDevice, KindCharDevice} then DeviceSize else 0))"
  by (cases "nd_Kind n") (simp_all add: estimateV2.simps [of n])

lemma archived_estimateV1:
  "archived v P G n x bs \<Longrightarrow> \<not> v \<Longrightarrow> \<forall>m \<in> set (nodes_of n). \<forall>c. P m c \<longrightarrow> len64 c = st_Size (nd_Stat m)
     \<Longrightarrow> len64 bs = estimateV1 n True"
  "archived_list v P G ns es bs \<Longrightarrow> \<not> v \<Longrightarrow>
     \<forall>n \<in> set ns. \<forall>m \<in> set (nodes_of n). \<forall>c. P m c \<longrightarrow> len64 c = st_Size (nd_Stat m)
     \<Longrightarrow> len64 bs = sum_list (map (\<lambda>c. estimateV1 c False) ns)"
proof (induction rule: archived_archived_list.inducts)
  case (arch_dir n es bs g)
  have "\<forall>c \<in> set (nd_Children n). \<forall>m \<in> set (nodes_of c). \<forall>c. P m c \<longrightarrow> len64 c = st_Size (nd_Stat m)"
    using arch_dir.prems(2) nodes_of_child by blast
  with arch_dir show ?case
    by (simp add: estimateV1.simps [of n] metadata_length [symmetric] SizeGoodbye_def HeaderSize_def algebra_simps)
next
  case (arch_inline n content)
  then have "st_Size (nd_Stat n) = len64 content" using nodes_of_self by fastforce
  with arch_inline show ?case
    by (auto simp: estimateV1.simps [of n] metadata_length [symmetric] SizePayload_def HeaderSize_def)
next
  case (arch_cons n x bs ns es bs')
  then show ?case by (simp add: estimateV1_False SizeFilename_def HeaderSize_def)
qed (auto simp: estimateV1_leaf metadata_length [symmetric] pxar_sizes)

lemma estimateV2_False: "fst (estimateV2 n False) + FormatVersionSize = SizeFilename (nd_Name n) + fst (estimateV2 n True)"
  by (simp add: estimateV2.simps [of n] Let_def algebra_simps split: Kind.split)

lemma archived_estimateV2:
  "archived v P G n x bs \<Longrightarrow> v \<Longrightarrow> FormatVersionSize + len64 bs = fst (estimateV2 n True)"
  "archived_list v P G ns es bs \<Longrightarrow> v \<Longrightarrow> len64 bs = sum_list (map (\<lambda>c. fst (estimateV2 c False)) ns)"
proof (induction rule: archived_archived_list.inducts)
  case (arch_dir n es bs g)
  then show ?case
    by (simp add: estimateV2.simps [of n] metadata_length [symmetric] SizeGoodbye_def HeaderSize_def
        comp_def Let_def algebra_simps)
next
  case (arch_cons n x bs ns es bs')
  have "fst (estimateV2 n False) + FormatVersionSize = (SizeFilename (nd_Name n) + len64 bs) + FormatVersionSize"
    unfolding estimateV2_False arch_cons.IH(2) [OF arch_cons.prems, symmetric] by (simp only: ac_simps)
  then have "fst (estimateV2 n False) = SizeFilename (nd_Name n) + len64 bs" by (rule add_right_imp_eq)
  with arch_cons show ?case by (simp add: SizeFilename_def HeaderSize_def)
qed (auto simp: estimateV2_leaf metadata_length [symmetric] pxar_sizes)

lemma new_emitter_advances:
  assumes "cn_advances (es_w (new_emitter ctx room refs)) w p"
  shows "cn_out w = p \<and> cn_pos w = len64 p"
  using assms by (cases "cn_w w") (auto simp: cn_advances_def new_emitter_def cn_out_def)

text \<open>A tree with one stream of two bytes, and an operating system without files.\<close>

definition example_tree :: Node where
  "example_tree = Node (str ''root'') [] KindDirectory (zero_stat\<lparr> st_Mode := ModeDir OR 0x1FF \<rparr>) [] [] None [] 0
     [Node (str ''a'') [] KindStream (zero_stat\<lparr> st_Mode := ModeRegular OR 0x1A4, st_Size := 2 \<rparr>)
        [] [] None [] 0 [] (Some [([5, 6], REof)])] None"

definition no_files :: os_open where
  "no_files path = Inl ''no such file''"

lemma cn_write_free: "cn_write \<lparr> cn_ctx = None, cn_w = Plain \<lparr> sk_room = None, sk_out = o' \<rparr>, cn_pos = p' \<rparr> bs =
    (\<lparr> cn_ctx = None, cn_w = Plain \<lparr> sk_room = None, sk_out = o' @ bs \<rparr>, cn_pos = p' + len64 bs \<rparr>, None)"
  by (simp add: cn_write_def cn_Write_def sink_write_None)

lemma example_emits:
  "\<exists>s'. em_run (\<lambda>_. 7) (syncSource no_files) None example_tree (new_emitter None None None) = (s', Inr ())"
  by (simp add: em_run_def example_tree_def new_emitter_def em_node.simps em_write_def cn_write_free
      em_open_def syncSource_def syncSource_open_def em_content_def streamPayload_Copy_def
      copyExactly_def copy_loop.simps pad_loop.simps copyChunk_def AppendGoodbye_def permuteBST_def
      Len64.simps zero_stat_def Let_def del: append_assoc)

lemma example_nodes: "set (nodes_of example_tree) = {example_tree, hd (nd_Children example_tree)}"
  by (simp add: example_tree_def nodes_of.simps)

lemma example_opens:
  "\<forall>n \<in> set (nodes_of example_tree). \<forall>p. syncSource_open no_files n = Inr p \<longrightarrow>
     0 \<le> sint (payload_Size p) \<and> payload_Size p = st_Size (nd_Stat n)"
  unfolding example_nodes by (auto simp: example_tree_def syncSource_open_def no_files_def zero_stat_def)

definition example_refs :: refReader where
  "example_refs = newRefReader \<lparr> lg_sizes = [2], lg_err = None \<rparr>
     [\<lparr> pp_node = hd (nd_Children example_tree), pp_reuse = False, pp_rel = 0, pp_size = 0, pp_inject = None,
        pp_runEnd = False, pp_runTotal = 0, pp_readSeq = 0 \<rparr>]"

lemma example_emits_v2:
  "\<exists>s'. em_run (\<lambda>_. 7) (syncSource no_files) (Some [1]) example_tree (new_emitter None None (Some example_refs)) = (s', Inr ())"
  by (simp add: em_run_def example_tree_def example_refs_def newRefReader_def new_emitter_def em_node.simps
      em_write_def cn_write_free em_open_def em_content_def rr_next_def ledger_get_def AppendGoodbye_def
      permuteBST_def Len64.simps zero_stat_def Let_def del: append_assoc)

subsection \<open>Properties\<close>

text \<open>
  C24: the v1 estimate is exact.  When the files bound at emission have their scan-time sizes, an
  emission that succeeds, whatever its context and sink, has written exactly as many bytes as
  \<open>estimateV1\<close> says, modulo 2^64 as in the code, and the writer's position agrees.
\<close>

theorem estimate_v1_exact:
  assumes "em_run H (syncSource os) prelude root (new_emitter ctx room None) = (s', Inr ())"
    and "\<forall>n \<in> set (nodes_of root). \<forall>p. syncSource_open os n = Inr p \<longrightarrow>
      0 \<le> sint (payload_Size p) \<and> payload_Size p = st_Size (nd_Stat n)"
  shows "len64 (em_out s') = estimateV1 root True \<and> cn_pos (es_w s') = estimateV1 root True"
proof -
  have sz: "0 \<le> sint (ps_Size (syncSource os) p) \<and> ps_Size (syncSource os) p = st_Size (nd_Stat m)"
    if "m \<in> set (nodes_of root)" "ps_open (syncSource os) m = Inr p" for m p
    using assms(2) [rule_format, of m p] that unfolding syncSource_def by simp metis
  have sz': "0 \<le> sint (ps_Size (syncSource os) p)"
    if "m \<in> set (nodes_of root)" "ps_open (syncSource os) m = Inr p" for m p
    using sz [OF that] ..
  obtain bs x where bs: "cn_advances (es_w (new_emitter ctx room None)) (es_w s') bs"
      "archived False (sync.sized os) (goodbye_of H) root x bs"
    using sync.em_run_archived [OF assms(1)] sz' by (auto simp: head_bytes_def new_emitter_def)
  have "\<forall>m \<in> set (nodes_of root). \<forall>c. sync.sized os m c \<longrightarrow> len64 c = st_Size (nd_Stat m)"
    using sz sync.image_len64 unfolding sync.sized_def by metis
  then have "len64 bs = estimateV1 root True" using archived_estimateV1(1) [OF bs(2)] by simp
  then show ?thesis using new_emitter_advances [OF bs(1)] by simp
qed

theorem estimate_v1_exact_witness:
  "\<exists>s'. em_run (\<lambda>_. 7) (syncSource no_files) None example_tree (new_emitter None None None) = (s', Inr ()) \<and>
     len64 (em_out s') = estimateV1 example_tree True"
  using example_emits estimate_v1_exact [OF _ example_opens] by blast

text \<open>
  the v2 metadata estimate is exact: the metadata stream, whatever sizes the references carry,
  has the length \<open>estimateV2\<close> says plus the prelude record that \<open>EstimatedSizeV2\<close> adds.
\<close>

theorem estimate_v2_meta_exact:
  assumes "em_run H (syncSource os) prelude root (new_emitter ctx room (Some refs)) = (s', Inr ())"
    and "\<forall>n \<in> set (nodes_of root). \<forall>p. syncSource_open os n = Inr p \<longrightarrow> 0 \<le> sint (payload_Size p)"
  shows "len64 (em_out s') =
    fst (estimateV2 root True) + (case prelude of None \<Rightarrow> 0 | Some p \<Rightarrow> SizePrelude p)"
proof -
  have sz: "0 \<le> sint (ps_Size (syncSource os) p)"
    if "m \<in> set (nodes_of root)" "ps_open (syncSource os) m = Inr p" for m p
    using assms(2) that by (auto simp: syncSource_def)
  obtain bs x where bs: "cn_advances (es_w (new_emitter ctx room (Some refs))) (es_w s') (head_bytes True prelude @ bs)"
      "archived True (sync.holds os (Some (ref_sizes refs))) (goodbye_of H) root x bs"
    using sync.em_run_archived [OF assms(1)] sz by (auto simp: new_emitter_def)
  have "FormatVersionSize + len64 bs = fst (estimateV2 root True)"
    using archived_estimateV2(1) [OF bs(2)] by simp
  then show ?thesis using new_emitter_advances [OF bs(1)]
    by (auto simp: head_bytes_def pxar_sizes algebra_simps split: option.splits)
qed

theorem estimate_v2_meta_exact_witness:
  "\<exists>s'. em_run (\<lambda>_. 7) (syncSource no_files) (Some [1]) example_tree (new_emitter None None (Some example_refs)) = (s', Inr ())
     \<and> len64 (em_out s') = fst (estimateV2 example_tree True) + SizePrelude [1]"
  using example_emits_v2 example_opens estimate_v2_meta_exact [of "\<lambda>_. 7" no_files "Some [1]" example_tree None None example_refs]
  by fastforce

end
