(* ===== verification/Roundtrip.thy ===== *)
theory Roundtrip
  imports Image Pxar_Reader
begin

unbundle bit_operations_syntax

text \<open>
  Reading back what the emitter wrote.  For every tree the format can hold (\<open>tree_ok\<close>: valid names
  and targets, mode bits that agree with the kinds, records within the reader's limits, nesting of at
  most 2048), any encoding in the sense of \<open>archived\<close> is read by the pxar reader as the nodes of the
  tree in preorder, each with its path, stat data, extended attributes, access control lists and link
  target, and then the end of the archive.  The proof follows the reader's loop: \<open>yields\<close> chains the
  results of successive \<open>next\<close> calls.
\<close>

subsection \<open>Settled reader states\<close>

definition rst :: "bool \<Rightarrow> bool \<Rightarrow> bytes \<Rightarrow> bytes list \<Rightarrow> u64 \<Rightarrow> u64 \<Rightarrow> u64 \<Rightarrow> Reader_px" where
  "rst v km inp dirs pos t l = \<lparr> pr_in = inp, pr_ioerr = None, pr_payload = None,
     pr_version = (if v then 2 else 1), pr_keepMeta = km, pr_started = True, pr_checked = False,
     pr_dirs = dirs, pr_pos = pos, pr_have = False, pr_typ = t, pr_length = l,
     pr_content = NoContent, pr_left = 0, pr_inline = False, pr_err = None \<rparr>"

definition pkd :: "bool \<Rightarrow> bool \<Rightarrow> bytes \<Rightarrow> bytes list \<Rightarrow> u64 \<Rightarrow> u64 \<Rightarrow> u64 \<Rightarrow> Reader_px" where
  "pkd v km inp dirs pos t l = (rst v km inp dirs pos t l)\<lparr> pr_have := True \<rparr>"

lemma rst_simps [simp]:
  "pr_in (rst v km inp dirs pos t l) = inp" "pr_dirs (rst v km inp dirs pos t l) = dirs"
  "pr_err (rst v km inp dirs pos t l) = None" "pr_keepMeta (rst v km inp dirs pos t l) = km"
  "pr_in (pkd v km inp dirs pos t l) = inp" "pr_dirs (pkd v km inp dirs pos t l) = dirs"
  "pr_err (pkd v km inp dirs pos t l) = None" "pr_keepMeta (pkd v km inp dirs pos t l) = km"
  by (simp_all add: rst_def pkd_def)

lemma peek_record:
  assumes "length b < 2 ^ 63"
  shows "px_peek (rst v km (record_bytes t b @ r) ds pos t0 l0) =
    (pkd v km (b @ r) ds pos t (16 + len64 b), Inr (t, 16 + len64 b))"
proof -
  have "\<not> 16 + len64 b < (16 :: u64)"
  proof -
    have "unat (16 + len64 b :: u64) = 16 + length b"
      using assms u64_small [of "16 + length b"] by simp
    then show ?thesis by (simp add: word_less_nat_alt)
  qed
  then show ?thesis
    by (simp add: px_peek_def in_full_def rst_def pkd_def record_bytes_def HeaderSize_def)
qed

lemma peek_peeked: "px_peek (pkd v km inp ds pos t l) = (pkd v km inp ds pos t l, Inr (t, l))"
  by (simp add: px_peek_def pkd_def rst_def)

lemma body_record:
  assumes "length b \<le> 2 ^ 20"
  shows "px_body (pkd v km (b @ r) ds pos t (16 + len64 b)) (16 + len64 b) =
    (rst v km r ds (pos + (16 + len64 b)) t (16 + len64 b), Inr b)"
proof -
  have u: "unat (len64 b :: u64) = length b" using assms by (intro u64_len) simp
  then have "\<not> maxRecordBody < len64 b" using assms by (simp add: word_less_nat_alt maxRecordBody_def)
  then show ?thesis
    by (simp add: px_body_def in_full_def rst_def pkd_def HeaderSize_def u Let_def)
qed

text \<open>A record header that the reader accepts stands at the front.\<close>

definition peekable :: "bytes \<Rightarrow> bool" where
  "peekable inp \<longleftrightarrow> (\<exists>t b r. inp = record_bytes t b @ r \<and> length b < 2 ^ 63 \<and> metadataRecord t = None)"

lemma peekableE:
  assumes "peekable inp"
  obtains t b r where "inp = record_bytes t b @ r" "length b < 2 ^ 63" "metadataRecord t = None"
  using assms unfolding peekable_def by blast

lemma loop_peeked:
  assumes "px_peek s = (s', Inr x)"
  shows "px_loop s (d # ds) = px_loop s' (d # ds)"
proof -
  have "px_peek s' = (s', Inr x)"
    using assms by (auto simp: px_peek_def Let_def split: if_splits prod.splits full.splits)
  then show ?thesis using assms by simp
qed

subsection \<open>Metadata\<close>

fun meta_fold :: "bool \<Rightarrow> (u64 \<times> bytes) list \<Rightarrow> PNode \<Rightarrow> pxar_error + PNode" where
  "meta_fold km [] n = Inr n"
| "meta_fold km ((t, b) # rs) n =
     (case meta_field (if km then n\<lparr> pn_meta := pn_meta n @ record_bytes t b \<rparr> else n) t b of
        Inl e \<Rightarrow> Inl e
      | Inr n' \<Rightarrow> meta_fold km rs n')"

definition meta_ok :: "u64 \<times> bytes \<Rightarrow> bool" where
  "meta_ok tb \<longleftrightarrow> length (snd tb) \<le> 2 ^ 20 \<and>
     (\<exists>w. metadataRecord (fst tb) = Some w \<and> (w = 0 \<or> w = 16 + len64 (snd tb)))"

lemma keep_record: "px_keep r n t b =
    (if pr_keepMeta r then n\<lparr> pn_meta := pn_meta n @ record_bytes t b \<rparr> else n)"
  by (simp add: px_keep_def appendHeader_def record_bytes_def HeaderSize_def)

lemma metadata_fold:
  assumes "list_all meta_ok rs" "meta_fold km rs n = Inr n'"
  shows "\<exists>t' l'. px_metadata (rst v km (records_bytes rs @ r) ds pos t l) n =
    px_metadata (rst v km r ds (pos + len64 (records_bytes rs)) t' l') n'"
  using assms
proof (induction rs arbitrary: n pos t l)
  case (Cons tb rs)
  obtain ty b where tb: "tb = (ty, b)" by fastforce
  from Cons.prems tb obtain w where w: "metadataRecord ty = Some w" "w = 0 \<or> w = 16 + len64 b"
      "length b \<le> 2 ^ 20" by (auto simp: meta_ok_def)
  let ?n = "if km then n\<lparr> pn_meta := pn_meta n @ record_bytes ty b \<rparr> else n"
  obtain n1 where n1: "meta_field ?n ty b = Inr n1" "meta_fold km rs n1 = Inr n'"
    using Cons.prems(2) tb by (auto split: sum.splits)
  let ?l = "16 + len64 b"
  define X where "X = records_bytes rs @ r"
  have pk: "px_peek (rst v km (record_bytes ty b @ X) ds pos t l) = (pkd v km (b @ X) ds pos ty ?l, Inr (ty, ?l))"
    by (rule peek_record) (use w(3) in simp)
  have kp: "px_keep (rst v km X ds p ty ?l) n ty b = ?n" for p by (simp add: keep_record)
  have "px_metadata (rst v km (record_bytes ty b @ X) ds pos t l) n =
      px_metadata (rst v km X ds (pos + ?l) ty ?l) n1"
    unfolding px_metadata.simps [of "rst v km (record_bytes ty b @ X) ds pos t l" n] pk
    using w(1,2) by (auto simp only: body_record [OF w(3)] kp n1(1) prod.case sum.case option.case if_True if_False simp_thms)
  then have "px_metadata (rst v km (records_bytes (tb # rs) @ r) ds pos t l) n =
      px_metadata (rst v km (records_bytes rs @ r) ds (pos + ?l) ty ?l) n1"
    by (simp add: X_def tb)
  moreover obtain t' l' where "px_metadata (rst v km (records_bytes rs @ r) ds (pos + ?l) ty ?l) n1 =
      px_metadata (rst v km r ds (pos + ?l + len64 (records_bytes rs)) t' l') n'"
    using Cons.IH [OF _ n1(2), of "pos + ?l" ty ?l] Cons.prems(1) by auto
  ultimately show ?case by (auto simp: tb add.assoc intro!: exI)
qed auto

lemma metadata_end:
  assumes "length b < 2 ^ 63" "metadataRecord t = None"
  shows "px_metadata (rst v km (record_bytes t b @ r) ds pos t0 l0) n =
    (pkd v km (b @ r) ds pos t (16 + len64 b), Inr (n, t, 16 + len64 b))"
  using assms peek_record [OF assms(1)] by (subst px_metadata.simps) simp

text \<open>What the fold over the records of a node leaves in the reader's node.\<close>

lemma meta_fold_append:
  "meta_fold km (rs @ rs') n = (case meta_fold km rs n of Inl e \<Rightarrow> Inl e | Inr n' \<Rightarrow> meta_fold km rs' n')"
  by (induction km rs n rule: meta_fold.induct) (auto split: sum.splits)

abbreviation addm :: "bool \<Rightarrow> (u64 \<times> bytes) list \<Rightarrow> PNode \<Rightarrow> PNode" where
  "addm km rs n \<equiv> n\<lparr> pn_meta := pn_meta n @ (if km then records_bytes rs else []) \<rparr>"

definition xattr_ok :: "Xattr \<Rightarrow> bool" where
  "xattr_ok x \<longleftrightarrow> xa_Name x \<noteq> [] \<and> 0 \<notin> set (xa_Name x) \<and> length (xa_Name x) + 1 + length (xa_Value x) \<le> 2 ^ 20"

lemma takeWhile_nul: "0 \<notin> set (xs :: bytes) \<Longrightarrow> takeWhile (\<lambda>b. b \<noteq> 0) (xs @ 0 # ys) = xs"
  "0 \<notin> set (xs :: bytes) \<Longrightarrow> dropWhile (\<lambda>b. b \<noteq> 0) (xs @ 0 # ys) = 0 # ys"
  by (induction xs) auto

lemma fold_xattrs:
  "list_all xattr_ok xs \<Longrightarrow>
     meta_fold km (map (\<lambda>x. (TypeXAttr, xa_Name x @ 0 # xa_Value x)) xs) n =
     Inr ((addm km (map (\<lambda>x. (TypeXAttr, xa_Name x @ 0 # xa_Value x)) xs) n)\<lparr> pn_Xattrs := pn_Xattrs n @ xs \<rparr>)"
proof (induction xs arbitrary: n)
  case (Cons x xs)
  then have "xa_Name x \<noteq> []" "0 \<notin> set (xa_Name x)" by (auto simp: xattr_ok_def)
  then have f: "meta_field m TypeXAttr (xa_Name x @ 0 # xa_Value x) = Inr (m\<lparr> pn_Xattrs := pn_Xattrs m @ [x] \<rparr>)" for m
    by (cases "xa_Name x"; cases x) (auto simp: meta_field_def takeWhile_nul)
  show ?case using Cons by (simp add: f)
qed simp

text \<open>Access control records extend the list built so far; \<open>f\<close> is what they do to it.\<close>

definition acl_to :: "bool \<Rightarrow> (u64 \<times> bytes) list \<Rightarrow> (ACLs \<Rightarrow> ACLs) \<Rightarrow> PNode \<Rightarrow> PNode \<Rightarrow> bool" where
  "acl_to km rs f n n' \<longleftrightarrow> meta_fold km rs n = Inr n' \<and>
     n'\<lparr> pn_ACL := None \<rparr> = (addm km rs n)\<lparr> pn_ACL := None \<rparr> \<and> node_acl n' = f (node_acl n) \<and>
     (pn_ACL n' = None \<longleftrightarrow> pn_ACL n = None \<and> rs = [])"

definition acl_step :: "bool \<Rightarrow> (u64 \<times> bytes) list \<Rightarrow> (ACLs \<Rightarrow> ACLs) \<Rightarrow> bool" where
  "acl_step km rs f \<longleftrightarrow> (\<forall>n. \<exists>n'. acl_to km rs f n n')"

lemma acl_step_nil: "acl_step km [] (\<lambda>a. a)"
  by (simp add: acl_step_def acl_to_def)

lemma acl_to_trans:
  assumes n1: "acl_to km rs f n n1" and n2: "acl_to km rs' g n1 n2"
  shows "acl_to km (rs @ rs') (\<lambda>a. g (f a)) n n2"
proof -
  note n1 = n1 [unfolded acl_to_def] and n2 = n2 [unfolded acl_to_def]
  have "n2\<lparr> pn_ACL := None \<rparr> = addm km rs' (n1\<lparr> pn_ACL := None \<rparr>)"
    using n2 by simp
  also have "\<dots> = (addm km (rs @ rs') n)\<lparr> pn_ACL := None \<rparr>"
    unfolding n1 [THEN conjunct2, THEN conjunct1] by simp
  finally show ?thesis using n1 n2 by (simp add: acl_to_def meta_fold_append)
qed

lemma acl_step_append:
  assumes "acl_step km rs f" "acl_step km rs' g"
  shows "acl_step km (rs @ rs') (\<lambda>a. g (f a))"
  unfolding acl_step_def
proof
  fix n
  obtain n1 where n1: "acl_to km rs f n n1" using assms(1) unfolding acl_step_def by fast
  obtain n2 where n2: "acl_to km rs' g n1 n2" using assms(2) unfolding acl_step_def by fast
  show "\<exists>n'. acl_to km (rs @ rs') (\<lambda>a. g (f a)) n n'"
    by (rule exI, rule acl_to_trans [OF n1 n2])
qed

lemma acl_single:
  "acl_step km [(TypeACLUser, user_body u)] (\<lambda>a. a\<lparr> acl_Users := acl_Users a @ [u] \<rparr>)"
  "acl_step km [(TypeACLDefaultUser, user_body u)] (\<lambda>a. a\<lparr> acl_DefaultUsers := acl_DefaultUsers a @ [u] \<rparr>)"
  "acl_step km [(TypeACLGroup, group_body g)] (\<lambda>a. a\<lparr> acl_Groups := acl_Groups a @ [g] \<rparr>)"
  "acl_step km [(TypeACLDefaultGroup, group_body g)] (\<lambda>a. a\<lparr> acl_DefaultGroups := acl_DefaultGroups a @ [g] \<rparr>)"
  "acl_step km [(TypeACLGroupObj, put64 p)] (\<lambda>a. a\<lparr> acl_GroupObj := Some p \<rparr>)"
  "acl_step km [(TypeACLDefault, default_body d)] (\<lambda>a. a\<lparr> acl_Default := Some d \<rparr>)"
  unfolding acl_step_def acl_to_def
  by (simp_all add: meta_field_def pxar_types user_body_def group_body_def default_body_def
      node_acl_def split: option.splits)

lemma acl_many:
  assumes "\<And>x. acl_step km [h x] (f [x])" "f [] = (\<lambda>a. a)" "\<And>x xs. f (x # xs) = (\<lambda>a. f xs (f [x] a))"
  shows "acl_step km (map h xs) (f xs)"
proof (induction xs)
  case (Cons x xs)
  show ?case using acl_step_append [OF assms(1) [of x] Cons.IH] by (simp add: assms(3) [of x xs])
qed (simp add: acl_step_nil assms(2))

lemma acl_users:
  "acl_step km (map (\<lambda>u. (TypeACLUser, user_body u)) us) (\<lambda>a. a\<lparr> acl_Users := acl_Users a @ us \<rparr>)"
  "acl_step km (map (\<lambda>u. (TypeACLDefaultUser, user_body u)) us) (\<lambda>a. a\<lparr> acl_DefaultUsers := acl_DefaultUsers a @ us \<rparr>)"
  "acl_step km (map (\<lambda>g. (TypeACLGroup, group_body g)) gs) (\<lambda>a. a\<lparr> acl_Groups := acl_Groups a @ gs \<rparr>)"
  "acl_step km (map (\<lambda>g. (TypeACLDefaultGroup, group_body g)) gs) (\<lambda>a. a\<lparr> acl_DefaultGroups := acl_DefaultGroups a @ gs \<rparr>)"
  by (rule acl_many [where f = "\<lambda>us a. a\<lparr> acl_Users := acl_Users a @ us \<rparr>"], simp_all add: acl_single)
    (rule acl_many [where f = "\<lambda>us a. a\<lparr> acl_DefaultUsers := acl_DefaultUsers a @ us \<rparr>"], simp_all add: acl_single,
     rule acl_many [where f = "\<lambda>us a. a\<lparr> acl_Groups := acl_Groups a @ us \<rparr>"], simp_all add: acl_single,
     rule acl_many [where f = "\<lambda>us a. a\<lparr> acl_DefaultGroups := acl_DefaultGroups a @ us \<rparr>"], simp_all add: acl_single)

lemma acl_all: "\<exists>f. acl_step km (acl_records a) f \<and> f no_acls = a"
proof -
  have o: "\<exists>f. acl_step km (case acl_GroupObj a of None \<Rightarrow> [] | Some p \<Rightarrow> [(TypeACLGroupObj, put64 p)]) f \<and>
      (\<forall>b. acl_GroupObj b = None \<longrightarrow> f b = b\<lparr> acl_GroupObj := acl_GroupObj a \<rparr>)"
    by (cases "acl_GroupObj a") (auto intro!: exI acl_step_nil acl_single(5))
  have d: "\<exists>f. acl_step km (case acl_Default a of None \<Rightarrow> [] | Some p \<Rightarrow> [(TypeACLDefault, default_body p)]) f \<and>
      (\<forall>b. acl_Default b = None \<longrightarrow> f b = b\<lparr> acl_Default := acl_Default a \<rparr>)"
    by (cases "acl_Default a") (auto intro!: exI acl_step_nil acl_single(6))
  obtain fo fd where
    fo: "acl_step km (case acl_GroupObj a of None \<Rightarrow> [] | Some p \<Rightarrow> [(TypeACLGroupObj, put64 p)]) fo"
      "\<forall>b. acl_GroupObj b = None \<longrightarrow> fo b = b\<lparr> acl_GroupObj := acl_GroupObj a \<rparr>"
    and fd: "acl_step km (case acl_Default a of None \<Rightarrow> [] | Some p \<Rightarrow> [(TypeACLDefault, default_body p)]) fd"
      "\<forall>b. acl_Default b = None \<longrightarrow> fd b = b\<lparr> acl_Default := acl_Default a \<rparr>"
    using o d by blast
  note st = acl_step_append [OF acl_users(1) acl_step_append [OF acl_users(3) acl_step_append [OF fo(1)
      acl_step_append [OF fd(1) acl_step_append [OF acl_users(2) acl_users(4)]]]],
      of "acl_Users a" "acl_Groups a" "acl_DefaultUsers a" "acl_DefaultGroups a"]
  show ?thesis
    by (intro exI conjI, rule st [folded acl_records_def]) (simp add: fo(2) fd(2) no_acls_def)
qed

subsection \<open>What the reader makes of a node\<close>

fun shown_acl :: "ACLs option \<Rightarrow> ACLs option" where
  "shown_acl None = None"
| "shown_acl (Some a) = (if acl_records a = [] then None else Some a)"

definition meta_node :: "bool \<Rightarrow> Node \<Rightarrow> bytes \<Rightarrow> PNode" where
  "meta_node km n path = (new_node path)\<lparr>
     pn_Entry := \<lparr> pe_Mode = st_Mode (nd_Stat n), pe_Flags = 0, pe_UID = st_UID (nd_Stat n),
       pe_GID = st_GID (nd_Stat n), pe_MtimeSecs = st_MtimeSecs (nd_Stat n),
       pe_MtimeNanos = st_MtimeNanos (nd_Stat n) \<rparr>,
     pn_Xattrs := nd_Xattrs n, pn_ACL := shown_acl (nd_ACL n), pn_FCaps := nd_FCaps n,
     pn_QuotaProjID := nd_QuotaProjID n, pn_meta := (if km then metadataBytes [] n else []) \<rparr>"

lemma acl_fold:
  assumes "pn_ACL b = None"
  shows "meta_fold km (case acl of None \<Rightarrow> [] | Some a \<Rightarrow> acl_records a) b =
    Inr ((addm km (case acl of None \<Rightarrow> [] | Some a \<Rightarrow> acl_records a) b)\<lparr> pn_ACL := shown_acl acl \<rparr>)"
proof (cases acl)
  case None
  then show ?thesis using assms by simp
next
  case (Some a)
  obtain f where f: "acl_step km (acl_records a) f" "f no_acls = a" using acl_all by blast
  obtain b' where b': "acl_to km (acl_records a) f b b'" using f(1) unfolding acl_step_def by fast
  note h = b' [unfolded acl_to_def]
  have "node_acl b = no_acls" using assms by (simp add: node_acl_def)
  then have s: "pn_ACL b' = shown_acl (Some a)"
    using h f(2) assms by (cases "pn_ACL b'") (auto simp: node_acl_def)
  have "b' = (b'\<lparr> pn_ACL := None \<rparr>)\<lparr> pn_ACL := pn_ACL b' \<rparr>" by simp
  also have "\<dots> = ((addm km (acl_records a) b)\<lparr> pn_ACL := None \<rparr>)\<lparr> pn_ACL := shown_acl (Some a) \<rparr>"
    unfolding h [THEN conjunct2, THEN conjunct1] s ..
  finally have "b' = (addm km (acl_records a) b)\<lparr> pn_ACL := shown_acl (Some a) \<rparr>" by simp
  then show ?thesis using Some h by simp
qed

lemma extra_fold:
  assumes "list_all xattr_ok (nd_Xattrs n)"
    and "pn_Xattrs b = []" "pn_ACL b = None" "pn_FCaps b = []" "pn_QuotaProjID b = 0"
  shows "meta_fold km (extra_records n) b = Inr (b\<lparr> pn_Xattrs := nd_Xattrs n, pn_ACL := shown_acl (nd_ACL n),
     pn_FCaps := nd_FCaps n, pn_QuotaProjID := nd_QuotaProjID n,
     pn_meta := pn_meta b @ (if km then records_bytes (extra_records n) else []) \<rparr>)"
proof -
  have f: "meta_field m TypeFCaps c = Inr (m\<lparr> pn_FCaps := c \<rparr>)"
    "meta_field m TypeQuotaProjID (put64 q) = Inr (m\<lparr> pn_QuotaProjID := q \<rparr>)" for m c q
    by (simp_all add: meta_field_def pxar_types)
  show ?thesis using assms
    by (cases b) (simp add: extra_records_def meta_fold_append fold_xattrs acl_fold f)
qed

lemma acl_meta_ok:
  "meta_ok (TypeACLUser, user_body u)" "meta_ok (TypeACLDefaultUser, user_body u)"
  "meta_ok (TypeACLGroup, group_body g)" "meta_ok (TypeACLDefaultGroup, group_body g)"
  "meta_ok (TypeACLGroupObj, put64 p)" "meta_ok (TypeACLDefault, default_body d)"
  by (simp_all add: meta_ok_def metadataRecord_def pxar_types pxar_sizes body_lengths)

lemma meta_ok_extra:
  assumes "list_all xattr_ok (nd_Xattrs n)" "length (nd_FCaps n) \<le> 2 ^ 20"
  shows "list_all meta_ok (extra_records n)"
proof -
  have "list_all meta_ok (case nd_ACL n of None \<Rightarrow> [] | Some acl \<Rightarrow> acl_records acl)"
    by (auto simp: acl_records_def list_all_iff acl_meta_ok split: option.splits)
  moreover have "list_all meta_ok (map (\<lambda>x. (TypeXAttr, xa_Name x @ [0] @ xa_Value x)) (nd_Xattrs n))"
    using assms(1) by (auto simp: list_all_iff meta_ok_def metadataRecord_def pxar_types xattr_ok_def)
  moreover have "meta_ok (TypeFCaps, nd_FCaps n)" "meta_ok (TypeQuotaProjID, put64 q)" for q
    using assms(2) by (simp_all add: meta_ok_def metadataRecord_def pxar_types pxar_sizes)
  ultimately show ?thesis unfolding extra_records_def by simp
qed

lemma entry_of_body: "entry_of (entry_body st) = \<lparr> pe_Mode = st_Mode st, pe_Flags = 0, pe_UID = st_UID st,
    pe_GID = st_GID st, pe_MtimeSecs = st_MtimeSecs st, pe_MtimeNanos = st_MtimeNanos st \<rparr>"
  by (simp add: entry_of_def entry_body_def)

text \<open>The reader behind the metadata of an entry, whatever follows it.\<close>

lemma node_prefix:
  assumes "list_all xattr_ok (nd_Xattrs n)" "length (nd_FCaps n) \<le> 2 ^ 20"
  shows "\<exists>pos' t' l'. px_node (rst v km (metadataBytes [] n @ Y) ds pos t0 l0) path =
    px_bind (px_metadata (rst v km Y ds pos' t' l') (meta_node km n path))
      (\<lambda>r ntl. case ntl of (n, typ, len) \<Rightarrow> px_kind r n typ len)"
proof -
  define X where "X = records_bytes (extra_records n) @ Y"
  define eb where "eb = entry_body (nd_Stat n)"
  have eb: "length eb = 40" by (simp add: eb_def body_lengths)
  have inp: "metadataBytes [] n @ Y = record_bytes TypeEntry eb @ X"
    by (simp add: metadataBytes_records X_def eb_def)
  have pk: "px_peek (rst v km (record_bytes TypeEntry eb @ X) ds pos t0 l0) =
      (pkd v km (eb @ X) ds pos TypeEntry (16 + len64 eb), Inr (TypeEntry, 16 + len64 eb))"
    by (rule peek_record) (simp add: eb)
  have bd: "px_body (pkd v km (eb @ X) ds pos TypeEntry (16 + len64 eb)) (16 + len64 eb) =
      (rst v km X ds (pos + (16 + len64 eb)) TypeEntry (16 + len64 eb), Inr eb)"
    by (rule body_record) (simp add: eb)
  let ?b = "px_keep (rst v km X ds (pos + (16 + len64 eb)) TypeEntry (16 + len64 eb))
      ((new_node path)\<lparr> pn_Entry := entry_of eb \<rparr>) TypeEntry eb"
  have "meta_fold km (extra_records n) ?b = Inr (meta_node km n path)"
    using extra_fold [OF assms(1), of ?b km]
    by (simp add: keep_record new_node_def meta_node_def eb_def entry_of_body metadataBytes_records)
  then obtain p' t' l' where md: "px_metadata (rst v km X ds (pos + (16 + len64 eb)) TypeEntry (16 + len64 eb)) ?b =
      px_metadata (rst v km Y ds p' t' l') (meta_node km n path)"
    using metadata_fold [OF meta_ok_extra [OF assms(1,2)]] unfolding X_def by metis
  have ne: "TypeEntry \<noteq> TypeHardlink_px" "TypeEntry \<noteq> TypeEntryV1" "16 + len64 eb = EntrySize"
    by (simp_all add: pxar_types pxar_sizes eb)
  have "px_node (rst v km (record_bytes TypeEntry eb @ X) ds pos t0 l0) path =
    px_bind (px_metadata (rst v km Y ds p' t' l') (meta_node km n path))
      (\<lambda>r ntl. case ntl of (n, typ, len) \<Rightarrow> px_kind r n typ len)"
    unfolding px_node_def pk by (simp add: ne(1,2) ne(3) [symmetric] bd md del: of_nat_numeral)
  then show ?thesis unfolding inp by blast
qed

lemma node_metadata:
  assumes "list_all xattr_ok (nd_Xattrs n)" "length (nd_FCaps n) \<le> 2 ^ 20"
    and "length b < 2 ^ 63" "metadataRecord t = None"
  shows "\<exists>pos'. px_node (rst v km (metadataBytes [] n @ record_bytes t b @ r) ds pos t0 l0) path =
    px_kind (pkd v km (b @ r) ds pos' t (16 + len64 b)) (meta_node km n path) t (16 + len64 b)"
proof -
  obtain pos' t' l' where "px_node (rst v km (metadataBytes [] n @ record_bytes t b @ r) ds pos t0 l0) path =
    px_bind (px_metadata (rst v km (record_bytes t b @ r) ds pos' t' l') (meta_node km n path))
      (\<lambda>r ntl. case ntl of (n, typ, len) \<Rightarrow> px_kind r n typ len)"
    using node_prefix [OF assms(1,2)] by blast
  then show ?thesis unfolding metadata_end [OF assms(3,4)] by auto
qed

subsection \<open>Trees the format holds\<close>

definition kind_mode :: "Kind \<Rightarrow> u64 \<Rightarrow> bool" where
  "kind_mode k m \<longleftrightarrow>
     (case k of
        KindDirectory \<Rightarrow> modeType m = ModeDir
      | KindFile \<Rightarrow> modeType m = ModeRegular
      | KindStream \<Rightarrow> modeType m = ModeRegular
      | KindSymlink \<Rightarrow> modeType m = ModeSymlink
      | KindBlockDevice \<Rightarrow> modeType m = ModeBlockDev
      | KindCharDevice \<Rightarrow> modeType m = ModeCharDev
      | KindFifo \<Rightarrow> modeType m = ModeFifo
      | KindSocket \<Rightarrow> modeType m = ModeSocket
      | KindHardlink \<Rightarrow> True
      | KindOther _ \<Rightarrow> False)"

definition node_ok :: "Node \<Rightarrow> bool" where
  "node_ok n \<longleftrightarrow>
     list_all xattr_ok (nd_Xattrs n) \<and> length (nd_FCaps n) \<le> 2 ^ 20 \<and>
     kind_mode (nd_Kind n) (st_Mode (nd_Stat n)) \<and>
     (nd_Kind n = KindSymlink \<longrightarrow> nd_LinkTarget n \<noteq> [] \<and> length (nd_LinkTarget n) < 2 ^ 20) \<and>
     (nd_Kind n = KindHardlink \<longrightarrow> validatePath (nd_LinkTarget n) = None \<and> length (nd_LinkTarget n) + 9 \<le> 2 ^ 20) \<and>
     (nd_Kind n = KindDirectory \<longrightarrow> 24 * (length (nd_Children n) + 1) \<le> 2 ^ 62)"

definition name_ok :: "Node \<Rightarrow> bool" where
  "name_ok n \<longleftrightarrow> ValidateFilename (nd_Name n) = None \<and> length (nd_Name n) < 2 ^ 20"

fun tree_ok :: "nat \<Rightarrow> Node \<Rightarrow> bool" where
  "tree_ok d n \<longleftrightarrow> node_ok n \<and>
     (nd_Kind n = KindDirectory \<longrightarrow>
        d < maxDepth_px \<and> (\<forall>c \<in> set (nd_Children n). name_ok c \<and> tree_ok (d + 1) c))"

declare tree_ok.simps [simp del]

fun preorder :: "Node \<Rightarrow> bytes \<Rightarrow> (Node \<times> bytes) list" where
  "preorder n path =
     (n, path) # (if nd_Kind n = KindDirectory
       then concat (map (\<lambda>c. preorder c (joinArchive path (nd_Name c))) (nd_Children n)) else [])"

declare preorder.simps [simp del]

text \<open>The node the reader returns for a node of the tree at a path, and the content it reads.\<close>

definition reads_as ::
  "bool \<Rightarrow> bool \<Rightarrow> (Node \<Rightarrow> bytes \<Rightarrow> bool) \<Rightarrow> Node \<times> bytes \<Rightarrow> PNode \<times> bytes \<Rightarrow> bool" where
  "reads_as v km P np pc \<longleftrightarrow>
     (case (np, pc) of ((n, path), (pn, c)) \<Rightarrow>
       if nd_Kind n = KindHardlink
       then pn = (new_node path)\<lparr> pn_Hardlink := True, pn_LinkTarget := nd_LinkTarget n \<rparr> \<and> c = []
       else \<exists>sz off. pn = (meta_node km n path)\<lparr>
           pn_LinkTarget := (if nd_Kind n = KindSymlink then nd_LinkTarget n else []),
           pn_Device := (if nd_Kind n \<in> {KindBlockDevice, KindCharDevice} then st_Rdev (nd_Stat n)
             else \<lparr> dv_Major = 0, dv_Minor = 0 \<rparr>),
           pn_Size := sz, pn_PayloadOffset := off \<rparr> \<and>
         (if nd_Kind n \<in> {KindFile, KindStream} then (if v then P n (put64 off @ put64 sz) else P n c \<and> sz = len64 c \<and> off = 0)
          else sz = 0 \<and> off = 0 \<and> c = []))"

text \<open>The content that \<open>Read\<close> returns for the current entry.\<close>

definition px_content :: "Reader_px \<Rightarrow> bytes" where
  "px_content r = (if pr_left r = 0 then [] else fst (snd (px_Read r (unat (pr_left r)))))"

lemma content_idle [simp]: "px_content (rst v km inp ds pos t l) = []" "px_content (pkd v km inp ds pos t l) = []"
  by (simp_all add: px_content_def rst_def pkd_def)

subsection \<open>Chains of results\<close>

fun yields :: "PNode pxres \<Rightarrow> (PNode \<times> bytes) list \<Rightarrow> PNode pxres \<Rightarrow> bool" where
  "yields R [] R' \<longleftrightarrow> R = R'"
| "yields R (pc # pcs) R' \<longleftrightarrow>
     (\<exists>s. R = (s, Inr (fst pc)) \<and> pr_err s = None \<and> px_content s = snd pc \<and> yields (px_next s) pcs R')"

lemma yields_append: "yields R (ns @ ms) R'' \<longleftrightarrow> (\<exists>R'. yields R ns R' \<and> yields R' ms R'')"
  by (induction ns arbitrary: R) auto

lemma next_rst: "px_next (rst v km inp ds pos t l) = px_loop (rst v km inp ds pos t l) ds"
  and next_pkd: "px_next (pkd v km inp ds pos t l) = px_loop (pkd v km inp ds pos t l) ds"
  by (simp_all add: px_next_def px_skip_content_def rst_def pkd_def)

lemma loop_pkd:
  assumes "length b < 2 ^ 63"
  shows "px_loop (pkd v km (b @ r) (d # ds) pos t (16 + len64 b)) (d # ds) =
    px_loop (rst v km (record_bytes t b @ r) (d # ds) pos t0 l0) (d # ds)"
  using loop_peeked [OF peek_record [OF assms]] by metis

text \<open>A filename record leads to the entry behind it.\<close>

lemma loop_filename:
  assumes "name_ok n"
  shows "\<exists>pos' t' l'. px_loop (rst v km (record_bytes TypeFilename (nd_Name n @ [0]) @ r) (d # ds) pos t l) (d # ds) =
    px_node (rst v km r (d # ds) pos' t' l') (joinArchive d (nd_Name n))"
proof -
  let ?b = "nd_Name n @ [0]"
  have l: "length ?b \<le> 2 ^ 20" "length ?b < 2 ^ 63" using assms by (auto simp: name_ok_def)
  have "TypeFilename \<noteq> TypeGoodbye" by (simp add: pxar_types)
  moreover have "cstring ?b = Inr (nd_Name n)" by (simp add: cstring_def)
  ultimately show ?thesis
    using assms unfolding px_loop.simps peek_record [OF l(2)]
    by (simp add: body_record [OF l(1), simplified] name_ok_def) blast
qed

text \<open>A goodbye record closes the directory.\<close>

lemma loop_goodbye:
  assumes "length g \<le> 2 ^ 62"
  shows "\<exists>pos' t' l'. px_loop (rst v km (record_bytes TypeGoodbye g @ r) (d # ds) pos t l) (d # ds) =
    px_loop (rst v km r ds pos' t' l') ds"
proof -
  have l: "length g < 2 ^ 63" using assms by simp
  have u: "unat (len64 g :: u64) = length g" using assms by (intro u64_len) simp
  have "px_skip (pkd v km (g @ r) (d # ds) pos TypeGoodbye (16 + len64 g)) (16 + len64 g) =
    (rst v km r (d # ds) (pos + (16 + len64 g)) TypeGoodbye (16 + len64 g), Inr ())"
    using assms by (simp add: px_skip_def HeaderSize_def word_less_nat_alt u pkd_def rst_def Let_def)
  moreover have "(rst v km r (d # ds) p t' l')\<lparr> pr_dirs := ds \<rparr> = rst v km r ds p t' l'" for p t' l'
    by (simp add: rst_def)
  ultimately show ?thesis unfolding px_loop.simps peek_record [OF l] by auto
qed

declare px_loop.simps [simp del]

lemma sint_len64: "length c < 2 ^ 63 \<Longrightarrow> sint (len64 c :: u64) = int (length c)"
  by (simp add: signed_of_nat signed_take_bit_int_eq_self)

subsection \<open>Reading a tree\<close>

abbreviation reads_node ::
  "bool \<Rightarrow> bool \<Rightarrow> (Node \<Rightarrow> bytes \<Rightarrow> bool) \<Rightarrow> PNode pxres \<Rightarrow> (Node \<times> bytes) list \<Rightarrow> bytes \<Rightarrow> bytes list \<Rightarrow> bool" where
  "reads_node v km P R nps rest ds \<equiv>
     (\<exists>pns pos' t' l'. yields R pns (px_loop (rst v km rest ds pos' t' l') ds) \<and>
        list_all2 (reads_as v km P) nps pns)"

lemma preorder_leaf: "nd_Kind n \<noteq> KindDirectory \<Longrightarrow> preorder n path = [(n, path)]"
  by (simp add: preorder.simps)

lemma reads_leaf:
  assumes "R = (s, Inr pn)" "pr_err s = None" "px_next s = px_loop (rst v km rest ds pos' t' l') ds"
    and "reads_as v km P (n, path) (pn, px_content s)" "nd_Kind n \<noteq> KindDirectory"
  shows "reads_node v km P R (preorder n path) rest ds"
  using assms by (intro exI [of _ "[(pn, px_content s)]"]) (auto simp: preorder_leaf)

lemma meta_node_defaults:
  "pn_LinkTarget (meta_node km n path) = []" "pn_Device (meta_node km n path) = \<lparr> dv_Major = 0, dv_Minor = 0 \<rparr>"
  "pn_Size (meta_node km n path) = 0" "pn_PayloadOffset (meta_node km n path) = 0"
  "pn_Path (meta_node km n path) = path" "pe_Mode (pn_Entry (meta_node km n path)) = st_Mode (nd_Stat n)"
  by (simp_all add: meta_node_def new_node_def)

lemma meta_node_idle:
  "(meta_node km n path)\<lparr> pn_LinkTarget := [], pn_Device := \<lparr> dv_Major = 0, dv_Minor = 0 \<rparr>, pn_Size := 0,
     pn_PayloadOffset := 0 \<rparr> = meta_node km n path"
  by (simp add: meta_node_def new_node_def)

lemma modes_distinct:
  "ModeDir \<noteq> ModeRegular" "ModeDir \<noteq> ModeSymlink" "ModeDir \<noteq> ModeBlockDev" "ModeDir \<noteq> ModeCharDev"
  "ModeDir \<noteq> ModeFifo" "ModeDir \<noteq> ModeSocket" "ModeRegular \<noteq> ModeSymlink" "ModeRegular \<noteq> ModeBlockDev"
  "ModeRegular \<noteq> ModeCharDev" "ModeRegular \<noteq> ModeFifo" "ModeRegular \<noteq> ModeSocket"
  "ModeSymlink \<noteq> ModeBlockDev" "ModeSymlink \<noteq> ModeCharDev" "ModeSymlink \<noteq> ModeFifo" "ModeSymlink \<noteq> ModeSocket"
  "ModeBlockDev \<noteq> ModeFifo" "ModeBlockDev \<noteq> ModeSocket" "ModeCharDev \<noteq> ModeFifo" "ModeCharDev \<noteq> ModeSocket"
  by (simp_all add: mode_defs)

lemmas modes_distinct' = modes_distinct modes_distinct [symmetric]

lemma reads_hardlink:
  assumes "nd_Kind n = KindHardlink" "node_ok n" "path \<noteq> []"
  shows "reads_node v km P (px_node (rst v km (record_bytes TypeHardlink_px (put64 off @ nd_LinkTarget n @ [0]) @ rest)
    ds pos t l) path) (preorder n path) rest ds"
proof -
  let ?b = "put64 off @ nd_LinkTarget n @ [0]"
  have b: "length ?b \<le> 2 ^ 20" "length ?b < 2 ^ 63" "cstring (nd_LinkTarget n @ [0]) = Inr (nd_LinkTarget n)"
      "validatePath (nd_LinkTarget n) = None"
    using assms(1,2) by (auto simp: node_ok_def cstring_def)
  show ?thesis
    by (rule reads_leaf [where s = "rst v km rest ds (pos + (16 + len64 ?b)) TypeHardlink_px (16 + len64 ?b)"])
      (simp_all add: px_node_def peek_record [OF b(2), simplified] px_hardlink_def assms next_rst
        body_record [OF b(1), simplified] b(3,4) reads_as_def)
qed

lemma reads_symlink:
  assumes "nd_Kind n = KindSymlink" "node_ok n"
  shows "reads_node v km P (px_node (rst v km (metadataBytes [] n @ record_bytes TypeSymlink_px (nd_LinkTarget n @ [0]) @ rest)
    ds pos t l) path) (preorder n path) rest ds"
proof -
  let ?b = "nd_LinkTarget n @ [0]"
  have b: "length ?b \<le> 2 ^ 20" "length ?b < 2 ^ 63" "cstring ?b = Inr (nd_LinkTarget n)" "nd_LinkTarget n \<noteq> []"
      "list_all xattr_ok (nd_Xattrs n)" "length (nd_FCaps n) \<le> 2 ^ 20" "modeType (st_Mode (nd_Stat n)) = ModeSymlink"
    using assms by (auto simp: node_ok_def cstring_def kind_mode_def)
  have m: "metadataRecord TypeSymlink_px = None" by (simp add: metadataRecord_def pxar_types)
  obtain pos' where nd: "px_node (rst v km (metadataBytes [] n @ record_bytes TypeSymlink_px ?b @ rest) ds pos t l) path =
      px_kind (pkd v km (?b @ rest) ds pos' TypeSymlink_px (16 + len64 ?b)) (meta_node km n path) TypeSymlink_px (16 + len64 ?b)"
    using node_metadata [OF b(5,6,2) m] by blast
  have k: "px_kind (pkd v km (?b @ rest) ds pos' TypeSymlink_px (16 + len64 ?b)) (meta_node km n path) TypeSymlink_px (16 + len64 ?b)
    = (rst v km rest ds (pos' + (16 + len64 ?b)) TypeSymlink_px (16 + len64 ?b),
       Inr ((meta_node km n path)\<lparr> pn_LinkTarget := nd_LinkTarget n \<rparr>))"
    unfolding px_kind_def px_symlink_def
    by (simp only: body_record [OF b(1)] meta_node_defaults b(3,7) Let_def modes_distinct' if_False if_True
        simp_thms prod.case sum.case b(4))
  show ?thesis unfolding nd k
    by (rule reads_leaf [OF refl]) (auto simp: next_rst assms(1) reads_as_def meta_node_def new_node_def)
qed

lemma reads_device:
  assumes "nd_Kind n \<in> {KindBlockDevice, KindCharDevice}" "node_ok n"
    and "b = put64 (dv_Major (st_Rdev (nd_Stat n))) @ put64 (dv_Minor (st_Rdev (nd_Stat n)))"
  shows "reads_node v km P (px_node (rst v km (metadataBytes [] n @ record_bytes TypeDevice b @ rest) ds pos t l) path)
    (preorder n path) rest ds"
proof -
  have b: "length b \<le> 2 ^ 20" "length b < 2 ^ 63" "16 + len64 b = DeviceSize"
      "list_all xattr_ok (nd_Xattrs n)" "length (nd_FCaps n) \<le> 2 ^ 20"
      "modeType (st_Mode (nd_Stat n)) = ModeBlockDev \<or> modeType (st_Mode (nd_Stat n)) = ModeCharDev"
    using assms by (auto simp: node_ok_def kind_mode_def pxar_sizes)
  have m: "metadataRecord TypeDevice = None" by (simp add: metadataRecord_def pxar_types)
  obtain pos' where nd: "px_node (rst v km (metadataBytes [] n @ record_bytes TypeDevice b @ rest) ds pos t l) path =
      px_kind (pkd v km (b @ rest) ds pos' TypeDevice (16 + len64 b)) (meta_node km n path) TypeDevice (16 + len64 b)"
    using node_metadata [OF b(4,5,2) m] by blast
  let ?d = "\<lparr> dv_Major = get64 b, dv_Minor = get64 (drop 8 b) \<rparr>"
  have d: "?d = st_Rdev (nd_Stat n)" using assms(3) by simp
  have k: "px_kind (pkd v km (b @ rest) ds pos' TypeDevice (16 + len64 b)) (meta_node km n path) TypeDevice (16 + len64 b)
    = (rst v km rest ds (pos' + (16 + len64 b)) TypeDevice (16 + len64 b),
       Inr ((meta_node km n path)\<lparr> pn_Device := ?d \<rparr>))"
    unfolding px_kind_def px_device_def using b(6)
    by (elim disjE; simp only: body_record [OF b(1)] meta_node_defaults Let_def modes_distinct' if_False if_True
        simp_thms prod.case sum.case b(3) [symmetric])
  show ?thesis unfolding nd k d
    by (rule reads_leaf [OF refl]) (use assms(1) in \<open>auto simp: next_rst reads_as_def meta_node_def new_node_def\<close>)
qed

lemma reads_special:
  assumes "nd_Kind n \<in> {KindFifo, KindSocket}" "node_ok n" "peekable rest" "ds \<noteq> []"
  shows "reads_node v km P (px_node (rst v km (metadataBytes [] n @ rest) ds pos t l) path) (preorder n path) rest ds"
proof -
  obtain ty b r where r: "rest = record_bytes ty b @ r" "length b < 2 ^ 63" "metadataRecord ty = None"
    using peekableE [OF assms(3)] by metis
  have b: "list_all xattr_ok (nd_Xattrs n)" "length (nd_FCaps n) \<le> 2 ^ 20"
      "modeType (st_Mode (nd_Stat n)) = ModeFifo \<or> modeType (st_Mode (nd_Stat n)) = ModeSocket"
    using assms(1,2) by (auto simp: node_ok_def kind_mode_def)
  obtain pos' where nd: "px_node (rst v km (metadataBytes [] n @ rest) ds pos t l) path =
      px_kind (pkd v km (b @ r) ds pos' ty (16 + len64 b)) (meta_node km n path) ty (16 + len64 b)"
    unfolding r(1) using node_metadata [OF b(1,2) r(2,3)] by blast
  have k: "px_kind (pkd v km (b @ r) ds pos' ty (16 + len64 b)) (meta_node km n path) ty (16 + len64 b) =
    (pkd v km (b @ r) ds pos' ty (16 + len64 b), Inr (meta_node km n path))"
    unfolding px_kind_def using b(3)
    by (elim disjE; simp only: meta_node_defaults Let_def modes_distinct' if_False if_True simp_thms)
  obtain d ds' where ds: "ds = d # ds'" using assms(4) by (cases ds) auto
  have nx: "px_next (pkd v km (b @ r) ds pos' ty (16 + len64 b)) = px_loop (rst v km rest ds pos' 0 0) ds"
    unfolding next_pkd r(1) ds by (rule loop_pkd [OF r(2)])
  show ?thesis unfolding nd k
    by (rule reads_leaf [OF refl _ nx])
      (use assms(1) in \<open>auto simp: reads_as_def meta_node_idle intro!: exI [of _ 0]\<close>)
qed

lemma reads_inline:
  assumes "nd_Kind n \<in> {KindFile, KindStream}" "node_ok n" "\<not> v" "P n c" "length c < 2 ^ 63"
  shows "reads_node v km P (px_node (rst v km (metadataBytes [] n @ record_bytes TypePayload c @ rest) ds pos t l) path)
    (preorder n path) rest ds"
proof -
  have b: "list_all xattr_ok (nd_Xattrs n)" "length (nd_FCaps n) \<le> 2 ^ 20"
      "modeType (st_Mode (nd_Stat n)) = ModeRegular"
    using assms(1,2) by (auto simp: node_ok_def kind_mode_def)
  have m: "metadataRecord TypePayload = None" by (simp add: metadataRecord_def pxar_types)
  obtain pos' where nd: "px_node (rst v km (metadataBytes [] n @ record_bytes TypePayload c @ rest) ds pos t l) path =
      px_kind (pkd v km (c @ rest) ds pos' TypePayload (16 + len64 c)) (meta_node km n path) TypePayload (16 + len64 c)"
    using node_metadata [OF b(1,2) assms(5) m] by blast
  let ?s = "(rst v km (c @ rest) ds (pos' + 16) TypePayload (16 + len64 c))\<lparr> pr_content := Inline,
      pr_left := len64 c, pr_inline := True \<rparr>"
  have k: "px_kind (pkd v km (c @ rest) ds pos' TypePayload (16 + len64 c)) (meta_node km n path) TypePayload (16 + len64 c) =
    (?s, Inr ((meta_node km n path)\<lparr> pn_Size := len64 c \<rparr>))"
    unfolding px_kind_def px_payloadRecord_def using assms(3)
    by (simp add: meta_node_defaults b(3) modes_distinct' HeaderSize_def pkd_def rst_def Let_def)
  have u: "unat (len64 c :: u64) = length c" using assms(5) by (intro u64_len) simp
  have si: "0 \<le> sint (len64 c :: u64)"
    using sint_len64 [OF assms(5)] by simp
  have ct: "px_content ?s = c"
  proof (cases "c = []")
    case False
    then have "len64 c \<noteq> (0 :: u64)" using u by (metis length_0_conv unat_0)
    then show ?thesis using False u by (simp add: px_content_def px_Read_def rst_def Let_def)
  qed (simp add: px_content_def rst_def)
  have nx: "\<exists>p. px_next ?s = px_loop (rst v km rest ds p TypePayload (16 + len64 c)) ds"
  proof (cases "c = []")
    case True
    then show ?thesis by (intro exI) (simp add: px_next_def px_skip_content_def rst_def)
  next
    case False
    then have "(0 :: u64) < len64 c" using u by (simp add: word_less_nat_alt)
    then show ?thesis using si u
      by (intro exI [of _ "pos' + 16 + len64 c"]) (simp add: px_next_def px_skip_content_def rst_def)
  qed
  then obtain p where nx: "px_next ?s = px_loop (rst v km rest ds p TypePayload (16 + len64 c)) ds" ..
  show ?thesis unfolding nd k
    by (rule reads_leaf [OF refl _ nx])
      (use assms(1,3,4) ct in \<open>auto simp: reads_as_def meta_node_def new_node_def rst_def\<close>)
qed

lemma reads_ref:
  assumes "nd_Kind n \<in> {KindFile, KindStream}" "node_ok n" "v" "P n (put64 off @ put64 sz)"
  shows "reads_node v km P (px_node (rst v km (metadataBytes [] n @ record_bytes TypePayloadRef (put64 off @ put64 sz) @ rest)
    ds pos t l) path) (preorder n path) rest ds"
proof -
  let ?b = "put64 off @ put64 sz"
  have b: "list_all xattr_ok (nd_Xattrs n)" "length (nd_FCaps n) \<le> 2 ^ 20"
      "modeType (st_Mode (nd_Stat n)) = ModeRegular" "length ?b \<le> 2 ^ 20" "length ?b < 2 ^ 63"
      "16 + len64 ?b = PayloadRefSize"
    using assms(1,2) by (auto simp: node_ok_def kind_mode_def pxar_sizes)
  have m: "metadataRecord TypePayloadRef = None" by (simp add: metadataRecord_def pxar_types)
  obtain pos' where nd: "px_node (rst v km (metadataBytes [] n @ record_bytes TypePayloadRef ?b @ rest) ds pos t l) path =
      px_kind (pkd v km (?b @ rest) ds pos' TypePayloadRef (16 + len64 ?b)) (meta_node km n path) TypePayloadRef (16 + len64 ?b)"
    using node_metadata [OF b(1,2,5) m] by blast
  let ?r = "rst v km rest ds (pos' + (16 + len64 ?b)) TypePayloadRef (16 + len64 ?b)"
  let ?s = "?r\<lparr> pr_content := NoPayload, pr_left := sz \<rparr>"
  have ver: "pr_version (pkd v km (?b @ rest) ds pos' TypePayloadRef (16 + len64 ?b)) = 2" "pr_payload ?r = None"
    using assms(3) by (simp_all add: pkd_def rst_def)
  have k: "px_kind (pkd v km (?b @ rest) ds pos' TypePayloadRef (16 + len64 ?b)) (meta_node km n path) TypePayloadRef (16 + len64 ?b) =
    (?s, Inr ((meta_node km n path)\<lparr> pn_PayloadOffset := off, pn_Size := sz \<rparr>))"
    unfolding px_kind_def px_payloadRecord_def ver meta_node_defaults b(3)
    by (simp only: body_record [OF b(4)] Let_def modes_distinct' if_False if_True simp_thms b(6) [symmetric]
        prod.case sum.case ver(2) option.case) (simp add: modes_distinct')
  have nx: "px_next ?s = px_loop ?r ds" by (simp add: px_next_def px_skip_content_def rst_def)
  show ?thesis unfolding nd k
    by (rule reads_leaf [OF refl _ nx])
      (use assms(1,3,4) in \<open>auto simp: reads_as_def meta_node_def new_node_def rst_def\<close>)
qed

lemma archived_list_peekable:
  assumes "archived_list v P G ns es bs" "\<forall>c \<in> set ns. name_ok c" "peekable rest"
  shows "peekable (bs @ rest)"
  using assms(1)
proof (cases rule: archived_list.cases)
  case arch_nil
  then show ?thesis using assms(3) by simp
next
  case (arch_cons n x bs1 ns' es' bs2)
  then have "length (nd_Name n @ [0]) < 2 ^ 63" using assms(2) by (auto simp: name_ok_def)
  moreover have "metadataRecord TypeFilename = None" by (simp add: metadataRecord_def pxar_types)
  ultimately show ?thesis unfolding peekable_def
    using arch_cons by (intro exI [of _ TypeFilename] exI [of _ "nd_Name n @ [0]"] exI [of _ "bs1 @ bs2 @ rest"]) simp
qed

lemma reads_dir:
  assumes n: "nd_Kind n = KindDirectory" "tree_ok (length ds) n"
    and bs: "archived_list v P G (nd_Children n) es bs"
    and g: "length g = 24 * (length (nd_Children n) + 1)"
    and kids: "\<And>r pos t l. peekable r \<Longrightarrow>
      reads_node v km P (px_loop (rst v km (bs @ r) (path # ds) pos t l) (path # ds))
        (concat (map (\<lambda>c. preorder c (joinArchive path (nd_Name c))) (nd_Children n))) r (path # ds)"
  shows "reads_node v km P (px_node (rst v km (metadataBytes [] n @ bs @ record_bytes TypeGoodbye g @ rest) ds pos t l) path)
    (preorder n path) rest ds"
proof -
  have ok: "list_all xattr_ok (nd_Xattrs n)" "length (nd_FCaps n) \<le> 2 ^ 20"
      "modeType (st_Mode (nd_Stat n)) = ModeDir" "length g \<le> 2 ^ 62" "length ds < maxDepth_px"
      "\<forall>c \<in> set (nd_Children n). name_ok c"
    using n g by (auto simp: tree_ok.simps [of "length ds" n] node_ok_def kind_mode_def)
  let ?r = "record_bytes TypeGoodbye g @ rest"
  have pk: "peekable ?r" unfolding peekable_def
    using ok(4) by (intro exI [of _ TypeGoodbye] exI [of _ g] exI [of _ rest])
      (simp add: metadataRecord_def pxar_types)
  obtain ty b r where r: "bs @ ?r = record_bytes ty b @ r" "length b < 2 ^ 63" "metadataRecord ty = None"
    using peekableE [OF archived_list_peekable [OF bs ok(6) pk]] by metis
  obtain pos' where nd: "px_node (rst v km (metadataBytes [] n @ bs @ ?r) ds pos t l) path =
      px_kind (pkd v km (b @ r) ds pos' ty (16 + len64 b)) (meta_node km n path) ty (16 + len64 b)"
    unfolding r(1) using node_metadata [OF ok(1,2) r(2,3)] by blast
  have k: "px_kind (pkd v km (b @ r) ds pos' ty (16 + len64 b)) (meta_node km n path) ty (16 + len64 b) =
    (pkd v km (b @ r) (path # ds) pos' ty (16 + len64 b), Inr (meta_node km n path))"
    using ok(5) by (simp add: px_kind_def meta_node_defaults ok(3) pkd_def rst_def)
  have nx: "px_next (pkd v km (b @ r) (path # ds) pos' ty (16 + len64 b)) =
      px_loop (rst v km (bs @ ?r) (path # ds) pos' 0 0) (path # ds)"
    unfolding next_pkd r(1) by (rule loop_pkd [OF r(2)])
  obtain pns pos2 t2 l2 where y: "yields (px_loop (rst v km (bs @ ?r) (path # ds) pos' 0 0) (path # ds)) pns
        (px_loop (rst v km ?r (path # ds) pos2 t2 l2) (path # ds))"
      "list_all2 (reads_as v km P) (concat (map (\<lambda>c. preorder c (joinArchive path (nd_Name c))) (nd_Children n))) pns"
    using kids [OF pk] by blast
  obtain pos3 t3 l3 where gb: "px_loop (rst v km ?r (path # ds) pos2 t2 l2) (path # ds) = px_loop (rst v km rest ds pos3 t3 l3) ds"
    using loop_goodbye [OF ok(4)] by blast
  have ra: "reads_as v km P (n, path) (meta_node km n path, [])"
    using n(1) by (auto simp: reads_as_def meta_node_idle intro!: exI [of _ 0])
  show ?thesis unfolding nd k
    by (rule exI [of _ "(meta_node km n path, []) # pns"], rule exI [of _ pos3], rule exI [of _ t3], rule exI [of _ l3])
      (use ra y nx gb n(1) in \<open>simp add: preorder.simps [of n]\<close>)
qed

lemma reads_cons:
  assumes "name_ok n" "peekable rest"
    and "\<And>pos t l. reads_node v km P (px_node (rst v km (bs @ bs' @ rest) (d # ds) pos t l) (joinArchive d (nd_Name n)))
        (preorder n (joinArchive d (nd_Name n))) (bs' @ rest) (d # ds)"
    and "\<And>pos t l. reads_node v km P (px_loop (rst v km (bs' @ rest) (d # ds) pos t l) (d # ds)) nps rest (d # ds)"
  shows "reads_node v km P (px_loop (rst v km (record_bytes TypeFilename (nd_Name n @ [0]) @ bs @ bs' @ rest) (d # ds) pos t l) (d # ds))
    (preorder n (joinArchive d (nd_Name n)) @ nps) rest (d # ds)"
proof -
  obtain p1 t1 l1 where f: "px_loop (rst v km (record_bytes TypeFilename (nd_Name n @ [0]) @ bs @ bs' @ rest) (d # ds) pos t l) (d # ds) =
      px_node (rst v km (bs @ bs' @ rest) (d # ds) p1 t1 l1) (joinArchive d (nd_Name n))"
    using loop_filename [OF assms(1)] by blast
  obtain pns p2 t2 l2 where a: "yields (px_node (rst v km (bs @ bs' @ rest) (d # ds) p1 t1 l1) (joinArchive d (nd_Name n))) pns
        (px_loop (rst v km (bs' @ rest) (d # ds) p2 t2 l2) (d # ds))"
      "list_all2 (reads_as v km P) (preorder n (joinArchive d (nd_Name n))) pns"
    using assms(3) by blast
  obtain qns p3 t3 l3 where b: "yields (px_loop (rst v km (bs' @ rest) (d # ds) p2 t2 l2) (d # ds)) qns
        (px_loop (rst v km rest (d # ds) p3 t3 l3) (d # ds))" "list_all2 (reads_as v km P) nps qns"
    using assms(4) by blast
  show ?thesis unfolding f
    by (rule exI [of _ "pns @ qns"], rule exI [of _ p3], rule exI [of _ t3], rule exI [of _ l3])
      (use a b in \<open>auto simp only: yields_append intro: list_all2_appendI\<close>)
qed

lemma join_nonempty: "name_ok n \<Longrightarrow> joinArchive d (nd_Name n) \<noteq> []"
  by (auto simp: name_ok_def ValidateFilename_def joinArchive_def split: if_splits)

lemma archived_reads:
  "archived v P G n x bs \<Longrightarrow> tree_ok (length ds) n \<Longrightarrow>
     (nd_Kind n = KindDirectory \<or> ds \<noteq> [] \<and> path \<noteq> [] \<and> (nd_Kind n \<in> {KindFifo, KindSocket} \<longrightarrow> peekable rest)) \<Longrightarrow>
     reads_node v km P (px_node (rst v km (bs @ rest) ds pos t l) path) (preorder n path) rest ds"
  "archived_list v P G ns es bs \<Longrightarrow> \<forall>c \<in> set ns. name_ok c \<and> tree_ok (length (path # ds)) c \<Longrightarrow> peekable rest \<Longrightarrow>
     reads_node v km P (px_loop (rst v km (bs @ rest) (path # ds) pos t l) (path # ds))
       (concat (map (\<lambda>c. preorder c (joinArchive path (nd_Name c))) ns)) rest (path # ds)"
proof (induction arbitrary: ds path rest pos t l and ds path rest pos t l rule: archived_archived_list.inducts)
  case (arch_hardlink n off)
  then have "node_ok n" "path \<noteq> []" by (auto simp: tree_ok.simps [of "length ds" n])
  with arch_hardlink.hyps show ?case by (rule reads_hardlink)
next
  case (arch_dir n es bs g)
  have "\<forall>c \<in> set (nd_Children n). name_ok c \<and> tree_ok (length (path # ds)) c"
    using arch_dir.prems(1) arch_dir.hyps(1) by (simp add: tree_ok.simps [of "length ds" n])
  then show ?case
    using reads_dir [OF arch_dir.hyps(1) arch_dir.prems(1) arch_dir.IH(1) arch_dir.hyps(2)] arch_dir.IH(2) by simp
next
  case (arch_inline n content)
  then show ?case using reads_inline [of n v] by (simp add: tree_ok.simps [of "length ds" n])
next
  case (arch_ref n off sz)
  then show ?case using reads_ref [of n v] by (simp add: tree_ok.simps [of "length ds" n])
next
  case (arch_symlink n)
  then show ?case using reads_symlink [of n] by (simp add: tree_ok.simps [of "length ds" n])
next
  case (arch_device n)
  then show ?case using reads_device [OF _ _ refl, of n] by (simp add: tree_ok.simps [of "length ds" n])
next
  case (arch_special n)
  then show ?case using reads_special [of n rest ds] by (auto simp: tree_ok.simps [of "length ds" n])
next
  case arch_nil
  show ?case by (rule exI [of _ "[]"], rule exI [of _ pos], rule exI [of _ t], rule exI [of _ l]) simp
next
  case (arch_cons n x bs ns es bs')
  note prem = arch_cons.prems
  have n: "name_ok n" "tree_ok (length (path # ds)) n" "\<forall>c \<in> set ns. name_ok c \<and> tree_ok (length (path # ds)) c"
    using prem(1) by auto
  have pk: "peekable (bs' @ rest)" by (rule archived_list_peekable [OF arch_cons.IH(3)]) (use n(3) prem(2) in auto)
  have a: "reads_node v km P (px_node (rst v km (bs @ bs' @ rest) (path # ds) p t l) (joinArchive path (nd_Name n)))
        (preorder n (joinArchive path (nd_Name n))) (bs' @ rest) (path # ds)" for p t l
    by (rule arch_cons.IH(2) [OF n(2)]) (use pk join_nonempty [OF n(1)] in auto)
  have b: "reads_node v km P (px_loop (rst v km (bs' @ rest) (path # ds) p t l) (path # ds))
      (concat (map (\<lambda>c. preorder c (joinArchive path (nd_Name c))) ns)) rest (path # ds)" for p t l
    by (rule arch_cons.IH(4) [OF n(3) prem(2)])
  show ?case using reads_cons [OF n(1) prem(2) a b] by simp
qed

subsection \<open>Whole archives\<close>

fun px_reads :: "nat \<Rightarrow> Reader_px \<Rightarrow> (PNode \<times> bytes) list \<times> pxar_error option" where
  "px_reads 0 r = ([], None)"
| "px_reads (Suc k) r =
     (case px_Next r of
        (r', Inl e) \<Rightarrow> ([], Some e)
      | (r', Inr n) \<Rightarrow> (case px_reads k r' of (pcs, e) \<Rightarrow> ((n, px_content r') # pcs, e)))"

lemma reads_yields:
  "pr_err r = None \<Longrightarrow> yields (px_next r) pcs (s, Inl e) \<Longrightarrow> px_reads (Suc (length pcs)) r = (pcs, Some e)"
proof (induction pcs arbitrary: r)
  case Nil
  then show ?case by (simp add: px_Next_def)
next
  case (Cons pc pcs)
  then obtain s1 where "px_next r = (s1, Inr (fst pc))" "pr_err s1 = None" "px_content s1 = snd pc"
      "yields (px_next s1) pcs (s, Inl e)" by auto
  with Cons show ?case by (simp add: px_Next_def)
qed

lemma node_peeked:
  assumes "px_peek s = (s', Inr x)"
  shows "px_node s path = px_node s' path"
proof -
  have "px_peek s' = (s', Inr x)"
    using assms by (auto simp: px_peek_def Let_def split: if_splits prod.splits full.splits)
  then show ?thesis using assms by (simp add: px_node_def)
qed

definition start_reader :: "nat \<Rightarrow> bool \<Rightarrow> bytes \<Rightarrow> Reader_px" where
  "start_reader ver km inp = (new_reader ver inp None None)\<lparr> pr_keepMeta := km \<rparr>"

lemma archived_dir_front:
  assumes "archived v P G n x bs" "nd_Kind n = KindDirectory"
  shows "\<exists>X. bs = record_bytes TypeEntry (entry_body (nd_Stat n)) @ X"
  using assms by (cases rule: archived.cases) (auto simp: metadataBytes_records)

lemma start_v1:
  assumes "ver = 0 \<or> ver = 1" "archived False P G root x bs" "nd_Kind root = KindDirectory"
  shows "px_next (start_reader ver km bs) = px_node (rst False km bs [] 0 0 0) []"
proof -
  define eb where "eb = entry_body (nd_Stat root)"
  obtain X where X: "bs = record_bytes TypeEntry eb @ X"
    unfolding eb_def using archived_dir_front [OF assms(2,3)] by blast
  have l: "length eb < 2 ^ 63" by (simp add: eb_def body_lengths)
  note pk = peek_record [OF l, of False km TypeEntry X "[]" 0 0 0]
  let ?r = "(rst False km bs [] 0 0 0)\<lparr> pr_version := ver \<rparr>"
  have "px_peek ?r = ((pkd False km (eb @ X) [] 0 TypeEntry (16 + len64 eb))\<lparr> pr_version := ver \<rparr>, Inr (TypeEntry, 16 + len64 eb))"
    using pk unfolding X by (simp add: px_peek_def in_full_def rst_def pkd_def Let_def split: if_splits)
  then have "px_readHead ?r = (pkd False km (eb @ X) [] 0 TypeEntry (16 + len64 eb), Inr ())"
    using assms(1) by (auto simp: px_readHead_def pxar_types pkd_def rst_def)
  then have "px_next (start_reader ver km bs) = px_node (pkd False km (eb @ X) [] 0 TypeEntry (16 + len64 eb)) []"
    by (simp add: px_next_def px_skip_content_def start_reader_def new_reader_def rst_def)
  then show ?thesis using node_peeked [OF pk] unfolding X by simp
qed

lemma start_v2:
  assumes "ver = 0 \<or> ver = 2" "archived True P G root x bs" "nd_Kind root = KindDirectory"
    and "\<forall>p. prelude = Some p \<longrightarrow> length p \<le> 2 ^ 20"
  shows "\<exists>pos t l. px_next (start_reader ver km (head_bytes True prelude @ bs)) = px_node (rst True km bs [] pos t l) []"
proof -
  define eb where "eb = entry_body (nd_Stat root)"
  obtain X where X: "bs = record_bytes TypeEntry eb @ X"
    unfolding eb_def using archived_dir_front [OF assms(2,3)] by blast
  define Y where "Y = (case prelude of None \<Rightarrow> [] | Some p \<Rightarrow> record_bytes TypePrelude p) @ bs"
  define fb where "fb = put64 2"
  have inp: "head_bytes True prelude @ bs = record_bytes TypeFormatVersion fb @ Y"
    by (simp add: head_bytes_def Y_def fb_def)
  have f: "length fb < 2 ^ 63" "length fb \<le> 2 ^ 20" "length fb = 8" "get64 fb = 2" by (simp_all add: fb_def)
  let ?l = "16 + len64 fb"
  note pk = peek_record [OF f(1), of True km TypeFormatVersion Y "[]" 0 0 0]
  let ?r = "(rst True km (record_bytes TypeFormatVersion fb @ Y) [] 0 0 0)\<lparr> pr_version := ver \<rparr>"
  have p1: "px_peek ?r = ((pkd True km (fb @ Y) [] 0 TypeFormatVersion ?l)\<lparr> pr_version := ver \<rparr>, Inr (TypeFormatVersion, ?l))"
    using pk by (simp add: px_peek_def in_full_def rst_def pkd_def Let_def split: if_splits)
  have b1: "px_body ((pkd True km (fb @ Y) [] 0 TypeFormatVersion ?l)\<lparr> pr_version := ver \<rparr>) ?l =
      ((rst True km Y [] ?l TypeFormatVersion ?l)\<lparr> pr_version := ver \<rparr>, Inr fb)"
  proof -
    have "unat (len64 fb :: u64) = 8" using f(3) by simp
    then show ?thesis using f(3)
      by (simp add: px_body_def in_full_def rst_def pkd_def HeaderSize_def maxRecordBody_def word_less_nat_alt Let_def)
  qed
  have head: "px_readHead ?r = px_bind (px_peek (rst True km Y [] ?l TypeFormatVersion ?l))
      (\<lambda>r tl. case tl of (ty, len) \<Rightarrow> if ty = TypePrelude then px_bind (px_body r len) (\<lambda>r _. (r, Inr ())) else (r, Inr ()))"
  proof -
    have "pr_version ((pkd True km (fb @ Y) [] 0 TypeFormatVersion ?l)\<lparr> pr_version := ver \<rparr>) \<noteq> 1"
      using assms(1) by auto
    then show ?thesis unfolding px_readHead_def p1 prod.case sum.case if_not_P b1 using f(3,4)
      by (simp only: b1 prod.case sum.case simp_thms if_False if_True) (simp add: rst_def)
  qed
  have "\<exists>s pos t l. px_readHead ?r = (s, Inr ()) \<and> px_node s [] = px_node (rst True km bs [] pos t l) []"
  proof (cases prelude)
    case None
    then have Y: "Y = record_bytes TypeEntry eb @ X" by (simp add: Y_def X)
    have l: "length eb < 2 ^ 63" by (simp add: eb_def body_lengths)
    note pk2 = peek_record [OF l, of True km TypeEntry X "[]" ?l TypeFormatVersion ?l]
    have "TypeEntry \<noteq> TypePrelude" by (simp add: pxar_types)
    then show ?thesis unfolding head unfolding Y pk2 using node_peeked [OF pk2, of "[]", symmetric] X by (auto intro!: exI)
  next
    case (Some p)
    then have Y: "Y = record_bytes TypePrelude p @ bs" by (simp add: Y_def)
    have l: "length p < 2 ^ 63" "length p \<le> 2 ^ 20" using assms(4) Some by auto
    show ?thesis unfolding head unfolding Y peek_record [OF l(1)] using body_record [OF l(2)] by auto
  qed
  then obtain s pos t l where h: "px_readHead ?r = (s, Inr ())" "px_node s [] = px_node (rst True km bs [] pos t l) []"
    by blast
  have "px_next (start_reader ver km (record_bytes TypeFormatVersion fb @ Y)) = px_node s []"
    using h(1) by (simp add: px_next_def px_skip_content_def start_reader_def new_reader_def rst_def)
  then show ?thesis unfolding inp using h(2) by auto
qed

lemma archive_reads:
  assumes "archived v P G root x bs" "nd_Kind root = KindDirectory" "tree_ok 0 root"
    and "if v then ver = 0 \<or> ver = 2 else ver = 0 \<or> ver = 1"
    and "\<forall>p. prelude = Some p \<longrightarrow> length p \<le> 2 ^ 20"
  shows "\<exists>pcs pos t l. yields (px_next (start_reader ver km (head_bytes v prelude @ bs))) pcs (rst v km [] [] pos t l, Inl PxEOF) \<and>
     list_all2 (reads_as v km P) (preorder root []) pcs"
proof -
  have st: "\<exists>pos t l. px_next (start_reader ver km (head_bytes v prelude @ bs)) = px_node (rst v km bs [] pos t l) []"
  proof (cases v)
    case True
    then show ?thesis using start_v2 [of ver P G root x bs prelude km] assms by auto
  next
    case False
    then have "archived False P G root x bs" "ver = 0 \<or> ver = 1" "head_bytes v prelude @ bs = bs"
      using assms by (auto simp: head_bytes_def)
    with False show ?thesis using start_v1 [OF _ _ assms(2)] by auto
  qed
  then obtain pos t l where st: "px_next (start_reader ver km (head_bytes v prelude @ bs)) = px_node (rst v km bs [] pos t l) []"
    by blast
  have "tree_ok (length []) root" using assms(3) by simp
  from archived_reads(1) [OF assms(1) this, of "[]" "[]" km pos t l] assms(2)
  obtain pcs p' t' l' where "yields (px_node (rst v km bs [] pos t l) []) pcs (px_loop (rst v km [] [] p' t' l') [])"
      "list_all2 (reads_as v km P) (preorder root []) pcs" by auto
  moreover have "px_loop (rst v km [] [] p' t' l') [] = (rst v km [] [] p' t' l', Inl PxEOF)"
    by (simp add: px_loop.simps rst_def)
  ultimately show ?thesis using st by auto
qed

lemma reads_as_mono:
  assumes "reads_as v km P np pc" "\<And>n c. P n c \<Longrightarrow> Q n c"
  shows "reads_as v km Q np pc"
  using assms unfolding reads_as_def by (auto split: prod.splits if_split) metis+

lemma maxDepth_px_pos: "0 < maxDepth_px"
  by (simp add: maxDepth_px_def)

subsection \<open>Properties\<close>

text \<open>
  C2: a v1 archive reads back.  For every tree the format holds, when the emitter succeeds, whatever
  its context and sink, reading its output with \<open>NewReaderV1\<close> returns the nodes of the tree in
  preorder with their paths, metadata and link targets, the content of every file being what its
  payload stood for at emission (the bytes read, cut or padded with zeros to the announced size), and
  then the end of the archive.
\<close>

theorem archive_roundtrip_v1:
  assumes "em_run H (syncSource os) prelude root (new_emitter ctx room None) = (s', Inr ())"
    and "\<forall>n \<in> set (nodes_of root). \<forall>p. syncSource_open os n = Inr p \<longrightarrow> 0 \<le> sint (payload_Size p)"
    and "nd_Kind root = KindDirectory" "tree_ok 0 root"
  shows "\<exists>pcs. px_reads (length pcs + 1) (NewReaderV1 (em_out s') None) = (pcs, Some PxEOF) \<and>
     list_all2 (reads_as False False (\<lambda>n c. \<exists>p. syncSource_open os n = Inr p \<and> c = payload_image p))
       (preorder root []) pcs"
proof -
  have sz: "0 \<le> sint (ps_Size (syncSource os) p)"
    if "m \<in> set (nodes_of root)" "ps_open (syncSource os) m = Inr p" for m p
    using assms(2) that by (auto simp: syncSource_def)
  obtain bs x where bs: "cn_advances (es_w (new_emitter ctx room None)) (es_w s') bs"
      "archived False (sync.sized os) (goodbye_of H) root x bs"
    using sync.em_run_archived [OF assms(1)] sz by (auto simp: new_emitter_def head_bytes_def)
  obtain pcs pos t l where y: "yields (px_next (start_reader 1 False bs)) pcs (rst False False [] [] pos t l, Inl PxEOF)"
      "list_all2 (reads_as False False (sync.sized os)) (preorder root []) pcs"
    using archive_reads [OF bs(2) assms(3,4), of 1 None False] by (auto simp: head_bytes_def)
  have "start_reader 1 False bs = NewReaderV1 (em_out s') None"
    using new_emitter_advances [OF bs(1)] by (simp add: start_reader_def NewReaderV1_def new_reader_def)
  then have "px_reads (length pcs + 1) (NewReaderV1 (em_out s') None) = (pcs, Some PxEOF)"
    using reads_yields [OF _ y(1)] by (simp add: NewReaderV1_def new_reader_def)
  moreover have "list_all2 (reads_as False False (\<lambda>n c. \<exists>p. syncSource_open os n = Inr p \<and> c = payload_image p))
       (preorder root []) pcs"
    using y(2) by (rule list_all2_mono) (rule reads_as_mono, assumption, simp only: sync.sized_def, auto simp: syncSource_def)
  ultimately show ?thesis by blast
qed

lemma example_tree_ok: "tree_ok 0 example_tree" "nd_Kind example_tree = KindDirectory"
proof -
  show "nd_Kind example_tree = KindDirectory" by (simp add: example_tree_def)
  have "nd_Children example_tree = [hd (nd_Children example_tree)]" by (simp add: example_tree_def)
  moreover have "tree_ok 1 (hd (nd_Children example_tree))" "name_ok (hd (nd_Children example_tree))"
    unfolding tree_ok.simps [of 1] by (simp_all add: example_tree_def node_ok_def name_ok_def kind_mode_def
      modeType_def mode_defs zero_stat_def ValidateFilename_def str_def)
  moreover have "node_ok example_tree"
    by (simp add: example_tree_def node_ok_def kind_mode_def modeType_def mode_defs zero_stat_def)
  ultimately show "tree_ok 0 example_tree"
    unfolding tree_ok.simps [of 0] by (metis One_nat_def add_0 maxDepth_px_pos list.set_cases list.discI list.inject set_ConsD empty_iff empty_set)
qed

theorem archive_roundtrip_v1_witness:
  "\<exists>s' pcs. em_run (\<lambda>_. 7) (syncSource no_files) None example_tree (new_emitter None None None) = (s', Inr ()) \<and>
     px_reads (length pcs + 1) (NewReaderV1 (em_out s') None) = (pcs, Some PxEOF) \<and> length pcs = 2"
proof -
  obtain s' where s': "em_run (\<lambda>_. 7) (syncSource no_files) None example_tree (new_emitter None None None) = (s', Inr ())"
    using example_emits by blast
  show ?thesis
    using archive_roundtrip_v1 [OF s' _ example_tree_ok(2,1)] example_opens s'
    by (fastforce dest: list_all2_lengthD simp: preorder.simps example_tree_def)
qed

text \<open>The visitor that keeps every file, and the files it should see.\<close>

definition collect :: "MetaFile list \<Rightarrow> MetaFile \<Rightarrow> pxar_error + MetaFile list" where
  "collect fs f = Inr (fs @ [f])"

definition regular :: "PNode \<Rightarrow> bool" where
  "regular n \<longleftrightarrow> \<not> pn_Hardlink n \<and> modeType (pe_Mode (pn_Entry n)) = ModeRegular"

definition meta_file :: "PNode \<Rightarrow> MetaFile" where
  "meta_file n = \<lparr> mf_Path = pn_Path n, mf_Meta = pn_meta n, mf_Size = pn_Size n, mf_PayloadOffset = pn_PayloadOffset n \<rparr>"

lemma decode_yields:
  "pr_err r = None \<Longrightarrow> yields (px_next r) pcs (s, Inl PxEOF) \<Longrightarrow>
     decode_loop collect r fs = Inr (pr_version s, fs @ map meta_file (filter regular (map fst pcs)))"
proof (induction pcs arbitrary: r fs)
  case Nil
  then show ?case by (simp add: decode_loop.simps [of _ r] px_Next_def)
next
  case (Cons pc pcs)
  then obtain s1 where s1: "px_next r = (s1, Inr (fst pc))" "pr_err s1 = None"
      "yields (px_next s1) pcs (s, Inl PxEOF)" by auto
  then have "px_Next r = (s1, Inr (fst pc))" using Cons.prems(1) by (simp add: px_Next_def)
  with Cons.IH [OF s1(2,3)] show ?case
    by (simp add: decode_loop.simps [of _ r] collect_def regular_def meta_file_def)
qed

lemma reads_as_files:
  assumes "reads_as v True P (n, path) (pn, c)" "node_ok n"
  shows "regular pn \<longleftrightarrow> nd_Kind n \<in> {KindFile, KindStream}"
    "regular pn \<Longrightarrow> (mf_Path (meta_file pn), mf_Meta (meta_file pn)) = (path, metadataBytes [] n)"
  using assms
  by (auto simp: reads_as_def regular_def meta_file_def meta_node_def new_node_def node_ok_def kind_mode_def
      modes_distinct' split: if_splits Kind.splits)

lemma files_of_reads:
  assumes "list_all2 (reads_as v True P) nps pcs" "\<forall>np \<in> set nps. node_ok (fst np)"
  shows "map (\<lambda>f. (mf_Path f, mf_Meta f)) (map meta_file (filter regular (map fst pcs))) =
    map (\<lambda>(n, path). (path, metadataBytes [] n)) (filter (\<lambda>(n, path). nd_Kind n \<in> {KindFile, KindStream}) nps)"
  using assms
proof (induction rule: list_all2_induct)
  case (Cons np nps pc pcs)
  obtain n path pn c where p: "np = (n, path)" "pc = (pn, c)" by fastforce
  show ?case using Cons reads_as_files [of v P n path pn c] unfolding p by auto
qed simp

lemma preorder_ok:
  "tree_ok d n \<Longrightarrow> \<forall>np \<in> set (preorder n path). node_ok (fst np)"
proof (induction n arbitrary: d path rule: measure_induct_rule [of size])
  case (less n)
  have "node_ok (fst np)" if "nd_Kind n = KindDirectory" "c \<in> set (nd_Children n)"
      "np \<in> set (preorder c p)" for c p np
    using less.IH [OF size_child [OF that(2)], of "d + 1" p] less.prems that
    by (auto simp: tree_ok.simps [of d n])
  then show ?case using less.prems by (auto simp: preorder.simps [of n] tree_ok.simps [of d n])
qed

text \<open>
  C16: change detection indexes what the metadata stream recorded.  For every tree the format holds,
  when the v2 metadata emitter succeeds with a prelude within the reader's limit, \<open>DecodeMetadata\<close> on
  its output recognises version 2 and visits exactly the regular files of the tree, in archive order,
  each with its path and with its metadata byte for byte as \<open>metadataBytes\<close> encodes it.
\<close>

theorem decode_metadata_v2:
  assumes "em_run H (syncSource os) prelude root (new_emitter ctx room (Some refs)) = (s', Inr ())"
    and "\<forall>n \<in> set (nodes_of root). \<forall>p. syncSource_open os n = Inr p \<longrightarrow> 0 \<le> sint (payload_Size p)"
    and "nd_Kind root = KindDirectory" "tree_ok 0 root" "\<forall>p. prelude = Some p \<longrightarrow> length p \<le> 2 ^ 20"
  shows "\<exists>fs. DecodeMetadata collect (em_out s') None [] = Inr (2, fs) \<and>
     map (\<lambda>f. (mf_Path f, mf_Meta f)) fs = map (\<lambda>(n, path). (path, metadataBytes [] n))
       (filter (\<lambda>(n, path). nd_Kind n \<in> {KindFile, KindStream}) (preorder root []))"
proof -
  have sz: "0 \<le> sint (ps_Size (syncSource os) p)"
    if "m \<in> set (nodes_of root)" "ps_open (syncSource os) m = Inr p" for m p
    using assms(2) that by (auto simp: syncSource_def)
  obtain bs x where bs: "cn_advances (es_w (new_emitter ctx room (Some refs))) (es_w s') (head_bytes True prelude @ bs)"
      "archived True (sync.holds os (Some (ref_sizes refs))) (goodbye_of H) root x bs"
    using sync.em_run_archived [OF assms(1)] sz by (auto simp: new_emitter_def)
  obtain pcs pos t l where y: "yields (px_next (start_reader 0 True (em_out s'))) pcs (rst True True [] [] pos t l, Inl PxEOF)"
      "list_all2 (reads_as True True (sync.holds os (Some (ref_sizes refs)))) (preorder root []) pcs"
    using archive_reads [OF bs(2) assms(3,4) _ assms(5), of 0 True] new_emitter_advances [OF bs(1)] by auto
  have "(NewReaderV1 (em_out s') None)\<lparr> pr_version := 0, pr_keepMeta := True \<rparr> = start_reader 0 True (em_out s')"
    by (simp add: start_reader_def NewReaderV1_def new_reader_def)
  then have "DecodeMetadata collect (em_out s') None [] = Inr (2, map meta_file (filter regular (map fst pcs)))"
    using decode_yields [OF _ y(1), of "[]"]
    by (simp add: DecodeMetadata_def start_reader_def new_reader_def) (simp add: rst_def)
  then show ?thesis using files_of_reads [OF y(2) preorder_ok [OF assms(4)]] by auto
qed

theorem decode_metadata_v2_witness:
  "\<exists>s' fs. em_run (\<lambda>_. 7) (syncSource no_files) (Some [1]) example_tree (new_emitter None None (Some example_refs)) = (s', Inr ()) \<and>
     DecodeMetadata collect (em_out s') None [] = Inr (2, fs) \<and> map mf_Path fs = [str ''a'']"
proof -
  obtain s' where s': "em_run (\<lambda>_. 7) (syncSource no_files) (Some [1]) example_tree (new_emitter None None (Some example_refs)) = (s', Inr ())"
    using example_emits_v2 by blast
  have op: "\<forall>n \<in> set (nodes_of example_tree). \<forall>p. syncSource_open no_files n = Inr p \<longrightarrow> 0 \<le> sint (payload_Size p)"
    using example_opens by blast
  obtain fs where fs: "DecodeMetadata collect (em_out s') None [] = Inr (2, fs)"
      "map (\<lambda>f. (mf_Path f, mf_Meta f)) fs = map (\<lambda>(n, path). (path, metadataBytes [] n))
       (filter (\<lambda>(n, path). nd_Kind n \<in> {KindFile, KindStream}) (preorder example_tree []))"
    using decode_metadata_v2 [OF s' op example_tree_ok(2,1)] by auto
  from fs(2) have "map fst (map (\<lambda>f. (mf_Path f, mf_Meta f)) fs) = [str ''a'']"
    by (simp add: preorder.simps example_tree_def joinArchive_def)
  then show ?thesis using s' fs(1) by (auto simp: comp_def)
qed

end
