(* ===== verification/Scan_Tree.thy ===== *)
theory Scan_Tree
  imports Scanner Roundtrip "HOL-Library.Sublist"
begin

unbundle bit_operations_syntax

text \<open>
  What a scan leaves.  Whatever the file system answers, the pattern list is the same after a
  directory as before it and the matcher never panics; a tree that comes out is well formed, its
  children in the order the file system lists them; and, when entries are not skipped on errors, every
  hardlink names a file that stands before it in archive order, which is what the emitter needs.
\<close>

subsection \<open>Patterns\<close>

definition pats_ok :: "Scanner_st \<Rightarrow> bool" where
  "pats_ok s \<longleftrightarrow> list_all compiled (ss_patterns s)"

lemma excluded_ok:
  assumes "excluded o' absp apath st s = (s', x)" "pats_ok s"
  shows "ss_patterns s' = ss_patterns s \<and> x \<noteq> Inl ScPanic \<and> ss_hardlinks s' = ss_hardlinks s"
proof -
  have "list_all compiled (rev (ss_patterns s))" using assms(2) by (simp add: pats_ok_def list_all_iff)
  then obtain mt ok where "PatternList_Match (ss_patterns s) apath (modeType (st_Mode st) = ModeDir) = Some (mt, ok)"
    unfolding PatternList_Match_def using go_match_total by blast
  then show ?thesis using assms(1) by (auto simp: excluded_def Let_def split: if_splits)
qed

lemma readExtras_no_panic: "readExtras o' r n f \<noteq> Inl ScPanic"
  by (auto simp: readExtras_def split: sum.splits prod.splits if_splits)

lemma scan_leaf_ok:
  "scan_leaf o' r absp name apath st s = (s', x) \<Longrightarrow> ss_patterns s' = ss_patterns s \<and> x \<noteq> Inl ScPanic"
  using readExtras_no_panic [of o' r]
  by (auto simp: scan_leaf_def Let_def split: if_splits sum.splits)

lemma ParseLine_compiled: "parseExcludeLine line dir = Inr p \<Longrightarrow> compiled p"
  by (auto simp: parseExcludeLine_def Let_def split: sum.splits pattern_error.splits dest: ParsePattern_ok(3))

lemma exclude_lines_ok:
  "pats_ok s \<Longrightarrow> \<exists>ps. ss_patterns (exclude_lines path dir ls s) = ss_patterns s @ ps \<and>
     pats_ok (exclude_lines path dir ls s) \<and> ss_hardlinks (exclude_lines path dir ls s) = ss_hardlinks s"
proof (induction path dir ls s rule: exclude_lines.induct)
  case (2 path dir l ls s)
  let ?line = "trim_blank l"
  show ?case
  proof (cases "?line = [] \<or> hd ?line = 35")
    case True
    then show ?thesis using 2 by auto
  next
    case False
    show ?thesis
    proof (cases "parseExcludeLine ?line dir")
      case (Inl e)
      have "pats_ok (sc_warn s path (ScPattern e))" using "2.prems" by (simp add: pats_ok_def sc_warn_def)
      from "2.IH"(2) [OF refl False Inl this] show ?thesis using False Inl by (simp add: sc_warn_def Let_def)
    next
      case (Inr p)
      have "pats_ok (s\<lparr> ss_patterns := ss_patterns s @ [p] \<rparr>)"
        using "2.prems" ParseLine_compiled [OF Inr] by (simp add: pats_ok_def)
      from "2.IH"(3) [OF refl False Inr this] show ?thesis using False Inr by (auto simp: Let_def)
    qed
  qed
qed auto

lemma readPxarExclude_ok:
  assumes "readPxarExclude r absp apath s = (s', x)" "pats_ok s"
  shows "\<exists>ps. ss_patterns s' = ss_patterns s @ ps \<and> pats_ok s' \<and> ss_hardlinks s' = ss_hardlinks s \<and> x \<noteq> Inl ScPanic"
  using assms exclude_lines_ok [OF assms(2)]
  by (auto simp: readPxarExclude_def Let_def split: sum.splits if_splits)

text \<open>The walk keeps a condition on node scans when the scan of one child keeps it.\<close>

definition keeps :: "(Scanner_st \<Rightarrow> 'a scres) \<Rightarrow> bool" where
  "keeps f \<longleftrightarrow> (\<forall>s s' x. f s = (s', x) \<longrightarrow> pats_ok s \<longrightarrow> ss_patterns s' = ss_patterns s \<and> x \<noteq> Inl ScPanic)"

lemma keepsD: "keeps f \<Longrightarrow> f s = (s', x) \<Longrightarrow> pats_ok s \<Longrightarrow> ss_patterns s' = ss_patterns s \<and> pats_ok s' \<and> x \<noteq> Inl ScPanic"
  by (simp add: keeps_def pats_ok_def)

lemma scan_names_keeps: "(\<And>name. keeps (child name)) \<Longrightarrow> keeps (scan_names o' child absp names)"
proof (induction names)
  case (Cons name names)
  show ?case unfolding keeps_def
  proof (intro allI impI)
    fix s s' x assume e: "scan_names o' child absp (name # names) s = (s', x)" and ok: "pats_ok s"
    obtain s1 y where c: "child name s = (s1, y)" by fastforce
    note k = keepsD [OF Cons.prems c ok]
    have r: "ss_patterns s2 = ss_patterns t \<and> z \<noteq> Inl ScPanic"
      if "scan_names o' child absp names t = (s2, z)" "ss_patterns t = ss_patterns s1" for t s2 z
      using Cons.IH [OF Cons.prems] that k unfolding keeps_def pats_ok_def by metis
    obtain s2 z where n: "scan_names o' child absp names s1 = (s2, z)" by fastforce
    show "ss_patterns s' = ss_patterns s \<and> x \<noteq> Inl ScPanic"
    proof (cases y)
      case (Inl err)
      show ?thesis
      proof (cases "skippable o' err")
        case True
        then show ?thesis using e c Inl r [of "sc_warn s1 (path_Join absp name) err"] k by (auto simp: sc_warn_def)
      qed (use e c Inl k in auto)
    next
      case (Inr opt)
      then show ?thesis using e c n k r [OF n refl] by (cases opt; cases z) auto
    qed
  qed
qed (simp add: keeps_def)

lemma scanChild_keeps:
  assumes "\<And>st. keeps (node absp name apath st)"
  shows "keeps (scanChild o' r node absp name apath)"
  unfolding keeps_def
proof (intro allI impI)
  fix s s' x assume e: "scanChild o' r node absp name apath s = (s', x)" and ok: "pats_ok s"
  show "ss_patterns s' = ss_patterns s \<and> x \<noteq> Inl ScPanic"
  proof (cases "ValidateFilename name = None \<and> (\<exists>st. mr_Lstat r absp = Inr st)")
    case True
    then obtain st where st: "ValidateFilename name = None" "mr_Lstat r absp = Inr st" by blast
    obtain s1 y where x: "excluded o' absp apath st s = (s1, y)" by fastforce
    note xo = excluded_ok [OF x ok]
    obtain s2 z where n: "node absp name apath st s1 = (s2, z)" by fastforce
    have "ss_patterns s2 = ss_patterns s1 \<and> pats_ok s2 \<and> z \<noteq> Inl ScPanic"
      by (rule keepsD [OF assms n]) (use xo ok in \<open>simp add: pats_ok_def\<close>)
    then show ?thesis using e st x xo n
      by (cases y; cases z) (auto simp: scanChild_def split: if_splits bool.splits)
  qed (use e in \<open>auto simp: scanChild_def split: option.splits sum.splits\<close>)
qed

lemma dir_excludes_ok:
  assumes "dir_excludes o' r absp apath s = (s', x)" "pats_ok s"
  shows "\<exists>ps. ss_patterns s' = ss_patterns s @ ps" "pats_ok s'" "x \<noteq> Inl ScPanic"
proof -
  have k: "(\<exists>ps. ss_patterns t = ss_patterns s @ ps) \<and> pats_ok t \<and> y \<noteq> Inl ScPanic" if "readPxarExclude r absp apath s = (t, y)" for t y
    using readPxarExclude_ok [OF that assms(2)] by auto
  have "(\<exists>ps. ss_patterns s' = ss_patterns s @ ps) \<and> pats_ok s' \<and> x \<noteq> Inl ScPanic"
    using assms k by (auto simp: dir_excludes_def sc_warn_def pats_ok_def split: if_splits prod.splits sum.splits)
  then show "\<exists>ps. ss_patterns s' = ss_patterns s @ ps" "pats_ok s'" "x \<noteq> Inl ScPanic" by auto
qed

lemma scan_dir_keeps:
  assumes "\<And>a name p st. keeps (node a name p st)"
  shows "keeps (scan_dir o' r node n absp apath)"
  unfolding keeps_def
proof (intro allI impI)
  fix s s' x assume e: "scan_dir o' r node n absp apath s = (s', x)" and ok: "pats_ok s"
  let ?pop = "\<lambda>t. t\<lparr> ss_patterns := take (length (ss_patterns s)) (ss_patterns t) \<rparr>"
  obtain s2 z where q: "dir_excludes o' r absp apath s = (s2, z)" by fastforce
  note s2 = dir_excludes_ok [OF q ok]
  note u = e [unfolded scan_dir_def Let_def q prod.case]
  have pop: "ss_patterns t = ss_patterns s2 \<Longrightarrow> ss_patterns (?pop t) = ss_patterns s" for t using s2(1) by auto
  show "ss_patterns s' = ss_patterns s \<and> x \<noteq> Inl ScPanic"
  proof (cases "\<exists>names. z = Inr () \<and> mr_ReadDirNames r absp = Inr names")
    case True
    then obtain names where names: "z = Inr ()" "mr_ReadDirNames r absp = Inr names" by blast
    let ?ch = "\<lambda>name. scanChild o' r node (path_Join absp name) name (joinArchive apath name)"
    obtain s3 w where w: "scan_names o' ?ch absp names s2 = (s3, w)" by fastforce
    have "ss_patterns s3 = ss_patterns s2 \<and> pats_ok s3 \<and> w \<noteq> Inl ScPanic"
      by (rule keepsD [OF scan_names_keeps [OF scanChild_keeps [OF assms]] w])
        (use s2(2) in \<open>simp add: pats_ok_def\<close>)
    then show ?thesis using u names w pop [of s3] s2 by (cases w) auto
  next
    case False
    then show ?thesis using u pop [of s2] s2 by (cases z) (auto split: sum.splits)
  qed
qed

lemma scanNode_keeps: "keeps (scanNode o' r k absp name apath st)"
proof (induction k arbitrary: absp name apath st)
  case 0
  then show ?case by (auto simp: keeps_def dest: scan_leaf_ok)
next
  case (Suc k)
  show ?case unfolding keeps_def
  proof (intro allI impI)
    fix s s' x assume e: "scanNode o' r (Suc k) absp name apath st s = (s', x)" and ok: "pats_ok s"
    have d: "keeps (scan_dir o' r (scanNode o' r k) n absp apath)" for n by (rule scan_dir_keeps [OF Suc])
    show "ss_patterns s' = ss_patterns s \<and> x \<noteq> Inl ScPanic"
      using e ok d [unfolded keeps_def] readExtras_no_panic [of o' r]
      by (auto simp: Let_def split: if_splits sum.splits dest: scan_leaf_ok)
  qed
qed


subsection \<open>The tree\<close>

definition link_source :: "Node \<times> bytes \<Rightarrow> bool" where
  "link_source np \<longleftrightarrow> nd_Kind (fst np) = KindFile \<and> 1 < st_Nlink (nd_Stat (fst np))"

definition sources :: "(Node \<times> bytes) list \<Rightarrow> bytes set" where
  "sources xs = snd ` {np \<in> set xs. link_source np}"

text \<open>Every hardlink of a walk names a file before it, or one of \<open>A\<close>.\<close>

fun links_ok :: "bytes set \<Rightarrow> (Node \<times> bytes) list \<Rightarrow> bool" where
  "links_ok A [] \<longleftrightarrow> True"
| "links_ok A (np # xs) \<longleftrightarrow>
     (nd_Kind (fst np) = KindHardlink \<longrightarrow> nd_LinkTarget (fst np) \<in> A) \<and>
     links_ok (if link_source np then insert (snd np) A else A) xs"

lemma sources_simps [simp]:
  "sources [] = {}" "sources (np # xs) = (if link_source np then insert (snd np) (sources xs) else sources xs)"
  "sources (xs @ ys) = sources xs \<union> sources ys"
  by (auto simp: sources_def)

lemma links_ok_append: "links_ok A (xs @ ys) \<longleftrightarrow> links_ok A xs \<and> links_ok (A \<union> sources xs) ys"
  by (induction A xs rule: links_ok.induct) auto

lemma links_ok_mono: "links_ok A xs \<Longrightarrow> A \<subseteq> B \<Longrightarrow> links_ok B xs"
proof (induction A xs arbitrary: B rule: links_ok.induct)
  case (2 A np xs)
  have "(if link_source np then insert (snd np) A else A) \<subseteq> (if link_source np then insert (snd np) B else B)"
    using "2.prems"(2) by auto
  then show ?case using 2 by auto
qed simp

fun scanned_ok :: "MetadataReader \<Rightarrow> Node \<Rightarrow> bool" where
  "scanned_ok r n \<longleftrightarrow>
     kind_mode (nd_Kind n) (st_Mode (nd_Stat n)) \<and>
     (if nd_Kind n = KindDirectory then
        (\<exists>names. mr_ReadDirNames r (nd_Path n) = Inr names \<and> subseq (map nd_Name (nd_Children n)) names) \<and>
        (\<forall>c \<in> set (nd_Children n). ValidateFilename (nd_Name c) = None \<and> scanned_ok r c)
      else nd_Children n = [])"

declare scanned_ok.simps [simp del]

abbreviation walk :: "bytes \<Rightarrow> Node list \<Rightarrow> (Node \<times> bytes) list" where
  "walk apath ns \<equiv> concat (map (\<lambda>c. preorder c (joinArchive apath (nd_Name c))) ns)"

definition links_step :: "Options_sc \<Rightarrow> Scanner_st \<Rightarrow> Scanner_st \<Rightarrow> (Node \<times> bytes) list \<Rightarrow> bool" where
  "links_step o' s s' xs \<longleftrightarrow> (\<not> so_SkipOnError o' \<longrightarrow>
     links_ok (ran (ss_hardlinks s)) xs \<and> ran (ss_hardlinks s') \<subseteq> ran (ss_hardlinks s) \<union> sources xs)"

lemma links_step_append:
  assumes "links_step o' a b xs" "links_step o' b c ys"
  shows "links_step o' a c (xs @ ys)"
  using assms links_ok_mono [of "ran (ss_hardlinks b)" ys "ran (ss_hardlinks a) \<union> sources xs"]
  by (auto simp: links_step_def links_ok_append)

lemma links_step_same: "ss_hardlinks s' = ss_hardlinks s \<Longrightarrow> links_step o' s s' []"
  by (simp add: links_step_def)

definition good :: "Options_sc \<Rightarrow> MetadataReader \<Rightarrow> bytes \<Rightarrow> bytes \<Rightarrow> (Scanner_st \<Rightarrow> Node scres) \<Rightarrow> bool" where
  "good o' r name apath f \<longleftrightarrow> (\<forall>s s' n. f s = (s', Inr n) \<longrightarrow>
     nd_Name n = name \<and> scanned_ok r n \<and> links_step o' s s' (preorder n apath))"

lemma readExtras_same:
  "readExtras o' r n f = Inr n' \<Longrightarrow> nd_Name n' = nd_Name n \<and> nd_Path n' = nd_Path n \<and> nd_Kind n' = nd_Kind n \<and>
     nd_Stat n' = nd_Stat n \<and> nd_Children n' = nd_Children n \<and> nd_LinkTarget n' = nd_LinkTarget n"
  by (auto simp: readExtras_def split: sum.splits prod.splits)

lemma scan_leaf_good: "modeType (st_Mode st) \<noteq> ModeDir \<Longrightarrow> good o' r name apath (scan_leaf o' r absp name apath st)"
  unfolding good_def
proof (intro allI impI)
  fix s s' n assume nd: "modeType (st_Mode st) \<noteq> ModeDir" and e: "scan_leaf o' r absp name apath st s = (s', Inr n)"
  let ?m = "modeType (st_Mode st)"
  have base: "nd_Name n = name \<and> nd_Stat n = st \<and> nd_Children n = [] \<and> kind_mode (nd_Kind n) (st_Mode st) \<and> nd_Kind n \<noteq> KindDirectory"
    using e nd by (auto simp: scan_leaf_def Let_def kind_mode_def modes_distinct' dest!: readExtras_same split: if_splits sum.splits)
  have links: "(nd_Kind n = KindHardlink \<longrightarrow> nd_LinkTarget n \<in> ran (ss_hardlinks s)) \<and>
      ran (ss_hardlinks s') \<subseteq> ran (ss_hardlinks s) \<union> (if link_source (n, apath) then {apath} else {})"
  proof (cases "?m = ModeRegular")
    case True
    let ?k = "(st_Dev st, st_Ino st)"
    show ?thesis
    proof (cases "1 < st_Nlink st \<and> ss_hardlinks s ?k \<noteq> None")
      case True
      then show ?thesis using e \<open>?m = ModeRegular\<close> by (auto simp: scan_leaf_def Let_def intro: ranI)
    next
      case False
      then have s': "s' = (if 1 < st_Nlink st then s\<lparr> ss_hardlinks := (ss_hardlinks s)(?k \<mapsto> apath) \<rparr> else s)"
          "nd_Kind n = KindFile"
        using e True by (auto simp: scan_leaf_def Let_def dest!: readExtras_same split: if_splits)
      moreover have "ran ((ss_hardlinks s)(?k \<mapsto> apath)) \<subseteq> insert apath (ran (ss_hardlinks s))" by (auto simp: ran_def)
      ultimately show ?thesis using base by (auto simp: link_source_def)
    qed
  next
    case False
    then show ?thesis using e by (auto simp: scan_leaf_def Let_def dest!: readExtras_same split: if_splits sum.splits)
  qed
  have "preorder n apath = [(n, apath)]" using base by (simp add: preorder_leaf)
  then show "nd_Name n = name \<and> scanned_ok r n \<and> links_step o' s s' (preorder n apath)"
    using base links by (auto simp: scanned_ok.simps [of r n] links_step_def split: if_splits)
qed

lemma scanChild_good:
  assumes "\<And>st. good o' r name apath (node absp name apath st)" "scanChild o' r node absp name apath s = (s', Inr opt)"
  shows "case opt of None \<Rightarrow> ss_hardlinks s' = ss_hardlinks s
    | Some n \<Rightarrow> nd_Name n = name \<and> ValidateFilename name = None \<and> scanned_ok r n \<and> links_step o' s s' (preorder n apath)"
proof -
  have v: "ValidateFilename name = None" using assms(2) by (auto simp: scanChild_def split: option.splits)
  obtain st where st: "mr_Lstat r absp = Inr st" using assms(2) v by (auto simp: scanChild_def split: sum.splits)
  obtain s1 b where x: "excluded o' absp apath st s = (s1, Inr b)"
    using assms(2) v st by (auto simp: scanChild_def split: prod.splits sum.splits)
  have h: "ss_hardlinks s1 = ss_hardlinks s"
    using x by (auto simp: excluded_def Let_def split: option.splits prod.splits if_splits)
  show ?thesis
  proof (cases b)
    case True
    then show ?thesis using assms(2) v st x h by (auto simp: scanChild_def)
  next
    case False
    then obtain n where n: "node absp name apath st s1 = (s', Inr n)" "opt = Some n"
      using assms(2) v st x by (auto simp: scanChild_def split: prod.splits sum.splits)
    have "nd_Name n = name \<and> scanned_ok r n \<and> links_step o' s1 s' (preorder n apath)"
      using assms(1) n(1) unfolding good_def by blast
    then show ?thesis using n(2) v h by (simp add: links_step_def)
  qed
qed

lemma scan_names_good:
  assumes child: "\<And>name s s' opt. child name s = (s', Inr opt) \<Longrightarrow> (case opt of None \<Rightarrow> ss_hardlinks s' = ss_hardlinks s
      | Some n \<Rightarrow> nd_Name n = name \<and> ValidateFilename name = None \<and> scanned_ok r n \<and>
          links_step o' s s' (preorder n (joinArchive apath name)))"
    and "scan_names o' child absp names s = (s', Inr ns)"
  shows "subseq (map nd_Name ns) names \<and> (\<forall>n \<in> set ns. ValidateFilename (nd_Name n) = None \<and> scanned_ok r n) \<and>
    links_step o' s s' (walk apath ns)"
  using assms(2)
proof (induction names arbitrary: s ns)
  case Nil
  then show ?case by (simp add: links_step_same)
next
  case (Cons name names)
  obtain s1 y where c: "child name s = (s1, y)" by fastforce
  show ?case
  proof (cases y)
    case (Inl e)
    then have sk: "skippable o' e" using Cons.prems c by (auto split: if_splits)
    then have "subseq (map nd_Name ns) names \<and> (\<forall>n \<in> set ns. ValidateFilename (nd_Name n) = None \<and> scanned_ok r n)"
      using Cons.IH [of "sc_warn s1 (path_Join absp name) e" ns] Cons.prems c Inl by simp
    then show ?thesis using sk by (auto simp: links_step_def skippable_def)
  next
    case (Inr opt)
    note ch = child [OF c [unfolded Inr]]
    show ?thesis
    proof (cases opt)
      case None
      have "links_step o' s s' ([] @ walk apath ns)"
        by (rule links_step_append [of _ _ s1]) (use Cons.IH [of s1 ns] Cons.prems c Inr None ch in \<open>auto simp: links_step_same\<close>)
      then show ?thesis using Cons.IH [of s1 ns] Cons.prems c Inr None by auto
    next
      case (Some n)
      obtain ns' where ns': "scan_names o' child absp names s1 = (s', Inr ns')" "ns = n # ns'"
        using Cons.prems c Inr Some by (auto split: prod.splits sum.splits)
      have ch': "nd_Name n = name" "ValidateFilename name = None" "scanned_ok r n"
          "links_step o' s s1 (preorder n (joinArchive apath name))" using ch Some by simp_all
      have "links_step o' s s' (preorder n (joinArchive apath name) @ walk apath ns')"
        using links_step_append [OF ch'(4)] Cons.IH [OF ns'(1)] by blast
      then show ?thesis using Cons.IH [OF ns'(1)] ns'(2) ch' by auto
    qed
  qed
qed

lemma exclude_lines_links: "ss_hardlinks (exclude_lines path dir ls s) = ss_hardlinks s"
  by (induction path dir ls s rule: exclude_lines.induct) (auto simp: Let_def sc_warn_def split: sum.splits)

lemma scan_dir_good:
  assumes node: "\<And>a name p st. good o' r name p (node a name p st)"
    and n: "nd_Kind n = KindDirectory" "kind_mode KindDirectory (st_Mode (nd_Stat n))" "nd_Path n = absp" "nd_Name n = name"
  shows "good o' r name apath (scan_dir o' r node n absp apath)"
  unfolding good_def
proof (intro allI impI)
  fix s s' m assume e: "scan_dir o' r node n absp apath s = (s', Inr m)"
  obtain s2 z where q: "dir_excludes o' r absp apath s = (s2, z)" by fastforce
  have s2: "ss_hardlinks s2 = ss_hardlinks s"
    using q exclude_lines_links
    by (auto simp: dir_excludes_def readPxarExclude_def Let_def sc_warn_def split: if_splits sum.splits)
  note u = e [unfolded scan_dir_def Let_def q prod.case]
  let ?ch = "\<lambda>name. scanChild o' r node (path_Join absp name) name (joinArchive apath name)"
  obtain names s3 ns where w: "mr_ReadDirNames r absp = Inr names" "scan_names o' ?ch absp names s2 = (s3, Inr ns)"
      "ss_hardlinks s' = ss_hardlinks s3"
      "m = Node (nd_Name n) (nd_Path n) (nd_Kind n) (nd_Stat n) (nd_LinkTarget n)
         (nd_Xattrs n) (nd_ACL n) (nd_FCaps n) (nd_QuotaProjID n) ns (nd_Stream n)"
    using u by (auto split: sum.splits prod.splits)
  have g: "subseq (map nd_Name ns) names \<and> (\<forall>n \<in> set ns. ValidateFilename (nd_Name n) = None \<and> scanned_ok r n) \<and>
      links_step o' s2 s3 (walk apath ns)"
    by (rule scan_names_good [OF _ w(2)]) (rule scanChild_good [where node = node, OF node], assumption)
  have po: "preorder m apath = (m, apath) # walk apath ns" "nd_Kind m = KindDirectory"
    unfolding preorder.simps [of m] using w(4) n(1) by simp_all
  have "links_step o' s s' (preorder m apath)"
    using g s2 w(3) po by (simp add: links_step_def link_source_def)
  then show "nd_Name m = name \<and> scanned_ok r m \<and> links_step o' s s' (preorder m apath)"
    unfolding scanned_ok.simps [of r m] using g n w(1,4) by auto
qed

lemma scanNode_good: "good o' r name apath (scanNode o' r k absp name apath st)"
proof (induction k arbitrary: absp name apath st)
  case 0
  then show ?case using scan_leaf_good [of st o' r name apath absp]
    by (cases "modeType (st_Mode st) = ModeDir") (auto simp: good_def)
next
  case (Suc k)
  show ?case
  proof (cases "modeType (st_Mode st) = ModeDir")
    case False
    then show ?thesis using scan_leaf_good [OF False, of o' r name apath absp] by (simp add: good_def)
  next
    case True
    let ?n = "Node name absp KindDirectory st [] [] None [] 0 [] None"
    have g: "good o' r name apath (scan_dir o' r (scanNode o' r k) n absp apath)"
      if "n = ?n \<or> readExtras o' r ?n True = Inr n" for n
      by (rule scan_dir_good [OF Suc]) (use that True readExtras_same [of o' r ?n True n] in \<open>auto simp: kind_mode_def\<close>)
    show ?thesis unfolding good_def
    proof (intro allI impI)
      fix s s' m assume e: "scanNode o' r (Suc k) absp name apath st s = (s', Inr m)"
      obtain n where "n = ?n \<or> readExtras o' r ?n True = Inr n"
          "scan_dir o' r (scanNode o' r k) n absp apath s = (s', Inr m)"
        using e True by (auto simp: Let_def split: if_splits sum.splits)
      with g [of n] show "nd_Name m = name \<and> scanned_ok r m \<and> links_step o' s s' (preorder m apath)"
        unfolding good_def by blast
    qed
  qed
qed


subsection \<open>Fuel\<close>

text \<open>The tree below a path has at most \<open>k\<close> levels of directories.\<close>

primrec shallow :: "MetadataReader \<Rightarrow> nat \<Rightarrow> bytes \<Rightarrow> Stat \<Rightarrow> bool" where
  "shallow r 0 = (\<lambda>absp st. modeType (st_Mode st) \<noteq> ModeDir)"
| "shallow r (Suc k) = (\<lambda>absp st. modeType (st_Mode st) = ModeDir \<longrightarrow>
     (case mr_ReadDirNames r absp of
        Inl e \<Rightarrow> True
      | Inr names \<Rightarrow> list_all (\<lambda>name. case mr_Lstat r (path_Join absp name) of
          Inl e \<Rightarrow> True | Inr st' \<Rightarrow> shallow r k (path_Join absp name) st') names))"

lemma shallow_leaf: "modeType (st_Mode st) \<noteq> ModeDir \<Longrightarrow> shallow r k absp st"
  by (cases k) auto

lemma readExtras_depth: "readExtras o' r n f \<noteq> Inl ScDepth"
  by (auto simp: readExtras_def split: sum.splits prod.splits if_splits)

lemma excluded_depth: "snd (excluded o' absp apath st s) \<noteq> Inl ScDepth"
  by (auto simp: excluded_def Let_def split: option.splits)

lemma scan_leaf_depth: "snd (scan_leaf o' r absp name apath st s) \<noteq> Inl ScDepth"
  using readExtras_depth [of o' r] by (auto simp: scan_leaf_def Let_def split: sum.splits)

lemma scanChild_depth:
  assumes "\<And>st s. mr_Lstat r absp = Inr st \<Longrightarrow> snd (node absp name apath st s) \<noteq> Inl ScDepth"
  shows "snd (scanChild o' r node absp name apath s) \<noteq> Inl ScDepth"
  using assms excluded_depth [of o' absp apath]
  by (auto simp: scanChild_def split: option.splits sum.splits prod.splits bool.splits) (metis snd_conv)+

lemma scan_names_depth:
  "(\<And>name s. name \<in> set names \<Longrightarrow> snd (child name s) \<noteq> Inl ScDepth) \<Longrightarrow>
     snd (scan_names o' child absp names s) \<noteq> Inl ScDepth"
proof (induction names arbitrary: s)
  case (Cons name names)
  have "snd (child name s) \<noteq> Inl ScDepth" "\<And>t. snd (scan_names o' child absp names t) \<noteq> Inl ScDepth"
    using Cons by auto
  then show ?case by (auto split: prod.splits sum.splits option.splits) (metis snd_conv)+
qed simp

lemma dir_excludes_depth: "snd (dir_excludes o' r d p s) \<noteq> Inl ScDepth"
  by (auto simp: dir_excludes_def readPxarExclude_def Let_def split: sum.splits)

lemma scanNode_depth: "shallow r k absp st \<Longrightarrow> snd (scanNode o' r k absp name apath st s) \<noteq> Inl ScDepth"
proof (induction k arbitrary: absp name apath st s)
  case 0
  then show ?case by (simp add: scan_leaf_depth)
next
  case (Suc k)
  show ?case
  proof (cases "modeType (st_Mode st) = ModeDir")
    case True
    let ?ch = "\<lambda>name. scanChild o' r (scanNode o' r k) (path_Join absp name) name (joinArchive apath name)"
    have ch: "snd (scan_names o' ?ch absp names t) \<noteq> Inl ScDepth" if "mr_ReadDirNames r absp = Inr names" for names t
    proof (rule scan_names_depth, rule scanChild_depth)
      fix name' st' t' assume "name' \<in> set names" "mr_Lstat r (path_Join absp name') = Inr st'"
      then have "shallow r k (path_Join absp name') st'" using Suc.prems True that by (auto simp: list_all_iff)
      then show "snd (scanNode o' r k (path_Join absp name') name' (joinArchive apath name') st' t') \<noteq> Inl ScDepth"
        by (rule Suc.IH)
    qed
    have "snd (scan_dir o' r (scanNode o' r k) n absp apath t) \<noteq> Inl ScDepth" for n t
    proof -
      obtain s2 z where q: "dir_excludes o' r absp apath t = (s2, z)" by fastforce
      then have z: "z \<noteq> Inl ScDepth" using dir_excludes_depth [of o' r absp apath t] by simp
      have c: "snd x \<noteq> Inl ScDepth \<Longrightarrow> snd (case x of (s, Inl e) \<Rightarrow> (f s, Inl e) | (s, Inr ns) \<Rightarrow> (f s, Inr (g ns))) \<noteq> Inl ScDepth"
        for x :: "Node list scres" and f :: "Scanner_st \<Rightarrow> Scanner_st" and g :: "Node list \<Rightarrow> Node"
        by (auto split: prod.splits sum.splits)
      show ?thesis unfolding scan_dir_def Let_def q using z
        by (cases z; cases "mr_ReadDirNames r absp") (simp_all add: c ch)
    qed
    then show ?thesis using True readExtras_depth [of o' r] by (auto simp: Let_def split: sum.splits)
  qed (simp add: scan_leaf_depth)
qed

text \<open>More fuel does not change an outcome.\<close>

definition agree :: "(Scanner_st \<Rightarrow> 'a scres) \<Rightarrow> (Scanner_st \<Rightarrow> 'a scres) \<Rightarrow> bool" where
  "agree f g \<longleftrightarrow> (\<forall>s. snd (f s) \<noteq> Inl ScDepth \<longrightarrow> g s = f s)"

lemma agreeD: "agree f g \<Longrightarrow> f s = (s', x) \<Longrightarrow> x \<noteq> Inl ScDepth \<Longrightarrow> g s = (s', x)"
  by (metis agree_def snd_conv)

lemma scanChild_agree:
  assumes "\<And>st. agree (node absp name apath st) (node' absp name apath st)"
  shows "agree (scanChild o' r node absp name apath) (scanChild o' r node' absp name apath)"
  unfolding agree_def
proof (intro allI impI)
  fix s assume d: "snd (scanChild o' r node absp name apath s) \<noteq> Inl ScDepth"
  show "scanChild o' r node' absp name apath s = scanChild o' r node absp name apath s"
  proof (cases "\<exists>st t. ValidateFilename name = None \<and> mr_Lstat r absp = Inr st \<and> excluded o' absp apath st s = (t, Inr False)")
    case True
    then obtain st t where h: "ValidateFilename name = None" "mr_Lstat r absp = Inr st"
        "excluded o' absp apath st s = (t, Inr False)" by blast
    obtain t' x where n: "node absp name apath st t = (t', x)" by fastforce
    then have "x \<noteq> Inl ScDepth" using d h by (auto simp: scanChild_def)
    then show ?thesis using h n agreeD [OF assms n] by (simp add: scanChild_def)
  qed (auto simp: scanChild_def split: option.splits sum.splits prod.splits bool.splits)
qed

lemma scan_names_agree:
  assumes "\<And>name. agree (child name) (child' name)"
  shows "agree (scan_names o' child absp names) (scan_names o' child' absp names)"
proof (induction names)
  case (Cons name names)
  show ?case unfolding agree_def
  proof (intro allI impI)
    fix s assume d: "snd (scan_names o' child absp (name # names) s) \<noteq> Inl ScDepth"
    obtain s1 x where c: "child name s = (s1, x)" by fastforce
    then have "x \<noteq> Inl ScDepth" using d by (auto simp: skippable_def)
    note c' = agreeD [OF assms c this]
    have r: "scan_names o' child' absp names t = scan_names o' child absp names t"
      if "snd (scan_names o' child absp names t) \<noteq> Inl ScDepth" for t using Cons.IH that by (simp add: agree_def)
    show "scan_names o' child' absp (name # names) s = scan_names o' child absp (name # names) s"
    proof (cases x)
      case (Inl e)
      then show ?thesis using d c c' r [of "sc_warn s1 (path_Join absp name) e"] by (auto split: if_splits)
    next
      case (Inr opt)
      then have "snd (scan_names o' child absp names s1) \<noteq> Inl ScDepth" using d c
        by (cases opt) (auto split: prod.splits sum.splits)
      from r [OF this] show ?thesis using c c' Inr by (cases opt) auto
    qed
  qed
qed (simp add: agree_def)

lemma scan_dir_agree:
  assumes "\<And>a name p st. agree (node a name p st) (node' a name p st)"
  shows "agree (scan_dir o' r node n absp apath) (scan_dir o' r node' n absp apath)"
  unfolding agree_def
proof (intro allI impI)
  fix s assume d: "snd (scan_dir o' r node n absp apath s) \<noteq> Inl ScDepth"
  obtain s2 z where q: "dir_excludes o' r absp apath s = (s2, z)" by fastforce
  let ?ch = "\<lambda>node name. scanChild o' r node (path_Join absp name) name (joinArchive apath name)"
  note u = d [unfolded scan_dir_def Let_def q prod.case]
  have a: "agree (scan_names o' (?ch node) absp names) (scan_names o' (?ch node') absp names)" for names
    by (intro scan_names_agree scanChild_agree assms)
  have "scan_names o' (?ch node') absp names s2 = scan_names o' (?ch node) absp names s2"
    if "z = Inr ()" "mr_ReadDirNames r absp = Inr names" for names
    using a [of names] u that by (auto simp: agree_def split: prod.splits sum.splits)
  then show "scan_dir o' r node' n absp apath s = scan_dir o' r node n absp apath s"
    unfolding scan_dir_def Let_def q prod.case by (cases z) (auto split: sum.splits)
qed

lemma scanNode_Suc: "agree (scanNode o' r k absp name apath st) (scanNode o' r (Suc k) absp name apath st)"
proof (induction k arbitrary: absp name apath st)
  case 0
  then show ?case by (auto simp: agree_def)
next
  case (Suc k)
  have "agree (scan_dir o' r (scanNode o' r k) n absp apath) (scan_dir o' r (scanNode o' r (Suc k)) n absp apath)" for n
    by (rule scan_dir_agree [OF Suc])
  then show ?case
    unfolding scanNode.simps(2) [of o' r "Suc k"] unfolding scanNode.simps(2) [of o' r k]
    by (auto simp: agree_def Let_def simp del: scanNode.simps split: sum.splits)
qed

lemma scanNode_fuel:
  assumes "snd (scanNode o' r k absp name apath st s) \<noteq> Inl ScDepth"
  shows "scanNode o' r (k + j) absp name apath st s = scanNode o' r k absp name apath st s"
proof (induction j)
  case (Suc j)
  then show ?case using scanNode_Suc [of o' r "k + j" absp name apath st] assms by (simp add: agree_def del: scanNode.simps)
qed simp

end
