(* ===== verification/Links.thy ===== *)
theory Links
  imports Scan_Tree
begin

unbundle bit_operations_syntax

text \<open>
  Scanner and emitter together.  The emitter fails on a hardlink whose target it has not written yet;
  a tree in which every hardlink names an earlier file is emitted without that error, and the scanner
  builds such trees.
\<close>

subsection \<open>The emitter\<close>

definition is_link :: "emit_error \<Rightarrow> bool" where
  "is_link e \<longleftrightarrow> (\<exists>p t. e = EmHardlink p t)"

definition quiet :: "'p payloadSource \<Rightarrow> bool" where
  "quiet src \<longleftrightarrow> (\<forall>n e. ps_open src n = Inl e \<longrightarrow> \<not> is_link e) \<and>
     (\<forall>p w w' e ws. ps_Copy src p w = (w', Some e, ws) \<longrightarrow> \<not> is_link e)"

lemma quietD:
  assumes "quiet src"
  shows "ps_open src n = Inl e \<Longrightarrow> \<not> is_link e" "ps_Copy src p w = (w', Some e, ws) \<Longrightarrow> \<not> is_link e"
  using assms unfolding quiet_def by blast+

definition refs_quiet :: "emst \<Rightarrow> bool" where
  "refs_quiet s \<longleftrightarrow> (\<forall>rr e. es_refs s = Some rr \<longrightarrow> lg_err (rr_ledger rr) = Some e \<longrightarrow> \<not> is_link e)"

lemma not_link [simp]:
  "\<not> is_link EmCanceled" "\<not> is_link EmSink" "\<not> is_link (EmOpen x)" "\<not> is_link (EmReadPayload x)"
  "\<not> is_link (EmKind k p)" "\<not> is_link EmMoreFiles" "\<not> is_link (EmPayloadStream e)" "\<not> is_link EmPanic"
  by (auto simp: is_link_def)

text \<open>One emission step: the links grow by \<open>A\<close>, unless it fails with another error.\<close>

definition links_run :: "emst \<Rightarrow> bytes set \<Rightarrow> 'a emres \<Rightarrow> bool" where
  "links_run s A y \<longleftrightarrow> refs_quiet (fst y) \<and>
     (case snd y of Inl e \<Rightarrow> \<not> is_link e | Inr _ \<Rightarrow> dom (es_links (fst y)) = dom (es_links s) \<union> A)"

lemma links_run_bind:
  assumes "links_run s A m" "\<And>t v. m = (t, Inr v) \<Longrightarrow> refs_quiet t \<Longrightarrow> dom (es_links t) = dom (es_links s) \<union> A \<Longrightarrow>
      links_run t B (f t v)"
  shows "links_run s (A \<union> B) (em_bind m f)"
proof (cases m)
  case (Pair t x)
  then show ?thesis using assms by (cases x) (auto simp: links_run_def split: sum.splits)
qed

lemma links_run_bind0:
  assumes "links_run s {} m" "\<And>t v. m = (t, Inr v) \<Longrightarrow> refs_quiet t \<Longrightarrow> dom (es_links t) = dom (es_links s) \<Longrightarrow>
      links_run t B (f t v)"
  shows "links_run s B (em_bind m f)"
  using links_run_bind [OF assms(1), of B f] assms(2) by simp

lemma cn_write_quiet: "cn_write w b = (w', Some e) \<Longrightarrow> \<not> is_link e"
  by (auto simp: cn_write_def cn_Write_def split: if_splits prod.splits)

lemma links_run_done [simp]: "links_run s {} (s, Inr v) \<longleftrightarrow> refs_quiet s"
  by (simp add: links_run_def)

lemma links_run_fail: "refs_quiet t \<Longrightarrow> \<not> is_link e \<Longrightarrow> links_run s A (t, Inl e)"
  by (simp add: links_run_def)

lemma refs_quiet_same: "refs_quiet s \<Longrightarrow> es_refs t = es_refs s \<Longrightarrow> refs_quiet t"
  by (simp add: refs_quiet_def)

lemma links_run_start: "es_links s = es_links t \<Longrightarrow> links_run s A y \<longleftrightarrow> links_run t A y"
  unfolding links_run_def by (elim ssubst) (rule refl)

lemma em_write_links: "refs_quiet s \<Longrightarrow> links_run s {} (em_write s b)"
  by (auto simp: em_write_def links_run_def refs_quiet_def split: prod.splits option.splits dest: cn_write_quiet)

lemma em_write_done: "refs_quiet s \<Longrightarrow> links_run s {} (em_bind (em_write s b) (\<lambda>s _. (s, Inr v)))"
  by (rule links_run_bind0 [OF em_write_links]) auto

lemma rr_next_quiet:
  assumes "rr_next rr = (rr', x)"
  shows "rr_ledger rr' = rr_ledger rr" "x = Inl e \<Longrightarrow> is_link e \<Longrightarrow> lg_err (rr_ledger rr) = Some e"
  using assms by (auto simp: rr_next_def ledger_get_def Let_def split: if_splits option.splits sum.splits)

lemma em_content_links:
  assumes "quiet src" "refs_quiet s"
  shows "links_run s (if nd_Kind n = KindFile \<and> 1 < st_Nlink (nd_Stat n) then {apath} else {}) (em_content src n pl apath start s)"
proof -
  let ?A = "if nd_Kind n = KindFile \<and> 1 < st_Nlink (nd_Stat n) then {apath} else {}"
  let ?f = "(\<lambda>s extra. (if nd_Kind n = KindFile \<and> st_Nlink (nd_Stat n) > 1
           then s\<lparr> es_links := (es_links s)(apath \<mapsto> start) \<rparr> else s, Inr extra)) :: emst \<Rightarrow> u64 \<Rightarrow> u64 emres"
  have f: "links_run t ?A (?f t v)" if "refs_quiet t" for t v
    using that by (auto simp: links_run_def refs_quiet_def)
  show ?thesis
  proof (cases "es_refs s")
    case (Some rr)
    obtain rr' x where r: "rr_next rr = (rr', x)" by fastforce
    have q: "refs_quiet (s\<lparr> es_refs := Some rr' \<rparr>)" using assms(2) Some rr_next_quiet(1) [OF r] by (simp add: refs_quiet_def)
    show ?thesis
    proof (cases x)
      case (Inl e)
      then have "\<not> is_link e" using rr_next_quiet(2) [OF r Inl] assms(2) Some by (auto simp: refs_quiet_def)
      then show ?thesis using Some r Inl q by (simp add: em_content_def links_run_def)
    next
      case (Inr os)
      have "links_run s {} (em_bind (em_write (s\<lparr> es_refs := Some rr' \<rparr>) b) (\<lambda>s _. (s, Inr v)))" for b and v :: u64
        by (rule links_run_start [THEN iffD1, OF _ em_write_done [OF q]]) simp
      then have "links_run s ?A (em_bind (em_bind (em_write (s\<lparr> es_refs := Some rr' \<rparr>) b) (\<lambda>s _. (s, Inr v))) ?f)" for b v
        by (rule links_run_bind0) (rule f)
      then show ?thesis using Some r Inr by (cases os) (simp add: em_content_def)
    qed
  next
    case None
    show ?thesis
    proof (cases pl)
      case None
      then show ?thesis using \<open>es_refs s = None\<close> assms(2) by (simp add: em_content_def links_run_def)
    next
      case (Some p)
      let ?g = "(\<lambda>s _. case ps_Copy src p (es_w s) of
          (w, Some e, ws) \<Rightarrow> (s\<lparr> es_w := w \<rparr>, Inl e)
        | (w, None, ws) \<Rightarrow> (s\<lparr> es_w := w, es_warns := es_warns s @ ws \<rparr>, Inr 0)) :: emst \<Rightarrow> unit \<Rightarrow> u64 emres"
      have g: "links_run t {} (?g t v)" if "refs_quiet t" for t v
        using that quietD(2) [OF assms(1)] by (auto simp: links_run_def refs_quiet_def split: prod.splits option.splits)
      have "links_run s {} (em_bind (em_write s b) ?g)" for b
        by (rule links_run_bind0 [OF em_write_links [OF assms(2)]]) (rule g)
      then have "links_run s ?A (em_bind (em_bind (em_write s b) ?g) ?f)" for b
        by (rule links_run_bind0) (rule f)
      then show ?thesis using None Some by (simp add: em_content_def)
    qed
  qed
qed

lemma em_open_links: "quiet src \<Longrightarrow> refs_quiet s \<Longrightarrow> links_run s {} (em_open src n s)"
  by (auto simp: em_open_def links_run_def quiet_def split: sum.splits)


lemma em_tail_links:
  assumes "quiet src" "refs_quiet s" "nd_Kind n \<noteq> KindHardlink"
    and "nd_Kind n = KindDirectory \<Longrightarrow> links_run s (sources (walk apath (nd_Children n))) (em_children H src (nd_Children n) apath [] s)"
  shows "links_run s (sources (preorder n apath))
    (case nd_Kind n of
                KindDirectory \<Rightarrow>
                  em_bind (em_children H src (nd_Children n) apath [] s)
                    (\<lambda>s items.
                     case AppendGoodbye [] items (if isRoot then 0 else entryStart) (cn_pos (es_w s)) of
                       None \<Rightarrow> (s, Inl EmPanic)
                     | Some bs \<Rightarrow> em_bind (em_write s bs) (\<lambda>s _. (s, Inr 0)))
              | KindFile \<Rightarrow> em_content src n pl apath start s
              | KindStream \<Rightarrow> em_content src n pl apath start s
              | KindSymlink \<Rightarrow> em_bind (em_write s (AppendSymlink [] (nd_LinkTarget n))) (\<lambda>s _. (s, Inr 0))
              | KindBlockDevice \<Rightarrow> em_bind (em_write s (AppendDevice [] (st_Rdev (nd_Stat n)))) (\<lambda>s _. (s, Inr 0))
              | KindCharDevice \<Rightarrow> em_bind (em_write s (AppendDevice [] (st_Rdev (nd_Stat n)))) (\<lambda>s _. (s, Inr 0))
              | KindFifo \<Rightarrow> (s, Inr 0)
              | KindSocket \<Rightarrow> (s, Inr 0)
              | k \<Rightarrow> (s, Inl (EmKind k apath)))"
proof (cases "nd_Kind n = KindDirectory")
  case True
  have p: "sources (preorder n apath) = sources (walk apath (nd_Children n)) \<union> {}"
    using True by (simp add: preorder.simps [of n] link_source_def)
  show ?thesis unfolding p using True
    by (simp only: Kind.case)
      (rule links_run_bind [OF assms(4) [OF True]], auto split: option.split intro: links_run_fail em_write_done)
next
  case False
  have p: "sources (preorder n apath) = (if nd_Kind n = KindFile \<and> 1 < st_Nlink (nd_Stat n) then {apath} else {})"
    using False by (simp add: preorder_leaf link_source_def)
  show ?thesis unfolding p
    using False assms(3) em_content_links [OF assms(1,2), of n apath pl start] assms(2)
    by (cases "nd_Kind n") (auto simp: em_write_done links_run_fail)
qed

definition node_links :: "(bytes \<Rightarrow> u64) \<Rightarrow> 'p payloadSource \<Rightarrow> Node \<Rightarrow> bool" where
  "node_links H src n \<longleftrightarrow> (\<forall>apath isRoot s. refs_quiet s \<longrightarrow> links_ok (dom (es_links s)) (preorder n apath) \<longrightarrow>
     links_run s (sources (preorder n apath)) (em_node H src n apath isRoot s))"

lemma em_children_links:
  "\<forall>c \<in> set cs. node_links H src c \<Longrightarrow> refs_quiet s \<Longrightarrow> links_ok (dom (es_links s)) (walk apath cs) \<Longrightarrow>
     links_run s (sources (walk apath cs)) (em_children H src cs apath items s)"
proof (induction cs arbitrary: items s)
  case (Cons c cs)
  let ?p = "preorder c (joinArchive apath (nd_Name c))"
  have w: "sources (walk apath (c # cs)) = sources ?p \<union> sources (walk apath cs)" by simp
  have c: "links_run s (sources ?p) (em_node H src c (joinArchive apath (nd_Name c)) False s)"
    using Cons.prems by (auto simp: node_links_def links_ok_append)
  show ?case unfolding w em_children.simps Let_def
    by (rule links_run_bind [OF c], rule Cons.IH) (use Cons.prems in \<open>auto simp: links_ok_append\<close>)
qed simp

lemma em_node_links:
  assumes "quiet src"
  shows "node_links H src n"
proof (induction n rule: measure_induct_rule [of size])
  case (less n)
  have kids: "\<forall>c \<in> set (nd_Children n). node_links H src c"
    using less size_list_children [of n] by (auto dest!: size_list_estimation' [where f = size, OF _ order_refl])
  show ?case unfolding node_links_def
  proof (intro allI impI)
    fix apath isRoot s assume q: "refs_quiet s" and ok: "links_ok (dom (es_links s)) (preorder n apath)"
    have name: "links_run s {} (if isRoot then (s, Inr ()) else em_write s (AppendFilename [] (nd_Name n)))"
      using q em_write_links by simp
    show "links_run s (sources (preorder n apath)) (em_node H src n apath isRoot s)"
    proof (cases "nd_Kind n = KindHardlink")
      case True
      have p: "sources (preorder n apath) = {}" "nd_LinkTarget n \<in> dom (es_links s)"
        using True ok by (simp_all add: preorder_leaf link_source_def)
      show ?thesis unfolding em_node.simps [of H src n] Let_def p(1)
        by (rule links_run_bind0 [OF name]) (use True p(2) in \<open>auto intro: em_write_done split: option.split\<close>)
    next
      case False
      have ch: "links_run t (sources (walk apath (nd_Children n))) (em_children H src (nd_Children n) apath [] t)"
        if "nd_Kind n = KindDirectory" "refs_quiet t" "dom (es_links t) = dom (es_links s)" for t
        by (rule em_children_links [OF kids that(2)])
          (use ok that(1,3) in \<open>simp add: preorder.simps [of n] link_source_def\<close>)
      have rest: "links_run t (sources (preorder n apath))
         (em_bind (em_open src n t) (\<lambda>s pl. let entryStart = cn_pos (es_w s) in em_bind (em_write s (metadataBytes [] n)) (f entryStart pl)))"
        if "refs_quiet t" "dom (es_links t) = dom (es_links s)"
          "\<And>t e pl u. refs_quiet t \<Longrightarrow> dom (es_links t) = dom (es_links s) \<Longrightarrow> links_run t (sources (preorder n apath)) (f e pl t u)"
        for t f
        unfolding Let_def
        by (rule links_run_bind0 [OF em_open_links [OF assms that(1)]], rule links_run_bind0 [OF em_write_links])
          (use that in auto)
      show ?thesis unfolding em_node.simps [of H src n] Let_def
        by (rule links_run_bind0 [OF name], unfold if_not_P [OF False], rule rest [unfolded Let_def], assumption, assumption,
            rule em_tail_links [OF assms _ False]) (auto intro: ch)
    qed
  qed
qed


lemma em_run_links:
  assumes "quiet src" "refs_quiet s" "links_ok {} (preorder root [])"
  shows "snd (em_run H src prelude root s) \<noteq> Inl (EmHardlink p t)"
proof -
  let ?s = "s\<lparr> es_links := Map.empty \<rparr>"
  have q: "refs_quiet ?s" using assms(2) by (simp add: refs_quiet_def)
  have pre: "links_run ?s {} (if es_refs ?s = None then (?s, Inr ())
         else em_bind (em_write ?s (AppendFormatVersion [] 2))
             (\<lambda>s _. case prelude of None \<Rightarrow> (s, Inr ()) | Some p \<Rightarrow> em_write s (AppendPrelude [] p)))"
    using q by (auto intro!: links_run_bind0 [OF em_write_links] em_write_links split: option.split)
  have "links_run ?s (sources (preorder root []) \<union> {}) (em_run H src prelude root s)"
    unfolding em_run_def Let_def
    by (rule links_run_bind0 [OF pre], rule links_run_bind [OF em_node_links [OF assms(1), unfolded node_links_def, rule_format]])
      (use assms(3) in auto)
  then show ?thesis by (cases "em_run H src prelude root s") (auto simp: links_run_def is_link_def split: sum.splits)
qed

lemma copyExactly_quiet:
  assumes "copyExactly w r sz = (w', r', k, Some e)"
  shows "\<not> is_link e"
proof -
  have c: "copy_loop w r sz k = (w', r', j, Some e) \<Longrightarrow> \<not> is_link e" for w r sz k w' r' j
    by (induction w r sz k rule: copy_loop.induct, subst (asm) (2) copy_loop.simps)
      (auto split: if_splits prod.splits option.splits rstat.splits dest: cn_write_quiet)
  have p: "pad_loop w k = (w', Some e) \<Longrightarrow> \<not> is_link e" for w k w'
    by (induction w k rule: pad_loop.induct, subst (asm) (2) pad_loop.simps)
      (auto simp: Let_def split: if_splits prod.splits option.splits dest: cn_write_quiet)
  show ?thesis using assms by (auto simp: copyExactly_def split: prod.splits option.splits dest: c p)
qed

lemma sync_quiet: "quiet (syncSource os)"
proof -
  have "payload_Copy p w = (w', Some e, ws) \<Longrightarrow> \<not> is_link e" for p w w' e ws
    by (cases p) (auto simp: filePayload_Copy_def streamPayload_Copy_def Let_def
        split: prod.splits option.splits if_splits dest: copyExactly_quiet)
  then show ?thesis by (auto simp: quiet_def syncSource_def syncSource_open_def split: if_splits sum.splits prod.splits)
qed


subsection \<open>The scanner\<close>

lemma NewScanner_fresh: "NewScanner o' = Inr s \<Longrightarrow> ss_hardlinks s = Map.empty \<and> pats_ok s"
  using ParsePatterns_all by (auto simp: NewScanner_def pats_ok_def split: sum.splits)

lemma ScanDirectory_scans:
  "ScanDirectory o' r k path apath s = (s', Inr n) \<Longrightarrow>
     \<exists>absp st t. scanNode o' r k absp (path_Base absp) apath st t = (s', Inr n) \<and> ss_hardlinks t = ss_hardlinks s"
  by (auto simp: ScanDirectory_def Let_def split: sum.splits if_splits option.splits)
    (blast | (rule exI, rule exI, rule exI, rule conjI, assumption, simp))+

lemma ScanDirectory_links:
  assumes "ScanDirectory o' r k path apath s = (s', Inr n)"
  shows "scanned_ok r n \<and> links_step o' s s' (preorder n apath)"
proof -
  obtain absp st t where "scanNode o' r k absp (path_Base absp) apath st t = (s', Inr n)" "ss_hardlinks t = ss_hardlinks s"
    using ScanDirectory_scans [OF assms] by blast
  moreover from this have "scanned_ok r n \<and> links_step o' t s' (preorder n apath)"
    using scanNode_good [of o' r "path_Base absp" apath k absp st, unfolded good_def] by blast
  ultimately show ?thesis by (simp add: links_step_def)
qed

text \<open>A small file system for the examples: a directory with a file under two names.\<close>

definition demo_stat :: "u64 \<Rightarrow> u64 \<Rightarrow> u64 \<Rightarrow> Stat" where
  "demo_stat mode ino nlink = \<lparr> st_Mode = mode, st_UID = 0, st_GID = 0, st_MtimeSecs = 0, st_MtimeNanos = 0,
     st_Size = 0, st_Nlink = nlink, st_Dev = 1, st_Ino = ino, st_Rdev = \<lparr> dv_Major = 0, dv_Minor = 0 \<rparr> \<rparr>"

definition demo_fs :: MetadataReader where
  "demo_fs = \<lparr>
     mr_Lstat = (\<lambda>p. if p = str ''/r'' then Inr (demo_stat ModeDir 1 1)
       else if p = str ''/r/a'' \<or> p = str ''/r/z'' then Inr (demo_stat ModeRegular 2 2) else Inl ENotExist),
     mr_ReadDirNames = (\<lambda>p. if p = str ''/r'' then Inr [str ''a'', str ''z''] else Inl ENotExist),
     mr_Readlink = (\<lambda>p. Inl ENotExist), mr_Xattrs = (\<lambda>p. Inr []), mr_ACLs = (\<lambda>p. Inr None),
     mr_FCaps = (\<lambda>p. Inr []), mr_QuotaProjID = (\<lambda>p. Inr (0, False)), mr_ReadFile = (\<lambda>p. Inl ENotExist),
     mr_Stat = None, mr_Abs = Inr \<rparr>"

definition demo_opts :: Options_sc where
  "demo_opts = \<lparr> so_SkipOnError = False, so_SkipQuotaProjIDs = False, so_Exclude = [str ''*.tmp''],
     so_PxarExcludeFiles = True, so_Filter = None \<rparr>"

definition demo_new :: Scanner_st where
  "demo_new = projr (NewScanner demo_opts)"

definition demo_scan :: "Node scres" where
  "demo_scan = ScanDirectory demo_opts demo_fs 1 (str ''/r'') [] demo_new"

lemma demo_NewScanner: "NewScanner demo_opts = Inr demo_new"
proof -
  have "\<not> isl (NewScanner demo_opts)" by code_simp
  then show ?thesis by (simp add: demo_new_def)
qed

lemma demo_runs: "demo_scan = (fst demo_scan, Inr (projr (snd demo_scan)))"
proof -
  have "\<not> isl (snd demo_scan)" by code_simp
  then show ?thesis by (simp add: prod_eq_iff)
qed

lemma demo_preorder: "map (\<lambda>(n, p). (nd_Kind n, nd_LinkTarget n, p)) (preorder (projr (snd demo_scan)) []) =
    [(KindDirectory, [], []), (KindFile, [], str ''a''), (KindHardlink, str ''a'', str ''z'')]"
  by code_simp

text \<open>
  C26: Whatever the file system answers, a scan from a fresh scanner never panics in the pattern matcher and
  leaves the pattern list as it was, the patterns of nested exclude files having been popped again.
\<close>

theorem scan_restores_patterns:
  assumes "NewScanner o' = Inr s" "ScanDirectory o' r k path apath s = (s', x)"
  shows "ss_patterns s' = ss_patterns s \<and> x \<noteq> Inl ScPanic"
  using assms scanNode_keeps [of o' r k] NewScanner_fresh [OF assms(1)]
  by (auto simp: ScanDirectory_def Let_def keeps_def pats_ok_def split: sum.splits if_splits option.splits)

theorem scan_restores_patterns_witness:
  "ss_patterns (fst demo_scan) = ss_patterns demo_new \<and> ss_patterns demo_new \<noteq> []"
proof -
  have "ss_patterns demo_new \<noteq> []" by code_simp
  then show ?thesis
    using scan_restores_patterns [OF demo_NewScanner demo_runs [unfolded demo_scan_def], folded demo_scan_def] by simp
qed

text \<open>
  C25: When the directories below a root are nested at most \<open>k\<close> deep, the scan with fuel \<open>k\<close> comes to an
  end, and more fuel gives the same result: the recursion of the scanner terminates on every finite tree.
\<close>

theorem scan_terminates:
  assumes "shallow r k absp st"
  shows "snd (scanNode o' r k absp name apath st s) \<noteq> Inl ScDepth \<and>
    scanNode o' r (k + j) absp name apath st s = scanNode o' r k absp name apath st s"
  using scanNode_depth [OF assms] scanNode_fuel by blast

theorem scan_terminates_witness:
  "\<forall>j. snd (scanNode demo_opts demo_fs 1 (str ''/r'') (str ''r'') [] (demo_stat ModeDir 1 1) demo_new) \<noteq> Inl ScDepth \<and>
     scanNode demo_opts demo_fs (1 + j) (str ''/r'') (str ''r'') [] (demo_stat ModeDir 1 1) demo_new =
     scanNode demo_opts demo_fs 1 (str ''/r'') (str ''r'') [] (demo_stat ModeDir 1 1) demo_new"
proof
  have "shallow demo_fs 1 (str ''/r'') (demo_stat ModeDir 1 1)" by code_simp
  then show "snd (scanNode demo_opts demo_fs 1 (str ''/r'') (str ''r'') [] (demo_stat ModeDir 1 1) demo_new) \<noteq> Inl ScDepth \<and>
     scanNode demo_opts demo_fs (1 + j) (str ''/r'') (str ''r'') [] (demo_stat ModeDir 1 1) demo_new =
     scanNode demo_opts demo_fs 1 (str ''/r'') (str ''r'') [] (demo_stat ModeDir 1 1) demo_new" for j
    by (rule scan_terminates)
qed

text \<open>
  C19: A scan from a fresh scanner that does not skip entries on errors returns a tree in which every
  node has the kind of its mode, the children of a directory are a subsequence of its listing with
  valid names, and every hardlink names a file that stands before it in archive order.
\<close>

theorem scan_tree_ordered:
  assumes "\<not> so_SkipOnError o'" "NewScanner o' = Inr s" "ScanDirectory o' r k path [] s = (s', Inr root)"
  shows "scanned_ok r root \<and> links_ok {} (preorder root [])"
  using ScanDirectory_links [OF assms(3)] NewScanner_fresh [OF assms(2)] assms(1) by (simp add: links_step_def)

theorem scan_tree_ordered_witness:
  "scanned_ok demo_fs (projr (snd demo_scan)) \<and> links_ok {} (preorder (projr (snd demo_scan)) []) \<and>
   map (\<lambda>(n, p). (nd_Kind n, nd_LinkTarget n, p)) (preorder (projr (snd demo_scan)) []) =
    [(KindDirectory, [], []), (KindFile, [], str ''a''), (KindHardlink, str ''a'', str ''z'')]"
proof -
  have "\<not> so_SkipOnError demo_opts" by code_simp
  from scan_tree_ordered [OF this demo_NewScanner demo_runs [unfolded demo_scan_def]]
  show ?thesis using demo_preorder by (simp only: demo_scan_def simp_thms)
qed

text \<open>
  Emitting a tree in which every hardlink names an earlier file never fails with an unresolved
  hardlink, whether as a v1 archive or as a v2 metadata stream: the emitter has the position of every
  target when it needs it.
\<close>

theorem ordered_links_resolve:
  assumes "links_ok {} (preorder root [])" "\<forall>rr e. refs = Some rr \<longrightarrow> lg_err (rr_ledger rr) = Some e \<longrightarrow> \<not> is_link e"
  shows "snd (em_run H (syncSource os) prelude root (new_emitter ctx room refs)) \<noteq> Inl (EmHardlink p t)"
  by (rule em_run_links [OF sync_quiet _ assms(1)]) (use assms(2) in \<open>simp add: refs_quiet_def new_emitter_def\<close>)

theorem ordered_links_resolve_witness:
  "\<forall>H os ctx room p t.
     snd (em_run H (syncSource os) None (projr (snd demo_scan)) (new_emitter ctx room None)) \<noteq> Inl (EmHardlink p t)"
proof (intro allI, rule ordered_links_resolve)
  show "links_ok {} (preorder (projr (snd demo_scan)) [])" by code_simp
qed simp

end
