(* ===== verification/Previous.thy ===== *)
theory Previous
  imports Emit Pxar_Reader
begin

unbundle bit_operations_syntax

text \<open>
  Metadata change detection, \<^verbatim>\<open>src/archive/previous.go\<close>: the index of a previous snapshot's metadata
  stream, the chunks of its payload stream that cover a range, and the plan that decides for every
  file whether its content is read again or referenced.

  The comparison of the padding share with the threshold is a comparison of two \<open>float64\<close>; it is the
  parameter \<open>over\<close>, applied to the padding and the total, and nothing below depends on how it decides.
  The plan is built front to back, as the loop of \<open>planReuse\<close> fills its slice.
\<close>

subsection \<open>The previous snapshot\<close>

record PayloadChunk =
  pc_EndOffset :: u64
  pc_Digest :: bytes

record prevFile =
  pf_meta :: bytes
  pf_size :: u64
  pf_offset :: u64

record Previous =
  pv_files :: "bytes \<rightharpoonup> prevFile"
  pv_chunks :: "PayloadChunk list"

datatype prev_error = PvDecode pxar_error | PvVersion nat | PvNotAscending nat

fun not_ascending :: "nat \<Rightarrow> PayloadChunk list \<Rightarrow> nat option" where
  "not_ascending i (a # b # cs) =
     (if pc_EndOffset b \<le> pc_EndOffset a then Some i else not_ascending (i + 1) (b # cs))"
| "not_ascending i _ = None"

definition prev_visit :: "(bytes \<rightharpoonup> prevFile) \<Rightarrow> MetaFile \<Rightarrow> pxar_error + (bytes \<rightharpoonup> prevFile)" where
  "prev_visit m f = Inr (m(mf_Path f \<mapsto> \<lparr> pf_meta = mf_Meta f, pf_size = mf_Size f, pf_offset = mf_PayloadOffset f \<rparr>))"

definition LoadPrevious :: "bytes \<Rightarrow> string option \<Rightarrow> PayloadChunk list \<Rightarrow> prev_error + Previous" where
  "LoadPrevious meta ioerr chunks =
     (case DecodeMetadata prev_visit meta ioerr Map.empty of
        Inl e \<Rightarrow> Inl (PvDecode e)
      | Inr (version, files) \<Rightarrow>
          (if version \<noteq> 2 then Inl (PvVersion version)
           else
             (case not_ascending 1 chunks of
                Some i \<Rightarrow> Inl (PvNotAscending i)
              | None \<Rightarrow> Inr \<lparr> pv_files = files, pv_chunks = chunks \<rparr>)))"

fun covering :: "u64 \<Rightarrow> u64 \<Rightarrow> PayloadChunk list \<Rightarrow> Chunk_ru list \<times> u64" where
  "covering stop prevEnd [] = ([], prevEnd)"
| "covering stop prevEnd (c # cs) =
     (let r = \<lparr> rc_Digest = pc_Digest c, rc_Size = pc_EndOffset c - prevEnd \<rparr> in
      if stop \<le> pc_EndOffset c then ([r], pc_EndOffset c)
      else (case covering stop (pc_EndOffset c) cs of (rs, e) \<Rightarrow> (r # rs, e)))"

definition chunksFor :: "Previous \<Rightarrow> u64 \<Rightarrow> u64 \<Rightarrow> (Chunk_ru list \<times> u64 \<times> u64) option" where
  "chunksFor p start stop =
     (let chunks = pv_chunks p in
      if stop \<le> start \<or> chunks = [] \<or> pc_EndOffset (last chunks) < stop then None
      else
        (let first = sort_Search (length chunks) (\<lambda>i. start < pc_EndOffset (chunks ! i));
             cStart = (if 0 < first then pc_EndOffset (chunks ! (first - 1)) else 0)
         in case covering stop cStart (drop first chunks) of (cs, cEnd) \<Rightarrow> Some (cs, cStart, cEnd)))"

subsection \<open>The plan\<close>

record ReuseStats =
  ru_Files :: nat
  ru_ReusedFiles :: nat
  ru_ReusedBytes :: u64
  ru_InjectedBytes :: u64
  ru_RejectedRuns :: nat

function collectPayloadPaths :: "Node \<Rightarrow> bytes \<Rightarrow> (Node \<times> bytes) list" where
  "collectPayloadPaths n apath =
     (case nd_Kind n of
        KindFile \<Rightarrow> [(n, apath)]
      | KindStream \<Rightarrow> [(n, apath)]
      | KindDirectory \<Rightarrow>
          concat (map (\<lambda>c. collectPayloadPaths c (joinArchive apath (nd_Name c))) (nd_Children n))
      | _ \<Rightarrow> [])"
  by pat_completeness auto
termination
  by (relation "measure (\<lambda>(n, a). size n)") (auto simp: size_child)

declare collectPayloadPaths.simps [simp del]

definition unchanged :: "Previous \<Rightarrow> Node \<times> bytes \<Rightarrow> prevFile option" where
  "unchanged prev np =
     (case np of (n, path) \<Rightarrow>
        if nd_Kind n \<noteq> KindFile \<and> nd_Kind n \<noteq> KindStream then None
        else
          (case pv_files prev path of
             None \<Rightarrow> None
           | Some pf \<Rightarrow>
               (if pf_size pf \<noteq> st_Size (nd_Stat n) then None
                else if metadataBytes [] n \<noteq> pf_meta pf then None
                else Some pf)))"

text \<open>A run goes on while files stay unchanged and their previous records keep ascending.\<close>

fun extend_run :: "Previous \<Rightarrow> prevFile \<Rightarrow> (Node \<times> bytes) list \<Rightarrow> (Node \<times> prevFile) list \<times> (Node \<times> bytes) list" where
  "extend_run prev lst [] = ([], [])"
| "extend_run prev lst (np # nps) =
     (case unchanged prev np of
        None \<Rightarrow> ([], np # nps)
      | Some nx \<Rightarrow>
          (if pf_offset nx \<le> pf_offset lst then ([], np # nps)
           else (case extend_run prev nx nps of (run, rest) \<Rightarrow> ((fst np, nx) # run, rest))))"

definition read_plan :: "Node \<Rightarrow> nat \<Rightarrow> payloadPlan" where
  "read_plan n i = \<lparr> pp_node = n, pp_reuse = False, pp_rel = 0, pp_size = 0, pp_inject = None,
     pp_runEnd = False, pp_runTotal = 0, pp_readSeq = i \<rparr>"

fun read_plans :: "Node list \<Rightarrow> nat \<Rightarrow> payloadPlan list" where
  "read_plans [] i = []"
| "read_plans (n # ns) i = read_plan n i # read_plans ns (i + 1)"

definition reuse_plan :: "u64 \<Rightarrow> Node \<times> prevFile \<Rightarrow> payloadPlan" where
  "reuse_plan cStart nf = \<lparr> pp_node = fst nf, pp_reuse = True, pp_rel = pf_offset (snd nf) - cStart,
     pp_size = pf_size (snd nf), pp_inject = None, pp_runEnd = False, pp_runTotal = 0, pp_readSeq = 0 \<rparr>"

definition run_plans :: "(Node \<times> prevFile) list \<Rightarrow> Chunk_ru list \<Rightarrow> u64 \<Rightarrow> u64 \<Rightarrow> payloadPlan list" where
  "run_plans run chunks cStart totl =
     (let plan = map (reuse_plan cStart) run;
          plan = plan[0 := (plan ! 0)\<lparr> pp_inject := Some chunks \<rparr>];
          k = length run - 1
      in plan[k := (plan ! k)\<lparr> pp_runEnd := True, pp_runTotal := totl \<rparr>])"

lemma extend_run_length: "length (snd (extend_run prev lst nps)) \<le> length nps"
  by (induction prev lst nps rule: extend_run.induct) (auto split: option.splits prod.splits)

function plan_loop :: "(u64 \<Rightarrow> u64 \<Rightarrow> bool) \<Rightarrow> Previous \<Rightarrow> (Node \<times> bytes) list \<Rightarrow> Node list \<Rightarrow> ReuseStats \<Rightarrow>
    payloadPlan list \<times> Node list \<times> ReuseStats" where
  "plan_loop over prev [] rds stats = ([], rds, stats)"
| "plan_loop over prev (np # nps) rds stats =
     (case unchanged prev np of
        None \<Rightarrow>
          (case plan_loop over prev nps (rds @ [fst np]) stats of
             (plan, r) \<Rightarrow> (read_plan (fst np) (length rds) # plan, r))
      | Some pf \<Rightarrow>
          (let run = (fst np, pf) # fst (extend_run prev pf nps);
               rest = snd (extend_run prev pf nps);
               start = pf_offset pf;
               lst = snd (last run);
               stop = pf_offset lst + HeaderSize + pf_size lst;
               used = sum_list (map (\<lambda>nf. HeaderSize + pf_size (snd nf)) run)
           in case chunksFor prev start stop of
                None \<Rightarrow>
                  (case plan_loop over prev rest (rds @ map fst run) stats of
                     (plan, r) \<Rightarrow> (read_plans (map fst run) (length rds) @ plan, r))
              | Some (chunks, cStart, cEnd) \<Rightarrow>
                  (let totl = cEnd - cStart in
                   if totl < used \<or> over (totl - used) totl then
                     (case plan_loop over prev rest (rds @ map fst run)
                             (stats\<lparr> ru_RejectedRuns := ru_RejectedRuns stats + 1 \<rparr>) of
                        (plan, r) \<Rightarrow> (read_plans (map fst run) (length rds) @ plan, r))
                   else
                     (case plan_loop over prev rest rds
                             (stats\<lparr> ru_ReusedFiles := ru_ReusedFiles stats + length run,
                                ru_ReusedBytes := ru_ReusedBytes stats + sum_list (map (\<lambda>nf. pf_size (snd nf)) run),
                                ru_InjectedBytes := ru_InjectedBytes stats + totl \<rparr>) of
                        (plan, r) \<Rightarrow> (run_plans run chunks cStart totl @ plan, r)))))"
  by pat_completeness auto
termination
  by (relation "measure (\<lambda>(v, p, nps, r, s). length nps)") (auto simp: less_Suc_eq_le extend_run_length)

declare plan_loop.simps(2) [simp del]

definition planReuse :: "(u64 \<Rightarrow> u64 \<Rightarrow> bool) \<Rightarrow> Previous option \<Rightarrow> (Node \<times> bytes) list \<Rightarrow>
    payloadPlan list \<times> Node list \<times> ReuseStats" where
  "planReuse over prev nps =
     (let stats = \<lparr> ru_Files = length nps, ru_ReusedFiles = 0, ru_ReusedBytes = 0, ru_InjectedBytes = 0,
            ru_RejectedRuns = 0 \<rparr>
      in case prev of
           None \<Rightarrow> (read_plans (map fst nps) 0, map fst nps, stats)
         | Some p \<Rightarrow> plan_loop over p nps [] stats)"

subsection \<open>The chunks that cover a range\<close>

abbreviation slice :: "'a list \<Rightarrow> nat \<Rightarrow> nat \<Rightarrow> 'a list" where
  "slice xs a b \<equiv> take (b - a) (drop a xs)"

lemma slice_append: "a \<le> b \<Longrightarrow> b \<le> c \<Longrightarrow> slice xs a b @ slice xs b c = slice xs a c"
proof -
  assume "a \<le> b" "b \<le> c"
  then have "c - a = (b - a) + (c - b)" "drop (b - a) (drop a xs) = drop b xs" by simp_all
  then show ?thesis by (simp only: take_add)
qed

text \<open>
  The chunk list cuts the stream \<open>P\<close>, from \<open>a\<close> on, and the store holds every piece under its digest.
\<close>

fun cuts_stream :: "(bytes \<Rightarrow> bytes) \<Rightarrow> bytes \<Rightarrow> nat \<Rightarrow> PayloadChunk list \<Rightarrow> bool" where
  "cuts_stream store P a [] \<longleftrightarrow> True"
| "cuts_stream store P a (c # cs) \<longleftrightarrow>
     a \<le> unat (pc_EndOffset c) \<and> unat (pc_EndOffset c) \<le> length P \<and>
     store (pc_Digest c) = slice P a (unat (pc_EndOffset c)) \<and>
     cuts_stream store P (unat (pc_EndOffset c)) cs"

lemma cuts_stream_drop:
  "cuts_stream store P a cs \<Longrightarrow> i < length cs \<Longrightarrow>
     cuts_stream store P (if 0 < i then unat (pc_EndOffset (cs ! (i - 1))) else a) (drop i cs)"
proof (induction i arbitrary: a cs)
  case (Suc i)
  then show ?case by (cases cs; cases i) auto
qed simp

lemma cuts_stream_mono: "cuts_stream store P a cs \<Longrightarrow> i \<le> j \<Longrightarrow> j < length cs \<Longrightarrow>
    unat (pc_EndOffset (cs ! i)) \<le> unat (pc_EndOffset (cs ! j)) \<and> a \<le> unat (pc_EndOffset (cs ! i))"
proof (induction cs arbitrary: a i j)
  case (Cons c cs)
  have h: "a \<le> unat (pc_EndOffset c)" "cuts_stream store P (unat (pc_EndOffset c)) cs" using Cons.prems by auto
  show ?case
  proof (cases i)
    case 0
    then show ?thesis using h Cons.IH [OF h(2), of "j - 1" "j - 1"] Cons.prems by (cases j) auto
  next
    case (Suc i')
    then show ?thesis using h Cons.IH [OF h(2), of i' "j - 1"] Cons.prems by (cases j) auto
  qed
qed simp

definition chunks_image :: "(bytes \<Rightarrow> bytes) \<Rightarrow> Chunk_ru list \<Rightarrow> bytes" where
  "chunks_image store cs = concat (map (\<lambda>c. store (rc_Digest c)) cs)"

lemma covering_image:
  assumes "cuts_stream store P (unat a) cs" "cs \<noteq> []" "stop \<le> pc_EndOffset (last cs)" "covering stop a cs = (rs, e)"
  shows "chunks_image store rs = slice P (unat a) (unat e) \<and> unat a \<le> unat e \<and> unat e \<le> length P \<and> stop \<le> e \<and> rs \<noteq> []"
  using assms
proof (induction stop a cs arbitrary: rs rule: covering.induct)
  case (2 stop a c cs)
  show ?case
  proof (cases "stop \<le> pc_EndOffset c")
    case True
    then show ?thesis using "2.prems" by (auto simp: chunks_image_def Let_def)
  next
    case False
    then have ne: "cs \<noteq> []" using "2.prems"(3) by auto
    obtain rs' where rs': "covering stop (pc_EndOffset c) cs = (rs', e)"
        "rs = \<lparr> rc_Digest = pc_Digest c, rc_Size = pc_EndOffset c - a \<rparr> # rs'"
      using "2.prems"(4) False by (auto simp: Let_def split: prod.splits)
    have IH: "chunks_image store rs' = slice P (unat (pc_EndOffset c)) (unat e) \<and> unat (pc_EndOffset c) \<le> unat e
        \<and> unat e \<le> length P \<and> stop \<le> e \<and> rs' \<noteq> []"
      by (rule "2.IH" [OF refl False _ ne _ rs'(1)]) (use "2.prems" ne in auto)
    then show ?thesis using "2.prems"(1) rs'(2) slice_append [of "unat a" "unat (pc_EndOffset c)" "unat e" P]
      by (auto simp: chunks_image_def)
  qed
qed simp

lemma chunksFor_image:
  assumes "cuts_stream store P 0 (pv_chunks p)" "chunksFor p start stop = Some (cs, cStart, cEnd)"
  shows "chunks_image store cs = slice P (unat cStart) (unat cEnd) \<and> unat cEnd \<le> length P \<and>
    cStart \<le> start \<and> start < stop \<and> stop \<le> cEnd \<and> cs \<noteq> []"
proof -
  let ?c = "pv_chunks p"
  let ?f = "\<lambda>i. start < pc_EndOffset (?c ! i)"
  define i where "i = sort_Search (length ?c) ?f"
  have c: "\<not> stop \<le> start" "?c \<noteq> []" "stop \<le> pc_EndOffset (last ?c)"
    using assms(2) by (auto simp: chunksFor_def Let_def not_less split: if_splits)
  have mono: "?f b" if "a \<le> b" "b < length ?c" "?f a" for a b
    using cuts_stream_mono [OF assms(1) that(1,2)] that(3) by (auto simp: word_less_nat_alt)
  have srch: "\<not> ?f k" if "k < i" for k
    by (rule sort_Search_correct(2) [where n = "length ?c" and f = ?f]) (use mono that in \<open>auto simp: i_def\<close>)
  have lt: "i < length ?c"
  proof (rule ccontr)
    assume "\<not> i < length ?c"
    moreover have "0 < length ?c" using c(2) by simp
    ultimately have "\<not> ?f (length ?c - 1)" using srch [of "length ?c - 1"] by linarith
    then show False using c by (simp add: last_conv_nth)
  qed
  have a: "cStart = (if 0 < i then pc_EndOffset (?c ! (i - 1)) else 0)"
    and cov: "covering stop cStart (drop i ?c) = (cs, cEnd)"
  proof -
    have "\<not> (stop \<le> start \<or> ?c = [] \<or> pc_EndOffset (last ?c) < stop)" using c by simp
    note h = assms(2) [unfolded chunksFor_def Let_def if_not_P [OF this], folded i_def]
    show "cStart = (if 0 < i then pc_EndOffset (?c ! (i - 1)) else 0)" "covering stop cStart (drop i ?c) = (cs, cEnd)"
      using h by (auto split: prod.splits)
  qed
  have cut: "cuts_stream store P (unat cStart) (drop i ?c)"
    using cuts_stream_drop [OF assms(1) lt] by (simp add: a if_distrib [of unat] cong: if_cong)
  have "cStart \<le> start" using srch [of "i - 1"] a by (auto simp: not_less)
  then show ?thesis using covering_image [OF cut _ _ cov] lt c by simp
qed


subsection \<open>The plan as a list of segments\<close>

text \<open>
  What the plan means: files to read, and runs of files with the span of the previous payload stream
  that covers them.
\<close>

datatype segment =
    SegRead Node bytes
  | SegRun "(Node \<times> bytes \<times> prevFile) list" "Chunk_ru list" u64 u64

fun seg_files :: "segment \<Rightarrow> (Node \<times> bytes) list" where
  "seg_files (SegRead n path) = [(n, path)]"
| "seg_files (SegRun fs cs a b) = map (\<lambda>(n, path, f). (n, path)) fs"

fun seg_plan :: "nat \<Rightarrow> segment \<Rightarrow> payloadPlan list" where
  "seg_plan i (SegRead n path) = [read_plan n i]"
| "seg_plan i (SegRun fs cs a b) = run_plans (map (\<lambda>(n, path, f). (n, f)) fs) cs a (b - a)"

fun segs_plan :: "nat \<Rightarrow> segment list \<Rightarrow> payloadPlan list" where
  "segs_plan i [] = []"
| "segs_plan i (s # ss) = seg_plan i s @ segs_plan (case s of SegRead _ _ \<Rightarrow> i + 1 | _ \<Rightarrow> i) ss"

fun run_ascends :: "(Node \<times> bytes \<times> prevFile) list \<Rightarrow> bool" where
  "run_ascends ((n, p, f) # (n', p', f') # fs) \<longleftrightarrow>
     pf_offset f < pf_offset f' \<and> run_ascends ((n', p', f') # fs)"
| "run_ascends _ \<longleftrightarrow> True"

fun seg_ok :: "Previous \<Rightarrow> segment \<Rightarrow> bool" where
  "seg_ok prev (SegRead n path) \<longleftrightarrow> True"
| "seg_ok prev (SegRun fs cs a b) \<longleftrightarrow>
     fs \<noteq> [] \<and> (\<forall>(n, path, f) \<in> set fs. unchanged prev (n, path) = Some f) \<and> run_ascends fs \<and>
     (case (hd fs, last fs) of ((_, _, f), (_, _, l)) \<Rightarrow>
        chunksFor prev (pf_offset f) (pf_offset l + HeaderSize + pf_size l) = Some (cs, a, b))"

lemma extend_run_segment:
  assumes "extend_run prev f nps = (run, rest)"
  shows "\<exists>fs. run = map (\<lambda>(n, path, f). (n, f)) fs \<and> nps = map (\<lambda>(n, path, f). (n, path)) fs @ rest \<and>
    (\<forall>(n, path, f) \<in> set fs. unchanged prev (n, path) = Some f) \<and> run_ascends ((n0, p0, f) # fs)"
  using assms
proof (induction prev f nps arbitrary: run n0 p0 rule: extend_run.induct)
  case (2 prev f np nps)
  show ?case
  proof (cases "\<exists>nx. unchanged prev np = Some nx \<and> \<not> pf_offset nx \<le> pf_offset f")
    case True
    then obtain nx where nx: "unchanged prev np = Some nx" "\<not> pf_offset nx \<le> pf_offset f" by blast
    obtain run' where run': "extend_run prev nx nps = (run', rest)" "run = (fst np, nx) # run'"
      using "2.prems" nx by (auto split: prod.splits)
    obtain fs where fs: "run' = map (\<lambda>(n, path, f). (n, f)) fs" "nps = map (\<lambda>(n, path, f). (n, path)) fs @ rest"
        "\<forall>(n, path, f) \<in> set fs. unchanged prev (n, path) = Some f" "run_ascends ((fst np, snd np, nx) # fs)"
      using "2.IH" [OF nx run'(1)] by blast
    show ?thesis using fs run'(2) nx by (intro exI [of _ "(fst np, snd np, nx) # fs"]) auto
  next
    case False
    then have "run = [] \<and> rest = np # nps" using "2.prems" by (auto split: option.splits if_splits)
    then show ?thesis by (intro exI [of _ "[]"]) simp
  qed
qed (rule exI [of _ "[]"], simp)

lemma read_plans_segs: "read_plans (map fst nps) i @ segs_plan (i + length nps) ss =
    segs_plan i (map (\<lambda>(n, path). SegRead n path) nps @ ss)"
proof (induction nps arbitrary: i)
  case (Cons np nps)
  show ?case using Cons [of "i + 1"] by (cases np) simp
qed simp

definition seg_reads :: "segment list \<Rightarrow> Node list" where
  "seg_reads ss = concat (map (\<lambda>s. case s of SegRead n path \<Rightarrow> [n] | _ \<Rightarrow> []) ss)"

lemma reads_of_reads: "seg_reads (map (\<lambda>(n, path). SegRead n path) nps @ ss) = map fst nps @ seg_reads ss"
  by (induction nps) (auto simp: seg_reads_def)

lemma plan_loop_segments:
  assumes "plan_loop over prev nps rds stats = (plan, rds', stats')"
  shows "\<exists>ss. plan = segs_plan (length rds) ss \<and> concat (map seg_files ss) = nps \<and> list_all (seg_ok prev) ss \<and>
    rds' = rds @ seg_reads ss"
  using assms
proof (induction over prev nps rds stats arbitrary: plan rule: plan_loop.induct)
  case (1 over prev rds stats)
  then show ?case by (intro exI [of _ "[]"]) (simp add: seg_reads_def)
next
  case (2 over prev np nps rds stats)
  note IH = "2.IH" and prem = "2.prems"
  show ?case
  proof (cases "unchanged prev np")
    case None
    then obtain plan' where p: "plan_loop over prev nps (rds @ [fst np]) stats = (plan', rds', stats')"
        "plan = read_plan (fst np) (length rds) # plan'"
      using prem by (auto simp: plan_loop.simps(2) split: prod.splits)
    then obtain ss where "plan' = segs_plan (length rds + 1) ss" "concat (map seg_files ss) = nps"
        "list_all (seg_ok prev) ss" "rds' = rds @ [fst np] @ seg_reads ss"
      using IH(1) [OF None p(1)] by auto
    then show ?thesis using p(2) by (intro exI [of _ "SegRead (fst np) (snd np) # ss"]) (simp add: seg_reads_def)
  next
    case (Some pf)
    define run rest where "run = (fst np, pf) # fst (extend_run prev pf nps)" and "rest = snd (extend_run prev pf nps)"
    obtain fs where fs: "fst (extend_run prev pf nps) = map (\<lambda>(n, path, f). (n, f)) fs" "nps = map (\<lambda>(n, path, f). (n, path)) fs @ rest"
        "\<forall>(n, path, f) \<in> set fs. unchanged prev (n, path) = Some f" "run_ascends ((fst np, snd np, pf) # fs)"
      using extend_run_segment [of prev pf nps] unfolding rest_def by (metis prod.collapse)
    define gs where "gs = (fst np, snd np, pf) # fs"
    have run: "run = map (\<lambda>(n, path, f). (n, f)) gs" "np # nps = map (\<lambda>(n, path, f). (n, path)) gs @ rest"
      using fs(1,2) by (simp_all add: run_def gs_def)
    have lst: "snd (last run) = snd (snd (last gs))" unfolding run(1) by (simp add: gs_def last_map split: prod.splits)
    define stop where "stop = pf_offset (snd (last run)) + HeaderSize + pf_size (snd (last run))"
    define used where "used = sum_list (map (\<lambda>nf. HeaderSize + pf_size (snd nf)) run)"
    note u = plan_loop.simps(2) [of over prev np nps rds stats, unfolded Some option.case Let_def,
        folded run_def rest_def, folded stop_def used_def]
    have again: ?thesis
      if pl: "plan = read_plans (map fst run) (length rds) @ plan'"
        and ex: "\<exists>ss. plan' = segs_plan (length (rds @ map fst run)) ss \<and> concat (map seg_files ss) = rest \<and> list_all (seg_ok prev) ss \<and>
           rds' = (rds @ map fst run) @ seg_reads ss" for plan'
    proof -
      obtain ss where ss: "plan' = segs_plan (length rds + length run) ss" "concat (map seg_files ss) = rest"
          "list_all (seg_ok prev) ss" "rds' = (rds @ map fst run) @ seg_reads ss"
        using ex by auto
      let ?np = "map (\<lambda>(n, path, f). (n, path)) gs"
      have f: "map fst run = map fst ?np" "length run = length ?np" unfolding run(1) by (auto simp: comp_def split_def)
      have "concat (map seg_files (map (\<lambda>(n, path). SegRead n path) ?np)) = ?np" by (induction gs) auto
      moreover have "list_all (seg_ok prev) (map (\<lambda>(n, path). SegRead n path) ?np)" by (auto simp: list_all_iff)
      ultimately show ?thesis using ss pl run(2) f read_plans_segs [of ?np "length rds" ss] reads_of_reads [of ?np ss]
        by (intro exI [of _ "map (\<lambda>(n, path). SegRead n path) ?np @ ss"]) simp
    qed
    note IH' = IH(2-4) [OF Some run_def rest_def refl refl]
    show ?thesis
    proof (cases "chunksFor prev (pf_offset pf) stop")
      case None
      then obtain plan' where p: "plan_loop over prev rest (rds @ map fst run) stats = (plan', rds', stats')"
          "plan = read_plans (map fst run) (length rds) @ plan'"
        using prem u by (auto split: prod.splits)
      show ?thesis by (rule again [OF p(2)], rule IH'(1) [OF refl refl None [unfolded stop_def] p(1)])
    next
      case chs: (Some ch)
      obtain cs a b where ch: "ch = (cs, a, b)" by (cases ch)
      show ?thesis
      proof (cases "b - a < used \<or> over (b - a - used) (b - a)")
        case True
        then obtain plan' where p: "plan_loop over prev rest (rds @ map fst run) (stats\<lparr> ru_RejectedRuns := ru_RejectedRuns stats + 1 \<rparr>) = (plan', rds', stats')"
            "plan = read_plans (map fst run) (length rds) @ plan'"
          using prem u chs ch by (auto split: prod.splits)
        show ?thesis by (rule again [OF p(2)], rule IH'(2) [OF refl refl chs [unfolded stop_def] ch [symmetric] refl refl True [unfolded used_def] p(1)])
      next
        case False
        then obtain plan' st where p: "plan_loop over prev rest rds st = (plan', rds', stats')"
            "plan = run_plans run cs a (b - a) @ plan'"
            "st = stats\<lparr> ru_ReusedFiles := ru_ReusedFiles stats + length run,
                ru_ReusedBytes := ru_ReusedBytes stats + sum_list (map (\<lambda>nf. pf_size (snd nf)) run),
                ru_InjectedBytes := ru_InjectedBytes stats + (b - a) \<rparr>"
          using prem u chs ch by (auto split: prod.splits)
        obtain ss where ss: "plan' = segs_plan (length rds) ss" "concat (map seg_files ss) = rest"
            "list_all (seg_ok prev) ss" "rds' = rds @ seg_reads ss"
          using IH'(3) [OF refl refl chs [unfolded stop_def] ch [symmetric] refl refl False [unfolded used_def] p(1) [unfolded p(3)]] by blast
        have "seg_ok prev (SegRun gs cs a b)"
          using fs(3,4) Some chs ch lst by (auto simp: gs_def stop_def split_def)
        then show ?thesis using ss p(2) run
          by (intro exI [of _ "SegRun gs cs a b # ss"]) (simp add: seg_reads_def)
      qed
    qed
  qed
qed

end
