(* ===== verification/Resolve.thy ===== *)
theory Resolve
  imports Previous
begin

unbundle bit_operations_syntax

text \<open>
  The two streams of a v2 archive agree.  The payload emitter writes data frames and references to
  chunks of the previous payload stream; what a restore sees is the stream in which every referenced
  chunk stands for its bytes.  The reference reader computes, from the plan and the sizes the payload
  emitter published, an offset and a size for every file: each of them is the position of a payload
  record of that size in the resolved stream, holding the content of the file as it was read or, for
  a file found unchanged, its content in the previous snapshot.
\<close>

subsection \<open>The resolved stream\<close>

fun frame_image :: "(bytes \<Rightarrow> bytes) \<Rightarrow> frame \<Rightarrow> bytes" where
  "frame_image store (FrData p) = p"
| "frame_image store (FrInject cs) = chunks_image store cs"

definition resolve :: "(bytes \<Rightarrow> bytes) \<Rightarrow> frame list \<Rightarrow> bytes" where
  "resolve store fs = concat (map (frame_image store) fs)"

lemma resolve_append [simp]: "resolve store (fs @ gs) = resolve store fs @ resolve store gs"
  by (simp add: resolve_def)

definition fw_resolves :: "(bytes \<Rightarrow> bytes) \<Rightarrow> Writer_ru \<Rightarrow> Writer_ru \<Rightarrow> bytes \<Rightarrow> bool" where
  "fw_resolves store fw fw' V \<longleftrightarrow>
     (\<exists>fs. resolve store fs = V \<and> list_all (\<lambda>f. \<not> frame_empty f) fs \<and>
        fw_stream fw' = fw_stream fw @ concat (map frame_bytes fs) \<and> (fw_begun fw \<or> fs \<noteq> [] \<longrightarrow> fw_begun fw'))"

fun out_resolves :: "(bytes \<Rightarrow> bytes) \<Rightarrow> outw \<Rightarrow> outw \<Rightarrow> bytes \<Rightarrow> bool" where
  "out_resolves store (Plain k) (Plain k') V \<longleftrightarrow> sk_out k' = sk_out k @ V"
| "out_resolves store (Framed fw) (Framed fw') V \<longleftrightarrow> fw_resolves store fw fw' V"
| "out_resolves store _ _ V \<longleftrightarrow> False"

abbreviation cn_resolves :: "(bytes \<Rightarrow> bytes) \<Rightarrow> countWriter \<Rightarrow> countWriter \<Rightarrow> bytes \<Rightarrow> bool" where
  "cn_resolves store w w' V \<equiv> out_resolves store (cn_w w) (cn_w w') V"

lemma fw_resolves_refl: "fw_resolves store fw fw []"
  unfolding fw_resolves_def by (intro exI [of _ "[]"]) (simp add: resolve_def)

lemma fw_resolves_trans:
  assumes "fw_resolves store a b p" "fw_resolves store b c q"
  shows "fw_resolves store a c (p @ q)"
proof -
  obtain fs where fs: "resolve store fs = p" "list_all (\<lambda>f. \<not> frame_empty f) fs"
      "fw_stream b = fw_stream a @ concat (map frame_bytes fs)" "fw_begun a \<or> fs \<noteq> [] \<longrightarrow> fw_begun b"
    using assms(1) unfolding fw_resolves_def by blast
  obtain gs where gs: "resolve store gs = q" "list_all (\<lambda>f. \<not> frame_empty f) gs"
      "fw_stream c = fw_stream b @ concat (map frame_bytes gs)" "fw_begun b \<or> gs \<noteq> [] \<longrightarrow> fw_begun c"
    using assms(2) unfolding fw_resolves_def by blast
  show ?thesis unfolding fw_resolves_def by (intro exI [of _ "fs @ gs"]) (use fs gs in auto)
qed

lemma out_resolves_refl [simp]: "out_resolves store w w []"
  by (cases w) (auto simp: fw_resolves_refl)

lemma out_resolves_trans: "out_resolves store a b p \<Longrightarrow> out_resolves store b c q \<Longrightarrow> out_resolves store a c (p @ q)"
  by (cases a; cases b; cases c) (auto intro: fw_resolves_trans)

lemma advances_resolves:
  assumes "cn_advances w w' p"
  shows "cn_resolves store w w' p"
proof (cases "cn_w w"; cases "cn_w w'")
  fix fw fw' assume w: "cn_w w = Framed fw" "cn_w w' = Framed fw'"
  then obtain ps where "concat ps = p" "[] \<notin> set ps"
      "fw_stream fw' = fw_stream fw @ concat (map (\<lambda>p. frame_bytes (FrData p)) ps)" "fw_begun fw \<or> ps \<noteq> [] \<longrightarrow> fw_begun fw'"
    using assms by (auto simp: cn_advances_def fw_advances_def)
  then have "fw_resolves store fw fw' p" unfolding fw_resolves_def
    by (intro exI [of _ "map FrData ps"]) (auto simp: resolve_def comp_def list_all_iff)
  then show ?thesis using w by simp
qed (use assms in \<open>auto simp: cn_advances_def\<close>)

lemma Inject_resolves:
  assumes "pe_inject s cs = (s', None)" "cs \<noteq> []"
  shows "cn_resolves store (pe_w s) (pe_w s') (chunks_image store cs) \<and> pe_ledger s' = pe_ledger s"
proof -
  obtain fw fw' where fw: "cn_w (pe_w s) = Framed fw" "fw_Inject fw cs = (fw', None)"
      "s' = s\<lparr> pe_w := (pe_w s)\<lparr> cn_w := Framed fw' \<rparr> \<rparr>"
    using assms(1) by (auto simp: pe_inject_def split: outw.splits prod.splits if_splits)
  obtain fw1 where b: "fw_frame fw KindInject (of_nat (length cs * entrySize)) = (fw1, None)"
    using fw(2) assms(2) by (auto simp: fw_Inject_def split: prod.splits option.splits)
  obtain w m ok where w: "sink_write (fw_w fw1) (concat (map chunk_bytes cs)) = (w, m, ok)" by (metis prod_cases3)
  have "ok" "fw' = fw1\<lparr> fw_w := w \<rparr>" using fw(2) b w assms(2) by (auto simp: fw_Inject_def split: if_splits)
  then have "fw_stream fw' = fw_stream fw @ frame_bytes (FrInject cs)" "fw_begun fw'"
    using fw_frame_adds [OF b] w by (auto simp: fw_stream_def dest: sink_write_ok)
  then have "fw_resolves store fw fw' (chunks_image store cs)"
    using assms(2) unfolding fw_resolves_def by (intro exI [of _ "[FrInject cs]"]) (simp add: resolve_def)
  then show ?thesis using fw by simp
qed

subsection \<open>Runs\<close>

text \<open>The plans of a run, one after the other: the first injects, the last ends the run.\<close>

fun rp :: "u64 \<Rightarrow> u64 \<Rightarrow> Chunk_ru list option \<Rightarrow> (Node \<times> prevFile) list \<Rightarrow> payloadPlan list" where
  "rp a t ij [] = []"
| "rp a t ij [x] = [(reuse_plan a x)\<lparr> pp_inject := ij, pp_runEnd := True, pp_runTotal := t \<rparr>]"
| "rp a t ij (x # y # xs) = (reuse_plan a x)\<lparr> pp_inject := ij \<rparr> # rp a t None (y # xs)"

lemma length_rp [simp]: "length (rp a t ij xs) = length xs"
  by (induction a t ij xs rule: rp.induct) auto

lemma rp_nth: "i < length xs \<Longrightarrow> rp a t ij xs ! i = (reuse_plan a (xs ! i))\<lparr> pp_inject := (if i = 0 then ij else None),
    pp_runEnd := (i = length xs - 1), pp_runTotal := (if i = length xs - 1 then t else 0) \<rparr>"
proof (induction a t ij xs arbitrary: i rule: rp.induct)
  case (3 a t ij x y xs)
  then show ?case by (cases i) (auto simp: reuse_plan_def)
qed (auto simp: reuse_plan_def)

lemma run_plans_rp: "xs \<noteq> [] \<Longrightarrow> run_plans xs cs a t = rp a t (Some cs) xs"
  by (rule nth_equalityI) (auto simp: run_plans_def rp_nth Let_def reuse_plan_def nth_list_update)

subsection \<open>What the payload emitter writes\<close>

definition seg_writes :: "'p payloadSource \<Rightarrow> ('p \<Rightarrow> bytes) \<Rightarrow> (bytes \<Rightarrow> bytes) \<Rightarrow> segment \<Rightarrow> bytes \<times> i64 list \<Rightarrow> bool" where
  "seg_writes S img store seg bz =
     (case seg of
        SegRead n path \<Rightarrow> (\<exists>p. ps_open S n = Inr p \<and>
          bz = (AppendPayloadHeader [] (ps_Size S p) @ img p, [ps_Size S p]))
      | SegRun fs cs a b \<Rightarrow> bz = (chunks_image store cs, []))"

lemma pe_write_ok: "pe_write s p = (s', None) \<Longrightarrow> cn_resolves store (pe_w s) (pe_w s') p \<and> pe_ledger s' = pe_ledger s"
  by (auto simp: pe_write_def split: prod.splits intro: advances_resolves [OF cn_write_advances])

lemma pe_loop_reused:
  "pe_loop S pub (rp a t None xs @ ps) s = pe_loop S pub ps s"
proof (induction a t "None :: Chunk_ru list option" xs rule: rp.induct)
  case (2 a t x)
  then show ?case by (simp add: reuse_plan_def)
next
  case (3 a t x y xs)
  then show ?case by (simp add: reuse_plan_def)
qed simp

lemma pe_loop_run:
  assumes "xs \<noteq> []" "cs \<noteq> []" "pe_loop S pub (rp a t (Some cs) xs @ ps) s = (s', None)"
  shows "\<exists>s1. cn_resolves store (pe_w s) (pe_w s1) (chunks_image store cs) \<and> pe_ledger s1 = pe_ledger s \<and>
    pe_loop S pub ps s1 = (s', None)"
proof -
  obtain x rest where rp: "rp a t (Some cs) xs = x # rest" "pp_reuse x" "pp_inject x = Some cs"
      "\<And>s. pe_loop S pub (rest @ ps) s = pe_loop S pub ps s"
  proof (cases xs)
    case Nil
    then show thesis using assms(1) by simp
  next
    case (Cons x zs)
    show thesis
    proof (cases zs)
      case Nil
      then show thesis using Cons that [of "(reuse_plan a x)\<lparr> pp_inject := Some cs, pp_runEnd := True, pp_runTotal := t \<rparr>" "[]"]
        by (simp add: reuse_plan_def)
    next
      case (Cons y ys)
      then show thesis using \<open>xs = x # zs\<close> that [of "(reuse_plan a x)\<lparr> pp_inject := Some cs \<rparr>" "rp a t None (y # ys)"]
        by (simp add: reuse_plan_def pe_loop_reused)
    qed
  qed
  then obtain s1 where "pe_inject s cs = (s1, None)" "pe_loop S pub ps s1 = (s', None)"
    using assms(3) by (auto split: prod.splits option.splits)
  then show ?thesis using Inject_resolves [OF _ assms(2)] by blast
qed

context payload_contract
begin

lemma pe_payload_ok:
  assumes "pe_payload S True n s = (s', None)" "lg_err (pe_ledger s) = None"
  shows "\<exists>p. ps_open S n = Inr p \<and> cn_resolves store (pe_w s) (pe_w s') (AppendPayloadHeader [] (ps_Size S p) @ image p) \<and>
    lg_sizes (pe_ledger s') = lg_sizes (pe_ledger s) @ [ps_Size S p] \<and> lg_err (pe_ledger s') = None"
proof -
  obtain p where p: "ps_open S n = Inr p" using assms(1) by (auto simp: pe_payload_def split: sum.splits)
  let ?s = "s\<lparr> pe_ledger := publish (pe_ledger s) (ps_Size S p) None \<rparr>"
  obtain s1 w ws where h: "pe_write ?s (AppendPayloadHeader [] (ps_Size S p)) = (s1, None)"
      "ps_Copy S p (pe_w s1) = (w, None, ws)" "pe_w s' = w" "pe_ledger s' = pe_ledger s1"
    using assms(1) p by (auto simp: pe_payload_def Let_def split: prod.splits option.splits)
  have "cn_resolves store (pe_w s1) w (image p)" by (rule advances_resolves [OF Copy_exact [OF h(2)]])
  then show ?thesis using pe_write_ok [OF h(1), of store] h p assms(2)
    by (auto simp: publish_def intro: out_resolves_trans)
qed

lemma pe_loop_segments:
  assumes "pe_loop S True (segs_plan i ss) s = (s', None)" "lg_err (pe_ledger s) = None"
    and "list_all (\<lambda>g. case g of SegRun fs cs a b \<Rightarrow> fs \<noteq> [] \<and> cs \<noteq> [] | _ \<Rightarrow> True) ss"
  shows "\<exists>bzs. list_all2 (seg_writes S image store) ss bzs \<and>
    cn_resolves store (pe_w s) (pe_w s') (concat (map fst bzs) @ AppendPayloadTailMarker []) \<and>
    lg_sizes (pe_ledger s') = lg_sizes (pe_ledger s) @ concat (map snd bzs) \<and> lg_err (pe_ledger s') = None"
  using assms
proof (induction ss arbitrary: i s)
  case Nil
  then show ?case by (intro exI [of _ "[]"]) (auto dest: pe_write_ok)
next
  case (Cons g ss)
  have step: ?case
    if h: "seg_writes S image store g bz" "cn_resolves store (pe_w s) (pe_w s1) (fst bz)"
      "lg_sizes (pe_ledger s1) = lg_sizes (pe_ledger s) @ snd bz" "lg_err (pe_ledger s1) = None"
      "pe_loop S True (segs_plan j ss) s1 = (s', None)" for bz s1 j
  proof -
    obtain bzs where "list_all2 (seg_writes S image store) ss bzs"
        "cn_resolves store (pe_w s1) (pe_w s') (concat (map fst bzs) @ AppendPayloadTailMarker [])"
        "lg_sizes (pe_ledger s') = lg_sizes (pe_ledger s1) @ concat (map snd bzs)" "lg_err (pe_ledger s') = None"
      using Cons.IH [OF h(5,4)] Cons.prems(3) by auto
    with h show ?thesis by (intro exI [of _ "bz # bzs"]) (auto intro: out_resolves_trans)
  qed
  show ?case
  proof (cases g)
    case (SegRead n path)
    obtain s1 where s1: "pe_payload S True n s = (s1, None)" "pe_loop S True (segs_plan (i + 1) ss) s1 = (s', None)"
      using Cons.prems(1) SegRead by (auto simp: read_plan_def split: prod.splits option.splits)
    from pe_payload_ok [OF s1(1) Cons.prems(2), of store] obtain p where p: "ps_open S n = Inr p"
        "cn_resolves store (pe_w s) (pe_w s1) (AppendPayloadHeader [] (ps_Size S p) @ image p)"
        "lg_sizes (pe_ledger s1) = lg_sizes (pe_ledger s) @ [ps_Size S p]" "lg_err (pe_ledger s1) = None"
      by blast
    then show ?thesis
      by (intro step [of "(AppendPayloadHeader [] (ps_Size S p) @ image p, [ps_Size S p])" s1 "i + 1"])
        (use s1(2) in \<open>auto simp: seg_writes_def SegRead\<close>)
  next
    case (SegRun fs cs a b)
    have ne: "map (\<lambda>(n, path, f). (n, f)) fs \<noteq> []" "cs \<noteq> []" using Cons.prems(3) SegRun by auto
    obtain s1 where "cn_resolves store (pe_w s) (pe_w s1) (chunks_image store cs)" "pe_ledger s1 = pe_ledger s"
        "pe_loop S True (segs_plan i ss) s1 = (s', None)"
      using pe_loop_run [OF ne, of S True a "b - a" "segs_plan i ss" s s' store] Cons.prems(1) SegRun
      by (auto simp: run_plans_rp [OF ne(1)])
    then show ?thesis
      by (intro step [of "(chunks_image store cs, [])" s1 i]) (auto simp: seg_writes_def SegRun Cons.prems(2))
  qed
qed

end

subsection \<open>What the reference reader returns\<close>

fun rr_all :: "refReader \<Rightarrow> nat \<Rightarrow> refReader \<times> (emit_error + (u64 \<times> u64) list)" where
  "rr_all r 0 = (r, Inr [])"
| "rr_all r (Suc k) =
     (case rr_next r of
        (r, Inl e) \<Rightarrow> (r, Inl e)
      | (r, Inr ref) \<Rightarrow>
          (case rr_all r k of
             (r, Inl e) \<Rightarrow> (r, Inl e)
           | (r, Inr refs) \<Rightarrow> (r, Inr (ref # refs))))"

definition rr_at :: "refLedger \<Rightarrow> refReader \<Rightarrow> payloadPlan list \<Rightarrow> u64 \<Rightarrow> bool" where
  "rr_at L r ps off \<longleftrightarrow> drop (rr_seq r) (rr_plan r) = ps \<and> rr_offset r = off \<and> rr_ledger r = L"

lemma rr_at_step:
  assumes "rr_at L r (p # ps) off"
  shows "rr_next r = (let r' = r\<lparr> rr_seq := rr_seq r + 1 \<rparr> in
      if pp_reuse p then (if pp_runEnd p then r'\<lparr> rr_offset := off + pp_runTotal p \<rparr> else r', Inr (off + pp_rel p, pp_size p))
      else case ledger_get L True (pp_readSeq p) of
          Some (Inr s) \<Rightarrow> (r'\<lparr> rr_offset := off + (HeaderSize + s) \<rparr>, Inr (off, s))
        | Some (Inl e) \<Rightarrow> (r', Inl e) | None \<Rightarrow> (r', Inl EmCanceled))"
    and "rr_at L (r\<lparr> rr_seq := rr_seq r + 1 \<rparr>) ps off"
proof -
  have d: "drop (rr_seq r) (rr_plan r) = p # ps" "rr_offset r = off" "rr_ledger r = L" using assms by (auto simp: rr_at_def)
  then have "rr_seq r < length (rr_plan r)" "rr_plan r ! rr_seq r = p" "drop (Suc (rr_seq r)) (rr_plan r) = ps"
    by (metis drop_eq_Nil list.distinct(1) not_less, metis d(1) hd_drop_conv_nth list.sel(1) drop_eq_Nil list.distinct(1) not_less,
        metis d(1) drop_Suc list.sel(3) tl_drop)
  then show "rr_next r = (let r' = r\<lparr> rr_seq := rr_seq r + 1 \<rparr> in
      if pp_reuse p then (if pp_runEnd p then r'\<lparr> rr_offset := off + pp_runTotal p \<rparr> else r', Inr (off + pp_rel p, pp_size p))
      else case ledger_get L True (pp_readSeq p) of
          Some (Inr s) \<Rightarrow> (r'\<lparr> rr_offset := off + (HeaderSize + s) \<rparr>, Inr (off, s))
        | Some (Inl e) \<Rightarrow> (r', Inl e) | None \<Rightarrow> (r', Inl EmCanceled))"
    "rr_at L (r\<lparr> rr_seq := rr_seq r + 1 \<rparr>) ps off"
    using d(2,3) by (simp_all add: rr_next_def Let_def rr_at_def cong: option.case_cong sum.case_cong)
qed

lemma rr_at_offset: "rr_at L r ps off \<Longrightarrow> rr_at L (r\<lparr> rr_offset := off' \<rparr>) ps off'"
  by (simp add: rr_at_def)

lemma rr_all_append:
  assumes "rr_all r j = (r', Inr xs)" "rr_all r' k = (r'', Inr ys)"
  shows "rr_all r (j + k) = (r'', Inr (xs @ ys))"
  using assms by (induction j arbitrary: r xs) (auto split: prod.splits sum.splits)

lemma rr_all_run:
  assumes "rr_at L r (rp a t ij xs @ ps) off" "xs \<noteq> []"
  shows "\<exists>r'. rr_all r (length xs) = (r', Inr (map (\<lambda>x. (off + (pf_offset (snd x) - a), pf_size (snd x))) xs)) \<and>
    rr_at L r' ps (off + t)"
  using assms
proof (induction a t ij xs arbitrary: r rule: rp.induct)
  case (2 a t ij x)
  note st = rr_at_step [OF "2.prems"(1) [unfolded rp.simps append_Cons append_Nil]]
  show ?case using st(1) rr_at_offset [OF st(2), of "off + t"] by (simp add: Let_def reuse_plan_def)
next
  case (3 a t ij x y xs)
  note st = rr_at_step [OF "3.prems"(1) [unfolded rp.simps append_Cons]]
  show ?case using st(1) "3.IH" [OF st(2)] by (force simp: Let_def reuse_plan_def)
qed simp

lemma rr_read:
  assumes "rr_at L r (read_plan n i # ps) off" "i < length (lg_sizes L)"
  shows "\<exists>r'. rr_all r 1 = (r', Inr [(off, lg_sizes L ! i)]) \<and> rr_at L r' ps (off + (HeaderSize + lg_sizes L ! i))"
proof -
  note st = rr_at_step [OF assms(1)]
  have "ledger_get L True i = Some (Inr (lg_sizes L ! i))" using assms(2) by (simp add: ledger_get_def)
  then show ?thesis using st(1) rr_at_offset [OF st(2)] by (simp add: Let_def read_plan_def)
qed

subsection \<open>Every reference finds its record\<close>

definition ref_at :: "bytes \<Rightarrow> u64 \<Rightarrow> u64 \<Rightarrow> bytes \<Rightarrow> bool" where
  "ref_at V off sz c \<longleftrightarrow> unat off + 16 + unat sz \<le> length V \<and> length c = unat sz \<and>
     take (16 + unat sz) (drop (unat off) V) = AppendPayloadHeader [] sz @ c"


definition prev_content :: "bytes \<Rightarrow> prevFile \<Rightarrow> bytes" where
  "prev_content P f = take (unat (pf_size f)) (drop (unat (pf_offset f) + 16) P)"

text \<open>
  The previous snapshot as the server holds it: the index cuts the payload stream \<open>P\<close>, the chunks are
  in the store, and the references of its metadata stream are payload records of \<open>P\<close> that do not
  overlap.
\<close>

definition prev_ok :: "(bytes \<Rightarrow> bytes) \<Rightarrow> bytes \<Rightarrow> Previous \<Rightarrow> bool" where
  "prev_ok store P prev \<longleftrightarrow>
     cuts_stream store P 0 (pv_chunks prev) \<and> length P < 2 ^ 63 \<and>
     (\<forall>f \<in> ran (pv_files prev). ref_at P (pf_offset f) (pf_size f) (prev_content P f)) \<and>
     (\<forall>f \<in> ran (pv_files prev). \<forall>g \<in> ran (pv_files prev). pf_offset f < pf_offset g \<longrightarrow>
        unat (pf_offset f) + 16 + unat (pf_size f) \<le> unat (pf_offset g))"

abbreviation run_off :: "Node \<times> bytes \<times> prevFile \<Rightarrow> u64" where
  "run_off x \<equiv> pf_offset (snd (snd x))"

lemma run_ascends_sorted: "run_ascends fs \<Longrightarrow> sorted_wrt (\<lambda>x y. run_off x < run_off y) fs"
proof (induction fs rule: run_ascends.induct)
  case (1 n p f n' p' f' fs)
  then show ?case by (auto intro: order.strict_trans)
qed auto

lemma run_ascends_bounds:
  assumes "run_ascends fs" "x \<in> set fs"
  shows "run_off (hd fs) \<le> run_off x" "run_off x < run_off (last fs) \<or> x = last fs"
proof -
  note s = run_ascends_sorted [OF assms(1)]
  have ne: "fs \<noteq> []" using assms(2) by auto
  show "run_off (hd fs) \<le> run_off x" using s assms(2) by (cases fs) auto
  have "sorted_wrt (\<lambda>x y. run_off x < run_off y) (butlast fs @ [last fs])" "x \<in> set (butlast fs @ [last fs])"
    using s assms(2) ne by simp_all
  then show "run_off x < run_off (last fs) \<or> x = last fs" by (auto simp: sorted_wrt_append)
qed

lemma unchangedD:
  "unchanged prev (n, path) = Some f \<Longrightarrow> pv_files prev path = Some f \<and> pf_size f = st_Size (nd_Stat n) \<and>
     pf_meta f = metadataBytes [] n"
  by (auto simp: unchanged_def split: if_splits option.splits)

lemma record_end:
  assumes "ref_at P off sz c" "length P < 2 ^ 63"
  shows "unat (off + HeaderSize + sz) = unat off + 16 + unat sz"
proof -
  have "unat off + 16 + unat sz < 2 ^ 64" using assms by (simp add: ref_at_def)
  then have "unat (of_nat (unat off + 16 + unat sz) :: u64) = unat off + 16 + unat sz" by (rule u64_small)
  then show ?thesis by (simp add: HeaderSize_def)
qed

lemma run_record:
  assumes "prev_ok store P prev" "seg_ok prev (SegRun fs cs a b)" "(n, path, f) \<in> set fs"
  shows "unat a \<le> unat (pf_offset f) \<and> unat (pf_offset f) + 16 + unat (pf_size f) \<le> unat b \<and> unat b \<le> length P \<and>
    chunks_image store cs = slice P (unat a) (unat b) \<and> ref_at P (pf_offset f) (pf_size f) (prev_content P f)"
proof -
  let ?h = "snd (snd (hd fs))" and ?l = "snd (snd (last fs))"
  have ran: "g \<in> ran (pv_files prev)" if "(m, q, g) \<in> set fs" for m q g
    using assms(2) that by (auto dest!: unchangedD bspec intro: ranI)
  have fs: "fs \<noteq> []" "run_ascends fs" using assms(2) by auto
  obtain m q where l: "(m, q, ?l) \<in> set fs" using last_in_set [OF fs(1)] by (metis prod.collapse)
  have P: "cuts_stream store P 0 (pv_chunks prev)" "length P < 2 ^ 63"
      "ref_at P (pf_offset f) (pf_size f) (prev_content P f)" "ref_at P (pf_offset ?l) (pf_size ?l) (prev_content P ?l)"
      "pf_offset f < pf_offset ?l \<Longrightarrow> unat (pf_offset f) + 16 + unat (pf_size f) \<le> unat (pf_offset ?l)"
    using assms(1) ran [OF assms(3)] ran [OF l] by (auto simp: prev_ok_def)
  have "chunksFor prev (pf_offset ?h) (pf_offset ?l + HeaderSize + pf_size ?l) = Some (cs, a, b)"
    using assms(2) by (auto simp: split_def)
  note c = chunksFor_image [OF P(1) this]
  have "unat (pf_offset ?l) + 16 + unat (pf_size ?l) \<le> unat b"
    using c record_end [OF P(4,2)] by (simp add: word_le_nat_alt)
  moreover have "pf_offset f < pf_offset ?l \<or> f = ?l" "pf_offset ?h \<le> pf_offset f"
    using run_ascends_bounds [OF fs(2) assms(3)] by (auto simp: split_def) (metis snd_conv)
  ultimately show ?thesis using P(3,5) c by (auto simp: word_le_nat_alt)
qed

lemma ref_at_shift:
  assumes "ref_at P o' sz c" "unat a \<le> unat o'" "unat o' + 16 + unat sz \<le> unat b" "unat b \<le> length P"
    and "V = X @ slice P (unat a) (unat b) @ Y" "length V < 2 ^ 64"
  shows "ref_at V (len64 X + (o' - a)) sz c"
proof -
  let ?d = "unat o' - unat a"
  have d: "unat (o' - a) = ?d" using assms(2) by (simp add: unat_sub word_le_nat_alt)
  have lt: "length X + ?d + 16 + unat sz \<le> length V" using assms(2-5) by simp
  then have "unat (of_nat (length X + ?d) :: u64) = length X + ?d" using assms(6) by (intro u64_small) simp
  moreover have "(of_nat (length X + ?d) :: u64) = len64 X + (o' - a)" unfolding d [symmetric] of_nat_add by simp
  ultimately have u: "unat (len64 X + (o' - a)) = length X + ?d" by simp
  have "take (16 + unat sz) (drop (length X + ?d) V) = take (16 + unat sz) (drop (unat o') P)"
    using assms(2-5) by (simp add: drop_take take_append min_absorb1)
  then show ?thesis using assms(1) u lt by (simp add: ref_at_def)
qed

definition content_of :: "'p payloadSource \<Rightarrow> ('p \<Rightarrow> bytes) \<Rightarrow> Previous \<Rightarrow> bytes \<Rightarrow> Node \<Rightarrow> bytes \<Rightarrow> bytes \<Rightarrow> bool" where
  "content_of S img prev P n path c \<longleftrightarrow>
     (\<exists>p. ps_open S n = Inr p \<and> c = img p) \<or>
     (\<exists>f. pv_files prev path = Some f \<and> pf_meta f = metadataBytes [] n \<and> pf_size f = st_Size (nd_Stat n) \<and>
        c = prev_content P f)"

definition ref_ok :: "'p payloadSource \<Rightarrow> ('p \<Rightarrow> bytes) \<Rightarrow> Previous \<Rightarrow> bytes \<Rightarrow> bytes \<Rightarrow> Node \<times> bytes \<Rightarrow> u64 \<times> u64 \<Rightarrow> bool" where
  "ref_ok S img prev P V np os =
     (\<exists>c. ref_at V (fst os) (snd os) c \<and> content_of S img prev P (fst np) (snd np) c)"

lemma run_refs_ok:
  assumes "prev_ok store P prev" "seg_ok prev (SegRun fs cs a b)" "V = X @ chunks_image store cs @ Y" "length V < 2 ^ 64"
  shows "list_all2 (ref_ok S img prev P V) (map (\<lambda>(n, path, f). (n, path)) fs)
    (map (\<lambda>x. (len64 X + (pf_offset (snd x) - a), pf_size (snd x))) (map (\<lambda>(n, path, f). (n, f)) fs))"
  unfolding list_all2_map1 list_all2_map2
proof (rule list.rel_refl_strong)
  fix x assume x: "x \<in> set fs"
  obtain n path f where [simp]: "x = (n, path, f)" by (cases x)
  note r = run_record [OF assms(1,2) x [simplified]]
  have "ref_at V (len64 X + (pf_offset f - a)) (pf_size f) (prev_content P f)"
    by (rule ref_at_shift [where P = P and b = b and Y = Y]) (use r assms(3,4) in auto)
  moreover have "content_of S img prev P n path (prev_content P f)"
    using assms(2) x unchangedD [of prev n path f] by (auto simp: content_of_def)
  ultimately show "ref_ok S img prev P V (case x of (n, path, f) \<Rightarrow> (n, path))
      (len64 X + (pf_offset (snd (case x of (n, path, f) \<Rightarrow> (n, f))) - a), pf_size (snd (case x of (n, path, f) \<Rightarrow> (n, f))))"
    by (auto simp: ref_ok_def)
qed


context payload_contract
begin

lemma refs_segments:
  assumes "prev_ok store P prev" "list_all (seg_ok prev) ss" "list_all2 (seg_writes S image store) ss bzs"
    and "rr_at L r (segs_plan (length pre) ss) (len64 X)" "lg_sizes L = pre @ concat (map snd bzs) @ post"
    and "V = X @ concat (map fst bzs) @ Y" "length V < 2 ^ 64"
    and sz: "\<And>m p. m \<in> fst ` set (concat (map seg_files ss)) \<Longrightarrow> ps_open S m = Inr p \<Longrightarrow> 0 \<le> sint (ps_Size S p)"
  shows "\<exists>r' refs. rr_all r (length (concat (map seg_files ss))) = (r', Inr refs) \<and>
    list_all2 (ref_ok S image prev P V) (concat (map seg_files ss)) refs"
  using assms
proof (induction ss arbitrary: bzs r pre X)
  case Nil
  then show ?case by simp
next
  case (Cons g ss)
  obtain bz bzs' where bz: "bzs = bz # bzs'" "seg_writes S image store g bz" "list_all2 (seg_writes S image store) ss bzs'"
    using Cons.prems(3) by (auto simp: list_all2_Cons1)
  have V: "V = (X @ fst bz) @ concat (map fst bzs') @ Y" using Cons.prems(6) bz(1) by simp
  have step: ?case
    if r1: "rr_all r (length (seg_files g)) = (r1, Inr refs1)" and ok: "list_all2 (ref_ok S image prev P V) (seg_files g) refs1"
      and at: "rr_at L r1 (segs_plan (length (pre @ snd bz)) ss) (len64 (X @ fst bz))" for r1 refs1
  proof -
    have "\<exists>r' refs. rr_all r1 (length (concat (map seg_files ss))) = (r', Inr refs) \<and>
        list_all2 (ref_ok S image prev P V) (concat (map seg_files ss)) refs"
      by (rule Cons.IH [OF Cons.prems(1) _ bz(3) at _ V Cons.prems(7)])
        (use Cons.prems(2,5,8) bz(1) in auto)
    then show ?thesis using rr_all_append [OF r1] ok by (fastforce intro: list_all2_appendI)
  qed
  show ?case
  proof (cases g)
    case (SegRead n path)
    then obtain p where p: "ps_open S n = Inr p" "bz = (AppendPayloadHeader [] (ps_Size S p) @ image p, [ps_Size S p])"
      using bz(2) by (auto simp: seg_writes_def)
    let ?s = "ps_Size S p"
    have L: "lg_sizes L ! length pre = ?s" "length pre < length (lg_sizes L)" using Cons.prems(5) bz(1) p(2) by simp_all
    have s: "0 \<le> sint ?s" by (rule Cons.prems(8) [OF _ p(1)]) (simp add: SegRead)
    have im: "length (image p) = unat ?s" using image_len64 [OF s] image_less [of p] u64_len [of "image p"] by simp
    have h: "length (AppendPayloadHeader [] ?s) = 16" by (simp add: AppendPayloadHeader_def appendHeader_def)
    obtain r1 where r1: "rr_all r 1 = (r1, Inr [(len64 X, ?s)])" "rr_at L r1 (segs_plan (length pre + 1) ss) (len64 X + (HeaderSize + ?s))"
      using rr_read [of L r n "length pre" "segs_plan (length pre + 1) ss" "len64 X"] Cons.prems(4) L SegRead by auto
    have u: "unat (len64 X :: u64) = length X" using Cons.prems(6,7) by (intro u64_len) simp
    have "ref_at V (len64 X) ?s (image p)"
      using V p(2) im h u by (simp add: ref_at_def)
    then have "ref_ok S image prev P V (n, path) (len64 X, ?s)" using p(1) by (auto simp: ref_ok_def content_of_def)
    moreover have "len64 (X @ fst bz) = len64 X + (HeaderSize + ?s)" using p(2) h image_len64 [OF s] by (simp add: HeaderSize_def)
    ultimately show ?thesis using r1 p(2) SegRead by (intro step [of r1 "[(len64 X, ?s)]"]) (simp_all del: of_nat_add)
  next
    case (SegRun fs cs a b)
    have ok: "seg_ok prev (SegRun fs cs a b)" using Cons.prems(2) SegRun by simp
    let ?xs = "map (\<lambda>(n, path, f). (n, f)) fs"
    have ne: "?xs \<noteq> []" "fs \<noteq> []" using ok by auto
    have w: "bz = (chunks_image store cs, [])" using bz(2) SegRun by (simp add: seg_writes_def)
    obtain x where x: "x \<in> set fs" using last_in_set [OF ne(2)] by blast
    have im: "chunks_image store cs = slice P (unat a) (unat b)" "unat b \<le> length P" "unat a \<le> unat b"
      using run_record [OF Cons.prems(1) ok, of "fst x" "fst (snd x)" "snd (snd x)"] x by auto
    have "(len64 (chunks_image store cs) :: u64) = b - a"
      using im by (simp add: min_absorb2 of_nat_diff)
    then have len: "len64 (X @ fst bz) = len64 X + (b - a)" using w by simp
    have plan: "rr_at L r (rp a (b - a) (Some cs) ?xs @ segs_plan (length pre) ss) (len64 X)"
      using Cons.prems(4) SegRun by (simp add: run_plans_rp [OF ne(1)])
    obtain r1 where r1: "rr_all r (length ?xs) = (r1, Inr (map (\<lambda>x. (len64 X + (pf_offset (snd x) - a), pf_size (snd x))) ?xs))"
        "rr_at L r1 (segs_plan (length pre) ss) (len64 X + (b - a))"
      using rr_all_run [OF plan ne(1)] by blast
    have rf: "list_all2 (ref_ok S image prev P V) (map (\<lambda>(n, path, f). (n, path)) fs)
        (map (\<lambda>x. (len64 X + (pf_offset (snd x) - a), pf_size (snd x))) ?xs)"
      by (rule run_refs_ok [OF Cons.prems(1) ok _ Cons.prems(7), of X "concat (map fst bzs') @ Y"]) (use V w in simp)
    show ?thesis by (rule step [OF _ _]) (use r1 rf w len SegRun in \<open>simp_all del: of_nat_add\<close>)
  qed
qed

end


subsection \<open>Both streams of an archive\<close>

definition effective :: "Previous option \<Rightarrow> Previous" where
  "effective prev = (case prev of None \<Rightarrow> \<lparr> pv_files = Map.empty, pv_chunks = [] \<rparr> | Some p \<Rightarrow> p)"

lemma planReuse_segments:
  assumes "planReuse over prev nps = (plan, rds, stats)"
  shows "\<exists>ss. plan = segs_plan 0 ss \<and> concat (map seg_files ss) = nps \<and> list_all (seg_ok (effective prev)) ss \<and>
    rds = seg_reads ss"
proof (cases prev)
  case None
  let ?ss = "map (\<lambda>(n, path). SegRead n path) nps"
  have "concat (map seg_files ?ss) = nps" by (induction nps) auto
  moreover have "list_all (seg_ok (effective prev)) ?ss" by (auto simp: list_all_iff)
  ultimately show ?thesis
    using assms None read_plans_segs [of nps 0 "[]"] reads_of_reads [of nps "[]"]
    by (intro exI [of _ ?ss]) (auto simp: planReuse_def Let_def seg_reads_def)
next
  case (Some p)
  then show ?thesis using plan_loop_segments [of over p nps "[]"] assms
    by (auto simp: planReuse_def effective_def Let_def)
qed

text \<open>The payload emitter's start, framed when there is a previous snapshot, and the stream it leaves.\<close>

definition payload_start :: "nat option \<Rightarrow> nat option \<Rightarrow> bool \<Rightarrow> pest" where
  "payload_start ctx room framed = \<lparr> pe_w = \<lparr> cn_ctx = ctx,
     cn_w = (if framed then Framed (NewWriter_ru \<lparr> sk_room = room, sk_out = [] \<rparr>) else Plain \<lparr> sk_room = room, sk_out = [] \<rparr>),
     cn_pos = 0 \<rparr>, pe_ledger = newRefLedger, pe_warns = [] \<rparr>"

definition payload_view :: "(bytes \<Rightarrow> bytes) \<Rightarrow> countWriter \<Rightarrow> bytes \<Rightarrow> bool" where
  "payload_view store w V =
     (case cn_w w of
        Plain k \<Rightarrow> sk_out k = V
      | Framed fw \<Rightarrow> (\<exists>fs. sk_out (fw_w fw) = Magic_ru @ concat (map frame_bytes fs) \<and> resolve store fs = V))"

lemma payload_start_view:
  assumes "cn_resolves store (pe_w (payload_start ctx room framed)) w V" "V \<noteq> []"
  shows "payload_view store w V"
proof (cases "cn_w w")
  case (Plain k)
  then show ?thesis using assms(1) by (auto simp: payload_view_def payload_start_def split: if_splits)
next
  case (Framed fw)
  then obtain fs where "resolve store fs = V" "fw_stream fw = Magic_ru @ concat (map frame_bytes fs)" "fs \<noteq> [] \<longrightarrow> fw_begun fw"
    using assms(1) by (auto simp: payload_start_def fw_resolves_def fw_stream_def NewWriter_ru_def split: if_splits)
  moreover from this have "fs \<noteq> []" using assms(2) by (auto simp: resolve_def)
  ultimately show ?thesis using Framed by (auto simp: payload_view_def fw_stream_def)
qed

text \<open>
  C4: the references of a v2 archive resolve.  For any previous snapshot the server holds soundly, any
  files and any outcome of the padding comparison: when the payload emitter succeeds on the plan, there
  is one resolved payload stream, beginning and ending with its markers, in which the reference the
  metadata emitter obtains for each file, in plan order, is the position of a payload record of exactly
  that size; the record holds what the file's payload stood for, or, when the file was found unchanged
  (same path, size and encoded metadata), its content in the previous snapshot.
\<close>

theorem references_resolve:
  assumes "planReuse over prev nps = (plan, rds, stats)"
    and "prev_ok store P (effective prev)"
    and "pe_run (syncSource os) True plan (payload_start ctx room (prev \<noteq> None)) = (s', None)"
    and "\<forall>n \<in> fst ` set nps. \<forall>p. syncSource_open os n = Inr p \<longrightarrow> 0 \<le> sint (payload_Size p)"
  shows "\<exists>V V'. payload_view store (pe_w s') V \<and>
    V = AppendPayloadStartMarker [] @ V' @ AppendPayloadTailMarker [] \<and>
    (length V < 2 ^ 64 \<longrightarrow>
      (\<exists>r refs. rr_all (newRefReader (pe_ledger s') plan) (length nps) = (r, Inr refs) \<and>
         list_all2 (ref_ok (syncSource os) payload_image (effective prev) P V) nps refs))"
proof -
  let ?s0 = "payload_start ctx room (prev \<noteq> None)"
  obtain ss where ss: "plan = segs_plan 0 ss" "concat (map seg_files ss) = nps" "list_all (seg_ok (effective prev)) ss"
    using planReuse_segments [OF assms(1)] by blast
  have sz: "0 \<le> sint (ps_Size (syncSource os) p)"
    if "m \<in> fst ` set (concat (map seg_files ss))" "ps_open (syncSource os) m = Inr p" for m p
    using assms(4) that unfolding ss(2) by (auto simp: syncSource_def)
  obtain s1 where s1: "pe_write ?s0 (AppendPayloadStartMarker []) = (s1, None)" "pe_loop (syncSource os) True plan s1 = (s', None)"
    using assms(3) by (auto simp: pe_run_def split: prod.splits option.splits)
  note w1 = pe_write_ok [OF s1(1), of store]
  have led: "lg_err (pe_ledger s1) = None" "lg_sizes (pe_ledger s1) = []" using w1 by (auto simp: payload_start_def newRefLedger_def)
  have runs: "list_all (\<lambda>g. case g of SegRun fs cs a b \<Rightarrow> fs \<noteq> [] \<and> cs \<noteq> [] | _ \<Rightarrow> True) ss"
  proof -
    have "fs \<noteq> [] \<and> cs \<noteq> []" if "SegRun fs cs a b \<in> set ss" for fs cs a b
    proof -
      have ok: "seg_ok (effective prev) (SegRun fs cs a b)" using ss(3) that unfolding list_all_iff by blast
      then show ?thesis using chunksFor_image [of store P "effective prev" _ _ cs a b] assms(2)
        by (auto simp: prev_ok_def split_def)
    qed
    then show ?thesis by (auto simp: list_all_iff split: segment.splits)
  qed
  obtain bzs where bzs: "list_all2 (seg_writes (syncSource os) payload_image store) ss bzs"
      "cn_resolves store (pe_w s1) (pe_w s') (concat (map fst bzs) @ AppendPayloadTailMarker [])"
      "lg_sizes (pe_ledger s') = concat (map snd bzs)"
    using sync.pe_loop_segments [OF s1(2) [unfolded ss(1)] led(1) runs, of store] led(2) by auto
  define V where "V = AppendPayloadStartMarker [] @ concat (map fst bzs) @ AppendPayloadTailMarker []"
  have view: "payload_view store (pe_w s') V"
  proof (rule payload_start_view)
    show "cn_resolves store (pe_w ?s0) (pe_w s') V"
      using out_resolves_trans [OF w1 [THEN conjunct1] bzs(2)] by (simp add: V_def)
    have "length V \<noteq> 0" by (simp add: V_def AppendPayloadStartMarker_def appendHeader_def del: length_0_conv)
    then show "V \<noteq> []" by simp
  qed
  have "\<exists>r refs. rr_all (newRefReader (pe_ledger s') plan) (length nps) = (r, Inr refs) \<and>
         list_all2 (ref_ok (syncSource os) payload_image (effective prev) P V) nps refs" if "length V < 2 ^ 64"
  proof -
    have "(len64 (AppendPayloadStartMarker []) :: u64) = MarkerSize"
      by (simp add: AppendPayloadStartMarker_def appendHeader_def MarkerSize_def HeaderSize_def)
    then have at: "rr_at (pe_ledger s') (newRefReader (pe_ledger s') plan) (segs_plan (length []) ss) (len64 (AppendPayloadStartMarker []))"
      by (simp add: rr_at_def newRefReader_def ss(1))
    have pub: "lg_sizes (pe_ledger s') = [] @ concat (map snd bzs) @ []" using bzs(3) by simp
    have "\<exists>r' refs. rr_all (newRefReader (pe_ledger s') plan) (length (concat (map seg_files ss))) = (r', Inr refs) \<and>
        list_all2 (ref_ok (syncSource os) payload_image (effective prev) P V) (concat (map seg_files ss)) refs"
      by (rule sync.refs_segments [OF assms(2) ss(3) bzs(1) at pub V_def that]) (rule sz)
    then show ?thesis unfolding ss(2) .
  qed
  then show ?thesis using view unfolding V_def by blast
qed


text \<open>A snapshot whose payload stream holds one record, and the same file in a new tree.\<close>

definition old_file :: Node where
  "old_file = Node ([97]) [] KindStream (zero_stat\<lparr> st_Mode := ModeRegular OR 0x1A4, st_Size := 2 \<rparr>)
     [] [] None [] 0 [] (Some [([5, 6], REof)])"

definition old_stream :: bytes where
  "old_stream = AppendPayloadStartMarker [] @ AppendPayloadHeader [] 2 @ [5, 6] @ AppendPayloadTailMarker []"

definition old_store :: "bytes \<Rightarrow> bytes" where
  "old_store d = (if d = [1] then take 16 old_stream else if d = [2] then slice old_stream 16 34 else slice old_stream 34 50)"

definition old_snapshot :: Previous where
  "old_snapshot = \<lparr> pv_files = [[97] \<mapsto> \<lparr> pf_meta = metadataBytes [] old_file, pf_size = 2, pf_offset = 16 \<rparr>],
     pv_chunks = [\<lparr> pc_EndOffset = 16, pc_Digest = [1] \<rparr>, \<lparr> pc_EndOffset = 34, pc_Digest = [2] \<rparr>, \<lparr> pc_EndOffset = 50, pc_Digest = [3] \<rparr>] \<rparr>"

lemma old_snapshot_ok: "prev_ok old_store old_stream old_snapshot"
proof -
  have l: "length old_stream = 50"
    by (simp add: old_stream_def AppendPayloadStartMarker_def AppendPayloadTailMarker_def AppendPayloadHeader_def appendHeader_def)
  have "drop 16 old_stream = AppendPayloadHeader [] 2 @ [5, 6] @ AppendPayloadTailMarker []"
    by (simp add: old_stream_def AppendPayloadStartMarker_def appendHeader_def)
  moreover have "drop 32 old_stream = drop 16 (drop 16 old_stream)" by simp
  moreover have "length (AppendPayloadHeader [] 2) = 16" by (simp add: AppendPayloadHeader_def appendHeader_def)
  ultimately show ?thesis
    by (auto simp: prev_ok_def old_snapshot_def old_store_def ran_def ref_at_def prev_content_def l)
qed

definition old_plan :: "payloadPlan list" where
  "old_plan = [\<lparr> pp_node = old_file, pp_reuse = True, pp_rel = 0, pp_size = 2, pp_inject = Some [\<lparr> rc_Digest = [2], rc_Size = 18 \<rparr>],
     pp_runEnd = True, pp_runTotal = 18, pp_readSeq = 0 \<rparr>]"

lemma old_plan: "planReuse (\<lambda>pad tot. unat tot < 10 * unat pad) (Some old_snapshot) [(old_file, [97])] =
    (old_plan, [],
     \<lparr> ru_Files = 1, ru_ReusedFiles = 1, ru_ReusedBytes = 2, ru_InjectedBytes = 18, ru_RejectedRuns = 0 \<rparr>)"
proof -
  have u: "unchanged old_snapshot (old_file, [97]) = Some \<lparr> pf_meta = metadataBytes [] old_file, pf_size = 2, pf_offset = 16 \<rparr>"
    by (simp add: unchanged_def old_snapshot_def old_file_def)
  have c: "chunksFor old_snapshot 16 34 = Some ([\<lparr> rc_Digest = [2], rc_Size = 18 \<rparr>], 16, 34)"
    by (simp add: chunksFor_def old_snapshot_def sort_Search_def search_loop.simps [of _ 0 3] search_loop.simps [of _ 0 "Suc 0"]
        search_loop.simps [of _ "Suc 0" "Suc 0"] Let_def numeral_3_eq_3 [symmetric])
  show ?thesis
    by (simp add: planReuse_def plan_loop.simps(2) u c HeaderSize_def Let_def run_plans_def reuse_plan_def old_plan_def)
qed

lemma put64_nonempty: "put64 w \<noteq> []"
  by (metis length_put64 list.size(3) zero_neq_numeral)

theorem references_resolve_witness:
  "\<exists>s' V. fst (planReuse (\<lambda>pad tot. unat tot < 10 * unat pad) (Some old_snapshot) [(old_file, [97])]) = old_plan \<and>
     pe_run (syncSource (\<lambda>_. Inl '''')) True old_plan (payload_start None None True) = (s', None) \<and>
     payload_view old_store (pe_w s') V \<and> (length V < 2 ^ 64 \<longrightarrow>
       (\<exists>off c. ref_at V off 2 c \<and> content_of (syncSource (\<lambda>_. Inl '''')) payload_image old_snapshot old_stream old_file ([97]) c))"
proof -
  obtain s' where s': "pe_run (syncSource (\<lambda>_. Inl '''')) True old_plan (payload_start None None True) = (s', None)"
    by (simp add: old_plan_def pe_run_def payload_start_def pe_write_def cn_write_def cn_Write_def pe_inject_def
        fw_Write_def fw_Inject_def fw_frame_def fw_begin_def NewWriter_ru_def sink_write_None Let_def put64_nonempty
        AppendPayloadStartMarker_def AppendPayloadTailMarker_def appendHeader_def)
  have sz: "\<forall>n \<in> fst ` set [(old_file, [97])]. \<forall>p. syncSource_open (\<lambda>_. Inl '''') n = Inr p \<longrightarrow> 0 \<le> sint (payload_Size p)"
    by (auto simp: old_file_def syncSource_open_def)
  have ok: "prev_ok old_store old_stream (effective (Some old_snapshot))" using old_snapshot_ok by (simp add: effective_def)
  note t = references_resolve [OF old_plan ok, of "\<lambda>_. Inl ''''" None None s']
  obtain V V' where V: "payload_view old_store (pe_w s') V"
      "length V < 2 ^ 64 \<longrightarrow> (\<exists>r refs. rr_all (newRefReader (pe_ledger s') old_plan) 1 = (r, Inr refs) \<and>
         list_all2 (ref_ok (syncSource (\<lambda>_. Inl '''')) payload_image old_snapshot old_stream V) [(old_file, [97])] refs)"
    using t s' sz by (auto simp: effective_def)
  have "\<exists>off c. ref_at V off 2 c \<and> content_of (syncSource (\<lambda>_. Inl '''')) payload_image old_snapshot old_stream old_file ([97]) c"
    if "length V < 2 ^ 64"
    using V(2) that by (auto simp: old_plan_def rr_next_def newRefReader_def ref_ok_def Let_def)
  then show ?thesis using s' V(1) old_plan by auto
qed

end
