(* ===== verification/Codec.thy ===== *)
theory Codec
  imports Prelude
begin

text \<open>
  The interface between the encoders of a wire format and their clients: a prefix codec, an
  encoder and a decoder that reports how many bytes it consumed.  The laws are what a stream
  parser needs: decoding an encoding followed by anything gives the value back and consumes
  the encoding exactly, and a successful decode does not look past what it consumed.  The
  consequences a client uses (encodings are prefix-free, a sequence of encodings decodes in
  order) are proved here once; \<open>Catalog\<close> provides the varint instances.
\<close>

locale prefix_codec =
  fixes enc :: "'a \<Rightarrow> bytes"
    and dec :: "bytes \<Rightarrow> 'e + ('a \<times> nat)"
  assumes dec_enc: "dec (enc x @ r) = Inr (x, length (enc x))"
    and dec_local: "dec bs = Inr (x, n) \<Longrightarrow> 0 < n \<and> n \<le> length bs \<and> dec (bs @ r) = Inr (x, n)"
begin

lemma dec_enc_self: "dec (enc x) = Inr (x, length (enc x))"
  using dec_enc [of x "[]"] by simp

lemma enc_nonempty: "enc x \<noteq> []"
  using dec_local [OF dec_enc_self] by auto

lemma prefix_free:
  assumes "enc x @ r = enc y @ s"
  shows "x = y \<and> r = s"
proof -
  have "Inr (x, length (enc x)) = (Inr (y, length (enc y)) :: 'e + ('a \<times> nat))"
    using dec_enc [of x r] dec_enc [of y s] assms by simp
  then have "x = y" by simp
  with assms show ?thesis by simp
qed

lemma enc_inj: "enc x = enc y \<longleftrightarrow> x = y"
  using prefix_free [of x "[]" y "[]"] by auto

fun dec_seq :: "nat \<Rightarrow> bytes \<Rightarrow> 'e + ('a list \<times> bytes)" where
  "dec_seq 0 bs = Inr ([], bs)"
| "dec_seq (Suc k) bs =
     (case dec bs of
        Inl e \<Rightarrow> Inl e
      | Inr (x, n) \<Rightarrow>
          (case dec_seq k (drop n bs) of
             Inl e \<Rightarrow> Inl e
           | Inr (xs, r) \<Rightarrow> Inr (x # xs, r)))"

lemma dec_seq_enc: "dec_seq (length xs) (concat (map enc xs) @ r) = Inr (xs, r)"
  by (induction xs) (simp_all add: dec_enc)

end

end
