(* ===== verification/Catalog.thy ===== *)
theory Catalog
  imports Codec
begin

unbundle bit_operations_syntax

text \<open>
  The \<^verbatim>\<open>.pcat1\<close> catalog, \<^verbatim>\<open>src/catalog\<close>: the variable-length integers (\<^verbatim>\<open>varint.go\<close>), the
  streaming writer (\<^verbatim>\<open>writer.go\<close>) and the decoder (\<^verbatim>\<open>reader.go\<close>).

  The varint coders are prefix codecs for every 64-bit value, the signed one including the
  most negative (interpretations \<open>u64c\<close> and \<open>i64c\<close>).  The writer is a state machine over its
  output, position and stack of open directories; \<open>table_ok\<close> says that a table written into
  the output decodes to the entries it was built from, whatever is written after it, and every
  operation of the writer keeps that for the whole stack (\<open>writer_ok\<close>).  The decoder is total:
  its recursion is well-founded because a child table lies strictly before its parent.
\<close>

subsection \<open>Variable-length integers\<close>

datatype catalog_error =
    ErrVarint
  | ErrWrite
  | ErrEndWithoutStart
  | ErrOutsideDirectory bytes
  | ErrUnclosed nat
  | ErrEmptyName
  | ErrInvalidName bytes
  | ErrBadMagic
  | ErrRootPointer u64
  | ErrNesting
  | ErrTablePosition u64
  | ErrTableOverrun u64
  | ErrTruncatedEntry u64
  | ErrNameOverrun u64
  | ErrDelta bytes u64
  | ErrUnknownType byte u64

lemma shift7_less: "\<not> v < (128 :: u64) \<Longrightarrow> unat (drop_bit 7 v) < unat v"
proof -
  assume "\<not> v < 128"
  then have "128 \<le> unat v" by (simp add: word_less_nat_alt)
  then show ?thesis by (simp add: drop_bit_eq_div unat_div)
qed

function appendU64 :: "bytes \<Rightarrow> u64 \<Rightarrow> bytes" where
  "appendU64 dst v =
     (if v < 128 then dst @ [ucast v]
      else appendU64 (dst @ [ucast (128 OR (v AND 127))]) (drop_bit 7 v))"
  by pat_completeness auto
termination
  by (relation "measure (\<lambda>(dst, v). unat v)") (auto simp: shift7_less)

declare appendU64.simps [simp del]

text \<open>The loop of the negative branch, and its last two bytes.\<close>

function appendNeg :: "bytes \<Rightarrow> u64 \<Rightarrow> bytes" where
  "appendNeg dst d =
     (if d < 128 then dst @ [ucast (128 OR d), 0]
      else appendNeg (dst @ [ucast (128 OR (d AND 127))]) (drop_bit 7 d))"
  by pat_completeness auto
termination
  by (relation "measure (\<lambda>(dst, v). unat v)") (auto simp: shift7_less)

declare appendNeg.simps [simp del]

definition appendI64 :: "bytes \<Rightarrow> i64 \<Rightarrow> bytes" where
  "appendI64 dst v = (if 0 \<le> sint v then appendU64 dst v else appendNeg dst (- v))"

fun decodeU64_loop :: "bytes \<Rightarrow> nat \<Rightarrow> u64 \<Rightarrow> catalog_error + (u64 \<times> nat)" where
  "decodeU64_loop [] i v = Inl ErrVarint"
| "decodeU64_loop (t # ts) i v =
     (if i < 10 then
        (if t < 128 then Inr (v OR push_bit (i * 7) (ucast t), i + 1)
         else decodeU64_loop ts (i + 1) (v OR push_bit (i * 7) (ucast (t AND 127))))
      else Inl ErrVarint)"

definition decodeU64 :: "bytes \<Rightarrow> catalog_error + (u64 \<times> nat)" where
  "decodeU64 data = decodeU64_loop data 0 0"

fun decodeI64_loop :: "bytes \<Rightarrow> nat \<Rightarrow> u64 \<Rightarrow> catalog_error + (i64 \<times> nat)" where
  "decodeI64_loop [] i v = Inl ErrVarint"
| "decodeI64_loop (t # ts) i v =
     (if i < 11 then
        (if t = 0 then
           (if v = 0 then Inr (0, i + 1) else Inr (- (v - 1) - 1, i + 1))
         else if t < 128 then Inr (v OR push_bit (i * 7) (ucast t), i + 1)
         else decodeI64_loop ts (i + 1) (v OR push_bit (i * 7) (ucast (t AND 127))))
      else Inl ErrVarint)"

definition decodeI64 :: "bytes \<Rightarrow> catalog_error + (i64 \<times> nat)" where
  "decodeI64 data = decodeI64_loop data 0 0"

paragraph \<open>Bits of a 7-bit group.\<close>

lemma c127: "(127 :: u64) = mask 7" "(127 :: byte) = mask 7"
  by (simp_all add: mask_eq_decr_exp)

lemma bit_128_u64: "bit (128 :: u64) n \<longleftrightarrow> n = 7"
  using bit_exp_iff [where 'a = u64, of 7 n] by auto

lemma bit_128_int: "bit (128 :: int) n \<longleftrightarrow> n = 7"
  using bit_exp_iff [where 'a = int, of 7 n] by auto

lemma mod_128_iff: "(m :: nat) < 128 \<longleftrightarrow> m mod 128 = m"
  using mod_less [of m 128] mod_less_divisor [of 128 m] by linarith

lemma byte_less_128_iff: "b < (128 :: byte) \<longleftrightarrow> \<not> bit b 7"
proof -
  have "b < 128 \<longleftrightarrow> take_bit 7 b = b"
    by (simp add: take_bit_eq_mod word_less_nat_alt word_unat_eq_iff unat_mod mod_128_iff)
  also have "\<dots> \<longleftrightarrow> (\<forall>n < 8. bit (take_bit 7 b) n = bit b n)" by (auto intro!: bit_word_eqI)
  also have "\<dots> \<longleftrightarrow> (\<forall>n < 8. bit b n \<longrightarrow> n < 7)" by (auto simp: bit_take_bit_iff)
  also have "\<dots> \<longleftrightarrow> \<not> bit b 7" by (auto simp: less_Suc_eq numeral_eq_Suc)
  finally show ?thesis .
qed

lemma less_128_iff: "w < 128 \<longleftrightarrow> (\<forall>n. bit (w :: u64) n \<longrightarrow> n < 7)"
proof -
  have "w < 128 \<longleftrightarrow> take_bit 7 w = w"
    by (simp add: take_bit_eq_mod word_less_nat_alt word_unat_eq_iff unat_mod mod_128_iff)
  also have "\<dots> \<longleftrightarrow> (\<forall>n. bit (take_bit 7 w) n = bit w n)" by (metis bit_eqI)
  also have "\<dots> \<longleftrightarrow> (\<forall>n. bit w n \<longrightarrow> n < 7)" by (auto simp: bit_take_bit_iff)
  finally show ?thesis .
qed

lemma group_ge: "\<not> (ucast (128 OR w :: u64) :: byte) < 128"
  by (simp add: byte_less_128_iff bit_simps bit_128_u64)

lemma group_bits: "ucast (ucast (128 OR (w AND 127) :: u64) AND 127 :: byte) = w AND 127"
  unfolding c127 by (rule bit_word_eqI, simp add: bit_simps bit_128_u64 bit_128_int, auto)

lemma last_byte: "w < 128 \<Longrightarrow> (ucast (w :: u64) :: byte) < 128 \<and> ucast (ucast w :: byte) = w"
  by (auto simp: byte_less_128_iff less_128_iff bit_simps intro!: bit_word_eqI)

lemma last_neg_byte: "w < 128 \<Longrightarrow> ucast (ucast (128 OR w :: u64) AND 127 :: byte) = w"
  unfolding less_128_iff c127
  by (rule bit_word_eqI, simp add: bit_simps bit_128_u64 bit_128_int, auto)

lemma group_or:
  "push_bit (i * 7) (w AND 127) OR push_bit ((i + 1) * 7) (drop_bit 7 w) = push_bit (i * 7) (w :: u64)"
  unfolding c127
proof (rule bit_word_eqI)
  fix n assume "n < LENGTH(64)"
  then show "bit (push_bit (i * 7) (w AND mask 7) OR push_bit ((i + 1) * 7) (drop_bit 7 w)) n
      = bit (push_bit (i * 7) w) n"
    by (cases "i * 7 \<le> n"; cases "n - i * 7 < 7") (auto simp: bit_simps)
qed

text \<open>\<open>fits w i\<close>: the bits of \<open>w\<close> stay inside 64 bits when shifted into group \<open>i\<close>.\<close>

definition fits :: "u64 \<Rightarrow> nat \<Rightarrow> bool" where
  "fits w i \<longleftrightarrow> (\<forall>n. bit w n \<longrightarrow> n + 7 * i < 64)"

lemma fits_0: "fits w 0"
  using bit_imp_le_length by (fastforce simp: fits_def)

lemma fits_step:
  assumes "fits w i" "\<not> w < 128"
  shows "fits (drop_bit 7 w) (i + 1)" and "i < 9"
proof -
  from assms(1) show "fits (drop_bit 7 w) (i + 1)"
    by (auto simp: fits_def bit_drop_bit_eq add.commute add.left_commute)
  from assms(2) obtain n where "7 \<le> n" "bit w n" by (auto simp: less_128_iff not_less)
  with assms(1) show "i < 9" by (auto simp: fits_def)
qed

lemma appendU64_append: "appendU64 dst v = dst @ appendU64 [] v"
proof (induction "unat v" arbitrary: v dst rule: less_induct)
  case less
  show ?case
  proof (cases "v < 128")
    case True
    then show ?thesis by (simp add: appendU64.simps [of _ v])
  next
    case False
    note IH = less [OF shift7_less [OF False]]
    show ?thesis
      using False IH [of "dst @ [ucast (128 OR (v AND 127))]"] IH [of "[ucast (128 OR (v AND 127))]"]
      by (simp add: appendU64.simps [of _ v])
  qed
qed

lemma appendNeg_append: "appendNeg dst v = dst @ appendNeg [] v"
proof (induction "unat v" arbitrary: v dst rule: less_induct)
  case less
  show ?case
  proof (cases "v < 128")
    case True
    then show ?thesis by (simp add: appendNeg.simps [of _ v])
  next
    case False
    note IH = less [OF shift7_less [OF False]]
    show ?thesis
      using False IH [of "dst @ [ucast (128 OR (v AND 127))]"] IH [of "[ucast (128 OR (v AND 127))]"]
      by (simp add: appendNeg.simps [of _ v])
  qed
qed

lemma appendI64_append: "appendI64 dst v = dst @ appendI64 [] v"
  by (simp add: appendI64_def appendU64_append [of dst] appendNeg_append [of dst])

text \<open>One unfolding of each encoder on an empty destination.\<close>

lemma appendU64_small: "v < 128 \<Longrightarrow> appendU64 [] v = [ucast v]"
  by (simp add: appendU64.simps)

lemma appendU64_large:
  "\<not> v < 128 \<Longrightarrow> appendU64 [] v = ucast (128 OR (v AND 127)) # appendU64 [] (drop_bit 7 v)"
  using appendU64_append [of "[ucast (128 OR (v AND 127))]" "drop_bit 7 v"]
  by (simp add: appendU64.simps [of "[]" v])

lemma appendNeg_small: "v < 128 \<Longrightarrow> appendNeg [] v = [ucast (128 OR v), 0]"
  by (simp add: appendNeg.simps)

lemma appendNeg_large:
  "\<not> v < 128 \<Longrightarrow> appendNeg [] v = ucast (128 OR (v AND 127)) # appendNeg [] (drop_bit 7 v)"
  using appendNeg_append [of "[ucast (128 OR (v AND 127))]" "drop_bit 7 v"]
  by (simp add: appendNeg.simps [of "[]" v])

lemma decodeU64_loop_enc:
  assumes "fits w i" "i < 10"
  shows "decodeU64_loop (appendU64 [] w @ r) i v
           = Inr (v OR push_bit (i * 7) w, i + length (appendU64 [] w))"
  using assms
proof (induction "unat w" arbitrary: w i v rule: less_induct)
  case less
  show ?case
  proof (cases "w < 128")
    case True
    then show ?thesis using less.prems last_byte [OF True] by (simp add: appendU64_small)
  next
    case False
    note st = fits_step [OF less.prems(1) False]
    show ?thesis
      using less.hyps [OF shift7_less [OF False] st(1)] st(2) less.prems(2) group_or [of i w]
      by (simp add: appendU64_large [OF False] group_ge group_bits or.assoc)
  qed
qed

lemma drop_bit_7_nonzero: "\<not> w < (128 :: u64) \<Longrightarrow> drop_bit 7 w \<noteq> 0"
proof
  assume nl: "\<not> w < 128" and z: "drop_bit 7 w = 0"
  from nl obtain n where "7 \<le> n" "bit w n" by (auto simp: less_128_iff not_less)
  then have "bit (drop_bit 7 w) (n - 7)" by (simp add: bit_drop_bit_eq)
  with z show False by simp
qed

lemma ucast_nonzero: "w < 128 \<Longrightarrow> w \<noteq> 0 \<Longrightarrow> (ucast (w :: u64) :: byte) \<noteq> 0"
  using last_byte [of w] by auto

lemma group_nonzero: "(ucast (128 OR w :: u64) :: byte) \<noteq> 0"
  using group_ge [of w] by auto

lemma decodeI64_loop_enc:
  assumes "fits w i" "i < 10" "w \<noteq> 0"
  shows "decodeI64_loop (appendU64 [] w @ r) i v
           = Inr (v OR push_bit (i * 7) w, i + length (appendU64 [] w))"
  using assms
proof (induction "unat w" arbitrary: w i v rule: less_induct)
  case less
  show ?case
  proof (cases "w < 128")
    case True
    then show ?thesis using less.prems last_byte [OF True]
      by (simp add: appendU64_small ucast_nonzero)
  next
    case False
    note st = fits_step [OF less.prems(1) False]
    show ?thesis
      using less.hyps [OF shift7_less [OF False] st(1)] st(2) less.prems(2) group_or [of i w]
      by (simp add: appendU64_large [OF False] group_ge group_bits or.assoc group_nonzero
          drop_bit_7_nonzero [OF False])
  qed
qed

lemma decodeI64_loop_neg:
  assumes "fits w i" "i < 10" "v OR push_bit (i * 7) w \<noteq> 0"
  shows "decodeI64_loop (appendNeg [] w @ r) i v
           = Inr (- (v OR push_bit (i * 7) w), i + length (appendNeg [] w))"
  using assms
proof (induction "unat w" arbitrary: w i v rule: less_induct)
  case less
  show ?case
  proof (cases "w < 128")
    case True
    then show ?thesis using less.prems last_neg_byte [OF True]
      by (simp add: appendNeg_small group_ge group_nonzero)
  next
    case False
    note st = fits_step [OF less.prems(1) False]
    show ?thesis
      using less.hyps [OF shift7_less [OF False] st(1)] st(2) less.prems(2,3) group_or [of i w]
      by (simp add: appendNeg_large [OF False] group_ge group_bits or.assoc group_nonzero)
  qed
qed

lemma decodeU64_loop_local:
  "decodeU64_loop bs i v = Inr (x, n) \<Longrightarrow>
     i < n \<and> n \<le> i + length bs \<and> decodeU64_loop (bs @ r) i v = Inr (x, n)"
  by (induction bs i v rule: decodeU64_loop.induct) (auto split: if_splits)

lemma decodeI64_loop_local:
  "decodeI64_loop bs i v = Inr (x, n) \<Longrightarrow>
     i < n \<and> n \<le> i + length bs \<and> decodeI64_loop (bs @ r) i v = Inr (x, n)"
  by (induction bs i v rule: decodeI64_loop.induct) (auto split: if_splits)

lemma decodeI64_enc: "decodeI64 (appendI64 [] v @ r) = Inr (v, length (appendI64 [] v))"
proof -
  consider (zero) "v = 0" | (pos) "v \<noteq> 0" "0 \<le> sint v" | (neg) "\<not> 0 \<le> sint v" by blast
  then show ?thesis
  proof cases
    case zero
    then show ?thesis by (simp add: decodeI64_def appendI64_def appendU64_small)
  next
    case pos
    then show ?thesis using decodeI64_loop_enc [OF fits_0, of v r 0]
      by (simp add: decodeI64_def appendI64_def)
  next
    case neg
    then have "- v \<noteq> 0" by auto
    with neg show ?thesis using decodeI64_loop_neg [OF fits_0, of 0 "- v" r]
      by (simp add: decodeI64_def appendI64_def)
  qed
qed

interpretation u64c: prefix_codec "appendU64 []" decodeU64
proof
  show "decodeU64 (appendU64 [] x @ r) = Inr (x, length (appendU64 [] x))" for x r
    using decodeU64_loop_enc [OF fits_0, of x r 0] by (simp add: decodeU64_def)
  show "0 < n \<and> n \<le> length bs \<and> decodeU64 (bs @ r) = Inr (x, n)"
    if "decodeU64 bs = Inr (x, n)" for bs x n r
    using decodeU64_loop_local [of bs 0 0 x n r] that by (auto simp: decodeU64_def)
qed

interpretation i64c: prefix_codec "appendI64 []" decodeI64
proof
  show "decodeI64 (appendI64 [] x @ r) = Inr (x, length (appendI64 [] x))" for x r
    by (rule decodeI64_enc)
  show "0 < n \<and> n \<le> length bs \<and> decodeI64 (bs @ r) = Inr (x, n)"
    if "decodeI64 bs = Inr (x, n)" for bs x n r
    using decodeI64_loop_local [of bs 0 0 x n r] that by (auto simp: decodeI64_def)
qed

lemmas varint_simps = u64c.dec_enc i64c.dec_enc appendU64_append [of "_ # _"]

subsection \<open>The writer\<close>

definition Magic :: bytes where
  "Magic = [145, 253, 96, 249, 196, 103, 88, 213]"

definition TypeDirectory :: byte where "TypeDirectory = of_char (CHR ''d'')"
definition TypeFile :: byte where "TypeFile = of_char (CHR ''f'')"
definition TypeSymlink :: byte where "TypeSymlink = of_char (CHR ''l'')"
definition TypeHardlink :: byte where "TypeHardlink = of_char (CHR ''h'')"
definition TypeBlockDevice :: byte where "TypeBlockDevice = of_char (CHR ''b'')"
definition TypeCharDevice :: byte where "TypeCharDevice = of_char (CHR ''c'')"
definition TypeFifo :: byte where "TypeFifo = of_char (CHR ''p'')"
definition TypeSocket :: byte where "TypeSocket = of_char (CHR ''s'')"

lemmas type_defs = TypeDirectory_def TypeFile_def TypeSymlink_def TypeHardlink_def
  TypeBlockDevice_def TypeCharDevice_def TypeFifo_def TypeSocket_def

record entry =
  en_typ :: byte
  en_name :: bytes
  en_size :: u64
  en_mtime :: i64
  en_start :: u64

record dirInfo =
  di_name :: bytes
  di_entries :: "entry list"

text \<open>
  The writer's sink is its output so far and the room it has left: \<open>None\<close> never fails, with
  \<open>Some k\<close> the sink takes \<open>k\<close> more bytes and then fails, after a short write.  The stack has
  the innermost directory first and the root table last.
\<close>

record Writer =
  cw_out :: bytes
  cw_room :: "nat option"
  cw_pos :: u64
  cw_stack :: "dirInfo list"

type_synonym wresult = "Writer \<times> catalog_error option"

definition cw_write :: "Writer \<Rightarrow> bytes \<Rightarrow> wresult" where
  "cw_write c p =
     (let n = sink_take (cw_room c) p;
          c' = c\<lparr> cw_out := cw_out c @ take n p,
                 cw_room := map_option (\<lambda>k. k - n) (cw_room c),
                 cw_pos := cw_pos c + of_nat n \<rparr>
      in (c', if n < length p then Some ErrWrite else None))"

definition checkName :: "bytes \<Rightarrow> catalog_error option" where
  "checkName name =
     (if name = [] then Some ErrEmptyName
      else if \<exists>b \<in> set name. b = of_char (CHR ''/'') \<or> b = 0 then Some (ErrInvalidName name)
      else None)"

definition NewWriter :: "nat option \<Rightarrow> catalog_error + Writer" where
  "NewWriter room =
     (let n = sink_take room Magic in
      if n < length Magic then Inl ErrWrite
      else Inr \<lparr> cw_out = Magic, cw_room = map_option (\<lambda>k. k - n) room, cw_pos = 8,
                 cw_stack = [\<lparr> di_name = [], di_entries = [] \<rparr>] \<rparr>)"

definition entry_bytes :: "u64 \<Rightarrow> entry \<Rightarrow> bytes" where
  "entry_bytes start e =
     [en_typ e] @ appendU64 [] (len64 (en_name e)) @ en_name e @
     (if en_typ e = TypeDirectory then appendU64 [] (start - en_start e)
      else if en_typ e = TypeFile then appendU64 [] (en_size e) @ appendI64 [] (en_mtime e)
      else [])"

definition table_bytes :: "entry list \<Rightarrow> u64 \<Rightarrow> bytes" where
  "table_bytes es start =
     (let table = appendU64 [] (len64 es) @ concat (map (entry_bytes start) es)
      in appendU64 [] (len64 table) @ table)"

definition writeTable :: "Writer \<Rightarrow> dirInfo \<Rightarrow> u64 \<Rightarrow> wresult" where
  "writeTable c dir start = cw_write c (table_bytes (di_entries dir) start)"

definition StartDirectory :: "Writer \<Rightarrow> bytes \<Rightarrow> wresult" where
  "StartDirectory c name =
     (case checkName name of
        Some e \<Rightarrow> (c, Some e)
      | None \<Rightarrow> (c\<lparr> cw_stack := \<lparr> di_name = name, di_entries = [] \<rparr> # cw_stack c \<rparr>, None))"

fun EndDirectory :: "Writer \<Rightarrow> wresult" where
  "EndDirectory c =
     (case cw_stack c of
        dir # parent # rest \<Rightarrow>
          (let start = cw_pos c in
           case writeTable (c\<lparr> cw_stack := parent # rest \<rparr>) dir start of
             (c', Some e) \<Rightarrow> (c', Some e)
           | (c', None) \<Rightarrow>
               (c'\<lparr> cw_stack := parent\<lparr> di_entries := di_entries parent @
                     [\<lparr> en_typ = TypeDirectory, en_name = di_name dir, en_size = 0,
                        en_mtime = 0, en_start = start \<rparr>] \<rparr> # rest \<rparr>, None))
      | _ \<Rightarrow> (c, Some ErrEndWithoutStart))"

definition add :: "Writer \<Rightarrow> entry \<Rightarrow> wresult" where
  "add c e =
     (case checkName (en_name e) of
        Some err \<Rightarrow> (c, Some err)
      | None \<Rightarrow>
          (case cw_stack c of
             dir # parent # rest \<Rightarrow>
               (c\<lparr> cw_stack := dir\<lparr> di_entries := di_entries dir @ [e] \<rparr> # parent # rest \<rparr>, None)
           | _ \<Rightarrow> (c, Some (ErrOutsideDirectory (en_name e)))))"

definition AddFile :: "Writer \<Rightarrow> bytes \<Rightarrow> u64 \<Rightarrow> i64 \<Rightarrow> wresult" where
  "AddFile c name sz mtimeSecs =
     add c \<lparr> en_typ = TypeFile, en_name = name, en_size = sz, en_mtime = mtimeSecs, en_start = 0 \<rparr>"

definition add_named :: "byte \<Rightarrow> Writer \<Rightarrow> bytes \<Rightarrow> wresult" where
  "add_named typ c name =
     add c \<lparr> en_typ = typ, en_name = name, en_size = 0, en_mtime = 0, en_start = 0 \<rparr>"

definition AddSymlink :: "Writer \<Rightarrow> bytes \<Rightarrow> wresult" where "AddSymlink = add_named TypeSymlink"
definition AddHardlink :: "Writer \<Rightarrow> bytes \<Rightarrow> wresult" where "AddHardlink = add_named TypeHardlink"
definition AddBlockDevice :: "Writer \<Rightarrow> bytes \<Rightarrow> wresult" where "AddBlockDevice = add_named TypeBlockDevice"
definition AddCharDevice :: "Writer \<Rightarrow> bytes \<Rightarrow> wresult" where "AddCharDevice = add_named TypeCharDevice"
definition AddFifo :: "Writer \<Rightarrow> bytes \<Rightarrow> wresult" where "AddFifo = add_named TypeFifo"
definition AddSocket :: "Writer \<Rightarrow> bytes \<Rightarrow> wresult" where "AddSocket = add_named TypeSocket"

lemmas add_kind_defs = AddSymlink_def AddHardlink_def AddBlockDevice_def AddCharDevice_def
  AddFifo_def AddSocket_def

fun Finish :: "Writer \<Rightarrow> wresult" where
  "Finish c =
     (case cw_stack c of
        [root] \<Rightarrow>
          (let start = cw_pos c in
           case writeTable (c\<lparr> cw_stack := [] \<rparr>) root start of
             (c', Some e) \<Rightarrow> (c', Some e)
           | (c', None) \<Rightarrow> cw_write c' (put64 start))
      | st \<Rightarrow> (c, Some (ErrUnclosed (length st - 1))))"

subsection \<open>The decoder\<close>

datatype Entry = Entry
  (Name: bytes) (Type: byte) (Size: u64) (MtimeSecs: i64) (Children: "Entry list")

fun Child :: "Entry \<Rightarrow> bytes \<Rightarrow> Entry option" where
  "Child e name = find (\<lambda>c. Name c = name) (Children e)"

definition maxDepth :: nat where
  "maxDepth = 4096"

definition name_only :: "byte \<Rightarrow> bool" where
  "name_only t \<longleftrightarrow> t \<in> {TypeSymlink, TypeHardlink, TypeBlockDevice, TypeCharDevice, TypeFifo, TypeSocket}"

lemma child_before: "\<not> (delta = 0 \<or> pos < (delta :: u64)) \<Longrightarrow> unat (pos - delta) < unat pos"
  using unat_gt_0 [of delta] by (auto simp: unat_sub word_le_nat_alt not_less)

function (sequential) decodeTable :: "bytes \<Rightarrow> u64 \<Rightarrow> nat \<Rightarrow> catalog_error + Entry list"
  and decodeEntries :: "bytes \<Rightarrow> u64 \<Rightarrow> nat \<Rightarrow> nat \<Rightarrow> bytes \<Rightarrow> catalog_error + Entry list" where
  "decodeTable data pos depth =
     (if maxDepth < depth then Inl ErrNesting
      else if length data \<le> unat pos then Inl (ErrTablePosition pos)
      else case decodeU64 (drop (unat pos) data) of
        Inl e \<Rightarrow> Inl e
      | Inr (tableLen, n) \<Rightarrow>
          (let table = drop (unat pos + n) data in
           if length table < unat tableLen then Inl (ErrTableOverrun pos)
           else
             (let table = take (unat tableLen) table in
              case decodeU64 table of
                Inl e \<Rightarrow> Inl e
              | Inr (cnt, n) \<Rightarrow> decodeEntries data pos depth (unat cnt) (drop n table))))"
| "decodeEntries data pos depth 0 table = Inr []"
| "decodeEntries data pos depth (Suc k) [] = Inl (ErrTruncatedEntry pos)"
| "decodeEntries data pos depth (Suc k) (t # table) =
     (case decodeU64 table of
        Inl e \<Rightarrow> Inl e
      | Inr (nameLen, n) \<Rightarrow>
          (let table = drop n table in
           if length table < unat nameLen then Inl (ErrNameOverrun pos)
           else
             (let name = take (unat nameLen) table; table = drop (unat nameLen) table in
              if t = TypeDirectory then
                (case decodeU64 table of
                   Inl e \<Rightarrow> Inl e
                 | Inr (delta, n) \<Rightarrow>
                     (if delta = 0 \<or> pos < delta then Inl (ErrDelta name delta)
                      else case decodeTable data (pos - delta) (depth + 1) of
                        Inl e \<Rightarrow> Inl e
                      | Inr ch \<Rightarrow>
                          (case decodeEntries data pos depth k (drop n table) of
                             Inl e \<Rightarrow> Inl e
                           | Inr es \<Rightarrow> Inr (Entry name t 0 0 ch # es))))
              else if t = TypeFile then
                (case decodeU64 table of
                   Inl e \<Rightarrow> Inl e
                 | Inr (sz, n) \<Rightarrow>
                     (case decodeI64 (drop n table) of
                        Inl e \<Rightarrow> Inl e
                      | Inr (mtime, m) \<Rightarrow>
                          (case decodeEntries data pos depth k (drop m (drop n table)) of
                             Inl e \<Rightarrow> Inl e
                           | Inr es \<Rightarrow> Inr (Entry name t sz mtime [] # es))))
              else if name_only t then
                (case decodeEntries data pos depth k table of
                   Inl e \<Rightarrow> Inl e
                 | Inr es \<Rightarrow> Inr (Entry name t 0 0 [] # es))
              else Inl (ErrUnknownType t pos))))"
  by pat_completeness auto
termination
proof (relation "measures [\<lambda>x. case x of Inl (d, p, n) \<Rightarrow> unat p | Inr (d, p, n, k, t) \<Rightarrow> unat p,
    \<lambda>x. case x of Inl _ \<Rightarrow> 1 | Inr _ \<Rightarrow> 0,
    \<lambda>x. case x of Inl _ \<Rightarrow> 0 | Inr (d, p, n, k, t) \<Rightarrow> k]", goal_cases)
  case 3
  then show ?case by (simp add: child_before)
qed auto

declare decodeTable.simps [simp del]

definition Decode :: "bytes \<Rightarrow> catalog_error + Entry" where
  "Decode data =
     (if length data < length Magic + 8 \<or> take (length Magic) data \<noteq> Magic then Inl ErrBadMagic
      else
        (let rootPos = get64 (drop (length data - 8) data) in
         if rootPos < 8 \<or> length data - 8 \<le> unat rootPos then Inl (ErrRootPointer rootPos)
         else case decodeTable data rootPos 0 of
           Inl e \<Rightarrow> Inl e
         | Inr ch \<Rightarrow> Inr (Entry [] TypeDirectory 0 0 ch)))"

lemma decode_extend:
  "decodeTable data pos d = Inr es \<Longrightarrow> decodeTable (data @ x) pos d = Inr es"
  "decodeEntries data pos d k table = Inr es \<Longrightarrow> decodeEntries (data @ x) pos d k table = Inr es"
proof (induction data pos d and data pos d k table arbitrary: es and es
    rule: decodeTable_decodeEntries.induct)
  case (1 data pos depth)
  from "1.prems" obtain tl n where tl: "depth \<le> maxDepth" "unat pos < length data"
      "decodeU64 (drop (unat pos) data) = Inr (tl, n)"
      "unat tl \<le> length (drop (unat pos + n) data)"
    by (auto simp: decodeTable.simps [of data] Let_def split: if_splits sum.splits prod.splits)
  from "1.prems" tl obtain cnt m where cnt:
      "decodeU64 (take (unat tl) (drop (unat pos + n) data)) = Inr (cnt, m)"
      "decodeEntries data pos depth (unat cnt) (drop m (take (unat tl) (drop (unat pos + n) data))) = Inr es"
    by (auto simp: decodeTable.simps [of data] Let_def split: if_splits sum.splits prod.splits)
  have ent: "decodeEntries (data @ x) pos depth (unat cnt) (drop m (take (unat tl) (drop (unat pos + n) data))) = Inr es"
    by (rule "1.IH" [OF _ _ tl(3) refl refl _ refl cnt(1) refl cnt(2)]) (use tl in auto)
  have "n \<le> length (drop (unat pos) data)" "decodeU64 (drop (unat pos) data @ x) = Inr (tl, n)"
    using u64c.dec_local [OF tl(3)] by auto
  then show ?case using tl cnt ent
    by (simp add: decodeTable.simps [of "data @ x"] Let_def)
next
  case (4 data pos depth k t table)
  obtain nl n where nl: "decodeU64 table = Inr (nl, n)" "unat nl \<le> length (drop n table)"
    using "4.prems" by (cases "decodeU64 table") (auto simp: Let_def split: if_splits)
  have le: "\<not> length (drop n table) < unat nl" using nl(2) by simp
  let ?name = "take (unat nl) (drop n table)" and ?rest = "drop (unat nl) (drop n table)"
  note IH = "4.IH" [OF nl(1) refl refl le refl refl]
  note unf = decodeEntries.simps(3) [of _ pos depth k t table] nl(1) Let_def le
  consider (dir) "t = TypeDirectory" | (fil) "t \<noteq> TypeDirectory" "t = TypeFile"
    | (nam) "t \<noteq> TypeDirectory" "t \<noteq> TypeFile" by blast
  then show ?case
  proof cases
    case dir
    from "4.prems" dir obtain delta m ch es' where d: "decodeU64 ?rest = Inr (delta, m)"
        "\<not> (delta = 0 \<or> pos < delta)" "decodeTable data (pos - delta) (depth + 1) = Inr ch"
        "decodeEntries data pos depth k (drop m ?rest) = Inr es'" "es = Entry ?name t 0 0 ch # es'"
      unfolding unf by (auto split: sum.splits prod.splits if_splits)
    show ?thesis unfolding unf
      using nl(2) dir d(1,2,5) IH(1) [OF dir d(1) refl d(2,3)] IH(2) [OF dir d(1) refl d(2,3,4)] by simp
  next
    case fil
    from "4.prems" fil obtain sz m mt m' es' where d: "decodeU64 ?rest = Inr (sz, m)"
        "decodeI64 (drop m ?rest) = Inr (mt, m')"
        "decodeEntries data pos depth k (drop m' (drop m ?rest)) = Inr es'"
        "es = Entry ?name t sz mt [] # es'"
      unfolding unf by (auto split: sum.splits prod.splits if_splits)
    show ?thesis unfolding unf
      using nl(2) fil d(1,2,4) IH(3) [OF fil d(1) refl d(2) refl d(3)] by simp
  next
    case nam
    from "4.prems" nam obtain es' where d: "name_only t"
        "decodeEntries data pos depth k ?rest = Inr es'" "es = Entry ?name t 0 0 [] # es'"
      unfolding unf by (auto split: sum.splits if_splits)
    show ?thesis unfolding unf using nl(2) nam d(1,3) IH(4) [OF nam d(1,2)] by simp
  qed
qed auto


subsection \<open>The writer builds the tree the decoder reads\<close>

text \<open>
  \<open>entry_view out k e E\<close>: the pending entry \<open>e\<close> stands for the decoded entry \<open>E\<close>; for a
  directory, the table it points to is already in the output and decodes, at nesting \<open>k\<close>, to the
  children of \<open>E\<close>.
\<close>

definition entry_view :: "bytes \<Rightarrow> nat \<Rightarrow> entry \<Rightarrow> Entry \<Rightarrow> bool" where
  "entry_view out k e E \<longleftrightarrow>
     Name E = en_name e \<and> Type E = en_typ e \<and>
     (if en_typ e = TypeDirectory then
        Size E = 0 \<and> MtimeSecs E = 0 \<and> unat (en_start e) < length out \<and>
        decodeTable out (en_start e) k = Inr (Children E)
      else Children E = [] \<and>
        (if en_typ e = TypeFile then Size E = en_size e \<and> MtimeSecs E = en_mtime e
         else name_only (en_typ e) \<and> Size E = 0 \<and> MtimeSecs E = 0))"

lemma entry_view_extend: "entry_view out k e E \<Longrightarrow> entry_view (out @ x) k e E"
  by (auto simp: entry_view_def decode_extend)

lemma Entry_eqI:
  "Name E = n \<Longrightarrow> Type E = t \<Longrightarrow> Size E = s \<Longrightarrow> MtimeSecs E = m \<Longrightarrow> Children E = c
    \<Longrightarrow> E = Entry n t s m c"
  by (cases E) simp

lemma decodeEntries_entry:
  assumes "entry_view out (k + 1) e E" and pos: "length out \<le> unat pos"
    and name: "length (en_name e) < 2 ^ 64"
    and rest: "decodeEntries (out @ x) pos k n bs = Inr Es"
  shows "decodeEntries (out @ x) pos k (Suc n) (entry_bytes pos e @ bs) = Inr (E # Es)"
proof -
  note v = assms(1) [unfolded entry_view_def]
  show ?thesis
  proof (cases "en_typ e = TypeDirectory")
    case True
    with v have st: "unat (en_start e) < unat pos"
      and ch: "decodeTable (out @ x) (en_start e) (k + 1) = Inr (Children E)"
      using pos by (auto simp: decode_extend)
    have "pos - en_start e \<noteq> 0" using st by auto
    moreover have "\<not> pos < pos - en_start e"
      using st by (simp add: word_less_nat_alt unat_sub word_le_nat_alt)
    moreover have "E = Entry (en_name e) TypeDirectory 0 0 (Children E)"
      using v True by (auto intro!: Entry_eqI)
    ultimately show ?thesis using True ch rest
      by (simp add: entry_bytes_def u64c.dec_enc u64_len [OF name] Let_def)
  next
    case False
    then show ?thesis using v rest
      by (auto simp: entry_bytes_def u64c.dec_enc i64c.dec_enc u64_len [OF name] Let_def
          intro!: Entry_eqI [symmetric])
  qed
qed

lemma decodeEntries_entries:
  assumes "list_all2 (entry_view out (k + 1)) es Es" "length out \<le> unat pos"
    and "length (concat (map (entry_bytes pos) es)) < 2 ^ 64"
  shows "decodeEntries (out @ x) pos k (length es) (concat (map (entry_bytes pos) es)) = Inr Es"
  using assms
proof (induction es Es rule: list_all2_induct)
  case (Cons e es E Es)
  then have "length (en_name e) < 2 ^ 64" by (simp add: entry_bytes_def)
  with Cons show ?case using decodeEntries_entry [of out k e E pos x "length es"] by simp
qed simp

lemma decodeTable_table:
  assumes es: "list_all2 (entry_view out (k + 1)) es Es" and k: "k \<le> maxDepth"
    and len: "length (out @ table_bytes es (len64 out)) < 2 ^ 64"
  shows "decodeTable (out @ table_bytes es (len64 out) @ x) (len64 out) k = Inr Es"
proof -
  define pos where "pos = (len64 out)"
  define ents where "ents = concat (map (entry_bytes pos) es)"
  define tb where "tb = appendU64 [] (len64 es) @ ents"
  have tbs: "table_bytes es pos = appendU64 [] (len64 tb) @ tb"
    by (simp only: table_bytes_def tb_def ents_def Let_def)
  from len have pos: "unat pos = length out" and tl: "unat (len64 tb) = length tb"
    by (simp_all add: u64_len pos_def [symmetric] tbs) (simp_all add: pos_def u64_len)
  have "1 \<le> length (entry_bytes pos e)" for e by (simp add: entry_bytes_def)
  then have "length es \<le> length ents" unfolding ents_def
    by (induction es) (auto simp: add_le_mono intro: le_trans)
  moreover have ents: "length ents < 2 ^ 64" using len by (simp flip: pos_def) (simp add: tbs tb_def)
  ultimately have es_len: "unat (len64 es) = length es" by (intro u64_len) simp
  have "decodeEntries (out @ table_bytes es pos @ x) pos k (length es) ents = Inr Es"
    unfolding ents_def
    by (rule decodeEntries_entries [OF es]) (use pos ents in \<open>simp_all add: ents_def\<close>)
  then have "decodeTable (out @ (appendU64 [] (len64 tb) @ tb) @ x) pos k = Inr Es"
    using k u64c.enc_nonempty
    by (simp add: decodeTable.simps pos Let_def u64c.dec_enc tl tbs)
      (simp add: tb_def u64c.dec_enc es_len)
  then show ?thesis by (simp add: pos_def [symmetric] tbs)
qed


text \<open>
  The abstract builder: a stack of directories under construction, each with the finished
  entries it has so far, innermost first.  It is what the calls mean, without positions,
  tables or bytes.
\<close>

datatype cat_op =
    OpStart bytes | OpEnd | OpFile bytes u64 i64 | OpSymlink bytes | OpHardlink bytes
  | OpBlock bytes | OpChar bytes | OpFifo bytes | OpSocket bytes

type_synonym bstack = "(bytes \<times> Entry list) list"

fun b_close :: "bstack \<Rightarrow> catalog_error + bstack" where
  "b_close ((n, es) # (n', es') # st) = Inr ((n', es' @ [Entry n TypeDirectory 0 0 es]) # st)"
| "b_close _ = Inl ErrEndWithoutStart"

fun b_add :: "bstack \<Rightarrow> Entry \<Rightarrow> catalog_error + bstack" where
  "b_add st E =
     (case checkName (Name E) of
        Some err \<Rightarrow> Inl err
      | None \<Rightarrow>
          (case st of
             (n, es) # p # st' \<Rightarrow> Inr ((n, es @ [E]) # p # st')
           | _ \<Rightarrow> Inl (ErrOutsideDirectory (Name E))))"

fun b_step :: "bstack \<Rightarrow> cat_op \<Rightarrow> catalog_error + bstack" where
  "b_step st (OpStart n) =
     (case checkName n of Some e \<Rightarrow> Inl e | None \<Rightarrow> Inr ((n, []) # st))"
| "b_step st OpEnd = b_close st"
| "b_step st (OpFile n sz mt) = b_add st (Entry n TypeFile sz mt [])"
| "b_step st (OpSymlink n) = b_add st (Entry n TypeSymlink 0 0 [])"
| "b_step st (OpHardlink n) = b_add st (Entry n TypeHardlink 0 0 [])"
| "b_step st (OpBlock n) = b_add st (Entry n TypeBlockDevice 0 0 [])"
| "b_step st (OpChar n) = b_add st (Entry n TypeCharDevice 0 0 [])"
| "b_step st (OpFifo n) = b_add st (Entry n TypeFifo 0 0 [])"
| "b_step st (OpSocket n) = b_add st (Entry n TypeSocket 0 0 [])"

definition b_next :: "bstack \<Rightarrow> cat_op \<Rightarrow> bstack" where
  "b_next st op = (case b_step st op of Inl _ \<Rightarrow> st | Inr st' \<Rightarrow> st')"

text \<open>The writer's calls, one operation each; a client that goes on after an error.\<close>

fun w_step :: "Writer \<Rightarrow> cat_op \<Rightarrow> wresult" where
  "w_step c (OpStart n) = StartDirectory c n"
| "w_step c OpEnd = EndDirectory c"
| "w_step c (OpFile n sz mt) = AddFile c n sz mt"
| "w_step c (OpSymlink n) = AddSymlink c n"
| "w_step c (OpHardlink n) = AddHardlink c n"
| "w_step c (OpBlock n) = AddBlockDevice c n"
| "w_step c (OpChar n) = AddCharDevice c n"
| "w_step c (OpFifo n) = AddFifo c n"
| "w_step c (OpSocket n) = AddSocket c n"

definition w_run :: "Writer \<Rightarrow> cat_op list \<Rightarrow> Writer" where
  "w_run c ops = foldl (\<lambda>c op. fst (w_step c op)) c ops"

definition b_run :: "bstack \<Rightarrow> cat_op list \<Rightarrow> bstack" where
  "b_run st ops = foldl b_next st ops"

fun within_depth :: "bstack \<Rightarrow> cat_op list \<Rightarrow> bool" where
  "within_depth st [] \<longleftrightarrow> length st \<le> maxDepth + 1"
| "within_depth st (op # ops) \<longleftrightarrow> length st \<le> maxDepth + 1 \<and> within_depth (b_next st op) ops"

fun stack_view :: "bytes \<Rightarrow> dirInfo list \<Rightarrow> bstack \<Rightarrow> bool" where
  "stack_view out [] [] \<longleftrightarrow> True"
| "stack_view out (d # ds) ((n, Es) # st) \<longleftrightarrow>
     di_name d = n \<and> list_all2 (entry_view out (length ds + 1)) (di_entries d) Es \<and>
     stack_view out ds st"
| "stack_view out _ _ \<longleftrightarrow> False"

definition writer_ok :: "Writer \<Rightarrow> bstack \<Rightarrow> bool" where
  "writer_ok c st \<longleftrightarrow>
     cw_room c = None \<and> cw_pos c = len64 (cw_out c) \<and> has_prefix (cw_out c) Magic \<and>
     stack_view (cw_out c) (cw_stack c) st"

lemma stack_view_Nil_iff: "stack_view out [] st \<longleftrightarrow> st = []"
  by (cases st) auto

lemma stack_view_Cons_iff: "stack_view out (d # ds) st \<longleftrightarrow>
    (\<exists>Es st'. st = (di_name d, Es) # st' \<and>
       list_all2 (entry_view out (length ds + 1)) (di_entries d) Es \<and> stack_view out ds st')"
  by (cases st) auto

lemmas stack_view_iffs = stack_view_Nil_iff stack_view_Cons_iff

lemma stack_view_length: "stack_view out ds st \<Longrightarrow> length ds = length st"
  by (induction out ds st rule: stack_view.induct) auto

lemma stack_view_extend: "stack_view out ds st \<Longrightarrow> stack_view (out @ x) ds st"
  by (induction out ds st rule: stack_view.induct)
    (auto simp: entry_view_extend elim!: list.rel_mono_strong)

lemma cw_write_ok: "cw_room c = None \<Longrightarrow>
    cw_write c p = (c\<lparr> cw_out := cw_out c @ p, cw_pos := cw_pos c + len64 p \<rparr>, None)"
  by (cases c) (simp add: cw_write_def sink_take_def Let_def)

lemma add_sim:
  assumes "writer_ok c st" "Name E = en_name e" "\<And>out k. entry_view out k e E"
  shows "snd (add c e) = (case b_add st E of Inl err \<Rightarrow> Some err | Inr _ \<Rightarrow> None) \<and>
         writer_ok (fst (add c e)) (case b_add st E of Inl _ \<Rightarrow> st | Inr st' \<Rightarrow> st')"
  using assms
  by (auto simp: writer_ok_def add_def stack_view_iffs split: option.splits list.splits
      intro!: list_all2_appendI)

lemma end_sim:
  assumes ok: "writer_ok c st" and len: "length (cw_out (fst (EndDirectory c))) < 2 ^ 64"
    and depth: "length st \<le> maxDepth + 1"
  shows "snd (EndDirectory c) = (case b_close st of Inl err \<Rightarrow> Some err | Inr _ \<Rightarrow> None) \<and>
         writer_ok (fst (EndDirectory c)) (case b_close st of Inl _ \<Rightarrow> st | Inr st' \<Rightarrow> st')"
proof (cases "\<exists>dir parent rest. cw_stack c = dir # parent # rest")
  case True
  then obtain dir parent rest where stk: "cw_stack c = dir # parent # rest" by blast
  with ok obtain n Es n' Es' st' where st: "st = (n, Es) # (n', Es') # st'"
    and v: "di_name dir = n" "list_all2 (entry_view (cw_out c) (Suc (length rest) + 1)) (di_entries dir) Es"
      "di_name parent = n'" "list_all2 (entry_view (cw_out c) (length rest + 1)) (di_entries parent) Es'"
      "stack_view (cw_out c) rest st'"
    by (auto simp: writer_ok_def stack_view_Cons_iff)
  let ?tb = "table_bytes (di_entries dir) (len64 (cw_out c))"
  have len': "length (cw_out c @ ?tb) < 2 ^ 64"
    using len stk ok by (simp add: writer_ok_def writeTable_def cw_write_ok Let_def)
  have d: "Suc (length rest) \<le> maxDepth"
    using depth stack_view_length [OF v(5)] st by simp
  have "decodeTable (cw_out c @ ?tb) (len64 (cw_out c)) (length rest + 1) = Inr Es"
    using decodeTable_table [OF v(2) d len', of "[]"] by simp
  moreover have "?tb \<noteq> []" by (simp add: table_bytes_def Let_def u64c.enc_nonempty)
  ultimately have "entry_view (cw_out c @ ?tb) (length rest + 1)
      \<lparr> en_typ = TypeDirectory, en_name = n, en_size = 0, en_mtime = 0, en_start = len64 (cw_out c) \<rparr>
      (Entry n TypeDirectory 0 0 Es)"
    using len' by (simp add: entry_view_def u64_len)
  moreover have "list_all2 (entry_view (cw_out c @ ?tb) (length rest + 1)) (di_entries parent) Es'"
    using v(4) by (auto simp: entry_view_extend elim!: list.rel_mono_strong)
  ultimately show ?thesis using ok stk st v
    by (auto simp: writer_ok_def writeTable_def cw_write_ok stack_view_extend has_prefix_append Let_def
        intro!: list_all2_appendI)
next
  case False
  then have "length (cw_stack c) < 2" by (cases "cw_stack c"; cases "tl (cw_stack c)") auto
  moreover from this ok have "length st < 2" using stack_view_length by (auto simp: writer_ok_def)
  ultimately show ?thesis using ok
    by (cases "cw_stack c"; cases st) (auto simp: length_Suc_conv less_Suc_eq)
qed

lemma step_sim:
  assumes "writer_ok c st" "length (cw_out (fst (w_step c op))) < 2 ^ 64"
    and "length st \<le> maxDepth + 1"
  shows "snd (w_step c op) = (case b_step st op of Inl err \<Rightarrow> Some err | Inr _ \<Rightarrow> None) \<and>
         writer_ok (fst (w_step c op)) (b_next st op)"
proof (cases op)
  case (OpStart n)
  with assms(1) show ?thesis
    by (auto simp: StartDirectory_def writer_ok_def b_next_def split: option.splits)
next
  case OpEnd
  with assms show ?thesis using end_sim by (simp add: b_next_def)
qed (use assms(1) in \<open>auto simp: b_next_def AddFile_def add_kind_defs add_named_def entry_view_def
        name_only_def type_defs simp del: b_add.simps intro!: add_sim [THEN conjunct1] add_sim [THEN conjunct2]\<close>)


lemma cw_write_grows: "\<exists>x. cw_out (fst (cw_write c p)) = cw_out c @ x"
  by (auto simp: cw_write_def Let_def)

lemma add_grows: "cw_out (fst (add c e)) = cw_out c"
  by (simp add: add_def split: option.splits list.splits)

lemma w_step_grows: "\<exists>x. cw_out (fst (w_step c op)) = cw_out c @ x"
proof (cases op)
  case OpEnd
  then show ?thesis
    using cw_write_grows [of "c\<lparr>cw_stack := tl (cw_stack c)\<rparr>"]
    by (auto simp: Let_def writeTable_def split: list.splits prod.splits option.splits)
      (metis (no_types, lifting) fst_conv)+
qed (auto simp: StartDirectory_def AddFile_def add_kind_defs add_named_def add_grows split: option.splits)

lemma w_run_grows: "\<exists>x. cw_out (w_run c ops) = cw_out c @ x"
proof (induction ops arbitrary: c)
  case (Cons op ops)
  show ?case using Cons [of "fst (w_step c op)"] w_step_grows [of c op]
    by (auto simp: w_run_def)
qed (simp add: w_run_def)

lemma run_sim:
  assumes "writer_ok c st" "length (cw_out (w_run c ops)) < 2 ^ 64" "within_depth st ops"
  shows "writer_ok (w_run c ops) (b_run st ops)"
  using assms
proof (induction ops arbitrary: c st)
  case (Cons op ops)
  let ?c = "fst (w_step c op)"
  have "length (cw_out ?c) < 2 ^ 64"
    using w_run_grows [of ?c ops] Cons.prems(2) by (auto simp: w_run_def)
  then have "writer_ok ?c (b_next st op)" using step_sim Cons.prems by simp
  then show ?case using Cons.IH [of ?c "b_next st op"] Cons.prems by (simp add: w_run_def b_run_def)
qed (simp add: w_run_def b_run_def)

lemma finish_sim:
  assumes ok: "writer_ok c [(n, Es)]" and len: "length (cw_out (fst (Finish c))) < 2 ^ 64"
  shows "snd (Finish c) = None \<and>
         Decode (cw_out (fst (Finish c))) = Inr (Entry [] TypeDirectory 0 0 Es)"
proof -
  have "length (cw_stack c) = length [(n, Es)]"
    by (rule stack_view_length [of "cw_out c"]) (use ok in \<open>simp add: writer_ok_def\<close>)
  then obtain root where stk: "cw_stack c = [root]" by (auto simp: length_Suc_conv)
  with ok have v: "list_all2 (entry_view (cw_out c) (0 + 1)) (di_entries root) Es"
    by (auto simp: writer_ok_def stack_view_Cons_iff)
  let ?pos = "len64 (cw_out c)"
  let ?tb = "table_bytes (di_entries root) ?pos"
  have fin: "cw_out (fst (Finish c)) = cw_out c @ ?tb @ put64 ?pos" "snd (Finish c) = None"
    using ok stk by (simp_all add: writer_ok_def writeTable_def cw_write_ok Let_def)
  have len': "length (cw_out c @ ?tb) < 2 ^ 64" using len fin by simp
  then have pos: "unat ?pos = length (cw_out c)" by (simp add: u64_len)
  have "decodeTable (cw_out c @ ?tb @ put64 ?pos) ?pos 0 = Inr Es"
    by (rule decodeTable_table [OF v _ len']) simp
  moreover have "?tb \<noteq> []" by (simp add: table_bytes_def Let_def u64c.enc_nonempty)
  moreover obtain r where "cw_out c = Magic @ r" using ok by (auto simp: writer_ok_def has_prefix_iff)
  moreover have "length Magic = 8" by (simp add: Magic_def)
  moreover have "\<not> ?pos < 8"
    using calculation(3,4) pos by (simp add: word_less_nat_alt)
  ultimately show ?thesis using pos unfolding fin Decode_def
    by (simp add: Let_def)
qed

lemma Finish_grows: "\<exists>x. cw_out (fst (Finish c)) = cw_out c @ x"
proof -
  have "\<exists>x. cw_out c' = cw_out (c\<lparr>cw_stack := []\<rparr>) @ x" if "cw_write (c\<lparr>cw_stack := []\<rparr>) p = (c', e)" for p c' e
    using cw_write_grows [of "c\<lparr>cw_stack := []\<rparr>" p] that by simp
  then show ?thesis
    using cw_write_grows
    by (auto simp: Let_def writeTable_def split: list.splits prod.splits option.splits)
      (metis append.assoc fst_conv)+
qed

lemma NewWriter_ok: "NewWriter None = Inr c \<Longrightarrow> writer_ok c [([], [])]"
  by (auto simp: NewWriter_def sink_take_def writer_ok_def Magic_def has_prefix_def Let_def)


text \<open>
  C22: the varint coders round trip every 64-bit value, signed and unsigned, whatever follows
  the encoding, and consume exactly what was written.
\<close>

theorem varint_roundtrip:
  "decodeU64 (appendU64 [] v @ r) = Inr (v, length (appendU64 [] v)) \<and>
   decodeI64 (appendI64 [] w @ r) = Inr (w, length (appendI64 [] w))"
  by (simp add: u64c.dec_enc i64c.dec_enc)

text \<open>
  C10: a catalog written by any sequence of calls, failed ones included, that leaves only the
  root open, and then finished, decodes to the tree the calls describe.
\<close>

theorem catalog_roundtrip:
  assumes "NewWriter None = Inr c" "within_depth [([], [])] ops"
    and "b_run [([], [])] ops = [(n, Es)]"
    and "length (cw_out (fst (Finish (w_run c ops)))) < 2 ^ 64"
  shows "snd (Finish (w_run c ops)) = None \<and>
         Decode (cw_out (fst (Finish (w_run c ops)))) = Inr (Entry [] TypeDirectory 0 0 Es)"
proof -
  obtain x where "cw_out (fst (Finish (w_run c ops))) = cw_out (w_run c ops) @ x"
    using Finish_grows by blast
  with assms(4) have "length (cw_out (w_run c ops)) < 2 ^ 64" by simp
  from run_sim [OF NewWriter_ok [OF assms(1)] this assms(2)] assms(3,4)
  show ?thesis using finish_sim by simp
qed

lemma catalog_roundtrip_witness:
  "\<exists>c. NewWriter None = Inr c \<and>
     (let ops = [OpStart [97], OpStart [98], OpEnd, OpFile [99] 300 (- 5), OpFile [] 0 0, OpEnd] in
      Decode (cw_out (fst (Finish (w_run c ops)))) =
        Inr (Entry [] TypeDirectory 0 0
          [Entry [97] TypeDirectory 0 0
            [Entry [98] TypeDirectory 0 0 [], Entry [99] TypeFile 300 (- 5) []]]))"
proof -
  define ops where "ops = [OpStart [97], OpStart [98], OpEnd, OpFile [99] 300 (- 5), OpFile [] 0 0, OpEnd]"
  define c where "c = \<lparr> cw_out = Magic, cw_room = None, cw_pos = 8,
                 cw_stack = [\<lparr> di_name = [], di_entries = [] \<rparr>] \<rparr>"
  have c: "NewWriter None = Inr c"
    by (simp add: NewWriter_def sink_take_def Let_def c_def)
  have b: "within_depth [([], [])] ops"
    "b_run [([], [])] ops = [([], [Entry [97] TypeDirectory 0 0
            [Entry [98] TypeDirectory 0 0 [], Entry [99] TypeFile 300 (- 5) []]])]"
    by (simp_all add: ops_def maxDepth_def b_next_def checkName_def b_run_def)
  have l: "length (cw_out (fst (Finish (w_run c ops)))) < 2 ^ 64"
    by (simp add: ops_def c_def w_run_def StartDirectory_def checkName_def writeTable_def cw_write_def
        sink_take_def AddFile_def add_def table_bytes_def entry_bytes_def appendU64_small
        appendI64_def appendU64_large appendNeg_small Magic_def Let_def type_defs)
  show ?thesis using catalog_roundtrip [OF c b l] c by (auto simp: ops_def)
qed

end
