(* ===== verification/Archive_Catalog.thy ===== *)
theory Archive_Catalog
  imports Catalog Scan_Node
begin

text \<open>
  The catalog of an archive, \<^verbatim>\<open>src/archive/catalog.go\<close>: the node tree as calls on the catalog writer
  below one top-level entry that carries the name of the archive's index.  The theorem composes the
  walk with the writer and the decoder of \<^verbatim>\<open>src/catalog\<close>: what a client decodes is the tree.
\<close>

datatype cat_error = CatWriter catalog_error | CatKind Kind bytes

definition CatalogEntryName :: "bytes \<Rightarrow> bytes" where
  "CatalogEntryName name =
     (if name = [] then str ''backup.pxar.didx''
      else if has_suffix name (str ''.didx'') then name
      else if has_suffix name (str ''.pxar'') then name @ str ''.didx''
      else name @ str ''.pxar.didx'')"

text \<open>A call on the writer, its error wrapped.\<close>

definition cat_call :: "wresult \<Rightarrow> Writer \<times> cat_error option" where
  "cat_call r = (fst r, map_option CatWriter (snd r))"

lemma size_list_kids: "Suc (2 * size_list size (nd_Children n)) < 2 * size n"
  by (cases n) simp

function (sequential) catalogNode :: "Writer \<Rightarrow> Node \<Rightarrow> Writer \<times> cat_error option"
  and catalogChildren :: "Writer \<Rightarrow> Node list \<Rightarrow> Writer \<times> cat_error option" where
  "catalogNode c n =
     (case nd_Kind n of
        KindDirectory \<Rightarrow>
          (case cat_call (StartDirectory c (nd_Name n)) of
             (c, Some e) \<Rightarrow> (c, Some e)
           | (c, None) \<Rightarrow>
               (case catalogChildren c (nd_Children n) of
                  (c, Some e) \<Rightarrow> (c, Some e)
                | (c, None) \<Rightarrow> cat_call (EndDirectory c)))
      | KindFile \<Rightarrow> cat_call (AddFile c (nd_Name n) (st_Size (nd_Stat n)) (st_MtimeSecs (nd_Stat n)))
      | KindStream \<Rightarrow> cat_call (AddFile c (nd_Name n) (st_Size (nd_Stat n)) (st_MtimeSecs (nd_Stat n)))
      | KindSymlink \<Rightarrow> cat_call (AddSymlink c (nd_Name n))
      | KindHardlink \<Rightarrow> cat_call (AddHardlink c (nd_Name n))
      | KindBlockDevice \<Rightarrow> cat_call (AddBlockDevice c (nd_Name n))
      | KindCharDevice \<Rightarrow> cat_call (AddCharDevice c (nd_Name n))
      | KindFifo \<Rightarrow> cat_call (AddFifo c (nd_Name n))
      | KindSocket \<Rightarrow> cat_call (AddSocket c (nd_Name n))
      | k \<Rightarrow> (c, Some (CatKind k (nd_Name n))))"
| "catalogChildren c [] = (c, None)"
| "catalogChildren c (n # ns) =
     (case catalogNode c n of
        (c, Some e) \<Rightarrow> (c, Some e)
      | (c, None) \<Rightarrow> catalogChildren c ns)"
  by pat_completeness auto
termination
  by (relation "measure (\<lambda>x. case x of Inl (c, n) \<Rightarrow> 2 * size n | Inr (c, ns) \<Rightarrow> Suc (2 * size_list size ns))")
    (auto simp: size_list_kids)

declare catalogNode.simps [simp del]

definition writeCatalog :: "nat option \<Rightarrow> Node \<Rightarrow> bytes \<Rightarrow> cat_error + (Writer \<times> cat_error option)" where
  "writeCatalog room root entryName =
     (case NewWriter room of
        Inl e \<Rightarrow> Inl (CatWriter e)
      | Inr c \<Rightarrow> Inr
          (case cat_call (StartDirectory c entryName) of
             (c, Some e) \<Rightarrow> (c, Some e)
           | (c, None) \<Rightarrow>
               (case catalogChildren c (nd_Children root) of
                  (c, Some e) \<Rightarrow> (c, Some e)
                | (c, None) \<Rightarrow>
                    (case cat_call (EndDirectory c) of
                       (c, Some e) \<Rightarrow> (c, Some e)
                     | (c, None) \<Rightarrow> cat_call (Finish c)))))"

subsection \<open>What the catalog should hold\<close>

fun cat_entry :: "Node \<Rightarrow> Entry" where
  "cat_entry n =
     (case nd_Kind n of
        KindDirectory \<Rightarrow> Entry (nd_Name n) TypeDirectory 0 0 (map cat_entry (nd_Children n))
      | KindSymlink \<Rightarrow> Entry (nd_Name n) TypeSymlink 0 0 []
      | KindHardlink \<Rightarrow> Entry (nd_Name n) TypeHardlink 0 0 []
      | KindBlockDevice \<Rightarrow> Entry (nd_Name n) TypeBlockDevice 0 0 []
      | KindCharDevice \<Rightarrow> Entry (nd_Name n) TypeCharDevice 0 0 []
      | KindFifo \<Rightarrow> Entry (nd_Name n) TypeFifo 0 0 []
      | KindSocket \<Rightarrow> Entry (nd_Name n) TypeSocket 0 0 []
      | _ \<Rightarrow> Entry (nd_Name n) TypeFile (st_Size (nd_Stat n)) (st_MtimeSecs (nd_Stat n)) [])"

fun cat_ok :: "Node \<Rightarrow> bool" where
  "cat_ok n \<longleftrightarrow> checkName (nd_Name n) = None \<and> (\<forall>k. nd_Kind n \<noteq> KindOther k) \<and>
     (nd_Kind n = KindDirectory \<longrightarrow> (\<forall>c \<in> set (nd_Children n). cat_ok c))"

fun cat_depth :: "Node \<Rightarrow> nat" where
  "cat_depth n = (if nd_Kind n = KindDirectory then 1 + Max (insert 0 (cat_depth ` set (nd_Children n))) else 0)"

declare cat_entry.simps [simp del] cat_ok.simps [simp del] cat_depth.simps [simp del]

lemma cat_depth_child:
  "nd_Kind n = KindDirectory \<Longrightarrow> c \<in> set (nd_Children n) \<Longrightarrow> cat_depth c < cat_depth n"
  by (simp add: cat_depth.simps [of n] less_Suc_eq_le)

subsection \<open>The walk as a sequence of writer calls\<close>

fun leaf_op :: "Node \<Rightarrow> cat_op" where
  "leaf_op n =
     (case nd_Kind n of
        KindSymlink \<Rightarrow> OpSymlink (nd_Name n)
      | KindHardlink \<Rightarrow> OpHardlink (nd_Name n)
      | KindBlockDevice \<Rightarrow> OpBlock (nd_Name n)
      | KindCharDevice \<Rightarrow> OpChar (nd_Name n)
      | KindFifo \<Rightarrow> OpFifo (nd_Name n)
      | KindSocket \<Rightarrow> OpSocket (nd_Name n)
      | _ \<Rightarrow> OpFile (nd_Name n) (st_Size (nd_Stat n)) (st_MtimeSecs (nd_Stat n)))"

lemma catalogNode_leaf:
  "nd_Kind n \<noteq> KindDirectory \<Longrightarrow> (\<forall>k. nd_Kind n \<noteq> KindOther k) \<Longrightarrow> catalogNode c n = cat_call (w_step c (leaf_op n))"
  by (cases "nd_Kind n") (simp_all add: catalogNode.simps)

lemma b_step_leaf:
  assumes "nd_Kind n \<noteq> KindDirectory" "\<forall>k. nd_Kind n \<noteq> KindOther k"
  shows "b_step ((d, Es) # p # st) (leaf_op n) =
    (case checkName (nd_Name n) of Some e \<Rightarrow> Inl e | None \<Rightarrow> Inr ((d, Es @ [cat_entry n]) # p # st))"
  using assms by (cases "nd_Kind n") (simp_all add: cat_entry.simps [of n] split: option.split)

text \<open>
  One node adds its entry to the innermost open directory.  The output never shrinks, so a bound on
  the final output bounds every intermediate one.
\<close>

definition grows :: "Writer \<Rightarrow> Writer \<Rightarrow> bool" where
  "grows c c' \<longleftrightarrow> (\<exists>x. cw_out c' = cw_out c @ x)"

lemma grows_refl: "grows c c" and grows_trans: "grows a b \<Longrightarrow> grows b c \<Longrightarrow> grows a c"
  by (auto simp: grows_def)

lemma grows_length: "grows c c' \<Longrightarrow> length (cw_out c') < k \<Longrightarrow> length (cw_out c) < k"
  by (auto simp: grows_def)

lemma cat_call_grows: "cat_call (w_step c op) = (c', e) \<Longrightarrow> grows c c'"
  using w_step_grows [of c op] by (auto simp: cat_call_def grows_def)

lemmas cat_call_grows' = cat_call_grows [of _ "OpStart _", unfolded w_step.simps]
  cat_call_grows [of _ OpEnd, unfolded w_step.simps]

lemma catalog_grows:
  "catalogNode c n = (c', e) \<Longrightarrow> grows c c'"
  "catalogChildren c ns = (c', e) \<Longrightarrow> grows c c'"
proof (induction c n and c ns arbitrary: c' e and c' e rule: catalogNode_catalogChildren.induct)
  case (1 c n)
  show ?case
  proof (cases "nd_Kind n = KindDirectory")
    case True
    obtain c1 e1 where s: "cat_call (StartDirectory c (nd_Name n)) = (c1, e1)" by fastforce
    obtain c2 e2 where k: "catalogChildren c1 (nd_Children n) = (c2, e2)" by fastforce
    have g: "grows c c1" using cat_call_grows'(1) s by blast
    show ?thesis
    proof (cases e1)
      case None
      have g2: "grows c1 c2" using "1.IH" [OF True s [symmetric]] None k by blast
      show ?thesis using "1.prems" True s k None g g2 grows_trans [OF grows_trans [OF g g2] cat_call_grows'(2)]
        by (auto simp: catalogNode.simps [of c n] intro: grows_trans split: option.splits simp del: EndDirectory.simps)
    qed (use "1.prems" True s g in \<open>auto simp: catalogNode.simps [of c n]\<close>)
  next
    case False
    then show ?thesis using "1.prems" cat_call_grows [of c "leaf_op n"] catalogNode_leaf [OF False, of c]
      by (cases "nd_Kind n") (auto simp: catalogNode.simps [of c n] grows_refl)
  qed
next
  case (3 c n ns)
  then show ?case by (auto split: prod.splits option.splits intro: grows_trans)
qed (simp add: grows_refl)

lemma call_sim:
  assumes "writer_ok c st" "cat_call (w_step c op) = (c', e)" "length (cw_out c') < 2 ^ 64"
    "length st \<le> maxDepth + 1"
  shows "e = (case b_step st op of Inl err \<Rightarrow> Some (CatWriter err) | Inr _ \<Rightarrow> None) \<and> writer_ok c' (b_next st op)"
  using step_sim [OF assms(1) _ assms(4), of op] assms(2,3) by (auto simp: cat_call_def split: sum.splits)

lemma catalog_sim:
  "catalogNode c n = (c', e) \<Longrightarrow> writer_ok c ((d, Es) # p # st) \<Longrightarrow> cat_ok n \<Longrightarrow>
     length (cw_out c') < 2 ^ 64 \<Longrightarrow> length st + 2 + cat_depth n \<le> maxDepth + 1 \<Longrightarrow>
     e = None \<and> writer_ok c' ((d, Es @ [cat_entry n]) # p # st)"
  "catalogChildren c ns = (c', e) \<Longrightarrow> writer_ok c ((d, Es) # p # st) \<Longrightarrow> \<forall>n \<in> set ns. cat_ok n \<Longrightarrow>
     length (cw_out c') < 2 ^ 64 \<Longrightarrow> \<forall>n \<in> set ns. length st + 2 + cat_depth n \<le> maxDepth + 1 \<Longrightarrow>
     e = None \<and> writer_ok c' ((d, Es @ map cat_entry ns) # p # st)"
proof (induction c n and c ns arbitrary: c' e d Es p st and c' e d Es p st rule: catalogNode_catalogChildren.induct)
  case (1 c n)
  let ?st = "(d, Es) # p # st"
  have l: "length ?st \<le> maxDepth + 1" using "1.prems"(5) by simp
  show ?case
  proof (cases "nd_Kind n = KindDirectory")
    case True
    have ok: "checkName (nd_Name n) = None" "\<forall>c \<in> set (nd_Children n). cat_ok c"
      using "1.prems"(3) True by (auto simp: cat_ok.simps [of n])
    obtain c1 e1 where s: "cat_call (StartDirectory c (nd_Name n)) = (c1, e1)" by fastforce
    obtain c2 e2 where k: "catalogChildren c1 (nd_Children n) = (c2, e2)" by fastforce
    obtain c3 e3 where f: "cat_call (EndDirectory c2) = (c3, e3)" by fastforce
    have g: "grows c1 c2" "grows c2 c3" using catalog_grows(2) [OF k] cat_call_grows'(2) f by blast+
    have fin: "e1 = None \<Longrightarrow> e2 = None \<Longrightarrow> (c', e) = (c3, e3)" and n2: "e1 = None \<Longrightarrow> grows c2 c'"
      using "1.prems"(1) True s k f g
      by (auto simp: catalogNode.simps [of c n] grows_refl split: option.splits simp del: EndDirectory.simps)
    have n1: "grows c1 c'"
      using "1.prems"(1) True s grows_trans [OF g(1) n2] by (cases e1) (auto simp: catalogNode.simps [of c n] grows_refl)
    have a: "e1 = None \<and> writer_ok c1 ((nd_Name n, []) # ?st)"
      using call_sim [OF "1.prems"(2) _ _ l, of "OpStart (nd_Name n)" c1 e1] s ok(1) grows_length [OF n1 "1.prems"(4)]
      by (auto simp: b_next_def)
    have "\<forall>c \<in> set (nd_Children n). length (p # st) + 2 + cat_depth c \<le> maxDepth + 1"
      using "1.prems"(5) cat_depth_child [OF True] by fastforce
    then have b: "e2 = None \<and> writer_ok c2 ((nd_Name n, [] @ map cat_entry (nd_Children n)) # ?st)"
      using "1.IH" [OF True s [symmetric] _ k, of "nd_Name n" "[]" "(d, Es)" "p # st"] a ok(2)
        grows_length [OF n2 "1.prems"(4)] by auto
    have "e3 = None \<and> writer_ok c3 ((d, Es @ [cat_entry n]) # p # st)"
      using call_sim [of c2 "(nd_Name n, map cat_entry (nd_Children n)) # ?st" OpEnd c3 e3] f b a fin "1.prems"(4,5) True
      by (auto simp: b_next_def cat_entry.simps [of n] cat_depth.simps [of n] simp del: EndDirectory.simps)
    with a b fin show ?thesis by simp
  next
    case False
    have ok: "checkName (nd_Name n) = None" "\<forall>k. nd_Kind n \<noteq> KindOther k"
      using "1.prems"(3) by (auto simp: cat_ok.simps [of n])
    show ?thesis
      using call_sim [OF "1.prems"(2) _ "1.prems"(4) l, of "leaf_op n" e] "1.prems"(1) ok
        catalogNode_leaf [OF False ok(2)] b_step_leaf [OF False ok(2)]
      by (simp add: b_next_def del: w_step.simps b_step.simps leaf_op.simps)
  qed
next
  case (3 c n ns)
  obtain c1 e1 where n: "catalogNode c n = (c1, e1)" by fastforce
  have g: "grows c1 c'" using "3.prems"(1) n catalog_grows(2) by (cases e1) (auto simp: grows_refl)
  have a: "e1 = None \<and> writer_ok c1 ((d, Es @ [cat_entry n]) # p # st)"
    using "3.IH"(1) [OF n "3.prems"(2)] "3.prems" grows_length [OF g "3.prems"(4)] by auto
  then show ?case using "3.IH"(2) [OF n [symmetric], of c' e d "Es @ [cat_entry n]" p st] n "3.prems" by auto
qed simp

lemma call_error: "cat_call (w_step c op) = (c', e) \<Longrightarrow> e = map_option CatWriter (snd (w_step c op))"
  by (auto simp: cat_call_def)

text \<open>No sink makes the walk succeed on a tree with a bad name or an unknown kind.\<close>

lemma catalog_error:
  "catalogNode c n = (c', None) \<Longrightarrow> cat_ok n"
  "catalogChildren c ns = (c', None) \<Longrightarrow> \<forall>n \<in> set ns. cat_ok n"
proof (induction c n and c ns arbitrary: c' and c' rule: catalogNode_catalogChildren.induct)
  case (1 c n)
  have nm: "checkName (nd_Name n) = None"
    using "1.prems" by (auto simp: catalogNode.simps [of c n] cat_call_def StartDirectory_def AddFile_def add_kind_defs
        add_named_def add_def split: Kind.splits option.splits prod.splits)
  have kd: "\<forall>k. nd_Kind n \<noteq> KindOther k" using "1.prems" by (auto simp: catalogNode.simps [of c n])
  have "\<forall>c \<in> set (nd_Children n). cat_ok c" if "nd_Kind n = KindDirectory"
  proof -
    obtain c1 e1 where s: "cat_call (StartDirectory c (nd_Name n)) = (c1, e1)" by fastforce
    obtain c2 e2 where k: "catalogChildren c1 (nd_Children n) = (c2, e2)" by fastforce
    have "e1 = None" "e2 = None"
      using "1.prems" that s k by (auto simp: catalogNode.simps [of c n] split: option.splits)
    then show ?thesis using "1.IH" [OF that s [symmetric]] k by auto
  qed
  with nm kd show ?case by (simp add: cat_ok.simps [of n])
next
  case (3 c n ns)
  then show ?case by (auto split: prod.splits option.splits)
qed simp


subsection \<open>Properties\<close>

text \<open>
  C17: the catalog shows the archive's tree.  On a sink that takes everything, for any tree nested
  within the decoder's limit, the walk fails exactly when a name or a kind is one the catalog cannot
  hold; otherwise what it wrote decodes to one top-level directory, named as the index, whose
  children are the entries of the tree with their types, sizes and modification times.
\<close>

theorem catalog_shows_tree:
  assumes "writeCatalog None root name = Inr (c, e)" "length (cw_out c) < 2 ^ 64"
    and "\<forall>n \<in> set (nd_Children root). cat_depth n < maxDepth"
  shows "(e = None \<longleftrightarrow> checkName name = None \<and> (\<forall>n \<in> set (nd_Children root). cat_ok n)) \<and>
    (e = None \<longrightarrow> Decode (cw_out c) =
       Inr (Entry [] TypeDirectory 0 0 [Entry name TypeDirectory 0 0 (map cat_entry (nd_Children root))]))"
proof -
  obtain c0 where c0: "NewWriter None = Inr c0"
    using assms(1) by (auto simp: writeCatalog_def split: sum.splits)
  obtain c1 e1 where s: "cat_call (StartDirectory c0 name) = (c1, e1)" by fastforce
  obtain c2 e2 where k: "catalogChildren c1 (nd_Children root) = (c2, e2)" by fastforce
  obtain c3 e3 where f: "cat_call (EndDirectory c2) = (c3, e3)" by fastforce
  obtain c4 e4 where g: "cat_call (Finish c3) = (c4, e4)" by fastforce
  note ev = assms(1) [unfolded writeCatalog_def c0 sum.case s prod.case]
  have g4: "grows c3 c4" using Finish_grows [of c3] g by (auto simp: cat_call_def grows_def)
  have e1: "e1 = None \<longleftrightarrow> checkName name = None"
    using s by (auto simp: cat_call_def StartDirectory_def split: option.splits)
  show ?thesis
  proof (cases "checkName name = None \<and> (\<forall>n \<in> set (nd_Children root). cat_ok n)")
    case True
    then have e1: "e1 = None" using e1 by simp
    note ev = ev [unfolded e1 option.case k prod.case]
    have gr: "grows c1 c2" "grows c2 c3" using catalog_grows(2) [OF k] cat_call_grows'(2) f by blast+
    have "grows c2 c"
      using ev f g grows_trans [OF gr(2) g4] gr(2) by (auto simp: grows_refl split: option.splits simp del: EndDirectory.simps Finish.simps)
    then have l2: "length (cw_out c2) < 2 ^ 64" "length (cw_out c1) < 2 ^ 64"
      using grows_length assms(2) gr(1) by blast+
    have "writer_ok c1 [(name, []), ([], [])]"
      using call_sim [OF NewWriter_ok [OF c0], of "OpStart name" c1 e1] s True l2 by (simp add: b_next_def)
    then have k2: "e2 = None \<and> writer_ok c2 [(name, map cat_entry (nd_Children root)), ([], [])]"
      using catalog_sim(2) [OF k, of name "[]" "([], [])" "[]"] True l2 assms(3) by (auto simp: Suc_le_eq)
    note ev = ev [unfolded k2 [THEN conjunct1] option.case f prod.case]
    have l3: "length (cw_out c3) < 2 ^ 64"
      using ev g grows_length [OF g4] assms(2) by (auto split: option.splits simp del: Finish.simps)
    have k3: "e3 = None \<and> writer_ok c3 [([], [Entry name TypeDirectory 0 0 (map cat_entry (nd_Children root))])]"
      using call_sim [of c2 "[(name, map cat_entry (nd_Children root)), ([], [])]" OpEnd c3 e3] f k2 l3 by (auto simp: b_next_def maxDepth_def simp del: EndDirectory.simps)
    have "cat_call (Finish c3) = (c, e)" using ev k3 by simp
    then show ?thesis using finish_sim [of c3 "[]"] k3 True assms(2)
      by (auto simp: cat_call_def simp del: Finish.simps)
  next
    case False
    then have "e \<noteq> None" using ev e1 catalog_error(2) [of c1 "nd_Children root" c2] k
      by (cases e1; cases e2) auto
    with False show ?thesis by blast
  qed
qed

definition example_root :: Node where
  "example_root = Node [] [] KindDirectory zero_stat [] [] None [] 0
     [mk_node (str ''a'') KindFile (zero_stat\<lparr> st_Size := 3, st_MtimeSecs := 9 \<rparr>), mk_node (str ''s'') KindSocket zero_stat] None"

theorem catalog_shows_tree_witness:
  "\<exists>c. writeCatalog None example_root (CatalogEntryName (str ''root'')) = Inr (c, None) \<and>
     Decode (cw_out c) = Inr (Entry [] TypeDirectory 0 0 [Entry (str ''root.pxar.didx'') TypeDirectory 0 0
       [Entry (str ''a'') TypeFile 3 9 [], Entry (str ''s'') TypeSocket 0 0 []]])"
proof -
  have nm: "CatalogEntryName (str ''root'') = str ''root.pxar.didx''"
    by (simp add: CatalogEntryName_def has_suffix_def)
  obtain c where c: "writeCatalog None example_root (str ''root.pxar.didx'') = Inr (c, None)" "length (cw_out c) < 2 ^ 64"
    by (simp add: writeCatalog_def example_root_def mk_node_def NewWriter_def sink_take_def cat_call_def
        StartDirectory_def checkName_def catalogNode.simps AddFile_def AddSocket_def add_named_def add_def
        writeTable_def cw_write_def table_bytes_def entry_bytes_def appendU64_small appendI64_def
        Magic_def Let_def type_defs zero_stat_def)
  show ?thesis unfolding nm
    using catalog_shows_tree [OF c] c(1)
    by (simp add: example_root_def mk_node_def cat_depth.simps cat_entry.simps maxDepth_def zero_stat_def)
qed

end
