(* ===== verification/Archive.thy ===== *)
theory Archive
  imports Links Resolve Archive_Catalog
begin

unbundle bit_operations_syntax

text \<open>
  The archive builder, \<^verbatim>\<open>src/archive/archive.go\<close> and \<^verbatim>\<open>src/archive/prelude.go\<close>: queueing roots, building
  the node tree, and generation as the composition of scanner, plan and emitters.

  Everything the builder takes from outside is in the record \<open>ambient\<close>: the operating system's \<open>Stat\<close>,
  \<open>Lstat\<close> (whether a path is a directory) and \<open>open\<close>, the scanner's file system with the depth bound of
  the walk, the clock, the process's ids and the name hash.  A generated stream is what it delivers
  and the error it ends with; payloads are read by the synchronous source.
\<close>

subsection \<open>The builder\<close>

datatype ar_error =
    ArNegativeWorkers int
  | ArNegativeBuffer i64
  | ArPattern pattern_error
  | ArOs bytes oserr
  | ArNotDirectory bytes
  | ArIsDirectory bytes
  | ArName name_error
  | ArNode scan_error
  | ArTreeNeedsDirectory
  | ArDuplicate bytes bytes
  | ArNoReader bytes
  | ArNegativeSize bytes i64
  | ArTreeKind bytes
  | ArNothingAdded
  | ArNameRequired
  | ArScan sc_error
  | ArReservedName

record ambient =
  am_Stat :: "bytes \<Rightarrow> oserr + bool"
  am_Lstat :: "bytes \<Rightarrow> oserr + bool"
  am_open :: os_open
  am_Reader :: MetadataReader
  am_depth :: nat
  am_now :: "i64 \<times> u32"
  am_ids :: "u32 \<times> u32"
  am_Hash :: "bytes \<Rightarrow> u64"
  am_over :: "u64 \<Rightarrow> u64 \<Rightarrow> bool"

record Options_ar =
  ao_Name :: bytes
  ao_Workers :: int
  ao_Buffer :: i64
  ao_Scan :: Options_sc
  ao_Previous :: "Previous option"

datatype rootKind = addDir | addFile

record addition =
  ad_kind :: rootKind
  ad_path :: bytes
  ad_as :: bytes

text \<open>The builder's state, with the warnings it has passed on.\<close>

record Archive =
  ar_opts :: Options_ar
  ar_adds :: "addition list"
  ar_streams :: "Node list"
  ar_trees :: "Node list"
  ar_cliPatterns :: "bytes option"
  ar_reuseStats :: ReuseStats
  ar_warns :: "(WarnKind \<times> bytes \<times> ar_error) list"

definition pxarExcludeCLIName :: bytes where "pxarExcludeCLIName = str ''.pxarexclude-cli''"

definition New_ar :: "Options_ar \<Rightarrow> ar_error + Archive" where
  "New_ar opts =
     (if ao_Workers opts < 0 then Inl (ArNegativeWorkers (ao_Workers opts))
      else if sint (ao_Buffer opts) < 0 then Inl (ArNegativeBuffer (ao_Buffer opts))
      else
        (case ParsePatterns (so_Exclude (ao_Scan opts)) of
           Inl e \<Rightarrow> Inl (ArPattern e)
         | Inr patterns \<Rightarrow>
             Inr \<lparr> ar_opts = opts, ar_adds = [], ar_streams = [], ar_trees = [],
               ar_cliPatterns = (if patterns \<noteq> [] then Some (PatternList_String patterns) else None),
               ar_reuseStats = \<lparr> ru_Files = 0, ru_ReusedFiles = 0, ru_ReusedBytes = 0, ru_InjectedBytes = 0, ru_RejectedRuns = 0 \<rparr>,
               ar_warns = [] \<rparr>))"

definition ar_warn :: "Archive \<Rightarrow> WarnKind \<Rightarrow> bytes \<Rightarrow> ar_error \<Rightarrow> Archive" where
  "ar_warn a k p e = a\<lparr> ar_warns := ar_warns a @ [(k, p, e)] \<rparr>"

text \<open>\<open>baseName\<close>: trailing slashes go while more than one byte is left, then the part after the last slash.\<close>

fun trim_slashes :: "bytes \<Rightarrow> bytes" where
  "trim_slashes (c # d # r) = (if c = c_slash then trim_slashes (d # r) else c # d # r)"
| "trim_slashes r = r"

definition baseName :: "bytes \<Rightarrow> bytes" where
  "baseName path = rev (takeWhile (\<lambda>b. b \<noteq> c_slash) (trim_slashes (rev path)))"

definition AddDirectoryAs :: "ambient \<Rightarrow> bytes \<Rightarrow> bytes \<Rightarrow> Archive \<Rightarrow> Archive \<times> ar_error option" where
  "AddDirectoryAs am path as a =
     (case am_Stat am path of
        Inl e \<Rightarrow> (a, Some (ArOs path e))
      | Inr isDir \<Rightarrow>
          (if \<not> isDir then (a, Some (ArNotDirectory path))
           else
             (case ValidateFilename as of
                Some e \<Rightarrow> (a, Some (ArName e))
              | None \<Rightarrow> (a\<lparr> ar_adds := ar_adds a @ [\<lparr> ad_kind = addDir, ad_path = path, ad_as = as \<rparr>] \<rparr>, None))))"

definition AddDirectory :: "ambient \<Rightarrow> bytes \<Rightarrow> Archive \<Rightarrow> Archive \<times> ar_error option" where
  "AddDirectory am path = AddDirectoryAs am path (baseName path)"

text \<open>The loops that queue several roots, stopping at the first error.\<close>

fun add_each :: "('x \<Rightarrow> Archive \<Rightarrow> Archive \<times> ar_error option) \<Rightarrow> 'x list \<Rightarrow> Archive \<Rightarrow> Archive \<times> ar_error option" where
  "add_each f [] a = (a, None)"
| "add_each f (x # xs) a = (case f x a of (a, Some e) \<Rightarrow> (a, Some e) | (a, None) \<Rightarrow> add_each f xs a)"

definition AddDirectories :: "ambient \<Rightarrow> bytes list \<Rightarrow> Archive \<Rightarrow> Archive \<times> ar_error option" where
  "AddDirectories am = add_each (AddDirectory am)"

text \<open>The map from paths to names as the association list of its distinct keys.\<close>

definition AddDirectoriesAs :: "ambient \<Rightarrow> (bytes \<times> bytes) list \<Rightarrow> Archive \<Rightarrow> Archive \<times> ar_error option" where
  "AddDirectoriesAs am paths = add_each (\<lambda>(p, as). AddDirectoryAs am p as) (sort_key fst paths)"

definition AddFile_ar :: "ambient \<Rightarrow> bytes \<Rightarrow> Archive \<Rightarrow> Archive \<times> ar_error option" where
  "AddFile_ar am path a =
     (case am_Lstat am path of
        Inl e \<Rightarrow> (a, Some (ArOs path e))
      | Inr isDir \<Rightarrow>
          (if isDir then (a, Some (ArIsDirectory path))
           else (a\<lparr> ar_adds := ar_adds a @ [\<lparr> ad_kind = addFile, ad_path = path, ad_as = baseName path \<rparr>] \<rparr>, None)))"

definition AddFiles :: "ambient \<Rightarrow> bytes list \<Rightarrow> Archive \<Rightarrow> Archive \<times> ar_error option" where
  "AddFiles am = add_each (AddFile_ar am)"

definition AddStream :: "bytes \<Rightarrow> i64 \<Rightarrow> string rd \<Rightarrow> Archive \<Rightarrow> Archive \<times> ar_error option" where
  "AddStream name sz r a =
     (case StreamNode name sz r of
        Inl e \<Rightarrow> (a, Some (ArNode e))
      | Inr n \<Rightarrow> (a\<lparr> ar_streams := ar_streams a @ [n] \<rparr>, None))"

text \<open>
  \<open>validateTree\<close> repairs the tree in place; here it returns the repaired tree.  The order in which
  \<open>sort.Slice\<close> leaves equal names is immaterial: they are an error.
\<close>

definition fix_mode :: "u64 \<Rightarrow> Stat \<Rightarrow> Stat" where
  "fix_mode t st = (if st_Mode st AND ModeTypeMask \<noteq> t then st\<lparr> st_Mode := t OR (st_Mode st AND NOT ModeTypeMask) \<rparr> else st)"

definition with_children :: "Node \<Rightarrow> Stat \<Rightarrow> Node list \<Rightarrow> Node" where
  "with_children n st cs = Node (nd_Name n) (nd_Path n) (nd_Kind n) st (nd_LinkTarget n) (nd_Xattrs n) (nd_ACL n)
     (nd_FCaps n) (nd_QuotaProjID n) cs (nd_Stream n)"

lemma size_list_sort: "size_list f (sort_key k xs) = size_list f xs"
proof -
  have "sum_list (map f (sort_key k xs)) = sum_list (map f xs)"
    by (simp flip: sum_mset_sum_list)
  then show ?thesis by (simp add: size_list_conv_sum_list)
qed

function (sequential) validateTree :: "Node \<Rightarrow> bytes \<Rightarrow> ar_error + Node"
  and validate_children :: "bytes option \<Rightarrow> Node list \<Rightarrow> bytes \<Rightarrow> ar_error + Node list"
where
  "validateTree n path =
     (case nd_Kind n of
        KindDirectory \<Rightarrow>
          (case validate_children None (sort_key nd_Name (nd_Children n)) path of
             Inl e \<Rightarrow> Inl e
           | Inr cs \<Rightarrow> Inr (with_children n (fix_mode ModeDir (nd_Stat n)) cs))
      | KindStream \<Rightarrow>
          (if nd_Stream n = None then Inl (ArNoReader path)
           else if sint (st_Size (nd_Stat n)) < 0 then Inl (ArNegativeSize path (st_Size (nd_Stat n)))
           else
             (let st = fix_mode ModeRegular (nd_Stat n);
                  st = (if st_Nlink st = 0 then st\<lparr> st_Nlink := 1 \<rparr> else st)
              in Inr (with_children n st (nd_Children n))))
      | _ \<Rightarrow> Inl (ArTreeKind path))"
| "validate_children prev [] path = Inr []"
| "validate_children prev (c # cs) path =
     (case ValidateFilename (nd_Name c) of
        Some e \<Rightarrow> Inl (ArName e)
      | None \<Rightarrow>
          (if prev = Some (nd_Name c) then Inl (ArDuplicate (nd_Name c) path)
           else
             (case validateTree c (path @ [c_slash] @ nd_Name c) of
                Inl e \<Rightarrow> Inl e
              | Inr c' \<Rightarrow>
                  (case validate_children (Some (nd_Name c)) cs path of
                     Inl e \<Rightarrow> Inl e
                   | Inr cs' \<Rightarrow> Inr (c' # cs')))))"
  by pat_completeness auto

termination
  by (relation "measure (\<lambda>x. case x of Inl (n, p) \<Rightarrow> 2 * size n | Inr (prev, cs, p) \<Rightarrow> Suc (2 * size_list size cs))")
    (auto simp: size_list_sort size_list_children)

declare validateTree.simps [simp del]

definition AddTree :: "Node option \<Rightarrow> Archive \<Rightarrow> Archive \<times> ar_error option" where
  "AddTree root a =
     (case root of
        None \<Rightarrow> (a, Some ArTreeNeedsDirectory)
      | Some root \<Rightarrow>
          (if nd_Kind root \<noteq> KindDirectory then (a, Some ArTreeNeedsDirectory)
           else
             (case validateTree root (nd_Name root) of
                Inl e \<Rightarrow> (a, Some e)
              | Inr root \<Rightarrow> (a\<lparr> ar_trees := ar_trees a @ [root] \<rparr>, None))))"

subsection \<open>The tree\<close>

definition rename :: "Node \<Rightarrow> bytes \<Rightarrow> Node" where
  "rename n name = Node name (nd_Path n) (nd_Kind n) (nd_Stat n) (nd_LinkTarget n) (nd_Xattrs n) (nd_ACL n)
     (nd_FCaps n) (nd_QuotaProjID n) (nd_Children n) (nd_Stream n)"

text \<open>The scanner's warnings of one scan, passed on with their kind.\<close>

definition warn_kind :: "sc_error \<Rightarrow> WarnKind" where
  "warn_kind e = (case e of ScPattern _ \<Rightarrow> WarnBadPattern | _ \<Rightarrow> WarnSkipped)"

definition scan_warns :: "Scanner_st \<Rightarrow> Archive \<Rightarrow> Archive" where
  "scan_warns s a = a\<lparr> ar_warns := ar_warns a @ map (\<lambda>(p, e). (warn_kind e, p, ArScan e)) (ss_warns s) \<rparr>"

fun scan_adds :: "ambient \<Rightarrow> Options_sc \<Rightarrow> addition list \<Rightarrow> Scanner_st \<Rightarrow> Node list scres" where
  "scan_adds am o' [] s = (s, Inr [])"
| "scan_adds am o' (ad # ads) s =
     (case (case ad_kind ad of
              addDir \<Rightarrow> ScanDirectory o' (am_Reader am) (am_depth am) (ad_path ad) (ad_as ad) s
            | addFile \<Rightarrow> ScanFile o' (am_Reader am) (am_depth am) (ad_path ad) (ad_as ad) s) of
        (s, Inl e) \<Rightarrow> (s, Inl e)
      | (s, Inr n) \<Rightarrow>
          (case scan_adds am o' ads s of
             (s, Inl e) \<Rightarrow> (s, Inl e)
           | (s, Inr ns) \<Rightarrow> (s, Inr (rename n (ad_as ad) # ns))))"

definition scanRoots :: "ambient \<Rightarrow> Archive \<Rightarrow> Archive \<times> (ar_error + Node)" where
  "scanRoots am a =
     (if ar_adds a = [] \<and> ar_streams a = [] \<and> ar_trees a = [] then (a, Inl ArNothingAdded)
      else
        (case NewScanner (ao_Scan (ar_opts a)) of
           Inl e \<Rightarrow> (a, Inl (ArScan e))
         | Inr s \<Rightarrow>
             (if length (ar_adds a) = 1 \<and> ad_kind (hd (ar_adds a)) = addDir \<and> ar_streams a = [] \<and> ar_trees a = [] then
                (case ScanDirectory (ao_Scan (ar_opts a)) (am_Reader am) (am_depth am) (ad_path (hd (ar_adds a))) [] s of
                   (s, Inl e) \<Rightarrow> (scan_warns s a, Inl (ArScan e))
                 | (s, Inr root) \<Rightarrow> (scan_warns s a, Inr root))
              else if length (ar_trees a) = 1 \<and> ar_adds a = [] \<and> ar_streams a = [] then (a, Inr (hd (ar_trees a)))
              else if ao_Name (ar_opts a) = [] then (a, Inl ArNameRequired)
              else
                (case scan_adds am (ao_Scan (ar_opts a)) (ar_adds a) s of
                   (s, Inl e) \<Rightarrow> (scan_warns s a, Inl (ArScan e))
                 | (s, Inr ns) \<Rightarrow>
                     (case VirtualRoot (ao_Name (ar_opts a)) (ns @ ar_streams a @ ar_trees a) of
                        Inl e \<Rightarrow> (scan_warns s a, Inl (ArNode e))
                      | Inr root \<Rightarrow>
                          (scan_warns s a,
                           Inr (with_children root ((nd_Stat root)\<lparr> st_MtimeSecs := fst (am_now am),
                             st_MtimeNanos := snd (am_now am) \<rparr>) (nd_Children root))))))))"

definition dropReserved :: "Node list \<Rightarrow> Archive \<Rightarrow> Archive \<times> Node list" where
  "dropReserved children a =
     (fold (\<lambda>c a. ar_warn a WarnSkipped (nd_Path c) ArReservedName) (filter (\<lambda>c. nd_Name c = pxarExcludeCLIName) children) a,
      filter (\<lambda>c. nd_Name c \<noteq> pxarExcludeCLIName) children)"

definition cliPatternNode :: "ambient \<Rightarrow> bytes \<Rightarrow> Node option" where
  "cliPatternNode am content =
     (case StreamNode pxarExcludeCLIName (len64 content) [(content, ROk)] of
        Inl e \<Rightarrow> None
      | Inr n \<Rightarrow> Some (with_children n (zero_stat\<lparr> st_Mode := ModeRegular OR 0x180, st_UID := fst (am_ids am),
          st_GID := snd (am_ids am), st_Size := len64 content, st_Nlink := 1 \<rparr>) (nd_Children n)))"

definition buildTree :: "ambient \<Rightarrow> bool \<Rightarrow> Archive \<Rightarrow> Archive \<times> (ar_error + Node) option" where
  "buildTree am v2 a =
     (case scanRoots am a of
        (a, Inl e) \<Rightarrow> (a, Some (Inl e))
      | (a, Inr root) \<Rightarrow>
          (case dropReserved (nd_Children root) a of
             (a, kept) \<Rightarrow>
               (case ar_cliPatterns a of
                  Some pats \<Rightarrow>
                    (if v2 then (a, Some (Inr (with_children root (nd_Stat root) kept)))
                     else
                       (case cliPatternNode am pats of
                          None \<Rightarrow> (a, None)
                        | Some n \<Rightarrow> (a, Some (Inr (with_children root (nd_Stat root) (kept @ [n]))))))
                | None \<Rightarrow> (a, Some (Inr (with_children root (nd_Stat root) kept))))))"

subsection \<open>The prelude\<close>

definition hex_digit :: "byte \<Rightarrow> byte" where
  "hex_digit d = (if d < 10 then 48 + d else 87 + d)"

definition json_escape :: "byte \<Rightarrow> bytes" where
  "json_escape c =
     (if c = 34 then [92, 34]
      else if c = 92 then [92, 92]
      else if c = 8 then [92, 98]
      else if c = 12 then [92, 102]
      else if c = 10 then [92, 110]
      else if c = 13 then [92, 114]
      else if c = 9 then [92, 116]
      else if c < 0x20 then [92, 117, 48, 48] @ [hex_digit (drop_bit 4 c)] @ [hex_digit (c AND 0xf)]
      else [c])"

definition prelude_head :: bytes where "prelude_head = [123, 34] @ str ''exclude-patterns'' @ [34, 58, 34]"

definition preludeJSON :: "bytes \<Rightarrow> bytes" where
  "preludeJSON patterns = prelude_head @ concat (map json_escape patterns) @ [34, 125]"

definition prelude_ar :: "Archive \<Rightarrow> bytes option" where
  "prelude_ar a = map_option preludeJSON (ar_cliPatterns a)"

subsection \<open>Generation\<close>

text \<open>
  A pipe that a consumer drains: what went through, and the error it was closed with.  \<open>ctx\<close> and \<open>room\<close>
  are where cancellation and a closing consumer hit.
\<close>

type_synonym stream = "bytes \<times> emit_error option"

definition GenerateV1 :: "ambient \<Rightarrow> nat option \<Rightarrow> nat option \<Rightarrow> Archive \<Rightarrow> Archive \<times> (ar_error + stream) option" where
  "GenerateV1 am ctx room a =
     (case buildTree am False a of
        (a, None) \<Rightarrow> (a, None)
      | (a, Some (Inl e)) \<Rightarrow> (a, Some (Inl e))
      | (a, Some (Inr root)) \<Rightarrow>
          (case em_run (am_Hash am) (syncSource (am_open am)) None root (new_emitter ctx room None) of
             (s, Inl e) \<Rightarrow> (a, Some (Inr (em_out s, Some e)))
           | (s, Inr _) \<Rightarrow> (a, Some (Inr (em_out s, None)))))"

definition EstimatedSizeV1 :: "ambient \<Rightarrow> Archive \<Rightarrow> Archive \<times> (ar_error + i64) option" where
  "EstimatedSizeV1 am a =
     (case buildTree am False a of
        (a, None) \<Rightarrow> (a, None)
      | (a, Some (Inl e)) \<Rightarrow> (a, Some (Inl e))
      | (a, Some (Inr root)) \<Rightarrow> (a, Some (Inr (estimateV1 root True))))"

text \<open>The two streams of a v2 archive, the metadata stream against the ledger as the payload stream leaves it.\<close>

definition GenerateV2 :: "ambient \<Rightarrow> nat option \<Rightarrow> nat option \<Rightarrow> nat option \<Rightarrow> nat option \<Rightarrow> Archive \<Rightarrow>
    Archive \<times> (ar_error + stream \<times> stream) option" where
  "GenerateV2 am ctx room ctx' room' a =
     (case buildTree am True a of
        (a, None) \<Rightarrow> (a, None)
      | (a, Some (Inl e)) \<Rightarrow> (a, Some (Inl e))
      | (a, Some (Inr root)) \<Rightarrow>
          (case planReuse (am_over am) (ao_Previous (ar_opts a)) (collectPayloadPaths root []) of
             (plan, payloads, stats) \<Rightarrow>
               (let a = a\<lparr> ar_reuseStats := stats \<rparr> in
                case pe_run (syncSource (am_open am)) True plan (payload_start ctx' room' (ao_Previous (ar_opts a) \<noteq> None)) of
                  (p, perr) \<Rightarrow>
                    (let ledger = (case perr of None \<Rightarrow> pe_ledger p | Some e \<Rightarrow> ledger_fail (pe_ledger p) (EmPayloadStream e)) in
                     case em_run (am_Hash am) (syncSource (am_open am)) (prelude_ar a) root
                            (new_emitter ctx room (Some (newRefReader ledger plan))) of
                       (s, r) \<Rightarrow>
                         (a, Some (Inr ((em_out s, case r of Inl e \<Rightarrow> Some e | Inr _ \<Rightarrow> None),
                            (cn_out (pe_w p), perr))))))))"

definition EstimatedSizeV2 :: "ambient \<Rightarrow> Archive \<Rightarrow> Archive \<times> (ar_error + i64 \<times> i64) option" where
  "EstimatedSizeV2 am a =
     (case buildTree am True a of
        (a, None) \<Rightarrow> (a, None)
      | (a, Some (Inl e)) \<Rightarrow> (a, Some (Inl e))
      | (a, Some (Inr root)) \<Rightarrow>
          (case estimateV2 root True of
             (m, p) \<Rightarrow> (a, Some (Inr (case prelude_ar a of Some b \<Rightarrow> m + SizePrelude b | None \<Rightarrow> m, p)))))"

text \<open>The catalog of the tree: what was written, and the error that ended it.\<close>

definition GenerateCatalog :: "ambient \<Rightarrow> nat option \<Rightarrow> Archive \<Rightarrow> Archive \<times> (ar_error + cat_error + (Writer \<times> cat_error option)) option" where
  "GenerateCatalog am room a =
     (case buildTree am False a of
        (a, None) \<Rightarrow> (a, None)
      | (a, Some (Inl e)) \<Rightarrow> (a, Some (Inl e))
      | (a, Some (Inr root)) \<Rightarrow> (a, Some (Inr (writeCatalog room root (CatalogEntryName (ao_Name (ar_opts a)))))))"

subsection \<open>Virtual trees\<close>

fun vt_ok :: "Node \<Rightarrow> bool" where
  "vt_ok n \<longleftrightarrow>
     (case nd_Kind n of
        KindDirectory \<Rightarrow> modeType (st_Mode (nd_Stat n)) = ModeDir \<and> sorted_wrt (<) (map nd_Name (nd_Children n)) \<and>
          (\<forall>c \<in> set (nd_Children n). ValidateFilename (nd_Name c) = None \<and> vt_ok c)
      | KindStream \<Rightarrow> nd_Stream n \<noteq> None \<and> 0 \<le> sint (st_Size (nd_Stat n)) \<and>
          modeType (st_Mode (nd_Stat n)) = ModeRegular \<and> st_Nlink (nd_Stat n) \<noteq> 0
      | _ \<Rightarrow> False)"

declare vt_ok.simps [simp del]

lemma fix_mode:
  assumes "t AND ModeTypeMask = t"
  shows "modeType (st_Mode (fix_mode t st)) = t" "modeType (st_Mode st) = t \<Longrightarrow> fix_mode t st = st"
    "st_Nlink (fix_mode t st) = st_Nlink st" "st_Size (fix_mode t st) = st_Size st"
proof -
  have "(t OR (m AND NOT ModeTypeMask)) AND ModeTypeMask = t" for m :: u64
    unfolding bit.conj_disj_distrib2 assms by (simp add: and.assoc)
  then show "modeType (st_Mode (fix_mode t st)) = t" by (simp add: fix_mode_def modeType_def)
qed (auto simp: fix_mode_def modeType_def)

lemma mode_masks: "ModeDir AND ModeTypeMask = ModeDir" "ModeRegular AND ModeTypeMask = ModeRegular"
  by (simp_all add: mode_defs)

lemma with_children_sel [simp]:
  "nd_Name (with_children n st cs) = nd_Name n" "nd_Path (with_children n st cs) = nd_Path n"
  "nd_Kind (with_children n st cs) = nd_Kind n"
  "nd_Stat (with_children n st cs) = st" "nd_Children (with_children n st cs) = cs"
  "nd_Stream (with_children n st cs) = nd_Stream n" "nd_LinkTarget (with_children n st cs) = nd_LinkTarget n"
  by (simp_all add: with_children_def)

lemma with_children_self: "with_children n (nd_Stat n) (nd_Children n) = n"
  by (cases n) (simp add: with_children_def)

text \<open>The payload streams of a tree, with the sizes they declare.\<close>

fun leaves :: "Node \<Rightarrow> (string rd option \<times> i64) multiset" where
  "leaves n =
     (case nd_Kind n of
        KindDirectory \<Rightarrow> sum_list (map leaves (nd_Children n))
      | KindStream \<Rightarrow> {# (nd_Stream n, st_Size (nd_Stat n)) #}
      | _ \<Rightarrow> {#})"

declare leaves.simps [simp del]

definition vt_good :: "Node \<Rightarrow> bool" where
  "vt_good n \<longleftrightarrow> (\<forall>path n'. validateTree n path = Inr n' \<longrightarrow>
     vt_ok n' \<and> nd_Name n' = nd_Name n \<and> leaves n' = leaves n)"

lemma validate_children_good:
  assumes "validate_children prev cs path = Inr cs'" "\<forall>c \<in> set cs. vt_good c"
    "sorted (map nd_Name cs)" "\<forall>c \<in> set cs. case prev of None \<Rightarrow> True | Some p \<Rightarrow> p \<le> nd_Name c"
  shows "(\<forall>c \<in> set cs'. ValidateFilename (nd_Name c) = None \<and> vt_ok c) \<and>
    sorted_wrt (<) (map nd_Name cs') \<and> (\<forall>c \<in> set cs'. case prev of None \<Rightarrow> True | Some p \<Rightarrow> p < nd_Name c) \<and>
    map leaves cs' = map leaves cs"
  using assms
proof (induction cs arbitrary: prev cs')
  case (Cons c cs)
  obtain c' ds where c: "ValidateFilename (nd_Name c) = None" "prev \<noteq> Some (nd_Name c)"
      "validateTree c (path @ [c_slash] @ nd_Name c) = Inr c'" "validate_children (Some (nd_Name c)) cs path = Inr ds" "cs' = c' # ds"
    using Cons.prems(1) by (auto split: option.splits if_splits sum.splits)
  have c': "vt_ok c'" "nd_Name c' = nd_Name c" "leaves c' = leaves c"
    using Cons.prems(2) c(3) by (auto simp: vt_good_def)
  have a: "\<forall>c \<in> set cs. vt_good c" "sorted (map nd_Name cs)"
      "\<forall>d \<in> set cs. case Some (nd_Name c) of None \<Rightarrow> True | Some p \<Rightarrow> p \<le> nd_Name d"
    using Cons.prems by auto
  note IH = Cons.IH [OF c(4) a, unfolded option.case]
  have p: "case prev of None \<Rightarrow> True | Some p \<Rightarrow> p < nd_Name c"
    using Cons.prems(4) c(2) by (auto split: option.splits)
  have "\<forall>d \<in> set ds. case prev of None \<Rightarrow> True | Some p \<Rightarrow> p < nd_Name d"
    using p IH by (auto split: option.splits intro: order.strict_trans [of _ "nd_Name c"])
  then show ?case using IH c c' p by (cases prev) simp_all
qed simp

lemma validateTree_good: "vt_good n"
proof (induction n rule: measure_induct_rule [of size])
  case (less n)
  show ?case unfolding vt_good_def
  proof (intro allI impI)
    fix path n' assume v: "validateTree n path = Inr n'"
    show "vt_ok n' \<and> nd_Name n' = nd_Name n \<and> leaves n' = leaves n"
    proof (cases "nd_Kind n = KindDirectory")
      case True
      let ?cs = "sort_key nd_Name (nd_Children n)"
      obtain cs where cs: "validate_children None ?cs path = Inr cs" "n' = with_children n (fix_mode ModeDir (nd_Stat n)) cs"
        using v True by (auto simp: validateTree.simps [of n] split: sum.splits)
      have g: "\<forall>c \<in> set ?cs. vt_good c" using less size_child by auto
      have "sum_list (map leaves ?cs) = sum_list (map leaves (nd_Children n))"
        by (simp flip: sum_mset_sum_list)
      moreover have "leaves n' = sum_list (map leaves cs)" "leaves n = sum_list (map leaves (nd_Children n))"
        unfolding leaves.simps [of n'] leaves.simps [of n] using True cs(2) by simp_all
      moreover have v: "map leaves cs = map leaves ?cs" "sorted_wrt (<) (map nd_Name cs)"
          "\<forall>c \<in> set cs. ValidateFilename (nd_Name c) = None \<and> vt_ok c"
        using validate_children_good [OF cs(1) g] by simp_all
      ultimately have "leaves n' = leaves n" by (simp only:)
      moreover have "vt_ok n'"
        unfolding cs(2) vt_ok.simps [of "with_children n st cs" for st] using True v(2,3) by (simp add: fix_mode mode_masks)
      ultimately show ?thesis using cs(2) by simp
    next
      case False
      then have k: "nd_Kind n = KindStream" using v unfolding validateTree.simps [of n] by (cases "nd_Kind n") simp_all
      obtain st where st: "nd_Stream n \<noteq> None" "0 \<le> sint (st_Size (nd_Stat n))" "n' = with_children n st (nd_Children n)"
          "modeType (st_Mode st) = ModeRegular" "st_Nlink st \<noteq> 0" "st_Size st = st_Size (nd_Stat n)"
      proof
        let ?f = "fix_mode ModeRegular (nd_Stat n)"
        show "n' = with_children n (if st_Nlink ?f = 0 then ?f\<lparr> st_Nlink := 1 \<rparr> else ?f) (nd_Children n)"
          using v k unfolding validateTree.simps [of n] by (simp add: Let_def split: if_splits)
        show "nd_Stream n \<noteq> None" "0 \<le> sint (st_Size (nd_Stat n))"
          using v k unfolding validateTree.simps [of n] by (simp_all split: if_splits)
      qed (simp_all add: fix_mode mode_masks)
      then show ?thesis unfolding vt_ok.simps [of n'] leaves.simps [of n'] leaves.simps [of n] using k by simp
    qed
  qed
qed

lemma validate_children_fixed:
  "\<forall>c \<in> set cs. ValidateFilename (nd_Name c) = None \<and> (\<forall>p. validateTree c p = Inr c) \<Longrightarrow> sorted_wrt (<) (map nd_Name cs) \<Longrightarrow>
     (\<forall>c \<in> set cs. prev \<noteq> Some (nd_Name c)) \<Longrightarrow> validate_children prev cs path = Inr cs"
proof (induction cs arbitrary: prev)
  case (Cons c cs)
  have "validate_children (Some (nd_Name c)) cs path = Inr cs" by (rule Cons.IH) (use Cons.prems in auto)
  then show ?case using Cons.prems by simp
qed simp

lemma validateTree_fixed: "vt_ok n \<Longrightarrow> validateTree n path = Inr n"
proof (induction n arbitrary: path rule: measure_induct_rule [of size])
  case (less n)
  note ok = less.prems [unfolded vt_ok.simps [of n]]
  show ?case
  proof (cases "nd_Kind n = KindDirectory")
    case True
    have s: "sort_key nd_Name (nd_Children n) = nd_Children n"
      using ok True by (simp add: sort_key_id_if_sorted strict_sorted_iff)
    have "validate_children None (nd_Children n) path = Inr (nd_Children n)"
      by (rule validate_children_fixed) (use ok True less.IH size_child in auto)
    then show ?thesis using ok True s
      by (simp add: validateTree.simps [of n] fix_mode(2) mode_masks with_children_self)
  next
    case False
    then have k: "nd_Kind n = KindStream" using ok by (cases "nd_Kind n") simp_all
    show ?thesis unfolding validateTree.simps [of n] using ok k
      by (simp add: fix_mode(2) mode_masks with_children_self Let_def)
  qed
qed

text \<open>
  C29: A tree that \<open>AddTree\<close> accepts is in normal form: only directories and streams, each with the mode of
  its kind, the children of every directory strictly ascending by valid names, every stream with a
  reader, a size that is not negative and a link count.  It has the same name and the same streams as the caller's
  tree, and adding the normal form again changes nothing.
\<close>

theorem AddTree_normal_form:
  assumes "AddTree (Some root) a = (a', None)"
  shows "\<exists>t. a' = a\<lparr> ar_trees := ar_trees a @ [t] \<rparr> \<and> vt_ok t \<and> nd_Name t = nd_Name root \<and> leaves t = leaves root \<and>
    (\<forall>b. AddTree (Some t) b = (b\<lparr> ar_trees := ar_trees b @ [t] \<rparr>, None))"
proof -
  obtain t where t: "nd_Kind root = KindDirectory" "validateTree root (nd_Name root) = Inr t" "a' = a\<lparr> ar_trees := ar_trees a @ [t] \<rparr>"
    using assms by (auto simp: AddTree_def split: if_splits sum.splits)
  have g: "vt_ok t \<and> nd_Name t = nd_Name root \<and> leaves t = leaves root"
    using validateTree_good [of root, unfolded vt_good_def] t(2) by blast
  have "nd_Kind t = KindDirectory" using t(1,2) by (auto simp: validateTree.simps [of root] split: sum.splits)
  then show ?thesis using g t(3) validateTree_fixed [of t] by (auto simp: AddTree_def)
qed

definition demo_archive :: Archive where
  "demo_archive = projr (New_ar \<lparr> ao_Name = str ''x'', ao_Workers = 1, ao_Buffer = 0,
     ao_Scan = demo_opts\<lparr> so_Exclude := [] \<rparr>, ao_Previous = None \<rparr>)"

definition demo_leaf :: "bytes \<Rightarrow> Node" where
  "demo_leaf name = Node name [] KindStream zero_stat [] [] None [] 0 [] (Some [])"

definition demo_tree :: Node where
  "demo_tree = Node [116] [] KindDirectory zero_stat [] [] None [] 0 [demo_leaf [98], demo_leaf [97]] None"

theorem AddTree_normal_form_witness:
  "\<exists>a' t. AddTree (Some demo_tree) demo_archive = (a', None) \<and> ar_trees a' = [t] \<and> vt_ok t \<and> leaves t = leaves demo_tree"
proof -
  have "snd (AddTree (Some demo_tree) demo_archive) = None" by code_simp
  then obtain a' where a': "AddTree (Some demo_tree) demo_archive = (a', None)" by (metis prod.collapse)
  have "ar_trees demo_archive = []" by code_simp
  then show ?thesis using AddTree_normal_form [OF a'] a' by auto
qed

subsection \<open>Hardlinks across roots\<close>

lemma ScanFile_links:
  assumes "ScanFile o' r k path apath s = (s', Inr n)"
  shows "scanned_ok r n \<and> links_step o' s s' (preorder n apath)"
proof -
  obtain absp st where "scanNode o' r k absp (path_Base absp) apath st s = (s', Inr n)"
    using assms by (auto simp: ScanFile_def split: sum.splits if_splits)
  then show ?thesis using scanNode_good [of o' r "path_Base absp" apath k absp st, unfolded good_def] by blast
qed

lemma rename_sel [simp]:
  "nd_Name (rename n x) = x" "nd_Kind (rename n x) = nd_Kind n" "nd_Stat (rename n x) = nd_Stat n"
  "nd_LinkTarget (rename n x) = nd_LinkTarget n" "nd_Children (rename n x) = nd_Children n"
  by (simp_all add: rename_def)

lemma preorder_rename: "links_step o' s s' (preorder (rename n x) p) \<longleftrightarrow> links_step o' s s' (preorder n p)"
  by (simp add: preorder.simps [of n] preorder.simps [of "rename n x"] links_step_def link_source_def)

lemma scan_adds_links:
  "scan_adds am o' ads s = (s', Inr ns) \<Longrightarrow> map nd_Name ns = map ad_as ads \<and> links_step o' s s' (walk [] ns)"
proof (induction ads arbitrary: s ns)
  case Nil
  then show ?case by (simp add: links_step_same)
next
  case (Cons ad ads)
  obtain s1 n ns1 where n: "links_step o' s s1 (preorder n (ad_as ad))" "scan_adds am o' ads s1 = (s', Inr ns1)"
      "ns = rename n (ad_as ad) # ns1"
    using Cons.prems ScanDirectory_links ScanFile_links
    by (fastforce split: prod.splits sum.splits rootKind.splits)
  have "links_step o' s s1 (preorder (rename n (ad_as ad)) (ad_as ad))" using n(1) by (simp add: preorder_rename)
  from links_step_append [OF this] Cons.IH [OF n(2)] show ?case using n(3) by (simp add: joinArchive_def)
qed

lemma preorder_extend:
  assumes "links_ok {} (preorder root [])" "\<forall>n \<in> set ns. nd_Kind n = KindStream"
  shows "links_ok {} (preorder (with_children root (nd_Stat root) (nd_Children root @ ns)) [])"
proof -
  have w: "links_ok A (walk [] ns)" for A
    using assms(2) by (induction ns arbitrary: A) (auto simp: links_ok_append preorder_leaf link_source_def)
  show ?thesis using assms(1) w
    by (auto simp: preorder.simps [of root] preorder.simps [of "with_children root st cs" for st cs] links_ok_append link_source_def)
qed

lemma dropReserved_kept:
  assumes "dropReserved cs a = (a', kept)" "\<forall>k p. (k, p, ArReservedName) \<notin> set (ar_warns a')"
  shows "kept = cs \<and> a' = a"
proof -
  have "(\<exists>k p. (k, p, ArReservedName) \<in> set (ar_warns (fold (\<lambda>c a. ar_warn a WarnSkipped (nd_Path c) ArReservedName) ds a)))" if ne: "ds \<noteq> []" for ds a
  proof -
    obtain c es where "ds = es @ [c]" using ne by (cases ds rule: rev_cases) auto
    then show ?thesis by (auto simp: ar_warn_def)
  qed
  note w = this
  have e: "filter (\<lambda>c. nd_Name c = pxarExcludeCLIName) cs = []"
  proof (rule ccontr)
    assume "filter (\<lambda>c. nd_Name c = pxarExcludeCLIName) cs \<noteq> []"
    from w [OF this, of a] show False using assms unfolding dropReserved_def by blast
  qed
  then have "filter (\<lambda>c. nd_Name c \<noteq> pxarExcludeCLIName) cs = cs" by (simp add: filter_empty_conv filter_id_conv)
  then show ?thesis using assms(1) e by (simp add: dropReserved_def)
qed

lemma scanRoots_links:
  assumes "\<not> so_SkipOnError (ao_Scan (ar_opts a))" "ar_streams a = []" "ar_trees a = []"
    "sorted_wrt (<) (map ad_as (ar_adds a))" "scanRoots am a = (a', Inr root)"
  shows "links_ok {} (preorder root [])"
proof -
  let ?o = "ao_Scan (ar_opts a)"
  obtain s where s: "NewScanner ?o = Inr s" using assms(5) by (auto simp: scanRoots_def split: if_splits sum.splits)
  have h: "ss_hardlinks s = Map.empty" using NewScanner_fresh [OF s] by simp
  show ?thesis
  proof (cases "length (ar_adds a) = 1 \<and> ad_kind (hd (ar_adds a)) = addDir")
    case True
    then have "ar_adds a \<noteq> []" by auto
    then obtain s' where "ScanDirectory ?o (am_Reader am) (am_depth am) (ad_path (hd (ar_adds a))) [] s = (s', Inr root)"
      using assms(2,3,5) s True by (auto simp: scanRoots_def split: prod.splits sum.splits)
    from ScanDirectory_links [OF this] show ?thesis using assms(1) h by (simp add: links_step_def)
  next
    case False
    then obtain s' ns r st where ns: "scan_adds am ?o (ar_adds a) s = (s', Inr ns)" "VirtualRoot (ao_Name (ar_opts a)) ns = Inr r"
        "root = with_children r st (nd_Children r)"
      using assms(2,3,5) s by (auto simp: scanRoots_def split: prod.splits sum.splits if_splits)
    note l = scan_adds_links [OF ns(1)]
    have r: "nd_Kind r = KindDirectory" "nd_Children r = sort_key nd_Name ns"
      using ns(2) by (auto simp: VirtualRoot_def split: option.splits)
    have "sort_key nd_Name ns = ns" using l assms(4) by (metis sort_key_id_if_sorted strict_sorted_iff)
    then have "preorder root [] = (root, []) # walk [] ns"
      unfolding preorder.simps [of root] using ns(3) r by simp
    then show ?thesis using l assms(1) h ns(3) r by (simp add: links_step_def link_source_def)
  qed
qed

text \<open>
  C20: Hardlinks across roots, when they resolve.  When entries are not skipped on errors, no entry was dropped
  for the reserved name, and the queued roots were added in ascending order of their names, every
  hardlink of the built tree, within a root and across roots, names a file before it.
\<close>

theorem ascending_roots_resolve:
  assumes "\<not> so_SkipOnError (ao_Scan (ar_opts a))" "ar_streams a = []" "ar_trees a = []"
    "sorted_wrt (<) (map ad_as (ar_adds a))"
    "buildTree am v2 a = (a', Some (Inr root))" "\<forall>k p. (k, p, ArReservedName) \<notin> set (ar_warns a')"
  shows "links_ok {} (preorder root [])"
proof -
  obtain a1 r where r: "scanRoots am a = (a1, Inr r)" using assms(5) by (auto simp: buildTree_def split: prod.splits sum.splits)
  obtain a2 kept where k: "dropReserved (nd_Children r) a1 = (a2, kept)" by fastforce
  have a2: "a' = a2" using assms(5) r k by (auto simp: buildTree_def split: option.splits if_splits)
  have kept: "kept = nd_Children r" using dropReserved_kept [OF k] assms(6) a2 by simp
  have c: "nd_Kind n = KindStream" if "cliPatternNode am pats = Some n" for pats n
    using that by (auto simp: cliPatternNode_def StreamNode_def split: option.splits if_splits sum.splits)
  have "root = with_children r (nd_Stat r) (nd_Children r @ []) \<or>
      (\<exists>pats n. cliPatternNode am pats = Some n \<and> root = with_children r (nd_Stat r) (nd_Children r @ [n]))"
    using assms(5) r k kept by (auto simp: buildTree_def split: option.splits if_splits)
  then obtain ns where "\<forall>n \<in> set ns. nd_Kind n = KindStream" "root = with_children r (nd_Stat r) (nd_Children r @ ns)"
    using c by (metis empty_iff empty_set set_ConsD)
  then show ?thesis using preorder_extend [OF scanRoots_links [OF assms(1-4) r]] by blast
qed


definition demo_ambient :: ambient where
  "demo_ambient = \<lparr> am_Stat = (\<lambda>p. Inr (p = str ''/r'')), am_Lstat = (\<lambda>p. Inr (p = str ''/r'')),
     am_open = (\<lambda>p. Inr \<lparr> of_reader = [], of_stat = Inr (0, 0, 0), of_restat = Inr (0, 0, 0) \<rparr>),
     am_Reader = demo_fs, am_depth = 1, am_now = (0, 0), am_ids = (0, 0), am_Hash = (\<lambda>n. len64 n), am_over = (\<lambda>a b. False) \<rparr>"

definition two_files :: "bytes \<Rightarrow> bytes \<Rightarrow> Archive" where
  "two_files p q = fst (AddFiles demo_ambient [p, q] demo_archive)"

theorem ascending_roots_resolve_witness:
  "\<exists>a' root. buildTree demo_ambient False (two_files (str ''/r/a'') (str ''/r/z'')) = (a', Some (Inr root)) \<and>
     links_ok {} (preorder root []) \<and> length (preorder root []) = 3"
proof -
  let ?a = "two_files (str ''/r/a'') (str ''/r/z'')"
  let ?b = "buildTree demo_ambient False ?a"
  have b: "case snd ?b of Some (Inr root) \<Rightarrow> length (preorder root []) = 3 | _ \<Rightarrow> False"
      and w: "map (snd \<circ> snd) (ar_warns (fst ?b)) = []" by code_simp+
  then obtain root where root: "?b = (fst ?b, Some (Inr root))" "length (preorder root []) = 3"
    by (auto split: option.splits sum.splits simp: prod_eq_iff)
  have h: "\<not> so_SkipOnError (ao_Scan (ar_opts ?a))" "ar_streams ?a = []" "ar_trees ?a = []"
    "sorted_wrt (<) (map ad_as (ar_adds ?a))" by code_simp+
  have "links_ok {} (preorder root [])"
    by (rule ascending_roots_resolve [OF h root(1)]) (use w in simp)
  then show ?thesis using root by blast
qed

text \<open>
  An example of roots in descending order: queued the other way round the same two files fail. The scan sees \<^verbatim>\<open>z\<close> first and makes \<^verbatim>\<open>a\<close> a hardlink to
  it, but the virtual root is sorted, so \<^verbatim>\<open>a\<close> is emitted first and generation ends with an unresolved
  hardlink.
\<close>

lemma cross_root_hardlink_fails:
  "\<exists>out. snd (GenerateV1 demo_ambient None None (two_files (str ''/r/z'') (str ''/r/a''))) =
     Some (Inr (out, Some (EmHardlink (str ''a'') (str ''z''))))"
proof -
  have "(case snd (GenerateV1 demo_ambient None None (two_files (str ''/r/z'') (str ''/r/a''))) of
      Some (Inr (out, e)) \<Rightarrow> e = Some (EmHardlink (str ''a'') (str ''z'')) | _ \<Rightarrow> False)"
    by code_simp
  then show ?thesis by (auto split: option.splits sum.splits)
qed

end
