(* ===== verification/Async.thy ===== *)
theory Async
  imports Payload
begin

unbundle bit_operations_syntax

text \<open>
  The asynchronous payload source, \<^verbatim>\<open>src/archive/async.go\<close>, as a transition system: a dispatcher that
  binds payloads in plan order, workers that read them into budgeted buffers, and the emitter that
  drains them in the same order.  Every rule is one goroutine's step between two synchronisations
  (a channel operation or the budget's lock); a \<open>select\<close> with \<open>ctx.Done()\<close> is two rules.

  Payloads are numbered by their place in the plan; \<open>plan\<close> is what opening them returns, in that order.
  The workers are alike, so the state counts the idle ones and keeps a running job with its payload.
  The emitter is the part of \<^verbatim>\<open>src/archive/emit.go\<close> that uses the source: it opens the next payload,
  writes its header, drains its chunks and closes it.  A stream node without a reader, which the
  builder refuses, is read as an empty one.
\<close>

subsection \<open>State\<close>

record job =
  jb_rd :: "string rd"
  jb_from :: nat
  jb_rem :: nat
  jb_pad :: bool

definition job_of :: "payload \<Rightarrow> job" where
  "job_of p =
     \<lparr> jb_rd = (case p of FilePayload n f sz mtime \<Rightarrow> of_reader f
                | StreamPayload n \<Rightarrow> (case nd_Stream n of None \<Rightarrow> [] | Some r \<Rightarrow> r)),
       jb_from = 0, jb_rem = nat (sint (payload_Size p)), jb_pad = False \<rparr>"

text \<open>Where a worker is in \<open>read\<close>: before \<open>take\<close>, with a buffer, or sending a filled one.\<close>

datatype wpc = WTake | WRead | WSend bytes "string rstat"

datatype pst =
    PNew
  | PFailed emit_error
  | PQueued job
  | PRun wpc job
  | PDone "emit_error option"

datatype dpc = DWindow | DDeliver | DWork | DDone

datatype stop = Finished | Failed emit_error | Mismatch

datatype epc = EIdle | EHead nat | EDrain nat | EWrite nat bytes | EStop stop

record async =
  sy_pay :: "nat \<Rightarrow> pst"
  sy_chan :: "nat \<Rightarrow> bytes list"
  sy_next :: nat
  sy_dpc :: dpc
  sy_window :: nat
  sy_delivery :: "nat list"
  sy_work :: "nat list"
  sy_bound :: "i64 list"
  sy_idle :: nat
  sy_exited :: nat
  sy_avail :: int
  sy_head :: "nat option"
  sy_emit :: epc
  sy_done :: nat
  sy_out :: bytes
  sy_cancel :: bool

definition budget_chunks :: "i64 \<Rightarrow> int" where
  "budget_chunks budgetBytes =
     (let b = (if sint budgetBytes \<le> 0 then 2 ^ 26 else sint budgetBytes) in max 2 (b div int copyChunk))"

definition window_size :: "nat \<Rightarrow> nat" where
  "window_size workers = max 8 (2 * workers)"

definition newAsyncSource :: "nat \<Rightarrow> i64 \<Rightarrow> async" where
  "newAsyncSource workers budgetBytes =
     \<lparr> sy_pay = (\<lambda>_. PNew), sy_chan = (\<lambda>_. []), sy_next = 0, sy_dpc = DWindow, sy_window = 0, sy_delivery = [],
       sy_work = [], sy_bound = [], sy_idle = workers, sy_exited = 0, sy_avail = budget_chunks budgetBytes,
       sy_head = None, sy_emit = EIdle, sy_done = 0, sy_out = [], sy_cancel = False \<rparr>"

subsection \<open>Steps\<close>

definition bind_pst :: "emit_error + payload \<Rightarrow> pst" where
  "bind_pst x = (case x of Inl e \<Rightarrow> PFailed e | Inr p \<Rightarrow> PQueued (job_of p))"

text \<open>\<open>onBind\<close>: the size, 0 for a payload that did not open.\<close>

definition bind_size :: "emit_error + payload \<Rightarrow> i64" where
  "bind_size x = (case x of Inl e \<Rightarrow> 0 | Inr p \<Rightarrow> payload_Size p)"

text \<open>After the result of a \<open>Read\<close> has been sent, or its empty buffer put back.\<close>

definition after_read :: "job \<Rightarrow> string rstat \<Rightarrow> pst" where
  "after_read j s =
     (case s of
        ROk \<Rightarrow> PRun WTake j
      | REof \<Rightarrow> PRun WTake (j\<lparr> jb_pad := True \<rparr>)
      | RErr e \<Rightarrow> PDone (Some (EmReadPayload e)))"

definition sent :: "job \<Rightarrow> bytes \<Rightarrow> job" where
  "sent j bs = j\<lparr> jb_from := jb_from j + length bs, jb_rem := jb_rem j - length bs \<rparr>"

text \<open>A job that ends gives its worker back.\<close>

definition freed :: "pst \<Rightarrow> nat" where
  "freed p = (case p of PDone _ \<Rightarrow> 1 | _ \<Rightarrow> 0)"

inductive astep :: "(emit_error + payload) list \<Rightarrow> nat \<Rightarrow> async \<Rightarrow> async \<Rightarrow> bool" for plan W where
  d_window: "sy_dpc s = DWindow \<Longrightarrow> sy_next s < length plan \<Longrightarrow> sy_window s < W \<Longrightarrow>
     astep plan W s (s\<lparr> sy_window := sy_window s + 1, sy_dpc := DDeliver,
       sy_pay := (sy_pay s)(sy_next s := bind_pst (plan ! sy_next s)),
       sy_bound := sy_bound s @ [bind_size (plan ! sy_next s)] \<rparr>)"
| d_deliver: "sy_dpc s = DDeliver \<Longrightarrow> length (sy_delivery s) < W \<Longrightarrow> sy_pay s (sy_next s) = PQueued j \<Longrightarrow>
     astep plan W s (s\<lparr> sy_delivery := sy_delivery s @ [sy_next s], sy_dpc := DWork \<rparr>)"
| d_deliver_failed: "sy_dpc s = DDeliver \<Longrightarrow> length (sy_delivery s) < W \<Longrightarrow> sy_pay s (sy_next s) = PFailed e \<Longrightarrow>
     astep plan W s (s\<lparr> sy_delivery := sy_delivery s @ [sy_next s], sy_next := sy_next s + 1, sy_dpc := DWindow \<rparr>)"
| d_work: "sy_dpc s = DWork \<Longrightarrow> length (sy_work s) < W \<Longrightarrow>
     astep plan W s (s\<lparr> sy_work := sy_work s @ [sy_next s], sy_next := sy_next s + 1, sy_dpc := DWindow \<rparr>)"
| d_done: "sy_dpc s = DWindow \<Longrightarrow> length plan \<le> sy_next s \<Longrightarrow> astep plan W s (s\<lparr> sy_dpc := DDone \<rparr>)"
| d_abort: "sy_cancel s \<Longrightarrow> sy_dpc s = DDeliver \<or> sy_dpc s = DWork \<or> (sy_dpc s = DWindow \<and> sy_next s < length plan) \<Longrightarrow>
     astep plan W s (s\<lparr> sy_dpc := DDone \<rparr>)"
| w_start: "0 < sy_idle s \<Longrightarrow> sy_work s = q # qs \<Longrightarrow> sy_pay s q = PQueued j \<Longrightarrow>
     astep plan W s (s\<lparr> sy_work := qs, sy_idle := sy_idle s - 1, sy_pay := (sy_pay s)(q := PRun WTake j) \<rparr>)"
| w_exit: "0 < sy_idle s \<Longrightarrow> sy_work s = [] \<Longrightarrow> sy_dpc s = DDone \<Longrightarrow>
     astep plan W s (s\<lparr> sy_idle := sy_idle s - 1, sy_exited := sy_exited s + 1 \<rparr>)"
| w_take: "sy_pay s q = PRun WTake j \<Longrightarrow> 0 < jb_rem j \<Longrightarrow> \<not> sy_cancel s \<Longrightarrow> 1 \<le> sy_avail s \<or> sy_head s = Some q \<Longrightarrow>
     astep plan W s (s\<lparr> sy_avail := sy_avail s - 1, sy_pay := (sy_pay s)(q := PRun WRead j) \<rparr>)"
| w_take_abort: "sy_pay s q = PRun WTake j \<Longrightarrow> 0 < jb_rem j \<Longrightarrow> sy_cancel s \<Longrightarrow>
     astep plan W s (s\<lparr> sy_pay := (sy_pay s)(q := PDone (Some EmCanceled)), sy_idle := sy_idle s + 1 \<rparr>)"
| w_finish: "sy_pay s q = PRun WTake j \<Longrightarrow> jb_rem j = 0 \<Longrightarrow>
     astep plan W s (s\<lparr> sy_pay := (sy_pay s)(q := PDone None), sy_idle := sy_idle s + 1 \<rparr>)"
| w_pad: "sy_pay s q = PRun WRead j \<Longrightarrow> jb_pad j \<Longrightarrow>
     astep plan W s (s\<lparr> sy_pay := (sy_pay s)(q := PRun (WSend (replicate (min (jb_rem j) copyChunk) 0) ROk) j) \<rparr>)"
| w_read: "sy_pay s q = PRun WRead j \<Longrightarrow> \<not> jb_pad j \<Longrightarrow>
     rd_read (jb_rd j) (min (jb_rem j) copyChunk) = (bs, st, r) \<Longrightarrow> bs \<noteq> [] \<Longrightarrow>
     astep plan W s (s\<lparr> sy_pay := (sy_pay s)(q := PRun (WSend bs st) (j\<lparr> jb_rd := r \<rparr>)) \<rparr>)"
| w_read_none: "sy_pay s q = PRun WRead j \<Longrightarrow> \<not> jb_pad j \<Longrightarrow>
     rd_read (jb_rd j) (min (jb_rem j) copyChunk) = ([], st, r) \<Longrightarrow> p = after_read (j\<lparr> jb_rd := r \<rparr>) st \<Longrightarrow>
     astep plan W s (s\<lparr> sy_pay := (sy_pay s)(q := p), sy_avail := sy_avail s + 1, sy_idle := sy_idle s + freed p \<rparr>)"
| w_send: "sy_pay s q = PRun (WSend bs st) j \<Longrightarrow> length (sy_chan s q) < 2 \<Longrightarrow> p = after_read (sent j bs) st \<Longrightarrow>
     astep plan W s (s\<lparr> sy_chan := (sy_chan s)(q := sy_chan s q @ [bs]), sy_pay := (sy_pay s)(q := p),
       sy_idle := sy_idle s + freed p \<rparr>)"
| w_send_abort: "sy_pay s q = PRun (WSend bs st) j \<Longrightarrow> sy_cancel s \<Longrightarrow>
     astep plan W s (s\<lparr> sy_avail := sy_avail s + 1, sy_pay := (sy_pay s)(q := PDone (Some EmCanceled)), sy_idle := sy_idle s + 1 \<rparr>)"
| e_open: "sy_emit s = EIdle \<Longrightarrow> sy_done s < length plan \<Longrightarrow> sy_delivery s = q # qs \<Longrightarrow> q = sy_done s \<Longrightarrow> (\<And>e. sy_pay s q \<noteq> PFailed e) \<Longrightarrow>
     astep plan W s (s\<lparr> sy_delivery := qs, sy_head := Some q, sy_emit := EHead q \<rparr>)"
| e_open_failed: "sy_emit s = EIdle \<Longrightarrow> sy_done s < length plan \<Longrightarrow> sy_delivery s = q # qs \<Longrightarrow> q = sy_done s \<Longrightarrow> sy_pay s q = PFailed e \<Longrightarrow>
     astep plan W s (s\<lparr> sy_delivery := qs, sy_window := sy_window s - 1, sy_emit := EStop (Failed e), sy_cancel := True \<rparr>)"
| e_open_mismatch: "sy_emit s = EIdle \<Longrightarrow> sy_done s < length plan \<Longrightarrow> sy_delivery s = q # qs \<Longrightarrow> q \<noteq> sy_done s \<Longrightarrow>
     astep plan W s (s\<lparr> sy_delivery := qs, sy_emit := EStop Mismatch, sy_cancel := True \<rparr>)"
| e_open_abort: "sy_emit s = EIdle \<Longrightarrow> sy_done s < length plan \<Longrightarrow> sy_cancel s \<Longrightarrow>
     astep plan W s (s\<lparr> sy_emit := EStop (Failed EmCanceled) \<rparr>)"
| e_header: "sy_emit s = EHead q \<Longrightarrow> astep plan W s (s\<lparr> sy_emit := EDrain q \<rparr>)"
| e_recv: "sy_emit s = EDrain q \<Longrightarrow> sy_chan s q = c # cs \<Longrightarrow>
     astep plan W s (s\<lparr> sy_chan := (sy_chan s)(q := cs), sy_emit := EWrite q c \<rparr>)"
| e_write: "sy_emit s = EWrite q c \<Longrightarrow>
     astep plan W s (s\<lparr> sy_out := sy_out s @ c, sy_avail := sy_avail s + 1, sy_emit := EDrain q \<rparr>)"
| e_close: "sy_emit s = EDrain q \<Longrightarrow> sy_chan s q = [] \<Longrightarrow> sy_pay s q = PDone None \<Longrightarrow>
     astep plan W s (s\<lparr> sy_window := sy_window s - 1, sy_done := sy_done s + 1, sy_emit := EIdle \<rparr>)"
| e_close_err: "sy_emit s = EDrain q \<Longrightarrow> sy_chan s q = [] \<Longrightarrow> sy_pay s q = PDone (Some e) \<Longrightarrow>
     astep plan W s (s\<lparr> sy_window := sy_window s - 1, sy_emit := EStop (Failed e), sy_cancel := True \<rparr>)"
| e_finish: "sy_emit s = EIdle \<Longrightarrow> length plan \<le> sy_done s \<Longrightarrow>
     astep plan W s (s\<lparr> sy_emit := EStop Finished, sy_cancel := True \<rparr>)"

text \<open>What the environment does: cancelling, and failing the emitter's writes.\<close>

inductive fault :: "async \<Rightarrow> async \<Rightarrow> bool" where
  f_cancel: "fault s (s\<lparr> sy_cancel := True \<rparr>)"
| f_header: "sy_emit s = EHead q \<Longrightarrow>
     fault s (s\<lparr> sy_window := sy_window s - 1, sy_emit := EStop (Failed e), sy_cancel := True \<rparr>)"
| f_write: "sy_emit s = EWrite q c \<Longrightarrow>
     fault s (s\<lparr> sy_avail := sy_avail s + 1, sy_window := sy_window s - 1, sy_emit := EStop (Failed e), sy_cancel := True \<rparr>)"

inductive reachable :: "(emit_error + payload) list \<Rightarrow> nat \<Rightarrow> i64 \<Rightarrow> async \<Rightarrow> bool" for plan workers budget where
  start: "reachable plan workers budget (newAsyncSource workers budget)"
| step: "reachable plan workers budget s \<Longrightarrow> astep plan (window_size workers) s s' \<Longrightarrow> reachable plan workers budget s'"
| fault: "reachable plan workers budget s \<Longrightarrow> fault s s' \<Longrightarrow> reachable plan workers budget s'"

end
