(* ===== verification/Transition.thy ===== *)
theory Transition
  imports Main
begin

text \<open>
  Transition systems whose runs end: an invariant, a measure that every step decreases, and progress
  in every state that is not final.  Then no run is infinite, a run that can go no further is at a
  final state, and from every state that satisfies the invariant a final state is reached.
\<close>

locale bounded_system =
  fixes step :: "'s \<Rightarrow> 's \<Rightarrow> bool" and inv :: "'s \<Rightarrow> bool" and fuel :: "'s \<Rightarrow> nat" and final :: "'s \<Rightarrow> bool"
  assumes inv_step: "inv s \<Longrightarrow> step s s' \<Longrightarrow> inv s'"
    and fuel_step: "inv s \<Longrightarrow> step s s' \<Longrightarrow> fuel s' < fuel s"
    and progress: "inv s \<Longrightarrow> \<not> final s \<Longrightarrow> \<exists>s'. step s s'"
begin

lemma inv_steps: "step\<^sup>*\<^sup>* s s' \<Longrightarrow> inv s \<Longrightarrow> inv s'"
  by (induction rule: rtranclp_induct) (auto intro: inv_step)

lemma stuck_final: "inv s \<Longrightarrow> step\<^sup>*\<^sup>* s s' \<Longrightarrow> (\<nexists>s''. step s' s'') \<Longrightarrow> final s'"
  using inv_steps progress by blast

lemma reaches_final:
  assumes "inv s"
  shows "\<exists>s'. step\<^sup>*\<^sup>* s s' \<and> final s'"
  using assms
proof (induction s rule: measure_induct_rule [of fuel])
  case (less s)
  show ?case
  proof (cases "final s")
    case False
    then obtain t where t: "step s t" using progress less.prems by blast
    then obtain s' where "step\<^sup>*\<^sup>* t s'" "final s'" using less inv_step fuel_step by blast
    then show ?thesis using t by (meson converse_rtranclp_into_rtranclp)
  qed blast
qed

lemma no_infinite_run:
  assumes "inv (f 0)" "\<And>k. step (f k) (f (Suc k))"
  shows False
proof -
  have i: "inv (f k)" for k by (induction k) (use assms inv_step in blast)+
  have "fuel (f k) + k \<le> fuel (f 0)" for k
  proof (induction k)
    case (Suc k)
    have "fuel (f (Suc k)) < fuel (f k)" using fuel_step [OF i assms(2)] .
    then show ?case using Suc by simp
  qed simp
  from this [of "Suc (fuel (f 0))"] show False by simp
qed

end

end
