(* ===== verification/Async_Live.thy ===== *)
theory Async_Live
  imports Async Transition
begin

text \<open>
  What the asynchronous source keeps, by induction over its runs, and that it makes progress.
\<close>

subsection \<open>Order\<close>

abbreviation queued :: "pst \<Rightarrow> bool" where
  "queued p \<equiv> (\<exists>j. p = PQueued j)"

abbreviation running :: "pst \<Rightarrow> bool" where
  "running p \<equiv> (\<exists>w j. p = PRun w j)"

abbreviation started :: "pst \<Rightarrow> bool" where
  "started p \<equiv> running p \<or> (\<exists>e. p = PDone e)"

text \<open>The dispatcher's side: what has been bound, what waits for a worker, and in which order.\<close>

definition queue_inv :: "nat \<Rightarrow> async \<Rightarrow> bool" where
  "queue_inv n s \<longleftrightarrow>
     sy_next s \<le> n \<and>
     (\<forall>i. sy_next s < i \<or> (i = sy_next s \<and> sy_dpc s = DWindow) \<longrightarrow> sy_pay s i = PNew) \<and>
     (\<forall>i < sy_next s. sy_pay s i \<noteq> PNew) \<and>
     (sy_dpc s = DDeliver \<longrightarrow> sy_next s < n \<and> (queued (sy_pay s (sy_next s)) \<or> (\<exists>e. sy_pay s (sy_next s) = PFailed e))) \<and>
     (sy_dpc s = DWork \<longrightarrow> sy_next s < n \<and> queued (sy_pay s (sy_next s))) \<and>
     (sy_dpc s = DDone \<longrightarrow> \<not> started (sy_pay s (sy_next s))) \<and>
     (sy_dpc s = DDone \<and> \<not> sy_cancel s \<longrightarrow> sy_next s = n) \<and>
     sy_work s = filter (\<lambda>i. queued (sy_pay s i)) [0..<sy_next s] \<and>
     (\<forall>i k. i < k \<longrightarrow> i < sy_next s \<longrightarrow> queued (sy_pay s i) \<longrightarrow> \<not> started (sy_pay s k))"

lemma filter_head:
  assumes "filter P xs = q # qs" "distinct xs" "P' q = False" "\<And>x. x \<noteq> q \<Longrightarrow> P' x = P x"
  shows "filter P' xs = qs"
  using assms
proof (induction xs)
  case (Cons x xs)
  show ?case
  proof (cases "P x")
    case True
    then have x: "x = q" "filter P xs = qs" using Cons.prems(1) by simp_all
    have "filter P' xs = filter P xs"
    proof (rule filter_cong [OF refl])
      fix y assume "y \<in> set xs"
      then have "y \<noteq> q" using Cons.prems(2) x(1) by auto
      then show "P' y = P y" by (rule Cons.prems(4))
    qed
    then show ?thesis using x Cons.prems(3) by simp
  next
    case False
    then have ne: "x \<noteq> q" using Cons.prems(1) by (metis filter.simps(2) filter_eq_Cons_iff)
    then show ?thesis using Cons.prems(1,2) False Cons.prems(4) [OF ne] Cons.IH [OF _ _ Cons.prems(3,4)] by simp
  qed
qed simp

lemma filter_upt_head: "filter P [0..<n] = q # qs \<Longrightarrow> P q \<and> q < n \<and> (\<forall>i < q. \<not> P i)"
proof (induction n arbitrary: qs)
  case (Suc n)
  show ?case
  proof (cases "filter P [0..<n]")
    case Nil
    then have "q = n" "P n" using Suc.prems by (auto split: if_splits)
    then show ?thesis using Nil by (auto simp: filter_empty_conv)
  next
    case (Cons a as)
    then have "a = q" using Suc.prems by (auto split: if_splits)
    then show ?thesis using Suc.IH [of as] Cons by auto
  qed
qed simp

lemma started_less: "queue_inv n s \<Longrightarrow> started (sy_pay s q) \<Longrightarrow> q < sy_next s"
proof (rule ccontr)
  assume inv: "queue_inv n s" and st: "started (sy_pay s q)" and "\<not> q < sy_next s"
  then consider "sy_next s < q" | "q = sy_next s" by linarith
  then show False
  proof cases
    case 1
    then have "sy_pay s q = PNew" using inv unfolding queue_inv_def by blast
    then show False using st by simp
  next
    case 2
    then show False using inv st unfolding queue_inv_def by (cases "sy_dpc s") auto
  qed
qed

lemma queue_inv_pay:
  assumes inv: "queue_inv n s" and q: "started (sy_pay s q)" "started p"
    and s': "sy_pay s' = (sy_pay s)(q := p)" "sy_next s' = sy_next s" "sy_dpc s' = sy_dpc s" "sy_work s' = sy_work s"
      "sy_cancel s \<longrightarrow> sy_cancel s'"
  shows "queue_inv n s'"
proof -
  have lt: "q < sy_next s" using started_less [OF inv q(1)] .
  have same: "queued (sy_pay s' i) \<longleftrightarrow> queued (sy_pay s i)" "started (sy_pay s' i) \<longleftrightarrow> started (sy_pay s i)"
      "sy_pay s' i = PNew \<longleftrightarrow> sy_pay s i = PNew" for i
    using q by (auto simp: s'(1))
  have "sy_pay s' i = sy_pay s i" if "sy_next s \<le> i" for i using lt that by (auto simp: s'(1))
  then show ?thesis using inv s'(2-5) unfolding queue_inv_def same by auto
qed

lemma queue_inv_same:
  assumes "queue_inv n s" "sy_pay s' = sy_pay s" "sy_next s' = sy_next s" "sy_dpc s' = sy_dpc s" "sy_work s' = sy_work s"
    "sy_cancel s \<longrightarrow> sy_cancel s'"
  shows "queue_inv n s'"
  using assms unfolding queue_inv_def by auto

lemma started_after [simp]: "started (after_read j st)"
  by (cases st) (auto simp: after_read_def)

lemma queue_inv_step:
  assumes "astep plan W s s'" "queue_inv (length plan) s"
  shows "queue_inv (length plan) s'"
  using assms
proof (induction rule: astep.induct)
  case (d_window s)
  have f: "filter (\<lambda>i. queued (if i = sy_next s then x else sy_pay s i)) [0..<sy_next s] = filter (\<lambda>i. queued (sy_pay s i)) [0..<sy_next s]" for x
    by (intro filter_cong) auto
  show ?case using d_window unfolding queue_inv_def by (auto simp: f bind_pst_def split: sum.splits)
next
  case (d_deliver s j)
  then show ?case unfolding queue_inv_def by auto
next
  case (d_deliver_failed s e)
  then show ?case unfolding queue_inv_def by (auto simp: less_Suc_eq)
next
  case (d_work s)
  then show ?case unfolding queue_inv_def by (auto simp: less_Suc_eq)
next
  case (d_done s)
  then show ?case unfolding queue_inv_def by auto
next
  case (d_abort s)
  then show ?case unfolding queue_inv_def by auto
next
  case (w_start s q qs j)
  have w: "filter (\<lambda>i. queued (sy_pay s i)) [0..<sy_next s] = q # qs"
    using w_start(2,4) unfolding queue_inv_def by simp
  note q = filter_upt_head [OF w]
  have "filter (\<lambda>i. queued (((sy_pay s)(q := PRun WTake j)) i)) [0..<sy_next s] = qs"
    by (rule filter_head [OF w]) simp_all
  then show ?case using w_start q unfolding queue_inv_def by auto
next
  case (w_take s q j)
  show ?case by (rule queue_inv_pay [where q = q and p = "PRun WRead j", OF w_take.prems]) (use w_take in simp_all)
next
  case (w_take_abort s q j)
  show ?case by (rule queue_inv_pay [where q = q and p = "PDone (Some EmCanceled)", OF w_take_abort.prems]) (use w_take_abort in simp_all)
next
  case (w_finish s q j)
  show ?case by (rule queue_inv_pay [where q = q and p = "PDone None", OF w_finish.prems]) (use w_finish in simp_all)
next
  case (w_pad s q j)
  show ?case by (rule queue_inv_pay [where q = q and p = "PRun (WSend (replicate (min (jb_rem j) copyChunk) 0) ROk) j", OF w_pad.prems]) (use w_pad in simp_all)
next
  case (w_read s q j bs st r)
  show ?case by (rule queue_inv_pay [where q = q and p = "PRun (WSend bs st) (j\<lparr> jb_rd := r \<rparr>)", OF w_read.prems]) (use w_read in simp_all)
next
  case (w_read_none s q j st r p)
  show ?case by (rule queue_inv_pay [where q = q and p = "p", OF w_read_none.prems]) (use w_read_none in simp_all)
next
  case (w_send s q bs st j p)
  show ?case by (rule queue_inv_pay [where q = q and p = "p", OF w_send.prems]) (use w_send in simp_all)
next
  case (w_send_abort s q bs st j)
  show ?case by (rule queue_inv_pay [where q = q and p = "PDone (Some EmCanceled)", OF w_send_abort.prems]) (use w_send_abort in simp_all)
qed (simp_all add: queue_inv_def)

text \<open>The emitter's side: it drains in plan order exactly what has been delivered.\<close>

fun ahead :: "epc \<Rightarrow> nat" where
  "ahead EIdle = 0"
| "ahead _ = 1"

fun at_payload :: "epc \<Rightarrow> nat option" where
  "at_payload (EHead q) = Some q"
| "at_payload (EDrain q) = Some q"
| "at_payload (EWrite q c) = Some q"
| "at_payload _ = None"

abbreviation stopped :: "async \<Rightarrow> bool" where
  "stopped s \<equiv> (\<exists>x. sy_emit s = EStop x)"

definition delivered_to :: "async \<Rightarrow> nat \<Rightarrow> bool" where
  "delivered_to s m \<longleftrightarrow>
     (sy_dpc s = DWork \<longrightarrow> m = sy_next s + 1) \<and>
     (sy_dpc s \<noteq> DWork \<longrightarrow> m = sy_next s \<or> (sy_dpc s = DDone \<and> sy_cancel s \<and> m = sy_next s + 1))"

definition emit_inv :: "nat \<Rightarrow> async \<Rightarrow> bool" where
  "emit_inv n s \<longleftrightarrow>
     (stopped s \<longrightarrow> sy_cancel s) \<and> sy_emit s \<noteq> EStop Mismatch \<and> sy_done s \<le> n \<and>
     (\<forall>i < sy_done s. sy_pay s i = PDone None \<and> sy_chan s i = []) \<and>
     (\<forall>q. at_payload (sy_emit s) = Some q \<longrightarrow>
        q = sy_done s \<and> q < n \<and> sy_head s = Some q \<and> sy_pay s q \<noteq> PNew \<and> (\<forall>e. sy_pay s q \<noteq> PFailed e)) \<and>
     (sy_emit s = EIdle \<longrightarrow> (\<forall>h. sy_head s = Some h \<longrightarrow> h < sy_done s)) \<and>
     (\<not> stopped s \<longrightarrow> (\<exists>m. delivered_to s m \<and> sy_done s + ahead (sy_emit s) \<le> m \<and>
        sy_delivery s = [sy_done s + ahead (sy_emit s)..<m] \<and> (\<forall>i < m. sy_pay s i \<noteq> PNew))) \<and>
     (\<not> sy_cancel s \<longrightarrow> sy_window s + sy_done s = sy_next s + (if sy_dpc s = DDeliver \<or> sy_dpc s = DWork then 1 else 0))"

lemma emit_inv_pay:
  assumes inv: "emit_inv n s" and q: "started (sy_pay s q) \<or> queued (sy_pay s q)" "sy_pay s q \<noteq> PDone None" "started p"
    and s': "sy_pay s' = (sy_pay s)(q := p)" "\<forall>i. i \<noteq> q \<longrightarrow> sy_chan s' i = sy_chan s i" "sy_next s' = sy_next s" "sy_dpc s' = sy_dpc s"
      "sy_emit s' = sy_emit s" "sy_done s' = sy_done s" "sy_head s' = sy_head s" "sy_delivery s' = sy_delivery s"
      "sy_window s' = sy_window s" "sy_cancel s' = sy_cancel s"
  shows "emit_inv n s'"
proof -
  have same: "sy_pay s' i = PNew \<longleftrightarrow> sy_pay s i = PNew" "sy_pay s' i = PFailed e \<longleftrightarrow> sy_pay s i = PFailed e" for i e
    using q by (auto simp: s'(1))
  have "sy_pay s' i = PDone None \<and> sy_chan s' i = []" if "i < sy_done s" for i
  proof -
    have "sy_pay s i = PDone None" "sy_chan s i = []" using inv that by (simp_all add: emit_inv_def)
    then show ?thesis using q(2) s'(1,2) by auto
  qed
  then show ?thesis using inv unfolding emit_inv_def same delivered_to_def s'(3-) by auto
qed

lemma upt_eq_Cons: "[a..<b] = q # qs \<longleftrightarrow> a < b \<and> q = a \<and> qs = [Suc a..<b]"
  by (cases "a < b") (auto simp: upt_rec [of a b])

lemma emit_inv_step:
  assumes "astep plan W s s'" "queue_inv (length plan) s" "emit_inv (length plan) s"
  shows "emit_inv (length plan) s'"
  using assms
proof (induction rule: astep.induct)
  case (d_window s)
  have p: "sy_pay s (sy_next s) = PNew" using d_window by (auto simp: queue_inv_def)
  show ?case using d_window p unfolding emit_inv_def delivered_to_def
    by (auto simp: bind_pst_def split: sum.splits)
next
  case (d_deliver s j)
  then show ?case unfolding emit_inv_def delivered_to_def queue_inv_def by (auto simp: less_Suc_eq)
next
  case (d_deliver_failed s e)
  then show ?case unfolding emit_inv_def delivered_to_def queue_inv_def by (auto simp: less_Suc_eq)
next
  case (d_work s)
  from this(4) this(1,2) show ?case unfolding emit_inv_def delivered_to_def by auto
next
  case (d_done s)
  from this(4) this(1,2) show ?case unfolding emit_inv_def delivered_to_def by auto
next
  case (d_abort s)
  from this(4) this(1,2) show ?case unfolding emit_inv_def delivered_to_def by auto
next
  case (w_start s q qs j)
  show ?case by (rule emit_inv_pay [where q = q and p = "PRun WTake j", OF w_start.prems(2)]) (use w_start in simp_all)
next
  case (w_take s q j)
  show ?case by (rule emit_inv_pay [where q = q and p = "PRun WRead j", OF w_take.prems(2)]) (use w_take in simp_all)
next
  case (w_take_abort s q j)
  show ?case by (rule emit_inv_pay [where q = q and p = "PDone (Some EmCanceled)", OF w_take_abort.prems(2)]) (use w_take_abort in simp_all)
next
  case (w_finish s q j)
  show ?case by (rule emit_inv_pay [where q = q and p = "PDone None", OF w_finish.prems(2)]) (use w_finish in simp_all)
next
  case (w_pad s q j)
  show ?case by (rule emit_inv_pay [where q = q and p = "PRun (WSend (replicate (min (jb_rem j) copyChunk) 0) ROk) j", OF w_pad.prems(2)]) (use w_pad in simp_all)
next
  case (w_read s q j bs st r)
  show ?case by (rule emit_inv_pay [where q = q and p = "PRun (WSend bs st) (j\<lparr> jb_rd := r \<rparr>)", OF w_read.prems(2)]) (use w_read in simp_all)
next
  case (w_read_none s q j st r p)
  show ?case by (rule emit_inv_pay [where q = q and p = "p", OF w_read_none.prems(2)]) (use w_read_none in simp_all)
next
  case (w_send s q bs st j p)
  show ?case by (rule emit_inv_pay [where q = q and p = "p", OF w_send.prems(2)]) (use w_send in simp_all)
next
  case (w_send_abort s q bs st j)
  show ?case by (rule emit_inv_pay [where q = q and p = "PDone (Some EmCanceled)", OF w_send_abort.prems(2)]) (use w_send_abort in simp_all)
next
  case (e_open s q qs)
  obtain m where m: "delivered_to s m" "sy_delivery s = [sy_done s..<m]" "\<forall>i < m. sy_pay s i \<noteq> PNew"
    using e_open(1,7) unfolding emit_inv_def by auto
  have "delivered_to (s\<lparr> sy_delivery := qs, sy_head := Some q, sy_emit := EHead q \<rparr>) m"
    using m(1) by (simp add: delivered_to_def)
  moreover have "sy_done s < m" "qs = [Suc (sy_done s)..<m]" using e_open(3) m(2) upt_eq_Cons by metis+
  ultimately show ?case using e_open(1,2,4,5,7) m(3) unfolding emit_inv_def by auto
next
  case (e_open_failed s q qs e)
  then show ?case unfolding emit_inv_def by auto
next
  case (e_open_mismatch s q qs)
  obtain m where "sy_delivery s = [sy_done s..<m]" using e_open_mismatch(1,6) unfolding emit_inv_def by auto
  then have "q = sy_done s" using e_open_mismatch(3) upt_eq_Cons by metis
  then show ?case using e_open_mismatch(4) by simp
next
  case (e_recv s q c cs)
  then show ?case unfolding emit_inv_def delivered_to_def by auto
next
  case (e_close s q)
  then show ?case unfolding emit_inv_def delivered_to_def by (auto simp: less_Suc_eq)
qed (auto simp: emit_inv_def delivered_to_def)


subsection \<open>Counts\<close>

lemma sum_upd:
  fixes g :: "'a \<Rightarrow> nat" and n :: nat
  assumes "q < n"
  shows "(\<Sum>i<n. g ((f(q := x)) i)) + g (f q) = (\<Sum>i<n. g (f i)) + g x"
proof -
  have "(\<Sum>i<n. g ((f(q := x)) i)) = g x + (\<Sum>i \<in> {..<n} - {q}. g (f i))"
    using assms by (subst sum.remove [of "{..<n}" q]) (auto intro!: sum.cong)
  moreover have "(\<Sum>i<n. g (f i)) = g (f q) + (\<Sum>i \<in> {..<n} - {q}. g (f i))"
    using assms by (subst sum.remove [of "{..<n}" q]) auto
  ultimately show ?thesis by simp
qed

definition busy :: "pst \<Rightarrow> nat" where
  "busy p = (case p of PRun _ _ \<Rightarrow> 1 | _ \<Rightarrow> 0)"

lemma busy_simps [simp]: "busy PNew = 0" "busy (PFailed e) = 0" "busy (PQueued j) = 0" "busy (PRun w j) = 1" "busy (PDone e') = 0"
  by (simp_all add: busy_def)

text \<open>No worker is lost.\<close>

definition worker_inv :: "nat \<Rightarrow> nat \<Rightarrow> async \<Rightarrow> bool" where
  "worker_inv n K s \<longleftrightarrow> sy_idle s + sy_exited s + (\<Sum>i<n. busy (sy_pay s i)) = K \<and>
     (0 < sy_exited s \<longrightarrow> sy_dpc s = DDone \<and> sy_work s = [])"

lemma busy_upd: "q < n \<Longrightarrow> (\<Sum>i<n. busy (((f :: nat \<Rightarrow> pst)(q := p)) i)) + busy (f q) = (\<Sum>i<n. busy (f i)) + busy p"
  by (rule sum_upd)

lemma busy_after: "busy (after_read j st) + freed (after_read j st) = 1"
  by (cases st) (simp_all add: after_read_def freed_def)

lemma running_less: "queue_inv n s \<Longrightarrow> sy_pay s q = PRun w j \<Longrightarrow> q < n"
  using started_less [of n s q] by (auto simp: queue_inv_def)

lemma worker_inv_pay:
  assumes "queue_inv n s" "worker_inv n K s" "sy_pay s q = PRun w j"
    "sy_pay s' = (sy_pay s)(q := p)" "sy_idle s' + busy p = sy_idle s + 1"
    "sy_exited s' = sy_exited s" "sy_dpc s' = sy_dpc s" "sy_work s' = sy_work s"
  shows "worker_inv n K s'"
  using busy_upd [OF running_less [OF assms(1,3)], of "sy_pay s" p] assms by (auto simp: worker_inv_def)

lemma worker_inv_step:
  assumes "astep plan W s s'" "queue_inv (length plan) s" "worker_inv (length plan) K s"
  shows "worker_inv (length plan) K s'"
  using assms
proof (induction rule: astep.induct)
  case (d_window s)
  have p: "sy_pay s (sy_next s) = PNew" using d_window by (auto simp: queue_inv_def)
  have "busy (bind_pst x) = 0" for x by (simp add: bind_pst_def split: sum.split)
  then show ?case using d_window p busy_upd [OF d_window(2), of "sy_pay s" "bind_pst (plan ! sy_next s)"]
    by (auto simp: worker_inv_def)
next
  case (w_start s q qs j)
  have "q < length plan" using w_start(2,4) filter_upt_head [of _ "sy_next s" q qs] unfolding queue_inv_def by (metis order.strict_trans2)
  from busy_upd [OF this, of "sy_pay s" "PRun WTake j"] show ?case using w_start by (auto simp: worker_inv_def)
next
  case (w_take s q j)
  show ?case
    by (rule worker_inv_pay [where q = q and p = "PRun WRead j", OF w_take.prems]) (use w_take busy_after in \<open>auto simp: algebra_simps\<close>)
next
  case (w_take_abort s q j)
  show ?case
    by (rule worker_inv_pay [where q = q and p = "PDone (Some EmCanceled)", OF w_take_abort.prems]) (use w_take_abort busy_after in \<open>auto simp: algebra_simps\<close>)
next
  case (w_finish s q j)
  show ?case
    by (rule worker_inv_pay [where q = q and p = "PDone None", OF w_finish.prems]) (use w_finish busy_after in \<open>auto simp: algebra_simps\<close>)
next
  case (w_pad s q j)
  show ?case
    by (rule worker_inv_pay [where q = q and p = "PRun (WSend (replicate (min (jb_rem j) copyChunk) 0) ROk) j", OF w_pad.prems]) (use w_pad busy_after in \<open>auto simp: algebra_simps\<close>)
next
  case (w_read s q j bs st r)
  show ?case
    by (rule worker_inv_pay [where q = q and p = "PRun (WSend bs st) (j\<lparr> jb_rd := r \<rparr>)", OF w_read.prems]) (use w_read busy_after in \<open>auto simp: algebra_simps\<close>)
next
  case (w_read_none s q j st r p)
  show ?case
    by (rule worker_inv_pay [where q = q and p = "p", OF w_read_none.prems]) (use w_read_none busy_after in \<open>auto simp: algebra_simps\<close>)
next
  case (w_send s q bs st j p)
  show ?case
    by (rule worker_inv_pay [where q = q and p = "p", OF w_send.prems]) (use w_send busy_after in \<open>auto simp: algebra_simps\<close>)
next
  case (w_send_abort s q bs st j)
  show ?case
    by (rule worker_inv_pay [where q = q and p = "PDone (Some EmCanceled)", OF w_send_abort.prems]) (use w_send_abort busy_after in \<open>auto simp: algebra_simps\<close>)
qed (auto simp: worker_inv_def)


subsection \<open>The budget\<close>

definition bufs :: "pst \<Rightarrow> nat" where
  "bufs p = (case p of PRun WRead _ \<Rightarrow> 1 | PRun (WSend _ _) _ \<Rightarrow> 1 | _ \<Rightarrow> 0)"

lemma bufs_simps [simp]:
  "bufs PNew = 0" "bufs (PFailed e) = 0" "bufs (PQueued j) = 0" "bufs (PDone e') = 0"
  "bufs (PRun WTake j) = 0" "bufs (PRun WRead j) = 1" "bufs (PRun (WSend bs st) j) = 1"
  by (simp_all add: bufs_def)

lemma bufs_after [simp]: "bufs (after_read j st) = 0"
  by (cases st) (simp_all add: after_read_def)

lemma bufs_bind [simp]: "bufs (bind_pst x) = 0"
  by (simp add: bind_pst_def split: sum.split)

text \<open>The buffers out for a payload: with its worker, and filled in its channel.\<close>

definition load :: "async \<Rightarrow> nat \<Rightarrow> nat" where
  "load s i = bufs (sy_pay s i) + length (sy_chan s i)"

definition nonhead :: "async \<Rightarrow> nat \<Rightarrow> nat" where
  "nonhead s i = (if sy_head s = Some i then 0 else load s i)"

definition loads :: "nat \<Rightarrow> async \<Rightarrow> nat" where
  "loads n s = (\<Sum>i<n. load s i)"

definition nonheads :: "nat \<Rightarrow> async \<Rightarrow> nat" where
  "nonheads n s = (\<Sum>i<n. nonhead s i)"

fun writing :: "epc \<Rightarrow> nat" where
  "writing (EWrite q c) = 1"
| "writing _ = 0"

definition budget_inv :: "nat \<Rightarrow> int \<Rightarrow> async \<Rightarrow> bool" where
  "budget_inv n B s \<longleftrightarrow>
     sy_avail s + int (loads n s) + int (writing (sy_emit s)) = B \<and>
     (\<forall>i. length (sy_chan s i) \<le> 2) \<and> int (nonheads n s) \<le> B"

lemma sum_change:
  fixes f :: "nat \<Rightarrow> nat"
  assumes "q < n" "\<And>i. i \<noteq> q \<Longrightarrow> f' i = f i"
  shows "(\<Sum>i<n. f' i) + f q = (\<Sum>i<n. f i) + f' q"
proof -
  have "f' = f(q := f' q)" using assms(2) by auto
  then show ?thesis using sum_upd [OF assms(1), of "\<lambda>x. x" f "f' q"] by metis
qed

lemma budget_pay:
  assumes inv: "budget_inv n B s" and q: "q < n" "\<And>i. i \<noteq> q \<Longrightarrow> load s' i = load s i"
    and s': "sy_head s' = sy_head s" "sy_avail s' + int (load s' q) + int (writing (sy_emit s')) = sy_avail s + int (load s q) + int (writing (sy_emit s))"
      "\<forall>i. length (sy_chan s' i) \<le> 2"
    and l: "load s' q \<le> load s q \<or> sy_head s = Some q \<or> (load s' q = load s q + 1 \<and> 1 \<le> sy_avail s)"
  shows "budget_inv n B s'"
proof -
  have t: "loads n s' + load s q = loads n s + load s' q" unfolding loads_def by (rule sum_change [OF q])
  have h: "nonheads n s' + nonhead s q = nonheads n s + nonhead s' q"
    unfolding nonheads_def by (rule sum_change [OF q(1)]) (simp add: nonhead_def s'(1) q(2))
  have le: "nonheads n s \<le> loads n s" unfolding nonheads_def loads_def by (rule sum_mono) (simp add: nonhead_def)
  have "int (nonheads n s') \<le> B"
  proof (cases "sy_head s = Some q")
    case True
    then have "nonhead s q = 0" "nonhead s' q = 0" by (simp_all add: nonhead_def s'(1))
    then show ?thesis using h inv by (simp add: budget_inv_def)
  next
    case False
    then have "nonhead s q = load s q" "nonhead s' q = load s' q" by (simp_all add: nonhead_def s'(1))
    then show ?thesis using h inv le l False unfolding budget_inv_def by linarith
  qed
  moreover have "sy_avail s' + int (loads n s') + int (writing (sy_emit s')) = B"
    using inv t s'(2) unfolding budget_inv_def by linarith
  ultimately show ?thesis using s'(3) by (simp add: budget_inv_def)
qed

lemma budget_same:
  assumes "budget_inv n B s" "\<And>i. load s' i = load s i" "sy_head s' = sy_head s" "sy_avail s' = sy_avail s"
    "writing (sy_emit s') = writing (sy_emit s)" "sy_chan s' = sy_chan s"
  shows "budget_inv n B s'"
proof -
  have "nonhead s' = nonhead s" "load s' = load s" using assms(2,3) by (auto simp: nonhead_def fun_eq_iff)
  then show ?thesis using assms by (simp add: budget_inv_def loads_def nonheads_def)
qed

lemma budget_inv_step:
  assumes "astep plan W s s'" "queue_inv (length plan) s" "emit_inv (length plan) s" "budget_inv (length plan) B s"
  shows "budget_inv (length plan) B s'"
  using assms
proof (induction rule: astep.induct)
  case (d_window s)
  have p: "sy_pay s (sy_next s) = PNew" using d_window by (auto simp: queue_inv_def)
  show ?case by (rule budget_same [OF d_window.prems(3)]) (auto simp: load_def p)
next
  case (w_start s q qs j)
  show ?case by (rule budget_same [OF w_start.prems(3)]) (use w_start in \<open>auto simp: load_def\<close>)
next
  case (w_take s q j)
  show ?case
    by (rule budget_pay [where q = q, OF w_take.prems(3)])
      (use w_take running_less [OF w_take.prems(1)] in \<open>auto simp: load_def budget_inv_def\<close>)
next
  case (w_take_abort s q j)
  show ?case
    by (rule budget_pay [where q = q, OF w_take_abort.prems(3)])
      (use w_take_abort running_less [OF w_take_abort.prems(1)] in \<open>auto simp: load_def budget_inv_def\<close>)
next
  case (w_finish s q j)
  show ?case
    by (rule budget_pay [where q = q, OF w_finish.prems(3)])
      (use w_finish running_less [OF w_finish.prems(1)] in \<open>auto simp: load_def budget_inv_def\<close>)
next
  case (w_pad s q j)
  show ?case
    by (rule budget_pay [where q = q, OF w_pad.prems(3)])
      (use w_pad running_less [OF w_pad.prems(1)] in \<open>auto simp: load_def budget_inv_def\<close>)
next
  case (w_read s q j bs st r)
  show ?case
    by (rule budget_pay [where q = q, OF w_read.prems(3)])
      (use w_read running_less [OF w_read.prems(1)] in \<open>auto simp: load_def budget_inv_def\<close>)
next
  case (w_read_none s q j st r p)
  show ?case
    by (rule budget_pay [where q = q, OF w_read_none.prems(3)])
      (use w_read_none running_less [OF w_read_none.prems(1)] in \<open>auto simp: load_def budget_inv_def\<close>)
next
  case (w_send s q bs st j p)
  show ?case
    by (rule budget_pay [where q = q, OF w_send.prems(3)])
      (use w_send running_less [OF w_send.prems(1)] in \<open>auto simp: load_def budget_inv_def\<close>)
next
  case (w_send_abort s q bs st j)
  show ?case
    by (rule budget_pay [where q = q, OF w_send_abort.prems(3)])
      (use w_send_abort running_less [OF w_send_abort.prems(1)] in \<open>auto simp: load_def budget_inv_def\<close>)
next
  case (e_open s q qs)
  let ?s = "s\<lparr> sy_delivery := qs, sy_head := Some q, sy_emit := EHead q \<rparr>"
  have "nonhead ?s i \<le> nonhead s i" for i
    using e_open(1) e_open.prems(2) by (auto simp: nonhead_def load_def emit_inv_def)
  then have "nonheads (length plan) ?s \<le> nonheads (length plan) s" unfolding nonheads_def by (intro sum_mono)
  moreover have "loads (length plan) ?s = loads (length plan) s" by (simp add: loads_def load_def)
  ultimately show ?case using e_open.prems(3) e_open(1) by (auto simp: budget_inv_def)
next
  case (e_recv s q c cs)
  have "q < length plan" "sy_head s = Some q" using e_recv(1) e_recv.prems(2) by (auto simp: emit_inv_def)
  moreover have "length (sy_chan s q) \<le> 2" using e_recv.prems(3) by (simp add: budget_inv_def)
  ultimately show ?case
    by (intro budget_pay [where q = q, OF e_recv.prems(3)]) (use e_recv in \<open>auto simp: load_def budget_inv_def\<close>)
next
  case (e_write s q c)
  have "q < length plan" using e_write(1) e_write.prems(2) by (auto simp: emit_inv_def)
  then show ?case
    by (intro budget_pay [where q = q, OF e_write.prems(3)]) (use e_write in \<open>auto simp: load_def budget_inv_def\<close>)
qed ((rule budget_same, assumption, simp_all add: load_def)+)


subsection \<open>Reachable states\<close>

definition async_inv :: "nat \<Rightarrow> nat \<Rightarrow> int \<Rightarrow> async \<Rightarrow> bool" where
  "async_inv n K B s \<longleftrightarrow> queue_inv n s \<and> emit_inv n s \<and> worker_inv n K s \<and> budget_inv n B s"

lemma fault_inv:
  assumes "fault s s'" "async_inv n K B s"
  shows "async_inv n K B s'"
proof -
  have q: "queue_inv n s" and e: "emit_inv n s" and w: "worker_inv n K s" and b: "budget_inv n B s"
    using assms(2) by (simp_all add: async_inv_def)
  have "queue_inv n s'" by (rule queue_inv_same [OF q]) (use assms(1) in \<open>auto elim: fault.cases\<close>)
  moreover have "worker_inv n K s'" using assms(1) w by (cases rule: fault.cases) (simp_all add: worker_inv_def)
  moreover have "emit_inv n s'" using assms(1) e
  proof (cases rule: fault.cases)
    case f_cancel
    then show ?thesis using e unfolding emit_inv_def delivered_to_def by auto
  qed (use e in \<open>simp_all add: emit_inv_def\<close>)
  moreover have "budget_inv n B s'" using assms(1)
  proof (cases rule: fault.cases)
    case (f_write q c e)
    then have "load s' = load s" "nonhead s' = nonhead s" by (auto simp: load_def nonhead_def fun_eq_iff)
    then show ?thesis using b f_write by (simp add: budget_inv_def loads_def nonheads_def)
  qed (rule budget_same [OF b]; simp add: load_def)+
  ultimately show ?thesis by (simp add: async_inv_def)
qed

lemma reachable_inv:
  "reachable plan K b s \<Longrightarrow> async_inv (length plan) K (budget_chunks b) s"
proof (induction rule: reachable.induct)
  case start
  have "2 \<le> budget_chunks b" by (simp add: budget_chunks_def Let_def)
  then show ?case
    by (auto simp: async_inv_def newAsyncSource_def queue_inv_def emit_inv_def delivered_to_def worker_inv_def budget_inv_def
        loads_def nonheads_def load_def nonhead_def)
next
  case (step s s')
  then show ?case unfolding async_inv_def
    using queue_inv_step emit_inv_step worker_inv_step budget_inv_step by metis
next
  case (fault s s')
  then show ?case using fault_inv by blast
qed

text \<open>Every goroutine is done.\<close>

definition final :: "nat \<Rightarrow> async \<Rightarrow> bool" where
  "final K s \<longleftrightarrow> stopped s \<and> sy_dpc s = DDone \<and> sy_exited s = K"

lemma job_progress:
  assumes "sy_pay s q = PRun w j" "sy_cancel s \<or> sy_head s = Some q \<and> sy_chan s q = []"
  shows "\<exists>s'. astep plan W s s'"
proof (cases w)
  case WTake
  then show ?thesis using assms by (cases "jb_rem j = 0"; cases "sy_cancel s") (auto intro: astep.intros)
next
  case WRead
  obtain bs st r where r: "rd_read (jb_rd j) (min (jb_rem j) copyChunk) = (bs, st, r)" by (cases "rd_read (jb_rd j) (min (jb_rem j) copyChunk)")
  show ?thesis
  proof (cases "jb_pad j")
    case True
    then show ?thesis using assms(1) WRead w_pad by blast
  next
    case False
    then show ?thesis using assms(1) WRead r w_read w_read_none by (cases "bs = []") blast+
  qed
next
  case (WSend bs st)
  then show ?thesis using assms w_send [of s q bs st j] w_send_abort [of s q bs st j] by (cases "sy_cancel s") fastforce+
qed

lemma stopped_progress:
  assumes inv: "async_inv (length plan) K B s" and st: "stopped s" "\<not> final K s"
  shows "\<exists>s'. astep plan W s s'"
proof -
  have c: "sy_cancel s" using inv st(1) by (auto simp: async_inv_def emit_inv_def)
  show ?thesis
  proof (cases "sy_dpc s = DDone")
    case False
    then show ?thesis using d_done [of s plan W] d_abort [OF c, of plan W] by (cases "sy_dpc s"; cases "sy_next s < length plan") auto
  next
    case True
    have w: "sy_work s = filter (\<lambda>i. queued (sy_pay s i)) [0..<sy_next s]" using inv by (simp add: async_inv_def queue_inv_def)
    show ?thesis
    proof (cases "0 < sy_idle s")
      case idle: True
      show ?thesis
      proof (cases "sy_work s")
        case Nil
        then show ?thesis using w_exit [OF idle Nil True] by blast
      next
        case (Cons q qs)
        then show ?thesis using filter_upt_head [OF w [symmetric, unfolded Cons]] w_start [OF idle Cons] by blast
      qed
    next
      case False
      then have "(\<Sum>i<length plan. busy (sy_pay s i)) \<noteq> 0"
        using inv st True by (auto simp: async_inv_def worker_inv_def final_def)
      then obtain i where "busy (sy_pay s i) \<noteq> 0" by (meson sum.neutral)
      then obtain w j where "sy_pay s i = PRun w j" by (auto simp: busy_def split: pst.splits)
      then show ?thesis using job_progress c by blast
    qed
  qed
qed

lemma drain_progress:
  assumes inv: "async_inv (length plan) K B s" and K: "0 < K" "0 < W" and c: "\<not> sy_cancel s" and e: "sy_emit s = EDrain q"
  shows "\<exists>s'. astep plan W s s'"
proof (cases "sy_chan s q")
  case (Cons x xs)
  then show ?thesis using e_recv [OF e Cons] by blast
next
  case Nil
  have q: "q = sy_done s" "q < length plan" "sy_head s = Some q" "sy_pay s q \<noteq> PNew" "\<And>e. sy_pay s q \<noteq> PFailed e"
      "\<forall>i < q. sy_pay s i = PDone None"
    using inv e by (auto simp: async_inv_def emit_inv_def)
  obtain m where m: "delivered_to s m" "q < m"
    using inv e q(1) by (auto simp: async_inv_def emit_inv_def Suc_le_eq)
  show ?thesis
  proof (cases "sy_pay s q")
    case (PQueued j)
    have wk: "sy_work s = filter (\<lambda>i. queued (sy_pay s i)) [0..<sy_next s]" using inv by (simp add: async_inv_def queue_inv_def)
    show ?thesis
    proof (cases "q < sy_next s")
      case True
      have "q \<in> set (sy_work s)" using True PQueued wk by simp
      then obtain a as where a: "sy_work s = a # as" by (cases "sy_work s") auto
      note h = filter_upt_head [OF wk [symmetric, unfolded a]]
      have "\<not> running (sy_pay s i)" for i
      proof
        assume r: "running (sy_pay s i)"
        show False
        proof (cases "i < q")
          case True
          then show False using q(6) r by auto
        next
          case False
          then show False using r PQueued True inv unfolding async_inv_def queue_inv_def by (metis linorder_neqE_nat pst.distinct(15))
        qed
      qed
      then have "(\<Sum>i<length plan. busy (sy_pay s i)) = 0" by (auto simp: busy_def split: pst.splits)
      then have "0 < sy_idle s" using inv K(1) a by (auto simp: async_inv_def worker_inv_def)
      then show ?thesis using w_start [OF _ a] h by blast
    next
      case False
      then have "sy_dpc s = DWork \<and> sy_next s = q" using m c by (auto simp: delivered_to_def)
      moreover from this have "sy_work s = []" using wk q(6) by auto
      ultimately show ?thesis using d_work [of s W] K(2) by auto
    qed
  next
    case (PRun w j)
    then show ?thesis using job_progress [OF PRun] q(3) Nil by blast
  next
    case (PDone x)
    then show ?thesis using e_close [OF e Nil] e_close_err [OF e Nil] by (cases x) blast+
  qed (use q in auto)
qed

lemma idle_progress:
  assumes inv: "async_inv (length plan) K B s" and W: "0 < W" and c: "\<not> sy_cancel s" and e: "sy_emit s = EIdle"
  shows "\<exists>s'. astep plan W s s'"
proof (cases "sy_done s < length plan")
  case False
  then show ?thesis using e_finish [OF e] by (meson leI)
next
  case True
  show ?thesis
  proof (cases "sy_delivery s")
    case (Cons q qs)
    then show ?thesis using e_open [OF e True Cons] e_open_failed [OF e True Cons] e_open_mismatch [OF e True Cons] by metis
  next
    case Nil
    obtain m where m: "delivered_to s m" "sy_delivery s = [sy_done s..<m]" "sy_done s \<le> m"
      using inv e by (auto simp: async_inv_def emit_inv_def)
    have d: "sy_done s = m" using Nil m by (auto simp: upt_eq_Nil_conv)
    have dn: "\<forall>i < sy_done s. sy_pay s i = PDone None" using inv by (simp add: async_inv_def emit_inv_def)
    have q: "queue_inv (length plan) s" using inv by (simp add: async_inv_def)
    have win: "sy_window s + sy_done s = sy_next s + (if sy_dpc s = DDeliver \<or> sy_dpc s = DWork then 1 else 0)"
      using inv c by (simp add: async_inv_def emit_inv_def)
    show ?thesis
    proof (cases "sy_dpc s")
      case DWindow
      then show ?thesis using d_window [of s plan W] d m True win W by (auto simp: delivered_to_def)
    next
      case DDeliver
      then have "queued (sy_pay s (sy_next s)) \<or> (\<exists>e. sy_pay s (sy_next s) = PFailed e)" using q by (simp add: queue_inv_def)
      then show ?thesis using d_deliver [of s W _ plan] d_deliver_failed [of s W _ plan] DDeliver Nil W by auto
    next
      case DWork
      then have "sy_next s < sy_done s" "queued (sy_pay s (sy_next s))" using m(1) d q by (auto simp: delivered_to_def queue_inv_def)
      then show ?thesis using dn by auto
    next
      case DDone
      then show ?thesis using m(1) d q c True by (auto simp: delivered_to_def queue_inv_def)
    qed
  qed
qed

lemma async_progress:
  assumes "async_inv (length plan) K B s" "0 < K" "0 < W" "\<not> sy_cancel s \<or> stopped s" "\<not> final K s"
  shows "\<exists>s'. astep plan W s s'"
proof (cases "stopped s")
  case True
  then show ?thesis using stopped_progress assms by blast
next
  case False
  then have c: "\<not> sy_cancel s" using assms(4) by blast
  show ?thesis
  proof (cases "sy_emit s")
    case EIdle
    then show ?thesis using idle_progress assms(1,3) c by blast
  next
    case (EHead q)
    then show ?thesis using e_header by blast
  next
    case (EDrain q)
    then show ?thesis using drain_progress assms(1-3) c by blast
  next
    case (EWrite q x)
    then show ?thesis using e_write by blast
  qed (use False in auto)
qed


subsection \<open>Runs end\<close>

text \<open>What a worker has in hand fits its payload.\<close>

fun wpc_ok :: "wpc \<Rightarrow> job \<Rightarrow> bool" where
  "wpc_ok WTake j \<longleftrightarrow> True"
| "wpc_ok WRead j \<longleftrightarrow> 0 < jb_rem j"
| "wpc_ok (WSend bs st) j \<longleftrightarrow> bs \<noteq> [] \<and> length bs \<le> jb_rem j"

definition jobs_ok :: "async \<Rightarrow> bool" where
  "jobs_ok s \<longleftrightarrow> (\<forall>q w j. sy_pay s q = PRun w j \<longrightarrow> wpc_ok w j)"

lemma jobs_okD: "jobs_ok s \<Longrightarrow> sy_pay s q = PRun w j \<Longrightarrow> wpc_ok w j"
  by (auto simp: jobs_ok_def)

lemma after_read_run: "after_read j st = PRun w j' \<Longrightarrow> w = WTake"
  by (cases st) (auto simp: after_read_def)

lemma jobs_ok_step: "astep plan W s s' \<Longrightarrow> jobs_ok s \<Longrightarrow> jobs_ok s'"
proof (induction rule: astep.induct)
  case (d_window s)
  then show ?case by (auto simp: jobs_ok_def bind_pst_def split: sum.splits)
next
  case (w_read s q j bs st r)
  then have "length bs \<le> jb_rem j" using rd_read_bytes [OF w_read(3)] by simp
  then show ?case using w_read by (auto simp: jobs_ok_def)
next
  case (w_pad s q j)
  then have "0 < jb_rem j" by (auto dest: jobs_okD)
  then show ?case using w_pad by (auto simp: jobs_ok_def copyChunk_def)
next
  case (w_read_none s q j st r p)
  then show ?case using after_read_run by (fastforce simp: jobs_ok_def)
next
  case (w_send s q bs st j p)
  then show ?case using after_read_run by (fastforce simp: jobs_ok_def)
qed (auto simp: jobs_ok_def)

lemma jobs_ok_reachable: "reachable plan K b s \<Longrightarrow> jobs_ok s"
proof (induction rule: reachable.induct)
  case (fault s s')
  from fault(2) have "sy_pay s' = sy_pay s" by (cases rule: fault.cases) simp_all
  then show ?case using fault by (simp add: jobs_ok_def)
next
  case start
  show ?case by (simp add: jobs_ok_def newAsyncSource_def)
qed (auto dest: jobs_ok_step)

definition job_fuel :: "job \<Rightarrow> nat" where
  "job_fuel j = 6 * (rd_size (jb_rd j) + jb_rem j + (if jb_pad j then 0 else 1))"

fun wpc_fuel :: "wpc \<Rightarrow> nat" where
  "wpc_fuel WTake = 3"
| "wpc_fuel WRead = 2"
| "wpc_fuel (WSend bs st) = 1"

fun pay_fuel :: "emit_error + payload \<Rightarrow> pst \<Rightarrow> nat" where
  "pay_fuel x PNew = (case x of Inl e \<Rightarrow> 1 | Inr p \<Rightarrow> job_fuel (job_of p) + 5)"
| "pay_fuel x (PFailed e) = 0"
| "pay_fuel x (PQueued j) = job_fuel j + 4"
| "pay_fuel x (PRun w j) = job_fuel j + wpc_fuel w"
| "pay_fuel x (PDone e) = 0"

definition item_fuel :: "(emit_error + payload) list \<Rightarrow> async \<Rightarrow> nat \<Rightarrow> nat" where
  "item_fuel plan s i = pay_fuel (plan ! i) (sy_pay s i) + 3 * length (sy_chan s i)"

fun dpc_fuel :: "dpc \<Rightarrow> nat" where
  "dpc_fuel DWindow = 3" | "dpc_fuel DDeliver = 2" | "dpc_fuel DWork = 1" | "dpc_fuel DDone = 0"

fun epc_fuel :: "epc \<Rightarrow> nat" where
  "epc_fuel EIdle = 3" | "epc_fuel (EHead q) = 2" | "epc_fuel (EDrain q) = 1" | "epc_fuel (EWrite q c) = 3" | "epc_fuel (EStop x) = 0"

definition rest_fuel :: "nat \<Rightarrow> nat \<Rightarrow> async \<Rightarrow> nat" where
  "rest_fuel n K s = 4 * (n - sy_next s) + dpc_fuel (sy_dpc s) + 4 * (n - sy_done s) + epc_fuel (sy_emit s) + (K - sy_exited s)"

definition items_fuel :: "(emit_error + payload) list \<Rightarrow> async \<Rightarrow> nat" where
  "items_fuel plan s = (\<Sum>i<length plan. item_fuel plan s i)"

definition fuel :: "(emit_error + payload) list \<Rightarrow> nat \<Rightarrow> async \<Rightarrow> nat" where
  "fuel plan K s = items_fuel plan s + rest_fuel (length plan) K s"

lemma items_fuel_change:
  assumes "q < length plan" "\<And>i. i \<noteq> q \<Longrightarrow> item_fuel plan s' i = item_fuel plan s i"
  shows "items_fuel plan s' + item_fuel plan s q = items_fuel plan s + item_fuel plan s' q"
  unfolding items_fuel_def by (rule sum_change [OF assms])

lemma fuel_pay:
  assumes "q < length plan" "\<And>i. i \<noteq> q \<Longrightarrow> item_fuel plan s' i = item_fuel plan s i"
    "item_fuel plan s' q < item_fuel plan s q" "rest_fuel (length plan) K s' = rest_fuel (length plan) K s"
  shows "fuel plan K s' < fuel plan K s"
  using items_fuel_change [OF assms(1,2)] assms(3,4) by (simp add: fuel_def)

lemma fuel_rest:
  assumes "\<And>i. item_fuel plan s' i = item_fuel plan s i" "rest_fuel (length plan) K s' < rest_fuel (length plan) K s"
  shows "fuel plan K s' < fuel plan K s"
  using assms by (simp add: fuel_def items_fuel_def)

lemma rd_read_le: "rd_read r want = (bs, st, r') \<Longrightarrow> rd_size r' \<le> rd_size r"
  by (cases r) (auto split: if_splits)

lemma after_fuel:
  assumes "job_fuel j' + 6 \<le> k"
  shows "pay_fuel x (after_read j' st) + 3 \<le> k"
proof -
  have "job_fuel (j'\<lparr> jb_pad := True \<rparr>) \<le> job_fuel j'" by (simp add: job_fuel_def)
  then show ?thesis using assms by (cases st) (auto simp: after_read_def)
qed

lemma async_fuel:
  assumes "astep plan W s s'" "async_inv (length plan) K B s" "jobs_ok s"
  shows "fuel plan K s' < fuel plan K s"
  using assms
proof (induction rule: astep.induct)
  case (d_window s)
  have p: "sy_pay s (sy_next s) = PNew" using d_window by (auto simp: async_inv_def queue_inv_def)
  let ?s = "s\<lparr> sy_window := sy_window s + 1, sy_dpc := DDeliver,
       sy_pay := (sy_pay s)(sy_next s := bind_pst (plan ! sy_next s)),
       sy_bound := sy_bound s @ [bind_size (plan ! sy_next s)] \<rparr>"
  have "item_fuel plan ?s (sy_next s) < item_fuel plan s (sy_next s)"
    by (simp add: item_fuel_def p bind_pst_def split: sum.splits)
  moreover have "rest_fuel (length plan) K ?s < rest_fuel (length plan) K s" using d_window(1) by (simp add: rest_fuel_def)
  moreover have "items_fuel plan ?s + item_fuel plan s (sy_next s) = items_fuel plan s + item_fuel plan ?s (sy_next s)"
    by (rule items_fuel_change [OF d_window(2)]) (simp add: item_fuel_def)
  ultimately show ?case unfolding fuel_def by linarith
next
  case (d_deliver_failed s e)
  then have "sy_next s < length plan" by (auto simp: async_inv_def queue_inv_def)
  then show ?case by (intro fuel_rest) (use d_deliver_failed in \<open>auto simp: rest_fuel_def item_fuel_def\<close>)
next
  case (d_work s)
  then have "sy_next s < length plan" by (auto simp: async_inv_def queue_inv_def)
  then show ?case by (intro fuel_rest) (use d_work in \<open>auto simp: rest_fuel_def item_fuel_def\<close>)
next
  case (w_start s q qs j)
  have "q < length plan"
    using w_start(2,4) filter_upt_head [of _ "sy_next s" q qs] unfolding async_inv_def queue_inv_def by (metis order.strict_trans2)
  then show ?case by (rule fuel_pay) (use w_start in \<open>auto simp: item_fuel_def rest_fuel_def\<close>)
next
  case (w_exit s)
  then have "sy_exited s < K" by (auto simp: async_inv_def worker_inv_def)
  then show ?case by (intro fuel_rest) (auto simp: item_fuel_def rest_fuel_def)
next
  case (w_read_none s q j st r p)
  have q: "q < length plan" using running_less w_read_none by (auto simp: async_inv_def)
  have rem: "0 < jb_rem j" using w_read_none by (auto dest: jobs_okD)
  have "pay_fuel (plan ! q) p < job_fuel j + 2"
  proof (cases st)
    case ROk
    then have "rd_size r < rd_size (jb_rd j)" using rd_read_size [OF w_read_none(3) [unfolded ROk]] rem by (simp add: copyChunk_def)
    then show ?thesis using ROk w_read_none(4) by (simp add: after_read_def job_fuel_def)
  qed (use rd_read_le [OF w_read_none(3)] w_read_none(2,4) in \<open>simp_all add: after_read_def job_fuel_def\<close>)
  then show ?case by (intro fuel_pay [OF q]) (use w_read_none in \<open>auto simp: item_fuel_def rest_fuel_def\<close>)
next
  case (w_send s q bs st j p)
  have q: "q < length plan" using running_less w_send by (auto simp: async_inv_def)
  have bs: "bs \<noteq> []" "length bs \<le> jb_rem j" using w_send by (auto dest: jobs_okD)
  then have "0 < length bs" by simp
  then have "jb_rem (sent j bs) + 1 \<le> jb_rem j" using bs(2) by (simp add: sent_def del: length_greater_0_conv)
  moreover have "jb_rd (sent j bs) = jb_rd j" "jb_pad (sent j bs) = jb_pad j" by (simp_all add: sent_def)
  ultimately have "job_fuel (sent j bs) + 6 \<le> job_fuel j" unfolding job_fuel_def by simp
  from after_fuel [OF this, of "plan ! q" st] show ?case
    by (intro fuel_pay [OF q]) (use w_send in \<open>auto simp: item_fuel_def rest_fuel_def\<close>)
next
  case (w_read s q j bs st r)
  have q: "q < length plan" using running_less w_read by (auto simp: async_inv_def)
  show ?case by (rule fuel_pay [OF q]) (use w_read rd_read_le [OF w_read(3)] in \<open>auto simp: item_fuel_def rest_fuel_def job_fuel_def\<close>)
next
  case (e_recv s q c cs)
  have q: "q < length plan" using e_recv by (auto simp: async_inv_def emit_inv_def)
  let ?s = "s\<lparr> sy_chan := (sy_chan s)(q := cs), sy_emit := EWrite q c \<rparr>"
  have "items_fuel plan ?s + item_fuel plan s q = items_fuel plan s + item_fuel plan ?s q"
    by (rule items_fuel_change [OF q]) (simp add: item_fuel_def)
  then show ?case using e_recv by (simp add: fuel_def rest_fuel_def item_fuel_def)
next
  case (e_close s q)
  then have "sy_done s < length plan" by (auto simp: async_inv_def emit_inv_def)
  then show ?case by (intro fuel_rest) (use e_close in \<open>auto simp: rest_fuel_def item_fuel_def\<close>)
next
  case (w_take s q j)
  have q: "q < length plan" using running_less w_take by (auto simp: async_inv_def)
  show ?case by (rule fuel_pay [OF q]) (use w_take in \<open>auto simp: item_fuel_def rest_fuel_def\<close>)
next
  case (w_take_abort s q j)
  have q: "q < length plan" using running_less w_take_abort by (auto simp: async_inv_def)
  show ?case by (rule fuel_pay [OF q]) (use w_take_abort in \<open>auto simp: item_fuel_def rest_fuel_def\<close>)
next
  case (w_finish s q j)
  have q: "q < length plan" using running_less w_finish by (auto simp: async_inv_def)
  show ?case by (rule fuel_pay [OF q]) (use w_finish in \<open>auto simp: item_fuel_def rest_fuel_def\<close>)
next
  case (w_pad s q j)
  have q: "q < length plan" using running_less w_pad by (auto simp: async_inv_def)
  show ?case by (rule fuel_pay [OF q]) (use w_pad in \<open>auto simp: item_fuel_def rest_fuel_def\<close>)
next
  case (w_send_abort s q bs st j)
  have q: "q < length plan" using running_less w_send_abort by (auto simp: async_inv_def)
  show ?case by (rule fuel_pay [OF q]) (use w_send_abort in \<open>auto simp: item_fuel_def rest_fuel_def\<close>)
qed (rule fuel_rest; auto simp: rest_fuel_def item_fuel_def)+


lemma no_fault_stop: "astep plan W s s' \<Longrightarrow> \<not> sy_cancel s \<or> stopped s \<Longrightarrow> \<not> sy_cancel s' \<or> stopped s'"
  by (induction rule: astep.induct) auto

text \<open>The states from which a run is promised to end: the emitter has stopped, or nobody has cancelled.\<close>

definition live :: "(emit_error + payload) list \<Rightarrow> nat \<Rightarrow> i64 \<Rightarrow> async \<Rightarrow> bool" where
  "live plan K b s \<longleftrightarrow> reachable plan K b s \<and> (\<not> sy_cancel s \<or> stopped s)"

interpretation async_run: bounded_system "astep plan (window_size (Suc k))" "live plan (Suc k) b" "fuel plan (Suc k)" "final (Suc k)"
  for plan k b
proof
  show "live plan (Suc k) b s'" if "live plan (Suc k) b s" "astep plan (window_size (Suc k)) s s'" for s s'
    using that no_fault_stop reachable.step unfolding live_def by blast
  show "fuel plan (Suc k) s' < fuel plan (Suc k) s" if "live plan (Suc k) b s" "astep plan (window_size (Suc k)) s s'" for s s'
    using that async_fuel reachable_inv jobs_ok_reachable unfolding live_def by blast
  show "\<exists>s'. astep plan (window_size (Suc k)) s s'" if "live plan (Suc k) b s" "\<not> final (Suc k) s" for s
    using that async_progress [OF reachable_inv, of plan "Suc k" b s "window_size (Suc k)"]
    by (auto simp: live_def window_size_def)
qed

end
