(* ===== verification/Async_Bytes.thy ===== *)
theory Async_Bytes
  imports Async_Live
begin

text \<open>
  The bytes the asynchronous source delivers, and the properties of its runs: it delivers what the
  synchronous source would, in plan order, within its budget, and it comes to an end unless it is
  cancelled in an unlucky moment.
\<close>

subsection \<open>The bytes\<close>

definition rest_bytes :: "job \<Rightarrow> bytes" where
  "rest_bytes j = (if jb_pad j then replicate (jb_rem j) 0 else fit (jb_rem j) (rd_bytes (jb_rd j)))"

lemma rest_job_of: "rest_bytes (job_of p) = payload_image p"
  by (cases p) (simp_all add: rest_bytes_def job_of_def split: option.splits)

fun pay_image :: "pst \<Rightarrow> bytes option" where
  "pay_image (PQueued j) = Some (rest_bytes j)"
| "pay_image (PRun (WSend bs st) j) =
     (case st of
        ROk \<Rightarrow> Some (bs @ rest_bytes (sent j bs))
      | REof \<Rightarrow> Some (bs @ rest_bytes ((sent j bs)\<lparr> jb_pad := True \<rparr>))
      | RErr e \<Rightarrow> None)"
| "pay_image (PRun w j) = Some (rest_bytes j)"
| "pay_image (PDone None) = Some []"
| "pay_image _ = None"

fun pending :: "epc \<Rightarrow> bytes" where
  "pending (EWrite q c) = c"
| "pending _ = []"

text \<open>\<open>c\<close> is what the emitter has written of the payload it is at.\<close>

definition taken :: "async \<Rightarrow> bytes \<Rightarrow> nat \<Rightarrow> bytes" where
  "taken s c i = (if at_payload (sy_emit s) = Some i then c @ pending (sy_emit s) else [])"

definition item_ok :: "(emit_error + payload) list \<Rightarrow> async \<Rightarrow> bytes \<Rightarrow> nat \<Rightarrow> bool" where
  "item_ok plan s c i \<longleftrightarrow>
     (\<forall>e. plan ! i = Inl e \<longrightarrow> sy_pay s i = PNew \<or> (\<exists>e. sy_pay s i = PFailed e)) \<and>
     (\<forall>p r. plan ! i = Inr p \<longrightarrow> pay_image (sy_pay s i) = Some r \<longrightarrow> sy_done s \<le> i \<longrightarrow> \<not> stopped s \<longrightarrow>
        taken s c i @ concat (sy_chan s i) @ r = payload_image p)"

definition image_of :: "(emit_error + payload) list \<Rightarrow> nat \<Rightarrow> bytes" where
  "image_of plan i = payload_image (projr (plan ! i))"

definition bytes_inv :: "(emit_error + payload) list \<Rightarrow> async \<Rightarrow> bool" where
  "bytes_inv plan s \<longleftrightarrow>
     (\<exists>c. (stopped s \<or> sy_out s = concat (map (image_of plan) [0..<sy_done s]) @ c) \<and> (sy_emit s = EIdle \<longrightarrow> c = []) \<and>
        (\<forall>i < length plan. item_ok plan s c i)) \<and>
     (\<forall>i. sy_pay s i = PNew \<longrightarrow> sy_chan s i = []) \<and>
     (sy_emit s = EStop Finished \<longrightarrow> sy_done s = length plan \<and> sy_out s = concat (map (image_of plan) [0..<length plan]))"

lemma fit_split: "length bs \<le> k \<Longrightarrow> fit k (bs @ xs) = bs @ fit (k - length bs) xs"
  by (simp add: fit_def)

lemma read_image:
  assumes "rd_read (jb_rd j) (min (jb_rem j) copyChunk) = (bs, st, r)" "\<not> jb_pad j" "pay_image (PRun (WSend bs st) (j\<lparr> jb_rd := r \<rparr>)) = Some x"
  shows "x = rest_bytes j"
proof -
  note rb = rd_read_bytes [OF assms(1)]
  then have l: "length bs \<le> jb_rem j" by simp
  show ?thesis
  proof (cases st)
    case ROk
    then show ?thesis using rb l assms(2,3) fit_split [OF l] by (simp add: rest_bytes_def sent_def)
  next
    case REof
    then show ?thesis using rb l assms(2,3) fit_split [OF l, of "[]"] by (simp add: rest_bytes_def sent_def fit_def)
  qed (use assms(3) in simp)
qed

lemma after_image: "pay_image (after_read (sent j bs) st) = Some x \<Longrightarrow> pay_image (PRun (WSend bs st) j) = Some (bs @ x)"
  by (cases st) (auto simp: after_read_def)


lemma bytes_pay:
  assumes inv: "bytes_inv plan s" and q: "started (sy_pay s q) \<or> queued (sy_pay s q)" "started p \<or> queued p"
    and s': "sy_pay s' = (sy_pay s)(q := p)" "\<And>i. i \<noteq> q \<Longrightarrow> sy_chan s' i = sy_chan s i"
      "sy_emit s' = sy_emit s" "sy_done s' = sy_done s" "sy_out s' = sy_out s"
    and img: "\<And>x. pay_image p = Some x \<Longrightarrow> \<exists>y. pay_image (sy_pay s q) = Some y \<and> concat (sy_chan s' q) @ x = concat (sy_chan s q) @ y"
  shows "bytes_inv plan s'"
proof -
  obtain c where c: "stopped s \<or> sy_out s = concat (map (image_of plan) [0..<sy_done s]) @ c" "sy_emit s = EIdle \<longrightarrow> c = []"
      "\<forall>i < length plan. item_ok plan s c i"
    using inv unfolding bytes_inv_def by blast
  have "item_ok plan s' c i" if "i < length plan" for i
  proof (cases "i = q")
    case False
    then show ?thesis using c(3) that s' by (auto simp: item_ok_def taken_def)
  next
    case True
    have ok: "item_ok plan s c q" using c(3) that True by blast
    show ?thesis
    proof (cases "plan ! q")
      case (Inl e)
      then show ?thesis using ok q(1) by (auto simp: item_ok_def)
    next
      case (Inr x)
      have "taken s' c q = taken s c q" by (simp add: taken_def s'(3))
      then show ?thesis using ok img True Inr s'(1,3,4) unfolding item_ok_def by fastforce
    qed
  qed
  moreover have "sy_chan s' i = []" if n: "sy_pay s' i = PNew" for i
  proof -
    have "i \<noteq> q" using n q(2) s'(1) by auto
    then show ?thesis using inv n s'(1,2) by (simp add: bytes_inv_def)
  qed
  ultimately show ?thesis unfolding bytes_inv_def using c(1,2) inv s'(3-5)
    by (intro conjI exI [of _ c]) (auto simp: bytes_inv_def)
qed

lemma bytes_invE:
  assumes "bytes_inv plan s"
  obtains c where "stopped s \<or> sy_out s = concat (map (image_of plan) [0..<sy_done s]) @ c" "sy_emit s = EIdle \<Longrightarrow> c = []"
    "\<And>i. i < length plan \<Longrightarrow> item_ok plan s c i"
  using assms unfolding bytes_inv_def by blast

lemma bytes_stop:
  assumes "bytes_inv plan s" "sy_emit s' = EStop x" "x \<noteq> Finished" "sy_pay s' = sy_pay s" "sy_chan s' = sy_chan s"
  shows "bytes_inv plan s'"
  using assms unfolding bytes_inv_def item_ok_def by auto

lemma bytes_same:
  assumes "bytes_inv plan s" "sy_emit s' = sy_emit s" "sy_pay s' = sy_pay s" "sy_chan s' = sy_chan s" "sy_done s' = sy_done s" "sy_out s' = sy_out s"
  shows "bytes_inv plan s'"
proof -
  have "item_ok plan s' = item_ok plan s" unfolding item_ok_def taken_def using assms by (simp add: fun_eq_iff)
  then show ?thesis using assms by (simp add: bytes_inv_def)
qed

text \<open>Steps of the emitter that only change its place and the bytes it has.\<close>

lemma bytes_emit:
  assumes inv: "bytes_inv plan s" and c: "\<And>i. i < length plan \<Longrightarrow> item_ok plan s c i \<Longrightarrow> item_ok plan s' c' i"
      "\<And>i. i < length plan \<Longrightarrow> item_ok plan s c i"
    and out: "sy_out s' = concat (map (image_of plan) [0..<sy_done s']) @ c'" "sy_emit s' = EIdle \<Longrightarrow> c' = []" "\<not> stopped s'"
    and new: "\<And>i. sy_pay s' i = PNew \<Longrightarrow> sy_chan s' i = []"
  shows "bytes_inv plan s'"
  using c out new unfolding bytes_inv_def by (auto intro!: exI [of _ c'])

lemma pay_image_after_rd:
  assumes "rd_read (jb_rd j) (min (jb_rem j) copyChunk) = ([], st, r)" "\<not> jb_pad j" "pay_image (after_read (j\<lparr> jb_rd := r \<rparr>) st) = Some x"
  shows "x = rest_bytes j"
proof -
  have "sent (j\<lparr> jb_rd := r \<rparr>) [] = j\<lparr> jb_rd := r \<rparr>" by (simp add: sent_def)
  then have "pay_image (PRun (WSend [] st) (j\<lparr> jb_rd := r \<rparr>)) = Some ([] @ x)" using after_image [of "j\<lparr> jb_rd := r \<rparr>" "[]" st x] assms(3) by simp
  then show ?thesis using read_image [OF assms(1,2)] by simp
qed

lemma bytes_inv_step:
  assumes "astep plan W s s'" "queue_inv (length plan) s" "emit_inv (length plan) s" "jobs_ok s" "bytes_inv plan s"
  shows "bytes_inv plan s'"
  using assms
proof (induction rule: astep.induct)
  case (d_window s)
  have p: "sy_pay s (sy_next s) = PNew" using d_window by (auto simp: queue_inv_def)
  let ?s = "s\<lparr> sy_window := sy_window s + 1, sy_dpc := DDeliver,
       sy_pay := (sy_pay s)(sy_next s := bind_pst (plan ! sy_next s)),
       sy_bound := sy_bound s @ [bind_size (plan ! sy_next s)] \<rparr>"
  obtain c where c: "stopped s \<or> sy_out s = concat (map (image_of plan) [0..<sy_done s]) @ c" "sy_emit s = EIdle \<longrightarrow> c = []"
      "\<forall>i < length plan. item_ok plan s c i"
    using d_window.prems(4) unfolding bytes_inv_def by blast
  have at: "at_payload (sy_emit s) \<noteq> Some (sy_next s)" using d_window.prems(2) p unfolding emit_inv_def by metis
  have ch: "sy_chan s (sy_next s) = []" using d_window.prems(4) p by (simp add: bytes_inv_def)
  have "item_ok plan ?s c i" if "i < length plan" for i
  proof (cases "i = sy_next s")
    case True
    then show ?thesis using at ch by (auto simp: item_ok_def taken_def bind_pst_def rest_job_of)
  next
    case False
    then show ?thesis using c(3) that by (auto simp: item_ok_def taken_def)
  qed
  moreover have "sy_pay ?s i = PNew \<Longrightarrow> sy_chan ?s i = []" for i
    using d_window.prems(4) ch by (cases "i = sy_next s") (simp_all add: bytes_inv_def)
  ultimately show ?case unfolding bytes_inv_def using c(1,2) d_window.prems(4)
    by (intro conjI exI [of _ c] allI impI) (simp_all add: bytes_inv_def)
next
  case (w_start s q qs j)
  show ?case by (rule bytes_pay [where q = q and p = "PRun WTake j", OF w_start.prems(4)]) (use w_start in simp_all)
next
  case (w_take s q j)
  show ?case by (rule bytes_pay [where q = q and p = "PRun WRead j", OF w_take.prems(4)]) (use w_take in simp_all)
next
  case (w_take_abort s q j)
  show ?case by (rule bytes_pay [where q = q and p = "PDone (Some EmCanceled)", OF w_take_abort.prems(4)]) (use w_take_abort in simp_all)
next
  case (w_finish s q j)
  show ?case by (rule bytes_pay [where q = q and p = "PDone None", OF w_finish.prems(4)])
    (use w_finish in \<open>simp_all add: rest_bytes_def fit_def\<close>)
next
  case (w_pad s q j)
  show ?case by (rule bytes_pay [where q = q and p = "PRun (WSend (replicate (min (jb_rem j) copyChunk) 0) ROk) j", OF w_pad.prems(4)])
    (use w_pad in \<open>auto simp: rest_bytes_def sent_def simp flip: replicate_add\<close>)
next
  case (w_read s q j bs st r)
  show ?case by (rule bytes_pay [where q = q and p = "PRun (WSend bs st) (j\<lparr> jb_rd := r \<rparr>)", OF w_read.prems(4)])
    (use w_read read_image [OF w_read(3,2)] in \<open>auto simp del: pay_image.simps(2)\<close>)
next
  case (w_read_none s q j st r p)
  show ?case by (rule bytes_pay [where q = q and p = p, OF w_read_none.prems(4)])
    (use w_read_none pay_image_after_rd [OF w_read_none(3,2)] in auto)
next
  case (w_send s q bs st j p)
  show ?case by (rule bytes_pay [where q = q and p = p, OF w_send.prems(4)])
    (use w_send after_image in \<open>auto simp del: pay_image.simps(2)\<close>)
next
  case (w_send_abort s q bs st j)
  show ?case by (rule bytes_pay [where q = q and p = "PDone (Some EmCanceled)", OF w_send_abort.prems(4)]) (use w_send_abort in simp_all)
next
  case (e_open s q qs)
  obtain c where c: "sy_out s = concat (map (image_of plan) [0..<sy_done s]) @ c" "c = []" "\<And>i. i < length plan \<Longrightarrow> item_ok plan s c i"
    using e_open.prems(4) e_open(1) by (auto elim: bytes_invE)
  show ?case
    by (rule bytes_emit [OF e_open.prems(4) _ c(3), where c' = c])
      (use e_open c(1,2) e_open.prems(4) in \<open>auto simp: item_ok_def taken_def bytes_inv_def\<close>)
next
  case (e_open_failed s q qs e)
  show ?case by (rule bytes_stop [where x = "Failed e", OF e_open_failed.prems(4)]) simp_all
next
  case (e_open_mismatch s q qs)
  show ?case by (rule bytes_stop [where x = "Mismatch", OF e_open_mismatch.prems(4)]) simp_all
next
  case (e_open_abort s)
  show ?case by (rule bytes_stop [where x = "Failed EmCanceled", OF e_open_abort.prems(4)]) simp_all
next
  case (e_close_err s q e)
  show ?case by (rule bytes_stop [where x = "Failed e", OF e_close_err.prems(4)]) simp_all
next
  case (e_header s q)
  obtain c where c: "sy_out s = concat (map (image_of plan) [0..<sy_done s]) @ c" "\<And>i. i < length plan \<Longrightarrow> item_ok plan s c i"
    using e_header.prems(4) e_header(1) by (auto elim: bytes_invE)
  show ?case
    by (rule bytes_emit [OF e_header.prems(4) _ c(2), where c' = c])
      (use e_header c(1) e_header.prems(4) in \<open>auto simp: item_ok_def taken_def bytes_inv_def\<close>)
next
  case (e_recv s q x xs)
  obtain c where c: "sy_out s = concat (map (image_of plan) [0..<sy_done s]) @ c" "\<And>i. i < length plan \<Longrightarrow> item_ok plan s c i"
    using e_recv.prems(4) e_recv(1) by (auto elim: bytes_invE)
  have "sy_pay s q \<noteq> PNew" using e_recv.prems(2) e_recv(1) by (auto simp: emit_inv_def)
  then show ?case
    by (intro bytes_emit [OF e_recv.prems(4) _ c(2), where c' = c])
      (use e_recv c(1) e_recv.prems(4) in \<open>auto simp: item_ok_def taken_def bytes_inv_def\<close>)
next
  case (e_write s q x)
  obtain c where c: "sy_out s = concat (map (image_of plan) [0..<sy_done s]) @ c" "\<And>i. i < length plan \<Longrightarrow> item_ok plan s c i"
    using e_write.prems(4) e_write(1) by (auto elim: bytes_invE)
  show ?case
    by (rule bytes_emit [OF e_write.prems(4) _ c(2), where c' = "c @ x"])
      (use e_write c(1) e_write.prems(4) in \<open>auto simp: item_ok_def taken_def bytes_inv_def\<close>)
next
  case (e_close s q)
  obtain c where c: "sy_out s = concat (map (image_of plan) [0..<sy_done s]) @ c" "\<And>i. i < length plan \<Longrightarrow> item_ok plan s c i"
    using e_close.prems(4) e_close(1) by (auto elim: bytes_invE)
  have q: "q = sy_done s" "q < length plan" using e_close.prems(2) e_close(1) by (auto simp: emit_inv_def)
  have "item_ok plan s c q" using c(2) q(2) by blast
  then obtain p where "plan ! q = Inr p" "c = payload_image p"
    using e_close(1-3) q(1) by (cases "plan ! q") (auto simp: item_ok_def taken_def)
  then have img: "c = image_of plan q" by (simp add: image_of_def)
  show ?case
    by (rule bytes_emit [OF e_close.prems(4) _ c(2), where c' = "[]"])
      (use e_close c(1) img q e_close.prems(4) in \<open>auto simp: item_ok_def taken_def bytes_inv_def\<close>)
next
  case (e_finish s)
  obtain c where "sy_out s = concat (map (image_of plan) [0..<sy_done s]) @ c" "c = []" "\<And>i. i < length plan \<Longrightarrow> item_ok plan s c i"
    using e_finish.prems(4) e_finish(1) by (auto elim: bytes_invE)
  moreover have "sy_done s = length plan" using e_finish(2) e_finish.prems(2) by (auto simp: emit_inv_def)
  ultimately show ?case using e_finish.prems(4) unfolding bytes_inv_def by (auto simp: item_ok_def)
qed ((rule bytes_same, assumption, simp_all)+)


lemma bytes_reachable:
  assumes "reachable plan K b s"
  shows "bytes_inv plan s"
  using assms
proof (induction rule: reachable.induct)
  case start
  show ?case by (auto simp: bytes_inv_def newAsyncSource_def item_ok_def)
next
  case (step s s')
  show ?case
    using bytes_inv_step [OF step(2) _ _ jobs_ok_reachable [OF step(1)] step(3)] reachable_inv [OF step(1)]
    by (simp add: async_inv_def)
next
  case (fault s s')
  from fault(2) show ?case
  proof (cases rule: fault.cases)
    case f_cancel
    show ?thesis by (rule bytes_same [OF fault(3)]) (simp_all add: f_cancel)
  next
    case (f_header q e)
    show ?thesis by (rule bytes_stop [where x = "Failed e", OF fault(3)]) (simp_all add: f_header)
  next
    case (f_write q c e)
    show ?thesis by (rule bytes_stop [where x = "Failed e", OF fault(3)]) (simp_all add: f_write)
  qed
qed

subsection \<open>Bounds and order\<close>

definition order_inv :: "(emit_error + payload) list \<Rightarrow> nat \<Rightarrow> async \<Rightarrow> bool" where
  "order_inv plan W s \<longleftrightarrow> sy_window s \<le> W \<and> sy_bound s = map bind_size (take (length (sy_bound s)) plan) \<and>
     (sy_dpc s = DWindow \<longrightarrow> length (sy_bound s) = sy_next s) \<and>
     (sy_dpc s = DDeliver \<or> sy_dpc s = DWork \<longrightarrow> length (sy_bound s) = sy_next s + 1)"

lemma order_inv_step: "astep plan W s s' \<Longrightarrow> order_inv plan W s \<Longrightarrow> order_inv plan W s'"
proof (induction rule: astep.induct)
  case (d_window s)
  then have "sy_bound s = map bind_size (take (sy_next s) plan)" unfolding order_inv_def by metis
  then show ?case using d_window by (simp add: order_inv_def take_Suc_conv_app_nth)
qed (auto simp: order_inv_def)

lemma order_reachable: "reachable plan K b s \<Longrightarrow> order_inv plan (window_size K) s"
proof (induction rule: reachable.induct)
  case (fault s s')
  from fault(2,3) show ?case by (cases rule: fault.cases) (auto simp: order_inv_def)
qed (auto simp: order_inv_def newAsyncSource_def dest: order_inv_step)

lemma avail_bound:
  assumes "budget_inv n B s" "\<And>h. sy_head s = Some h \<Longrightarrow> h < n"
  shows "-4 \<le> sy_avail s"
proof -
  have w: "writing (sy_emit s) \<le> 1" by (cases "sy_emit s") auto
  have "loads n s \<le> nonheads n s + 3"
  proof (cases "sy_head s")
    case None
    then show ?thesis by (simp add: loads_def nonheads_def nonhead_def)
  next
    case (Some h)
    have "bufs (sy_pay s h) \<le> 1" by (auto simp: bufs_def split: pst.splits wpc.splits)
    moreover have "length (sy_chan s h) \<le> 2" using assms(1) by (simp add: budget_inv_def)
    ultimately have "load s h \<le> 3" by (simp add: load_def)
    moreover have "loads n s + nonhead s h = nonheads n s + load s h"
      unfolding loads_def nonheads_def by (rule sum_change) (use assms(2) Some in \<open>auto simp: nonhead_def\<close>)
    ultimately show ?thesis by simp
  qed
  then show ?thesis using assms(1) w unfolding budget_inv_def by linarith
qed

lemma head_reachable: "reachable plan K b s \<Longrightarrow> sy_head s = Some h \<Longrightarrow> h < length plan"
proof (induction arbitrary: h rule: reachable.induct)
  case (step s s')
  from step(2) show ?case
  proof (cases rule: astep.cases)
    case (e_open q qs)
    then show ?thesis using step(4) by simp
  qed (use step in auto)
next
  case (fault s s')
  from fault(2) show ?case by (cases rule: fault.cases) (use fault in auto)
qed (simp add: newAsyncSource_def)

subsection \<open>Properties\<close>

text \<open>
  C8: Asynchronous generation delivers the bytes of synchronous generation: when a run of dispatcher, workers and
  emitter finishes, whatever the interleaving, every payload opened, and what went out is the images
  of the payloads in plan order, each what the synchronous copy writes for it.
\<close>

theorem async_bytes:
  assumes "reachable plan K b s" "sy_emit s = EStop Finished"
  shows "\<exists>ps. plan = map Inr ps \<and> sy_out s = concat (map payload_image ps)"
proof -
  have f: "sy_done s = length plan" "sy_out s = concat (map (image_of plan) [0..<length plan])"
    and ok: "\<And>i. i < length plan \<Longrightarrow> \<exists>c. item_ok plan s c i"
    using bytes_reachable [OF assms(1)] assms(2) by (auto simp: bytes_inv_def)
  have d: "sy_pay s i = PDone None" if "i < length plan" for i
    using reachable_inv [OF assms(1)] f(1) that by (simp add: async_inv_def emit_inv_def)
  have "\<exists>p. plan ! i = Inr p" if "i < length plan" for i
    using ok [OF that] d [OF that] by (cases "plan ! i") (auto simp: item_ok_def)
  then have "plan = map Inr (map projr plan)" by (intro nth_equalityI) force+
  moreover have "map (image_of plan) [0..<length plan] = map payload_image (map projr plan)"
    by (intro nth_equalityI) (simp_all add: image_of_def)
  ultimately show ?thesis using f(2) by metis
qed

text \<open>
  C13: The asynchronous source comes to an end.  From every reachable state that has not been cancelled, or
  whose emitter has stopped, whatever the goroutines did before, no schedule runs forever, every run that can go no further has
  stopped the emitter, the dispatcher and every worker, and such a run exists: nothing deadlocks, however
  little budget the prefetching workers leave.
\<close>

theorem async_finishes:
  assumes "reachable plan K b s" "0 < K" "\<not> sy_cancel s \<or> stopped s"
  shows "(\<exists>s'. (astep plan (window_size K))\<^sup>*\<^sup>* s s' \<and> final K s') \<and>
    (\<forall>s'. (astep plan (window_size K))\<^sup>*\<^sup>* s s' \<longrightarrow> (\<nexists>s''. astep plan (window_size K) s' s'') \<longrightarrow> final K s') \<and>
    (\<nexists>f. f 0 = s \<and> (\<forall>k. astep plan (window_size K) (f k) (f (Suc k))))"
proof -
  obtain k where k: "K = Suc k" using assms(2) by (cases K) auto
  have l: "live plan (Suc k) b s" using assms(1,3) by (simp add: live_def k)
  show ?thesis unfolding k
    using async_run.reaches_final [OF l] async_run.stuck_final [OF l] async_run.no_infinite_run [of plan k b] l by blast
qed

theorem async_finishes_witness:
  "\<exists>s'. (astep [Inl EmSink] (window_size 2))\<^sup>*\<^sup>* (newAsyncSource 2 0) s' \<and> final 2 s'"
  using async_finishes [OF reachable.start, where plan = "[Inl EmSink]" and K = 2 and b = 0] by (simp add: newAsyncSource_def)

text \<open>
  C30: The bounds of the source hold in every reachable state: credits and buffers in use add up to the
  budget, the head of the line overdraws it by at most four buffers, the dispatcher never runs further
  ahead than its window, payloads arrive at the emitter in plan order, and the sizes published for the
  metadata stream are those of the plan, in order.
\<close>

theorem async_bounds:
  assumes "reachable plan K b s"
  shows "sy_avail s + int (loads (length plan) s) + int (writing (sy_emit s)) = budget_chunks b \<and> -4 \<le> sy_avail s \<and>
    sy_window s \<le> window_size K \<and> sy_emit s \<noteq> EStop Mismatch \<and>
    sy_bound s = map bind_size (take (length (sy_bound s)) plan)"
  using reachable_inv [OF assms] avail_bound [OF _ head_reachable [OF assms]] order_reachable [OF assms]
  by (simp add: async_inv_def budget_inv_def emit_inv_def order_inv_def)


theorem async_bounds_witness:
  "sy_avail (newAsyncSource 2 0) + int (loads 1 (newAsyncSource 2 0)) = 64 \<and> sy_avail (newAsyncSource 2 0) = 64"
  using async_bounds [OF reachable.start, where plan = "[Inl EmSink]" and K = 2 and b = 0]
  by (simp add: newAsyncSource_def budget_chunks_def copyChunk_def)


text \<open>A stream of three bytes that ends early, and a run that archives it.\<close>

definition short_stream :: payload where
  "short_stream = StreamPayload (Node [97] [] KindStream (zero_stat\<lparr> st_Size := 3 \<rparr>) [] [] None [] 0 [] (Some [([5, 6], REof)]))"

lemma short_job: "job_of short_stream = \<lparr> jb_rd = [([5, 6], REof)], jb_from = 0, jb_rem = 3, jb_pad = False \<rparr>"
  by (simp add: job_of_def short_stream_def)

lemmas run_simps = bind_pst_def after_read_def sent_def freed_def short_job copyChunk_def window_size_def budget_chunks_def Let_def

lemma short_run:
  "\<exists>s. reachable [Inr short_stream] 2 0 s \<and> sy_emit s = EStop Finished \<and> sy_out s = [5, 6, 0]"
proof -
  note r0 = reachable.start [of "[Inr short_stream]" 2 0, unfolded newAsyncSource_def]
  note r1 = reachable.step [OF r0 d_window, simplified run_simps, simplified]
  note r2 = reachable.step [OF r1 d_deliver [where j = "\<lparr> jb_rd = [([5, 6], REof)], jb_from = 0, jb_rem = 3, jb_pad = False \<rparr>"], simplified run_simps, simplified]
  note r3 = reachable.step [OF r2 d_work, simplified run_simps, simplified]
  note r4 = reachable.step [OF r3 w_start [where q = "0" and qs = "[]" and j = "\<lparr> jb_rd = [([5, 6], REof)], jb_from = 0, jb_rem = 3, jb_pad = False \<rparr>"], simplified run_simps, simplified]
  note r5 = reachable.step [OF r4 w_take [where q = "0" and j = "\<lparr> jb_rd = [([5, 6], REof)], jb_from = 0, jb_rem = 3, jb_pad = False \<rparr>"], simplified run_simps, simplified]
  note r6 = reachable.step [OF r5 w_read [where q = "0" and j = "\<lparr> jb_rd = [([5, 6], REof)], jb_from = 0, jb_rem = 3, jb_pad = False \<rparr>" and bs = "[5, 6]" and st = "REof" and r = "[([], REof)]"], simplified run_simps, simplified]
  note r7 = reachable.step [OF r6 w_send [where q = "0" and bs = "[5, 6]" and st = "REof" and j = "\<lparr> jb_rd = [([], REof)], jb_from = 0, jb_rem = 3, jb_pad = False \<rparr>" and p = "PRun WTake \<lparr> jb_rd = [([], REof)], jb_from = 2, jb_rem = 1, jb_pad = True \<rparr>"], simplified run_simps, simplified]
  note r8 = reachable.step [OF r7 w_take [where q = "0" and j = "\<lparr> jb_rd = [([], REof)], jb_from = 2, jb_rem = 1, jb_pad = True \<rparr>"], simplified run_simps, simplified]
  note r9 = reachable.step [OF r8 w_pad [where q = "0" and j = "\<lparr> jb_rd = [([], REof)], jb_from = 2, jb_rem = 1, jb_pad = True \<rparr>"], simplified run_simps, simplified]
  note r10 = reachable.step [OF r9 w_send [where q = "0" and bs = "[0]" and st = "ROk" and j = "\<lparr> jb_rd = [([], REof)], jb_from = 2, jb_rem = 1, jb_pad = True \<rparr>" and p = "PRun WTake \<lparr> jb_rd = [([], REof)], jb_from = 3, jb_rem = 0, jb_pad = True \<rparr>"], simplified run_simps, simplified]
  note r11 = reachable.step [OF r10 w_finish [where q = "0" and j = "\<lparr> jb_rd = [([], REof)], jb_from = 3, jb_rem = 0, jb_pad = True \<rparr>"], simplified run_simps, simplified]
  note r12 = reachable.step [OF r11 e_open [where q = "0" and qs = "[]"], simplified run_simps, simplified]
  note r13 = reachable.step [OF r12 e_header [where q = "0"], simplified run_simps, simplified]
  note r14 = reachable.step [OF r13 e_recv [where q = "0" and c = "[5, 6]" and cs = "[[0]]"], simplified run_simps, simplified]
  note r15 = reachable.step [OF r14 e_write [where q = "0" and c = "[5, 6]"], simplified run_simps, simplified]
  note r16 = reachable.step [OF r15 e_recv [where q = "0" and c = "[0]" and cs = "[]"], simplified run_simps, simplified]
  note r17 = reachable.step [OF r16 e_write [where q = "0" and c = "[0]"], simplified run_simps, simplified]
  note r18 = reachable.step [OF r17 e_close [where q = "0"], simplified run_simps, simplified]
  note r19 = reachable.step [OF r18 e_finish, simplified run_simps, simplified]
  show ?thesis by (rule exI, rule conjI, rule r19) simp
qed

theorem async_bytes_witness:
  "\<exists>s. reachable [Inr short_stream] 2 0 s \<and> sy_emit s = EStop Finished \<and> sy_out s = payload_image short_stream \<and>
     payload_image short_stream = [5, 6, 0]"
proof -
  obtain s where s: "reachable [Inr short_stream] 2 0 s" "sy_emit s = EStop Finished" "sy_out s = [5, 6, 0]"
    using short_run by blast
  from async_bytes [OF s(1,2)] have "sy_out s = payload_image short_stream" by (auto simp: Cons_eq_map_conv)
  then show ?thesis using s by (intro exI [of _ s]) simp
qed

subsection \<open>Cancelling\<close>

text \<open>
  C32: Cancelling can hang the source.  When the context is cancelled after a payload has been delivered and
  before the dispatcher hands it to a worker, the dispatcher may choose to return; nobody closes the
  payload's channel then, and an emitter that is already draining it waits forever: no goroutine can
  take a step, and the generated stream never ends.
\<close>

theorem cancel_can_hang:
  "\<exists>s. reachable [Inr short_stream] 2 0 s \<and> sy_cancel s \<and> sy_emit s = EDrain 0 \<and> sy_dpc s = DDone \<and> sy_exited s = 2 \<and>
     (\<nexists>s'. astep [Inr short_stream] (window_size 2) s s')"
proof -
  note r0 = reachable.start [of "[Inr short_stream]" 2 0, unfolded newAsyncSource_def]
  note r1 = reachable.step [OF r0 d_window, simplified run_simps, simplified]
  note r2 = reachable.step [OF r1 d_deliver [where j = "\<lparr> jb_rd = [([5, 6], REof)], jb_from = 0, jb_rem = 3, jb_pad = False \<rparr>"], simplified run_simps, simplified]
  note r3 = reachable.step [OF r2 e_open [where q = "0" and qs = "[]"], simplified run_simps, simplified]
  note r4 = reachable.step [OF r3 e_header [where q = "0"], simplified run_simps, simplified]
  note r5 = reachable.fault [OF r4 f_cancel, simplified run_simps, simplified]
  note r6 = reachable.step [OF r5 d_abort, simplified run_simps, simplified]
  note r7 = reachable.step [OF r6 w_exit, simplified run_simps, simplified]
  note r8 = reachable.step [OF r7 w_exit, simplified run_simps, simplified]
  show ?thesis
    by (rule exI, rule conjI, rule r8) (auto elim!: astep.cases split: if_splits)
qed

end
