(* ===== verification/Budget.thy ===== *)
theory Budget
  imports Main
begin

text \<open>
  The byte budget of the asynchronous source at the level of its lock and condition variable,
  \<open>chunkBudget\<close> of \<^verbatim>\<open>src/archive/async.go\<close>.  In the transition system of the source taking a credit is
  one step; here a waiting call checks, then goes to sleep with the lock held in between, and is woken
  by a broadcast, which comes after the lock has been given up.  The goroutine that announces
  cancellation broadcasts without ever taking the lock.
\<close>

subsection \<open>State and steps\<close>

text \<open>
  A caller is the worker of one payload: outside \<open>acquire\<close>, at the head of its loop, in \<open>Wait\<close>, or sent away
  with \<open>false\<close>.  \<open>bg_held\<close> counts the credits given out, \<open>bg_bcast\<close> the broadcasts that \<open>release\<close> and
  \<open>setHead\<close> still owe, \<open>bg_told\<close> whether the announcement has been made.
\<close>

datatype caller = Away | Checking | Asleep | Refused

record chunkBudget =
  bg_avail :: int
  bg_head :: "nat option"
  bg_done :: bool
  bg_lock :: "nat option"
  bg_caller :: "nat \<Rightarrow> caller"
  bg_held :: nat
  bg_bcast :: nat
  bg_told :: bool

definition newChunkBudget :: "int \<Rightarrow> chunkBudget" where
  "newChunkBudget chunks = \<lparr> bg_avail = chunks, bg_head = None, bg_done = False, bg_lock = None,
     bg_caller = (\<lambda>_. Away), bg_held = 0, bg_bcast = 0, bg_told = False \<rparr>"

definition Broadcast :: "(nat \<Rightarrow> caller) \<Rightarrow> nat \<Rightarrow> caller" where
  "Broadcast w = (\<lambda>i. if w i = Asleep then Checking else w i)"

inductive bstep :: "chunkBudget \<Rightarrow> chunkBudget \<Rightarrow> bool" where
  acquire_call: "bg_caller b i = Away \<Longrightarrow> bstep b (b\<lparr> bg_caller := (bg_caller b)(i := Checking) \<rparr>)"
| acquire_pass: "bg_caller b i = Checking \<Longrightarrow> bg_lock b = None \<Longrightarrow> 1 \<le> bg_avail b \<or> bg_head b = Some i \<Longrightarrow> \<not> bg_done b \<Longrightarrow>
     bstep b (b\<lparr> bg_avail := bg_avail b - 1, bg_held := bg_held b + 1, bg_caller := (bg_caller b)(i := Away) \<rparr>)"
| acquire_refuse: "bg_caller b i = Checking \<Longrightarrow> bg_lock b = None \<Longrightarrow> bg_done b \<Longrightarrow>
     bstep b (b\<lparr> bg_caller := (bg_caller b)(i := Refused) \<rparr>)"
| acquire_block: "bg_caller b i = Checking \<Longrightarrow> bg_lock b = None \<Longrightarrow> bg_avail b < 1 \<Longrightarrow> bg_head b \<noteq> Some i \<Longrightarrow> \<not> bg_done b \<Longrightarrow>
     bstep b (b\<lparr> bg_lock := Some i \<rparr>)"
| acquire_wait: "bg_lock b = Some i \<Longrightarrow> bstep b (b\<lparr> bg_lock := None, bg_caller := (bg_caller b)(i := Asleep) \<rparr>)"
| release: "0 < bg_held b \<Longrightarrow> bg_lock b = None \<Longrightarrow>
     bstep b (b\<lparr> bg_avail := bg_avail b + 1, bg_held := bg_held b - 1, bg_bcast := bg_bcast b + 1 \<rparr>)"
| setHead: "bg_lock b = None \<Longrightarrow> bstep b (b\<lparr> bg_head := Some i, bg_bcast := bg_bcast b + 1 \<rparr>)"
| wake: "0 < bg_bcast b \<Longrightarrow> bstep b (b\<lparr> bg_bcast := bg_bcast b - 1, bg_caller := Broadcast (bg_caller b) \<rparr>)"
| cancel: "bstep b (b\<lparr> bg_done := True \<rparr>)"
| tell: "bg_done b \<Longrightarrow> \<not> bg_told b \<Longrightarrow> bstep b (b\<lparr> bg_told := True, bg_caller := Broadcast (bg_caller b) \<rparr>)"

inductive_cases bstep_elim: "bstep b b'"

lemma Broadcast_Asleep [simp]: "Broadcast w i \<noteq> Asleep"
  by (simp add: Broadcast_def)

subsection \<open>No wake-up is lost to a release\<close>

text \<open>
  A caller that holds the lock between its check and \<open>Wait\<close> has just seen that it cannot pass, and
  whatever lets a sleeper pass owes a broadcast.  Credits are neither made nor lost.
\<close>

definition waiters_inv :: "int \<Rightarrow> chunkBudget \<Rightarrow> bool" where
  "waiters_inv chunks b \<longleftrightarrow>
     bg_avail b + int (bg_held b) = chunks \<and>
     (\<forall>i. bg_lock b = Some i \<longrightarrow> bg_avail b < 1 \<and> bg_head b \<noteq> Some i) \<and>
     (bg_bcast b = 0 \<longrightarrow> (\<forall>i. bg_caller b i = Asleep \<longrightarrow> bg_avail b < 1 \<and> bg_head b \<noteq> Some i))"

lemma waiters_inv_new [simp]: "waiters_inv chunks (newChunkBudget chunks)"
  by (simp add: waiters_inv_def newChunkBudget_def)

lemma waiters_inv_step: "bstep b b' \<Longrightarrow> waiters_inv chunks b \<Longrightarrow> waiters_inv chunks b'"
  by (induction rule: bstep.induct) (auto simp: waiters_inv_def)

lemma waiters_inv_steps: "bstep\<^sup>*\<^sup>* b b' \<Longrightarrow> waiters_inv chunks b \<Longrightarrow> waiters_inv chunks b'"
  by (induction rule: rtranclp_induct) (auto intro: waiters_inv_step)

text \<open>
  C31: The budget loses no wake-up to a release: in every state the budget can reach, a caller that sleeps although a
  credit is free, or although its payload is the one being drained, is owed a broadcast by a call
  that has already given the lock up; and the credits free and held always add up to the budget.
\<close>

theorem release_wakes:
  assumes "bstep\<^sup>*\<^sup>* (newChunkBudget chunks) b"
  shows "bg_avail b + int (bg_held b) = chunks \<and>
    (bg_caller b i = Asleep \<and> (1 \<le> bg_avail b \<or> bg_head b = Some i) \<longrightarrow> 0 < bg_bcast b)"
  using waiters_inv_steps [OF assms waiters_inv_new] by (fastforce simp: waiters_inv_def)

subsection \<open>A cancellation can lose one\<close>

lemma bstep_take:
  assumes "1 \<le> bg_avail b" "bg_caller b i = Away" "bg_lock b = None" "\<not> bg_done b"
  shows "bstep\<^sup>*\<^sup>* b (b\<lparr> bg_avail := bg_avail b - 1, bg_held := bg_held b + 1 \<rparr>)"
proof -
  let ?b = "b\<lparr> bg_caller := (bg_caller b)(i := Checking) \<rparr>"
  have "bstep b ?b" by (rule acquire_call [of b i]) (rule assms)
  moreover have "bstep ?b (b\<lparr> bg_avail := bg_avail b - 1, bg_held := bg_held b + 1 \<rparr>)"
    using acquire_pass [of ?b i] assms by (simp add: fun_upd_idem)
  ultimately show ?thesis by (meson converse_rtranclp_into_rtranclp r_into_rtranclp)
qed

text \<open>The budget with both credits of two out and caller 0 on its way into \<open>Wait\<close>.\<close>

definition spent :: "nat option \<Rightarrow> caller \<Rightarrow> bool \<Rightarrow> bool \<Rightarrow> nat \<Rightarrow> chunkBudget" where
  "spent lock c dn told bc = \<lparr> bg_avail = 0, bg_head = None, bg_done = dn, bg_lock = lock,
     bg_caller = (\<lambda>_. Away)(0 := c), bg_held = 2, bg_bcast = bc, bg_told = told \<rparr>"

lemma spent_reach: "bstep\<^sup>*\<^sup>* (newChunkBudget 2) (spent (Some 0) Checking False False 0)"
proof -
  have "bstep\<^sup>*\<^sup>* (newChunkBudget 2) (newChunkBudget 2\<lparr> bg_avail := 1, bg_held := 1 \<rparr>)"
    using bstep_take [of "newChunkBudget 2" 0] by (simp add: newChunkBudget_def)
  also have "bstep\<^sup>*\<^sup>* \<dots> (spent None Away False False 0)"
    using bstep_take [of "newChunkBudget 2\<lparr> bg_avail := 1, bg_held := 1 \<rparr>" 0]
    by (simp add: newChunkBudget_def spent_def fun_upd_idem numeral_2_eq_2)
  also have "bstep\<^sup>*\<^sup>* \<dots> (spent None Checking False False 0)"
    using acquire_call [of "spent None Away False False 0" 0] by (simp add: spent_def r_into_rtranclp)
  also have "bstep\<^sup>*\<^sup>* \<dots> (spent (Some 0) Checking False False 0)"
    using acquire_block [of "spent None Checking False False 0" 0] by (simp add: spent_def r_into_rtranclp)
  finally show ?thesis .
qed

theorem release_wakes_witness:
  "\<exists>b. bstep\<^sup>*\<^sup>* (newChunkBudget 2) b \<and> bg_caller b 0 = Asleep \<and> 1 \<le> bg_avail b \<and> 0 < bg_bcast b"
proof -
  let ?s = "spent None Asleep False False 0"
  let ?b = "?s\<lparr> bg_avail := 1, bg_held := 1, bg_bcast := 1 \<rparr>"
  note spent_reach
  also have "bstep\<^sup>*\<^sup>* (spent (Some 0) Checking False False 0) ?s"
    using acquire_wait [of "spent (Some 0) Checking False False 0" 0] by (simp add: spent_def r_into_rtranclp)
  also have "bstep\<^sup>*\<^sup>* ?s ?b"
    using release [of ?s] by (simp add: spent_def r_into_rtranclp)
  finally have r: "bstep\<^sup>*\<^sup>* (newChunkBudget 2) ?b" .
  have "bg_caller ?b 0 = Asleep" "1 \<le> bg_avail ?b" by (simp_all add: spent_def)
  with r release_wakes [OF r, of 0] show ?thesis by blast
qed

text \<open>
  C33: A cancellation can lose one.  When the context is cancelled while a caller has found no credit and is
  about to wait, the announcement comes before it sleeps: it then sleeps in a cancelled budget that has
  made its only announcement and owes no broadcast, and no single step wakes it.
\<close>

theorem cancel_loses_wakeup:
  "\<exists>b. bstep\<^sup>*\<^sup>* (newChunkBudget 2) b \<and> bg_done b \<and> bg_told b \<and> bg_caller b 0 = Asleep \<and>
     {b'. bstep b b' \<and> bg_caller b' 0 \<noteq> Asleep} = {}"
proof -
  let ?b = "spent None Asleep True True 0"
  have b: "Broadcast ((\<lambda>_. Away)(0 := Checking)) = (\<lambda>_. Away)(0 := Checking)" by (auto simp: Broadcast_def)
  note spent_reach
  also have "bstep\<^sup>*\<^sup>* (spent (Some 0) Checking False False 0) (spent (Some 0) Checking True False 0)"
    using cancel [of "spent (Some 0) Checking False False 0"] by (simp add: spent_def r_into_rtranclp)
  also have "bstep\<^sup>*\<^sup>* \<dots> (spent (Some 0) Checking True True 0)"
    using tell [of "spent (Some 0) Checking True False 0"] by (simp add: spent_def b r_into_rtranclp)
  also have "bstep\<^sup>*\<^sup>* \<dots> ?b"
    using acquire_wait [of "spent (Some 0) Checking True True 0" 0] by (simp add: spent_def r_into_rtranclp)
  finally have "bstep\<^sup>*\<^sup>* (newChunkBudget 2) ?b" .
  moreover have "\<not> (bstep ?b b' \<and> bg_caller b' 0 \<noteq> Asleep)" for b'
    by (auto elim!: bstep_elim simp: spent_def split: if_splits)
  ultimately show ?thesis by (intro exI [of _ ?b]) (auto simp: spent_def)
qed

end
