(* ===== verification/Produce.thy ===== *)
theory Produce
  imports Chunker Resolve "HOL-Library.Sublist"
begin

text \<open>
  The producer of an upload, \<open>produceFramed\<close> and the first goroutine of \<open>uploadIndexStream\<close> in
  \<^verbatim>\<open>src/pbs/upload.go\<close>: it turns a stream into numbered chunk jobs.  A plain stream is cut by the chunker;
  in a framed one the data frames are cut and every injected chunk of the previous snapshot becomes a
  job of its own, at its place.

  \<open>emit\<close> hands a job to the workers until the context is cancelled; how many it still takes is a
  field of the state (\<open>None\<close>: no cancellation).
\<close>

subsection \<open>Jobs\<close>

record chunkJob =
  cj_seq :: nat
  cj_offset :: u64
  cj_data :: bytes
  cj_known :: bool
  cj_digest :: bytes
  cj_size :: u64

datatype prod_error = PdCanceled | PdSizeZero | PdReuse "string reuse_error" | PdChunker chunker_error

record producer =
  pd_c :: Chunker
  pd_current :: bytes
  pd_offset :: u64
  pd_seq :: nat
  pd_jobs :: "chunkJob list"
  pd_room :: "nat option"

definition data_job :: "nat \<Rightarrow> u64 \<Rightarrow> bytes \<Rightarrow> chunkJob" where
  "data_job seq off d = \<lparr> cj_seq = seq, cj_offset = off, cj_data = d, cj_known = False,
     cj_digest = replicate 32 0, cj_size = 0 \<rparr>"

definition known_job :: "nat \<Rightarrow> u64 \<Rightarrow> bytes \<Rightarrow> u64 \<Rightarrow> chunkJob" where
  "known_job seq off dig sz = \<lparr> cj_seq = seq, cj_offset = off, cj_data = [], cj_known = True,
     cj_digest = dig, cj_size = sz \<rparr>"

definition prod_emit :: "chunkJob \<Rightarrow> producer \<Rightarrow> producer \<times> bool" where
  "prod_emit j s =
     (case pd_room s of
        Some 0 \<Rightarrow> (s, False)
      | Some (Suc k) \<Rightarrow> (s\<lparr> pd_jobs := pd_jobs s @ [j], pd_room := Some k \<rparr>, True)
      | None \<Rightarrow> (s\<lparr> pd_jobs := pd_jobs s @ [j] \<rparr>, True))"

definition prod_cut :: "producer \<Rightarrow> producer \<times> bool" where
  "prod_cut s =
     (if pd_current s = [] then (s, True)
      else
        (case prod_emit (data_job (pd_seq s) (pd_offset s) (pd_current s)) s of
           (s', False) \<Rightarrow> (s', False)
         | (s', True) \<Rightarrow>
             (s'\<lparr> pd_seq := pd_seq s + 1, pd_offset := pd_offset s + len64 (pd_current s), pd_current := [] \<rparr>, True)))"

function prod_data :: "producer \<Rightarrow> bytes \<Rightarrow> producer \<times> bool" where
  "prod_data s seg =
     (if seg = [] then (s, True)
      else
        (case Scan (pd_c s) seg of (c, pos) \<Rightarrow>
           if pos = 0 then (s\<lparr> pd_c := c, pd_current := pd_current s @ seg \<rparr>, True)
           else
             (case prod_cut (s\<lparr> pd_c := c, pd_current := pd_current s @ take pos seg \<rparr>) of
                (s', False) \<Rightarrow> (s', False)
              | (s', True) \<Rightarrow> prod_data s' (drop pos seg))))"
  by pat_completeness auto
termination
  by (relation "measure (\<lambda>(s, seg). length seg)") auto

fun prod_inject :: "producer \<Rightarrow> Chunk_ru list \<Rightarrow> producer \<times> prod_error option" where
  "prod_inject s [] = (s, None)"
| "prod_inject s (ch # chs) =
     (if rc_Size ch = 0 then (s, Some PdSizeZero)
      else
        (case prod_emit (known_job (pd_seq s) (pd_offset s) (rc_Digest ch) (rc_Size ch)) s of
           (s', False) \<Rightarrow> (s', Some PdCanceled)
         | (s', True) \<Rightarrow>
             prod_inject (s'\<lparr> pd_seq := pd_seq s + 1, pd_offset := pd_offset s + rc_Size ch \<rparr>) chs))"

definition prod_frame :: "producer \<Rightarrow> frame \<Rightarrow> producer \<times> prod_error option" where
  "prod_frame s fr =
     (case fr of
        FrData d \<Rightarrow> (case prod_data s d of (s', ok) \<Rightarrow> (s', if ok then None else Some PdCanceled))
      | FrInject chs \<Rightarrow>
          (case prod_cut s of
             (s', False) \<Rightarrow> (s', Some PdCanceled)
           | (s', True) \<Rightarrow> prod_inject (s'\<lparr> pd_c := Reset (pd_c s') \<rparr>) chs))"

function prod_loop :: "producer \<Rightarrow> string rd \<Rightarrow> producer \<times> prod_error option" where
  "prod_loop s r =
     (case Next_ru r of
        (Inl e, _) \<Rightarrow> (s, Some (PdReuse e))
      | (Inr None, _) \<Rightarrow> (case prod_cut s of (s', ok) \<Rightarrow> (s', if ok then None else Some PdCanceled))
      | (Inr (Some fr), r') \<Rightarrow>
          (case prod_frame s fr of
             (s', Some e) \<Rightarrow> (s', Some e)
           | (s', None) \<Rightarrow> prod_loop s' r'))"
  by pat_completeness auto
termination
  by (relation "measure (\<lambda>(s, r). length (rd_bytes r))") (auto dest!: Next_ru_shorter [OF sym])

declare prod_data.simps [simp del] prod_loop.simps [simp del]

definition produceFramed :: "string rd \<Rightarrow> u64 \<Rightarrow> nat option \<Rightarrow> chunkJob list \<times> prod_error option" where
  "produceFramed r avg room =
     (case New avg of
        Inl e \<Rightarrow> ([], Some (PdChunker e))
      | Inr c \<Rightarrow>
          (case prod_loop \<lparr> pd_c = c, pd_current = [], pd_offset = 0, pd_seq = 0, pd_jobs = [], pd_room = room \<rparr> r of
             (s, e) \<Rightarrow> (pd_jobs s, e)))"

text \<open>A plain stream: the chunks of \<open>Split\<close>, numbered.\<close>

fun prod_plain :: "nat \<Rightarrow> (chunker_error + Chunk) list \<Rightarrow> nat option \<Rightarrow> chunkJob list \<times> prod_error option" where
  "prod_plain seq [] room = ([], None)"
| "prod_plain seq (Inl e # xs) room = ([], Some (PdChunker e))"
| "prod_plain seq (Inr c # xs) room =
     (if room = Some 0 then ([], Some PdCanceled)
      else
        (case prod_plain (seq + 1) xs (map_option (\<lambda>n. n - 1) room) of
           (js, e) \<Rightarrow> (data_job seq (ch_Offset c) (ch_Data c) # js, e)))"

definition MultiReader :: "bytes \<Rightarrow> string rd \<Rightarrow> string rd" where
  "MultiReader pre r = (if pre = [] then r else (pre, ROk) # r)"

definition produce :: "string rd \<Rightarrow> u64 \<Rightarrow> nat option \<Rightarrow> chunkJob list \<times> prod_error option" where
  "produce r avg room =
     (case NewReader_ru r of
        (Inr _, r') \<Rightarrow> produceFramed r' avg room
      | (Inl (pre, RuNotFramed), r') \<Rightarrow> prod_plain 0 (Split (MultiReader pre r') avg) room
      | (Inl (_, e), r') \<Rightarrow> ([], Some (PdReuse e)))"

subsection \<open>The reference: pieces of the stream\<close>

datatype piece = PcData bytes | PcKnown bytes u64

fun piece_size :: "piece \<Rightarrow> u64" where
  "piece_size (PcData d) = len64 d"
| "piece_size (PcKnown dig sz) = sz"

fun piece_job :: "nat \<Rightarrow> u64 \<Rightarrow> piece \<Rightarrow> chunkJob" where
  "piece_job seq off (PcData d) = data_job seq off d"
| "piece_job seq off (PcKnown dig sz) = known_job seq off dig sz"

fun jobs_from :: "nat \<Rightarrow> u64 \<Rightarrow> piece list \<Rightarrow> chunkJob list" where
  "jobs_from seq off [] = []"
| "jobs_from seq off (p # ps) = piece_job seq off p # jobs_from (seq + 1) (off + piece_size p) ps"

definition rest_piece :: "bytes \<Rightarrow> piece list" where
  "rest_piece cur = (if cur = [] then [] else [PcData cur])"

definition known_pieces :: "Chunk_ru list \<Rightarrow> piece list" where
  "known_pieces chs = map (\<lambda>c. PcKnown (rc_Digest c) (rc_Size c)) chs"

text \<open>
  Data frames are cut as one stream until an injection, which ends the chunk begun and starts the
  chunker afresh.
\<close>

fun pieces :: "Chunker \<Rightarrow> bytes \<Rightarrow> frame list \<Rightarrow> piece list" where
  "pieces c cur [] = rest_piece cur"
| "pieces c cur (FrData p # fs) = map PcData (fst (cuts c cur p)) @ pieces c (snd (cuts c cur p)) fs"
| "pieces c cur (FrInject chs # fs) = rest_piece cur @ known_pieces chs @ pieces c [] fs"

definition pieces_size :: "piece list \<Rightarrow> u64" where
  "pieces_size ps = sum_list (map piece_size ps)"

lemma pieces_size_simps [simp]:
  "pieces_size [] = 0" "pieces_size (p # ps) = piece_size p + pieces_size ps"
  "pieces_size (ps @ qs) = pieces_size ps + pieces_size qs"
  by (simp_all add: pieces_size_def)

lemma jobs_from_append:
  "jobs_from seq off (ps @ qs) = jobs_from seq off ps @ jobs_from (seq + length ps) (off + pieces_size ps) qs"
  by (induction ps arbitrary: seq off) (simp_all add: add.assoc)

lemma length_jobs_from [simp]: "length (jobs_from seq off ps) = length ps"
  by (induction ps arbitrary: seq off) auto

lemma prefix_jobs [intro]: "prefix (jobs_from seq off ps) (jobs_from seq off (ps @ qs))"
  by (simp add: jobs_from_append)

subsection \<open>The producer emits the pieces\<close>

definition prod_at :: "producer \<Rightarrow> piece list \<Rightarrow> bool" where
  "prod_at s ps \<longleftrightarrow> pd_jobs s = jobs_from 0 0 ps \<and> pd_seq s = length ps \<and> pd_offset s = pieces_size ps"

text \<open>A step that stops has emitted a prefix; without a bound on the jobs it does not stop.\<close>

definition emits :: "producer \<Rightarrow> piece list \<Rightarrow> producer \<times> bool \<Rightarrow> piece list \<Rightarrow> bool" where
  "emits s ps res qs \<longleftrightarrow> (case res of (s', ok) \<Rightarrow>
     (if ok then prod_at s' (ps @ qs) else prefix (pd_jobs s') (jobs_from 0 0 (ps @ qs))) \<and>
     (pd_room s = None \<longrightarrow> pd_room s' = None \<and> ok))"

lemma prod_emit_emits:
  assumes "prod_at s ps" "j = piece_job (pd_seq s) (pd_offset s) p" "prod_emit j s = (s', ok)"
  shows "(if ok then prod_at (s'\<lparr> pd_seq := pd_seq s + 1, pd_offset := pd_offset s + piece_size p \<rparr>) (ps @ [p]) \<and>
             pd_c s' = pd_c s
          else pd_jobs s' = pd_jobs s) \<and>
    (pd_room s = None \<longrightarrow> pd_room s' = None \<and> ok)"
  using assms by (auto simp: prod_emit_def prod_at_def jobs_from_append split: option.splits nat.splits)

lemma prod_cut_emits:
  assumes "prod_at s ps" "prod_cut s = (s', ok)"
  shows "emits s ps (s', ok) (rest_piece (pd_current s)) \<and> (ok \<longrightarrow> pd_current s' = [] \<and> pd_c s' = pd_c s)"
proof (cases "pd_current s = []")
  case True
  then show ?thesis using assms by (auto simp: prod_cut_def emits_def rest_piece_def)
next
  case False
  obtain s1 ok1 where e: "prod_emit (data_job (pd_seq s) (pd_offset s) (pd_current s)) s = (s1, ok1)" by fastforce
  then show ?thesis
    using prod_emit_emits [OF assms(1) _ e, of "PcData (pd_current s)"] assms False
    by (auto simp: prod_cut_def emits_def rest_piece_def prod_at_def split: if_splits bool.splits)
qed

lemma prod_data_emits:
  assumes "prod_at s ps" "chunk_ok (pd_c s) (pd_current s)" "prod_data s seg = (s', ok)"
  shows "emits s ps (s', ok) (map PcData (fst (cuts (pd_c s) (pd_current s) seg))) \<and>
    (ok \<longrightarrow> pd_current s' = snd (cuts (pd_c s) (pd_current s) seg) \<and> chunk_ok (pd_c s') (pd_current s') \<and>
       same_params (pd_c s) (pd_c s'))"
  using assms
proof (induction s seg arbitrary: ps rule: prod_data.induct)
  case (1 s seg)
  note eq = "1.prems"(3) [unfolded prod_data.simps [of s]]
  obtain c pos where sc: "Scan (pd_c s) seg = (c, pos)" by fastforce
  have res: "scan_result (pd_c s) (pd_current s) seg 0 (c, pos)"
    using Scan_result [OF "1.prems"(2), of seg] sc by simp
  consider "seg = []" | "seg \<noteq> []" "pos = 0" | "seg \<noteq> []" "pos \<noteq> 0" by blast
  then show ?case
  proof cases
    case 1
    then show ?thesis using "1.prems" eq by (auto simp: emits_def)
  next
    case 2
    then show ?thesis using "1.prems" eq sc res by (auto simp: emits_def scan_result_def prod_at_def)
  next
    case 3
    let ?cur = "pd_current s @ take pos seg"
    let ?s = "s\<lparr> pd_c := c, pd_current := ?cur \<rparr>"
    have ok': "chunk_ok c []" "same_params (pd_c s) c"
      and cut: "cuts (pd_c s) (pd_current s) seg = (?cur # fst (cuts c [] (drop pos seg)), snd (cuts c [] (drop pos seg)))"
      using res 3 cuts_cong [of "pd_c s" c] by (simp_all add: scan_result_def)
    have ne: "rest_piece ?cur = [PcData ?cur]" using 3 by (simp add: rest_piece_def)
    obtain s1 ok1 where c1: "prod_cut ?s = (s1, ok1)" by fastforce
    have "prod_at ?s ps" using "1.prems"(1) by (simp add: prod_at_def)
    note e1 = prod_cut_emits [OF this c1]
    show ?thesis
    proof (cases ok1)
      case False
      have "prefix (pd_jobs s1) (jobs_from 0 0 (ps @ PcData ?cur # map PcData (fst (cuts c [] (drop pos seg)))))"
        using e1 False ne prefix_jobs [of 0 0 "ps @ [PcData ?cur]"] by (auto simp: emits_def intro: prefix_order.trans)
      then show ?thesis using False e1 eq 3 sc c1 cut by (auto simp: emits_def)
    next
      case True
      have at: "prod_at s1 (ps @ [PcData ?cur])" "pd_current s1 = []" "pd_c s1 = c"
        using e1 True ne by (auto simp: emits_def)
      have d: "prod_data s1 (drop pos seg) = (s', ok)" using eq 3 sc c1 True by simp
      have ih: "emits s1 (ps @ [PcData ?cur]) (s', ok) (map PcData (fst (cuts c [] (drop pos seg)))) \<and>
          (ok \<longrightarrow> pd_current s' = snd (cuts c [] (drop pos seg)) \<and> chunk_ok (pd_c s') (pd_current s') \<and> same_params c (pd_c s'))"
        using "1.IH" [OF 3(1) sc [symmetric] 3(2) c1 [symmetric], where ps = "ps @ [PcData ?cur]"] True at ok'(1) d by auto
      then show ?thesis using cut e1 True same_params_trans [OF ok'(2)] by (auto simp: emits_def)
    qed
  qed
qed

lemma prod_inject_emits:
  assumes "prod_at s ps" "prod_inject s chs = (s', e)"
  shows "(if e = None then prod_at s' (ps @ known_pieces chs) \<and> pd_c s' = pd_c s \<and> pd_current s' = pd_current s
          else prefix (pd_jobs s') (jobs_from 0 0 (ps @ known_pieces chs))) \<and>
    (pd_room s = None \<longrightarrow> pd_room s' = None \<and> (e = None \<longleftrightarrow> list_all (\<lambda>c. rc_Size c \<noteq> 0) chs))"
  using assms
proof (induction s chs arbitrary: ps rule: prod_inject.induct)
  case (1 s)
  then show ?case by (auto simp: known_pieces_def)
next
  case (2 s ch chs)
  let ?p = "PcKnown (rc_Digest ch) (rc_Size ch)"
  have k: "known_pieces (ch # chs) = ?p # known_pieces chs" by (simp add: known_pieces_def)
  show ?case
  proof (cases "rc_Size ch = 0")
    case True
    then show ?thesis using "2.prems" by (auto simp: prod_at_def)
  next
    case False
    obtain s1 ok where e1: "prod_emit (known_job (pd_seq s) (pd_offset s) (rc_Digest ch) (rc_Size ch)) s = (s1, ok)" by fastforce
    note em = prod_emit_emits [OF "2.prems"(1) _ e1, of ?p]
    let ?s = "s1\<lparr> pd_seq := pd_seq s + 1, pd_offset := pd_offset s + rc_Size ch \<rparr>"
    have cur: "pd_current s1 = pd_current s"
      using e1 by (auto simp: prod_emit_def split: option.splits nat.splits)
    show ?thesis
    proof (cases ok)
      case True
      then have "prod_inject ?s chs = (s', e)" using "2.prems"(2) False e1 by simp
      then show ?thesis using "2.IH" [OF False e1 [symmetric], of "ps @ [?p]"] True em False k cur by (cases e) simp_all
    next
      case nok: False
      then show ?thesis using "2.prems" False e1 em k by (auto simp: prod_at_def)
    qed
  qed
qed

lemma chunk_ok_afresh: "chunk_ok c cur \<Longrightarrow> chunk_ok (Reset c) []"
  by (auto simp: chunk_ok_def Reset_def buzhash_def last64_def)

lemma same_params_Reset: "same_params c (Reset c)"
  by (simp add: same_params_def Reset_def)

fun sizes_ok :: "frame \<Rightarrow> bool" where
  "sizes_ok (FrData p) \<longleftrightarrow> True"
| "sizes_ok (FrInject chs) \<longleftrightarrow> list_all (\<lambda>c. rc_Size c \<noteq> 0) chs"

lemma prod_frame_emits:
  assumes at: "prod_at s ps" and ok: "chunk_ok (pd_c s) (pd_current s)" and eq: "prod_frame s fr = (s', e)"
  shows "\<exists>qs cur. (\<forall>fs. pieces (pd_c s) (pd_current s) (fr # fs) = qs @ pieces (pd_c s) cur fs) \<and>
    (if e = None then prod_at s' (ps @ qs) \<and> pd_current s' = cur \<and> chunk_ok (pd_c s') cur \<and> same_params (pd_c s) (pd_c s')
     else prefix (pd_jobs s') (jobs_from 0 0 (ps @ qs))) \<and>
    (pd_room s = None \<longrightarrow> pd_room s' = None \<and> (e = None \<longleftrightarrow> sizes_ok fr))"
proof (cases fr)
  case (FrData p)
  obtain s1 ok1 where "prod_data s p = (s1, ok1)" by fastforce
  with prod_data_emits [OF at ok this] eq FrData show ?thesis
    by (intro exI [of _ "map PcData (fst (cuts (pd_c s) (pd_current s) p))"] exI [of _ "snd (cuts (pd_c s) (pd_current s) p)"])
      (auto simp: prod_frame_def emits_def split: if_splits)
next
  case (FrInject chs)
  obtain s1 ok1 where c1: "prod_cut s = (s1, ok1)" by fastforce
  note e1 = prod_cut_emits [OF at c1]
  let ?qs = "rest_piece (pd_current s) @ known_pieces chs"
  show ?thesis
  proof (intro exI [of _ ?qs] exI [of _ "[]"] conjI)
    show "\<forall>fs. pieces (pd_c s) (pd_current s) (fr # fs) = ?qs @ pieces (pd_c s) [] fs" by (simp add: FrInject)
    show "if e = None then prod_at s' (ps @ ?qs) \<and> pd_current s' = [] \<and> chunk_ok (pd_c s') [] \<and> same_params (pd_c s) (pd_c s')
       else prefix (pd_jobs s') (jobs_from 0 0 (ps @ ?qs))"
      and "pd_room s = None \<longrightarrow> pd_room s' = None \<and> (e = None \<longleftrightarrow> sizes_ok fr)"
    proof (atomize (full), cases ok1)
      case True
      let ?s = "s1\<lparr> pd_c := Reset (pd_c s1) \<rparr>"
      have "prod_at ?s (ps @ rest_piece (pd_current s))" using e1 True by (simp add: emits_def prod_at_def)
      moreover have "prod_inject ?s chs = (s', e)" using eq FrInject c1 True by (simp add: prod_frame_def)
      ultimately show "(if e = None then prod_at s' (ps @ ?qs) \<and> pd_current s' = [] \<and> chunk_ok (pd_c s') [] \<and> same_params (pd_c s) (pd_c s')
           else prefix (pd_jobs s') (jobs_from 0 0 (ps @ ?qs))) \<and>
         (pd_room s = None \<longrightarrow> pd_room s' = None \<and> (e = None \<longleftrightarrow> sizes_ok fr))"
        using prod_inject_emits [of ?s "ps @ rest_piece (pd_current s)" chs s' e] e1 True FrInject
          chunk_ok_afresh [OF ok] same_params_Reset [of "pd_c s"] by (auto simp: emits_def)
    next
      case False
      have "prefix (pd_jobs s1) (jobs_from 0 0 (ps @ ?qs))"
        using e1 False prefix_jobs [of 0 0 "ps @ rest_piece (pd_current s)" "known_pieces chs"]
        by (auto simp: emits_def intro: prefix_order.trans)
      then show "(if e = None then prod_at s' (ps @ ?qs) \<and> pd_current s' = [] \<and> chunk_ok (pd_c s') [] \<and> same_params (pd_c s) (pd_c s')
           else prefix (pd_jobs s') (jobs_from 0 0 (ps @ ?qs))) \<and>
         (pd_room s = None \<longrightarrow> pd_room s' = None \<and> (e = None \<longleftrightarrow> sizes_ok fr))"
        using e1 False eq FrInject c1 by (auto simp: prod_frame_def emits_def)
    qed
  qed
qed

lemma pieces_cong: "same_params c d \<Longrightarrow> pieces c cur fs = pieces d cur fs"
proof (induction c cur fs rule: pieces.induct)
  case (2 c cur p fs)
  then show ?case using cuts_cong [OF "2.prems"] by simp
qed auto

lemma prod_loop_emits:
  assumes "prod_at s ps" "chunk_ok (pd_c s) (pd_current s)" "frames_of r = (fs, err)" "prod_loop s r = (s', e)"
  shows "(if e = None then err = None \<and> pd_jobs s' = jobs_from 0 0 (ps @ pieces (pd_c s) (pd_current s) fs)
          else prefix (pd_jobs s') (jobs_from 0 0 (ps @ pieces (pd_c s) (pd_current s) fs))) \<and>
    (pd_room s = None \<longrightarrow> (e = None \<longleftrightarrow> err = None \<and> list_all sizes_ok fs))"
  using assms
proof (induction s r arbitrary: ps fs rule: prod_loop.induct)
  case (1 s r)
  note eq = "1.prems"(4) [unfolded prod_loop.simps [of s r]] and fo = "1.prems"(3) [unfolded frames_of.simps [of r]]
  obtain x r' where n: "Next_ru r = (x, r')" by fastforce
  show ?case
  proof (cases x)
    case (Inl a)
    then show ?thesis using eq fo n "1.prems"(1) by (auto simp: prod_at_def)
  next
    case (Inr o')
    show ?thesis
    proof (cases o')
      case None
      obtain s1 ok where c: "prod_cut s = (s1, ok)" by fastforce
      then show ?thesis using eq fo n Inr None prod_cut_emits [OF "1.prems"(1) c]
        by (auto simp: emits_def prod_at_def split: if_splits)
    next
      case (Some fr)
      obtain fs' where fs: "frames_of r' = (fs', err)" "fs = fr # fs'"
        using fo n Inr Some by (cases "frames_of r'") auto
      obtain s1 e1 where f: "prod_frame s fr = (s1, e1)" by fastforce
      obtain qs cur where q0: "\<forall>gs. pieces (pd_c s) (pd_current s) (fr # gs) = qs @ pieces (pd_c s) cur gs"
        and q2: "if e1 = None then prod_at s1 (ps @ qs) \<and> pd_current s1 = cur \<and> chunk_ok (pd_c s1) cur \<and> same_params (pd_c s) (pd_c s1)
           else prefix (pd_jobs s1) (jobs_from 0 0 (ps @ qs))"
        and q3: "pd_room s = None \<longrightarrow> pd_room s1 = None \<and> (e1 = None \<longleftrightarrow> sizes_ok fr)"
        using prod_frame_emits [OF "1.prems"(1,2) f] by (elim exE conjE) (rule that)
      have q1: "pieces (pd_c s) (pd_current s) fs = qs @ pieces (pd_c s) cur fs'" using q0 fs(2) by simp
      note q = q1 q2 q3
      show ?thesis
      proof (cases e1)
        case None
        have l: "prod_loop s1 r' = (s', e)" using eq n Inr Some f None by simp
        have a: "prod_at s1 (ps @ qs)" "chunk_ok (pd_c s1) (pd_current s1)" "pd_current s1 = cur" "same_params (pd_c s) (pd_c s1)"
          using q(2) None by auto
        have "pieces (pd_c s1) (pd_current s1) fs' = pieces (pd_c s) cur fs'" using pieces_cong [OF a(4)] a(3) by simp
        with "1.IH" [OF n [symmetric] Inr Some f [symmetric] None a(1,2) fs(1) l] q(1,3) None
        show ?thesis by (cases e) (simp_all add: fs(2))
      next
        case (Some e')
        then have "(s', e) = (s1, Some e')" using eq n Inr \<open>o' = Some fr\<close> f by simp
        moreover have "prefix (pd_jobs s1) (jobs_from 0 0 ((ps @ qs) @ pieces (pd_c s) cur fs'))"
          using q(2) Some prefix_jobs [of 0 0 "ps @ qs"] by (auto intro: prefix_order.trans)
        ultimately show ?thesis using q Some by (auto simp: fs(2))
      qed
    qed
  qed
qed

text \<open>A producer that ends well has seen no reference of size 0.\<close>

lemma prod_inject_sizes: "prod_inject s chs = (s', None) \<Longrightarrow> list_all (\<lambda>c. rc_Size c \<noteq> 0) chs"
  by (induction s chs rule: prod_inject.induct) (auto simp: Let_def split: if_splits prod.splits bool.splits)

lemma prod_frame_sizes: "prod_frame s fr = (s', None) \<Longrightarrow> sizes_ok fr"
  by (cases fr) (auto simp: prod_frame_def split: if_splits prod.splits bool.splits dest: prod_inject_sizes)

lemma prod_loop_sizes: "prod_loop s r = (s', None) \<Longrightarrow> list_all sizes_ok (fst (frames_of r))"
proof (induction s r rule: prod_loop.induct)
  case (1 s r)
  obtain x r' where n: "Next_ru r = (x, r')" by fastforce
  note eq = "1.prems" [unfolded prod_loop.simps [of s r] n] and IH = "1.IH" [OF n [symmetric]]
  show ?case
  proof (cases x)
    case (Inl a)
    then show ?thesis using eq by simp
  next
    case (Inr o')
    show ?thesis
    proof (cases o')
      case None
      then show ?thesis using n Inr by (simp add: frames_of.simps [of r])
    next
      case (Some fr)
      obtain s1 e1 where f: "prod_frame s fr = (s1, e1)" by fastforce
      have e: "e1 = None" "prod_loop s1 r' = (s', None)" using eq Inr Some f by (auto split: option.splits)
      have "sizes_ok fr" "list_all sizes_ok (fst (frames_of r'))"
        using prod_frame_sizes f e(1) IH [OF Inr Some f [symmetric] e] by auto
      then show ?thesis using n Inr Some by (cases "frames_of r'") (simp add: frames_of.simps [of r])
    qed
  qed
qed

lemma prod_plain_jobs:
  "prod_plain seq (map Inr (at_offsets off ds) @ map Inl es) room = (js, e) \<Longrightarrow>
     prefix js (jobs_from seq off (map PcData ds)) \<and> (e = None \<longrightarrow> es = [] \<and> js = jobs_from seq off (map PcData ds)) \<and>
     (room = None \<longrightarrow> (e = None \<longleftrightarrow> es = []))"
proof (induction ds arbitrary: seq off room js e)
  case Nil
  then show ?case by (cases es) auto
next
  case (Cons d ds)
  let ?room = "map_option (\<lambda>n. n - 1) room"
  obtain js' e' where p: "prod_plain (seq + 1) (map Inr (at_offsets (off + len64 d) ds) @ map Inl es) ?room = (js', e')" by fastforce
  show ?case
  proof (cases "room = Some 0")
    case True
    then show ?thesis using Cons.prems by auto
  next
    case False
    have "prod_plain seq (Inr \<lparr> ch_Data = d, ch_Offset = off \<rparr> # xs) room =
        (case prod_plain (seq + 1) xs ?room of (js, e) \<Rightarrow> (data_job seq off d # js, e))" for xs
      using False by simp
    from this [of "map Inr (at_offsets (off + len64 d) ds) @ map Inl es", unfolded p]
    have "js = data_job seq off d # js'" "e = e'" using Cons.prems by simp_all
    moreover have "jobs_from seq off (map PcData (d # ds)) = data_job seq off d # jobs_from (seq + 1) (off + len64 d) (map PcData ds)" by simp
    ultimately show ?thesis using Cons.IH [OF p] by (simp only: Cons_prefix_Cons list.inject option.map_disc_iff simp_thms) blast
  qed
qed

subsection \<open>The jobs are the stream\<close>

fun piece_image :: "(bytes \<Rightarrow> bytes) \<Rightarrow> piece \<Rightarrow> bytes" where
  "piece_image store (PcData d) = d"
| "piece_image store (PcKnown dig sz) = store dig"

text \<open>What the server is to hold: a plain stream as it is, a framed one with its references resolved.\<close>

definition stream_image :: "(bytes \<Rightarrow> bytes) \<Rightarrow> string rd \<Rightarrow> bytes" where
  "stream_image store r =
     (case NewReader_ru r of
        (Inr _, r') \<Rightarrow> resolve store (fst (frames_of r'))
      | (Inl _, _) \<Rightarrow> rd_bytes r)"

definition stream_ok :: "string rd \<Rightarrow> bool" where
  "stream_ok r =
     (case NewReader_ru r of
        (Inr _, r') \<Rightarrow> snd (frames_of r') = None \<and> list_all sizes_ok (fst (frames_of r'))
      | (Inl (_, e), _) \<Rightarrow> e = RuNotFramed \<and> rd_error r = None)"

fun piece_ok :: "Chunker \<Rightarrow> piece \<Rightarrow> bool" where
  "piece_ok c (PcData d) \<longleftrightarrow> d \<noteq> [] \<and> length d \<le> unat (ck_max c)"
| "piece_ok c (PcKnown dig sz) \<longleftrightarrow> True"

lemma resolve_Cons: "resolve store (f # fs) = frame_image store f @ resolve store fs"
  by (simp add: resolve_def)

lemma pieces_image:
  assumes "64 < unat (ck_max c)" "unat (ck_min c) \<le> unat (ck_max c)" "length cur < unat (ck_max c)"
  shows "concat (map (piece_image store) (pieces c cur fs)) = cur @ resolve store fs \<and> list_all (piece_ok c) (pieces c cur fs)"
  using assms
proof (induction c cur fs rule: pieces.induct)
  case (1 c cur)
  then show ?case by (simp add: rest_piece_def resolve_def)
next
  case (2 c cur p fs)
  note b = cuts_bounds [OF "2.prems", of p]
  have "map (piece_image store) (map PcData xs) = xs" for xs by (induction xs) auto
  moreover have "list_all (piece_ok c) (map PcData (fst (cuts c cur p)))" using b by (auto simp: list_all_iff)
  moreover have "cur @ resolve store (FrData p # fs) = concat (fst (cuts c cur p)) @ snd (cuts c cur p) @ resolve store fs"
    using b by (metis append_assoc frame_image.simps(1) resolve_Cons)
  ultimately show ?case using "2.IH" "2.prems" b by simp
next
  case (3 c cur chs fs)
  have "concat (map (piece_image store) (known_pieces chs)) = chunks_image store chs" "list_all (piece_ok c) (known_pieces chs)"
    by (simp_all add: known_pieces_def chunks_image_def comp_def list_all_iff)
  with 3 show ?case by (simp add: rest_piece_def resolve_def)
qed

lemma split_jobs:
  "Split r avg = map Inr (at_offsets 0 (if rd_error r = None then chunks_of c (rd_bytes r) else fst (cuts c [] (rd_bytes r)))) @
     map Inl (case rd_error r of None \<Rightarrow> [] | Some e \<Rightarrow> [ChunkerRead e])"
  if "New avg = Inr c" "unat avg < 2 ^ 62"
  using Split_cuts_lemma [OF that, of r] by (auto split: option.splits)

text \<open>The chunks that an injected stream references, in order: what the generator's frames hold.\<close>

fun frame_refs :: "frame \<Rightarrow> (bytes \<times> u64) list" where
  "frame_refs (FrData p) = []"
| "frame_refs (FrInject chs) = map (\<lambda>ch. (rc_Digest ch, rc_Size ch)) chs"

fun piece_ref :: "piece \<Rightarrow> (bytes \<times> u64) list" where
  "piece_ref (PcData d) = []"
| "piece_ref (PcKnown dig sz) = [(dig, sz)]"

definition stream_refs :: "string rd \<Rightarrow> (bytes \<times> u64) list" where
  "stream_refs r = (case NewReader_ru r of
     (Inr _, r') \<Rightarrow> concat (map frame_refs (fst (frames_of r'))) | (Inl _, _) \<Rightarrow> [])"

text \<open>The pieces of a stream, as far as it can be read.\<close>

definition plain_chunks :: "Chunker \<Rightarrow> string rd \<Rightarrow> bytes list" where
  "plain_chunks c r = (if rd_error r = None then chunks_of c (rd_bytes r) else fst (cuts c [] (rd_bytes r)))"

definition stream_pieces :: "Chunker \<Rightarrow> string rd \<Rightarrow> piece list" where
  "stream_pieces c r = (case NewReader_ru r of
     (Inr _, r') \<Rightarrow> pieces c [] (fst (frames_of r'))
   | (Inl (_, e), _) \<Rightarrow> if e = RuNotFramed then map PcData (plain_chunks c r) else [])"

lemma no_refs [simp]: "concat (map piece_ref (map PcData ds)) = []"
  by (induction ds) auto

lemma pieces_refs: "concat (map piece_ref (pieces c cur fs)) = concat (map frame_refs fs)"
proof (induction c cur fs rule: pieces.induct)
  case (3 c cur chs fs)
  have "concat (map piece_ref (known_pieces chs)) = frame_refs (FrInject chs)"
    by (induction chs) (auto simp: known_pieces_def)
  with 3 show ?case by (simp add: rest_piece_def)
qed (simp_all add: rest_piece_def del: map_map)

lemma plain_chunks_bounds:
  assumes "New avg = Inr c" "unat avg < 2 ^ 62"
  shows "list_all (piece_ok c) (map PcData (plain_chunks c r))" "prefix (concat (plain_chunks c r)) (rd_bytes r)"
    "rd_error r = None \<Longrightarrow> concat (plain_chunks c r) = rd_bytes r"
proof -
  note par = New_params [OF assms]
  obtain xs rest where cut: "cuts c [] (rd_bytes r) = (xs, rest)" by fastforce
  note cb = cuts_bounds [OF par(3,2), of "[]" "rd_bytes r", unfolded cut fst_conv snd_conv]
  show "list_all (piece_ok c) (map PcData (plain_chunks c r))"
    using cb par(3) by (auto simp: chunks_of_def list_all_iff cut plain_chunks_def)
  show "rd_error r = None \<Longrightarrow> concat (plain_chunks c r) = rd_bytes r"
    using cb par(3) by (auto simp: chunks_of_def cut plain_chunks_def)
  then show "prefix (concat (plain_chunks c r)) (rd_bytes r)"
    using cb par(3) by (cases "rd_error r") (auto simp: plain_chunks_def cut intro: prefixI [OF sym])
qed

lemma stream_pieces_image:
  assumes "New avg = Inr c" "unat avg < 2 ^ 62"
  shows "list_all (piece_ok c) (stream_pieces c r)" "prefix (concat (map (piece_image store) (stream_pieces c r))) (stream_image store r)"
    "stream_ok r \<Longrightarrow> concat (map (piece_image store) (stream_pieces c r)) = stream_image store r"
    "concat (map piece_ref (stream_pieces c r)) = stream_refs r"
proof -
  note par = New_params [OF assms] and pc = plain_chunks_bounds [OF assms, of r]
  obtain x r' where n: "NewReader_ru r = (x, r')" by fastforce
  have im: "concat (map (piece_image store) (pieces c [] fs)) = resolve store fs" "list_all (piece_ok c) (pieces c [] fs)" for fs
    using pieces_image [OF par(3,2), of "[]" store fs] par(3) by auto
  have d: "concat (map (piece_image store) (map PcData ds)) = concat ds" for ds by (induction ds) auto
  show "list_all (piece_ok c) (stream_pieces c r)"
    using n im pc(1) by (auto simp: stream_pieces_def split: sum.splits)
  show "prefix (concat (map (piece_image store) (stream_pieces c r))) (stream_image store r)"
    using n im pc(2) d by (auto simp: stream_pieces_def stream_image_def simp del: map_map split: sum.splits)
  show "stream_ok r \<Longrightarrow> concat (map (piece_image store) (stream_pieces c r)) = stream_image store r"
    using n im pc(3) d by (auto simp: stream_pieces_def stream_image_def stream_ok_def simp del: map_map split: sum.splits)
  show "concat (map piece_ref (stream_pieces c r)) = stream_refs r"
    using n pieces_refs by (auto simp: stream_pieces_def stream_refs_def simp del: map_map split: sum.splits)
qed

lemma produce_emits:
  assumes "New avg = Inr c" "unat avg < 2 ^ 62" "produce r avg room = (js, e)"
  shows "prefix js (jobs_from 0 0 (stream_pieces c r)) \<and> (e = None \<longrightarrow> stream_ok r \<and> js = jobs_from 0 0 (stream_pieces c r)) \<and>
    (room = None \<longrightarrow> (e = None \<longleftrightarrow> stream_ok r))"
proof -
  note par = New_params [OF assms(1,2)]
  obtain x r' where n: "NewReader_ru r = (x, r')" by fastforce
  show ?thesis
  proof (cases x)
    case (Inr u)
    obtain fs err where fs: "frames_of r' = (fs, err)" by fastforce
    let ?s = "\<lparr> pd_c = c, pd_current = [], pd_offset = 0, pd_seq = 0, pd_jobs = [], pd_room = room \<rparr>"
    obtain s' where l: "prod_loop ?s r' = (s', e)" "js = pd_jobs s'"
      using assms(3) n Inr by (auto simp: produce_def produceFramed_def assms(1) split: prod.splits)
    have a: "prod_at ?s []" "chunk_ok (pd_c ?s) (pd_current ?s)" using par(1) by (simp_all add: prod_at_def)
    have "e = None \<longrightarrow> list_all sizes_ok fs" using prod_loop_sizes [of ?s r' s'] l(1) fs by auto
    with prod_loop_emits [OF a fs l(1)] l(2) n Inr fs show ?thesis
      by (cases e) (auto simp: stream_pieces_def stream_ok_def)
  next
    case (Inl q)
    obtain pre err where q: "q = (pre, err)" by fastforce
    show ?thesis
    proof (cases "err = RuNotFramed")
      case True
      define m where "m = MultiReader pre r'"
      have "pre @ rd_bytes r' = rd_bytes r" "rd_error r' = rd_error r"
        using unframed_lemma [of r pre err r'] n Inl q by auto
      then have r: "rd_bytes m = rd_bytes r" "rd_error m = rd_error r" by (auto simp: MultiReader_def m_def)
      define es where "es = (case rd_error r of None \<Rightarrow> [] | Some e \<Rightarrow> [ChunkerRead e])"
      have es: "es = [] \<longleftrightarrow> rd_error r = None" by (simp add: es_def split: option.splits)
      have "prod_plain 0 (Split m avg) room = (js, e)" using assms(3) n Inl q True by (simp add: produce_def m_def)
      moreover have "Split m avg = map Inr (at_offsets 0 (plain_chunks c r)) @ map Inl es"
        using split_jobs [OF assms(1,2), of m] by (simp only: r plain_chunks_def es_def)
      ultimately have "prod_plain 0 (map Inr (at_offsets 0 (plain_chunks c r)) @ map Inl es) room = (js, e)" by simp
      from prod_plain_jobs [OF this] es n Inl q True show ?thesis by (auto simp: stream_pieces_def stream_ok_def)
    next
      case False
      then have "js = []" "e = Some (PdReuse err)" using assms(3) n Inl q
        by (auto simp: produce_def split: reuse_error.splits)
      then show ?thesis using False n Inl q by (auto simp: stream_ok_def)
    qed
  qed
qed

lemma produce_pieces:
  assumes "New avg = Inr c" "unat avg < 2 ^ 62" "produce r avg room = (js, e)"
  shows "\<exists>ps. prefix js (jobs_from 0 0 ps) \<and> list_all (piece_ok c) ps \<and>
    (e = None \<longrightarrow> js = jobs_from 0 0 ps \<and> concat (map (piece_image store) ps) = stream_image store r) \<and>
    (room = None \<longrightarrow> (e = None \<longleftrightarrow> stream_ok r))"
  using produce_emits [OF assms] stream_pieces_image [OF assms(1,2), where r = r] by blast

text \<open>
  C18: The producer turns a stream into jobs without loss.  For an accepted average below 2^62, the jobs
  are those of the pieces of the stream: numbered from 0, each at the sum of the sizes of the pieces
  before it, with its data or with the digest and size of the chunk it references.  The pieces are the
  chunks of the plain stream or, of a framed one, the chunks of its data frames and the references of its
  injections: the references, digest and size, are exactly those of the frames in their order, and data
  and referenced chunks together, in order, are the stream; no data chunk is empty or longer than the
  maximum.  A producer that stops early (cancelled, a read error, a damaged frame, a reference of size 0)
  has emitted a prefix of these jobs, whose bytes are a prefix of the stream; it returns no error only
  when it has emitted all of them and the stream was readable to its end, and without a cancellation it
  returns no error then.
\<close>

theorem produce_partition:
  assumes "New avg = Inr c" "unat avg < 2 ^ 62" "produce r avg room = (js, e)"
  shows "prefix js (jobs_from 0 0 (stream_pieces c r)) \<and>
    (e = None \<longrightarrow> stream_ok r \<and> js = jobs_from 0 0 (stream_pieces c r)) \<and>
    (room = None \<longrightarrow> (e = None \<longleftrightarrow> stream_ok r)) \<and>
    list_all (piece_ok c) (stream_pieces c r) \<and>
    concat (map piece_ref (stream_pieces c r)) = stream_refs r \<and>
    prefix (concat (map (piece_image store) (stream_pieces c r))) (stream_image store r) \<and>
    (stream_ok r \<longrightarrow> concat (map (piece_image store) (stream_pieces c r)) = stream_image store r)"
  using produce_emits [OF assms] stream_pieces_image [OF assms(1,2), where r = r] by blast

definition framed_example :: "string rd" where
  "framed_example = [(Magic_ru @ frame_bytes (FrData [5, 6]) @ frame_bytes (FrInject [\<lparr> rc_Digest = replicate 32 1, rc_Size = 3 \<rparr>]) @
     frame_bytes (FrData [7]), REof)]"

lemma framed_example_jobs:
  "produce framed_example 256 None =
     ([data_job 0 0 [5, 6], known_job 1 2 (replicate 32 1) 3, data_job 2 5 [7]], None)"
  "stream_image (\<lambda>_. [9, 9, 9]) framed_example = [5, 6, 9, 9, 9, 7]"
  by code_simp+

theorem produce_partition_witness:
  "jobs_from 0 0 (stream_pieces example_chunker framed_example) = [data_job 0 0 [5, 6], known_job 1 2 (replicate 32 1) 3, data_job 2 5 [7]] \<and>
   concat (map (piece_image (\<lambda>_. [9, 9, 9])) (stream_pieces example_chunker framed_example)) = [5, 6, 9, 9, 9, 7]"
  using produce_partition [OF New_256 _ framed_example_jobs(1), of "\<lambda>_. [9, 9, 9]"] framed_example_jobs(2) by simp

end
