(* ===== verification/Didx.thy ===== *)
theory Didx
  imports Prelude
begin

text \<open>
  Dynamic indexes as files, \<^verbatim>\<open>src/pbs/index.go\<close>, and the hexadecimal strings the client sends: the
  parser of a \<open>.didx\<close> file with its length checks, and the fact that it inverts the file format.
\<close>

subsection \<open>Hexadecimal\<close>

text \<open>\<open>hex.EncodeToString\<close>.\<close>

definition hex_digit :: "byte \<Rightarrow> byte" where
  "hex_digit n = (if n < 10 then 48 + n else 87 + n)"

definition EncodeToString :: "bytes \<Rightarrow> bytes" where
  "EncodeToString bs = concat (map (\<lambda>b. [hex_digit (drop_bit 4 b), hex_digit (take_bit 4 b)]) bs)"

lemma hex_digit_inj: "n < 16 \<Longrightarrow> m < 16 \<Longrightarrow> hex_digit n = hex_digit m \<Longrightarrow> n = m"
proof -
  assume h: "n < 16" "m < 16" "hex_digit n = hex_digit m"
  have "\<forall>n \<in> set (map of_nat [0..<16]). \<forall>m \<in> set (map of_nat [0..<16]). hex_digit n = hex_digit m \<longrightarrow> n = m"
    by code_simp
  moreover have "x \<in> set (map of_nat [0..<16])" if "x < 16" for x :: byte
  proof -
    have "unat x \<in> set [0..<16]" using that by (simp add: word_less_nat_alt)
    then show ?thesis by (metis image_eqI list.set_map of_nat_unat ucast_id)
  qed
  ultimately show ?thesis using h by blast
qed

lemma EncodeToString_inj: "EncodeToString a = EncodeToString b \<Longrightarrow> a = b"
proof (induction a arbitrary: b)
  case Nil
  then show ?case by (cases b) (simp_all add: EncodeToString_def)
next
  case (Cons x a)
  then obtain y b' where b: "b = y # b'" by (cases b) (simp_all add: EncodeToString_def)
  have l: "drop_bit 4 z < (16 :: byte)" "take_bit 4 z < (16 :: byte)" for z :: byte
    using unsigned_less [of z, where 'a = nat] by (simp_all add: word_less_nat_alt drop_bit_eq_div unat_div take_bit_eq_mod unat_mod)
  have "drop_bit 4 x = drop_bit 4 y" "take_bit 4 x = take_bit 4 y"
    using Cons.prems l hex_digit_inj by (auto simp: b EncodeToString_def)
  then have "x = y" by (metis bits_ident)
  moreover have "a = b'" using Cons.IH [of b'] Cons.prems by (simp add: b EncodeToString_def)
  ultimately show ?case by (simp add: b)
qed

subsection \<open>Parsing\<close>

definition didxMagic :: bytes where "didxMagic = [28, 145, 78, 165, 25, 186, 179, 205]"
definition didxHeaderSize :: nat where "didxHeaderSize = 4096"
definition didxRecordSize :: nat where "didxRecordSize = 40"

record IndexEntry =
  ix_EndOffset :: u64
  ix_Digest :: bytes

datatype didx_error = DxTruncated nat | DxMagic bytes | DxTrailing nat

fun parse_records :: "nat \<Rightarrow> bytes \<Rightarrow> IndexEntry list" where
  "parse_records 0 records = []"
| "parse_records (Suc n) records =
     \<lparr> ix_EndOffset = get64 records, ix_Digest = take 32 (drop 8 records) \<rparr> # parse_records n (drop didxRecordSize records)"

definition ParseDynamicIndex :: "bytes \<Rightarrow> didx_error + IndexEntry list" where
  "ParseDynamicIndex data =
     (if length data < didxHeaderSize then Inl (DxTruncated (length data))
      else if take 8 data \<noteq> didxMagic then Inl (DxMagic (take 8 data))
      else
        (let records = drop didxHeaderSize data in
         if length records mod didxRecordSize \<noteq> 0 then Inl (DxTrailing (length records mod didxRecordSize))
         else Inr (parse_records (length records div didxRecordSize) records)))"

subsection \<open>The file format\<close>

definition entry_record :: "IndexEntry \<Rightarrow> bytes" where
  "entry_record e = put64 (ix_EndOffset e) @ ix_Digest e"

definition didx_bytes :: "bytes \<Rightarrow> IndexEntry list \<Rightarrow> bytes" where
  "didx_bytes hdr es = didxMagic @ hdr @ concat (map entry_record es)"

lemma parse_records_concat:
  "list_all (\<lambda>e. length (ix_Digest e) = 32) es \<Longrightarrow> parse_records (length es) (concat (map entry_record es)) = es"
  by (induction es) (simp_all add: entry_record_def didxRecordSize_def)

lemma length_records:
  "list_all (\<lambda>e. length (ix_Digest e) = 32) es \<Longrightarrow> length (concat (map entry_record es)) = 40 * length es"
  by (induction es) (simp_all add: entry_record_def)

lemma Parse_didx_bytes:
  assumes "length hdr = 4088" "list_all (\<lambda>e. length (ix_Digest e) = 32) es"
  shows "ParseDynamicIndex (didx_bytes hdr es) = Inr es"
proof -
  have "drop didxHeaderSize (didx_bytes hdr es) = concat (map entry_record es)" "take 8 (didx_bytes hdr es) = didxMagic"
    using assms(1) by (simp_all add: didx_bytes_def didxMagic_def didxHeaderSize_def)
  moreover have "length (didx_bytes hdr es) = 4096 + 40 * length es"
    using assms length_records by (simp add: didx_bytes_def didxMagic_def)
  ultimately show ?thesis
    using parse_records_concat [OF assms(2)] by (simp add: ParseDynamicIndex_def didxHeaderSize_def didxRecordSize_def length_records [OF assms(2)])
qed

lemma parse_records_bytes:
  "length bs = 40 * n \<Longrightarrow> concat (map entry_record (parse_records n bs)) = bs \<and>
     list_all (\<lambda>e. length (ix_Digest e) = 32) (parse_records n bs) \<and> length (parse_records n bs) = n"
proof (induction n arbitrary: bs)
  case (Suc n)
  have "put64 (get64 bs) = take 8 bs" using put64_get64 [of "take 8 bs"] Suc.prems by (simp add: get64_def)
  moreover have "take 8 bs @ take 32 (drop 8 bs) @ drop 40 bs = bs"
    by (simp add: append_take_drop_id [of 32 "drop 8 bs", simplified])
  ultimately show ?case using Suc.IH [of "drop 40 bs"] Suc.prems by (simp add: entry_record_def didxRecordSize_def)
qed simp

lemma Parse_accepts:
  assumes "ParseDynamicIndex data = Inr es"
  shows "data = didx_bytes (take 4088 (drop 8 data)) es \<and> list_all (\<lambda>e. length (ix_Digest e) = 32) es"
proof -
  let ?r = "drop didxHeaderSize data"
  have h: "4096 \<le> length data" "take 8 data = didxMagic" "length ?r mod 40 = 0" "es = parse_records (length ?r div 40) ?r"
    using assms by (auto simp: ParseDynamicIndex_def Let_def didxHeaderSize_def didxRecordSize_def split: if_splits)
  then have l: "length ?r = 40 * (length ?r div 40)" by auto
  have "data = take 8 data @ take 4088 (drop 8 data) @ drop 4096 data"
    by (simp add: append_take_drop_id [of 4088 "drop 8 data", simplified])
  then show ?thesis using parse_records_bytes [OF l] h by (simp add: didx_bytes_def didxHeaderSize_def)
qed

end
