(* ===== verification/Collect.thy ===== *)
theory Collect
  imports Produce Didx "HOL-Library.AList"
begin

text \<open>
  The collector of an upload, the last part of \<open>uploadIndexStream\<close> in \<^verbatim>\<open>src/pbs/upload.go\<close>: chunk completions
  arrive in any order and leave in the order of the stream, in appends of at most 128 entries, with the
  running checksum and statistics.  The pending map is an association list, as the Go map is only
  looked up, extended and deleted from.  The outcome of the \<open>k\<close>-th \<open>AppendDynamicIndex\<close> is a parameter.
\<close>

subsection \<open>Definitions\<close>

datatype up_error = UpUnknown bytes | UpServer string | UpCanceled | UpProducer prod_error | UpUnaccounted nat

record chunkDone =
  cd_seq :: nat
  cd_offset :: u64
  cd_size :: u64
  cd_digest :: bytes
  cd_reused :: bool
  cd_err :: "up_error option"

record UploadStats =
  us_Size :: u64
  us_ChunkCount :: u64
  us_NewChunks :: u64
  us_NewBytes :: u64
  us_ReusedChunks :: u64
  us_Entries :: "IndexEntry list"

record collector =
  co_firstErr :: "up_error option"
  co_pending :: "(nat \<times> chunkDone) list"
  co_next :: nat
  co_csum :: bytes
  co_digests :: "bytes list"
  co_offsets :: "u64 list"
  co_stats :: UploadStats
  co_calls :: nat
  co_appended :: "(bytes list \<times> u64 list) list"

definition newCollector :: collector where
  "newCollector = \<lparr> co_firstErr = None, co_pending = [], co_next = 0, co_csum = [], co_digests = [], co_offsets = [],
     co_stats = \<lparr> us_Size = 0, us_ChunkCount = 0, us_NewChunks = 0, us_NewBytes = 0, us_ReusedChunks = 0, us_Entries = [] \<rparr>,
     co_calls = 0, co_appended = [] \<rparr>"

definition col_flush :: "(nat \<Rightarrow> up_error option) \<Rightarrow> collector \<Rightarrow> collector \<times> up_error option" where
  "col_flush app k =
     (if co_digests k = [] then (k, None)
      else
        (case app (co_calls k) of
           Some e \<Rightarrow> (k\<lparr> co_calls := co_calls k + 1 \<rparr>, Some e)
         | None \<Rightarrow>
             (k\<lparr> co_calls := co_calls k + 1, co_appended := co_appended k @ [(co_digests k, co_offsets k)],
                co_digests := [], co_offsets := [] \<rparr>, None)))"

definition index_entry :: "chunkDone \<Rightarrow> IndexEntry" where
  "index_entry d = \<lparr> ix_EndOffset = cd_offset d + cd_size d, ix_Digest = cd_digest d \<rparr>"

definition col_stats :: "UploadStats \<Rightarrow> chunkDone \<Rightarrow> UploadStats" where
  "col_stats st cur =
     (let st1 = st\<lparr> us_Size := cd_offset cur + cd_size cur, us_ChunkCount := us_ChunkCount st + 1 \<rparr>;
          st2 = (if cd_reused cur then st1\<lparr> us_ReusedChunks := us_ReusedChunks st1 + 1 \<rparr>
                 else st1\<lparr> us_NewChunks := us_NewChunks st1 + 1, us_NewBytes := us_NewBytes st1 + cd_size cur \<rparr>)
      in st2\<lparr> us_Entries := us_Entries st2 @ [index_entry cur] \<rparr>)"

definition col_account :: "collector \<Rightarrow> chunkDone \<Rightarrow> collector" where
  "col_account k cur =
     k\<lparr> co_pending := AList.delete (co_next k) (co_pending k), co_next := co_next k + 1,
        co_stats := col_stats (co_stats k) cur,
        co_csum := co_csum k @ put64 (cd_offset cur + cd_size cur) @ cd_digest cur,
        co_digests := co_digests k @ [EncodeToString (cd_digest cur)], co_offsets := co_offsets k @ [cd_offset cur] \<rparr>"

function col_drain :: "(nat \<Rightarrow> up_error option) \<Rightarrow> collector \<Rightarrow> collector" where
  "col_drain app k =
     (case map_of (co_pending k) (co_next k) of
        None \<Rightarrow> k
      | Some cur \<Rightarrow>
          (if length (co_digests (col_account k cur)) = 128 then
             (case col_flush app (col_account k cur) of
                (k', Some e) \<Rightarrow> k'\<lparr> co_firstErr := Some e \<rparr>
              | (k', None) \<Rightarrow> col_drain app k')
           else col_drain app (col_account k cur)))"
  by pat_completeness auto
termination
proof (relation "measure (\<lambda>(app, k). length (co_pending k))", goal_cases)
  case (2 app k cur k' x)
  have "length (AList.delete (co_next k) (co_pending k)) < length (co_pending k)"
    using 2(1) by (simp add: AList.delete_eq length_filter_less [where x = "(co_next k, cur)"] map_of_SomeD)
  moreover have "co_pending k' = co_pending (col_account k cur)"
    using 2(3,4) by (auto simp: col_flush_def split: if_splits option.splits)
  ultimately show ?case by (simp add: col_account_def)
next
  case (3 app k cur)
  then show ?case
    by (simp add: AList.delete_eq col_account_def length_filter_less [where x = "(co_next k, cur)"] map_of_SomeD)
qed simp

declare col_drain.simps [simp del]

text \<open>One round of the loop over the completions; after an error the rest is drained.\<close>

definition col_receive :: "(nat \<Rightarrow> up_error option) \<Rightarrow> collector \<Rightarrow> chunkDone \<Rightarrow> collector" where
  "col_receive app k d =
     (if co_firstErr k \<noteq> None then k
      else
        (case cd_err d of
           Some e \<Rightarrow> k\<lparr> co_firstErr := Some e \<rparr>
         | None \<Rightarrow> col_drain app (k\<lparr> co_pending := AList.update (cd_seq d) d (co_pending k) \<rparr>)))"

text \<open>
  After the last completion: the producer's error, what is left over, the last append and the close,
  whose outcome is given.  The result carries the input of the checksum.
\<close>

definition col_finish :: "(nat \<Rightarrow> up_error option) \<Rightarrow> up_error option \<Rightarrow> up_error option \<Rightarrow> collector \<Rightarrow>
    collector \<times> (up_error + UploadStats \<times> bytes)" where
  "col_finish app prodErr closeErr k =
     (case (if co_firstErr k = None then prodErr else co_firstErr k) of
        Some e \<Rightarrow> (k, Inl e)
      | None \<Rightarrow>
          (if co_pending k \<noteq> [] then (k, Inl (UpUnaccounted (length (co_pending k))))
           else
             (case col_flush app k of
                (k', Some e) \<Rightarrow> (k', Inl e)
              | (k', None) \<Rightarrow> (k', case closeErr of Some e \<Rightarrow> Inl e | None \<Rightarrow> Inr (co_stats k', co_csum k')))))"

subsection \<open>What the collector has done\<close>

definition stats_of :: "chunkDone list \<Rightarrow> UploadStats" where
  "stats_of ds = foldl col_stats (co_stats newCollector) ds"

text \<open>
  The completions \<open>ds\<close> accounted for, in stream order: the appends made and the batch in preparation
  are their digests and offsets, cut into batches of 128.
\<close>

definition col_inv :: "chunkDone list \<Rightarrow> collector \<Rightarrow> bool" where
  "col_inv ds k \<longleftrightarrow>
     co_next k = length ds \<and> co_stats k = stats_of ds \<and>
     co_csum k = concat (map (\<lambda>d. entry_record (index_entry d)) ds) \<and>
     concat (map fst (co_appended k)) @ co_digests k = map (\<lambda>d. EncodeToString (cd_digest d)) ds \<and>
     concat (map snd (co_appended k)) @ co_offsets k = map cd_offset ds \<and>
     length (co_digests k) = length (co_offsets k) \<and> length (co_digests k) \<le> 128 \<and>
     (co_firstErr k = None \<longrightarrow> length (co_digests k) < 128) \<and>
     list_all (\<lambda>(a, b). a \<noteq> [] \<and> length a = length b \<and> length a \<le> 128) (co_appended k)"

lemma col_inv_new: "col_inv [] newCollector"
  by (simp add: col_inv_def newCollector_def stats_of_def)

lemma us_Entries_stats [simp]: "us_Entries (stats_of ds) = map index_entry ds"
  by (induction ds rule: rev_induct) (simp_all add: stats_of_def newCollector_def col_stats_def Let_def)

lemma us_Size_stats: "us_Size (stats_of ds) = (if ds = [] then 0 else cd_offset (last ds) + cd_size (last ds))"
  and us_Count_stats: "us_ChunkCount (stats_of ds) = len64 ds"
  by (induction ds rule: rev_induct) (simp_all add: stats_of_def newCollector_def col_stats_def Let_def)

lemma col_account_inv:
  assumes "col_inv ds k" "co_firstErr k = None"
  shows "co_next (col_account k cur) = length (ds @ [cur])" "co_stats (col_account k cur) = stats_of (ds @ [cur])"
    "length (co_digests (col_account k cur)) < 128 \<Longrightarrow> col_inv (ds @ [cur]) (col_account k cur)"
    "col_flush app (col_account k cur) = (k', None) \<Longrightarrow> col_inv (ds @ [cur]) k'"
    "col_flush app (col_account k cur) = (k', Some e) \<Longrightarrow> col_inv (ds @ [cur]) (k'\<lparr> co_firstErr := Some e \<rparr>)"
  using assms
  by (auto simp: col_inv_def col_account_def stats_of_def entry_record_def index_entry_def col_flush_def split: if_splits option.splits)

text \<open>
  Draining accounts for the longest run of pending completions from \<open>next\<close> on, or stops at a failed
  append with a prefix of it.
\<close>

lemma col_flush_keeps:
  "col_flush app k = (k', e) \<Longrightarrow> co_pending k' = co_pending k \<and> co_next k' = co_next k \<and> co_firstErr k' = co_firstErr k"
  by (auto simp: col_flush_def split: if_splits option.splits)

lemma col_account_keeps [simp]:
  "co_firstErr (col_account k cur) = co_firstErr k"
  "map_of (co_pending (col_account k cur)) = (map_of (co_pending k))(co_next k := None)"
  by (simp_all add: col_account_def AList.delete_conv')

definition drained :: "chunkDone list \<Rightarrow> collector \<Rightarrow> collector \<Rightarrow> bool" where
  "drained ds k r \<longleftrightarrow> (\<exists>es. col_inv (ds @ es) r \<and>
     list_all2 (\<lambda>i d. map_of (co_pending k) i = Some d) [length ds..<length ds + length es] es \<and>
     map_of (co_pending r) = map_of (co_pending k) |` (- {length ds..<length ds + length es}) \<and>
     (co_firstErr r = None \<longrightarrow> map_of (co_pending k) (length ds + length es) = None))"

lemma drained_step:
  assumes "drained (ds @ [cur]) k' r" "map_of (co_pending k) (length ds) = Some cur"
    "map_of (co_pending k') = (map_of (co_pending k))(length ds := None)"
  shows "drained ds k r"
proof -
  let ?n = "length ds"
  obtain es where es: "col_inv (ds @ cur # es) r"
      "list_all2 (\<lambda>i d. map_of (co_pending k') i = Some d) [Suc ?n..<Suc ?n + length es] es"
      "map_of (co_pending r) = map_of (co_pending k') |` (- {Suc ?n..<Suc ?n + length es})"
      "co_firstErr r = None \<longrightarrow> map_of (co_pending k') (Suc ?n + length es) = None"
    using assms(1) by (auto simp: drained_def)
  have "[?n..<?n + length (cur # es)] = ?n # [Suc ?n..<Suc ?n + length es]" by (simp add: upt_conv_Cons del: upt_Suc)
  moreover have "list_all2 (\<lambda>i d. map_of (co_pending k) i = Some d) [Suc ?n..<Suc ?n + length es] es"
    using es(2) by (rule list_all2_mono) (auto simp: assms(3) split: if_splits)
  moreover have "map_of (co_pending r) = map_of (co_pending k) |` (- {?n..<?n + length (cur # es)})"
    unfolding es(3) by (rule ext) (auto simp: assms(3) restrict_map_def)
  moreover have "co_firstErr r = None \<longrightarrow> map_of (co_pending k) (?n + length (cur # es)) = None"
    using es(4) by (simp add: assms(3))
  ultimately show ?thesis unfolding drained_def using es(1) assms(2) by (intro exI [of _ "cur # es"]) simp
qed

lemma drained_refl:
  assumes "col_inv ds r" "map_of (co_pending r) = map_of (co_pending k)"
    "co_firstErr r = None \<Longrightarrow> map_of (co_pending k) (length ds) = None"
  shows "drained ds k r"
  unfolding drained_def using assms by (intro exI [of _ "[]"]) (simp add: restrict_map_def)

lemma col_drain_drained:
  assumes "col_inv ds k" "co_firstErr k = None"
  shows "drained ds k (col_drain app k)"
  using assms
proof (induction app k arbitrary: ds rule: col_drain.induct)
  case (1 app k)
  have n: "co_next k = length ds" using "1.prems" by (simp add: col_inv_def)
  note eq = col_drain.simps [of app k, unfolded n]
  show ?case
  proof (cases "map_of (co_pending k) (length ds)")
    case None
    then show ?thesis using "1.prems" by (intro drained_refl) (simp_all add: eq)
  next
    case (Some cur)
    let ?a = "col_account k cur"
    have Some': "map_of (co_pending k) (co_next k) = Some cur" using Some n by simp
    show ?thesis
    proof (cases "length (co_digests ?a) = 128")
      case True
      obtain k' e where f: "col_flush app ?a = (k', e)" by fastforce
      note keep = col_flush_keeps [OF f]
      have d: "col_drain app k = (case e of None \<Rightarrow> col_drain app k' | Some e' \<Rightarrow> k'\<lparr> co_firstErr := Some e' \<rparr>)"
        using Some True f by (simp add: eq split: option.splits)
      have "drained (ds @ [cur]) k' (col_drain app k)"
      proof (cases e)
        case None
        have "col_inv (ds @ [cur]) k'" "co_firstErr k' = None"
          using col_account_inv(4) [OF "1.prems"] f None keep "1.prems"(2) by auto
        then show ?thesis using "1.IH"(1) [OF Some' True f [symmetric] None] d None by simp
      next
        case e': (Some e')
        have "col_inv (ds @ [cur]) (k'\<lparr> co_firstErr := Some e' \<rparr>)"
          using col_account_inv(5) [OF "1.prems"] f e' by blast
        then show ?thesis using d e' by (intro drained_refl) simp_all
      qed
      then show ?thesis by (rule drained_step [OF _ Some]) (simp add: keep n)
    next
      case False
      have "length (co_digests k) < 128" using "1.prems" by (auto simp: col_inv_def)
      then have "length (co_digests ?a) < 128" using False by (auto simp: col_account_def)
      then have "col_inv (ds @ [cur]) ?a" using col_account_inv(3) [OF "1.prems"] by blast
      then have "drained (ds @ [cur]) ?a (col_drain app ?a)" using "1.IH"(2) [OF Some' False] "1.prems"(2) by simp
      then have "drained ds k (col_drain app ?a)" by (rule drained_step [OF _ Some]) (simp add: n)
      then show ?thesis using Some False by (simp add: eq)
    qed
  qed
qed

lemma col_receive_drained:
  assumes "col_inv ds k" "co_firstErr k = None" "cd_err d = None"
  shows "drained ds (k\<lparr> co_pending := AList.update (cd_seq d) d (co_pending k) \<rparr>) (col_receive app k d)"
proof -
  let ?k = "k\<lparr> co_pending := AList.update (cd_seq d) d (co_pending k) \<rparr>"
  have "col_inv ds ?k" "co_firstErr ?k = None" using assms(1,2) by (simp_all add: col_inv_def)
  then show ?thesis using col_drain_drained [of ds ?k app] assms by (simp add: col_receive_def)
qed

lemma col_drain_distinct:
  "distinct (map fst (co_pending k)) \<Longrightarrow> distinct (map fst (co_pending (col_drain app k)))"
proof (induction app k rule: col_drain.induct)
  case (1 app k)
  have a: "distinct (map fst (co_pending (col_account k cur)))" for cur
    using "1.prems" by (simp add: col_account_def AList.distinct_delete)
  have f: "distinct (map fst (co_pending k'))" if "col_flush app (col_account k cur) = (k', e)" for cur k' e
    using col_flush_keeps [OF that] a [of cur] by simp
  show ?case
    using 1 a f by (auto simp: col_drain.simps [of app k] split: option.splits prod.splits)
qed

end
