(* ===== verification/Upload.thy ===== *)
theory Upload
  imports Collect
begin

text \<open>
  An index upload as a transition system, \<open>uploadIndexStream\<close> and \<open>chunkSet\<close> of \<^verbatim>\<open>src/pbs/upload.go\<close>: the producer
  feeds a bounded channel, the workers hash, claim, upload or wait, the collector puts the
  completions in order.  The set of known chunks belongs to the session, so other uploads of the
  session take part: they claim digests, complete them, or seed them from a previous index.

  The digest function \<open>H\<close> (plain or keyed SHA-256) is a parameter, as are the outcomes of the requests:
  a chunk upload may fail at any time, the \<open>k\<close>-th append as \<open>app k\<close> says.
\<close>

subsection \<open>The set of known chunks\<close>

datatype cstate = Pending | Complete "up_error option"

type_synonym chunkSet = "bytes \<rightharpoonup> cstate"

definition newChunkSet :: chunkSet where
  "newChunkSet = Map.empty"

definition claim :: "chunkSet \<Rightarrow> bytes \<Rightarrow> chunkSet \<times> bool" where
  "claim cs d = (case cs d of Some st \<Rightarrow> (cs, False) | None \<Rightarrow> (cs(d \<mapsto> Pending), True))"

definition seed :: "chunkSet \<Rightarrow> bytes \<Rightarrow> chunkSet" where
  "seed cs d = (case cs d of Some st \<Rightarrow> cs | None \<Rightarrow> cs(d \<mapsto> Complete None))"

definition complete :: "chunkSet \<Rightarrow> bytes \<Rightarrow> up_error option \<Rightarrow> chunkSet" where
  "complete cs d e = cs(d \<mapsto> Complete e)"

text \<open>\<open>DownloadPrevious\<close> on the answer of the server: a well-formed index seeds its digests.\<close>

definition DownloadPrevious :: "chunkSet \<Rightarrow> bytes \<Rightarrow> chunkSet" where
  "DownloadPrevious cs raw =
     (case ParseDynamicIndex raw of Inl _ \<Rightarrow> cs | Inr es \<Rightarrow> foldl (\<lambda>cs e. seed cs (ix_Digest e)) cs es)"

subsection \<open>State and steps\<close>

definition job_size :: "chunkJob \<Rightarrow> u64" where
  "job_size j = (if cj_known j then cj_size j else len64 (cj_data j))"

definition job_digest :: "(bytes \<Rightarrow> bytes) \<Rightarrow> chunkJob \<Rightarrow> bytes" where
  "job_digest H j = (if cj_known j then cj_digest j else H (cj_data j))"

definition job_done :: "(bytes \<Rightarrow> bytes) \<Rightarrow> chunkJob \<Rightarrow> bool \<Rightarrow> up_error option \<Rightarrow> chunkDone" where
  "job_done H j reused e = \<lparr> cd_seq = cj_seq j, cd_offset = cj_offset j, cd_size = job_size j,
     cd_digest = job_digest H j, cd_reused = reused, cd_err = e \<rparr>"

datatype wk = WkIdle | WkJob chunkJob | WkUpload chunkJob | WkWait chunkJob | WkSend chunkDone | WkExit

record upload =
  ul_todo :: "chunkJob list"
  ul_perr :: "prod_error option option"
  ul_jobs :: "chunkJob list"
  ul_work :: "wk list"
  ul_dones :: "chunkDone list"
  ul_known :: chunkSet
  ul_others :: "bytes set"
  ul_store :: "bytes \<rightharpoonup> bytes"
  ul_log :: "bytes list"
  ul_col :: collector
  ul_cancel :: bool

definition startUpload :: "nat \<Rightarrow> chunkJob list \<Rightarrow> chunkSet \<Rightarrow> (bytes \<rightharpoonup> bytes) \<Rightarrow> upload" where
  "startUpload W js known store = \<lparr> ul_todo = js, ul_perr = None, ul_jobs = [], ul_work = replicate W WkIdle, ul_dones = [],
     ul_known = known, ul_others = {d. known d = Some Pending}, ul_store = store, ul_log = [], ul_col = newCollector, ul_cancel = False \<rparr>"

inductive ustep :: "(nat \<Rightarrow> up_error option) \<Rightarrow> (bytes \<Rightarrow> bytes) \<Rightarrow> prod_error option \<Rightarrow> upload \<Rightarrow> upload \<Rightarrow> bool" for app H e where
  p_send: "ul_perr s = None \<Longrightarrow> ul_todo s = j # js \<Longrightarrow> length (ul_jobs s) < length (ul_work s) \<Longrightarrow>
     ustep app H e s (s\<lparr> ul_todo := js, ul_jobs := ul_jobs s @ [j] \<rparr>)"
| p_end: "ul_perr s = None \<Longrightarrow> ul_todo s = [] \<Longrightarrow> ustep app H e s (s\<lparr> ul_perr := Some e \<rparr>)"
| p_abort: "ul_perr s = None \<Longrightarrow> ul_todo s = j # js \<Longrightarrow> ul_cancel s \<Longrightarrow> ustep app H e s (s\<lparr> ul_perr := Some (Some PdCanceled) \<rparr>)"
| w_recv: "ul_work s = xs @ WkIdle # ys \<Longrightarrow> ul_jobs s = j # js \<Longrightarrow>
     ustep app H e s (s\<lparr> ul_jobs := js, ul_work := xs @ WkJob j # ys \<rparr>)"
| w_exit: "ul_work s = xs @ WkIdle # ys \<Longrightarrow> ul_jobs s = [] \<Longrightarrow> ul_perr s \<noteq> None \<Longrightarrow>
     ustep app H e s (s\<lparr> ul_work := xs @ WkExit # ys \<rparr>)"
| w_unknown: "ul_work s = xs @ WkJob j # ys \<Longrightarrow> d = job_digest H j \<Longrightarrow> claim (ul_known s) d = (cs, True) \<Longrightarrow> cj_known j \<Longrightarrow>
     ustep app H e s (s\<lparr> ul_known := complete cs d (Some (UpUnknown d)), ul_work := xs @ WkSend (job_done H j False (Some (UpUnknown d))) # ys \<rparr>)"
| w_claim: "ul_work s = xs @ WkJob j # ys \<Longrightarrow> d = job_digest H j \<Longrightarrow> claim (ul_known s) d = (cs, True) \<Longrightarrow> \<not> cj_known j \<Longrightarrow>
     ustep app H e s (s\<lparr> ul_known := cs, ul_work := xs @ WkUpload j # ys \<rparr>)"
| w_hit: "ul_work s = xs @ WkJob j # ys \<Longrightarrow> d = job_digest H j \<Longrightarrow> claim (ul_known s) d = (cs, False) \<Longrightarrow>
     ustep app H e s (s\<lparr> ul_known := cs, ul_work := xs @ WkWait j # ys \<rparr>)"
| w_uploaded: "ul_work s = xs @ WkUpload j # ys \<Longrightarrow> d = job_digest H j \<Longrightarrow>
     ustep app H e s (s\<lparr> ul_known := complete (ul_known s) d None, ul_store := (ul_store s)(d \<mapsto> cj_data j), ul_log := ul_log s @ [d],
       ul_work := xs @ WkSend (job_done H j False None) # ys \<rparr>)"
| w_failed: "ul_work s = xs @ WkUpload j # ys \<Longrightarrow> d = job_digest H j \<Longrightarrow>
     ustep app H e s (s\<lparr> ul_known := complete (ul_known s) d (Some er), ul_work := xs @ WkSend (job_done H j False (Some er)) # ys \<rparr>)"
| w_waited: "ul_work s = xs @ WkWait j # ys \<Longrightarrow> ul_known s (job_digest H j) = Some (Complete er) \<Longrightarrow>
     ustep app H e s (s\<lparr> ul_work := xs @ WkSend (job_done H j (er = None) er) # ys \<rparr>)"
| w_canceled: "ul_work s = xs @ WkWait j # ys \<Longrightarrow> ul_cancel s \<Longrightarrow>
     ustep app H e s (s\<lparr> ul_work := xs @ WkSend (job_done H j False (Some UpCanceled)) # ys \<rparr>)"
| w_done: "ul_work s = xs @ WkSend d # ys \<Longrightarrow> length (ul_dones s) < 2 * length (ul_work s) \<Longrightarrow>
     ustep app H e s (s\<lparr> ul_dones := ul_dones s @ [d], ul_work := xs @ WkIdle # ys \<rparr>)"
| c_receive: "ul_dones s = d # ds \<Longrightarrow> k = col_receive app (ul_col s) d \<Longrightarrow>
     ustep app H e s (s\<lparr> ul_dones := ds, ul_col := k, ul_cancel := (ul_cancel s \<or> co_firstErr k \<noteq> None) \<rparr>)"

text \<open>The caller's cancellation, and the other uploads of the session.\<close>

inductive uenv :: "(bytes \<Rightarrow> bytes) \<Rightarrow> upload \<Rightarrow> upload \<Rightarrow> bool" for H where
  n_cancel: "uenv H s (s\<lparr> ul_cancel := True \<rparr>)"
| o_claim: "claim (ul_known s) d = (cs, True) \<Longrightarrow> uenv H s (s\<lparr> ul_known := cs, ul_others := insert d (ul_others s) \<rparr>)"
| o_uploaded: "H c \<in> ul_others s \<Longrightarrow>
     uenv H s (s\<lparr> ul_known := complete (ul_known s) (H c) None, ul_store := (ul_store s)(H c \<mapsto> c), ul_log := ul_log s @ [H c],
       ul_others := ul_others s - {H c} \<rparr>)"
| o_failed: "d \<in> ul_others s \<Longrightarrow>
     uenv H s (s\<lparr> ul_known := complete (ul_known s) d (Some er), ul_others := ul_others s - {d} \<rparr>)"
| o_seed: "ul_store s d \<noteq> None \<Longrightarrow> uenv H s (s\<lparr> ul_known := seed (ul_known s) d \<rparr>)"

inductive ureach :: "(nat \<Rightarrow> up_error option) \<Rightarrow> (bytes \<Rightarrow> bytes) \<Rightarrow> prod_error option \<Rightarrow> upload \<Rightarrow> upload \<Rightarrow> bool" for app H e s0 where
  start: "ureach app H e s0 s0"
| step: "ureach app H e s0 s \<Longrightarrow> ustep app H e s s' \<Longrightarrow> ureach app H e s0 s'"
| env: "ureach app H e s0 s \<Longrightarrow> uenv H s s' \<Longrightarrow> ureach app H e s0 s'"

end
