(* ===== verification/Upload_Inv.thy ===== *)
theory Upload_Inv
  imports Upload
begin

text \<open>
  Invariants of an index upload: every job is in exactly one place, completions carry the data of
  their jobs, and a digest the session counts as known is on the server.
\<close>

subsection \<open>One completion at the collector\<close>

abbreviation with_done :: "chunkDone \<Rightarrow> collector \<Rightarrow> (nat \<times> chunkDone) set" where
  "with_done d k \<equiv> insert (cd_seq d, d) (set (co_pending k))"

lemma pending_update:
  assumes "distinct (map fst (co_pending k))" "map_of (AList.update (cd_seq d) d (co_pending k)) i = Some x"
  shows "(i, x) \<in> with_done d k"
  using assms by (auto simp: update_conv' split: if_splits dest: map_of_SomeD)

lemma mset_keys_split:
  assumes "distinct (map fst xs)" "distinct (map fst ys)" "map_of ys = map_of xs |` (- {n..<m})" "n \<le> m"
    "\<And>i. n \<le> i \<Longrightarrow> i < m \<Longrightarrow> map_of xs i \<noteq> None"
  shows "mset (map fst ys) + mset [n..<m] = mset (map fst xs)"
proof -
  have k: "set (map fst zs) = dom (map_of zs)" for zs :: "(nat \<times> 'a) list" by (simp add: dom_map_of_conv_image_fst)
  have "set (map fst ys) = set (map fst xs) - {n..<m}" unfolding k assms(3) by auto
  moreover have "{n..<m} \<subseteq> set (map fst xs)" unfolding k using assms(5) by auto
  ultimately have "set (map fst ys @ [n..<m]) = set (map fst xs)" "distinct (map fst ys @ [n..<m])" using assms(2) by auto
  then have "mset (map fst ys @ [n..<m]) = mset (map fst xs)"
    using assms(1) set_eq_iff_mset_eq_distinct by blast
  then show ?thesis by (simp only: mset_append)
qed

lemma col_receive_view:
  assumes inv: "col_inv ds k" "co_firstErr k = None" and d: "cd_err d = None" "distinct (map fst (co_pending k))"
    and new: "cd_seq d \<notin> fst ` set (co_pending k)"
  shows "\<exists>es. col_inv (ds @ es) (col_receive app k d) \<and> distinct (map fst (co_pending (col_receive app k d))) \<and>
    list_all2 (\<lambda>i x. (i, x) \<in> with_done d k) [length ds..<length ds + length es] es \<and>
    set (co_pending (col_receive app k d)) \<subseteq> with_done d k \<and>
    mset (map fst (co_pending (col_receive app k d))) + mset [0..<length ds + length es] =
      add_mset (cd_seq d) (mset (map fst (co_pending k)) + mset [0..<length ds])"
proof -
  let ?p = "AList.update (cd_seq d) d (co_pending k)" and ?k = "col_receive app k d"
  have dist: "distinct (map fst ?p)" using d(2) by (rule distinct_update)
  obtain es where es: "col_inv (ds @ es) ?k" "list_all2 (\<lambda>i d. map_of ?p i = Some d) [length ds..<length ds + length es] es"
      "map_of (co_pending ?k) = map_of ?p |` (- {length ds..<length ds + length es})"
    using col_receive_drained [OF inv d(1), of app] by (auto simp: drained_def)
  have dk: "distinct (map fst (co_pending ?k))"
    using col_drain_distinct [of "k\<lparr> co_pending := ?p \<rparr>" app] dist inv(2) d(1) by (simp add: col_receive_def)
  have "(i, x) \<in> with_done d k" if "(i, x) \<in> set (co_pending ?k)" for i x
  proof -
    have "map_of (co_pending ?k) i = Some x" using dk that by simp
    then show ?thesis using es(3) pending_update [OF d(2)] by (auto simp: restrict_map_def split: if_splits)
  qed
  then have sub: "set (co_pending ?k) \<subseteq> with_done d k" by auto
  have "mset (map fst (co_pending ?k)) + mset [length ds..<length ds + length es] = mset (map fst ?p)"
  proof (rule mset_keys_split [OF dist dk es(3)])
    fix i assume "length ds \<le> i" "i < length ds + length es"
    then show "map_of ?p i \<noteq> None" using list_all2_nthD [OF es(2), of "i - length ds"] by simp
  qed simp
  moreover have "mset (map fst ?p) = add_mset (cd_seq d) (mset (map fst (co_pending k)))"
    using new by (simp add: update_keys)
  ultimately have "mset (map fst (co_pending ?k)) + mset [0..<length ds + length es] =
      add_mset (cd_seq d) (mset (map fst (co_pending k)) + mset [0..<length ds])"
    by (simp only: upt_add_eq_append [of 0 "length ds" "length es", simplified] mset_append union_mset_add_mset_left union_mset_add_mset_right ac_simps)
  moreover have "list_all2 (\<lambda>i x. (i, x) \<in> with_done d k) [length ds..<length ds + length es] es"
    using es(2) by (rule list_all2_mono) (rule pending_update [OF d(2)])
  ultimately show ?thesis using es(1) dk sub by (intro exI [of _ es] conjI)
qed

lemma col_receive_err:
  assumes "col_inv ds k" "co_firstErr k \<noteq> None \<or> cd_err d \<noteq> None"
  shows "col_inv ds (col_receive app k d) \<and> co_pending (col_receive app k d) = co_pending k \<and> co_firstErr (col_receive app k d) \<noteq> None"
  using assms by (auto simp: col_receive_def col_inv_def split: option.splits)

subsection \<open>Where the jobs are\<close>

fun wk_jobs :: "wk \<Rightarrow> chunkJob list" where
  "wk_jobs (WkJob j) = [j]"
| "wk_jobs (WkUpload j) = [j]"
| "wk_jobs (WkWait j) = [j]"
| "wk_jobs _ = []"

fun wk_dones :: "wk \<Rightarrow> chunkDone list" where
  "wk_dones (WkSend d) = [d]"
| "wk_dones _ = []"

fun wk_ups :: "wk \<Rightarrow> chunkJob list" where
  "wk_ups (WkUpload j) = [j]"
| "wk_ups _ = []"

definition jobs_in :: "upload \<Rightarrow> chunkJob list" where
  "jobs_in s = ul_jobs s @ concat (map wk_jobs (ul_work s))"

definition dones_in :: "upload \<Rightarrow> chunkDone list" where
  "dones_in s = concat (map wk_dones (ul_work s)) @ ul_dones s"

definition ups_in :: "upload \<Rightarrow> chunkJob list" where
  "ups_in s = concat (map wk_ups (ul_work s))"

lemmas places = jobs_in_def dones_in_def ups_in_def

definition seqs_in :: "upload \<Rightarrow> nat multiset" where
  "seqs_in s = mset (map cj_seq (jobs_in s)) + mset (map cd_seq (dones_in s)) +
     mset (map fst (co_pending (ul_col s))) + mset [0..<co_next (ul_col s)]"

definition done_ok :: "(bytes \<Rightarrow> bytes) \<Rightarrow> chunkJob list \<Rightarrow> chunkDone \<Rightarrow> bool" where
  "done_ok H js d \<longleftrightarrow> cd_seq d < length js \<and> d = job_done H (js ! cd_seq d) (cd_reused d) (cd_err d)"

definition numbered :: "chunkJob list \<Rightarrow> bool" where
  "numbered js \<longleftrightarrow> (\<forall>i < length js. cj_seq (js ! i) = i)"

definition job_inv :: "(bytes \<Rightarrow> bytes) \<Rightarrow> chunkJob list \<Rightarrow> upload \<Rightarrow> bool" where
  "job_inv H js s \<longleftrightarrow>
     suffix (ul_todo s) js \<and>
     (\<forall>j \<in> set (jobs_in s). cj_seq j < length js \<and> js ! cj_seq j = j) \<and>
     (\<forall>d \<in> set (dones_in s). done_ok H js d) \<and>
     distinct (map fst (co_pending (ul_col s))) \<and>
     (\<forall>(i, d) \<in> set (co_pending (ul_col s)). i = cd_seq d \<and> done_ok H js d \<and> cd_err d = None) \<and>
     (\<exists>ds. col_inv ds (ul_col s) \<and> (\<forall>i < length ds. cd_seq (ds ! i) = i \<and> done_ok H js (ds ! i) \<and> cd_err (ds ! i) = None)) \<and>
     (co_firstErr (ul_col s) = None \<longrightarrow> seqs_in s = mset [0..<length js - length (ul_todo s)])"

lemma done_ok_job: "cj_seq j < length js \<Longrightarrow> js ! cj_seq j = j \<Longrightarrow> done_ok H js (job_done H j r e)"
  by (simp add: done_ok_def job_done_def)

lemma seq_job_done [simp]: "cd_seq (job_done H j r e) = cj_seq j" "cd_err (job_done H j r e) = e"
  "cd_digest (job_done H j r e) = job_digest H j"
  by (simp_all add: job_done_def)

text \<open>A step that moves a job or a completion, leaving the collector and the producer alone.\<close>

lemma job_inv_move:
  assumes "job_inv H js s" "ul_todo s' = ul_todo s" "ul_col s' = ul_col s"
    "\<forall>j \<in> set (jobs_in s'). j \<in> set (jobs_in s)"
    "\<forall>d \<in> set (dones_in s'). d \<in> set (dones_in s) \<or> (\<exists>j \<in> set (jobs_in s). \<exists>r e. d = job_done H j r e)"
    "mset (map cj_seq (jobs_in s')) + mset (map cd_seq (dones_in s')) = mset (map cj_seq (jobs_in s)) + mset (map cd_seq (dones_in s))"
  shows "job_inv H js s'"
proof -
  have "seqs_in s' = seqs_in s" using assms(3,6) by (simp add: seqs_in_def)
  moreover have "\<forall>d \<in> set (dones_in s'). done_ok H js d"
    using assms(1,5) by (fastforce simp: job_inv_def intro: done_ok_job)
  ultimately show ?thesis using assms(1-4) by (auto simp: job_inv_def)
qed

lemma job_inv_send:
  assumes "job_inv H js s" "numbered js" "ul_todo s = j # ts"
  shows "job_inv H js (s\<lparr> ul_todo := ts, ul_jobs := ul_jobs s @ [j] \<rparr>)"
proof -
  obtain ps where p: "js = ps @ j # ts" using assms(1,3) by (auto simp: job_inv_def suffix_def)
  let ?n = "length ps"
  have s: "cj_seq j = ?n" using assms(2) p by (auto simp: numbered_def dest: spec [of _ "length ps"])
  then have sj: "cj_seq j < length js" "js ! cj_seq j = j" by (simp_all add: p)
  have l: "length js - length ts = Suc ?n" "length js - length (ul_todo s) = ?n" using assms(3) by (simp_all add: p)
  let ?s = "s\<lparr> ul_todo := ts, ul_jobs := ul_jobs s @ [j] \<rparr>"
  have "seqs_in ?s = add_mset ?n (seqs_in s)" by (simp add: seqs_in_def places s)
  then have "co_firstErr (ul_col ?s) = None \<longrightarrow> seqs_in ?s = mset [0..<length js - length (ul_todo ?s)]"
    using assms(1) by (simp add: job_inv_def l del: mset_upt)
  moreover have "suffix (ul_todo ?s) js" by (simp add: p suffix_def)
  moreover have "\<forall>i \<in> set (jobs_in ?s). cj_seq i < length js \<and> js ! cj_seq i = i" "dones_in ?s = dones_in s" "ul_col ?s = ul_col s"
    using assms(1) sj by (auto simp: job_inv_def places)
  ultimately show ?thesis using assms(1) unfolding job_inv_def by (elim conjE, intro conjI) simp_all
qed

lemma job_inv_receive:
  assumes "job_inv H js s" "ul_dones s = d # ds"
  shows "job_inv H js (s\<lparr> ul_dones := ds, ul_col := col_receive app (ul_col s) d, ul_cancel := c \<rparr>)"
proof -
  let ?k = "ul_col s" and ?s = "s\<lparr> ul_dones := ds, ul_col := col_receive app (ul_col s) d, ul_cancel := c \<rparr>"
  obtain as where as: "col_inv as ?k" "\<And>i. i < length as \<Longrightarrow> cd_seq (as ! i) = i \<and> done_ok H js (as ! i) \<and> cd_err (as ! i) = None"
    using assms(1) by (auto simp: job_inv_def)
  have dd: "done_ok H js d" "distinct (map fst (co_pending ?k))"
      "\<And>i x. (i, x) \<in> set (co_pending ?k) \<Longrightarrow> i = cd_seq x \<and> done_ok H js x \<and> cd_err x = None"
    using assms by (auto simp: job_inv_def places)
  have rest: "jobs_in ?s = jobs_in s" "\<forall>x \<in> set (dones_in ?s). done_ok H js x"
      "mset (map cd_seq (dones_in s)) = add_mset (cd_seq d) (mset (map cd_seq (dones_in ?s)))"
    using assms by (auto simp: job_inv_def places)
  show ?thesis
  proof (cases "co_firstErr ?k = None \<and> cd_err d = None")
    case False
    then have "col_inv as (col_receive app ?k d)" "co_pending (col_receive app ?k d) = co_pending ?k" "co_firstErr (col_receive app ?k d) \<noteq> None"
      using col_receive_err [OF as(1)] by blast+
    then show ?thesis using assms(1) as rest by (auto simp: job_inv_def)
  next
    case True
    have cnt: "seqs_in s = mset [0..<length js - length (ul_todo s)]" using assms(1) True by (simp add: job_inv_def)
    then have c1: "count (seqs_in s) (cd_seq d) \<le> 1" using distinct_count_atmost_1 [of "[0..<length js - length (ul_todo s)]"] by (simp del: mset_upt)
    have new: "cd_seq d \<notin> fst ` set (co_pending ?k)"
    proof
      assume "cd_seq d \<in> fst ` set (co_pending ?k)"
      then have "0 < count (mset (map fst (co_pending ?k))) (cd_seq d)" by (simp del: mset_map)
      then show False using c1 rest(3) by (simp add: seqs_in_def del: mset_map mset_upt)
    qed
    obtain es where es: "col_inv (as @ es) (col_receive app ?k d)" "distinct (map fst (co_pending (col_receive app ?k d)))"
        "list_all2 (\<lambda>i x. (i, x) \<in> with_done d ?k) [length as..<length as + length es] es"
        "set (co_pending (col_receive app ?k d)) \<subseteq> with_done d ?k"
        "mset (map fst (co_pending (col_receive app ?k d))) + mset [0..<length as + length es] =
           add_mset (cd_seq d) (mset (map fst (co_pending ?k)) + mset [0..<length as])"
      using col_receive_view [OF as(1) conjunct1 [OF True] conjunct2 [OF True] dd(2) new, of app] by (elim exE conjE) (rule that)
    have acc: "cd_seq ((as @ es) ! i) = i \<and> done_ok H js ((as @ es) ! i) \<and> cd_err ((as @ es) ! i) = None" if i: "i < length (as @ es)" for i
    proof (cases "i < length as")
      case False
      then have "(i, es ! (i - length as)) \<in> with_done d ?k" using list_all2_nthD [OF es(3), of "i - length as"] i by auto
      then show ?thesis using False dd True by (auto simp: nth_append)
    qed (simp add: nth_append as(2))
    have "seqs_in ?s = seqs_in s"
      using es(1,5) as(1) rest(1,3) by (simp add: seqs_in_def col_inv_def)
    moreover have "\<forall>(i, x) \<in> set (co_pending (col_receive app ?k d)). i = cd_seq x \<and> done_ok H js x \<and> cd_err x = None"
      using es(4) dd True by blast
    ultimately show ?thesis using assms(1) rest es(1,2) acc cnt by (auto simp: job_inv_def)
  qed
qed

lemma concat_replicate_empty: "f x = [] \<Longrightarrow> concat (map f (replicate n x)) = []"
  by (induction n) auto

lemma job_inv_start: "job_inv H js (startUpload W js known store)"
proof -
  have "jobs_in (startUpload W js known store) = []" "dones_in (startUpload W js known store) = []"
    by (simp_all add: places startUpload_def concat_replicate_empty del: map_replicate)
  then show ?thesis using col_inv_new
    by (auto simp: job_inv_def seqs_in_def startUpload_def intro!: exI [of _ "[]"]) (simp_all add: newCollector_def)
qed

lemma job_inv_ustep: "ustep app H e s s' \<Longrightarrow> numbered js \<Longrightarrow> job_inv H js s \<Longrightarrow> job_inv H js s'"
proof (induction rule: ustep.induct)
  case (p_send s j js')
  then show ?case by (intro job_inv_send)
next
  case (c_receive s d ds k)
  then show ?case using job_inv_receive by blast
qed (erule job_inv_move; auto simp: places)+

lemma job_inv_uenv: "uenv H s s' \<Longrightarrow> job_inv H js s \<Longrightarrow> job_inv H js s'"
  by (induction rule: uenv.induct) (erule job_inv_move; simp add: places)+

subsection \<open>What is on the server\<close>

definition claims_inv :: "(bytes \<Rightarrow> bytes) \<Rightarrow> upload \<Rightarrow> bool" where
  "claims_inv H s \<longleftrightarrow>
     (\<forall>j \<in> set (ups_in s). \<not> cj_known j \<and> ul_known s (job_digest H j) = Some Pending \<and> job_digest H j \<notin> ul_others s) \<and>
     distinct (map (job_digest H) (ups_in s)) \<and>
     (\<forall>d \<in> ul_others s. ul_known s d = Some Pending) \<and>
     distinct (ul_log s) \<and> (\<forall>d \<in> set (ul_log s). ul_known s d = Some (Complete None))"

definition store_inv :: "(bytes \<Rightarrow> bytes) \<Rightarrow> upload \<Rightarrow> bool" where
  "store_inv H s \<longleftrightarrow>
     (\<forall>d. ul_known s d = Some (Complete None) \<longrightarrow> ul_store s d \<noteq> None) \<and>
     (\<forall>d c. ul_store s d = Some c \<longrightarrow> H c = d) \<and>
     (\<forall>d \<in> set (dones_in s). cd_err d = None \<longrightarrow> ul_store s (cd_digest d) \<noteq> None) \<and>
     (\<forall>(i, d) \<in> set (co_pending (ul_col s)). ul_store s (cd_digest d) \<noteq> None) \<and>
     (\<forall>x \<in> set (us_Entries (co_stats (ul_col s))). ul_store s (ix_Digest x) \<noteq> None)"

lemma claims_inv_fresh:
  assumes "claims_inv H s" "ul_known s d = None"
  shows "d \<notin> set (map (job_digest H) (ups_in s))" "d \<notin> ul_others s" "d \<notin> set (ul_log s)"
  using assms by (auto simp: claims_inv_def)

lemma claims_inv_other:
  assumes "claims_inv H s" "ups_in s' = ups_in s" "ul_others s' = ul_others s" "ul_log s' = ul_log s" "ul_known s' = (ul_known s)(d := x)"
    "d \<notin> set (map (job_digest H) (ups_in s))" "d \<notin> ul_others s" "d \<notin> set (ul_log s)"
  shows "claims_inv H s'"
  using assms by (auto simp: claims_inv_def)

text \<open>A worker that has uploaded, or failed to: nobody else is uploading its digest.\<close>

lemma claims_inv_end:
  assumes "claims_inv H s" "ul_work s = xs @ WkUpload j # ys"
  shows "claims_inv H (s\<lparr> ul_known := (ul_known s)(job_digest H j \<mapsto> Complete er), ul_work := xs @ WkSend c # ys,
     ul_log := (if er = None then ul_log s @ [job_digest H j] else ul_log s) \<rparr>)"
proof -
  define us vs where "us = concat (map wk_ups xs)" and "vs = concat (map wk_ups ys)"
  let ?d = "job_digest H j"
  have u: "ups_in s = us @ j # vs" "ups_in (s\<lparr> ul_known := ks, ul_work := xs @ WkSend c # ys, ul_log := l \<rparr>) = us @ vs" for ks l
    using assms(2) by (simp_all add: places us_def vs_def)
  have m: "?d \<notin> job_digest H ` set (us @ vs)" "?d \<notin> ul_others s" "?d \<notin> set (ul_log s)"
    using assms(1) unfolding claims_inv_def u by auto
  then have "\<forall>i \<in> set (us @ vs). job_digest H i \<noteq> ?d" by (metis imageI)
  then show ?thesis using assms(1) m unfolding claims_inv_def u by auto
qed

lemma claims_inv_ustep: "ustep app H e s s' \<Longrightarrow> claims_inv H s \<Longrightarrow> claims_inv H s'"
proof (induction rule: ustep.induct)
  case (w_claim s xs j ys d cs)
  then have "ul_known s d = None" "cs = (ul_known s)(d \<mapsto> Pending)" by (auto simp: claim_def split: option.splits)
  note k = this and f = claims_inv_fresh [OF w_claim(5) this(1)]
  have u: "ups_in s = concat (map wk_ups xs) @ concat (map wk_ups ys)"
      "ups_in (s\<lparr> ul_known := cs, ul_work := xs @ WkUpload j # ys \<rparr>) = concat (map wk_ups xs) @ j # concat (map wk_ups ys)"
    using w_claim(1) by (simp_all add: places)
  show ?case using w_claim(4,5) f unfolding claims_inv_def u by (simp add: k(2) w_claim(2)) auto
next
  case (w_unknown s xs j ys d cs)
  then have k: "ul_known s d = None" "complete cs d (Some (UpUnknown d)) = (ul_known s)(d \<mapsto> Complete (Some (UpUnknown d)))"
    by (auto simp: claim_def complete_def split: option.splits)
  have u: "ups_in (s\<lparr> ul_known := ks, ul_work := xs @ WkSend c # ys \<rparr>) = ups_in s" for c ks
    using w_unknown(1) by (simp add: places)
  show ?case unfolding k(2)
    by (rule claims_inv_other [OF w_unknown(5) u _ _ _ claims_inv_fresh [OF w_unknown(5) k(1)]]) simp_all
next
  case (w_hit s xs j ys d cs)
  then have "cs = ul_known s" by (auto simp: claim_def split: option.splits)
  with w_hit show ?case by (auto simp: claims_inv_def places)
next
  case (w_uploaded s xs j ys d)
  from claims_inv_end [OF w_uploaded(3,1), of None]
  show ?case unfolding w_uploaded(2) complete_def by (simp add: claims_inv_def places)
next
  case (w_failed s xs j ys d er)
  from claims_inv_end [OF w_failed(3,1), of "Some er"]
  show ?case unfolding w_failed(2) complete_def by (simp add: claims_inv_def places)
qed (auto simp: claims_inv_def places)

lemma claims_inv_uenv: "uenv H s s' \<Longrightarrow> claims_inv H s \<Longrightarrow> claims_inv H s'"
proof (induction rule: uenv.induct)
  case (o_claim s d cs)
  then have "ul_known s d = None" "cs = (ul_known s)(d \<mapsto> Pending)" by (auto simp: claim_def split: option.splits)
  with o_claim show ?case by (fastforce simp: claims_inv_def places)
next
  case (o_seed s d)
  then show ?case by (fastforce simp: claims_inv_def places seed_def split: option.splits)
qed (fastforce simp: claims_inv_def places complete_def)+

lemma col_receive_sets:
  assumes "col_inv ds k" "distinct (map fst (co_pending k))"
  shows "(\<forall>x \<in> set (us_Entries (co_stats (col_receive app k d))). x \<in> set (us_Entries (co_stats k)) \<or>
       (\<exists>(i, c) \<in> set (co_pending k). x = index_entry c) \<or> x = index_entry d \<and> cd_err d = None) \<and>
    (\<forall>(i, c) \<in> set (co_pending (col_receive app k d)). (i, c) \<in> set (co_pending k) \<or> c = d \<and> cd_err d = None)"
proof (cases "co_firstErr k = None \<and> cd_err d = None")
  case False
  then have "co_stats (col_receive app k d) = co_stats k" "co_pending (col_receive app k d) = co_pending k"
    by (auto simp: col_receive_def split: option.splits)
  then show ?thesis by auto
next
  case True
  let ?p = "AList.update (cd_seq d) d (co_pending k)" and ?k = "col_receive app k d"
  obtain es where es: "col_inv (ds @ es) ?k" "list_all2 (\<lambda>i d. map_of ?p i = Some d) [length ds..<length ds + length es] es"
      "map_of (co_pending ?k) = map_of ?p |` (- {length ds..<length ds + length es})"
    using col_receive_drained [OF assms(1), of d app] True by (auto simp: drained_def)
  have dk: "distinct (map fst (co_pending ?k))"
    using col_drain_distinct [of "k\<lparr> co_pending := ?p \<rparr>" app] distinct_update [OF assms(2)] True by (simp add: col_receive_def)
  have pend: "(i, c) \<in> with_done d k" if "(i, c) \<in> set (co_pending ?k)" for i c
  proof -
    have "map_of (co_pending ?k) i = Some c" using dk that by simp
    then show ?thesis using es(3) pending_update [OF assms(2)] by (auto simp: restrict_map_def split: if_splits)
  qed
  have ent: "\<exists>i. (i, c) \<in> with_done d k" if c: "c \<in> set es" for c
  proof -
    obtain j where j: "j < length es" "c = es ! j" using c by (metis in_set_conv_nth)
    then have "map_of ?p (length ds + j) = Some c" using list_all2_nthD [OF es(2), of j] by simp
    from pending_update [OF assms(2) this] show ?thesis by (rule exI)
  qed
  have "us_Entries (co_stats ?k) = us_Entries (co_stats k) @ map index_entry es" using es(1) assms(1) by (simp add: col_inv_def)
  then have "x \<in> set (us_Entries (co_stats k)) \<or> (\<exists>(i, c) \<in> set (co_pending k). x = index_entry c) \<or> x = index_entry d \<and> cd_err d = None"
    if x: "x \<in> set (us_Entries (co_stats ?k))" for x
  proof (cases "x \<in> set (us_Entries (co_stats k))")
    case False
    then obtain c where c: "c \<in> set es" "x = index_entry c" using \<open>us_Entries (co_stats ?k) = _\<close> x by auto
    from ent [OF c(1)] c(2) True show ?thesis by auto
  qed simp
  then show ?thesis using pend True by auto
qed

text \<open>A step that only adds to the store, with completions that are stored.\<close>

lemma store_inv_move:
  assumes "store_inv H s" "ul_col s' = ul_col s" "\<forall>d. ul_store s d \<noteq> None \<longrightarrow> ul_store s' d \<noteq> None"
    "\<forall>d c. ul_store s' d = Some c \<longrightarrow> H c = d" "\<forall>d. ul_known s' d = Some (Complete None) \<longrightarrow> ul_store s' d \<noteq> None"
    "\<forall>d \<in> set (dones_in s'). d \<in> set (dones_in s) \<or> cd_err d \<noteq> None \<or> ul_store s' (cd_digest d) \<noteq> None"
  shows "store_inv H s'"
  using assms unfolding store_inv_def by (simp only: assms(2)) blast

lemma store_inv_ustep:
  assumes "ustep app H e s s'" "job_inv H js s" "claims_inv H s" "store_inv H s"
  shows "store_inv H s'"
  using assms
proof (induction rule: ustep.induct)
  case (w_unknown s xs j ys d cs)
  then show ?case by (intro store_inv_move [OF w_unknown(7)]) (auto simp: store_inv_def places complete_def claim_def split: option.splits if_splits)
next
  case (w_claim s xs j ys d cs)
  then show ?case by (intro store_inv_move [OF w_claim(7)]) (auto simp: store_inv_def places claim_def split: option.splits if_splits)
next
  case (w_hit s xs j ys d cs)
  then show ?case by (intro store_inv_move [OF w_hit(6)]) (auto simp: store_inv_def places claim_def split: option.splits)
next
  case (w_uploaded s xs j ys d)
  then have "H (cj_data j) = d" by (simp add: claims_inv_def places job_digest_def)
  with w_uploaded show ?case by (intro store_inv_move [OF w_uploaded(5)]) (auto simp: store_inv_def places complete_def)
next
  case (w_failed s xs j ys d er)
  then show ?case by (intro store_inv_move [OF w_failed(5)]) (auto simp: store_inv_def places complete_def split: if_splits)
next
  case (w_waited s xs j ys er)
  then show ?case by (cases er) (rule store_inv_move [OF w_waited(5)]; auto simp: store_inv_def places)+
next
  case (w_canceled s xs j ys)
  then show ?case by (intro store_inv_move [OF w_canceled(5)]) (auto simp: store_inv_def places)
next
  case (c_receive s d ds k)
  obtain as where "col_inv as (ul_col s)" "distinct (map fst (co_pending (ul_col s)))" using c_receive(3) by (auto simp: job_inv_def)
  note sets = col_receive_sets [OF this, of app d]
  have d: "cd_err d = None \<longrightarrow> ul_store s (cd_digest d) \<noteq> None" using c_receive(1,5) by (simp add: store_inv_def places)
  have o: "\<forall>(i, c) \<in> set (co_pending (ul_col s)). ul_store s (cd_digest c) \<noteq> None"
      "\<forall>x \<in> set (us_Entries (co_stats (ul_col s))). ul_store s (ix_Digest x) \<noteq> None" using c_receive(5) by (simp_all add: store_inv_def)
  have "\<forall>x \<in> set (us_Entries (co_stats k)). ul_store s (ix_Digest x) \<noteq> None"
    using sets d o unfolding c_receive(2) by (fastforce simp: index_entry_def)
  moreover have "\<forall>(i, c) \<in> set (co_pending k). ul_store s (cd_digest c) \<noteq> None"
    using sets d o unfolding c_receive(2) by fastforce
  ultimately show ?case using c_receive(1,5) by (simp add: store_inv_def places)
qed (auto simp: store_inv_def places)

lemma store_inv_uenv: "uenv H s s' \<Longrightarrow> store_inv H s \<Longrightarrow> store_inv H s'"
proof (induction rule: uenv.induct)
  case (n_cancel s)
  then show ?case by (simp add: store_inv_def places)
next
  case (o_claim s d cs)
  then show ?case by (intro store_inv_move [OF o_claim(2)]) (auto simp: store_inv_def places claim_def split: option.splits if_splits)
next
  case (o_uploaded c s)
  then show ?case by (intro store_inv_move [OF o_uploaded(2)]) (auto simp: store_inv_def places complete_def)
next
  case (o_failed d s er)
  then show ?case by (intro store_inv_move [OF o_failed(2)]) (auto simp: store_inv_def places complete_def split: if_splits)
next
  case (o_seed s d)
  then show ?case by (intro store_inv_move [OF o_seed(2)]) (auto simp: store_inv_def places seed_def split: option.splits if_splits)
qed

text \<open>A session to start from: what it counts as known is on the server, under its digest.\<close>

definition session_ok :: "(bytes \<Rightarrow> bytes) \<Rightarrow> chunkSet \<Rightarrow> (bytes \<rightharpoonup> bytes) \<Rightarrow> bool" where
  "session_ok H known store \<longleftrightarrow>
     (\<forall>d. known d = Some (Complete None) \<longrightarrow> store d \<noteq> None) \<and> (\<forall>d c. store d = Some c \<longrightarrow> H c = d)"

lemma upload_invariants:
  assumes "ureach app H e (startUpload W js known store) s" "numbered js" "session_ok H known store"
  shows "job_inv H js s \<and> claims_inv H s \<and> store_inv H s"
  using assms(1)
proof induction
  case start
  have "ups_in (startUpload W js known store) = []" "dones_in (startUpload W js known store) = []"
    by (simp_all add: places startUpload_def concat_replicate_empty del: map_replicate)
  then have "claims_inv H (startUpload W js known store)" "store_inv H (startUpload W js known store)"
    using assms(3) by (auto simp: claims_inv_def store_inv_def startUpload_def newCollector_def session_ok_def)
  then show ?case using job_inv_start by blast
next
  case (step s s')
  then show ?case using job_inv_ustep [OF step(2) assms(2)] claims_inv_ustep [OF step(2)] store_inv_ustep [OF step(2)] by blast
next
  case (env s s')
  then show ?case using job_inv_uenv [OF env(2)] claims_inv_uenv [OF env(2)] store_inv_uenv [OF env(2)] by blast
qed

end
