(* ===== verification/Upload_Result.thy ===== *)
theory Upload_Result
  imports Upload_Inv
begin

text \<open>
  What an index upload guarantees: no digest is uploaded twice in a session and none is put into an
  index before it is on the server; an upload that succeeds has written the index of its stream.
\<close>

subsection \<open>Ends of a run\<close>

definition ends_inv :: "prod_error option \<Rightarrow> upload \<Rightarrow> bool" where
  "ends_inv e s \<longleftrightarrow>
     (\<forall>p. ul_perr s = Some p \<longrightarrow> p = e \<and> ul_todo s = [] \<or> p = Some PdCanceled) \<and>
     (WkExit \<in> set (ul_work s) \<longrightarrow> ul_perr s \<noteq> None \<and> ul_jobs s = [])"

lemma ends_inv_reach:
  assumes "ureach app H e (startUpload W js known store) s"
  shows "ends_inv e s \<and> length (ul_work s) = W"
  using assms
proof induction
  case start
  then show ?case by (auto simp: ends_inv_def startUpload_def)
next
  case (step s s')
  from step(2) step(3) show ?case by (induction rule: ustep.induct) (auto simp: ends_inv_def)
next
  case (env s s')
  from env(2) env(3) show ?case by (induction rule: uenv.induct) (auto simp: ends_inv_def)
qed

text \<open>\<open>dones\<close> has been closed and drained.\<close>

definition stopped_upload :: "upload \<Rightarrow> bool" where
  "stopped_upload s \<longleftrightarrow> list_all (\<lambda>w. w = WkExit) (ul_work s) \<and> ul_dones s = []"

definition uploadResult :: "(nat \<Rightarrow> up_error option) \<Rightarrow> up_error option \<Rightarrow> upload \<Rightarrow> collector \<times> (up_error + UploadStats \<times> bytes)" where
  "uploadResult app closeErr s =
     col_finish app (case ul_perr s of Some (Some p) \<Rightarrow> Some (UpProducer p) | _ \<Rightarrow> None) closeErr (ul_col s)"

definition job_entry :: "(bytes \<Rightarrow> bytes) \<Rightarrow> chunkJob \<Rightarrow> IndexEntry" where
  "job_entry H j = \<lparr> ix_EndOffset = cj_offset j + job_size j, ix_Digest = job_digest H j \<rparr>"

lemma index_entry_done: "index_entry (job_done H j r e) = job_entry H j"
  by (simp add: index_entry_def job_entry_def job_done_def)

lemma done_ok_fields:
  assumes "done_ok H js d" "cd_seq d = i"
  shows "index_entry d = job_entry H (js ! i) \<and> cd_digest d = job_digest H (js ! i) \<and> cd_offset d = cj_offset (js ! i)"
proof -
  obtain r e where "d = job_done H (js ! i) r e" using assms by (auto simp: done_ok_def)
  then show ?thesis by (simp add: index_entry_done) (simp add: job_done_def)
qed

lemma col_finish_ok:
  assumes "col_finish app pe ce k = (k', Inr (stats, csum))" "col_inv ds k"
  shows "pe = None \<and> co_firstErr k = None \<and> co_pending k = [] \<and> stats = stats_of ds \<and>
    csum = concat (map (\<lambda>d. entry_record (index_entry d)) ds) \<and>
    concat (map fst (co_appended k')) = map (\<lambda>d. EncodeToString (cd_digest d)) ds \<and>
    concat (map snd (co_appended k')) = map cd_offset ds \<and>
    list_all (\<lambda>(a, b). a \<noteq> [] \<and> length a = length b \<and> length a \<le> 128) (co_appended k')"
proof -
  have f: "co_firstErr k = None" "pe = None" "co_pending k = []" "col_flush app k = (k', None)" "stats = co_stats k'" "csum = co_csum k'"
    using assms(1) by (auto simp: col_finish_def split: option.splits if_splits prod.splits)
  then show ?thesis using assms(2)
    by (auto simp: col_inv_def col_flush_def split: if_splits option.splits)
qed

lemma mset_upt_inj: "mset [0..<n] = mset [0..<m] \<Longrightarrow> n = m"
  by (metis diff_zero length_upt size_mset)

text \<open>
  C15: A session never uploads a digest twice and never indexes a chunk that is not there: in every state an index
  upload can reach, next to other uploads of the same session and whatever fails, the digests uploaded
  are distinct, and every digest sent in an append is on the server with a content of that digest.
\<close>

theorem upload_safe:
  assumes "ureach app H e (startUpload W js known store) s" "numbered js" "session_ok H known store"
  shows "distinct (ul_log s) \<and>
    (\<forall>(hs, os) \<in> set (co_appended (ul_col s)). \<forall>h \<in> set hs. \<exists>d c. h = EncodeToString d \<and> ul_store s d = Some c \<and> H c = d)"
proof -
  have inv: "job_inv H js s" "claims_inv H s" "store_inv H s" using upload_invariants [OF assms] by auto
  obtain ds where ds: "col_inv ds (ul_col s)" using inv(1) by (auto simp: job_inv_def)
  have "\<exists>d c. h = EncodeToString d \<and> ul_store s d = Some c \<and> H c = d" if h: "(hs, os) \<in> set (co_appended (ul_col s))" "h \<in> set hs" for h hs os
  proof -
    have "h \<in> set (concat (map fst (co_appended (ul_col s))))" using h by force
    then have "h \<in> set (concat (map fst (co_appended (ul_col s))) @ co_digests (ul_col s))" by simp
    moreover have "concat (map fst (co_appended (ul_col s))) @ co_digests (ul_col s) = map (\<lambda>d. EncodeToString (cd_digest d)) ds"
      using ds by (simp add: col_inv_def)
    ultimately have "h \<in> set (map (\<lambda>d. EncodeToString (cd_digest d)) ds)" by simp
    then obtain d where d: "d \<in> set ds" "h = EncodeToString (cd_digest d)" by auto
    then have "index_entry d \<in> set (us_Entries (co_stats (ul_col s)))" using ds by (simp add: col_inv_def)
    then show ?thesis using inv(3) d(2) by (fastforce simp: store_inv_def index_entry_def)
  qed
  then show ?thesis using inv(2) by (auto simp: claims_inv_def)
qed

lemma upload_indexed:
  assumes "ureach app H e (startUpload W js known store) s" "numbered js" "session_ok H known store" "0 < W"
    and "stopped_upload s" "uploadResult app closeErr s = (k, Inr (stats, csum))"
  shows "e = None \<and> us_Entries stats = map (job_entry H) js \<and> us_ChunkCount stats = len64 js \<and>
    csum = concat (map entry_record (us_Entries stats)) \<and>
    concat (map fst (co_appended k)) = map (\<lambda>j. EncodeToString (job_digest H j)) js \<and>
    concat (map snd (co_appended k)) = map cj_offset js \<and>
    list_all (\<lambda>(hs, os). hs \<noteq> [] \<and> length hs = length os \<and> length hs \<le> 128) (co_appended k) \<and>
    (\<forall>j \<in> set js. \<exists>c. ul_store s (job_digest H j) = Some c \<and> H c = job_digest H j)"
proof -
  have inv: "job_inv H js s" "store_inv H s" "ends_inv e s" "length (ul_work s) = W"
    using upload_invariants [OF assms(1-3)] ends_inv_reach [OF assms(1)] by auto
  obtain ds where ds: "col_inv ds (ul_col s)" "\<And>i. i < length ds \<Longrightarrow> cd_seq (ds ! i) = i \<and> done_ok H js (ds ! i)"
    using inv(1) by (auto simp: job_inv_def)
  note fin = col_finish_ok [OF assms(6) [unfolded uploadResult_def] ds(1)]
  have work: "WkExit \<in> set (ul_work s)" "concat (map wk_jobs (ul_work s)) = []" "concat (map wk_dones (ul_work s)) = []"
    using assms(4,5) inv(4) by (cases "ul_work s"; auto simp: stopped_upload_def list_all_iff)+
  then have none: "jobs_in s = []" "dones_in s = []" "ul_perr s \<noteq> None"
    using inv(3) assms(5) by (auto simp: places ends_inv_def stopped_upload_def)
  then have pe: "ul_perr s = Some None" using fin by (auto split: option.splits)
  then have e: "e = None" "ul_todo s = []" using inv(3) by (auto simp: ends_inv_def)
  have "mset [0..<length ds] = mset [0..<length js]"
    using inv(1) none fin ds(1) e(2) by (simp add: job_inv_def seqs_in_def col_inv_def)
  then have len: "length ds = length js" by (rule mset_upt_inj)
  have nth: "index_entry (ds ! i) = job_entry H (js ! i) \<and> cd_digest (ds ! i) = job_digest H (js ! i) \<and> cd_offset (ds ! i) = cj_offset (js ! i)"
    if "i < length js" for i
    using done_ok_fields [of H js "ds ! i" i] ds(2) [of i] that len by simp
  have ent: "map index_entry ds = map (job_entry H) js" "map (\<lambda>d. EncodeToString (cd_digest d)) ds = map (\<lambda>j. EncodeToString (job_digest H j)) js"
      "map cd_offset ds = map cj_offset js"
    using len nth by (auto intro!: nth_equalityI)
  have "\<exists>c. ul_store s (job_digest H j) = Some c \<and> H c = job_digest H j" if "j \<in> set js" for j
  proof -
    have "job_entry H j \<in> set (us_Entries (co_stats (ul_col s)))" using ds(1) ent(1) that by (auto simp: col_inv_def)
    then show ?thesis using inv(2) by (fastforce simp: store_inv_def job_entry_def)
  qed
  moreover have "concat (map (\<lambda>d. entry_record (index_entry d)) ds) = concat (map entry_record (map (job_entry H) js))"
    unfolding ent(1) [symmetric] by (simp add: comp_def)
  ultimately show ?thesis using fin e(1) ent len by (simp add: us_Count_stats)
qed

text \<open>
  C6: An upload that succeeds has indexed its stream: the producer ended without an error, the index entries are those of all its
  jobs in stream order, appended in batches of at most 128 without gaps or repetitions, the checksum
  is taken over the same entries, and every chunk of the index is on the server under its digest.
\<close>

theorem upload_result:
  assumes "ureach app H e (startUpload W js known store) s" "numbered js" "session_ok H known store" "0 < W"
    and "stopped_upload s" "uploadResult app closeErr s = (k, Inr (stats, csum))"
  shows "e = None \<and> us_Entries stats = map (job_entry H) js \<and> us_ChunkCount stats = len64 js \<and>
    csum = concat (map entry_record (us_Entries stats)) \<and>
    concat (map fst (co_appended k)) = map (\<lambda>j. EncodeToString (job_digest H j)) js \<and>
    concat (map snd (co_appended k)) = map cj_offset js \<and>
    list_all (\<lambda>(hs, os). hs \<noteq> [] \<and> length hs = length os \<and> length hs \<le> 128) (co_appended k) \<and>
    (\<forall>j \<in> set js. \<exists>c. ul_store s (job_digest H j) = Some c \<and> H c = job_digest H j)"
  by (rule upload_indexed [OF assms])

subsection \<open>A run\<close>

text \<open>One worker, a stream of one chunk, a new session.\<close>

abbreviation one_job :: "bytes \<Rightarrow> chunkJob" where
  "one_job d \<equiv> data_job 0 0 d"

definition one_state :: "(bytes \<Rightarrow> bytes) \<Rightarrow> bytes \<Rightarrow> chunkJob list \<Rightarrow> prod_error option option \<Rightarrow> chunkJob list \<Rightarrow> wk \<Rightarrow> chunkDone list \<Rightarrow>
    chunkSet \<Rightarrow> bytes list \<Rightarrow> collector \<Rightarrow> upload" where
  "one_state H d todo pe jobs w dones known log k = \<lparr> ul_todo = todo, ul_perr = pe, ul_jobs = jobs, ul_work = [w], ul_dones = dones,
     ul_known = known, ul_others = {}, ul_store = (if log = [] then Map.empty else [H d \<mapsto> d]), ul_log = log, ul_col = k, ul_cancel = False \<rparr>"

definition one_done :: "(bytes \<Rightarrow> bytes) \<Rightarrow> bytes \<Rightarrow> chunkDone" where
  "one_done H d = job_done H (one_job d) False None"

abbreviation one_col :: "(bytes \<Rightarrow> bytes) \<Rightarrow> bytes \<Rightarrow> collector" where
  "one_col H d \<equiv> col_receive (\<lambda>_. None) newCollector (one_done H d)"

definition one_end :: "(bytes \<Rightarrow> bytes) \<Rightarrow> bytes \<Rightarrow> upload" where
  "one_end H d = one_state H d [] (Some None) [] WkExit [] [H d \<mapsto> Complete None] [H d] (one_col H d)"

lemma one_collected:
  "co_firstErr (one_col H d) = None" "co_pending (one_col H d) = []" "co_stats (one_col H d) = stats_of [one_done H d]"
proof -
  let ?k = "newCollector\<lparr> co_pending := [(0, one_done H d)] \<rparr>"
  let ?a = "col_account ?k (one_done H d)"
  have a: "co_pending ?a = []" "co_firstErr ?a = None" "length (co_digests ?a) = 1" "co_stats ?a = stats_of [one_done H d]"
    by (simp_all add: col_account_def newCollector_def stats_of_def)
  have "one_col H d = col_drain (\<lambda>_. None) ?k"
    by (simp add: col_receive_def newCollector_def one_done_def job_done_def data_job_def)
  also have "\<dots> = col_drain (\<lambda>_. None) ?a" using a(3) by (subst col_drain.simps) (simp add: newCollector_def)
  also have "\<dots> = ?a" using a(1) by (subst col_drain.simps) simp
  finally show "co_firstErr (one_col H d) = None" "co_pending (one_col H d) = []" "co_stats (one_col H d) = stats_of [one_done H d]"
    using a by simp_all
qed

lemma one_run: "ureach (\<lambda>_. None) H None (startUpload 1 [one_job d] newChunkSet Map.empty) (one_end H d)"
proof -
  let ?R = "ureach (\<lambda>_. None) H None (startUpload 1 [one_job d] newChunkSet Map.empty)" and ?s = "one_state H d"
  let ?P = "[H d \<mapsto> Pending] :: chunkSet" and ?C = "[H d \<mapsto> Complete None] :: chunkSet"
  have d: "job_digest H (one_job d) = H d" "cj_data (one_job d) = d" "\<not> cj_known (one_job d)" by (simp_all add: job_digest_def data_job_def)
  have r0: "?R (?s [one_job d] None [] WkIdle [] Map.empty [] newCollector)"
    using ureach.start [of "\<lambda>_. None" H None "startUpload 1 [one_job d] newChunkSet Map.empty"] by (simp add: startUpload_def one_state_def newChunkSet_def)
  have r1: "?R (?s [] None [one_job d] WkIdle [] Map.empty [] newCollector)"
    using ureach.step [OF r0 p_send [of _ "one_job d" "[]"]] by (simp add: one_state_def)
  have r2: "?R (?s [] (Some None) [one_job d] WkIdle [] Map.empty [] newCollector)"
    using ureach.step [OF r1 p_end] by (simp add: one_state_def)
  have r3: "?R (?s [] (Some None) [] (WkJob (one_job d)) [] Map.empty [] newCollector)"
    using ureach.step [OF r2 w_recv [of _ "[]" "[]" "one_job d" "[]"]] by (simp add: one_state_def)
  have r4: "?R (?s [] (Some None) [] (WkUpload (one_job d)) [] ?P [] newCollector)"
    using ureach.step [OF r3 w_claim [of _ "[]" "one_job d" "[]" "H d" H ?P, OF _ d(1) [symmetric]]] d(3) by (simp add: one_state_def claim_def)
  have r5: "?R (?s [] (Some None) [] (WkSend (one_done H d)) [] ?C [H d] newCollector)"
    using ureach.step [OF r4 w_uploaded [of _ "[]" "one_job d" "[]" "H d" H, OF _ d(1) [symmetric]]] d(2) by (simp add: one_state_def complete_def one_done_def)
  have r6: "?R (?s [] (Some None) [] WkIdle [one_done H d] ?C [H d] newCollector)"
    using ureach.step [OF r5 w_done [of _ "[]" "one_done H d" "[]"]] by (simp add: one_state_def)
  have r7: "?R (?s [] (Some None) [] WkIdle [] ?C [H d] (one_col H d))"
    using ureach.step [OF r6 c_receive [of _ "one_done H d" "[]", OF _ refl]] one_collected(1) [of H d] by (simp add: one_state_def)
  show ?thesis
    using ureach.step [OF r7 w_exit [of _ "[]" "[]"]] by (simp add: one_state_def one_end_def)
qed

lemma one_session: "session_ok H newChunkSet Map.empty" "numbered [one_job d]"
  by (simp_all add: session_ok_def newChunkSet_def numbered_def data_job_def)

lemma one_stopped: "stopped_upload (one_end H d)"
  by (simp add: stopped_upload_def one_end_def one_state_def)

lemma one_result: "\<exists>k stats csum. uploadResult (\<lambda>_. None) None (one_end H d) = (k, Inr (stats, csum))"
  using one_collected [of H d] by (auto simp: uploadResult_def one_end_def one_state_def col_finish_def col_flush_def)

lemma one_size:
  assumes "uploadResult (\<lambda>_. None) None (one_end H d) = (k, Inr (stats, csum))"
  shows "us_Size stats = len64 d"
proof -
  have "stats = co_stats (one_col H d)"
    using assms one_collected(1,2) [of H d]
    by (auto simp: uploadResult_def one_end_def one_state_def col_finish_def col_flush_def split: if_splits)
  moreover have "us_Size (stats_of [one_done H d]) = len64 d"
    by (simp add: us_Size_stats one_done_def job_done_def job_size_def data_job_def)
  ultimately show ?thesis using one_collected(3) [of H d] by simp
qed

theorem upload_safe_witness:
  "\<exists>s. ureach (\<lambda>_. None) id None (startUpload 1 [one_job [5]] newChunkSet Map.empty) s \<and> ul_log s = [[5]] \<and> distinct (ul_log s)"
  using upload_safe [OF one_run one_session(2,1)] one_run [of id "[5]"]
  by (intro exI [of _ "one_end id [5]"]) (simp add: one_end_def one_state_def)

theorem upload_result_witness:
  "\<exists>k stats csum. uploadResult (\<lambda>_. None) None (one_end id [5]) = (k, Inr (stats, csum)) \<and>
     us_Entries stats = [\<lparr> ix_EndOffset = 1, ix_Digest = [5] \<rparr>] \<and> concat (map fst (co_appended k)) = [str ''05'']"
proof -
  obtain k stats csum where r: "uploadResult (\<lambda>_. None) None (one_end id [5]) = (k, Inr (stats, csum))"
    using one_result by blast
  from upload_result [OF one_run one_session(2,1) _ one_stopped r]
  have "us_Entries stats = map (job_entry id) [one_job [5]]" "concat (map fst (co_appended k)) = map (\<lambda>j. EncodeToString (job_digest id j)) [one_job [5]]"
    by simp_all
  moreover have "job_entry id (one_job [5]) = \<lparr> ix_EndOffset = 1, ix_Digest = [5] \<rparr>" "EncodeToString (job_digest id (one_job [5])) = str ''05''"
    by code_simp+
  ultimately show ?thesis using r by auto
qed

end
