(* ===== verification/Blob.thy ===== *)
theory Blob
  imports Prelude
begin

unbundle bit_operations_syntax

text \<open>
  Blobs and chunks as the server stores them, \<^verbatim>\<open>src/pbs/blob.go\<close>: a magic that says whether the payload is
  compressed and encrypted, a CRC-32, for encrypted ones the IV and the tag, then the payload.

  The zstd codec and the AEAD cipher are parameters; what the code relies on is that decoding inverts
  encoding, and that sealing appends a tag of 16 bytes which opening checks.
\<close>

subsection \<open>CRC-32\<close>

text \<open>\<open>crc32.ChecksumIEEE\<close>, bit by bit.\<close>

definition crc_bit :: "u32 \<Rightarrow> u32" where
  "crc_bit c = (if bit c 0 then drop_bit 1 c XOR 0xEDB88320 else drop_bit 1 c)"

definition crc_byte :: "u32 \<Rightarrow> byte \<Rightarrow> u32" where
  "crc_byte c b = crc_bit (crc_bit (crc_bit (crc_bit (crc_bit (crc_bit (crc_bit (crc_bit (c XOR ucast b))))))))"

definition ChecksumIEEE :: "bytes \<Rightarrow> u32" where
  "ChecksumIEEE bs = NOT (foldl crc_byte (NOT 0) bs)"

lemma crc_check_value: "ChecksumIEEE [97] = 0xE8B7BE43"
  by (simp add: ChecksumIEEE_def crc_byte_def crc_bit_def)

subsection \<open>Parameters\<close>

record zstd =
  z_enc :: "bytes \<Rightarrow> bytes"
  z_dec :: "bytes \<Rightarrow> bytes option"

record AEAD =
  ae_Seal :: "bytes \<Rightarrow> bytes \<Rightarrow> bytes"
  ae_Open :: "bytes \<Rightarrow> bytes \<Rightarrow> bytes option"

definition zstd_ok :: "zstd \<Rightarrow> bool" where
  "zstd_ok z \<longleftrightarrow> (\<forall>p. z_dec z (z_enc z p) = Some p)"

definition aead_ok :: "AEAD \<Rightarrow> bool" where
  "aead_ok a \<longleftrightarrow> (\<forall>iv p. length (ae_Seal a iv p) = length p + 16 \<and> ae_Open a iv (ae_Seal a iv p) = Some p)"

subsection \<open>Encoding\<close>

definition blobUncompressedMagic :: bytes where "blobUncompressedMagic = [66, 171, 56, 7, 190, 131, 112, 161]"
definition blobCompressedMagic :: bytes where "blobCompressedMagic = [49, 185, 88, 66, 111, 182, 163, 127]"
definition blobEncryptedMagic :: bytes where "blobEncryptedMagic = [123, 103, 133, 190, 34, 45, 76, 240]"
definition blobEncryptedComprMagic :: bytes where "blobEncryptedComprMagic = [230, 89, 27, 191, 11, 191, 216, 11]"
definition blobHeaderSize :: nat where "blobHeaderSize = 12"
definition blobEncHeaderSize :: nat where "blobEncHeaderSize = 44"

lemmas magics = blobUncompressedMagic_def blobCompressedMagic_def blobEncryptedMagic_def blobEncryptedComprMagic_def

record BlobEncoder =
  be_zstd :: zstd
  be_scratch :: bytes

definition NewBlobEncoder :: "zstd \<Rightarrow> BlobEncoder" where
  "NewBlobEncoder z = \<lparr> be_zstd = z, be_scratch = [] \<rparr>"

text \<open>The smaller of the plain and the compressed payload, and the scratch buffer left behind.\<close>

definition shrink :: "BlobEncoder \<Rightarrow> bytes \<Rightarrow> bool \<Rightarrow> bytes \<Rightarrow> bytes \<Rightarrow> BlobEncoder \<times> bytes \<times> bytes" where
  "shrink e plain compress magic comprMagic =
     (if compress then
        (let e' = e\<lparr> be_scratch := z_enc (be_zstd e) plain \<rparr> in
         if length (be_scratch e') < length plain then (e', be_scratch e', comprMagic) else (e', plain, magic))
      else (e, plain, magic))"

definition Encode :: "BlobEncoder \<Rightarrow> bytes \<Rightarrow> bool \<Rightarrow> BlobEncoder \<times> bytes" where
  "Encode e plain compress =
     (case shrink e plain compress blobUncompressedMagic blobCompressedMagic of
        (e', payload, magic) \<Rightarrow> (e', magic @ put32 (ChecksumIEEE payload) @ payload))"

datatype blob_error = BlRand | BlShort nat | BlCrc | BlNoKey | BlEncShort nat | BlDecrypt | BlMagic bytes | BlDecompress

text \<open>\<open>encodeEncrypted\<close>; the random IV is given, \<open>None\<close> when reading it fails.\<close>

definition encodeEncrypted :: "BlobEncoder \<Rightarrow> bytes \<Rightarrow> bool \<Rightarrow> AEAD \<Rightarrow> bytes option \<Rightarrow> BlobEncoder \<times> (blob_error + bytes)" where
  "encodeEncrypted e plain compress aead rand =
     (case shrink e plain compress blobEncryptedMagic blobEncryptedComprMagic of
        (e', payload, magic) \<Rightarrow>
          (case rand of
             None \<Rightarrow> (e', Inl BlRand)
           | Some iv \<Rightarrow>
               (let sealed = ae_Seal aead iv payload;
                    ct = take (length payload) sealed;
                    tag = take 16 (drop (length payload) sealed)
                in (e', Inr (magic @ put32 (ChecksumIEEE ct) @ iv @ tag @ ct)))))"

subsection \<open>Decoding\<close>

definition decompress :: "zstd \<Rightarrow> bool \<Rightarrow> bytes \<Rightarrow> blob_error + bytes" where
  "decompress z compressed payload =
     (if \<not> compressed then Inr payload
      else case z_dec z payload of None \<Rightarrow> Inl BlDecompress | Some p \<Rightarrow> Inr p)"

definition decodeBlob :: "zstd \<Rightarrow> bytes \<Rightarrow> AEAD option \<Rightarrow> blob_error + bytes" where
  "decodeBlob z framed cs =
     (if length framed < blobHeaderSize then Inl (BlShort (length framed))
      else
        (let magic = take 8 framed; crc = get32 (drop 8 framed) in
         if magic = blobUncompressedMagic \<or> magic = blobCompressedMagic then
           (let payload = drop blobHeaderSize framed in
            if ChecksumIEEE payload \<noteq> crc then Inl BlCrc
            else decompress z (magic = blobCompressedMagic) payload)
         else if magic = blobEncryptedMagic \<or> magic = blobEncryptedComprMagic then
           (case cs of
              None \<Rightarrow> Inl BlNoKey
            | Some aead \<Rightarrow>
                (if length framed < blobEncHeaderSize then Inl (BlEncShort (length framed))
                 else
                   (let iv = take 16 (drop 12 framed); tag = take 16 (drop 28 framed); ct = drop blobEncHeaderSize framed in
                    if ChecksumIEEE ct \<noteq> crc then Inl BlCrc
                    else case ae_Open aead iv (ct @ tag) of
                      None \<Rightarrow> Inl BlDecrypt
                    | Some payload \<Rightarrow> decompress z (magic = blobEncryptedComprMagic) payload)))
         else Inl (BlMagic magic)))"

subsection \<open>Round trip\<close>

lemma length_magics [simp]:
  "length blobUncompressedMagic = 8" "length blobCompressedMagic = 8" "length blobEncryptedMagic = 8" "length blobEncryptedComprMagic = 8"
  by (simp_all add: magics)

lemma get32_put32' [simp]: "get32 (put32 w) = w"
  using get32_put32 [of w "[]"] by simp

lemma shrink_cases:
  "shrink e p c m cm = (e', q, k) \<Longrightarrow> be_zstd e' = be_zstd e \<and> length q \<le> length p \<and>
     (k = m \<and> q = p \<or> k = cm \<and> q = z_enc (be_zstd e) p \<and> length q < length p)"
  by (auto simp: shrink_def Let_def split: if_splits)

lemma decompress_shrink:
  assumes "shrink e p c m cm = (e', q, k)" "m \<noteq> cm" "zstd_ok (be_zstd e)"
  shows "decompress (be_zstd e) (k = cm) q = Inr p"
  using shrink_cases [OF assms(1)] assms(2,3) by (auto simp: decompress_def zstd_ok_def)

lemma decode_plain:
  assumes "length m = 8" "m = blobUncompressedMagic \<or> m = blobCompressedMagic"
  shows "decodeBlob z (m @ put32 (ChecksumIEEE q) @ q) cs = decompress z (m = blobCompressedMagic) q"
  using assms by (simp add: decodeBlob_def blobHeaderSize_def)

lemma decode_encrypted:
  assumes "length m = 8" "m = blobEncryptedMagic \<or> m = blobEncryptedComprMagic" "length iv = 16" "length tag = 16"
  shows "decodeBlob z (m @ put32 (ChecksumIEEE ct) @ iv @ tag @ ct) (Some a) =
    (case ae_Open a iv (ct @ tag) of None \<Rightarrow> Inl BlDecrypt | Some q \<Rightarrow> decompress z (m = blobEncryptedComprMagic) q)"
proof -
  let ?f = "m @ put32 (ChecksumIEEE ct) @ iv @ tag @ ct"
  have "take 8 ?f = m" "get32 (drop 8 ?f) = ChecksumIEEE ct" "take 16 (drop 12 ?f) = iv" "take 16 (drop 28 ?f) = tag" "drop 44 ?f = ct"
    "\<not> length ?f < 44"
    using assms(1,3,4) by simp_all
  moreover have "\<not> (m = blobUncompressedMagic \<or> m = blobCompressedMagic)" using assms(2) by (auto simp: magics)
  ultimately show ?thesis using assms(2)
    by (simp only: decodeBlob_def Let_def blobHeaderSize_def blobEncHeaderSize_def if_False if_True simp_thms option.case) simp
qed

text \<open>
  C12: Every blob the encoder frames decodes to what was framed: plain or compressed, with or without a key at hand, and encrypted with
  the key it was sealed with; compression never makes the stored payload larger.
\<close>

theorem blob_roundtrip:
  assumes "zstd_ok (be_zstd e)"
  shows "decodeBlob (be_zstd e) (snd (Encode e plain c)) cs = Inr plain \<and> length (snd (Encode e plain c)) \<le> 12 + length plain \<and>
    (aead_ok a \<longrightarrow> length iv = 16 \<longrightarrow>
      (\<exists>framed. snd (encodeEncrypted e plain c a (Some iv)) = Inr framed \<and> decodeBlob (be_zstd e) framed (Some a) = Inr plain \<and>
         decodeBlob (be_zstd e) framed None = Inl BlNoKey \<and> length framed \<le> 44 + length plain))"
proof (intro conjI impI)
  obtain e1 q k where s: "shrink e plain c blobUncompressedMagic blobCompressedMagic = (e1, q, k)" by (metis prod_cases3)
  have ne: "blobUncompressedMagic \<noteq> blobCompressedMagic" "blobEncryptedMagic \<noteq> blobEncryptedComprMagic" by (simp_all add: magics)
  have k: "length k = 8" "k = blobUncompressedMagic \<or> k = blobCompressedMagic" "length q \<le> length plain"
    using shrink_cases [OF s] by auto
  show "decodeBlob (be_zstd e) (snd (Encode e plain c)) cs = Inr plain"
    using decode_plain [OF k(1,2)] decompress_shrink [OF s ne(1) assms] by (simp add: Encode_def s)
  show "length (snd (Encode e plain c)) \<le> 12 + length plain" using k by (simp add: Encode_def s)
next
  assume a: "aead_ok a" "length iv = 16"
  obtain e1 q k where s: "shrink e plain c blobEncryptedMagic blobEncryptedComprMagic = (e1, q, k)" by (metis prod_cases3)
  have ne: "blobEncryptedMagic \<noteq> blobEncryptedComprMagic" by (simp add: magics)
  have k: "length k = 8" "k = blobEncryptedMagic \<or> k = blobEncryptedComprMagic" "length q \<le> length plain"
    using shrink_cases [OF s] by auto
  define ct where "ct = take (length q) (ae_Seal a iv q)"
  define tag where "tag = drop (length q) (ae_Seal a iv q)"
  have l: "length (ae_Seal a iv q) = length q + 16" "ae_Open a iv (ae_Seal a iv q) = Some q" using a(1) by (auto simp: aead_ok_def)
  then have t: "length tag = 16" "ct @ tag = ae_Seal a iv q" "length ct = length q" by (simp_all add: ct_def tag_def)
  let ?f = "k @ put32 (ChecksumIEEE ct) @ iv @ tag @ ct"
  have e: "snd (encodeEncrypted e plain c a (Some iv)) = Inr ?f"
    using l(1) by (simp add: encodeEncrypted_def s Let_def ct_def tag_def)
  have d: "decodeBlob (be_zstd e) ?f (Some a) = Inr plain"
    unfolding decode_encrypted [OF k(1,2) a(2) t(1)] t(2) l(2) using decompress_shrink [OF s ne assms] by simp
  have n: "decodeBlob (be_zstd e) ?f None = Inl BlNoKey"
    using k by (auto simp: decodeBlob_def blobHeaderSize_def magics)
  have "length ?f \<le> 44 + length plain" using k a(2) t by simp
  with e d n show "\<exists>framed. snd (encodeEncrypted e plain c a (Some iv)) = Inr framed \<and> decodeBlob (be_zstd e) framed (Some a) = Inr plain \<and>
         decodeBlob (be_zstd e) framed None = Inl BlNoKey \<and> length framed \<le> 44 + length plain" by blast
qed

text \<open>A codec that shortens runs of zeros, and a cipher that adds the IV as its tag.\<close>

definition toy_zstd :: zstd where
  "toy_zstd = \<lparr> z_enc = (\<lambda>p. if p \<noteq> [] \<and> p = replicate (length p) 0 \<and> length p < 200 then [1, of_nat (length p)] else 0 # p),
     z_dec = (\<lambda>p. case p of [] \<Rightarrow> None | b # q \<Rightarrow> if b = 0 then Some q else Some (replicate (unat (hd q)) 0)) \<rparr>"

definition toy_aead :: AEAD where
  "toy_aead = \<lparr> ae_Seal = (\<lambda>iv p. map NOT p @ take 16 (iv @ replicate 16 0)), ae_Open = (\<lambda>iv s.
     if drop (length s - 16) s = take 16 (iv @ replicate 16 0) then Some (map NOT (take (length s - 16) s)) else None) \<rparr>"

lemma toy_ok: "zstd_ok toy_zstd" "aead_ok toy_aead"
  by (auto simp: zstd_ok_def toy_zstd_def aead_ok_def toy_aead_def unat_of_nat comp_def)

theorem blob_roundtrip_witness:
  "decodeBlob toy_zstd (snd (Encode (NewBlobEncoder toy_zstd) [0, 0, 0, 0] True)) None = Inr [0, 0, 0, 0] \<and>
   (\<exists>framed. snd (encodeEncrypted (NewBlobEncoder toy_zstd) [7, 8] True toy_aead (Some (replicate 16 3))) = Inr framed \<and>
      decodeBlob toy_zstd framed (Some toy_aead) = Inr [7, 8])"
  using blob_roundtrip [of "NewBlobEncoder toy_zstd" "[0, 0, 0, 0]" True None toy_aead "replicate 16 3"]
    blob_roundtrip [of "NewBlobEncoder toy_zstd" "[7, 8]" True None toy_aead "replicate 16 3"] toy_ok
  by (auto simp: NewBlobEncoder_def)

end
