(* ===== verification/Index_Read.thy ===== *)
theory Index_Read
  imports Didx Blob
begin

text \<open>
  Reading a snapshot back, \<^verbatim>\<open>src/pbs/reader.go\<close>: the index is checked against the manifest, every chunk
  against the index, and the chunks are delivered in order.

  What the server answers is a parameter and not trusted; so are SHA-256 and, for encrypted archives,
  the cipher and the key of the digests.
\<close>

subsection \<open>Errors and keys\<close>

text \<open>\<^verbatim>\<open>src/pbs/errors.go\<close>: the class of a failed request by its status.\<close>

datatype status_error = ErrAuth | ErrNotFound bytes | ErrStatus nat bytes

definition statusError :: "nat \<Rightarrow> bytes \<Rightarrow> status_error" where
  "statusError code body =
     (if code = 401 \<or> code = 403 then ErrAuth else if code = 404 then ErrNotFound body else ErrStatus code body)"

datatype read_error =
    RdNet string
  | RdStatus status_error
  | RdBlob blob_error
  | RdChunkSize nat u64
  | RdDigest
  | RdNotInSnapshot bytes
  | RdNoKey
  | RdIndex didx_error
  | RdAscending
  | RdChecksum
  | RdCovers u64 u64
  | RdShort u64 u64
  | RdCause
  | RdNegative
  | RdPanic
  | RdEOF

record cryptState =
  cr_aead :: AEAD
  cr_idKey :: bytes

definition computeDigest :: "(bytes \<Rightarrow> bytes) \<Rightarrow> cryptState \<Rightarrow> bytes \<Rightarrow> bytes" where
  "computeDigest sha cs d = sha (d @ cr_idKey cs)"

record ManifestFile =
  mf_CryptMode :: bytes
  mf_Csum :: bytes
  mf_Filename :: bytes
  mf_Size :: u64

type_synonym answer = "string + (nat \<times> bytes)"

record client =
  cl_zstd :: zstd
  cl_sha :: "bytes \<Rightarrow> bytes"
  cl_crypt :: "cryptState option"

subsection \<open>Downloads\<close>

definition download :: "answer \<Rightarrow> read_error + bytes" where
  "download a =
     (case a of
        Inl e \<Rightarrow> Inl (RdNet e)
      | Inr (code, body) \<Rightarrow> if code \<noteq> 200 then Inl (RdStatus (statusError code body)) else Inr body)"

fun manifest_file :: "ManifestFile list \<Rightarrow> bytes \<Rightarrow> ManifestFile option" where
  "manifest_file [] name = None"
| "manifest_file (f # fs) name = (if mf_Filename f = name then Some f else manifest_file fs name)"

definition manifestFile :: "ManifestFile list \<Rightarrow> bytes \<Rightarrow> bytes \<Rightarrow> read_error + ManifestFile" where
  "manifestFile fs name suf =
     (let name = (if has_suffix name suf then name else name @ suf) in
      case manifest_file fs name of None \<Rightarrow> Inl (RdNotInSnapshot name) | Some f \<Rightarrow> Inr f)"

definition DownloadBlob :: "client \<Rightarrow> ManifestFile list \<Rightarrow> (bytes \<Rightarrow> answer) \<Rightarrow> bytes \<Rightarrow> read_error + bytes" where
  "DownloadBlob c fs get name =
     (case manifestFile fs name (str ''.blob'') of
        Inl e \<Rightarrow> Inl e
      | Inr f \<Rightarrow>
          (case download (get (mf_Filename f)) of
             Inl e \<Rightarrow> Inl e
           | Inr framed \<Rightarrow>
               (if len64 framed \<noteq> mf_Size f \<or> EncodeToString (cl_sha c framed) \<noteq> mf_Csum f then Inl RdChecksum
                else case decodeBlob (cl_zstd c) framed (map_option cr_aead (cl_crypt c)) of
                  Inl e \<Rightarrow> Inl (RdBlob e)
                | Inr d \<Rightarrow> Inr d)))"

text \<open>The loop of \<open>loadIndex\<close> over the entries: ascending end offsets, and the input of the checksum.\<close>

fun check_entries :: "u64 \<Rightarrow> IndexEntry list \<Rightarrow> bytes option" where
  "check_entries prev [] = Some []"
| "check_entries prev (e # es) =
     (if ix_EndOffset e \<le> prev then None
      else map_option (\<lambda>cs. put64 (ix_EndOffset e) @ ix_Digest e @ cs) (check_entries (ix_EndOffset e) es))"

definition loadIndex :: "client \<Rightarrow> ManifestFile list \<Rightarrow> (bytes \<Rightarrow> answer) \<Rightarrow> bytes \<Rightarrow> read_error + (ManifestFile \<times> IndexEntry list \<times> bool)" where
  "loadIndex c fs get name =
     (case manifestFile fs name (str ''.didx'') of
        Inl e \<Rightarrow> Inl e
      | Inr f \<Rightarrow>
          (let keyed = (mf_CryptMode f = str ''encrypt'') in
           if keyed \<and> cl_crypt c = None then Inl RdNoKey
           else
             (case download (get (mf_Filename f)) of
                Inl e \<Rightarrow> Inl e
              | Inr raw \<Rightarrow>
                  (case ParseDynamicIndex raw of
                     Inl e \<Rightarrow> Inl (RdIndex e)
                   | Inr es \<Rightarrow>
                       (case check_entries 0 es of
                          None \<Rightarrow> Inl RdAscending
                        | Some csum \<Rightarrow>
                            if EncodeToString (cl_sha c csum) \<noteq> mf_Csum f then Inl RdChecksum
                            else Inr (f, es, keyed))))))"

text \<open>
  The digest of a chunk; a keyed index without a key does not occur, since \<open>loadIndex\<close> refuses it.
\<close>

definition chunk_digest :: "client \<Rightarrow> bool \<Rightarrow> bytes \<Rightarrow> bytes" where
  "chunk_digest c keyed plain =
     (case cl_crypt c of Some cs \<Rightarrow> if keyed then computeDigest (cl_sha c) cs plain else cl_sha c plain | None \<Rightarrow> cl_sha c plain)"

definition fetchChunk :: "client \<Rightarrow> (bytes \<Rightarrow> answer) \<Rightarrow> IndexEntry \<Rightarrow> u64 \<Rightarrow> bool \<Rightarrow> read_error + bytes" where
  "fetchChunk c get e sz keyed =
     (case download (get (EncodeToString (ix_Digest e))) of
        Inl er \<Rightarrow> Inl er
      | Inr framed \<Rightarrow>
          (case decodeBlob (cl_zstd c) framed (map_option cr_aead (cl_crypt c)) of
             Inl b \<Rightarrow> Inl (RdBlob b)
           | Inr plain \<Rightarrow>
               (if len64 plain \<noteq> sz then Inl (RdChunkSize (length plain) sz)
                else if chunk_digest c keyed plain \<noteq> ix_Digest e then Inl RdDigest
                else Inr plain)))"

subsection \<open>The stream of an index\<close>

text \<open>
  \<open>ir_queue\<close> holds the results the fetching goroutines put into their channels, in index order; it is
  shorter than the index when the context ended.
\<close>

record indexReader =
  ir_queue :: "(read_error + bytes) list"
  ir_entries :: nat
  ir_size :: u64
  ir_cur :: bytes
  ir_consumed :: nat
  ir_read :: u64
  ir_err :: "read_error option"

fun ir_fill :: "(read_error + bytes) list \<Rightarrow> indexReader \<Rightarrow> indexReader" where
  "ir_fill q s =
     (if ir_cur s \<noteq> [] \<or> ir_err s \<noteq> None then s\<lparr> ir_queue := q \<rparr>
      else
        (case q of
           [] \<Rightarrow> s\<lparr> ir_queue := [], ir_err := Some (if ir_consumed s \<noteq> ir_entries s then RdCause
                  else if ir_read s \<noteq> ir_size s then RdShort (ir_read s) (ir_size s) else RdEOF) \<rparr>
         | Inl e # q' \<Rightarrow> s\<lparr> ir_queue := q', ir_err := Some e \<rparr>
         | Inr d # q' \<Rightarrow> ir_fill q' (s\<lparr> ir_consumed := ir_consumed s + 1, ir_cur := d \<rparr>)))"

declare ir_fill.simps [simp del]

definition ir_Read :: "indexReader \<Rightarrow> nat \<Rightarrow> indexReader \<times> (read_error + bytes)" where
  "ir_Read s want =
     (let s1 = ir_fill (ir_queue s) s in
      if ir_cur s1 = [] then (s1, Inl (case ir_err s1 of Some e \<Rightarrow> e | None \<Rightarrow> RdEOF))
      else
        (let bs = take want (ir_cur s1) in
         (s1\<lparr> ir_cur := drop want (ir_cur s1), ir_read := ir_read s1 + len64 bs \<rparr>, Inr bs)))"

text \<open>What the goroutines of \<open>produce\<close> fetch, each with an answer of the server of its own.\<close>

fun fetch_all :: "client \<Rightarrow> (nat \<Rightarrow> bytes \<Rightarrow> answer) \<Rightarrow> bool \<Rightarrow> nat \<Rightarrow> u64 \<Rightarrow> IndexEntry list \<Rightarrow> (read_error + bytes) list" where
  "fetch_all c get keyed i start [] = []"
| "fetch_all c get keyed i start (e # es) =
     fetchChunk c (get i) e (ix_EndOffset e - start) keyed # fetch_all c get keyed (i + 1) (ix_EndOffset e) es"

definition OpenDynamicIndex :: "client \<Rightarrow> ManifestFile list \<Rightarrow> (bytes \<Rightarrow> answer) \<Rightarrow> (nat \<Rightarrow> bytes \<Rightarrow> answer) \<Rightarrow> nat option \<Rightarrow> bytes \<Rightarrow>
    read_error + indexReader" where
  "OpenDynamicIndex c fs getIndex getChunk stop name =
     (case loadIndex c fs getIndex name of
        Inl e \<Rightarrow> Inl e
      | Inr (f, es, keyed) \<Rightarrow>
          (let rs = fetch_all c getChunk keyed 0 0 es in
           Inr \<lparr> ir_queue = (case stop of None \<Rightarrow> rs | Some n \<Rightarrow> take n rs), ir_entries = length es, ir_size = mf_Size f,
             ir_cur = [], ir_consumed = 0, ir_read = 0, ir_err = None \<rparr>))"

subsection \<open>What reading delivers\<close>

text \<open>Successive \<open>Read\<close> calls with buffers of the given sizes, up to the first error.\<close>

fun ir_reads :: "indexReader \<Rightarrow> nat list \<Rightarrow> bytes \<times> read_error option" where
  "ir_reads s [] = ([], None)"
| "ir_reads s (n # ns) =
     (case ir_Read s n of
        (s', Inl e) \<Rightarrow> ([], Some e)
      | (s', Inr bs) \<Rightarrow> (case ir_reads s' ns of (bs', e) \<Rightarrow> (bs @ bs', e)))"

fun ok_prefix :: "(read_error + bytes) list \<Rightarrow> bytes list" where
  "ok_prefix (Inr d # q) = d # ok_prefix q"
| "ok_prefix _ = []"

fun first_error :: "(read_error + bytes) list \<Rightarrow> read_error option" where
  "first_error [] = None"
| "first_error (Inl e # q) = Some e"
| "first_error (Inr d # q) = first_error q"

definition ir_rest :: "indexReader \<Rightarrow> bytes" where
  "ir_rest s = ir_cur s @ (if ir_err s = None then concat (ok_prefix (ir_queue s)) else [])"

definition ir_end :: "indexReader \<Rightarrow> read_error" where
  "ir_end s =
     (case ir_err s of
        Some e \<Rightarrow> e
      | None \<Rightarrow>
          (case first_error (ir_queue s) of
             Some e \<Rightarrow> e
           | None \<Rightarrow>
               if ir_consumed s + length (ir_queue s) \<noteq> ir_entries s then RdCause
               else if ir_read s + len64 (ir_rest s) \<noteq> ir_size s then RdShort (ir_read s + len64 (ir_rest s)) (ir_size s) else RdEOF))"

lemma ir_fill_spec:
  "ir_rest (ir_fill q s) = ir_rest (s\<lparr> ir_queue := q \<rparr>) \<and> ir_end (ir_fill q s) = ir_end (s\<lparr> ir_queue := q \<rparr>) \<and>
     (ir_cur (ir_fill q s) = [] \<longrightarrow> ir_err (ir_fill q s) \<noteq> None)"
proof (induction q s rule: ir_fill.induct)
  case (1 q s)
  show ?case
  proof (cases "ir_cur s \<noteq> [] \<or> ir_err s \<noteq> None")
    case True
    then have "ir_fill q s = s\<lparr> ir_queue := q \<rparr>" by (subst ir_fill.simps) (rule if_P)
    then show ?thesis using True by auto
  next
    case False
    show ?thesis
    proof (cases q)
      case Nil
      have "ir_fill [] s = s\<lparr> ir_queue := [], ir_err := Some (if ir_consumed s \<noteq> ir_entries s then RdCause
          else if ir_read s \<noteq> ir_size s then RdShort (ir_read s) (ir_size s) else RdEOF) \<rparr>"
        using False by (subst ir_fill.simps) simp
      then show ?thesis using False Nil by (simp add: ir_rest_def ir_end_def)
    next
      case (Cons r q')
      show ?thesis
      proof (cases r)
        case (Inl e)
        have "ir_fill (Inl e # q') s = s\<lparr> ir_queue := q', ir_err := Some e \<rparr>"
          using False by (subst ir_fill.simps) simp
        then show ?thesis using False Cons Inl by (simp add: ir_rest_def ir_end_def)
      next
        case (Inr d)
        let ?s = "s\<lparr> ir_consumed := ir_consumed s + 1, ir_cur := d \<rparr>"
        have "ir_fill q s = ir_fill q' ?s" unfolding Cons Inr using False by (subst ir_fill.simps) simp
        moreover have "ir_rest (?s\<lparr> ir_queue := q' \<rparr>) = ir_rest (s\<lparr> ir_queue := q \<rparr>)" "ir_end (?s\<lparr> ir_queue := q' \<rparr>) = ir_end (s\<lparr> ir_queue := q \<rparr>)"
          using False Cons Inr by (simp_all add: ir_rest_def ir_end_def split: option.splits)
        ultimately show ?thesis using "1.IH" [OF False Cons Inr] by simp
      qed
    qed
  qed
qed

lemma ir_Read_spec:
  assumes "ir_Read s n = (s', res)"
  shows "case res of
      Inl e \<Rightarrow> ir_rest s = [] \<and> e = ir_end s
    | Inr bs \<Rightarrow> ir_rest s = bs @ ir_rest s' \<and> ir_end s' = ir_end s \<and> (0 < n \<longrightarrow> bs \<noteq> [])"
proof -
  let ?f = "ir_fill (ir_queue s) s"
  have f: "ir_rest ?f = ir_rest s" "ir_end ?f = ir_end s" "ir_cur ?f = [] \<Longrightarrow> ir_err ?f \<noteq> None"
    using ir_fill_spec [of "ir_queue s" s] by auto
  show ?thesis
  proof (cases "ir_cur ?f = []")
    case True
    then obtain e where "ir_err ?f = Some e" using f(3) by auto
    then show ?thesis using assms True f(1,2) by (auto simp: ir_Read_def ir_rest_def ir_end_def)
  next
    case False
    let ?t = "?f\<lparr> ir_cur := drop n (ir_cur ?f), ir_read := ir_read ?f + len64 (take n (ir_cur ?f)) \<rparr>"
    have r: "res = Inr (take n (ir_cur ?f))" "s' = ?t" using assms False by (auto simp: ir_Read_def Let_def)
    have e: "take n (ir_cur ?f) @ ir_rest ?t = ir_rest ?f" by (simp add: ir_rest_def)
    then have "len64 (take n (ir_cur ?f)) + len64 (ir_rest ?t) = (len64 (ir_rest ?f) :: u64)"
      by (metis length_append of_nat_add)
    then have "ir_read ?t + len64 (ir_rest ?t) = ir_read ?f + len64 (ir_rest ?f)" by (simp add: add.assoc)
    moreover have "ir_err ?t = ir_err ?f" "ir_queue ?t = ir_queue ?f" "ir_consumed ?t = ir_consumed ?f" "ir_entries ?t = ir_entries ?f" "ir_size ?t = ir_size ?f"
      by simp_all
    ultimately have "ir_end ?t = ir_end ?f" unfolding ir_end_def by (simp only:)
    then show ?thesis using r e f False by simp
  qed
qed

lemma ir_reads_spec:
  "ir_reads s ns = (bs, e) \<Longrightarrow> \<exists>rest. ir_rest s = bs @ rest \<and>
     (case e of Some er \<Rightarrow> rest = [] \<and> er = ir_end s | None \<Rightarrow> list_all (\<lambda>n. 0 < n) ns \<longrightarrow> length ns \<le> length bs)"
proof (induction ns arbitrary: s bs e)
  case (Cons n ns)
  obtain s' res where r: "ir_Read s n = (s', res)" by fastforce
  note sp = ir_Read_spec [OF r]
  show ?case
  proof (cases res)
    case (Inl er)
    then show ?thesis using Cons.prems r sp by auto
  next
    case (Inr b)
    obtain bs' e' where b: "ir_reads s' ns = (bs', e')" by fastforce
    then have eq: "bs = b @ bs'" "e = e'" using Cons.prems r Inr by auto
    have "length ns \<le> length bs' \<longrightarrow> 0 < n \<longrightarrow> Suc (length ns) \<le> length (b @ bs')" using sp Inr by (cases b) auto
    then show ?thesis using Cons.IH [OF b] sp Inr eq by (auto split: option.splits)
  qed
qed simp

subsection \<open>Integrity\<close>

text \<open>Chunks \<open>cs\<close> are what the entries describe: their digests, and sizes up to the end offsets.\<close>

fun chunks_match :: "(bytes \<Rightarrow> bytes) \<Rightarrow> u64 \<Rightarrow> IndexEntry list \<Rightarrow> bytes list \<Rightarrow> bool" where
  "chunks_match H start [] cs \<longleftrightarrow> cs = []"
| "chunks_match H start (e # es) cs \<longleftrightarrow>
     (case cs of [] \<Rightarrow> False
      | c # cs' \<Rightarrow> H c = ix_Digest e \<and> len64 c = ix_EndOffset e - start \<and> chunks_match H (ix_EndOffset e) es cs')"

definition hashed :: "client \<Rightarrow> bool \<Rightarrow> bytes \<Rightarrow> bytes" where
  "hashed c keyed plain = (if keyed then plain @ (case cl_crypt c of Some cs \<Rightarrow> cr_idKey cs | None \<Rightarrow> []) else plain)"

text \<open>
  The messages of a run whose digests are compared: the index and the chunks as they were written, and
  what the server answers when they are asked for.
\<close>

definition messages :: "client \<Rightarrow> (bytes \<Rightarrow> answer) \<Rightarrow> (nat \<Rightarrow> bytes \<Rightarrow> answer) \<Rightarrow> bool \<Rightarrow> IndexEntry list \<Rightarrow> bytes list \<Rightarrow> bytes set" where
  "messages c getIndex getChunk keyed es cs =
     {concat (map entry_record es)} \<union> hashed c keyed ` set cs \<union>
     {concat (map entry_record es') | n raw es'. getIndex n = Inr (200, raw) \<and> ParseDynamicIndex raw = Inr es'} \<union>
     {hashed c keyed d | k n framed d. getChunk k n = Inr (200, framed) \<and> decodeBlob (cl_zstd c) framed (map_option cr_aead (cl_crypt c)) = Inr d}"

lemma chunk_digest_hashed: "keyed \<longrightarrow> cl_crypt c \<noteq> None \<Longrightarrow> chunk_digest c keyed d = cl_sha c (hashed c keyed d)"
  by (auto simp: chunk_digest_def hashed_def computeDigest_def split: option.splits)

lemma hashed_inj: "hashed c keyed x = hashed c keyed y \<Longrightarrow> x = y"
  by (auto simp: hashed_def split: if_splits)

lemma fetchChunk_verified:
  "fetchChunk c get e sz keyed = Inr d \<Longrightarrow> chunk_digest c keyed d = ix_Digest e \<and> len64 d = sz \<and>
     (\<exists>n framed. get n = Inr (200, framed) \<and> decodeBlob (cl_zstd c) framed (map_option cr_aead (cl_crypt c)) = Inr d)"
  by (auto simp: fetchChunk_def download_def split: sum.splits if_splits) blast

lemma fetch_all_verified:
  assumes "inj_on (cl_sha c) M" "keyed \<longrightarrow> cl_crypt c \<noteq> None"
    "\<And>k n framed d. get k n = Inr (200, framed) \<Longrightarrow> decodeBlob (cl_zstd c) framed (map_option cr_aead (cl_crypt c)) = Inr d \<Longrightarrow> hashed c keyed d \<in> M"
  shows "hashed c keyed ` set cs \<subseteq> M \<Longrightarrow> chunks_match (chunk_digest c keyed) start es cs \<Longrightarrow>
    length (fetch_all c get keyed i start es) = length cs \<and>
    (\<forall>k < length cs. \<forall>d. fetch_all c get keyed i start es ! k = Inr d \<longrightarrow> d = cs ! k)"
proof (induction es arbitrary: cs i start)
  case (Cons e es)
  then obtain x xs where cs: "cs = x # xs" "chunk_digest c keyed x = ix_Digest e" "chunks_match (chunk_digest c keyed) (ix_EndOffset e) es xs"
    by (auto split: list.splits)
  have "d = x" if f: "fetchChunk c (get i) e (ix_EndOffset e - start) keyed = Inr d" for d
  proof -
    have "cl_sha c (hashed c keyed d) = cl_sha c (hashed c keyed x)" "hashed c keyed d \<in> M" "hashed c keyed x \<in> M"
      using fetchChunk_verified [OF f] cs(1,2) Cons.prems(1) assms(3) [of i] by (auto simp: chunk_digest_hashed [OF assms(2)])
    then show ?thesis using assms(1) hashed_inj by (metis inj_onD)
  qed
  then show ?case using Cons.IH [OF _ cs(3), of "i + 1"] Cons.prems(1) cs(1) by (auto simp: nth_Cons' less_Suc_eq_0_disj)
qed simp

lemma ok_prefix_verified:
  assumes "length rs \<le> length cs" "\<forall>k < length rs. \<forall>d. rs ! k = Inr d \<longrightarrow> d = cs ! k"
  shows "\<exists>n \<le> length rs. ok_prefix rs = take n cs \<and> (first_error rs = None \<longrightarrow> n = length rs)"
  using assms
proof (induction rs arbitrary: cs rule: ok_prefix.induct)
  case (1 d q)
  then obtain x xs where cs: "cs = x # xs" by (cases cs) auto
  have "x = d" using "1.prems"(2) cs by (auto dest: spec [of _ 0])
  have "\<forall>k < length q. \<forall>d. q ! k = Inr d \<longrightarrow> d = xs ! k"
  proof (intro allI impI)
    fix k d assume "k < length q" "q ! k = Inr d"
    then show "d = xs ! k" using "1.prems"(2) cs by (auto dest: spec [of _ "Suc k"])
  qed
  then obtain n where "n \<le> length q" "ok_prefix q = take n xs" "first_error q = None \<longrightarrow> n = length q"
    using "1.IH" [of xs] "1.prems"(1) cs by auto
  then show ?case using cs \<open>x = d\<close> by (intro exI [of _ "Suc n"]) auto
qed (auto intro: exI [of _ 0])

lemma checksum_input: "check_entries prev es = Some cs \<Longrightarrow> cs = concat (map entry_record es)"
  by (induction es arbitrary: prev cs) (auto simp: entry_record_def split: if_splits)

lemma records_inj:
  assumes "concat (map entry_record es) = concat (map entry_record es')"
    "list_all (\<lambda>e. length (ix_Digest e) = 32) es" "list_all (\<lambda>e. length (ix_Digest e) = 32) es'"
  shows "es = es'"
proof -
  have "40 * length es = 40 * length es'" using length_records [OF assms(2)] length_records [OF assms(3)] assms(1) by metis
  then show ?thesis using parse_records_concat [OF assms(2)] parse_records_concat [OF assms(3)] assms(1) by (metis mult_cancel1 zero_neq_numeral)
qed

lemma loadIndex_verified:
  assumes "loadIndex c fs get name = Inr (f, es, keyed)" "inj_on (cl_sha c) M"
    and "mf_Csum f = EncodeToString (cl_sha c (concat (map entry_record es0)))" "list_all (\<lambda>e. length (ix_Digest e) = 32) es0"
    and "concat (map entry_record es0) \<in> M"
      "\<And>n raw es'. get n = Inr (200, raw) \<Longrightarrow> ParseDynamicIndex raw = Inr es' \<Longrightarrow> concat (map entry_record es') \<in> M"
  shows "es = es0"
proof -
  obtain n raw where raw: "get n = Inr (200, raw)" "ParseDynamicIndex raw = Inr es" "EncodeToString (cl_sha c (concat (map entry_record es))) = mf_Csum f"
    using assms(1) by (auto simp: loadIndex_def download_def Let_def dest!: checksum_input split: sum.splits if_splits option.splits)
  then have "concat (map entry_record es) = concat (map entry_record es0)"
    using assms(2,3,5) assms(6) [OF raw(1,2)] EncodeToString_inj by (metis inj_onD)
  then show ?thesis using records_inj Parse_accepts [OF raw(2)] assms(4) by blast
qed

lemma loadIndex_keyed: "loadIndex c fs get name = Inr (f, es, keyed) \<Longrightarrow> keyed \<longrightarrow> cl_crypt c \<noteq> None"
  by (auto simp: loadIndex_def Let_def split: sum.splits if_splits option.splits)

lemma fetch_all_length: "length (fetch_all c get keyed i start es) = length es"
  by (induction es arbitrary: i start) auto

lemma fetchChunk_no_eof: "fetchChunk c get e sz keyed \<noteq> Inl RdEOF"
  by (auto simp: fetchChunk_def download_def split: sum.splits if_splits)

lemma first_error_in: "first_error q = Some e \<Longrightarrow> Inl e \<in> set q"
  by (induction q rule: first_error.induct) auto

lemma fetch_all_no_eof: "Inl RdEOF \<notin> set (fetch_all c get keyed i start es)"
  by (induction es arbitrary: i start) (auto simp: fetchChunk_no_eof dest: sym)

lemma reader_delivers:
  assumes "OpenDynamicIndex c fs getIndex getChunk stop name = Inr s" "inj_on (cl_sha c) (messages c getIndex getChunk keyed es cs)"
    and "manifestFile fs name (str ''.didx'') = Inr f" "keyed = (mf_CryptMode f = str ''encrypt'')"
    and "mf_Csum f = EncodeToString (cl_sha c (concat (map entry_record es)))" "list_all (\<lambda>e. length (ix_Digest e) = 32) es"
    and "chunks_match (chunk_digest c keyed) 0 es cs" "ir_reads s ns = (bs, e)"
  shows "(\<exists>rest. concat cs = bs @ rest) \<and> (e = Some RdEOF \<longrightarrow> bs = concat cs)"
proof -
  obtain f' es' keyed' where l: "loadIndex c fs getIndex name = Inr (f', es', keyed')"
    using assms(1) by (auto simp: OpenDynamicIndex_def split: sum.splits)
  have k: "f' = f" "keyed' = keyed" using l assms(3,4) by (auto simp: loadIndex_def Let_def split: sum.splits if_splits option.splits)
  have es: "es' = es"
    by (rule loadIndex_verified [OF l assms(2) _ assms(6)]) (use assms(5) k in \<open>auto simp: messages_def\<close>)
  let ?rs = "fetch_all c getChunk keyed 0 0 es"
  define q where "q = (case stop of None \<Rightarrow> ?rs | Some n \<Rightarrow> take n ?rs)"
  have s: "s = \<lparr> ir_queue = q, ir_entries = length es, ir_size = mf_Size f, ir_cur = [], ir_consumed = 0, ir_read = 0, ir_err = None \<rparr>"
    using assms(1) l k es by (simp add: OpenDynamicIndex_def q_def Let_def)
  have kc: "keyed \<longrightarrow> cl_crypt c \<noteq> None" using loadIndex_keyed [OF l] k by simp
  have sub: "hashed c keyed ` set cs \<subseteq> messages c getIndex getChunk keyed es cs" by (auto simp: messages_def)
  have v: "length ?rs = length cs" "\<And>k d. k < length cs \<Longrightarrow> ?rs ! k = Inr d \<Longrightarrow> d = cs ! k"
    using fetch_all_verified [OF assms(2) kc _ sub assms(7), of getChunk 0] by (force simp: messages_def)+
  have q: "length q \<le> length cs" "\<forall>k < length q. \<forall>d. q ! k = Inr d \<longrightarrow> d = cs ! k"
    using v by (auto simp: q_def split: option.splits)
  obtain n where n: "n \<le> length q" "ok_prefix q = take n cs" "first_error q = None \<longrightarrow> n = length q"
    using ok_prefix_verified [OF q] by auto
  have rest: "ir_rest s = concat (take n cs)" using n by (simp add: s ir_rest_def)
  obtain t where t: "ir_rest s = bs @ t" "e = Some RdEOF \<longrightarrow> t = [] \<and> ir_end s = RdEOF"
    using ir_reads_spec [OF assms(8)] by (auto split: option.splits)
  have "concat cs = concat (take n cs) @ concat (drop n cs)" by (metis append_take_drop_id concat_append)
  moreover have "n = length cs" if "ir_end s = RdEOF"
  proof -
    have "length es = length cs" using v(1) by (metis fetch_all_length)
    moreover have "first_error q \<noteq> Some RdEOF"
      using fetch_all_no_eof [of c getChunk keyed 0 0 es] by (auto simp: q_def split: option.splits dest!: first_error_in in_set_takeD)
    ultimately show ?thesis using that n q(1) by (auto simp: s ir_end_def split: option.splits if_splits)
  qed
  ultimately show ?thesis using t rest by auto
qed

text \<open>
  C7: A reader never delivers anything but the archive.  Whatever the server answers, for the index and for every chunk, and whenever the
  context ends, as long as SHA-256 does not collide on the messages of the run: the bytes read are the beginning of the content whose index the manifest vouches for,
  and the end of the file is reported only after all of it.
\<close>

theorem reader_integrity:
  assumes "OpenDynamicIndex c fs getIndex getChunk stop name = Inr s" "inj_on (cl_sha c) (messages c getIndex getChunk keyed es cs)"
    and "manifestFile fs name (str ''.didx'') = Inr f" "keyed = (mf_CryptMode f = str ''encrypt'')"
    and "mf_Csum f = EncodeToString (cl_sha c (concat (map entry_record es)))" "list_all (\<lambda>e. length (ix_Digest e) = 32) es"
    and "chunks_match (chunk_digest c keyed) 0 es cs" "ir_reads s ns = (bs, e)"
  shows "(\<exists>rest. concat cs = bs @ rest) \<and> (e = Some RdEOF \<longrightarrow> bs = concat cs)"
  by (rule reader_delivers [OF assms])

text \<open>An archive of one byte in one chunk, with a digest that tells the messages of its run apart.\<close>

definition ex_sha :: "bytes \<Rightarrow> bytes" where
  "ex_sha x = take 31 (x @ replicate 31 0) @ [of_nat (length x)]"

definition ex_client :: client where
  "ex_client = \<lparr> cl_zstd = toy_zstd, cl_sha = ex_sha, cl_crypt = None \<rparr>"

lemma ex_client_sel: "cl_zstd ex_client = toy_zstd" "cl_crypt ex_client = None"
  by (simp_all add: ex_client_def)

definition ex_entry :: IndexEntry where
  "ex_entry = \<lparr> ix_EndOffset = 1, ix_Digest = ex_sha [7] \<rparr>"

definition ex_file :: ManifestFile where
  "ex_file = \<lparr> mf_CryptMode = str ''none'', mf_Csum = EncodeToString (ex_sha (concat (map entry_record [ex_entry]))),
     mf_Filename = str ''a.didx'', mf_Size = 1 \<rparr>"

definition ex_index :: "bytes \<Rightarrow> answer" where
  "ex_index n = Inr (200, didx_bytes (replicate 4088 0) [ex_entry])"

definition ex_chunk :: "nat \<Rightarrow> bytes \<Rightarrow> answer" where
  "ex_chunk k n = Inr (200, blobUncompressedMagic @ put32 (ChecksumIEEE [7]) @ [7])"

lemma ex_parse: "ParseDynamicIndex (didx_bytes (replicate 4088 0) [ex_entry]) = Inr [ex_entry]"
  by (rule Parse_didx_bytes) (simp_all add: ex_entry_def ex_sha_def)

lemma ex_decode: "decodeBlob toy_zstd (blobUncompressedMagic @ put32 (ChecksumIEEE [7]) @ [7]) None = Inr [7]"
  using decode_plain [of blobUncompressedMagic toy_zstd "[7]" None] by (simp add: decompress_def magics)

lemma ex_manifest: "manifestFile [ex_file] (str ''a'') (str ''.didx'') = Inr ex_file"
  by (simp add: manifestFile_def has_suffix_def ex_file_def)

lemma ex_csum: "mf_Csum ex_file = EncodeToString (cl_sha ex_client (concat (map entry_record [ex_entry])))"
  "list_all (\<lambda>e. length (ix_Digest e) = 32) [ex_entry]"
  by (simp_all add: ex_file_def ex_client_def ex_entry_def ex_sha_def)

lemma ex_match: "chunks_match (chunk_digest ex_client (mf_CryptMode ex_file = str ''encrypt'')) 0 [ex_entry] [[7]]"
  by (simp add: chunk_digest_def ex_client_def ex_entry_def)

lemma ex_messages: "inj_on (cl_sha ex_client) (messages ex_client ex_index ex_chunk (mf_CryptMode ex_file = str ''encrypt'') [ex_entry] [[7]])"
proof -
  let ?R = "concat (map entry_record [ex_entry])"
  have h: "hashed ex_client (mf_CryptMode ex_file = str ''encrypt'') d = d" for d by (simp add: hashed_def ex_client_def)
  have "messages ex_client ex_index ex_chunk (mf_CryptMode ex_file = str ''encrypt'') [ex_entry] [[7]] = {?R, [7]}"
    unfolding messages_def h by (auto simp: ex_index_def ex_parse ex_chunk_def ex_client_sel ex_decode)
  moreover have "last (ex_sha ?R) \<noteq> last (ex_sha [7])" by (simp add: ex_sha_def entry_record_def ex_entry_def)
  ultimately show ?thesis by (auto simp: inj_on_def ex_client_def)
qed

lemma ex_load: "loadIndex ex_client [ex_file] ex_index (str ''a'') = Inr (ex_file, [ex_entry], mf_CryptMode ex_file = str ''encrypt'')"
proof -
  have "check_entries 0 [ex_entry] = Some (concat (map entry_record [ex_entry]))" by (simp add: ex_entry_def entry_record_def)
  moreover have "mf_CryptMode ex_file \<noteq> str ''encrypt''" by (simp add: ex_file_def)
  ultimately show ?thesis unfolding loadIndex_def ex_manifest ex_csum(1)
    by (simp add: ex_index_def download_def ex_parse ex_csum(1) del: str_Cons check_entries.simps)
qed

lemma ex_reader:
  "\<exists>ir. OpenDynamicIndex ex_client [ex_file] ex_index ex_chunk None (str ''a'') = Inr ir \<and> ir_reads ir [5, 5] = ([7], Some RdEOF)"
proof -
  have f: "fetchChunk ex_client (ex_chunk 0) ex_entry 1 False = Inr [7]"
    by (simp add: fetchChunk_def ex_chunk_def download_def ex_client_def ex_decode ex_entry_def chunk_digest_def)
  have "(mf_CryptMode ex_file = str ''encrypt'') = False" "mf_Size ex_file = 1" by (simp_all add: ex_file_def)
  then have "OpenDynamicIndex ex_client [ex_file] ex_index ex_chunk None (str ''a'') =
      Inr \<lparr> ir_queue = [Inr [7]], ir_entries = 1, ir_size = 1, ir_cur = [], ir_consumed = 0, ir_read = 0, ir_err = None \<rparr>"
    using f unfolding OpenDynamicIndex_def ex_load by (simp add: ex_entry_def)
  moreover have "ir_reads \<lparr> ir_queue = [Inr [7]], ir_entries = 1, ir_size = 1, ir_cur = [], ir_consumed = 0, ir_read = 0, ir_err = None \<rparr> [5, 5]
      = ([7], Some RdEOF)" by code_simp
  ultimately show ?thesis by blast
qed

theorem reader_integrity_witness:
  "\<exists>s. OpenDynamicIndex ex_client [ex_file] ex_index ex_chunk None (str ''a'') = Inr s \<and>
     ir_reads s [5, 5] = ([7], Some RdEOF) \<and> [7] = concat [[7 :: byte]]"
proof -
  obtain s where s: "OpenDynamicIndex ex_client [ex_file] ex_index ex_chunk None (str ''a'') = Inr s" "ir_reads s [5, 5] = ([7], Some RdEOF)"
    using ex_reader by blast
  then show ?thesis using reader_integrity [OF s(1) ex_messages ex_manifest refl ex_csum ex_match s(2)] by blast
qed

end
