(* ===== verification/Snapshot.thy ===== *)
theory Snapshot
  imports Upload_Result Index_Read
begin

text \<open>
  Upload and restore together: what a reader of a snapshot delivers is the stream that was uploaded,
  with the chunks it references in place of the references.
\<close>

text \<open>The manifest entry that \<open>CloseDynamicIndex\<close> completes: checksum and size of the index.\<close>

definition close_entry :: "(bytes \<Rightarrow> bytes) \<Rightarrow> ManifestFile \<Rightarrow> UploadStats \<Rightarrow> bytes \<Rightarrow> ManifestFile" where
  "close_entry sha f stats csum = f\<lparr> mf_Csum := EncodeToString (sha csum), mf_Size := us_Size stats \<rparr>"

lemma job_of_piece [simp]:
  "job_size (piece_job seq off p) = piece_size p" "cj_offset (piece_job seq off p) = off" "cj_seq (piece_job seq off p) = seq"
  "job_digest H (piece_job seq off p) = (case p of PcData d \<Rightarrow> H d | PcKnown dig sz \<Rightarrow> dig)"
  by (cases p; simp add: job_size_def job_digest_def data_job_def known_job_def)+

lemma jobs_from_numbered: "i < length ps \<Longrightarrow> cj_seq (jobs_from seq off ps ! i) = seq + i"
  by (induction ps arbitrary: seq off i) (auto simp: nth_Cons' less_Suc_eq_0_disj)

lemma jobs_match:
  assumes "\<And>p. p \<in> set ps \<Longrightarrow> H (content p) = (case p of PcData d \<Rightarrow> H d | PcKnown dig sz \<Rightarrow> dig) \<and> len64 (content p) = piece_size p"
  shows "chunks_match H off (map (job_entry H) (jobs_from seq off ps)) (map content ps)"
  using assms by (induction ps arbitrary: seq off) (simp_all add: job_entry_def)

lemma jobs_from_in: "p \<in> set ps \<Longrightarrow> \<exists>seq' off'. piece_job seq' off' p \<in> set (jobs_from seq off ps)"
  by (induction ps arbitrary: seq off) (simp_all, blast)

lemma messages_mono: "set cs \<subseteq> set cs' \<Longrightarrow> messages c gi gc keyed es cs \<subseteq> messages c gi gc keyed es cs'"
  by (auto simp: messages_def)

text \<open>
  C1: A snapshot restores what was backed up.  A stream uploaded successfully, by any interleaving and next to other uploads of the session,
  and read back under the checksum its upload put into the manifest, whatever the server answers:
  the bytes read are the beginning of the stream, with every injected chunk of the previous snapshot
  resolved, and the end is reported only after all of it; as long as SHA-256 does not collide on the
  messages of the upload and the restore, and the chunks a framed stream references have the sizes it
  says.
\<close>

theorem restore_returns_backup:
  assumes up: "New avg = Inr ck" "unat avg < 2 ^ 62" "produce r avg None = (js, pe)"
      "ureach app (chunk_digest c keyed) pe (startUpload W js known store0) s" "session_ok (chunk_digest c keyed) known store0" "0 < W"
      "stopped_upload s" "uploadResult app closeErr s = (k, Inr (stats, csum))"
    and mf: "manifestFile fs name (str ''.didx'') = Inr (close_entry (cl_sha c) f stats csum)" "keyed = (mf_CryptMode f = str ''encrypt'')"
      "keyed \<longrightarrow> cl_crypt c \<noteq> None"
      "list_all (\<lambda>e. length (ix_Digest e) = 32) (us_Entries stats)"
    and sizes: "\<forall>j \<in> set js. cj_known j \<longrightarrow> cj_size j = len64 (the (ul_store s (cj_digest j)))"
    and rd: "OpenDynamicIndex c fs getIndex getChunk stop name = Inr ir" "ir_reads ir ns = (bs, e)"
    and sha: "inj_on (cl_sha c) (messages c getIndex getChunk keyed (us_Entries stats)
      (map cj_data js @ map (\<lambda>j. the (ul_store s (job_digest (chunk_digest c keyed) j))) js))"
  shows "(\<exists>rest. stream_image (\<lambda>d. the (ul_store s d)) r = bs @ rest) \<and>
    (e = Some RdEOF \<longrightarrow> bs = stream_image (\<lambda>d. the (ul_store s d)) r)"
proof -
  let ?H = "chunk_digest c keyed" and ?st = "\<lambda>d. the (ul_store s d)"
  let ?M = "messages c getIndex getChunk keyed (us_Entries stats) (map cj_data js @ map (\<lambda>j. ?st (job_digest ?H j)) js)"
  have pn: "numbered js"
  proof -
    obtain ps where "prefix js (jobs_from 0 0 ps)" using produce_pieces [OF up(1-3), of ?st] by blast
    then obtain zs where z: "jobs_from 0 0 ps = js @ zs" by (auto simp: prefix_def)
    show ?thesis unfolding numbered_def
    proof (intro allI impI)
      fix i assume "i < length js"
      moreover have "length ps = length js + length zs" using arg_cong [OF z, of length] by simp
      ultimately show "cj_seq (js ! i) = i" using jobs_from_numbered [of i ps 0 0] z by (simp add: nth_append)
    qed
  qed
  note ix = upload_indexed [OF up(4) pn up(5,6,7,8)]
  obtain ps where ps: "js = jobs_from 0 0 ps" "concat (map (piece_image ?st) ps) = stream_image ?st r"
    using produce_pieces [OF up(1-3), of ?st] ix by blast
  have piece: "?H (piece_image ?st p) = (case p of PcData d \<Rightarrow> ?H d | PcKnown dig sz \<Rightarrow> dig) \<and> len64 (piece_image ?st p) = piece_size p \<and>
      piece_image ?st p = ?st (case p of PcData d \<Rightarrow> ?H d | PcKnown dig sz \<Rightarrow> dig)" if pin: "p \<in> set ps" for p
  proof -
    obtain seq off where j: "piece_job seq off p \<in> set js" using jobs_from_in [OF pin, of 0 0] ps(1) by auto
    define dg where "dg = (case p of PcData d \<Rightarrow> ?H d | PcKnown dig sz \<Rightarrow> dig)"
    have "job_digest ?H (piece_job seq off p) = dg" by (simp add: dg_def)
    then have st: "?H (?st dg) = dg" "?st dg \<in> (\<lambda>j. ?st (job_digest ?H j)) ` set js" using ix j by force+
    show ?thesis
    proof (cases p)
      case (PcData d)
      have "hashed c keyed (?st dg) \<in> ?M" using st(2) by (auto simp: messages_def)
      moreover have "d \<in> cj_data ` set js" using j PcData by (force simp: data_job_def)
      then have "hashed c keyed d \<in> ?M" by (auto simp: messages_def)
      moreover have "cl_sha c (hashed c keyed (?st dg)) = cl_sha c (hashed c keyed d)"
        using st(1) PcData by (simp add: dg_def chunk_digest_hashed [OF mf(3)])
      ultimately have "?st dg = d" using sha hashed_inj by (metis inj_onD)
      then show ?thesis using PcData by (simp add: dg_def)
    next
      case (PcKnown dig sz)
      then show ?thesis using st(1) sizes j by (force simp: dg_def known_job_def)
    qed
  qed
  have m: "chunks_match ?H 0 (us_Entries stats) (map (piece_image ?st) ps)"
  proof -
    have "chunks_match ?H 0 (map (job_entry ?H) (jobs_from 0 0 ps)) (map (piece_image ?st) ps)"
      by (rule jobs_match) (use piece in blast)
    then show ?thesis using ix ps(1) by simp
  qed
  have "set (map (piece_image ?st) ps) \<subseteq> set (map cj_data js @ map (\<lambda>j. ?st (job_digest ?H j)) js)"
  proof
    fix x assume "x \<in> set (map (piece_image ?st) ps)"
    then obtain p where p: "p \<in> set ps" "x = piece_image ?st p" by auto
    obtain seq off where "piece_job seq off p \<in> set js" using jobs_from_in [OF p(1), of 0 0] ps(1) by auto
    moreover have "x = ?st (job_digest ?H (piece_job seq off p))" using piece [OF p(1)] p(2) by simp
    ultimately have "x \<in> (\<lambda>j. ?st (job_digest ?H j)) ` set js" by blast
    then show "x \<in> set (map cj_data js @ map (\<lambda>j. ?st (job_digest ?H j)) js)" by simp
  qed
  from messages_mono [OF this] have sha': "inj_on (cl_sha c) (messages c getIndex getChunk keyed (us_Entries stats) (map (piece_image ?st) ps))"
    by (rule inj_on_subset [OF sha])
  have ce: "mf_CryptMode (close_entry (cl_sha c) f stats csum) = mf_CryptMode f"
      "mf_Csum (close_entry (cl_sha c) f stats csum) = EncodeToString (cl_sha c (concat (map entry_record (us_Entries stats))))"
    using ix by (simp_all add: close_entry_def)
  show ?thesis
    using reader_delivers [OF rd(1) sha' mf(1) _ ce(2) mf(4) m rd(2)] mf(2) ce(1) ps(2) by simp
qed

theorem restore_returns_backup_witness:
  "\<exists>ir. OpenDynamicIndex ex_client [ex_file] ex_index ex_chunk None (str ''a'') = Inr ir \<and>
     ir_reads ir [5, 5] = (stream_image (\<lambda>d. the (ul_store (one_end ex_sha [7]) d)) [([7], REof)], Some RdEOF)"
proof -
  let ?H = "chunk_digest ex_client False" and ?js = "[one_job [7]]"
  have H: "?H = ex_sha" by (rule ext) (simp add: chunk_digest_def ex_client_def)
  obtain k stats csum where r: "uploadResult (\<lambda>_. None) None (one_end ?H [7]) = (k, Inr (stats, csum))" using one_result by blast
  have p: "produce [([7], REof)] 256 None = (?js, None)" by code_simp
  have ix: "us_Entries stats = [ex_entry]" "csum = concat (map entry_record [ex_entry])"
    using upload_indexed [OF one_run one_session(2,1) _ one_stopped r]
    by (simp_all add: job_entry_def job_digest_def job_size_def data_job_def H ex_entry_def)
  have ce: "close_entry (cl_sha ex_client) ex_file stats csum = ex_file"
    using one_size [OF r] ix(2) by (simp add: close_entry_def ex_file_def ex_client_def)
  have k: "False = (mf_CryptMode ex_file = str ''encrypt'')" by (simp add: ex_file_def)
  obtain ir where ir: "OpenDynamicIndex ex_client [ex_file] ex_index ex_chunk None (str ''a'') = Inr ir" "ir_reads ir [5, 5] = ([7], Some RdEOF)"
    using ex_reader by blast
  have cs: "map cj_data ?js @ map (\<lambda>j. the (ul_store (one_end ?H [7]) (job_digest ?H j))) ?js = [[7], [7]]"
    by (simp add: one_end_def one_state_def job_digest_def data_job_def)
  have "inj_on (cl_sha ex_client) (messages ex_client ex_index ex_chunk False (us_Entries stats)
      (map cj_data ?js @ map (\<lambda>j. the (ul_store (one_end ?H [7]) (job_digest ?H j))) ?js))"
    unfolding cs ix(1) by (rule inj_on_subset [OF ex_messages [folded k] messages_mono]) simp
  note main = restore_returns_backup [OF New_256 _ p one_run one_session(1) _ one_stopped r _ k _ _ _ ir this]
  have "[7] = stream_image (\<lambda>d. the (ul_store (one_end ?H [7]) d)) [([7], REof)]"
    using main ex_manifest ce ix(1) ex_csum(2) by (simp add: data_job_def)
  then show ?thesis using ir unfolding H by auto
qed

end
