(* ===== verification/Index_At.thy ===== *)
theory Index_At
  imports Index_Read "HOL-Library.AList"
begin

text \<open>
  Random access to an archive, \<^verbatim>\<open>src/pbs/indexat.go\<close>: \<open>ReadAt\<close> over the chunks of an index with a cache,
  shared downloads and read-ahead.

  Fetches run in goroutines of their own.  A parameter gives the outcome of a fetch of chunk \<open>j\<close> during the
  \<open>k\<close>-th call of \<open>chunk\<close>, another says which of the fetches in flight end during that call; so every
  interleaving of read-ahead and reads is an instance.  The Go map of the cache is an association list
  (the order in which \<open>evict\<close> meets equally old chunks is left open by Go).
\<close>

subsection \<open>Cache\<close>

definition indexCacheChunks :: nat where "indexCacheChunks = 8"

record cachedChunk =
  cc_data :: "bytes option"
  cc_used :: u64

record IndexFile =
  xf_entries :: "IndexEntry list"
  xf_keyed :: bool
  xf_ahead :: nat
  xf_cache :: "(nat \<times> cachedChunk) list"
  xf_clock :: u64
  xf_last :: "nat option"
  xf_run :: nat

type_synonym fetches = "nat \<Rightarrow> nat \<Rightarrow> read_error + bytes"

definition xf_add :: "nat \<Rightarrow> IndexFile \<Rightarrow> IndexFile" where
  "xf_add i f = f\<lparr> xf_cache := AList.update i \<lparr> cc_data = None, cc_used = xf_clock f \<rparr> (xf_cache f) \<rparr>"

definition victim :: "(nat \<times> cachedChunk) list \<Rightarrow> nat option" where
  "victim cache =
     (case filter (\<lambda>(i, c). cc_data c \<noteq> None) cache of
        [] \<Rightarrow> None
      | x # xs \<Rightarrow> Some (fst (foldl (\<lambda>v c. if cc_used (snd c) < cc_used (snd v) then c else v) x xs)))"

lemma oldest_in:
  "foldl (\<lambda>v c. if cc_used (snd c) < cc_used (snd v) then c else v) x xs \<in> set (x # (xs :: (nat \<times> cachedChunk) list))"
proof (induction xs arbitrary: x)
  case (Cons a xs)
  from Cons.IH [of a] Cons.IH [of x] show ?case by auto
qed simp

lemma victim_in: "victim cache = Some i \<Longrightarrow> i \<in> fst ` set cache"
proof -
  assume v: "victim cache = Some i"
  then obtain x xs where f: "filter (\<lambda>(i, c). cc_data c \<noteq> None) cache = x # xs"
      "i = fst (foldl (\<lambda>v c. if cc_used (snd c) < cc_used (snd v) then c else v) x xs)"
    by (auto simp: victim_def split: list.splits)
  moreover have "set (x # xs) \<subseteq> set cache" unfolding f(1) [symmetric] by auto
  ultimately show ?thesis using oldest_in [of x xs] by blast
qed

function xf_evict :: "IndexFile \<Rightarrow> IndexFile" where
  "xf_evict f =
     (if indexCacheChunks + 2 * xf_ahead f < length (xf_cache f) then
        (case victim (xf_cache f) of
           None \<Rightarrow> f
         | Some i \<Rightarrow> xf_evict (f\<lparr> xf_cache := AList.delete i (xf_cache f) \<rparr>))
      else f)"
  by pat_completeness auto
termination
proof (relation "measure (\<lambda>f. length (xf_cache f))", goal_cases)
  case (2 f i)
  then obtain c where "(i, c) \<in> set (xf_cache f)" using victim_in by fastforce
  then show ?case by (simp add: AList.delete_eq length_filter_less [where x = "(i, c)"])
qed simp

declare xf_evict.simps [simp del]

text \<open>The section of \<open>chunk\<close> under the lock: look up or register, read ahead on a sequential step, evict.\<close>

definition xf_ahead_add :: "IndexFile \<Rightarrow> nat \<Rightarrow> IndexFile" where
  "xf_ahead_add f j = (if map_of (xf_cache f) j = None then xf_add j f else f)"

definition xf_touch :: "IndexFile \<Rightarrow> nat \<Rightarrow> IndexFile \<times> cachedChunk option" where
  "xf_touch f i =
     (let f = f\<lparr> xf_clock := xf_clock f + 1 \<rparr>;
          hit = map_of (xf_cache f) i;
          f = (case hit of
                 Some c \<Rightarrow> f\<lparr> xf_cache := AList.update i (c\<lparr> cc_used := xf_clock f \<rparr>) (xf_cache f) \<rparr>
               | None \<Rightarrow> xf_add i f);
          f = (if xf_last f \<noteq> None \<and> i = the (xf_last f) + 1 then
                 (let f = f\<lparr> xf_run := min (xf_run f + 1) (xf_ahead f) \<rparr> in
                  foldl xf_ahead_add f [i + 1..<min (i + xf_run f + 1) (length (xf_entries f))])
               else if xf_last f \<noteq> Some i then f\<lparr> xf_run := 0 \<rparr> else f)
      in (xf_evict (f\<lparr> xf_last := Some i \<rparr>), hit))"

text \<open>A fetch ends: its data is kept, a failure is taken out of the cache.\<close>

definition xf_settle :: "IndexFile \<Rightarrow> nat \<Rightarrow> read_error + bytes \<Rightarrow> IndexFile" where
  "xf_settle f i out =
     (case map_of (xf_cache f) i of
        None \<Rightarrow> f
      | Some c \<Rightarrow>
          if cc_data c \<noteq> None then f
          else (case out of
                  Inl e \<Rightarrow> f\<lparr> xf_cache := AList.delete i (xf_cache f) \<rparr>
                | Inr d \<Rightarrow> f\<lparr> xf_cache := AList.update i (c\<lparr> cc_data := Some d \<rparr>) (xf_cache f) \<rparr>))"

definition xf_chunk :: "fetches \<Rightarrow> (nat \<Rightarrow> nat \<Rightarrow> bool) \<Rightarrow> nat \<Rightarrow> IndexFile \<Rightarrow> nat \<Rightarrow> IndexFile \<times> (read_error + bytes)" where
  "xf_chunk outs ends k f i =
     (case xf_touch f i of (f1, hit) \<Rightarrow>
        (let f2 = foldl (\<lambda>f j. if ends k j then xf_settle f j (outs k j) else f) f1 (map fst (xf_cache f1)) in
         case Option.bind hit cc_data of
           Some d \<Rightarrow> (f2, Inr d)
         | None \<Rightarrow> (xf_settle f2 i (outs k i), outs k i)))"

subsection \<open>Reading\<close>

definition index_size :: "IndexEntry list \<Rightarrow> i64" where
  "index_size es = (if es = [] then 0 else ix_EndOffset (last es))"

function readat_loop :: "fetches \<Rightarrow> (nat \<Rightarrow> nat \<Rightarrow> bool) \<Rightarrow> IndexEntry list \<Rightarrow> nat \<Rightarrow> IndexFile \<Rightarrow> nat \<Rightarrow> i64 \<Rightarrow> nat \<Rightarrow> bytes \<Rightarrow>
    IndexFile \<times> bytes \<times> read_error option" where
  "readat_loop outs ends es k f i off want acc =
     (if length acc < want \<and> sint off < sint (index_size es) then
        (if length es \<le> i then (f, acc, Some RdPanic)
         else
           (case xf_chunk outs ends k f i of
              (f', Inl e) \<Rightarrow> (f', acc, Some e)
            | (f', Inr d) \<Rightarrow>
                (let at = sint (off - (ix_EndOffset (es ! i) - len64 d)) in
                 if at < 0 \<or> int (length d) < at then (f', acc, Some RdPanic)
                 else
                   (let bs = take (want - length acc) (drop (nat at) d) in
                    readat_loop outs ends es (k + 1) f' (i + 1) (off + len64 bs) want (acc @ bs)))))
      else (f, acc, if length acc < want then Some RdEOF else None))"
  by pat_completeness auto
termination
  by (relation "measure (\<lambda>(outs, ends, es, k, f, i, off, want, acc). length es - i)") auto

declare readat_loop.simps [simp del]

definition ReadAt :: "fetches \<Rightarrow> (nat \<Rightarrow> nat \<Rightarrow> bool) \<Rightarrow> IndexFile \<Rightarrow> nat \<Rightarrow> i64 \<Rightarrow> IndexFile \<times> bytes \<times> read_error option" where
  "ReadAt outs ends f want off =
     (if sint off < 0 then (f, [], Some RdNegative)
      else readat_loop outs ends (xf_entries f) 0 f (sort_Search (length (xf_entries f)) (\<lambda>i. off < ix_EndOffset (xf_entries f ! i))) off want [])"

definition OpenDynamicIndexAt :: "client \<Rightarrow> ManifestFile list \<Rightarrow> (bytes \<Rightarrow> answer) \<Rightarrow> nat \<Rightarrow> bytes \<Rightarrow> read_error + IndexFile" where
  "OpenDynamicIndexAt c fs getIndex workers name =
     (case loadIndex c fs getIndex name of
        Inl e \<Rightarrow> Inl e
      | Inr (f, es, keyed) \<Rightarrow>
          (let sz = index_size es in
           if sz \<noteq> mf_Size f then Inl (RdCovers sz (mf_Size f))
           else Inr \<lparr> xf_entries = es, xf_keyed = keyed, xf_ahead = (if workers = 0 then 4 else workers), xf_cache = [],
                  xf_clock = 0, xf_last = None, xf_run = 0 \<rparr>))"

text \<open>The fetches of \<open>fetch\<close>: chunk \<open>j\<close> of the index, with the server's answers during the \<open>k\<close>-th call.\<close>

definition index_fetches :: "client \<Rightarrow> (nat \<Rightarrow> bytes \<Rightarrow> answer) \<Rightarrow> IndexFile \<Rightarrow> fetches" where
  "index_fetches c get f k j =
     fetchChunk c (get k) (xf_entries f ! j)
       (ix_EndOffset (xf_entries f ! j) - (if 0 < j then ix_EndOffset (xf_entries f ! (j - 1)) else 0)) (xf_keyed f)"

subsection \<open>The cache holds chunks of the index\<close>

definition cache_ok :: "bytes list \<Rightarrow> IndexFile \<Rightarrow> bool" where
  "cache_ok cs f \<longleftrightarrow> length (xf_entries f) = length cs \<and>
     (\<forall>(i, c) \<in> set (xf_cache f). i < length cs \<and> (\<forall>d. cc_data c = Some d \<longrightarrow> d = cs ! i))"

lemma update_in: "x \<in> set (AList.update k v al) \<Longrightarrow> x = (k, v) \<or> x \<in> set al"
  by (induction al) (auto split: if_splits)

lemma delete_in: "x \<in> set (AList.delete k al) \<Longrightarrow> x \<in> set al"
  by (auto simp: AList.delete_eq)

lemma cache_ok_update:
  assumes "cache_ok cs f" "i < length cs" "\<And>d. cc_data c = Some d \<Longrightarrow> d = cs ! i"
  shows "cache_ok cs (f\<lparr> xf_cache := AList.update i c (xf_cache f) \<rparr>)"
  using assms by (auto simp: cache_ok_def dest!: update_in)

lemma cache_ok_delete: "cache_ok cs f \<Longrightarrow> cache_ok cs (f\<lparr> xf_cache := AList.delete i (xf_cache f) \<rparr>)"
  by (auto simp: cache_ok_def dest!: delete_in)

lemma cache_ok_data: "cache_ok cs f \<Longrightarrow> map_of (xf_cache f) i = Some c \<Longrightarrow> i < length cs \<and> (cc_data c = Some d \<longrightarrow> d = cs ! i)"
  by (auto simp: cache_ok_def dest!: map_of_SomeD)

lemma cache_ok_add: "cache_ok cs f \<Longrightarrow> i < length cs \<Longrightarrow> cache_ok cs (xf_add i f)"
  unfolding xf_add_def by (rule cache_ok_update) simp_all

lemma cache_ok_other:
  "cache_ok cs (f\<lparr> xf_clock := a \<rparr>) = cache_ok cs f" "cache_ok cs (f\<lparr> xf_last := b \<rparr>) = cache_ok cs f"
  "cache_ok cs (f\<lparr> xf_run := r \<rparr>) = cache_ok cs f"
  by (simp_all add: cache_ok_def)

lemma cache_ok_evict: "cache_ok cs f \<Longrightarrow> cache_ok cs (xf_evict f)"
proof (induction f rule: xf_evict.induct)
  case (1 f)
  then show ?case by (auto simp: xf_evict.simps [of f] cache_ok_delete split: option.splits)
qed

lemma cache_ok_ahead: "cache_ok cs f \<Longrightarrow> \<forall>j \<in> set js. j < length cs \<Longrightarrow> cache_ok cs (foldl xf_ahead_add f js)"
  by (induction js arbitrary: f) (simp_all add: xf_ahead_add_def cache_ok_add)

lemma cache_ok_touch:
  assumes "cache_ok cs f" "i < length cs" "xf_touch f i = (f', hit)"
  shows "cache_ok cs f' \<and> hit = map_of (xf_cache f) i"
proof -
  define f1 where "f1 = f\<lparr> xf_clock := xf_clock f + 1 \<rparr>"
  define f2 where "f2 = (case map_of (xf_cache f1) i of
                 Some c \<Rightarrow> f1\<lparr> xf_cache := AList.update i (c\<lparr> cc_used := xf_clock f1 \<rparr>) (xf_cache f1) \<rparr>
               | None \<Rightarrow> xf_add i f1)"
  define f3 where "f3 = (if xf_last f2 \<noteq> None \<and> i = the (xf_last f2) + 1 then
                 (let f = f2\<lparr> xf_run := min (xf_run f2 + 1) (xf_ahead f2) \<rparr> in
                  foldl xf_ahead_add f [i + 1..<min (i + xf_run f + 1) (length (xf_entries f))])
               else if xf_last f2 \<noteq> Some i then f2\<lparr> xf_run := 0 \<rparr> else f2)"
  have 1: "cache_ok cs f1" using assms(1) by (simp add: f1_def cache_ok_other)
  have 2: "cache_ok cs f2"
    using 1 assms(2) cache_ok_data [OF 1] by (auto simp: f2_def intro!: cache_ok_add cache_ok_update split: option.splits)
  have 3: "cache_ok cs f3"
  proof -
    let ?g = "f2\<lparr> xf_run := min (xf_run f2 + 1) (xf_ahead f2) \<rparr>"
    have "length (xf_entries ?g) = length cs" using 2 by (simp add: cache_ok_def)
    then have "cache_ok cs (foldl xf_ahead_add ?g [i + 1..<min (i + xf_run ?g + 1) (length (xf_entries ?g))])"
      using 2 by (intro cache_ok_ahead) (auto simp: cache_ok_other)
    then show ?thesis unfolding f3_def Let_def using 2 by (simp only: cache_ok_other split: if_split) simp
  qed
  have "f' = xf_evict (f3\<lparr> xf_last := Some i \<rparr>)" "hit = map_of (xf_cache f1) i"
    using assms(3) unfolding xf_touch_def Let_def f1_def [symmetric] f2_def [symmetric] f3_def [symmetric, unfolded Let_def] by auto
  then show ?thesis using 3 by (simp add: cache_ok_evict cache_ok_other f1_def)
qed

text \<open>Fetches that only deliver the chunks of the index.\<close>

definition fetches_ok :: "bytes list \<Rightarrow> fetches \<Rightarrow> bool" where
  "fetches_ok cs outs \<longleftrightarrow> (\<forall>k j d. j < length cs \<longrightarrow> outs k j = Inr d \<longrightarrow> d = cs ! j)"

lemma cache_ok_settle:
  assumes "cache_ok cs f" "fetches_ok cs outs"
  shows "cache_ok cs (xf_settle f j (outs k j))"
  using assms cache_ok_data [OF assms(1), of j]
  by (auto simp: xf_settle_def fetches_ok_def intro!: cache_ok_delete cache_ok_update split: option.splits sum.splits)

lemma cache_ok_settles:
  "cache_ok cs f \<Longrightarrow> fetches_ok cs outs \<Longrightarrow> cache_ok cs (foldl (\<lambda>f j. if ends k j then xf_settle f j (outs k j) else f) f js)"
  by (induction js arbitrary: f) (simp_all add: cache_ok_settle)

lemma xf_chunk_ok:
  assumes "cache_ok cs f" "fetches_ok cs outs" "i < length cs" "xf_chunk outs ends k f i = (f', res)"
  shows "cache_ok cs f' \<and> (case res of Inr d \<Rightarrow> d = cs ! i | Inl e \<Rightarrow> outs k i = Inl e)"
proof -
  obtain f1 hit where t: "xf_touch f i = (f1, hit)" by fastforce
  have ok: "cache_ok cs f1" "hit = map_of (xf_cache f) i" using cache_ok_touch [OF assms(1,3) t] by auto
  let ?f2 = "foldl (\<lambda>f j. if ends k j then xf_settle f j (outs k j) else f) f1 (map fst (xf_cache f1))"
  have 2: "cache_ok cs ?f2" using cache_ok_settles [OF ok(1) assms(2)] .
  show ?thesis
  proof (cases "Option.bind hit cc_data")
    case None
    then have "f' = xf_settle ?f2 i (outs k i)" "res = outs k i" using assms(4) t by (auto simp: xf_chunk_def Let_def)
    then show ?thesis using cache_ok_settle [OF 2 assms(2)] assms(2,3) by (auto simp: fetches_ok_def split: sum.splits)
  next
    case (Some d)
    then have "f' = ?f2" "res = Inr d" using assms(4) t by (auto simp: xf_chunk_def Let_def)
    moreover obtain c where "hit = Some c" "cc_data c = Some d" using Some by (cases hit) auto
    ultimately show ?thesis using 2 cache_ok_data [OF assms(1), of i c d] ok(2) by simp
  qed
qed

subsection \<open>Random access reads the content\<close>

abbreviation upto :: "bytes list \<Rightarrow> nat \<Rightarrow> nat" where
  "upto cs i \<equiv> length (concat (take i cs))"

lemma chunks_match_ends:
  "chunks_match H start es cs \<Longrightarrow> length es = length cs \<and>
     (\<forall>i < length cs. ix_EndOffset (es ! i) = start + of_nat (upto cs (Suc i)) \<and> H (cs ! i) = ix_Digest (es ! i))"
proof (induction es arbitrary: start cs)
  case (Cons e es)
  then obtain x xs where cs: "cs = x # xs" "H x = ix_Digest e" "len64 x = ix_EndOffset e - start" "chunks_match H (ix_EndOffset e) es xs"
    by (auto split: list.splits)
  from cs(3) have e: "ix_EndOffset e = start + len64 x" by (simp add: algebra_simps)
  have IH: "length es = length xs" "\<And>i. i < length xs \<Longrightarrow> ix_EndOffset (es ! i) = ix_EndOffset e + of_nat (upto xs (Suc i)) \<and> H (xs ! i) = ix_Digest (es ! i)"
    using Cons.IH [OF cs(4)] by blast+
  have "ix_EndOffset ((e # es) ! i) = start + of_nat (upto (x # xs) (Suc i)) \<and> H ((x # xs) ! i) = ix_Digest ((e # es) ! i)"
    if "i < length (x # xs)" for i
  proof (cases i)
    case 0
    then show ?thesis using e cs(2) by simp
  next
    case (Suc k)
    then show ?thesis using IH(2) [of k] that by (simp add: e add.assoc)
  qed
  then show ?case using IH(1) by (simp add: cs(1))
qed simp

lemma upto_Suc: "i < length cs \<Longrightarrow> upto cs (Suc i) = upto cs i + length (cs ! i)"
  by (simp add: take_Suc_conv_app_nth)

lemma upto_le: "upto cs i \<le> length (concat cs)"
  by (metis append_take_drop_id concat_append le_add1 length_append)

lemma content_at:
  assumes "i < length cs" "r \<le> length (cs ! i)"
  shows "drop (upto cs i + r) (concat cs) = drop r (cs ! i) @ concat (drop (Suc i) cs)"
proof -
  have "concat cs = concat (take i cs) @ cs ! i @ concat (drop (Suc i) cs)"
    using assms(1) by (metis Cons_nth_drop_Suc append_take_drop_id concat.simps(2) concat_append)
  then show ?thesis using assms(2) by simp
qed

text \<open>The result of a read: the content from \<open>off\<close> on, as much as fits, and why it stopped.\<close>

definition read_ok :: "fetches \<Rightarrow> bytes list \<Rightarrow> nat \<Rightarrow> nat \<Rightarrow> bytes \<Rightarrow> bytes \<times> read_error option \<Rightarrow> bool" where
  "read_ok outs cs off want acc res \<longleftrightarrow> (case res of (bs, e) \<Rightarrow>
     \<exists>n. bs = acc @ take n (drop off (concat cs)) \<and> length bs \<le> want \<and>
       (case e of
          None \<Rightarrow> length bs = want
        | Some er \<Rightarrow> length bs < want \<and>
            (er = RdEOF \<and> bs = acc @ drop off (concat cs) \<or> (\<exists>k j. j < length cs \<and> outs k j = Inl er))))"

lemma read_ok_cons:
  assumes "read_ok outs cs (p + length b) want (acc @ b) (bs, e)" "drop p (concat cs) = b @ t"
  shows "read_ok outs cs p want acc (bs, e)"
proof -
  have t: "drop (p + length b) (concat cs) = t"
  proof -
    have "drop (p + length b) (concat cs) = drop (length b) (drop p (concat cs))" by (simp add: add.commute)
    then show ?thesis by (simp add: assms(2))
  qed
  have tk: "b @ take n t = take (length b + n) (drop p (concat cs))" for n by (simp add: assms(2))
  obtain n where "bs = (acc @ b) @ take n t" using assms(1) t by (auto simp: read_ok_def)
  then have "bs = acc @ take (length b + n) (drop p (concat cs))" by (simp flip: tk)
  then show ?thesis using assms t unfolding read_ok_def prod.case by (intro exI [of _ "length b + n"]) (auto split: option.splits)
qed

lemma readat_loop_ok:
  assumes ends: "\<And>i. i < length cs \<Longrightarrow> ix_EndOffset (es ! i) = of_nat (upto cs (Suc i))" "length es = length cs"
    and small: "length (concat cs) < 2 ^ 63" "\<And>i. i < length cs \<Longrightarrow> cs ! i \<noteq> []" and outs: "fetches_ok cs outs"
  shows "cache_ok cs f \<Longrightarrow> off = of_nat p \<Longrightarrow> p < 2 ^ 63 \<Longrightarrow> length acc \<le> want \<Longrightarrow>
    (length acc < want \<Longrightarrow> p < length (concat cs) \<Longrightarrow> i < length cs \<and> upto cs i \<le> p \<and> p < upto cs (Suc i)) \<Longrightarrow>
    readat_loop outs ends es k f i off want acc = (f', bs, e) \<Longrightarrow> cache_ok cs f' \<and> read_ok outs cs p want acc (bs, e)"
proof (induction "length cs - i" arbitrary: i k f off acc p rule: less_induct)
  case less
  have size: "sint (index_size es) = int (length (concat cs))"
  proof (cases "cs = []")
    case True
    then show ?thesis using ends(2) by (simp add: index_size_def)
  next
    case False
    then have ne: "cs \<noteq> []" "es \<noteq> []" using ends(2) by auto
    then have "index_size es = of_nat (upto cs (Suc (length cs - 1)))"
      using ends(1) [of "length cs - 1"] ends(2) by (simp add: index_size_def last_conv_nth)
    then show ?thesis using ne sint_of_nat63 [OF small(1)] by simp
  qed
  note eq = less.prems(6) [unfolded readat_loop.simps [of outs ends es k f i off want acc]]
  have off: "sint off = int p" using less.prems(2,3) sint_of_nat63 by simp
  show ?case
  proof (cases "length acc < want \<and> p < length (concat cs)")
    case False
    then show ?thesis using eq less.prems(1,4) unfolding size off read_ok_def
      by (auto split: if_splits intro!: exI [of _ 0])
  next
    case True
    have i: "i < length cs" "upto cs i \<le> p" "p < upto cs (Suc i)" using less.prems(5) True by auto
    obtain f1 res where ch: "xf_chunk outs ends k f i = (f1, res)" by fastforce
    note ok = xf_chunk_ok [OF less.prems(1) outs i(1) ch]
    show ?thesis
    proof (cases res)
      case (Inl er)
      then have "bs = acc" "e = Some er" "f' = f1" using eq ch True i(1) ends(2) unfolding size off by auto
      moreover have "\<exists>k j. j < length cs \<and> outs k j = Inl er" using ok Inl i(1) by auto
      ultimately show ?thesis using ok True unfolding read_ok_def by (auto intro: exI [of _ "0 :: nat"])
    next
      case (Inr d)
      define r where "r = p - upto cs i"
      have d: "d = cs ! i" "r < length d" "p = upto cs i + r" using ok Inr i upto_Suc [OF i(1)] by (auto simp: r_def)
      have "off - (ix_EndOffset (es ! i) - len64 d) = of_nat r"
        using ends(1) [OF i(1)] upto_Suc [OF i(1)] d less.prems(2) by simp
      moreover have "r < 2 ^ 63" using d less.prems(3) by simp
      ultimately have at: "sint (off - (ix_EndOffset (es ! i) - len64 d)) = int r" by (simp only: sint_of_nat63)
      define b where "b = take (want - length acc) (drop r d)"
      have rec: "readat_loop outs ends es (k + 1) f1 (i + 1) (off + len64 b) want (acc @ b) = (f', bs, e)"
        using eq True ch Inr i(1) ends(2) d(2) unfolding size off Let_def b_def by (simp add: at)
      have dp: "drop p (concat cs) = drop r d @ concat (drop (Suc i) cs)" using content_at [OF i(1), of r] d by simp
      then have dp2: "drop p (concat cs) = b @ drop (length b) (drop r d) @ concat (drop (Suc i) cs)"
        by (metis append.assoc append_take_drop_id b_def append_eq_conv_conj)
      have "length b \<le> length (concat cs) - p" using dp2 by (metis le_add1 length_append length_drop)
      then have lb: "p + length b \<le> length (concat cs)" using True by linarith
      have next_chunk: "i + 1 < length cs \<and> upto cs (i + 1) \<le> p + length b \<and> p + length b < upto cs (Suc (i + 1))"
        if "length (acc @ b) < want" "p + length b < length (concat cs)"
      proof -
        have "b = drop r d" using that(1) by (auto simp: b_def)
        then have e: "p + length b = upto cs (Suc i)" using d upto_Suc [OF i(1)] by simp
        then have "Suc i < length cs" using that(2) by (metis linorder_not_less take_all nless_le)
        then show ?thesis using e upto_Suc [of "Suc i" cs] small(2) [of "Suc i"] by simp
      qed
      have "cache_ok cs f' \<and> read_ok outs cs (p + length b) want (acc @ b) (bs, e)"
      proof (rule less.hyps [of "i + 1" f1 "off + len64 b" "p + length b" "acc @ b" "k + 1"])
        show "length cs - (i + 1) < length cs - i" using i(1) by simp
        show "cache_ok cs f1" using ok by simp
        show "off + len64 b = of_nat (p + length b)" using less.prems(2) by simp
        show "p + length b < 2 ^ 63" using lb small(1) by simp
        show "length (acc @ b) \<le> want" using True by (auto simp: b_def)
      qed (use next_chunk rec in simp_all)
      then show ?thesis using read_ok_cons dp2 by blast
    qed
  qed
qed

subsection \<open>Integrity of random access\<close>

lemma check_entries_ascending:
  "check_entries prev es = Some x \<Longrightarrow> chunks_match H prev es cs \<Longrightarrow> \<forall>c \<in> set cs. c \<noteq> []"
proof (induction es arbitrary: prev x cs)
  case (Cons e es)
  then obtain c cs' where c: "cs = c # cs'" "len64 c = ix_EndOffset e - prev" "chunks_match H (ix_EndOffset e) es cs'"
    by (auto split: list.splits)
  have "c \<noteq> []" using Cons.prems(1) c(2) by (auto split: if_splits)
  then show ?case using Cons c by (auto split: if_splits)
qed simp

lemma index_fetches_ok:
  assumes "inj_on (cl_sha c) M" "xf_keyed f \<longrightarrow> cl_crypt c \<noteq> None"
    "\<And>k n framed d. get k n = Inr (200, framed) \<Longrightarrow> decodeBlob (cl_zstd c) framed (map_option cr_aead (cl_crypt c)) = Inr d \<Longrightarrow> hashed c (xf_keyed f) d \<in> M"
    "hashed c (xf_keyed f) ` set cs \<subseteq> M" "chunks_match (chunk_digest c (xf_keyed f)) 0 (xf_entries f) cs"
  shows "fetches_ok cs (index_fetches c get f)"
  unfolding fetches_ok_def
proof (intro allI impI)
  fix k j d assume j: "j < length cs" "index_fetches c get f k j = Inr d"
  have "chunk_digest c (xf_keyed f) d = ix_Digest (xf_entries f ! j)" "hashed c (xf_keyed f) d \<in> M"
    using fetchChunk_verified [OF j(2) [unfolded index_fetches_def]] assms(3) by auto
  moreover have "chunk_digest c (xf_keyed f) (cs ! j) = ix_Digest (xf_entries f ! j)"
    using chunks_match_ends [OF assms(5)] j(1) by simp
  moreover have "hashed c (xf_keyed f) (cs ! j) \<in> M" using assms(4) j(1) by auto
  ultimately show "d = cs ! j"
    using assms(1) hashed_inj unfolding chunk_digest_hashed [OF assms(2)] by (metis inj_onD)
qed

text \<open>Successive reads of one file, in order; the fetches of each have answers of their own.\<close>

fun ReadAts :: "(nat \<Rightarrow> fetches) \<Rightarrow> (nat \<Rightarrow> nat \<Rightarrow> nat \<Rightarrow> bool) \<Rightarrow> IndexFile \<Rightarrow> (nat \<times> i64) list \<Rightarrow> (bytes \<times> read_error option) list" where
  "ReadAts outs ends f [] = []"
| "ReadAts outs ends f ((want, off) # rs) =
     (case ReadAt (outs (length rs)) (ends (length rs)) f want off of (f', res) \<Rightarrow> res # ReadAts outs ends f' rs)"

definition read_right :: "bytes \<Rightarrow> nat \<Rightarrow> i64 \<Rightarrow> bytes \<times> read_error option \<Rightarrow> bool" where
  "read_right content want off res \<longleftrightarrow> (case res of (bs, e) \<Rightarrow>
     (0 \<le> sint off \<longrightarrow> bs = take (length bs) (drop (unat off) content)) \<and> length bs \<le> want \<and> e \<noteq> Some RdPanic \<and>
     (e = None \<longrightarrow> 0 \<le> sint off \<and> length bs = want) \<and>
     (e = Some RdEOF \<longrightarrow> bs = drop (unat off) content \<and> length bs < want))"

lemma ReadAt_right:
  assumes m: "chunks_match H 0 (xf_entries f) cs" and small: "length (concat cs) < 2 ^ 63" "\<forall>c \<in> set cs. c \<noteq> []"
    and ok: "fetches_ok cs outs" "cache_ok cs f" "\<And>k j. outs k j \<noteq> Inl RdEOF \<and> outs k j \<noteq> Inl RdPanic"
    and r: "ReadAt outs ends f want off = (f', res)"
  shows "cache_ok cs f' \<and> read_right (concat cs) want off res"
proof (cases "sint off < 0")
  case True
  then show ?thesis using r ok(2) by (auto simp: ReadAt_def read_right_def)
next
  case False
  let ?es = "xf_entries f"
  note ends = chunks_match_ends [OF m]
  have p: "unat off < 2 ^ 63" "off = of_nat (unat off)" using nonneg_unat [OF False] by simp_all
  define i where "i = sort_Search (length ?es) (\<lambda>i. off < ix_EndOffset (?es ! i))"
  have lt: "off < ix_EndOffset (?es ! j) \<longleftrightarrow> unat off < upto cs (Suc j)" if "j < length ?es" for j
  proof -
    have "upto cs (Suc j) < 2 ^ 63" using small(1) upto_le [of "Suc j" cs] by linarith
    then show ?thesis using ends that by (simp add: word_less_nat_alt unat_of_nat)
  qed
  have mono: "upto cs (Suc a) \<le> upto cs (Suc b)" if "a \<le> b" for a b
    using that by (metis Suc_le_mono le_add1 length_append concat_append take_add le_Suc_ex)
  have up: "off < ix_EndOffset (?es ! b)" if "a \<le> b" "b < length ?es" "off < ix_EndOffset (?es ! a)" for a b
    using that lt [of a] lt [of b] mono [of a b] by simp
  have srch: "\<not> off < ix_EndOffset (?es ! k)" if "k < i" for k
    using that sort_Search_correct(2) [of "length ?es" "\<lambda>i. off < ix_EndOffset (?es ! i)" k] up by (auto simp: i_def)
  have srch3: "off < ix_EndOffset (?es ! k)" if "i \<le> k" "k < length ?es" for k
    using that sort_Search_correct(3) [of "length ?es" "\<lambda>i. off < ix_EndOffset (?es ! i)" k] up by (auto simp: i_def)
  have pos: "i < length cs \<and> upto cs i \<le> unat off \<and> unat off < upto cs (Suc i)" if "unat off < length (concat cs)"
  proof -
    have ne: "cs \<noteq> []" using that by auto
    then have "unat off < upto cs (Suc (length cs - 1))" using that by simp
    then have "\<not> length cs - 1 < i" using srch [of "length cs - 1"] lt [of "length cs - 1"] ends ne by auto
    then have "\<not> length ?es \<le> i" using ends ne by (cases cs) auto
    then have i: "i < length cs" "unat off < upto cs (Suc i)" using srch3 [of i] lt [of i] ends by auto
    have "upto cs i \<le> unat off"
    proof (cases i)
      case (Suc j)
      then show ?thesis using srch [of j] lt [of j] i ends by auto
    qed simp
    with i show ?thesis by simp
  qed
  obtain bs e where b: "res = (bs, e)" by fastforce
  have "readat_loop outs ends ?es 0 f i off want [] = (f', bs, e)" using r False b by (simp add: ReadAt_def i_def)
  then have res: "cache_ok cs f'" "read_ok outs cs (unat off) want [] (bs, e)"
    using readat_loop_ok [of cs ?es outs f off "unat off" "[]" want i ends 0 f' bs e] ends small ok(1,2) p pos by auto
  then show ?thesis using ok(3) False unfolding b read_right_def
    by (fastforce simp: read_ok_def min_def split: option.splits)
qed

lemma evict_entries [simp]: "xf_entries (xf_evict f) = xf_entries f"
proof (induction f rule: xf_evict.induct)
  case (1 f)
  then show ?case by (auto simp: xf_evict.simps [of f] split: option.splits)
qed

lemma ahead_entries [simp]: "xf_entries (foldl xf_ahead_add f js) = xf_entries f"
  by (induction js arbitrary: f) (simp_all add: xf_ahead_add_def xf_add_def)

lemma settle_entries [simp]: "xf_entries (xf_settle f j x) = xf_entries f"
  by (simp add: xf_settle_def split: option.splits sum.splits)

lemma settles_entries [simp]: "xf_entries (foldl (\<lambda>f j. if P j then xf_settle f j (x j) else f) f js) = xf_entries f"
  by (induction js arbitrary: f) simp_all

lemma chunk_entries: "xf_chunk outs ends k f i = (f', res) \<Longrightarrow> xf_entries f' = xf_entries f"
  by (auto simp: xf_chunk_def xf_touch_def xf_add_def Let_def split: option.splits if_splits)

lemma loop_entries: "readat_loop outs ends es k f i off want acc = (f', x) \<Longrightarrow> xf_entries f' = xf_entries f"
proof (induction "length es - i" arbitrary: i k f off acc rule: less_induct)
  case less
  obtain f1 res where ch: "xf_chunk outs ends k f i = (f1, res)" by fastforce
  show ?case using less.prems less.hyps [of "i + 1"] chunk_entries [OF ch] ch
    by (subst (asm) readat_loop.simps) (auto simp: Let_def split: if_splits sum.splits)
qed

lemma ReadAt_entries: "ReadAt outs ends f want off = (f', x) \<Longrightarrow> xf_entries f' = xf_entries f"
  by (auto simp: ReadAt_def split: if_splits dest: loop_entries)

lemma ReadAts_right:
  assumes "chunks_match H 0 es cs" "length (concat cs) < 2 ^ 63" "\<forall>c \<in> set cs. c \<noteq> []"
    and "\<And>r. fetches_ok cs (outs r)" "\<And>r k j. outs r k j \<noteq> Inl RdEOF \<and> outs r k j \<noteq> Inl RdPanic"
  shows "cache_ok cs f \<Longrightarrow> xf_entries f = es \<Longrightarrow>
    list_all2 (\<lambda>(want, off) res. read_right (concat cs) want off res) rs (ReadAts outs ends f rs)"
proof (induction rs arbitrary: f)
  case (Cons r rs)
  obtain want off where r: "r = (want, off)" by fastforce
  obtain f' res where rd: "ReadAt (outs (length rs)) (ends (length rs)) f want off = (f', res)"
    by (cases "ReadAt (outs (length rs)) (ends (length rs)) f want off")
  have "cache_ok cs f' \<and> read_right (concat cs) want off res"
    using ReadAt_right [OF _ assms(2,3) assms(4) Cons.prems(1) assms(5) rd, of H] assms(1) Cons.prems(2) by blast
  then show ?case using Cons.IH [of f'] ReadAt_entries [OF rd] Cons.prems(2) rd r by simp
qed simp

text \<open>
  C14: Random access is integral too.  Any sequence of \<open>ReadAt\<close> calls on an opened archive, whatever the cache holds and evicts, whichever
  fetches are in flight and whatever the server answers to each of them, as long as SHA-256 does not
  collide on the messages of the run: a call returns the bytes of the archive at its offset, all of
  them when it reports success, the rest of the archive when it reports its end, and it never panics.
\<close>

theorem readat_integrity:
  assumes "OpenDynamicIndexAt c fs getIndex workers name = Inr f"
    and "inj_on (cl_sha c) (\<Union>r. messages c getIndex (getChunk r) keyed es cs)"
    and "manifestFile fs name (str ''.didx'') = Inr mf" "keyed = (mf_CryptMode mf = str ''encrypt'')"
    and "mf_Csum mf = EncodeToString (cl_sha c (concat (map entry_record es)))" "list_all (\<lambda>e. length (ix_Digest e) = 32) es"
    and "chunks_match (chunk_digest c keyed) 0 es cs" "length (concat cs) < 2 ^ 63"
  shows "list_all2 (\<lambda>(want, off) res. read_right (concat cs) want off res) rs
    (ReadAts (\<lambda>r. index_fetches c (getChunk r) f) ends f rs)"
proof -
  let ?M = "\<Union>r. messages c getIndex (getChunk r) keyed es cs"
  obtain mf' es' keyed' where l: "loadIndex c fs getIndex name = Inr (mf', es', keyed')"
    using assms(1) by (auto simp: OpenDynamicIndexAt_def split: sum.splits)
  have k: "mf' = mf" "keyed' = keyed" using l assms(3,4) by (auto simp: loadIndex_def Let_def split: sum.splits if_splits option.splits)
  have es: "es' = es"
    by (rule loadIndex_verified [OF l assms(2) _ assms(6)]) (use assms(5) k in \<open>auto simp: messages_def\<close>)
  have f: "xf_entries f = es" "xf_keyed f = keyed" "xf_cache f = []"
    using assms(1) l k es by (auto simp: OpenDynamicIndexAt_def Let_def split: if_splits)
  obtain x where "check_entries 0 es = Some x"
    using l es by (auto simp: loadIndex_def Let_def split: sum.splits if_splits option.splits)
  then have ne: "\<forall>c \<in> set cs. c \<noteq> []" using check_entries_ascending assms(7) by blast
  have kc: "xf_keyed f \<longrightarrow> cl_crypt c \<noteq> None" using loadIndex_keyed [OF l] k f(2) by simp
  have ok: "fetches_ok cs (index_fetches c (getChunk r) f)" for r
  proof (rule index_fetches_ok [OF assms(2) kc])
    show "hashed c (xf_keyed f) ` set cs \<subseteq> ?M" by (auto simp: messages_def f(2))
  next
    fix k n framed d
    assume "getChunk r k n = Inr (200, framed)" "decodeBlob (cl_zstd c) framed (map_option cr_aead (cl_crypt c)) = Inr d"
    then have "hashed c keyed d \<in> messages c getIndex (getChunk r) keyed es cs" by (auto simp: messages_def)
    then show "hashed c (xf_keyed f) d \<in> ?M" using f(2) by blast
  qed (use assms(7) f in simp)
  have no: "index_fetches c (getChunk r) f k j \<noteq> Inl RdEOF \<and> index_fetches c (getChunk r) f k j \<noteq> Inl RdPanic" for r k j
    by (auto simp: index_fetches_def fetchChunk_def download_def split: sum.splits if_splits)
  have "cache_ok cs f" using f chunks_match_ends [OF assms(7)] by (simp add: cache_ok_def)
  then show ?thesis
    using ReadAts_right [where outs = "\<lambda>r. index_fetches c (getChunk r) f", OF assms(7,8) ne ok no] f(1) by blast
qed

theorem readat_integrity_witness:
  "\<exists>f. OpenDynamicIndexAt ex_client [ex_file] ex_index 0 (str ''a'') = Inr f \<and>
     list_all2 (\<lambda>(want, off) res. read_right [7] want off res) [(5, 0), (1, 0)]
       (ReadAts (\<lambda>r. index_fetches ex_client ex_chunk f) (\<lambda>_ _ _. True) f [(5, 0), (1, 0)])"
proof -
  have "mf_Size ex_file = index_size [ex_entry]" by (simp add: ex_file_def index_size_def ex_entry_def)
  then obtain f where f: "OpenDynamicIndexAt ex_client [ex_file] ex_index 0 (str ''a'') = Inr f"
    using ex_load by (simp add: OpenDynamicIndexAt_def Let_def)
  from readat_integrity [OF f _ ex_manifest refl ex_csum, of "\<lambda>_. ex_chunk" "[[7]]" "[(5, 0), (1, 0)]" "\<lambda>_ _ _. True"]
    ex_messages ex_match f show ?thesis by auto
qed

end
