(* ===== verification/Fs_View.thy ===== *)
theory Fs_View
  imports Pxar_Reader Glob "HOL-Library.List_Lexorder"
begin

unbundle bit_operations_syntax

text \<open>
  Random access to an archive as a file system, \<^verbatim>\<open>src/pxar/fs.go\<close>: paths are looked up through the
  goodbye tables, entries decoded where the tables point.

  The metadata stream is an \<open>io.ReaderAt\<close>: a function from an offset, which is an \<open>int64\<close> and may be
  negative, and a length to the bytes delivered and the error.  Offsets of the code are \<open>int64\<close>, kept
  as 64-bit words.  An entry is decoded by the pxar reader over an \<open>io.SectionReader\<close>, whose
  input is what the source delivers for the section and how that ends.  \<open>Hash\<close>, a keyed hash of a
  library, is a parameter \<open>H\<close>.  \<open>slices.SortFunc\<close> may order equal keys in any way and is taken as stable.
\<close>

subsection \<open>Slash-separated paths\<close>

text \<open>What \<^verbatim>\<open>fs.go\<close> uses of the packages \<open>path\<close>, \<open>strings\<close>, \<open>io/fs\<close> and \<open>unicode/utf8\<close>.\<close>

abbreviation slash :: byte where "slash \<equiv> of_char (CHR ''/'')"

fun join_slash :: "bytes list \<Rightarrow> bytes" where
  "join_slash [] = []"
| "join_slash [c] = c"
| "join_slash (c # cs) = c @ [slash] @ join_slash cs"

definition cut_slash :: "bytes \<Rightarrow> bytes \<times> bytes" where
  "cut_slash s = (takeWhile (\<lambda>b. b \<noteq> slash) s, tl (dropWhile (\<lambda>b. b \<noteq> slash) s))"

definition trim_prefix :: "bytes \<Rightarrow> bytes \<Rightarrow> bytes" where
  "trim_prefix s p = (if has_prefix s p then drop (length p) s else s)"

fun clean_comps :: "bool \<Rightarrow> bytes list \<Rightarrow> bytes list \<Rightarrow> bytes list" where
  "clean_comps rooted st [] = rev st"
| "clean_comps rooted st (c # cs) =
     (if c = [] \<or> c = str ''.'' then clean_comps rooted st cs
      else if c = str ''..'' then
        (case st of
           [] \<Rightarrow> clean_comps rooted (if rooted then [] else [c]) cs
         | t # ts \<Rightarrow> clean_comps rooted (if t = str ''..'' then c # st else ts) cs)
      else clean_comps rooted (c # st) cs)"

definition slash_IsAbs :: "bytes \<Rightarrow> bool" where
  "slash_IsAbs p \<longleftrightarrow> p \<noteq> [] \<and> hd p = slash"

definition slash_Clean :: "bytes \<Rightarrow> bytes" where
  "slash_Clean p =
     (if p = [] then str ''.''
      else
        (let out = join_slash (clean_comps (slash_IsAbs p) [] (split_slash p)) in
         if slash_IsAbs p then [slash] @ out else if out = [] then str ''.'' else out))"

definition slash_Join :: "bytes \<Rightarrow> bytes \<Rightarrow> bytes" where
  "slash_Join a b = (if a = [] \<and> b = [] then [] else if a = [] then slash_Clean b else slash_Clean (a @ [slash] @ b))"

definition slash_Base :: "bytes \<Rightarrow> bytes" where
  "slash_Base p =
     (if p = [] then str ''.''
      else
        (let q = rev (dropWhile (\<lambda>b. b = slash) (rev p)) in
         if q = [] then [slash] else last (split_slash q)))"

function ValidString :: "bytes \<Rightarrow> bool" where
  "ValidString [] = True"
| "ValidString (b # s) = (DecodeRune (b # s) \<noteq> (0xFFFD, 1) \<and> ValidString (drop (width (b # s)) (b # s)))"
  by pat_completeness auto
termination
proof (relation "measure length", goal_cases)
  case (2 b s)
  then have "1 \<le> width (b # s)" using width_bounds [of "b # s"] by simp
  then show ?case by simp
qed simp

declare ValidString.simps(2) [simp del]

definition fs_ValidPath :: "bytes \<Rightarrow> bool" where
  "fs_ValidPath name \<longleftrightarrow> ValidString name \<and>
     (name = str ''.'' \<or> (\<forall>e \<in> set (split_slash name). e \<noteq> [] \<and> e \<noteq> str ''.'' \<and> e \<noteq> str ''..''))"

subsection \<open>State\<close>

type_synonym metaAt = "int \<Rightarrow> nat \<Rightarrow> bytes \<times> string rstat"

record fsNode =
  fn_Node :: PNode
  fn_name :: bytes
  fn_start :: i64
  fn_end :: i64
  fn_content :: i64

record FS =
  fs_meta :: metaAt
  fs_payload :: "readerAt option"
  fs_version :: nat
  fs_root :: fsNode

definition maxGoodbye :: u64 where "maxGoodbye = 64 * 2 ^ 20"

datatype fs_error =
    FsPx pxar_error
  | FsRoot
  | FsSpan bytes
  | FsTail bytes string
  | FsMalformed bytes
  | FsTooLarge bytes u64
  | FsTable bytes string
  | FsRange bytes
  | FsParent bytes
  | FsContent bytes
  | FsNotExist
  | FsNotDir
  | FsTooManyLinks
  | FsHardlink bytes bytes fs_error
  | FsHardlinkDir bytes
  | FsNested bytes
  | FsInvalid
  | FsNoPayload
  | FsPathError string bytes fs_error

definition node_type :: "fsNode \<Rightarrow> u64" where
  "node_type n = modeType (pe_Mode (pn_Entry (fn_Node n)))"

text \<open>The error text of a \<open>ReadAt\<close> that reports one.\<close>

fun rs_err :: "string rstat \<Rightarrow> string" where
  "rs_err (RErr e) = e"
| "rs_err REof = ''EOF''"
| "rs_err ROk = ''''"

text \<open>The bytes a reader over \<open>io.NewSectionReader(r, off, n)\<close> can see, and the error behind them.\<close>

definition section_in :: "metaAt \<Rightarrow> int \<Rightarrow> int \<Rightarrow> bytes \<times> string option" where
  "section_in m off n =
     (if n \<le> 0 then ([], None)
      else case m off (nat n) of (bs, st) \<Rightarrow> (bs, case st of RErr e \<Rightarrow> Some e | _ \<Rightarrow> None))"

subsection \<open>Opening an archive\<close>

definition fs_open :: "metaAt \<Rightarrow> i64 \<Rightarrow> readerAt option \<Rightarrow> nat \<Rightarrow> fs_error + FS" where
  "fs_open meta sz payload version =
     (case section_in meta 0 (sint sz) of (inp, ioerr) \<Rightarrow>
        (case px_Next (new_reader version inp ioerr None) of
           (r, Inl e) \<Rightarrow> Inl (FsPx e)
         | (r, Inr n) \<Rightarrow>
             (if modeType (pe_Mode (pn_Entry n)) \<noteq> ModeDir then Inl FsRoot
              else Inr \<lparr> fs_meta = meta, fs_payload = payload, fs_version = version,
                fs_root = \<lparr> fn_Node = n, fn_name = str ''.'', fn_start = 0, fn_end = sz, fn_content = 0 \<rparr> \<rparr>)))"

definition OpenV1 :: "metaAt \<Rightarrow> i64 \<Rightarrow> fs_error + FS" where
  "OpenV1 r sz = fs_open r sz None 1"

definition OpenV2 :: "metaAt \<Rightarrow> i64 \<Rightarrow> readerAt option \<Rightarrow> fs_error + FS" where
  "OpenV2 meta metaSize payload =
     (case (case payload of None \<Rightarrow> None | Some p \<Rightarrow> checkPayloadStart p) of
        Some e \<Rightarrow> Inl (FsPx e)
      | None \<Rightarrow> fs_open meta metaSize payload 2)"

subsection \<open>Directories\<close>

text \<open>An item of a goodbye table: hash, start offset, length.\<close>

type_synonym gitem = "u64 \<times> u64 \<times> u64"

function gb_loop :: "bytes \<Rightarrow> i64 \<Rightarrow> i64 \<Rightarrow> bytes \<Rightarrow> fs_error + gitem list" where
  "gb_loop path gbStart dstart table =
     (if table = [] then Inr []
      else
        (let hash = get64 table; off = get64 (drop 8 table); sz = get64 (drop 16 table); start = gbStart - off in
         if off = 0 \<or> off \<ge> gbStart - dstart \<or> sz = 0 \<or> sz > 2 ^ 62 then Inl (FsRange path)
         else
           (case gb_loop path gbStart dstart (drop 24 table) of
              Inl e \<Rightarrow> Inl e
            | Inr items \<Rightarrow> Inr ((hash, start, sz) # items))))"
  by pat_completeness auto
termination
  by (relation "measure (\<lambda>(p, g, d, t). length t)") auto

declare gb_loop.simps [simp del]

definition fs_goodbye :: "FS \<Rightarrow> fsNode \<Rightarrow> fs_error + (gitem list \<times> i64)" where
  "fs_goodbye f d =
     (let path = pn_Path (fn_Node d); span = fn_end d - fn_start d in
      if sint span < 16 + 24 then Inl (FsSpan path)
      else
        (case fs_meta f (sint (fn_end d - 24)) 24 of
           (tail, ROk) \<Rightarrow>
             (let len = get64 (drop 16 tail) in
              if get64 tail \<noteq> GoodbyeTailMarker \<or> len < HeaderSize + 24 \<or> (len - HeaderSize) mod 24 \<noteq> 0 \<or> len > span
              then Inl (FsMalformed path)
              else if len > maxGoodbye then Inl (FsTooLarge path len)
              else
                (let gbStart = fn_end d - len in
                 case fs_meta f (sint gbStart) (unat len) of
                   (table, ROk) \<Rightarrow>
                     (if get64 table \<noteq> TypeGoodbye \<or> get64 (drop 8 table) \<noteq> len then Inl (FsMalformed path)
                      else
                        (case gb_loop path gbStart (fn_start d) (take (unat len - 24 - 16) (drop 16 table)) of
                           Inl e \<Rightarrow> Inl e
                         | Inr items \<Rightarrow> Inr (sort_key (\<lambda>it. fst (snd it)) items, gbStart)))
                 | (table, st) \<Rightarrow> Inl (FsTable path (rs_err st))))
         | (tail, st) \<Rightarrow> Inl (FsTail path (rs_err st))))"

definition child_reader :: "FS \<Rightarrow> fsNode \<Rightarrow> i64 \<Rightarrow> i64 \<Rightarrow> Reader_px" where
  "child_reader f d start gbStart =
     (case section_in (fs_meta f) (sint start) (sint (gbStart - start)) of (inp, ioerr) \<Rightarrow>
        (new_reader (fs_version f) inp ioerr None)\<lparr> pr_started := True, pr_dirs := [pn_Path (fn_Node d)] \<rparr>)"

definition fs_child :: "FS \<Rightarrow> fsNode \<Rightarrow> gitem \<Rightarrow> i64 \<Rightarrow> fs_error + fsNode" where
  "fs_child f d item gbStart =
     (case item of (h, start, sz) \<Rightarrow>
        (case px_next (child_reader f d start gbStart) of
           (r, Inl e) \<Rightarrow> Inl (FsPx e)
         | (r, Inr n) \<Rightarrow>
             (let c = \<lparr> fn_Node = n, fn_name = slash_Base (pn_Path n), fn_start = 0, fn_end = 0, fn_content = 0 \<rparr> in
              if pn_Hardlink n then Inr c
              else if node_type c = ModeDir then
                (let c = c\<lparr> fn_start := start, fn_end := start + sz \<rparr> in
                 if sint (fn_end c) > sint gbStart then Inl (FsParent (pn_Path n)) else Inr c)
              else if node_type c = ModeRegular \<and> fs_version f = 1 then
                (let c = c\<lparr> fn_content := start + pr_pos r \<rparr> in
                 if sint (fn_content c + pn_Size n) > sint gbStart \<or> pn_Size n > 2 ^ 62 then Inl (FsContent (pn_Path n))
                 else Inr c)
              else Inr c)))"

fun find_child :: "FS \<Rightarrow> fsNode \<Rightarrow> i64 \<Rightarrow> bytes \<Rightarrow> u64 \<Rightarrow> gitem list \<Rightarrow> fs_error + fsNode" where
  "find_child f d gbStart name h [] = Inl FsNotExist"
| "find_child f d gbStart name h (it # its) =
     (if fst it \<noteq> h then find_child f d gbStart name h its
      else
        (case fs_child f d it gbStart of
           Inl e \<Rightarrow> Inl e
         | Inr c \<Rightarrow> (if fn_name c = name then Inr c else find_child f d gbStart name h its)))"

definition lookupChild :: "(bytes \<Rightarrow> u64) \<Rightarrow> FS \<Rightarrow> fsNode \<Rightarrow> bytes \<Rightarrow> fs_error + fsNode" where
  "lookupChild H f d name =
     (case fs_goodbye f d of
        Inl e \<Rightarrow> Inl e
      | Inr (items, gbStart) \<Rightarrow> find_child f d gbStart name (H name) items)"

subsection \<open>Paths\<close>

text \<open>
  The loop of \<open>resolve\<close>; \<open>hl\<close> is what happens to a hardlink.  A step without a symbolic link
  shortens the path, and at most 40 links are followed, which is why it ends.
\<close>

function fs_walk ::
  "(bytes \<Rightarrow> u64) \<Rightarrow> FS \<Rightarrow> (fsNode \<Rightarrow> fs_error + fsNode) \<Rightarrow> bool \<Rightarrow> fsNode \<Rightarrow> bytes \<Rightarrow> nat \<Rightarrow> fs_error + fsNode" where
  "fs_walk H f hl follow cur rest links =
     (if rest = [] then Inr cur
      else
        (case cut_slash rest of (name, after) \<Rightarrow>
           if node_type cur \<noteq> ModeDir then Inl FsNotDir
           else
             (case lookupChild H f cur name of
                Inl e \<Rightarrow> Inl e
              | Inr c0 \<Rightarrow>
                  (case (if pn_Hardlink (fn_Node c0) then hl c0 else Inr c0) of
                     Inl e \<Rightarrow> Inl e
                   | Inr c \<Rightarrow>
                       (if node_type c = ModeSymlink \<and> (after \<noteq> [] \<or> follow) then
                          (if links + 1 > 40 then Inl FsTooManyLinks
                           else
                             (let link = pn_LinkTarget (fn_Node c); target = slash_Join (pn_Path (fn_Node cur)) link in
                              if slash_IsAbs link \<or> target = str ''..'' \<or> has_prefix target (str ''../'') then Inl FsNotExist
                              else
                                (let target = (if target = str ''.'' then [] else target) in
                                 fs_walk H f hl follow (fs_root f)
                                   (if after \<noteq> [] then trim_prefix (target @ [slash] @ after) [slash] else target)
                                   (links + 1))))
                        else fs_walk H f hl follow c after links)))))"
  by pat_completeness auto
termination
proof (relation "measures [\<lambda>(H, f, hl, fo, cur, rest, links). 40 - links, \<lambda>(H, f, hl, fo, cur, rest, links). length rest]", goal_cases)
  case (3 H f hl follow cur rest links name after c0 c)
  then have "length after < length rest"
    by (cases rest) (auto simp: cut_slash_def dropWhile_eq_drop split: if_splits)
  then show ?case by simp
qed auto

declare fs_walk.simps [simp del]

definition walk_from_root ::
  "(bytes \<Rightarrow> u64) \<Rightarrow> FS \<Rightarrow> (fsNode \<Rightarrow> fs_error + fsNode) \<Rightarrow> bool \<Rightarrow> bytes \<Rightarrow> fs_error + fsNode" where
  "walk_from_root H f hl follow name =
     fs_walk H f hl follow (fs_root f) (if name = str ''.'' then [] else name) 0"

text \<open>\<open>resolve\<close> with \<open>nested\<close> set, where a hardlink is an error, and the two mutually recursive functions.\<close>

definition resolve_nested :: "(bytes \<Rightarrow> u64) \<Rightarrow> FS \<Rightarrow> bytes \<Rightarrow> fs_error + fsNode" where
  "resolve_nested H f name = walk_from_root H f (\<lambda>c. Inl (FsNested (pn_Path (fn_Node c)))) False name"

definition resolveHardlink :: "(bytes \<Rightarrow> u64) \<Rightarrow> FS \<Rightarrow> fsNode \<Rightarrow> fs_error + fsNode" where
  "resolveHardlink H f c =
     (if \<not> pn_Hardlink (fn_Node c) then Inr c
      else
        (case resolve_nested H f (pn_LinkTarget (fn_Node c)) of
           Inl e \<Rightarrow> Inl (FsHardlink (pn_Path (fn_Node c)) (pn_LinkTarget (fn_Node c)) e)
         | Inr t \<Rightarrow>
             (if node_type t = ModeDir then Inl (FsHardlinkDir (pn_Path (fn_Node c)))
              else Inr \<lparr> fn_Node = fn_Node t, fn_name = fn_name c, fn_start = 0, fn_end = 0, fn_content = fn_content t \<rparr>)))"

definition fs_resolve :: "(bytes \<Rightarrow> u64) \<Rightarrow> FS \<Rightarrow> bytes \<Rightarrow> bool \<Rightarrow> fs_error + fsNode" where
  "fs_resolve H f name follow = walk_from_root H f (resolveHardlink H f) follow name"

definition fs_lookup :: "(bytes \<Rightarrow> u64) \<Rightarrow> FS \<Rightarrow> string \<Rightarrow> bytes \<Rightarrow> bool \<Rightarrow> fs_error + fsNode" where
  "fs_lookup H f op name follow =
     (if \<not> fs_ValidPath name then Inl (FsPathError op name FsInvalid)
      else
        (case fs_resolve H f name follow of
           Inl e \<Rightarrow> Inl (FsPathError op name e)
         | Inr n \<Rightarrow> Inr (if name \<noteq> str ''.'' then n\<lparr> fn_name := slash_Base name \<rparr> else n)))"

subsection \<open>Operations\<close>

text \<open>An open file is a section of the metadata or the payload stream, or an empty one without a source.\<close>

datatype fsource = NoSource | FromMeta | FromPayload

record fsFile =
  ff_n :: fsNode
  ff_src :: fsource
  ff_base :: i64
  ff_size :: i64
  ff_off :: i64

record dirFile =
  df_n :: fsNode
  df_entries :: "fsNode list"
  df_loaded :: bool

definition new_dirFile :: "fsNode \<Rightarrow> dirFile" where
  "new_dirFile n = \<lparr> df_n = n, df_entries = [], df_loaded = False \<rparr>"

datatype opened = OpenedDir dirFile | OpenedFile fsFile

definition fs_Open :: "(bytes \<Rightarrow> u64) \<Rightarrow> FS \<Rightarrow> bytes \<Rightarrow> fs_error + opened" where
  "fs_Open H f name =
     (case fs_lookup H f ''open'' name True of
        Inl e \<Rightarrow> Inl e
      | Inr n \<Rightarrow>
          (if node_type n = ModeDir then Inr (OpenedDir (new_dirFile n))
           else if node_type n = ModeRegular then
             (if fs_version f = 2 then
                (case fs_payload f of
                   None \<Rightarrow> Inl (FsPathError ''open'' name FsNoPayload)
                 | Some p \<Rightarrow>
                     (case checkPayloadRecord p (fn_Node n) of
                        Some e \<Rightarrow> Inl (FsPathError ''open'' name (FsPx e))
                      | None \<Rightarrow> Inr (OpenedFile \<lparr> ff_n = n, ff_src = FromPayload,
                          ff_base = pn_PayloadOffset (fn_Node n) + HeaderSize, ff_size = pn_Size (fn_Node n), ff_off = 0 \<rparr>)))
              else Inr (OpenedFile \<lparr> ff_n = n, ff_src = FromMeta, ff_base = fn_content n, ff_size = pn_Size (fn_Node n), ff_off = 0 \<rparr>))
           else Inr (OpenedFile \<lparr> ff_n = n, ff_src = NoSource, ff_base = 0, ff_size = 0, ff_off = 0 \<rparr>)))"

definition fs_Stat :: "(bytes \<Rightarrow> u64) \<Rightarrow> FS \<Rightarrow> bytes \<Rightarrow> fs_error + fsNode" where
  "fs_Stat H f name = fs_lookup H f ''stat'' name True"

definition fs_Lstat :: "(bytes \<Rightarrow> u64) \<Rightarrow> FS \<Rightarrow> bytes \<Rightarrow> fs_error + fsNode" where
  "fs_Lstat H f name = fs_lookup H f ''lstat'' name False"

definition fs_ReadLink :: "(bytes \<Rightarrow> u64) \<Rightarrow> FS \<Rightarrow> bytes \<Rightarrow> fs_error + bytes" where
  "fs_ReadLink H f name =
     (case fs_lookup H f ''readlink'' name False of
        Inl e \<Rightarrow> Inl e
      | Inr n \<Rightarrow>
          (if node_type n \<noteq> ModeSymlink then Inl (FsPathError ''readlink'' name FsInvalid)
           else Inr (pn_LinkTarget (fn_Node n))))"

text \<open>
  The entries of a directory: every child decoded, hardlinks resolved.  When a child fails, the entries
  before it have been appended already and stay in the open directory.
\<close>

fun load_entries :: "(bytes \<Rightarrow> u64) \<Rightarrow> FS \<Rightarrow> fsNode \<Rightarrow> i64 \<Rightarrow> gitem list \<Rightarrow> fsNode list \<times> fs_error option" where
  "load_entries H f d gbStart [] = ([], None)"
| "load_entries H f d gbStart (it # its) =
     (case (case fs_child f d it gbStart of Inl e \<Rightarrow> Inl e | Inr c \<Rightarrow> resolveHardlink H f c) of
        Inl e \<Rightarrow> ([], Some e)
      | Inr c \<Rightarrow> (case load_entries H f d gbStart its of (cs, e) \<Rightarrow> (c # cs, e)))"

definition dir_load :: "(bytes \<Rightarrow> u64) \<Rightarrow> FS \<Rightarrow> dirFile \<Rightarrow> dirFile \<times> fs_error option" where
  "dir_load H f d =
     (if df_loaded d then (d, None)
      else
        (case fs_goodbye f (df_n d) of
           Inl e \<Rightarrow> (d, Some e)
         | Inr (items, gbStart) \<Rightarrow>
             (case load_entries H f (df_n d) gbStart items of
                (cs, Some e) \<Rightarrow> (d\<lparr> df_entries := df_entries d @ cs \<rparr>, Some e)
              | (cs, None) \<Rightarrow> (d\<lparr> df_entries := sort_key fn_name (df_entries d @ cs), df_loaded := True \<rparr>, None))))"

datatype dir_error = DirEOF | DirError fs_error

definition dir_ReadDir :: "(bytes \<Rightarrow> u64) \<Rightarrow> FS \<Rightarrow> dirFile \<Rightarrow> int \<Rightarrow> dirFile \<times> (dir_error + fsNode list)" where
  "dir_ReadDir H f d n =
     (case dir_load H f d of
        (d, Some e) \<Rightarrow> (d, Inl (DirError e))
      | (d, None) \<Rightarrow>
          (if n \<le> 0 then (d\<lparr> df_entries := [] \<rparr>, Inr (df_entries d))
           else if df_entries d = [] then (d, Inl DirEOF)
           else
             (let k = min (nat n) (length (df_entries d)) in
              (d\<lparr> df_entries := drop k (df_entries d) \<rparr>, Inr (take k (df_entries d))))))"

definition fs_ReadDir :: "(bytes \<Rightarrow> u64) \<Rightarrow> FS \<Rightarrow> bytes \<Rightarrow> dir_error + fsNode list" where
  "fs_ReadDir H f name =
     (case fs_lookup H f ''readdir'' name True of
        Inl e \<Rightarrow> Inl (DirError e)
      | Inr n \<Rightarrow> snd (dir_ReadDir H f (new_dirFile n) (-1)))"

text \<open>
  Reading an open file: \<open>io.SectionReader\<close> over the source, and \<open>short\<close>, which turns an end of the
  source before the end of the section into an error.  An archive without a payload stream has no file
  open on it, so a source that is absent reads as empty.
\<close>

datatype file_error = FileEOF | FileUnexpectedEOF | FileError string

fun file_status :: "string rstat \<Rightarrow> file_error option" where
  "file_status ROk = None"
| "file_status REof = Some FileEOF"
| "file_status (RErr e) = Some (FileError e)"

definition source_at :: "FS \<Rightarrow> fsource \<Rightarrow> int \<Rightarrow> nat \<Rightarrow> bytes \<times> string rstat" where
  "source_at f src off n =
     (case src of
        NoSource \<Rightarrow> ([], REof)
      | FromMeta \<Rightarrow> fs_meta f off n
      | FromPayload \<Rightarrow> (case fs_payload f of None \<Rightarrow> ([], REof) | Some p \<Rightarrow> p (nat off) n))"

definition short_err :: "file_error option \<Rightarrow> int \<Rightarrow> int \<Rightarrow> file_error option" where
  "short_err err reached want = (if err = Some FileEOF \<and> reached < want then Some FileUnexpectedEOF else err)"

definition file_Read :: "FS \<Rightarrow> fsFile \<Rightarrow> nat \<Rightarrow> fsFile \<times> bytes \<times> file_error option" where
  "file_Read f h want =
     (if sint (ff_off h) \<ge> sint (ff_size h) then (h, [], short_err (Some FileEOF) (sint (ff_off h)) (sint (ff_size h)))
      else
        (let n = min want (nat (sint (ff_size h) - sint (ff_off h))) in
         case source_at f (ff_src h) (sint (ff_base h) + sint (ff_off h)) n of
           (bs, st) \<Rightarrow>
             (let h' = h\<lparr> ff_off := ff_off h + len64 bs \<rparr> in
              (h', bs, short_err (file_status st) (sint (ff_off h')) (sint (ff_size h))))))"

definition file_ReadAt :: "FS \<Rightarrow> fsFile \<Rightarrow> nat \<Rightarrow> i64 \<Rightarrow> bytes \<times> file_error option" where
  "file_ReadAt f h want off =
     (let lim = min (sint off + int want) (sint (ff_size h)) in
      if sint off < 0 \<or> sint off \<ge> sint (ff_size h) then ([], short_err (Some FileEOF) (sint off) lim)
      else
        (let room = sint (ff_size h) - sint off; cut = int want > room;
             n = (if cut then nat room else want)
         in case source_at f (ff_src h) (sint (ff_base h) + sint off) n of
              (bs, st) \<Rightarrow>
                (bs, short_err (if cut \<and> st = ROk then Some FileEOF else file_status st) (sint off + int (length bs)) lim)))"

subsection \<open>File information\<close>

definition info_Size :: "fsNode \<Rightarrow> int" where "info_Size n = sint (pn_Size (fn_Node n))"
definition info_IsDir :: "fsNode \<Rightarrow> bool" where "info_IsDir n \<longleftrightarrow> node_type n = ModeDir"

text \<open>The bits of \<open>fs.FileMode\<close>.\<close>

definition ModeDir_fs :: u32 where "ModeDir_fs = 2 ^ 31"
definition ModeSymlink_fs :: u32 where "ModeSymlink_fs = 2 ^ 27"
definition ModeDevice_fs :: u32 where "ModeDevice_fs = 2 ^ 26"
definition ModeNamedPipe_fs :: u32 where "ModeNamedPipe_fs = 2 ^ 25"
definition ModeSocket_fs :: u32 where "ModeSocket_fs = 2 ^ 24"
definition ModeSetuid_fs :: u32 where "ModeSetuid_fs = 2 ^ 23"
definition ModeSetgid_fs :: u32 where "ModeSetgid_fs = 2 ^ 22"
definition ModeCharDevice_fs :: u32 where "ModeCharDevice_fs = 2 ^ 21"
definition ModeSticky_fs :: u32 where "ModeSticky_fs = 2 ^ 20"

definition FileMode :: "u64 \<Rightarrow> u32" where
  "FileMode mode =
     (let m = ucast (mode AND 0x1FF);
          m = (if mode AND 0x800 \<noteq> 0 then m OR ModeSetuid_fs else m);
          m = (if mode AND 0x400 \<noteq> 0 then m OR ModeSetgid_fs else m);
          m = (if mode AND 0x200 \<noteq> 0 then m OR ModeSticky_fs else m);
          t = modeType mode
      in if t = ModeDir then m OR ModeDir_fs
         else if t = ModeSymlink then m OR ModeSymlink_fs
         else if t = ModeBlockDev then m OR ModeDevice_fs
         else if t = ModeCharDev then m OR ModeDevice_fs OR ModeCharDevice_fs
         else if t = ModeFifo then m OR ModeNamedPipe_fs
         else if t = ModeSocket then m OR ModeSocket_fs
         else m)"

end
