(* ===== verification/Fs_Safe.thy ===== *)
theory Fs_Safe
  imports Fs_View
begin

unbundle bit_operations_syntax

text \<open>
  What holds of the file system view on any bytes, emitted or hostile.  The reader's position is where
  its input stands, so the content offset of a v1 file is right whenever the file decodes; and the
  span of a directory lies strictly inside the span of its parent, so no archive can make a walk
  through directories run forever.
\<close>

subsection \<open>The reader's position\<close>

text \<open>The input of the reader is \<open>inp\<close> from the position on, behind the header of a peeked record.\<close>

definition px_at :: "bytes \<Rightarrow> Reader_px \<Rightarrow> bool" where
  "px_at inp r \<longleftrightarrow> (\<exists>k \<le> length inp. pr_in r = drop k inp \<and> pr_pos r + (if pr_have r then 16 else 0) = of_nat k)"

lemma px_at_upd [simp]:
  "px_at inp (r\<lparr> pr_dirs := ds \<rparr>) = px_at inp r" "px_at inp (r\<lparr> pr_content := c \<rparr>) = px_at inp r"
  "px_at inp (r\<lparr> pr_left := l \<rparr>) = px_at inp r" "px_at inp (r\<lparr> pr_inline := i \<rparr>) = px_at inp r"
  "px_at inp (r\<lparr> pr_version := v \<rparr>) = px_at inp r" "px_at inp (r\<lparr> pr_checked := b \<rparr>) = px_at inp r"
  "px_at inp (r\<lparr> pr_started := b \<rparr>) = px_at inp r" "px_at inp (r\<lparr> pr_typ := t \<rparr>) = px_at inp r"
  "px_at inp (r\<lparr> pr_length := l \<rparr>) = px_at inp r"
  by (simp_all add: px_at_def)

lemma px_at_advance:
  assumes "px_at inp r" "n \<le> length (pr_in r)" "pr_in r' = drop n (pr_in r)"
    and "pr_pos r' + (if pr_have r' then 16 else 0) = pr_pos r + (if pr_have r then 16 else 0) + of_nat n"
  shows "px_at inp r'"
proof -
  obtain k where k: "k \<le> length inp" "pr_in r = drop k inp" "pr_pos r + (if pr_have r then 16 else 0) = of_nat k"
    using assms(1) unfolding px_at_def by blast
  have "pr_pos r' + (if pr_have r' then 16 else 0) = of_nat (n + k)"
    unfolding assms(4) k(3) by (simp add: ac_simps)
  then show ?thesis unfolding px_at_def
    using assms(2,3) k(1,2) by (intro exI [of _ "n + k"]) simp
qed

lemma peek_at:
  assumes "px_at inp r" "px_peek r = (r', Inr x)"
  shows "px_at inp r'" "pr_have r'" "pr_version r' = pr_version r"
proof -
  have c: "pr_have r \<and> r' = r \<or> \<not> pr_have r \<and> 16 \<le> length (pr_in r) \<and> pr_in r' = drop 16 (pr_in r) \<and>
      pr_have r' \<and> pr_pos r' = pr_pos r \<and> pr_version r' = pr_version r"
    using assms(2) by (cases "pr_have r"; cases "16 \<le> length (pr_in r)")
      (auto simp: px_peek_def in_full_def Let_def split: if_splits option.splits)
  then show "px_at inp r'" using px_at_advance [OF assms(1), of 16 r'] assms(1) by auto
  show "pr_have r'" "pr_version r' = pr_version r" using c by auto
qed

lemma body_at:
  assumes "px_at inp r" "pr_have r" "px_body r len = (r', Inr b)"
  shows "px_at inp r'" "\<not> pr_have r'" "pr_version r' = pr_version r"
  using assms px_at_advance [OF assms(1), of "unat (len - HeaderSize)" r']
  by (auto simp: px_body_def in_full_def HeaderSize_def Let_def split: if_splits option.splits)

lemma skip_at:
  assumes "px_at inp r" "pr_have r" "px_skip r len = (r', Inr u)"
  shows "px_at inp r'" "\<not> pr_have r'" "pr_version r' = pr_version r"
  using assms px_at_advance [OF assms(1), of "unat (len - HeaderSize)" r']
  by (auto simp: px_skip_def HeaderSize_def Let_def split: if_splits)

lemma px_bind_ok:
  assumes "px_bind m f = (r', Inr y)"
  obtains r1 x where "m = (r1, Inr x)" "f r1 x = (r', Inr y)"
  using assms by (cases m; cases "snd m") auto

lemma metadata_at:
  "px_metadata r n = (r', Inr (n', t, l)) \<Longrightarrow> px_at inp r \<Longrightarrow>
     px_at inp r' \<and> pr_have r' \<and> pr_version r' = pr_version r \<and> pn_Hardlink n' = pn_Hardlink n"
proof (induction r n rule: px_metadata.induct)
  case (1 r n)
  obtain r1 tl where "px_peek r = (r1, Inr tl)"
    by (rule px_bind_ok [OF 1(2) [unfolded px_metadata.simps [of r]]])
  then obtain ty ln where pk: "px_peek r = (r1, Inr (ty, ln))" by (cases tl) simp
  note p = peek_at [OF 1(3) pk]
  show ?case
  proof (cases "metadataRecord ty")
    case None
    then show ?thesis using 1(2) p unfolding px_metadata.simps [of r] pk by auto
  next
    case (Some want)
    then obtain r2 b n2 where b: "px_body r1 ln = (r2, Inr b)" "px_metadata r2 n2 = (r', Inr (n', t, l))"
        "\<not> (want \<noteq> 0 \<and> ln \<noteq> want)" "meta_field (px_keep r2 n ty b) ty b = Inr n2"
      using 1(2) unfolding px_metadata.simps [of r] pk
      by (auto split: if_splits sum.splits elim!: px_bind_ok)
    note b2 = body_at [OF p(1,2) b(1)]
    have "pn_Hardlink n2 = pn_Hardlink n"
      using b(4) by (auto simp: meta_field_def px_keep_def Let_def split: if_splits)
    then show ?thesis
      using 1(1) [OF pk [symmetric] refl refl Some b(3) b(1) [symmetric] refl b(4) b(2) b2(1)] b2(3) p(3) by simp
  qed
qed

text \<open>What an entry leaves behind: the position, and for a v1 regular file the content at the position.\<close>

definition at_content :: "Reader_px \<Rightarrow> PNode \<Rightarrow> bool" where
  "at_content r n \<longleftrightarrow> (\<not> pn_Hardlink n \<and> modeType (pe_Mode (pn_Entry n)) = ModeRegular \<and> pr_version r = 1 \<longrightarrow>
     \<not> pr_have r \<and> pr_content r = Inline \<and> pr_inline r \<and> pr_left r = pn_Size n)"

lemma kind_at:
  assumes "px_kind r n ty ln = (r', Inr n')" "px_at inp r" "pr_have r" "\<not> pn_Hardlink n"
  shows "px_at inp r' \<and> at_content r' n' \<and> pr_version r' = pr_version r"
proof -
  let ?m = "modeType (pe_Mode (pn_Entry n))"
  have body: "px_at inp r1 \<and> pr_version r1 = pr_version r" if "px_body r ln = (r1, Inr b)" for r1 b
    using body_at [OF assms(2,3) that] by simp
  have ne: "ModeSymlink \<noteq> ModeRegular" "ModeBlockDev \<noteq> ModeRegular" "ModeCharDev \<noteq> ModeRegular" "ModeDir \<noteq> ModeRegular"
    by (simp_all add: mode_defs)
  consider "?m = ModeDir" | "?m = ModeRegular" | "?m = ModeSymlink" | "?m = ModeBlockDev \<or> ?m = ModeCharDev"
    | "?m \<notin> {ModeDir, ModeRegular, ModeSymlink, ModeBlockDev, ModeCharDev}" by blast
  then show ?thesis
  proof cases
    case 1
    then show ?thesis using assms(1,2) by (auto simp: px_kind_def at_content_def ne split: if_splits)
  next
    case 2
    then have pr: "px_payloadRecord r n ty ln = (r', Inr n')"
      using assms(1) by (simp add: px_kind_def mode_defs Let_def)
    show ?thesis
    proof (cases "pr_version r = 1 \<and> ty = TypePayload")
      case True
      then show ?thesis using pr assms(2,3) px_at_advance [OF assms(2), of 0 r']
        by (auto simp: px_payloadRecord_def at_content_def HeaderSize_def Let_def)
    next
      case False
      then obtain r1 b where b: "pr_version r = 2" "px_body r ln = (r1, Inr b)" "px_at inp r' = px_at inp r1"
          "pr_version r' = pr_version r1"
        using pr by (auto simp: px_payloadRecord_def Let_def split: if_splits option.splits elim!: px_bind_ok)
      then show ?thesis using body [OF b(2)] by (simp add: at_content_def)
    qed
  next
    case 3
    then have "px_symlink r n ty ln = (r', Inr n')"
      using assms(1) by (simp add: px_kind_def mode_defs Let_def)
    then show ?thesis using body 3
      by (auto simp: px_symlink_def at_content_def ne split: if_splits sum.splits elim!: px_bind_ok)
  next
    case 4
    then have "px_device r n ty ln = (r', Inr n')"
      using assms(1) by (auto simp: px_kind_def mode_defs Let_def)
    then show ?thesis using body 4
      by (auto simp: px_device_def at_content_def ne split: if_splits elim!: px_bind_ok)
  next
    case 5
    then show ?thesis using assms(1,2) by (auto simp: px_kind_def at_content_def Let_def split: if_splits)
  qed
qed

lemma node_at:
  assumes "px_node r path = (r', Inr n)" "px_at inp r"
  shows "px_at inp r' \<and> at_content r' n \<and> pr_version r' = pr_version r"
proof -
  obtain r1 tl where "px_peek r = (r1, Inr tl)"
    by (rule px_bind_ok [OF assms(1) [unfolded px_node_def]])
  then obtain ty ln where pk: "px_peek r = (r1, Inr (ty, ln))" by (cases tl) simp
  note p = peek_at [OF assms(2) pk]
  note nd = assms(1) [unfolded px_node_def pk, simplified]
  show ?thesis
  proof (cases "ty = TypeHardlink_px \<and> path \<noteq> []")
    case True
    then obtain r2 b where b: "px_body r1 ln = (r2, Inr b)" "r' = r2" "pn_Hardlink n"
      using nd by (auto simp: px_hardlink_def split: if_splits sum.splits option.splits elim!: px_bind_ok)
    then show ?thesis using body_at(1,3) [OF p(1,2) b(1)] p(3) by (simp add: at_content_def)
  next
    case False
    obtain r2 b where b: "px_body r1 ln = (r2, Inr b)"
        "px_bind (px_metadata r2 (px_keep r2 ((new_node path)\<lparr> pn_Entry := entry_of b \<rparr>) TypeEntry b))
           (\<lambda>r ntl. case ntl of (n, typ, len) \<Rightarrow> px_kind r n typ len) = (r', Inr n)"
      using nd False by (auto split: if_splits elim!: px_bind_ok)
    obtain r3 ntl where "px_metadata r2 (px_keep r2 ((new_node path)\<lparr> pn_Entry := entry_of b \<rparr>) TypeEntry b) = (r3, Inr ntl)"
      by (rule px_bind_ok [OF b(2)])
    then obtain n3 t3 l3 where m: "px_metadata r2 (px_keep r2 ((new_node path)\<lparr> pn_Entry := entry_of b \<rparr>) TypeEntry b) = (r3, Inr (n3, t3, l3))"
      by (cases ntl) auto
    note ma = metadata_at [OF m body_at(1) [OF p(1,2) b(1)]]
    then have "\<not> pn_Hardlink n3" by (simp add: px_keep_def new_node_def)
    then show ?thesis using kind_at [of r3 n3 t3 l3 r' n inp] b(2) m ma body_at(3) [OF p(1,2) b(1)] p(3) by simp
  qed
qed

lemma loop_at:
  "px_loop r ds = (r', Inr n) \<Longrightarrow> px_at inp r \<Longrightarrow>
     px_at inp r' \<and> at_content r' n \<and> pr_version r' = pr_version r"
proof (induction ds arbitrary: r)
  case Nil
  then show ?case by (auto split: if_splits option.splits)
next
  case (Cons d ds)
  obtain r1 tl where "px_peek r = (r1, Inr tl)"
    by (rule px_bind_ok [OF Cons.prems(1) [unfolded px_loop.simps]])
  then obtain ty ln where pk: "px_peek r = (r1, Inr (ty, ln))" by (cases tl) simp
  note p = peek_at [OF Cons.prems(2) pk]
  note lp = Cons.prems(1) [unfolded px_loop.simps pk, simplified]
  show ?case
  proof (cases "ty = TypeGoodbye")
    case True
    then obtain r2 where r2: "px_skip r1 ln = (r2, Inr ())" "px_loop (r2\<lparr> pr_dirs := ds \<rparr>) ds = (r', Inr n)"
      using lp by (auto elim!: px_bind_ok)
    then show ?thesis using Cons.IH [OF r2(2)] skip_at(1,3) [OF p(1,2) r2(1)] p(3) by simp
  next
    case False
    then obtain r2 b nm where r2: "px_body r1 ln = (r2, Inr b)" "px_node r2 (joinArchive d nm) = (r', Inr n)"
      using lp by (auto split: if_splits sum.splits option.splits elim!: px_bind_ok)
    then show ?thesis using node_at [OF r2(2)] body_at(1,3) [OF p(1,2) r2(1)] p(3) by simp
  qed
qed

subsection \<open>Spans\<close>

lemma gb_loop_range:
  "gb_loop path gb ds table = Inr items \<Longrightarrow> (h, start, sz) \<in> set items \<Longrightarrow>
     \<exists>off. start = gb - off \<and> off \<noteq> 0 \<and> off < gb - ds \<and> sz \<noteq> 0 \<and> sz \<le> 2 ^ 62"
proof (induction path gb ds table arbitrary: items rule: gb_loop.induct)
  case (1 path gb ds table)
  show ?case
  proof (cases "table = []")
    case True
    then show ?thesis using 1(2,3) by (simp add: gb_loop.simps)
  next
    case False
    let ?off = "get64 (drop 8 table)" and ?sz = "get64 (drop 16 table)"
    have ok: "\<not> (?off = 0 \<or> ?off \<ge> gb - ds \<or> ?sz = 0 \<or> ?sz > 2 ^ 62)"
      using 1(2) False by (auto simp: gb_loop.simps [of _ _ _ table] Let_def split: if_splits)
    then obtain its where its: "gb_loop path gb ds (drop 24 table) = Inr its" "items = (get64 table, gb - ?off, ?sz) # its"
      using 1(2) False by (auto simp: gb_loop.simps [of _ _ _ table] Let_def split: sum.splits)
    show ?thesis
      using 1(1) [OF False refl refl refl refl ok its(1)] 1(3) ok unfolding its(2) by auto
  qed
qed

text \<open>A span of the file: offsets that do not reach half of the range of an \<open>int64\<close>.\<close>

definition span_ok :: "fsNode \<Rightarrow> bool" where
  "span_ok d \<longleftrightarrow> 0 \<le> sint (fn_start d) \<and> sint (fn_start d) \<le> sint (fn_end d) \<and> sint (fn_end d) < 2 ^ 62"

lemma goodbye_range:
  assumes "fs_goodbye f d = Inr (items, gb)" "span_ok d"
  shows "\<exists>s g e. fn_start d = of_nat s \<and> gb = of_nat g \<and> fn_end d = of_nat e \<and> s \<le> g \<and> g + 40 \<le> e \<and> e < 2 ^ 62 \<and>
    (\<forall>(h, start, sz) \<in> set items. \<exists>c l. start = of_nat c \<and> sz = of_nat l \<and> s < c \<and> c < g \<and> 0 < l \<and> l \<le> 2 ^ 62)"
proof -
  define s e where "s = unat (fn_start d)" and "e = unat (fn_end d)"
  have n: "0 \<le> sint (fn_start d)" "0 \<le> sint (fn_end d)" using assms(2) by (auto simp: span_ok_def)
  have si: "sint (fn_start d) = int s" "sint (fn_end d) = int e"
    unfolding s_def e_def by (rule nonneg_word(2) [OF n(1)], rule nonneg_word(2) [OF n(2)])
  have se: "fn_start d = of_nat s" "fn_end d = of_nat e" "s \<le> e" "e < 2 ^ 62"
  proof -
    show "fn_start d = of_nat s" "fn_end d = of_nat e" by (simp_all add: s_def e_def)
    show "s \<le> e" "e < 2 ^ 62" using assms(2) unfolding span_ok_def si by simp_all
  qed
  have sp: "fn_end d - fn_start d = of_nat (e - s)" using se by (simp add: of_nat_diff)
  have "unat (of_nat (e - s) :: u64) = e - s" using se(4) by (intro u64_small) simp
  note usp = this
  from assms(1) obtain tail table len its where g:
      "\<not> sint (fn_end d - fn_start d) < 16 + 24" "\<not> len < HeaderSize + 24" "\<not> len > fn_end d - fn_start d"
      "gb = fn_end d - len" "gb_loop (pn_Path (fn_Node d)) gb (fn_start d) table = Inr its"
      "items = sort_key (\<lambda>it. fst (snd it)) its"
    unfolding fs_goodbye_def Let_def by (auto split: if_splits prod.splits rstat.splits sum.splits)
  have len: "40 \<le> unat len" "unat len \<le> e - s"
    using g(2,3) unfolding sp by (simp_all add: HeaderSize_def word_less_nat_alt usp)
  define gn where "gn = e - unat len"
  have gb: "gb = of_nat gn" unfolding g(4) se(2) gn_def using len by (simp add: of_nat_diff)
  have gs: "gb - fn_start d = of_nat (gn - s)" unfolding gb se(1) gn_def using len by (simp add: of_nat_diff)
  have ugs: "unat (of_nat (gn - s) :: u64) = gn - s" using se(4) by (intro u64_small) (simp add: gn_def)
  have its: "\<exists>c l. start = of_nat c \<and> sz = of_nat l \<and> s < c \<and> c < gn \<and> 0 < l \<and> l \<le> 2 ^ 62"
    if m: "(h, start, sz) \<in> set its" for h start sz
  proof -
    obtain off where o: "start = gb - off" "off \<noteq> 0" "off < gb - fn_start d" "sz \<noteq> 0" "sz \<le> 2 ^ 62"
      using gb_loop_range [OF g(5) m] by blast
    have off: "0 < unat off" "unat off < gn - s"
      using o(2,3) unfolding gs by (simp_all add: word_less_nat_alt ugs unat_gt_0)
    have "start = of_nat (gn - unat off)" unfolding o(1) gb using off by (simp add: of_nat_diff)
    moreover have "0 < unat sz" "unat sz \<le> 2 ^ 62" using o(4,5) by (simp_all add: word_le_nat_alt unat_gt_0)
    ultimately show ?thesis using off
      by (intro exI [of _ "gn - unat off"] exI [of _ "unat sz"]) auto
  qed
  show ?thesis
    by (intro exI [of _ s] exI [of _ gn] exI [of _ e]) (use se gb len its g(6) in \<open>auto simp: gn_def\<close>)
qed

lemma child_inside:
  assumes "fs_goodbye f d = Inr (items, gb)" "span_ok d" "it \<in> set items" "fs_child f d it gb = Inr c"
    and "\<not> pn_Hardlink (fn_Node c)" "node_type c = ModeDir"
  shows "span_ok c" "sint (fn_start d) < sint (fn_start c)" "sint (fn_end c) + 40 \<le> sint (fn_end d)"
proof -
  obtain s g e where r: "fn_start d = of_nat s" "gb = of_nat g" "fn_end d = of_nat e" "s \<le> g" "g + 40 \<le> e" "e < 2 ^ 62"
      "\<forall>(h, start, sz) \<in> set items. \<exists>c l. start = of_nat c \<and> sz = of_nat l \<and> s < c \<and> c < g \<and> 0 < l \<and> l \<le> 2 ^ 62"
    using goodbye_range [OF assms(1,2)] by (elim exE conjE) (rule that)
  obtain h start sz where it: "it = (h, start, sz)" by (cases it) auto
  obtain cn l where cl: "start = of_nat cn" "sz = of_nat l" "s < cn" "cn < g" "0 < l" "l \<le> 2 ^ 62"
    using r(7) assms(3) unfolding it by blast
  have c: "fn_start c = start" "fn_end c = start + sz" "\<not> sint (fn_end c) > sint gb"
    using assms(4-6) unfolding it fs_child_def
    by (auto simp: node_type_def Let_def split: prod.splits sum.splits if_splits)
  have small: "cn + l < 2 ^ 63" "g < 2 ^ 63" "s < 2 ^ 63" "e < 2 ^ 63" "cn < 2 ^ 63" using cl r by auto
  have "fn_end c = of_nat (cn + l)" unfolding c(2) cl(1,2) by simp
  then have "cn + l \<le> g" using c(3) unfolding r(2) by (simp add: sint_of_nat63 [OF small(1)] sint_of_nat63 [OF small(2)] del: of_nat_add)
  then show "span_ok c" "sint (fn_start d) < sint (fn_start c)" "sint (fn_end c) + 40 \<le> sint (fn_end d)"
    using r cl small \<open>fn_end c = of_nat (cn + l)\<close> unfolding span_ok_def c(1) cl(1) r(1,3)
    by (simp_all add: sint_of_nat63 del: of_nat_add)
qed

text \<open>A descent: each node is a directory that the directory before it lists.\<close>

fun descends :: "FS \<Rightarrow> fsNode \<Rightarrow> fsNode list \<Rightarrow> bool" where
  "descends f d [] \<longleftrightarrow> True"
| "descends f d (c # cs) \<longleftrightarrow>
     (case fs_goodbye f d of
        Inl e \<Rightarrow> False
      | Inr (items, gb) \<Rightarrow> (\<exists>it \<in> set items. fs_child f d it gb = Inr c)) \<and>
     \<not> pn_Hardlink (fn_Node c) \<and> node_type c = ModeDir \<and> descends f c cs"

lemma descends_bounded:
  "descends f d cs \<Longrightarrow> span_ok d \<Longrightarrow> 41 * int (length cs) \<le> sint (fn_end d) - sint (fn_start d)"
proof (induction cs arbitrary: d)
  case Nil
  then show ?case by (simp add: span_ok_def)
next
  case (Cons c cs)
  then obtain items gb it where c: "fs_goodbye f d = Inr (items, gb)" "it \<in> set items" "fs_child f d it gb = Inr c"
      "\<not> pn_Hardlink (fn_Node c)" "node_type c = ModeDir" "descends f c cs"
    by (auto split: sum.splits prod.splits)
  note i = child_inside [OF c(1) Cons.prems(2) c(2-5)]
  show ?case using Cons.IH [OF c(6) i(1)] i(2,3) by simp
qed

end
