(* ===== verification/Fs_Tree.thy ===== *)
theory Fs_Tree
  imports Roundtrip Fs_Safe
begin

unbundle bit_operations_syntax

text \<open>
  The file system view of an emitted archive shows the tree that was emitted.  The goodbye tables the
  emitter writes are the tables \<open>goodbye\<close> accepts, sorted back into archive order; \<open>child\<close> decodes
  the entry each item points to; \<open>lookupChild\<close> finds every child by its name, also among
  equal hashes, and nothing else; so a path leads to the node of the tree at that path.
\<close>

subsection \<open>Where the children lie\<close>

text \<open>The items \<open>goodbye\<close> returns for a directory whose first child starts at offset \<open>p\<close>.\<close>

fun child_items :: "(bytes \<Rightarrow> u64) \<Rightarrow> nat \<Rightarrow> Node list \<Rightarrow> (nat \<times> u64) list \<Rightarrow> gitem list" where
  "child_items H p (n # ns) ((l, x) # es) = (H (nd_Name n), of_nat p, of_nat l + x) # child_items H (p + l) ns es"
| "child_items H p _ _ = []"

lemma gb_items_shift:
  "k = of_nat p - base \<Longrightarrow>
     map (\<lambda>it. (gi_Hash it, k + gi_Start it, gi_Length it)) (gb_items H base ns es) = child_items H p ns es"
proof (induction H base ns es arbitrary: p rule: gb_items.induct)
  case (1 H base n ns l x es)
  have "k = of_nat (p + l) - (base + of_nat l)" using 1(2) by simp
  from 1(1) [OF this] 1(2) show ?case by simp
qed simp_all

lemma archived_list_es:
  assumes "archived_list v P G ns es cb"
  shows "length es = length ns" "length cb = sum_list (map fst es)" "\<forall>(l, x) \<in> set es. 17 \<le> l"
    "\<forall>(l, x) \<in> set es. x = 0 \<or> v \<and> (\<exists>n off. P n (put64 off @ put64 x))"
proof -
  have x: "x = 0 \<or> v \<and> (\<exists>n off. P n (put64 off @ put64 x))" if "archived v P G n x bs" for n x bs
    using that by (cases rule: archived.cases) auto
  have "length es = length ns \<and> length cb = sum_list (map fst es) \<and> (\<forall>(l, x) \<in> set es. 17 \<le> l) \<and>
      (\<forall>(l, x) \<in> set es. x = 0 \<or> v \<and> (\<exists>n off. P n (put64 off @ put64 x)))"
    using assms
  proof (induction ns arbitrary: es cb)
    case Nil
    then show ?case by (cases rule: archived_list.cases) auto
  next
    case (Cons n ns)
    from Cons.prems show ?case
    proof (cases rule: archived_list.cases)
      case (arch_cons x bs es' bs')
      then show ?thesis using Cons.IH [OF arch_cons(4)] x [OF arch_cons(3)] by auto
    qed
  qed
  then show "length es = length ns" "length cb = sum_list (map fst es)" "\<forall>(l, x) \<in> set es. 17 \<le> l"
    "\<forall>(l, x) \<in> set es. x = 0 \<or> v \<and> (\<exists>n off. P n (put64 off @ put64 x))" by blast+
qed

lemma archived_list_split:
  assumes "archived_list v P G ns es cb" "i < length ns"
  shows "\<exists>ub x bs wb. cb = ub @ record_bytes TypeFilename (nd_Name (ns ! i) @ [0]) @ bs @ wb \<and>
     archived v P G (ns ! i) x bs \<and> archived_list v P G (drop (Suc i) ns) (drop (Suc i) es) wb \<and>
     length ub = sum_list (map fst (take i es)) \<and> es ! i = (16 + length (nd_Name (ns ! i)) + 1 + length bs, x)"
  using assms
proof (induction i arbitrary: ns es cb)
  case 0
  then obtain n ns' where ns: "ns = n # ns'" by (cases ns) auto
  from 0(1) show ?case unfolding ns
    by (cases rule: archived_list.cases) auto
next
  case (Suc i)
  then obtain n ns' where ns: "ns = n # ns'" by (cases ns) auto
  from Suc.prems(1) [unfolded ns] show ?case
  proof (cases rule: archived_list.cases)
    case (arch_cons x bs es' bs')
    obtain ub x1 bs1 wb where s: "bs' = ub @ record_bytes TypeFilename (nd_Name (ns' ! i) @ [0]) @ bs1 @ wb"
        "archived v P G (ns' ! i) x1 bs1" "archived_list v P G (drop (Suc i) ns') (drop (Suc i) es') wb"
        "length ub = sum_list (map fst (take i es'))" "es' ! i = (16 + length (nd_Name (ns' ! i)) + 1 + length bs1, x1)"
      using Suc.IH [OF arch_cons(4)] Suc.prems(2) ns by auto
    show ?thesis unfolding ns
      by (intro exI [of _ "record_bytes TypeFilename (nd_Name n @ [0]) @ bs @ ub"] exI [of _ x1] exI [of _ bs1] exI [of _ wb])
        (use s arch_cons in simp)
  qed
qed

lemma child_items_length: "length es = length ns \<Longrightarrow> length (child_items H p ns es) = length ns"
  by (induction H p ns es rule: child_items.induct) auto

lemma child_items_nth:
  "length es = length ns \<Longrightarrow> i < length ns \<Longrightarrow>
     child_items H p ns es ! i = (H (nd_Name (ns ! i)), of_nat (p + sum_list (map fst (take i es))),
       of_nat (fst (es ! i)) + snd (es ! i))"
proof (induction H p ns es arbitrary: i rule: child_items.induct)
  case (1 H p n ns l x es)
  then show ?case by (cases i) (simp_all add: ac_simps)
qed auto

lemma child_items_in:
  "(h, start, sz) \<in> set (child_items H p ns es) \<Longrightarrow> \<forall>(l, x) \<in> set es. 0 < l \<Longrightarrow>
     \<exists>q l x. start = of_nat q \<and> p \<le> q \<and> q + l \<le> p + sum_list (map fst es) \<and> sz = of_nat l + x \<and> (l, x) \<in> set es"
proof (induction H p ns es rule: child_items.induct)
  case (1 H p n ns l x es)
  show ?case
  proof (cases "(h, start, sz) = (H (nd_Name n), of_nat p, of_nat l + x)")
    case True
    then show ?thesis by (intro exI [of _ p] exI [of _ l] exI [of _ x]) simp
  next
    case False
    then obtain q l' x' where "start = of_nat q" "p + l \<le> q" "q + l' \<le> p + l + sum_list (map fst es)" "sz = of_nat l' + x'"
        "(l', x') \<in> set es" using 1 by auto
    then show ?thesis by (intro exI [of _ q] exI [of _ l'] exI [of _ x']) simp
  qed
qed simp_all

lemma child_items_sorted:
  "\<forall>(l, x) \<in> set es. 0 < l \<Longrightarrow> p + sum_list (map fst es) < 2 ^ 64 \<Longrightarrow>
     sorted_wrt (<) (map (\<lambda>it. fst (snd it)) (child_items H p ns es))"
proof (induction H p ns es rule: child_items.induct)
  case (1 H p n ns l x es)
  have "(of_nat p :: u64) < start" if m: "(h, start, sz) \<in> set (child_items H (p + l) ns es)" for h start sz
  proof -
    obtain q l' where q: "start = of_nat q" "p + l \<le> q" "q + l' \<le> p + l + sum_list (map fst es)"
      using child_items_in [OF m] 1(2) by auto
    then have "p < 2 ^ 64" "q < 2 ^ 64" "p < q" using 1(2,3) by auto
    then show ?thesis unfolding q(1) word_less_nat_alt by (simp add: u64_small)
  qed
  then show ?case using 1 by (auto simp: ac_simps)
qed simp_all

subsection \<open>The goodbye table\<close>

text \<open>A source that delivers the bytes of the archive.\<close>

definition serves :: "metaAt \<Rightarrow> bytes \<Rightarrow> bool" where
  "serves m B \<longleftrightarrow> (\<forall>off len. off + len \<le> length B \<longrightarrow> m (int off) len = (take len (drop off B), ROk))"

lemma serves_at:
  assumes "serves m B" "B = A @ X @ Z"
  shows "m (int (length A)) (length X) = (X, ROk)"
  using assms unfolding serves_def by simp

lemma section_serves:
  assumes "serves m B" "B = A @ X @ Z"
  shows "section_in m (int (length A)) (int (length X)) = (X, None)"
proof (cases "X = []")
  case False
  then show ?thesis using serves_at [OF assms] by (simp add: section_in_def)
qed (simp add: section_in_def)

lemma gb_loop_items:
  "\<forall>it \<in> set tree. gs - gi_Start it \<noteq> 0 \<and> gs - gi_Start it < gb - ds \<and> gi_Length it \<noteq> 0 \<and> gi_Length it \<le> 2 ^ 62 \<Longrightarrow>
     gb_loop path gb ds (concat (map (goodbye_item_bytes gs) tree)) =
       Inr (map (\<lambda>it. (gi_Hash it, gb - (gs - gi_Start it), gi_Length it)) tree)"
proof (induction tree)
  case Nil
  show ?case by (subst gb_loop.simps) simp
next
  case (Cons it tree)
  let ?r = "concat (map (goodbye_item_bytes gs) tree)"
  have b: "goodbye_item_bytes gs it @ ?r \<noteq> []" "drop 24 (goodbye_item_bytes gs it @ ?r) = ?r"
      "get64 (goodbye_item_bytes gs it @ ?r) = gi_Hash it" "get64 (drop 8 (goodbye_item_bytes gs it @ ?r)) = gs - gi_Start it"
      "get64 (drop 16 (goodbye_item_bytes gs it @ ?r)) = gi_Length it"
  proof -
    have d16: "drop 16 (put64 a @ put64 b @ r) = r" "drop 24 (put64 a @ put64 b @ put64 c @ r) = r" for a b c r
      by simp_all
    have "length (goodbye_item_bytes gs it) = 24" by (simp add: goodbye_item_bytes_def)
    then show "goodbye_item_bytes gs it @ ?r \<noteq> []" by auto
    show "drop 24 (goodbye_item_bytes gs it @ ?r) = ?r"
      "get64 (goodbye_item_bytes gs it @ ?r) = gi_Hash it" "get64 (drop 8 (goodbye_item_bytes gs it @ ?r)) = gs - gi_Start it"
      "get64 (drop 16 (goodbye_item_bytes gs it @ ?r)) = gi_Length it"
      unfolding goodbye_item_bytes_def append_assoc d16 by simp_all
  qed
  have r: "gs - gi_Start it \<noteq> 0" "\<not> gs - gi_Start it \<ge> gb - ds" "gi_Length it \<noteq> 0" "\<not> gi_Length it > 2 ^ 62"
    using Cons.prems by (simp_all add: not_le not_less)
  show ?case
    unfolding list.map concat.simps gb_loop.simps [of path gb ds "goodbye_item_bytes gs it @ ?r"] b Let_def
    using r b(1) Cons.IH Cons.prems by simp
qed

text \<open>The span of \<open>d\<close> holds an encoding of the directory \<open>n\<close>, behind the records that lead to it.\<close>

definition dir_at :: "bool \<Rightarrow> (Node \<Rightarrow> bytes \<Rightarrow> bool) \<Rightarrow> (bytes \<Rightarrow> u64) \<Rightarrow> bytes \<Rightarrow> fsNode \<Rightarrow> Node \<Rightarrow> bool" where
  "dir_at v P H B d n \<longleftrightarrow> nd_Kind n = KindDirectory \<and>
     (\<exists>A pre bs Z x. B = A @ pre @ bs @ Z \<and> fn_start d = len64 A \<and> fn_end d = len64 (A @ pre @ bs) \<and>
        archived v P (goodbye_of H) n x bs)"

text \<open>What the view is opened on: \<open>B\<close> in the given format, with references of a possible size.\<close>

definition view_on :: "bool \<Rightarrow> (Node \<Rightarrow> bytes \<Rightarrow> bool) \<Rightarrow> bytes \<Rightarrow> FS \<Rightarrow> bool" where
  "view_on v P B f \<longleftrightarrow> serves (fs_meta f) B \<and> length B < 2 ^ 61 \<and> fs_version f = (if v then 2 else 1) \<and>
     (v \<longrightarrow> (\<forall>n off sz. P n (put64 off @ put64 sz) \<longrightarrow> sz \<le> 2 ^ 61))"

lemma goodbye_parts:
  assumes "length tree = k" "k \<le> 2796201"
  shows "length (goodbye_body tree gs t) = 24 * (k + 1)"
    "take (24 * k) (goodbye_body tree gs t) = concat (map (goodbye_item_bytes gs) tree)"
    "drop (24 * k) (goodbye_body tree gs t) = put64 GoodbyeTailMarker @ put64 t @ put64 (SizeGoodbye k)"
    "unat (SizeGoodbye k) = 16 + 24 * (k + 1)" "SizeGoodbye k = 16 + len64 (goodbye_body tree gs t)"
proof -
  show l: "length (goodbye_body tree gs t) = 24 * (k + 1)"
    using assms(1) by (simp add: goodbye_body_def goodbye_bytes_length)
  show "take (24 * k) (goodbye_body tree gs t) = concat (map (goodbye_item_bytes gs) tree)"
    "drop (24 * k) (goodbye_body tree gs t) = put64 GoodbyeTailMarker @ put64 t @ put64 (SizeGoodbye k)"
    using assms(1) goodbye_bytes_length [of gs tree] unfolding goodbye_body_def by simp_all
  have e: "SizeGoodbye k = of_nat (16 + 24 * (k + 1))" by (simp add: SizeGoodbye_def HeaderSize_def)
  show "unat (SizeGoodbye k) = 16 + 24 * (k + 1)" unfolding e by (rule u64_small) (use assms(2) in simp)
  show "SizeGoodbye k = 16 + len64 (goodbye_body tree gs t)" unfolding l e by simp
qed

lemma table_items:
  assumes arch: "archived_list v P (goodbye_of H) ns es cb" and k: "length ns \<le> 2796201"
    and perm: "permuteBST (sort_key gi_Hash (gb_items H base ns es)) = Some tree"
    and ext: "v \<longrightarrow> (\<forall>n off sz. P n (put64 off @ put64 sz) \<longrightarrow> sz \<le> 2 ^ 61)"
    and small: "p + length cb < 2 ^ 61" and ds: "ds = of_nat s" "s < p"
  defines "gb \<equiv> of_nat (p + length cb)" and "gs \<equiv> base + of_nat (sum_list (map fst es))"
  shows "map_sum id (sort_key (\<lambda>it. fst (snd it))) (gb_loop path gb ds (concat (map (goodbye_item_bytes gs) tree))) =
     Inr (child_items H p ns es)"
proof -
  note es = archived_list_es [OF arch]
  have pos: "\<forall>(l, x) \<in> set es. 0 < l" using es(3) by fastforce
  define shift where "shift = (\<lambda>it :: GoodbyeItem. (gi_Hash it, gb - (gs - gi_Start it), gi_Length it))"
  have sh: "shift = (\<lambda>it. (gi_Hash it, (of_nat p - base) + gi_Start it, gi_Length it))"
    unfolding shift_def gb_def gs_def es(2) by (simp add: algebra_simps)
  have ci: "map shift (gb_items H base ns es) = child_items H p ns es"
    unfolding sh by (rule gb_items_shift) simp
  have lg: "length (gb_items H base ns es) = length ns"
    using arg_cong [OF ci, of length] child_items_length [OF es(1)] by simp
  obtain t where "permuteBST (sort_key gi_Hash (gb_items H base ns es)) = Some t" "mset t = mset (gb_items H base ns es)"
    using AppendGoodbye_record [of "gb_items H base ns es"] k lg by fastforce
  then have mt: "mset tree = mset (gb_items H base ns es)" using perm by simp
  have rng: "gs - gi_Start it \<noteq> 0 \<and> gs - gi_Start it < gb - ds \<and> gi_Length it \<noteq> 0 \<and> gi_Length it \<le> 2 ^ 62"
    if it: "it \<in> set tree" for it
  proof -
    have "it \<in> set (gb_items H base ns es)" using it mt by (metis mset_eq_setD)
    then have "shift it \<in> set (child_items H p ns es)" using ci by (metis imageI list.set_map)
    then obtain q l x where q: "gb - (gs - gi_Start it) = of_nat q" "p \<le> q" "q + l \<le> p + length cb"
        "gi_Length it = of_nat l + x" "(l, x) \<in> set es"
      using child_items_in [OF _ pos] unfolding shift_def es(2) by blast
    have l: "17 \<le> l" "x \<le> 2 ^ 61" using es(3,4) q(5) ext by fastforce+
    have off: "gs - gi_Start it = of_nat (p + length cb - q)"
      using q(1-3) unfolding gb_def by (simp add: of_nat_diff algebra_simps)
    have gd: "gb - ds = of_nat (p + length cb - s)" using ds(2) unfolding gb_def ds(1) by (simp add: of_nat_diff)
    have u: "unat (of_nat (p + length cb - q) :: u64) = p + length cb - q" "unat (of_nat (p + length cb - s) :: u64) = p + length cb - s"
      using small by (auto intro!: u64_small)
    have len: "unat (gi_Length it) = l + unat x"
    proof -
      have "unat x \<le> 2 ^ 61" using l(2) by (simp add: word_le_nat_alt)
      then have "l + unat x < 2 ^ 64" using q(2,3) small by simp
      then have "unat (of_nat (l + unat x) :: u64) = l + unat x" by (rule u64_small)
      then show ?thesis unfolding q(4) by simp
    qed
    show ?thesis
    proof (intro conjI)
      have "0 < unat (gs - gi_Start it)" unfolding off u using q(3) l(1) by simp
      then show "gs - gi_Start it \<noteq> 0" by (simp add: unat_gt_0)
      show "gs - gi_Start it < gb - ds" unfolding off gd word_less_nat_alt u using q(2,3) ds(2) l(1) by simp
      show "gi_Length it \<noteq> 0" using len l(1) by auto
      show "gi_Length it \<le> 2 ^ 62" using len l(2) q(2,3) small by (simp add: word_le_nat_alt)
    qed
  qed
  have loop: "gb_loop path gb ds (concat (map (goodbye_item_bytes gs) tree)) = Inr (map shift tree)"
    unfolding shift_def by (rule gb_loop_items) (use rng in blast)
  have st: "sorted_wrt (<) (map (\<lambda>it. fst (snd it)) (child_items H p ns es))"
    by (rule child_items_sorted [OF pos]) (use small es(2) in simp)
  have "sort_key (\<lambda>it. fst (snd it)) (map shift tree) = child_items H p ns es"
  proof (rule sort_key_inj_key_eq)
    show m: "mset (map shift tree) = mset (child_items H p ns es)" unfolding ci [symmetric] by (simp add: mt)
    show "inj_on (\<lambda>it. fst (snd it)) (set (map shift tree))"
      using st mset_eq_setD [OF m] by (metis distinct_map strict_sorted_iff)
    show "sorted (map (\<lambda>it. fst (snd it)) (child_items H p ns es))" using st by (simp add: strict_sorted_iff)
  qed
  then show ?thesis unfolding loop by simp
qed

lemma dir_goodbye:
  assumes view: "view_on v P B f" and d: "dir_at v P H B d n" and k: "length (nd_Children n) \<le> 2796201"
  shows "\<exists>A cb es g Z. B = A @ cb @ record_bytes TypeGoodbye g @ Z \<and>
    archived_list v P (goodbye_of H) (nd_Children n) es cb \<and>
    fs_goodbye f d = Inr (child_items H (length A) (nd_Children n) es, of_nat (length A + length cb))"
proof -
  let ?k = "length (nd_Children n)"
  obtain A0 pre bs Z x where B0: "B = A0 @ pre @ bs @ Z" "fn_start d = len64 A0" "fn_end d = len64 (A0 @ pre @ bs)"
      "archived v P (goodbye_of H) n x bs" "nd_Kind n = KindDirectory"
    using d unfolding dir_at_def by (elim exE conjE) (rule that)
  from B0(4) obtain es cb g where g: "bs = metadataBytes [] n @ cb @ record_bytes TypeGoodbye g"
      "archived_list v P (goodbye_of H) (nd_Children n) es cb" "goodbye_of H (nd_Children n) es g"
    by (cases rule: archived.cases) (use B0(5) in auto)
  from g(3) obtain base tree t where t: "permuteBST (sort_key gi_Hash (gb_items H base (nd_Children n) es)) = Some tree"
      "length tree = length (gb_items H base (nd_Children n) es)"
      "g = goodbye_body tree (base + of_nat (sum_list (map fst es))) t"
    unfolding goodbye_of_def by (elim exE conjE) (rule that)
  have "length (gb_items H base (nd_Children n) es) = ?k"
    using arg_cong [OF gb_items_shift [OF refl, of 0 base H "nd_Children n" es], of length]
      child_items_length [OF archived_list_es(1) [OF g(2)]] by simp
  then have lt: "length tree = ?k" using t(2) by simp
  note gp = goodbye_parts(1-3) [OF lt k, of "base + of_nat (sum_list (map fst es))" t, folded t(3)]
    goodbye_parts(4) [OF lt k] goodbye_parts(5) [OF lt k, of "base + of_nat (sum_list (map fst es))" t, folded t(3)]
  define A where "A = A0 @ pre @ metadataBytes [] n"
  have lm: "56 \<le> length (metadataBytes [] n)" by (simp add: metadataBytes_records body_lengths)
  have B: "B = A @ cb @ record_bytes TypeGoodbye g @ Z" unfolding B0(1) g(1) A_def by simp
  have small: "length B < 2 ^ 61" "serves (fs_meta f) B"
      "v \<longrightarrow> (\<forall>n off sz. P n (put64 off @ put64 sz) \<longrightarrow> sz \<le> 2 ^ 61)"
    using view by (auto simp: view_on_def)
  let ?e = "length A + length cb + 16 + 24 * (?k + 1)"
  have e: "fn_end d = of_nat ?e" unfolding B0(3) g(1) using gp(1) by (simp add: A_def)
  have eB: "?e \<le> length B" unfolding B using gp(1) by simp
  have lA: "length A0 + 56 \<le> length A" unfolding A_def using lm by simp
  have span: "fn_end d - fn_start d = of_nat (?e - length A0)" unfolding e B0(2) using lA by (subst of_nat_diff) simp_all
  have sp: "sint (fn_end d - fn_start d) = int (?e - length A0)" "unat (fn_end d - fn_start d) = ?e - length A0"
    unfolding span using eB small(1) by (auto intro!: sint_of_nat63 u64_small)
  let ?sz = "SizeGoodbye ?k"
  have e24: "fn_end d - 24 = of_nat (?e - 24)" "sint (of_nat (?e - 24) :: u64) = int (?e - 24)"
    unfolding e using eB small(1) by (simp, intro sint_of_nat63) simp
  have gb: "fn_end d - ?sz = of_nat (length A + length cb)" "sint (of_nat (length A + length cb) :: u64) = int (length A + length cb)"
    unfolding e using eB small(1) by (simp add: SizeGoodbye_def HeaderSize_def, intro sint_of_nat63) simp
  let ?tl = "put64 GoodbyeTailMarker @ put64 t @ put64 ?sz"
  have tail: "fs_meta f (int (?e - 24)) 24 = (?tl, ROk)"
  proof -
    let ?X = "A @ cb @ put64 TypeGoodbye @ put64 (16 + len64 g) @ take (24 * ?k) g"
    have "g = take (24 * ?k) g @ ?tl" using gp(3) by (metis append_take_drop_id)
    then have "B = ?X @ ?tl @ Z" unfolding B record_bytes_def by simp
    moreover have "length ?X = ?e - 24" "length ?tl = 24" using gp(1) by simp_all
    ultimately show ?thesis using serves_at [OF small(2)] by metis
  qed
  have table: "fs_meta f (int (length A + length cb)) (unat ?sz) = (record_bytes TypeGoodbye g, ROk)"
  proof -
    have "B = (A @ cb) @ record_bytes TypeGoodbye g @ Z" unfolding B by simp
    from serves_at [OF small(2) this] show ?thesis unfolding gp(4) by (simp add: gp(1))
  qed
  have body: "take (unat ?sz - 24 - 16) (drop 16 (record_bytes TypeGoodbye g)) =
      concat (map (goodbye_item_bytes (base + of_nat (sum_list (map fst es)))) tree)"
    unfolding gp(4) gp(2) [symmetric] by (simp add: record_bytes_def)
  have items: "map_sum id (sort_key (\<lambda>it. fst (snd it))) (gb_loop (pn_Path (fn_Node d)) (of_nat (length A + length cb)) (fn_start d)
      (concat (map (goodbye_item_bytes (base + of_nat (sum_list (map fst es)))) tree))) =
     Inr (child_items H (length A) (nd_Children n) es)"
    by (rule table_items [OF g(2) k t(1) small(3) _ B0(2)]) (use eB small(1) lA in simp_all)
  then obtain its where its: "gb_loop (pn_Path (fn_Node d)) (of_nat (length A + length cb)) (fn_start d)
      (concat (map (goodbye_item_bytes (base + of_nat (sum_list (map fst es)))) tree)) = Inr its"
      "sort_key (\<lambda>it. fst (snd it)) its = child_items H (length A) (nd_Children n) es"
    by (auto simp: map_sum_def split: sum.splits)
  have chk: "\<not> sint (fn_end d - fn_start d) < 16 + 24" "get64 ?tl = GoodbyeTailMarker" "get64 (drop 16 ?tl) = ?sz"
      "\<not> ?sz < HeaderSize + 24" "(?sz - HeaderSize) mod 24 = 0" "\<not> ?sz > fn_end d - fn_start d" "\<not> ?sz > maxGoodbye"
      "get64 (record_bytes TypeGoodbye g) = TypeGoodbye" "get64 (drop 8 (record_bytes TypeGoodbye g)) = ?sz"
  proof -
    show "\<not> sint (fn_end d - fn_start d) < 16 + 24" unfolding sp using lA by simp
    have "drop 16 ?tl = put64 ?sz" by simp
    then show "get64 (drop 16 ?tl) = ?sz" by simp
    show "\<not> ?sz < HeaderSize + 24" "\<not> ?sz > fn_end d - fn_start d" "\<not> ?sz > maxGoodbye"
      using k lA unfolding word_less_nat_alt gp(4) sp by (simp_all add: HeaderSize_def maxGoodbye_def)
    have "?sz - HeaderSize = of_nat (24 * (?k + 1))" by (simp add: SizeGoodbye_def HeaderSize_def)
    moreover have "unat (of_nat (24 * (?k + 1)) :: u64) = 24 * (?k + 1)" using k by (intro u64_small) simp
    ultimately have "unat ((?sz - HeaderSize) mod 24) = 0" by (simp only: unat_mod) simp
    then show "(?sz - HeaderSize) mod 24 = 0" by (simp only: unat_eq_0)
    show "get64 (drop 8 (record_bytes TypeGoodbye g)) = ?sz" unfolding gp(5) record_bytes_def by simp
  qed (simp_all add: record_bytes_def)
  have "fs_goodbye f d = Inr (child_items H (length A) (nd_Children n) es, of_nat (length A + length cb))"
    unfolding fs_goodbye_def Let_def if_not_P [OF chk(1)] e24 tail prod.case rstat.case chk(2,3)
      gb table body its(1) sum.case its(2)
    using chk(4-9) by simp
  then show ?thesis using B g(2) by blast
qed

subsection \<open>Names\<close>

lemma split_plain: "slash \<notin> set s \<Longrightarrow> split_slash s = [s]"
  by (induction s) auto

lemma split_nonempty: "split_slash s \<noteq> []"
  by (cases s) (auto split: list.splits)

lemma split_append: "split_slash (a @ slash # b) = split_slash a @ split_slash b"
  using split_nonempty by (induction a) (auto split: list.splits)

lemma split_last: "slash \<notin> set b \<Longrightarrow> last (split_slash (a @ slash # b)) = b"
  unfolding split_append by (subst split_plain) simp_all

lemma name_plain:
  assumes "ValidateFilename nm = None"
  shows "nm \<noteq> []" "slash \<notin> set nm" "nm \<noteq> str ''.''" "nm \<noteq> str ''..''"
  using assms by (auto simp: ValidateFilename_def split: if_splits)

lemma base_join:
  assumes "ValidateFilename nm = None"
  shows "slash_Base (joinArchive d nm) = nm"
proof -
  note nm = name_plain [OF assms]
  have "rev (dropWhile (\<lambda>b. b = slash) (rev (joinArchive d nm))) = joinArchive d nm"
    using nm(1,2) by (cases nm rule: rev_cases) (auto simp: joinArchive_def)
  moreover have "joinArchive d nm \<noteq> []" using nm(1) by (simp add: joinArchive_def)
  ultimately show ?thesis using split_last [OF nm(2), of d] split_plain [OF nm(2)]
    by (simp add: slash_Base_def joinArchive_def)
qed

subsection \<open>Children\<close>

text \<open>
  The node \<open>c\<close> of the view is the node of the tree at a path: the metadata it was encoded with, the
  span of a directory, the place of the content of a v1 file.
\<close>

definition fs_shows :: "bool \<Rightarrow> (Node \<Rightarrow> bytes \<Rightarrow> bool) \<Rightarrow> (bytes \<Rightarrow> u64) \<Rightarrow> bytes \<Rightarrow> Node \<times> bytes \<Rightarrow> fsNode \<Rightarrow> bytes \<Rightarrow> bool" where
  "fs_shows v P H B np c ct \<longleftrightarrow> reads_as v False P np (fn_Node c, ct) \<and>
     (nd_Kind (fst np) = KindDirectory \<longrightarrow> dir_at v P H B c (fst np)) \<and>
     (nd_Kind (fst np) \<in> {KindFile, KindStream} \<and> \<not> v \<longrightarrow>
       (\<exists>p. fn_content c = of_nat p \<and> p + length ct \<le> length B \<and> take (length ct) (drop p B) = ct))"

lemma reads_as_fields:
  assumes "reads_as v km P (n, path) (pn, ct)" "node_ok n"
  shows "pn_Path pn = path" "pn_Hardlink pn \<longleftrightarrow> nd_Kind n = KindHardlink"
    "nd_Kind n \<noteq> KindHardlink \<Longrightarrow> kind_mode (nd_Kind n) (pe_Mode (pn_Entry pn))"
    "nd_Kind n \<in> {KindFile, KindStream} \<Longrightarrow> \<not> v \<Longrightarrow> pn_Size pn = len64 ct"
  using assms by (auto simp: reads_as_def new_node_def meta_node_def node_ok_def split: if_splits)

lemma kind_of_mode:
  assumes "kind_mode k m" "k \<noteq> KindHardlink"
  shows "modeType m = ModeDir \<longleftrightarrow> k = KindDirectory" "modeType m = ModeRegular \<longleftrightarrow> k \<in> {KindFile, KindStream}"
    "modeType m = ModeSymlink \<longleftrightarrow> k = KindSymlink"
  using assms by (auto simp: kind_mode_def modes_distinct' split: Kind.splits)

lemma entry_read:
  assumes "archived v P G n x bs" "name_ok n" "tree_ok 1 n" "nd_Kind n \<in> {KindFifo, KindSocket} \<longrightarrow> peekable wb"
  defines "inp \<equiv> record_bytes TypeFilename (nd_Name n @ [0]) @ bs @ wb"
  shows "\<exists>s pn ct. px_next (rst v False inp [dp] 0 0 0) = (s, Inr pn) \<and> px_content s = ct \<and>
     reads_as v False P (n, joinArchive dp (nd_Name n)) (pn, ct) \<and> px_at inp s \<and> at_content s pn \<and>
     pr_version s = (if v then 2 else 1)"
proof -
  let ?path = "joinArchive dp (nd_Name n)"
  obtain pos t l where lp: "px_loop (rst v False inp [dp] 0 0 0) [dp] = px_node (rst v False (bs @ wb) [dp] pos t l) ?path"
    using loop_filename [OF assms(2)] unfolding inp_def by blast
  have nx: "px_next (rst v False inp [dp] 0 0 0) = px_node (rst v False (bs @ wb) [dp] pos t l) ?path"
    unfolding next_rst lp ..
  have "tree_ok (length [dp]) n" using assms(3) by simp
  from archived_reads(1) [OF assms(1) this, of ?path wb False pos t l] assms(4) join_nonempty [OF assms(2)]
  obtain pns pos' t' l' where y: "yields (px_node (rst v False (bs @ wb) [dp] pos t l) ?path) pns (px_loop (rst v False wb [dp] pos' t' l') [dp])"
      "list_all2 (reads_as v False P) (preorder n ?path) pns" by auto
  obtain pc pns' where pc: "pns = pc # pns'" "reads_as v False P (n, ?path) pc"
    using y(2) unfolding preorder.simps [of n] by (auto simp: list_all2_Cons1)
  obtain s where s: "px_node (rst v False (bs @ wb) [dp] pos t l) ?path = (s, Inr (fst pc))" "px_content s = snd pc"
    using y(1) unfolding pc(1) by auto
  have "px_at inp (rst v False inp [dp] 0 0 0)" by (simp add: px_at_def rst_def exI [of _ 0])
  from loop_at [OF lp [unfolded s(1)] this] show ?thesis
    using s pc(2) unfolding nx by (auto simp: rst_def)
qed

lemma content_place:
  assumes "px_at inp s" "at_content s pn" "\<not> pn_Hardlink pn" "modeType (pe_Mode (pn_Entry pn)) = ModeRegular"
    and "pr_version s = 1" "px_content s = ct" "pn_Size pn = len64 ct" "length inp < 2 ^ 61"
  shows "\<exists>k. pr_pos s = of_nat k \<and> k + length ct \<le> length inp \<and> take (length ct) (drop k inp) = ct"
proof -
  have c: "\<not> pr_have s" "pr_content s = Inline" "pr_left s = pn_Size pn"
    using assms(2-5) by (auto simp: at_content_def)
  obtain k where k: "k \<le> length inp" "pr_in s = drop k inp" "pr_pos s = of_nat k"
    using assms(1) c(1) by (auto simp: px_at_def)
  show ?thesis
  proof (cases "pr_left s = 0")
    case True
    then have "ct = []" using assms(6) by (simp add: px_content_def)
    then show ?thesis using k by (intro exI [of _ k]) simp
  next
    case False
    have "ct = take (unat (pr_left s)) (pr_in s)"
      using False assms(6) c(2) by (auto simp: px_content_def px_Read_def Let_def split: if_splits)
    moreover from this have "length ct \<le> length (pr_in s)" by simp
    ultimately have "take (length ct) (drop k inp) = ct" "k + length ct \<le> length inp" using k
      by (auto simp: min_def)
    then show ?thesis using k(3) by blast
  qed
qed

lemma child_shows:
  assumes view: "view_on v P B f" and B: "B = A @ record_bytes TypeFilename (nd_Name n @ [0]) @ bs @ wb @ Z"
    and n: "archived v P (goodbye_of H) n x bs" "name_ok n" "tree_ok 1 n"
    and sp: "nd_Kind n \<in> {KindFifo, KindSocket} \<longrightarrow> peekable wb"
    and sz: "sz = of_nat (16 + length (nd_Name n) + 1 + length bs) + x"
    and gb: "gb = of_nat (length A + (16 + length (nd_Name n) + 1 + length bs) + length wb)"
    and path: "path = joinArchive (pn_Path (fn_Node d)) (nd_Name n)"
  shows "\<exists>c ct. fs_child f d (h, of_nat (length A), sz) gb = Inr c \<and> fs_shows v P H B (n, path) c ct \<and> fn_name c = nd_Name n"
proof -
  let ?inp = "record_bytes TypeFilename (nd_Name n @ [0]) @ bs @ wb"
  let ?l = "16 + length (nd_Name n) + 1 + length bs"
  have B': "B = A @ ?inp @ Z" unfolding B by simp
  have small: "length B < 2 ^ 61" "serves (fs_meta f) B" "fs_version f = (if v then 2 else 1)"
    using view by (auto simp: view_on_def)
  have li: "length ?inp = ?l + length wb" by simp
  have lB: "length A + length ?inp \<le> length B" unfolding B' by simp
  have st: "sint (of_nat (length A) :: u64) = int (length A)" "sint (gb - of_nat (length A)) = int (length ?inp)"
      "sint gb = int (length A + length ?inp)"
  proof -
    show "sint (of_nat (length A) :: u64) = int (length A)" using lB small(1) by (intro sint_of_nat63) simp
    have "gb - of_nat (length A) = of_nat (length ?inp)" unfolding gb li by simp
    then show "sint (gb - of_nat (length A)) = int (length ?inp)" using lB small(1) by (simp only:) (intro sint_of_nat63, simp)
    have "gb = of_nat (length A + length ?inp)" unfolding gb li by simp
    then show "sint gb = int (length A + length ?inp)" using lB small(1) by (simp only:) (intro sint_of_nat63, simp)
  qed
  have rd: "child_reader f d (of_nat (length A)) gb = rst v False ?inp [pn_Path (fn_Node d)] 0 0 0"
    unfolding child_reader_def st section_serves [OF small(2) B']
    by (simp add: new_reader_def rst_def small(3))
  obtain s pn ct where e: "px_next (rst v False ?inp [pn_Path (fn_Node d)] 0 0 0) = (s, Inr pn)" "px_content s = ct"
      "reads_as v False P (n, path) (pn, ct)" "px_at ?inp s" "at_content s pn" "pr_version s = (if v then 2 else 1)"
    using entry_read [OF n sp] unfolding path by blast
  have ok: "node_ok n" using n(3) unfolding tree_ok.simps [of 1 n] by simp
  note f = reads_as_fields [OF e(3) ok]
  have nm: "slash_Base (pn_Path pn) = nd_Name n" unfolding f(1) path by (rule base_join) (use n(2) in \<open>simp add: name_ok_def\<close>)
  let ?c = "\<lparr> fn_Node = pn, fn_name = nd_Name n, fn_start = 0, fn_end = 0, fn_content = 0 \<rparr>"
  note fc = fs_child_def [of f d "(h, of_nat (length A), sz)" gb, unfolded prod.case rd e(1) sum.case Let_def nm]
  show ?thesis
  proof (cases "nd_Kind n = KindHardlink")
    case True
    then show ?thesis using fc f(2) e(3) by (auto simp: fs_shows_def)
  next
    case False
    have ty: "\<not> pn_Hardlink pn" using False f(2) by simp
    note km = kind_of_mode [OF f(3) [OF False] False]
    consider (dir) "nd_Kind n = KindDirectory" | (reg) "nd_Kind n \<in> {KindFile, KindStream}" "\<not> v"
      | (other) "nd_Kind n \<noteq> KindDirectory" "\<not> (nd_Kind n \<in> {KindFile, KindStream} \<and> \<not> v)" by blast
    then show ?thesis
    proof cases
      case dir
      have x: "x = 0" using n(1) by (cases rule: archived.cases) (use dir in auto)
      have en: "of_nat (length A) + sz = of_nat (length A + ?l)" unfolding sz x by simp
      have "sint (of_nat (length A) + sz) = int (length A + ?l)" unfolding en using lB small(1) by (intro sint_of_nat63) simp
      then have "\<not> sint (of_nat (length A) + sz) > sint gb" unfolding st(3) by simp
      then have c: "fs_child f d (h, of_nat (length A), sz) gb = Inr (?c\<lparr> fn_start := of_nat (length A), fn_end := of_nat (length A) + sz \<rparr>)"
        using fc ty dir km(1) by (simp add: node_type_def)
      have "dir_at v P H B (?c\<lparr> fn_start := of_nat (length A), fn_end := of_nat (length A) + sz \<rparr>) n"
        unfolding dir_at_def using dir n(1) en
        by (intro conjI exI [of _ A] exI [of _ "record_bytes TypeFilename (nd_Name n @ [0])"] exI [of _ bs] exI [of _ "wb @ Z"] exI [of _ x])
          (simp_all add: B)
      then show ?thesis using c e(3) dir by (auto simp: fs_shows_def)
    next
      case reg
      then have m: "modeType (pe_Mode (pn_Entry pn)) = ModeRegular" using km(2) by simp
      obtain k where k: "pr_pos s = of_nat k" "k + length ct \<le> length ?inp" "take (length ct) (drop k ?inp) = ct"
        using content_place [OF e(4,5) ty m _ e(2) f(4)] e(6) reg lB small(1) by auto
      have cn: "of_nat (length A) + pr_pos s = of_nat (length A + k)" unfolding k(1) by simp
      have "of_nat (length A) + pr_pos s + pn_Size pn = of_nat (length A + k + length ct)"
        unfolding cn using f(4) reg by simp
      then have "sint (of_nat (length A) + pr_pos s + pn_Size pn) = int (length A + k + length ct)"
        using k(2) lB small(1) by (simp only:) (intro sint_of_nat63, simp)
      then have a: "\<not> sint (of_nat (length A) + pr_pos s + pn_Size pn) > sint gb" unfolding st(3) using k(2) by simp
      have "unat (len64 ct :: u64) = length ct" using k(2) lB small(1) by (intro u64_len) simp
      then have b: "\<not> pn_Size pn > 2 ^ 62" using f(4) reg k(2) lB small(1) by (simp add: word_less_nat_alt)
      have c: "fs_child f d (h, of_nat (length A), sz) gb = Inr (?c\<lparr> fn_content := of_nat (length A) + pr_pos s \<rparr>)"
        using fc ty m km(1) reg a b small(3) by (simp add: node_type_def modes_distinct')
      have "length A + k + length ct \<le> length B \<and> take (length ct) (drop (length A + k) B) = ct"
        using k(2,3) lB unfolding B' by simp
      then show ?thesis using c e(3) reg cn
        by (intro exI [of _ "?c\<lparr> fn_content := of_nat (length A) + pr_pos s \<rparr>"] exI [of _ ct]) (auto simp: fs_shows_def intro!: exI [of _ "length A + k"])
    next
      case other
      have "fs_child f d (h, of_nat (length A), sz) gb = Inr ?c"
        using fc ty km other small(3) by (auto simp: node_type_def)
      then show ?thesis using e(3) other by (auto simp: fs_shows_def)
    qed
  qed
qed

subsection \<open>Directories\<close>

text \<open>
  What the view needs beyond the format: distinct names, tables within the size limit of the code, and
  no FIFO or socket as the last child of a directory.  The last condition is not one of the format;
  \<open>child\<close> decodes an entry from a section that ends where the goodbye record begins, and the reader looks
  for another record behind the metadata of a FIFO or socket.
\<close>

fun browsable :: "Node \<Rightarrow> bool" where
  "browsable n \<longleftrightarrow> nd_Kind n = KindDirectory \<longrightarrow>
     distinct (map nd_Name (nd_Children n)) \<and> length (nd_Children n) \<le> 2796201 \<and>
     (nd_Children n \<noteq> [] \<longrightarrow> nd_Kind (last (nd_Children n)) \<notin> {KindFifo, KindSocket}) \<and>
     (\<forall>c \<in> set (nd_Children n). browsable c)"

declare browsable.simps [simp del]

lemma tree_ok_mono: "tree_ok d n \<Longrightarrow> d' \<le> d \<Longrightarrow> tree_ok d' n"
proof (induction n arbitrary: d d' rule: measure_induct_rule [of size])
  case (less n)
  have "tree_ok (d' + 1) c" if "nd_Kind n = KindDirectory" "c \<in> set (nd_Children n)" for c
    using less.IH [OF size_child [OF that(2)], of "d + 1" "d' + 1"] less.prems that by (auto simp: tree_ok.simps [of d n])
  then show ?case using less.prems by (auto simp: tree_ok.simps [of d n] tree_ok.simps [of d' n])
qed

lemma tree_ok_child:
  assumes "tree_ok d n" "nd_Kind n = KindDirectory" "c \<in> set (nd_Children n)"
  shows "tree_ok (d + 1) c" "name_ok c"
  using assms by (simp_all add: tree_ok.simps [of d n])

lemma archived_list_front:
  assumes "archived_list v P G ns es bs" "ns \<noteq> []" "\<forall>c \<in> set ns. name_ok c"
  shows "peekable bs"
  using assms(1)
proof (cases rule: archived_list.cases)
  case (arch_cons n x bs1 ns' es' bs2)
  then have "length (nd_Name n @ [0]) < 2 ^ 63" using assms(3) by (auto simp: name_ok_def)
  moreover have "metadataRecord TypeFilename = None" by (simp add: metadataRecord_def pxar_types)
  ultimately show ?thesis unfolding peekable_def
    using arch_cons by (intro exI [of _ TypeFilename] exI [of _ "nd_Name n @ [0]"] exI [of _ "bs1 @ bs2"]) simp
qed (use assms(2) in simp)

text \<open>An item of the table and the child it stands for.\<close>

definition item_shows ::
  "bool \<Rightarrow> (Node \<Rightarrow> bytes \<Rightarrow> bool) \<Rightarrow> (bytes \<Rightarrow> u64) \<Rightarrow> bytes \<Rightarrow> FS \<Rightarrow> fsNode \<Rightarrow> i64 \<Rightarrow> Node \<Rightarrow> gitem \<Rightarrow> bool" where
  "item_shows v P H B f d gb m it \<longleftrightarrow> fst it = H (nd_Name m) \<and>
     (\<exists>c ct. fs_child f d it gb = Inr c \<and> fn_name c = nd_Name m \<and>
        fs_shows v P H B (m, joinArchive (pn_Path (fn_Node d)) (nd_Name m)) c ct)"

text \<open>
  The entry of a FIFO or socket at the end of its section: the reader takes the end of the section for
  the end of the archive.
\<close>

lemma entry_truncated:
  assumes "name_ok n" "node_ok n"
  shows "\<exists>s p. px_next (rst v False (record_bytes TypeFilename (nd_Name n @ [0]) @ metadataBytes [] n) [dp] 0 0 0) =
    (s, Inl (PxTruncated p))"
proof -
  obtain pos t l where lp: "px_loop (rst v False (record_bytes TypeFilename (nd_Name n @ [0]) @ metadataBytes [] n) [dp] 0 0 0) [dp] =
      px_node (rst v False (metadataBytes [] n @ []) [dp] pos t l) (joinArchive dp (nd_Name n))"
    using loop_filename [OF assms(1), of v False "metadataBytes [] n" dp "[]" 0 0 0] by auto
  obtain pos' t' l' where "px_node (rst v False (metadataBytes [] n @ []) [dp] pos t l) (joinArchive dp (nd_Name n)) =
      px_bind (px_metadata (rst v False [] [dp] pos' t' l') (meta_node False n (joinArchive dp (nd_Name n))))
        (\<lambda>r ntl. case ntl of (n, typ, len) \<Rightarrow> px_kind r n typ len)"
    using node_prefix [of n v False "[]"] assms(2) unfolding node_ok_def by blast
  moreover have "px_metadata (rst v False [] [dp] pos' t' l') m = (rst v False [] [dp] pos' t' l', Inl (PxTruncated pos'))" for m
    by (subst px_metadata.simps) (simp add: px_peek_def in_full_def rst_def)
  ultimately show ?thesis unfolding next_rst lp by auto
qed

definition item_truncated :: "(bytes \<Rightarrow> u64) \<Rightarrow> FS \<Rightarrow> fsNode \<Rightarrow> i64 \<Rightarrow> Node \<Rightarrow> gitem \<Rightarrow> bool" where
  "item_truncated H f d gb m it \<longleftrightarrow> fst it = H (nd_Name m) \<and> (\<exists>p. fs_child f d it gb = Inl (FsPx (PxTruncated p)))"

text \<open>What stands behind the items of a directory.\<close>

lemma dir_items_nth:
  assumes view: "view_on v P B f" and d: "dir_at v P H B d n" and n: "tree_ok dep n" "length (nd_Children n) \<le> 2796201"
  shows "\<exists>items gb. fs_goodbye f d = Inr (items, gb) \<and> length items = length (nd_Children n) \<and>
     (\<forall>i < length (nd_Children n).
        if nd_Kind (nd_Children n ! i) \<in> {KindFifo, KindSocket} \<and> Suc i = length (nd_Children n)
        then item_truncated H f d gb (nd_Children n ! i) (items ! i)
        else item_shows v P H B f d gb (nd_Children n ! i) (items ! i))"
proof -
  let ?ns = "nd_Children n"
  have dir: "nd_Kind n = KindDirectory" using d by (simp add: dir_at_def)
  obtain A cb es g Z where g: "B = A @ cb @ record_bytes TypeGoodbye g @ Z"
      "archived_list v P (goodbye_of H) ?ns es cb"
      "fs_goodbye f d = Inr (child_items H (length A) ?ns es, of_nat (length A + length cb))"
    using dir_goodbye [OF view d n(2)] by (elim exE conjE) (rule that)
  note es = archived_list_es [OF g(2)]
  have "if nd_Kind (?ns ! i) \<in> {KindFifo, KindSocket} \<and> Suc i = length ?ns
      then item_truncated H f d (of_nat (length A + length cb)) (?ns ! i) (child_items H (length A) ?ns es ! i)
      else item_shows v P H B f d (of_nat (length A + length cb)) (?ns ! i) (child_items H (length A) ?ns es ! i)"
    if i: "i < length ?ns" for i
  proof -
    let ?m = "?ns ! i"
    obtain ub x bs wb where c: "cb = ub @ record_bytes TypeFilename (nd_Name ?m @ [0]) @ bs @ wb"
        "archived v P (goodbye_of H) ?m x bs" "archived_list v P (goodbye_of H) (drop (Suc i) ?ns) (drop (Suc i) es) wb"
        "length ub = sum_list (map fst (take i es))" "es ! i = (16 + length (nd_Name ?m) + 1 + length bs, x)"
      using archived_list_split [OF g(2) i] by (elim exE conjE) (rule that)
    have m: "tree_ok (dep + 1) ?m" "name_ok ?m" using tree_ok_child [OF n(1) dir nth_mem [OF i]] .
    have m1: "tree_ok 1 ?m" using tree_ok_mono [OF m(1)] by simp
    have it: "child_items H (length A) ?ns es ! i = (H (nd_Name ?m), of_nat (length (A @ ub)),
          of_nat (16 + length (nd_Name ?m) + 1 + length bs) + x)"
      unfolding child_items_nth [OF es(1) i] c(4) [symmetric] c(5) by simp
    show ?thesis
    proof (cases "nd_Kind ?m \<in> {KindFifo, KindSocket} \<and> Suc i = length ?ns")
      case False
      have "peekable wb" if "nd_Kind ?m \<in> {KindFifo, KindSocket}"
      proof (rule archived_list_front [OF c(3)])
        have "Suc i \<noteq> length ?ns" using False that by blast
        then show "drop (Suc i) ?ns \<noteq> []" using i by simp
        show "\<forall>c \<in> set (drop (Suc i) ?ns). name_ok c"
          using tree_ok_child(2) [OF n(1) dir] set_drop_subset [of "Suc i" ?ns] by blast
      qed
      then have "\<exists>c ct. fs_child f d (H (nd_Name ?m), of_nat (length (A @ ub)),
            of_nat (16 + length (nd_Name ?m) + 1 + length bs) + x) (of_nat (length A + length cb)) = Inr c \<and>
          fs_shows v P H B (?m, joinArchive (pn_Path (fn_Node d)) (nd_Name ?m)) c ct \<and> fn_name c = nd_Name ?m"
        using c(2) m(2) m1
        by (intro child_shows [OF view _ _ _ _ _ refl _ refl, where A = "A @ ub" and Z = "record_bytes TypeGoodbye g @ Z" and wb = wb])
          (simp_all add: g(1) c(1))
      then show ?thesis unfolding if_not_P [OF False] item_shows_def it by auto
    next
      case True
      then have wb: "wb = []" using c(3) by (auto elim: archived_listE)
      have bs: "bs = metadataBytes [] ?m" using c(2) by (cases rule: archived.cases) (use True in auto)
      let ?inp = "record_bytes TypeFilename (nd_Name ?m @ [0]) @ metadataBytes [] ?m"
      have B: "B = (A @ ub) @ ?inp @ record_bytes TypeGoodbye g @ Z" unfolding g(1) c(1) wb bs by simp
      have small: "length B < 2 ^ 61" "serves (fs_meta f) B" "fs_version f = (if v then 2 else 1)"
        using view by (auto simp: view_on_def)
      have lB: "length (A @ ub) + length ?inp < 2 ^ 61" using small(1) unfolding B by simp
      have gb: "of_nat (length A + length cb) - of_nat (length (A @ ub)) = (of_nat (length ?inp) :: u64)"
        unfolding c(1) wb bs by simp
      have si: "sint (of_nat (length (A @ ub)) :: u64) = int (length (A @ ub))" "sint (of_nat (length ?inp) :: u64) = int (length ?inp)"
        by (rule sint_of_nat63, use lB in simp)+
      have "child_reader f d (of_nat (length (A @ ub))) (of_nat (length A + length cb)) = rst v False ?inp [pn_Path (fn_Node d)] 0 0 0"
        unfolding child_reader_def gb si section_serves [OF small(2) B]
        by (simp add: new_reader_def rst_def small(3))
      moreover have "node_ok ?m" using m1 unfolding tree_ok.simps [of 1] by simp
      ultimately show ?thesis
        using entry_truncated [OF m(2), of v "pn_Path (fn_Node d)"] unfolding if_P [OF True] item_truncated_def it fs_child_def by auto
    qed
  qed
  then show ?thesis using g(3) child_items_length [OF es(1)] by blast
qed

lemma dir_items:
  assumes view: "view_on v P B f" and d: "dir_at v P H B d n" and n: "tree_ok dep n" "browsable n"
  shows "\<exists>items gb. fs_goodbye f d = Inr (items, gb) \<and> list_all2 (item_shows v P H B f d gb) (nd_Children n) items"
proof -
  let ?ns = "nd_Children n"
  have br: "length ?ns \<le> 2796201" "?ns \<noteq> [] \<longrightarrow> nd_Kind (last ?ns) \<notin> {KindFifo, KindSocket}"
    using n(2) d by (auto simp: browsable.simps [of n] dir_at_def)
  have "\<not> (nd_Kind (?ns ! i) \<in> {KindFifo, KindSocket} \<and> Suc i = length ?ns)" if "i < length ?ns" for i
    using br(2) last_conv_nth [of ?ns] that by (cases "?ns = []") (auto dest: sym)
  then show ?thesis using dir_items_nth [OF view d n(1) br(1)] by (fastforce simp: list_all2_conv_all_nth)
qed

lemma find_missing:
  "list_all2 (item_shows v P H B f d gb) ms items \<Longrightarrow> nm \<notin> nd_Name ` set ms \<Longrightarrow>
     find_child f d gb nm (H nm) items = Inl FsNotExist"
  by (induction rule: list_all2_induct) (auto simp: item_shows_def)

lemma find_present:
  "list_all2 (item_shows v P H B f d gb) ms items \<Longrightarrow> distinct (map nd_Name ms) \<Longrightarrow> m \<in> set ms \<Longrightarrow>
     \<exists>c ct. find_child f d gb (nd_Name m) (H (nd_Name m)) items = Inr c \<and> fn_name c = nd_Name m \<and>
       fs_shows v P H B (m, joinArchive (pn_Path (fn_Node d)) (nd_Name m)) c ct"
proof (induction rule: list_all2_induct)
  case (Cons m' ms it items)
  show ?case
  proof (cases "m = m'")
    case True
    then show ?thesis using Cons.hyps(1) by (auto simp: item_shows_def)
  next
    case False
    then have m: "m \<in> set ms" "nd_Name m \<noteq> nd_Name m'" using Cons.prems by (auto, metis imageI)
    then show ?thesis using Cons by (auto simp: item_shows_def)
  qed
qed simp

lemma lookup_shows:
  assumes "view_on v P B f" "dir_at v P H B d n" "tree_ok dep n" "browsable n"
  shows "m \<in> set (nd_Children n) \<Longrightarrow> \<exists>c ct. lookupChild H f d (nd_Name m) = Inr c \<and> fn_name c = nd_Name m \<and>
       fs_shows v P H B (m, joinArchive (pn_Path (fn_Node d)) (nd_Name m)) c ct"
    "nm \<notin> nd_Name ` set (nd_Children n) \<Longrightarrow> lookupChild H f d nm = Inl FsNotExist"
proof -
  obtain items gb where g: "fs_goodbye f d = Inr (items, gb)"
      "list_all2 (item_shows v P H B f d gb) (nd_Children n) items"
    using dir_items [OF assms] by blast
  have ds: "distinct (map nd_Name (nd_Children n))"
    using assms(2,4) by (auto simp: dir_at_def browsable.simps [of n])
  show "m \<in> set (nd_Children n) \<Longrightarrow> \<exists>c ct. lookupChild H f d (nd_Name m) = Inr c \<and> fn_name c = nd_Name m \<and>
       fs_shows v P H B (m, joinArchive (pn_Path (fn_Node d)) (nd_Name m)) c ct"
    using find_present [OF g(2) ds] g(1) by (simp add: lookupChild_def)
  show "nm \<notin> nd_Name ` set (nd_Children n) \<Longrightarrow> lookupChild H f d nm = Inl FsNotExist"
    using find_missing [OF g(2)] g(1) by (simp add: lookupChild_def)
qed

end
