(* ===== verification/Fs_Path.thy ===== *)
theory Fs_Path
  imports Fs_Tree
begin

unbundle bit_operations_syntax

text \<open>
  Paths, listings and contents: what \<open>Lstat\<close>, \<open>Open\<close> and \<open>ReadDir\<close> return on an emitted archive,
  with the properties of the file system view.
\<close>

subsection \<open>The node at a path\<close>

fun tree_find :: "Node \<Rightarrow> bytes list \<Rightarrow> Node option" where
  "tree_find n [] = Some n"
| "tree_find n (c # cs) =
     (if nd_Kind n \<noteq> KindDirectory then None
      else case List.find (\<lambda>m. nd_Name m = c) (nd_Children n) of None \<Rightarrow> None | Some m \<Rightarrow> tree_find m cs)"

abbreviation path_of :: "bytes \<Rightarrow> bytes list \<Rightarrow> bytes" where
  "path_of base cs \<equiv> foldl joinArchive base cs"

abbreviation plain :: "bytes list \<Rightarrow> bool" where
  "plain cs \<equiv> \<forall>c \<in> set cs. ValidateFilename c = None"

lemma find_child_distinct:
  assumes "distinct (map nd_Name ms)" "m \<in> set ms"
  shows "List.find (\<lambda>m'. nd_Name m' = nd_Name m) ms = Some m"
  using assms by (induction ms) force+

lemma tree_find_child:
  "tree_find n (c # cs) = Some m \<longleftrightarrow>
     (\<exists>m'. nd_Kind n = KindDirectory \<and> List.find (\<lambda>m. nd_Name m = c) (nd_Children n) = Some m' \<and> tree_find m' cs = Some m)"
  by (auto split: option.splits)

lemma find_in:
  assumes "List.find (\<lambda>m. nd_Name m = c) ms = Some m"
  shows "m \<in> set ms" "nd_Name m = c"
  using assms by (auto simp: find_Some_iff)

lemma tree_find_append: "tree_find n (cs @ ds) = (case tree_find n cs of None \<Rightarrow> None | Some m \<Rightarrow> tree_find m ds)"
  by (induction n cs rule: tree_find.induct) (auto split: option.splits)

lemma cut_join:
  assumes "slash \<notin> set c"
  shows "cut_slash (join_slash (c # cs)) = (c, join_slash cs)"
proof -
  have a: "\<forall>b \<in> set c. b \<noteq> slash" using assms by blast
  then have d: "dropWhile (\<lambda>b. b \<noteq> slash) c = []" unfolding dropWhile_eq_Nil_conv .
  have t: "takeWhile (\<lambda>b. b \<noteq> slash) c = c" using a unfolding takeWhile_eq_all_conv .
  show ?thesis
  proof (cases cs)
    case Nil
    then show ?thesis unfolding cut_slash_def Nil join_slash.simps d t tl_def by simp
  next
    case (Cons c' cs')
    then show ?thesis using a by (simp add: cut_slash_def)
  qed
qed

lemma join_empty: "plain cs \<Longrightarrow> join_slash cs = [] \<longleftrightarrow> cs = []"
  by (cases cs rule: join_slash.cases) (auto dest: name_plain(1))

lemma path_of_base: "base \<noteq> [] \<Longrightarrow> plain cs \<Longrightarrow> path_of base cs = (if cs = [] then base else base @ slash # join_slash cs)"
proof (induction cs arbitrary: base)
  case (Cons c cs)
  have "joinArchive base c \<noteq> []" using Cons.prems by (simp add: joinArchive_def)
  from Cons.IH [OF this] Cons.prems show ?case unfolding foldl_Cons
    by (cases cs) (simp_all add: joinArchive_def [of base c])
qed simp

lemma path_of_root: "plain cs \<Longrightarrow> path_of [] cs = join_slash cs"
proof (cases cs)
  case (Cons c cs')
  assume p: "plain cs"
  then have "c \<noteq> []" using Cons name_plain(1) by simp
  then show ?thesis using p Cons path_of_base [of c cs'] by (cases cs') (simp_all add: joinArchive_def)
qed simp

text \<open>Every entry of the tree is found at its path.\<close>

lemma preorder_find:
  "tree_ok dep n \<Longrightarrow> browsable n \<Longrightarrow> (m, p) \<in> set (preorder n base) \<Longrightarrow>
     \<exists>cs. tree_find n cs = Some m \<and> p = path_of base cs \<and> plain cs"
proof (induction n arbitrary: dep base rule: measure_induct_rule [of size])
  case (less n)
  show ?case
  proof (cases "(m, p) = (n, base)")
    case True
    then show ?thesis by (intro exI [of _ "[]"]) simp
  next
    case False
    then obtain c where c: "nd_Kind n = KindDirectory" "c \<in> set (nd_Children n)" "(m, p) \<in> set (preorder c (joinArchive base (nd_Name c)))"
      using less.prems(3) by (auto simp: preorder.simps [of n] split: if_splits)
    note t = tree_ok_child [OF less.prems(1) c(1,2)]
    have b: "browsable c" "distinct (map nd_Name (nd_Children n))" using less.prems(2) c by (auto simp: browsable.simps [of n])
    obtain cs where cs: "tree_find c cs = Some m" "p = path_of (joinArchive base (nd_Name c)) cs" "plain cs"
      using less.IH [OF size_child [OF c(2)] t(1) b(1) c(3)] by blast
    then show ?thesis using find_child_distinct [OF b(2) c(2)] c(1) t(2)
      by (intro exI [of _ "nd_Name c # cs"]) (simp add: name_ok_def)
  qed
qed

subsection \<open>Walking\<close>

text \<open>A node of the view that shows a node of the tree, with what the tree needs below it.\<close>

definition stands_for :: "bool \<Rightarrow> (Node \<Rightarrow> bytes \<Rightarrow> bool) \<Rightarrow> (bytes \<Rightarrow> u64) \<Rightarrow> bytes \<Rightarrow> Node \<Rightarrow> bytes \<Rightarrow> fsNode \<Rightarrow> bytes \<Rightarrow> bool" where
  "stands_for v P H B n path c ct \<longleftrightarrow> fs_shows v P H B (n, path) c ct \<and> (\<exists>dep. tree_ok dep n) \<and> browsable n"

lemma stands_for_fields:
  assumes "stands_for v P H B n path c ct"
  shows "pn_Path (fn_Node c) = path" "pn_Hardlink (fn_Node c) \<longleftrightarrow> nd_Kind n = KindHardlink"
    "nd_Kind n \<noteq> KindHardlink \<Longrightarrow> node_type c = ModeDir \<longleftrightarrow> nd_Kind n = KindDirectory"
    "nd_Kind n \<noteq> KindHardlink \<Longrightarrow> node_type c = ModeSymlink \<longleftrightarrow> nd_Kind n = KindSymlink"
    "nd_Kind n \<noteq> KindHardlink \<Longrightarrow> node_type c = ModeRegular \<longleftrightarrow> nd_Kind n \<in> {KindFile, KindStream}"
proof -
  obtain dep where "tree_ok dep n" using assms by (auto simp: stands_for_def)
  then have ok: "node_ok n" unfolding tree_ok.simps [of dep n] by simp
  have r: "reads_as v False P (n, path) (fn_Node c, ct)" using assms by (simp add: stands_for_def fs_shows_def)
  note f = reads_as_fields [OF r ok]
  show "pn_Path (fn_Node c) = path" "pn_Hardlink (fn_Node c) \<longleftrightarrow> nd_Kind n = KindHardlink" by (rule f(1), rule f(2))
  show "nd_Kind n \<noteq> KindHardlink \<Longrightarrow> node_type c = ModeDir \<longleftrightarrow> nd_Kind n = KindDirectory"
    "nd_Kind n \<noteq> KindHardlink \<Longrightarrow> node_type c = ModeSymlink \<longleftrightarrow> nd_Kind n = KindSymlink"
    "nd_Kind n \<noteq> KindHardlink \<Longrightarrow> node_type c = ModeRegular \<longleftrightarrow> nd_Kind n \<in> {KindFile, KindStream}"
    using kind_of_mode [OF f(3)] by (simp_all add: node_type_def)
qed

lemma step_stands:
  assumes "view_on v P B f" "stands_for v P H B n path d ct" "nd_Kind n = KindDirectory"
  shows "m \<in> set (nd_Children n) \<Longrightarrow> \<exists>c ct. lookupChild H f d (nd_Name m) = Inr c \<and> fn_name c = nd_Name m \<and>
       stands_for v P H B m (joinArchive path (nd_Name m)) c ct \<and> ValidateFilename (nd_Name m) = None"
    "nm \<notin> nd_Name ` set (nd_Children n) \<Longrightarrow> lookupChild H f d nm = Inl FsNotExist"
proof -
  obtain dep where t: "tree_ok dep n" "browsable n" "dir_at v P H B d n"
    using assms(2,3) by (auto simp: stands_for_def fs_shows_def)
  note l = lookup_shows [OF assms(1) t(3,1,2)]
  show "nm \<notin> nd_Name ` set (nd_Children n) \<Longrightarrow> lookupChild H f d nm = Inl FsNotExist" by (rule l(2))
  assume m: "m \<in> set (nd_Children n)"
  have "browsable m" using t(2) assms(3) m by (simp add: browsable.simps [of n])
  then show "\<exists>c ct. lookupChild H f d (nd_Name m) = Inr c \<and> fn_name c = nd_Name m \<and>
       stands_for v P H B m (joinArchive path (nd_Name m)) c ct \<and> ValidateFilename (nd_Name m) = None"
    using l(1) [OF m] tree_ok_child [OF t(1) assms(3) m] stands_for_fields(1) [OF assms(2)]
    unfolding stands_for_def name_ok_def by blast
qed

text \<open>What a walk along the path of an entry returns: the entry, or what \<open>hl\<close> makes of a hardlink.\<close>

lemma walk_finds:
  assumes "view_on v P B f"
  shows "stands_for v P H B n path d ct \<Longrightarrow> tree_find n cs = Some m \<Longrightarrow> plain cs \<Longrightarrow> cs \<noteq> [] \<Longrightarrow>
     \<exists>c ct. stands_for v P H B m (path_of path cs) c ct \<and> fn_name c = last cs \<and>
       (nd_Kind m \<noteq> KindHardlink \<and> (follow \<longrightarrow> nd_Kind m \<noteq> KindSymlink) \<longrightarrow> fs_walk H f hl follow d (join_slash cs) links = Inr c) \<and>
       (nd_Kind m = KindHardlink \<and> (follow \<longrightarrow> (\<forall>t. hl c = Inr t \<longrightarrow> node_type t \<noteq> ModeSymlink)) \<longrightarrow>
          fs_walk H f hl follow d (join_slash cs) links = hl c)"
proof (induction cs arbitrary: n path d ct)
  case (Cons c cs)
  from Cons.prems(2) obtain m' where m': "nd_Kind n = KindDirectory" "tree_find m' cs = Some m"
      "m' \<in> set (nd_Children n)" "nd_Name m' = c"
    unfolding tree_find_child using find_in by blast
  obtain c' ct' where l: "lookupChild H f d c = Inr c'" "fn_name c' = c"
      "stands_for v P H B m' (joinArchive path c) c' ct'" "ValidateFilename c = None"
    using step_stands(1) [OF assms Cons.prems(1) m'(1,3)] unfolding m'(4) by blast
  have ty: "node_type d = ModeDir" using stands_for_fields(3) [OF Cons.prems(1)] m'(1) by simp
  have ne: "join_slash (c # cs) \<noteq> []" using join_empty [OF Cons.prems(3)] by blast
  note w = fs_walk.simps [of H f hl follow d "join_slash (c # cs)" links]
  note w' = w [unfolded if_not_P [OF ne] cut_join [OF name_plain(2) [OF l(4)]] prod.case ty l(1) sum.case, simplified]
  note fl = stands_for_fields [OF l(3)]
  show ?case
  proof (cases cs)
    case Nil
    then have m: "m' = m" using m'(2) by simp
    show ?thesis
      using l(2,3) Nil fl w' unfolding m
      by (intro exI [of _ c'] exI [of _ ct']) (auto simp: fs_walk.simps [of _ _ _ _ _ "[]"] split: sum.splits)
  next
    case (Cons c2 cs2)
    then have dir: "nd_Kind m' = KindDirectory" using m'(2) by (auto split: if_splits)
    have sym: "node_type c' \<noteq> ModeSymlink" "\<not> pn_Hardlink (fn_Node c')" using fl dir by simp_all
    have "fs_walk H f hl follow d (join_slash (c # cs)) links = fs_walk H f hl follow c' (join_slash cs) links"
      using w' sym by simp
    then show ?thesis using Cons.IH [OF l(3) m'(2)] Cons.prems(3) Cons by simp
  qed
qed simp

lemma walk_missing:
  assumes "view_on v P B f"
  shows "stands_for v P H B n path d ct \<Longrightarrow> tree_find n cs = Some m \<Longrightarrow> plain cs \<Longrightarrow> nd_Kind m = KindDirectory \<Longrightarrow>
     nm \<notin> nd_Name ` set (nd_Children m) \<Longrightarrow> ValidateFilename nm = None \<Longrightarrow>
     fs_walk H f hl follow d (join_slash (cs @ [nm])) links = Inl FsNotExist"
proof (induction cs arbitrary: n path d ct)
  case Nil
  then have "nd_Kind n = KindDirectory" by simp
  then show ?case
    using Nil step_stands(2) [OF assms Nil.prems(1)] stands_for_fields(3) [OF Nil.prems(1)] name_plain(1) [OF Nil.prems(6)]
      cut_join [OF name_plain(2) [OF Nil.prems(6)], of "[]"]
    by (simp add: fs_walk.simps [of _ _ _ _ _ nm])
next
  case (Cons c cs)
  from Cons.prems(2) obtain m' where m': "nd_Kind n = KindDirectory" "tree_find m' cs = Some m"
      "m' \<in> set (nd_Children n)" "nd_Name m' = c"
    unfolding tree_find_child using find_in by blast
  obtain c' ct' where l: "lookupChild H f d c = Inr c'" "stands_for v P H B m' (joinArchive path c) c' ct'" "ValidateFilename c = None"
    using step_stands(1) [OF assms Cons.prems(1) m'(1,3)] unfolding m'(4) by blast
  have dir: "nd_Kind m' = KindDirectory" using m'(2) Cons.prems(4) by (cases cs) (auto split: if_splits)
  have ty: "node_type d = ModeDir" using stands_for_fields(3) [OF Cons.prems(1)] m'(1) by simp
  have "plain (c # cs @ [nm])" using Cons.prems(3,6) by simp
  then have ne: "join_slash (c # cs @ [nm]) \<noteq> []" using join_empty by blast
  have sym: "node_type c' \<noteq> ModeSymlink" "\<not> pn_Hardlink (fn_Node c')" using stands_for_fields [OF l(2)] dir by simp_all
  have "fs_walk H f hl follow d (join_slash (c # cs @ [nm])) links = fs_walk H f hl follow c' (join_slash (cs @ [nm])) links"
    using fs_walk.simps [of H f hl follow d "join_slash (c # cs @ [nm])" links] ne sym
    unfolding cut_join [OF name_plain(2) [OF l(3)]] prod.case ty l(1) sum.case by simp
  then show ?case using Cons.IH [OF l(2) m'(2)] Cons.prems(3-6) by simp
qed

subsection \<open>Opening\<close>

lemma open_shows:
  assumes bs: "archived v P (goodbye_of H) root x bs" and root: "nd_Kind root = KindDirectory" "tree_ok 0 root"
    and B: "B = head_bytes v prelude @ bs" and m: "serves m B" "length B < 2 ^ 61"
    and pre: "\<forall>p. prelude = Some p \<longrightarrow> length p \<le> 2 ^ 20"
    and ref: "v \<longrightarrow> (\<forall>n off sz. P n (put64 off @ put64 sz) \<longrightarrow> sz \<le> 2 ^ 61)"
  shows "\<exists>f. fs_open m (len64 B) payload (if v then 2 else 1) = Inr f \<and> view_on v P B f \<and> fs_payload f = payload \<and>
     fs_shows v P H B (root, []) (fs_root f) []"
proof -
  let ?ver = "if v then 2 else (1 :: nat)"
  have c: "if v then ?ver = 0 \<or> ?ver = 2 else ?ver = 0 \<or> ?ver = 1" by simp
  obtain pcs pos t l where y: "yields (px_next (start_reader ?ver False B)) pcs (rst v False [] [] pos t l, Inl PxEOF)"
      "list_all2 (reads_as v False P) (preorder root []) pcs"
    using archive_reads [OF bs root(1,2) c pre, of False] unfolding B by blast
  obtain pc pcs' where pc: "pcs = pc # pcs'" "reads_as v False P (root, []) pc"
    using y(2) unfolding preorder.simps [of root] by (auto simp: list_all2_Cons1)
  obtain s where s: "px_next (start_reader ?ver False B) = (s, Inr (fst pc))" using y(1) pc(1) by auto
  have sec: "section_in m 0 (sint (len64 B :: u64)) = (B, None)"
    using section_serves [OF m(1), of "[]" B "[]"] sint_of_nat63 [of "length B"] m(2) by simp
  have nr: "new_reader ?ver B None None = start_reader ?ver False B" by (simp add: start_reader_def new_reader_def)
  have nx: "px_Next (new_reader ?ver B None None) = (s, Inr (fst pc))"
    unfolding px_Next_def nr s by (simp add: start_reader_def new_reader_def)
  have ok: "node_ok root" using root(2) unfolding tree_ok.simps [of 0 root] by simp
  have r: "reads_as v False P (root, []) (fst pc, [])" using pc(2) root(1) by (cases pc) (auto simp: reads_as_def)
  note f = reads_as_fields [OF r ok]
  have md: "modeType (pe_Mode (pn_Entry (fst pc))) = ModeDir" using kind_of_mode(1) [OF f(3)] root(1) by simp
  let ?r = "\<lparr> fn_Node = fst pc, fn_name = str ''.'', fn_start = 0, fn_end = len64 B, fn_content = 0 \<rparr>"
  let ?f = "\<lparr> fs_meta = m, fs_payload = payload, fs_version = ?ver, fs_root = ?r \<rparr>"
  have o: "fs_open m (len64 B) payload ?ver = Inr ?f" unfolding fs_open_def sec prod.case nx using md by simp
  have "dir_at v P H B ?r root" unfolding dir_at_def using root(1) bs B
    by (intro conjI exI [of _ "[]"] exI [of _ "head_bytes v prelude"] exI [of _ bs] exI [of _ x]) simp_all
  then have "fs_shows v P H B (root, []) ?r []" using r root unfolding fs_shows_def by auto
  then show ?thesis using o m ref by (intro exI [of _ ?f]) (simp add: view_on_def)
qed

subsection \<open>Lookups\<close>

lemma split_join_slash: "plain cs \<Longrightarrow> cs \<noteq> [] \<Longrightarrow> split_slash (join_slash cs) = cs"
proof (induction cs rule: join_slash.induct)
  case (2 c)
  then show ?case using split_plain [OF name_plain(2), of c] by simp
next
  case (3 c d cs)
  have "split_slash (c @ slash # join_slash (d # cs)) = [c] @ split_slash (join_slash (d # cs))"
    unfolding split_append using split_plain [OF name_plain(2), of c] 3(2) by simp
  then show ?case using 3 by simp
qed simp

lemma not_dot:
  assumes "plain cs" "cs \<noteq> []"
  shows "join_slash cs \<noteq> str ''.''"
proof
  assume d: "join_slash cs = str ''.''"
  have "split_slash (str ''.'') = [str ''.'']" by (rule split_plain) simp
  then have "cs = [str ''.'']" using split_join_slash [OF assms] unfolding d by simp
  then have "ValidateFilename (str ''.'') = None" using assms(1) by simp
  then show False by (simp add: ValidateFilename_def)
qed

lemma valid_dot: "ValidString (str ''.'')"
  by (simp add: ValidString.simps(2) DecodeRune.simps(2))

lemma valid_join:
  assumes "plain cs" "cs \<noteq> []" "ValidString (join_slash cs)"
  shows "fs_ValidPath (join_slash cs)" "join_slash cs \<noteq> str ''.''" "slash_Base (join_slash cs) = last cs"
proof -
  note sp = split_join_slash [OF assms(1,2)]
  show "fs_ValidPath (join_slash cs)"
    unfolding fs_ValidPath_def sp using assms(1,3) by (auto dest: name_plain)
  show "join_slash cs \<noteq> str ''.''" by (rule not_dot [OF assms(1,2)])
  obtain ds c where ds: "cs = ds @ [c]" using assms(2) by (cases cs rule: rev_cases) auto
  have "join_slash cs = joinArchive (path_of [] (butlast cs)) (last cs)"
    unfolding path_of_root [OF assms(1), symmetric] unfolding ds by simp
  moreover have "ValidateFilename (last cs) = None" using assms(1,2) by simp
  ultimately show "slash_Base (join_slash cs) = last cs" using base_join by simp
qed

lemma root_walk:
  assumes "plain cs" "cs \<noteq> []" "ValidString (join_slash cs)"
  shows "walk_from_root H f hl follow (join_slash cs) = fs_walk H f hl follow (fs_root f) (join_slash cs) 0"
  using valid_join(2) [OF assms] by (simp add: walk_from_root_def)

text \<open>An entry that is not a hardlink is found as itself.\<close>

lemma lookup_entry:
  assumes view: "view_on v P B f" "stands_for v P H B root [] (fs_root f) ct"
    and cs: "tree_find root cs = Some m" "plain cs" "cs \<noteq> []" "ValidString (join_slash cs)"
    and m: "nd_Kind m \<noteq> KindHardlink" "follow \<longrightarrow> nd_Kind m \<noteq> KindSymlink"
  shows "\<exists>c ct. fs_lookup H f op (join_slash cs) follow = Inr c \<and> fn_name c = last cs \<and>
     stands_for v P H B m (join_slash cs) c ct"
proof -
  obtain c ct where c: "stands_for v P H B m (join_slash cs) c ct" "fn_name c = last cs"
      "fs_walk H f (resolveHardlink H f) follow (fs_root f) (join_slash cs) 0 = Inr c"
    using walk_finds [OF view cs(1-3), of follow "resolveHardlink H f" 0] m unfolding path_of_root [OF cs(2)] by blast
  note vj = valid_join [OF cs(2-4)]
  have "c\<lparr> fn_name := last cs \<rparr> = c" using c(2) by (cases c) simp
  then have "fs_lookup H f op (join_slash cs) follow = Inr c"
    using vj c(3) by (simp add: fs_lookup_def fs_resolve_def root_walk [OF cs(2-4)])
  then show ?thesis using c by blast
qed

text \<open>A hardlink shows the entry it names, under its own name.\<close>

lemma hardlink_target:
  assumes view: "view_on v P B f" "stands_for v P H B root [] (fs_root f) ct"
    and ts: "tree_find root ts = Some t" "plain ts" "ts \<noteq> []" "nd_Kind t \<notin> {KindHardlink, KindDirectory}"
    and c: "pn_Hardlink (fn_Node c)" "pn_LinkTarget (fn_Node c) = join_slash ts" "join_slash ts \<noteq> str ''.''"
  shows "\<exists>c' ct'. resolveHardlink H f c = Inr c' \<and> fn_name c' = fn_name c \<and> stands_for v P H B t (join_slash ts) c' ct'"
proof -
  obtain ct ctt where t: "stands_for v P H B t (join_slash ts) ct ctt"
      "fs_walk H f (\<lambda>c. Inl (FsNested (pn_Path (fn_Node c)))) False (fs_root f) (join_slash ts) 0 = Inr ct"
    using walk_finds [OF view ts(1-3), of False "\<lambda>c. Inl (FsNested (pn_Path (fn_Node c)))" 0] ts(4)
    unfolding path_of_root [OF ts(2)] by auto
  have "resolve_nested H f (join_slash ts) = Inr ct"
    using t(2) c(3) by (simp add: resolve_nested_def walk_from_root_def)
  moreover have "node_type ct \<noteq> ModeDir" using stands_for_fields(3) [OF t(1)] ts(4) by simp
  ultimately have r: "resolveHardlink H f c =
      Inr \<lparr> fn_Node = fn_Node ct, fn_name = fn_name c, fn_start = 0, fn_end = 0, fn_content = fn_content ct \<rparr>"
    using c(1,2) by (simp add: resolveHardlink_def)
  show ?thesis unfolding r
    by (intro exI [of _ "\<lparr> fn_Node = fn_Node ct, fn_name = fn_name c, fn_start = 0, fn_end = 0, fn_content = fn_content ct \<rparr>"] exI [of _ ctt])
      (use t(1) ts(4) in \<open>auto simp: stands_for_def fs_shows_def\<close>)
qed

lemma lookup_hardlink:
  assumes view: "view_on v P B f" "stands_for v P H B root [] (fs_root f) ct"
    and cs: "tree_find root cs = Some m" "plain cs" "cs \<noteq> []" "ValidString (join_slash cs)"
    and m: "nd_Kind m = KindHardlink" "nd_LinkTarget m = join_slash ts"
    and ts: "tree_find root ts = Some t" "plain ts" "ts \<noteq> []" "nd_Kind t \<notin> {KindHardlink, KindDirectory}"
    and fo: "follow \<longrightarrow> nd_Kind t \<noteq> KindSymlink"
  shows "\<exists>c ct. fs_lookup H f op (join_slash cs) follow = Inr c \<and> fn_name c = last cs \<and>
     stands_for v P H B t (join_slash ts) c ct"
proof -
  obtain c ct where c: "stands_for v P H B m (join_slash cs) c ct" "fn_name c = last cs"
      "follow \<longrightarrow> (\<forall>t. resolveHardlink H f c = Inr t \<longrightarrow> node_type t \<noteq> ModeSymlink) \<Longrightarrow>
       fs_walk H f (resolveHardlink H f) follow (fs_root f) (join_slash cs) 0 = resolveHardlink H f c"
    using walk_finds [OF view cs(1-3), of follow "resolveHardlink H f" 0] m(1) unfolding path_of_root [OF cs(2)] by blast
  have h: "pn_Hardlink (fn_Node c)" "pn_LinkTarget (fn_Node c) = join_slash ts"
    using c(1) m by (auto simp: stands_for_def fs_shows_def reads_as_def)
  from hardlink_target [OF view ts h not_dot [OF ts(2,3)]] obtain c' ct' where c': "resolveHardlink H f c = Inr c'" "fn_name c' = fn_name c"
      "stands_for v P H B t (join_slash ts) c' ct'" by blast
  have w: "fs_walk H f (resolveHardlink H f) follow (fs_root f) (join_slash cs) 0 = Inr c'"
    using c(3) c'(1) stands_for_fields(4) [OF c'(3)] ts(4) fo by simp
  have "c'\<lparr> fn_name := last cs \<rparr> = c'" using c(2) c'(2) by (cases c') simp
  then have "fs_lookup H f op (join_slash cs) follow = Inr c'"
    using valid_join [OF cs(2-4)] w by (simp add: fs_lookup_def fs_resolve_def root_walk [OF cs(2-4)])
  then show ?thesis using c(2) c' by auto
qed

subsection \<open>Emitted archives\<close>

text \<open>The entry that the view shows for an entry of the tree: a hardlink stands for the file it names.\<close>

definition meant :: "Node \<Rightarrow> Node \<times> bytes \<Rightarrow> Node \<times> bytes \<Rightarrow> bool" where
  "meant root np tp \<longleftrightarrow>
     (if nd_Kind (fst np) = KindHardlink
      then tp \<in> set (preorder root []) \<and> snd tp = nd_LinkTarget (fst np) \<and> nd_Kind (fst tp) \<notin> {KindHardlink, KindDirectory}
      else tp = np)"

lemma tree_find_last: "tree_find n cs = Some m \<Longrightarrow> cs \<noteq> [] \<Longrightarrow> nd_Name m = last cs"
  by (induction n cs rule: tree_find.induct) (auto split: if_splits option.splits dest: find_in)

lemma holds_sizes:
  assumes "\<forall>r. refs = Some r \<longrightarrow> (\<forall>sz \<in> ref_sizes r. sz \<le> 2 ^ 61)" "refs \<noteq> None"
    and "sync.holds os (map_option ref_sizes refs) n (put64 off @ put64 sz)"
  shows "sz \<le> 2 ^ 61"
  using assms by (auto simp: sync.holds_def)

lemma emitted_shows:
  assumes em: "em_run H (syncSource os) prelude root (new_emitter ctx room refs) = (s', Inr ())"
    and sizes: "\<forall>n \<in> set (nodes_of root). \<forall>p. syncSource_open os n = Inr p \<longrightarrow> 0 \<le> sint (payload_Size p)"
    and root: "nd_Kind root = KindDirectory" "tree_ok 0 root"
    and pre: "\<forall>p. prelude = Some p \<longrightarrow> length p \<le> 2 ^ 20"
    and ref: "\<forall>r. refs = Some r \<longrightarrow> (\<forall>sz \<in> ref_sizes r. sz \<le> 2 ^ 61)"
    and m: "serves m (em_out s')" "length (em_out s') < 2 ^ 61"
  shows "\<exists>f. fs_open m (len64 (em_out s')) payload (if refs = None then 1 else 2) = Inr f \<and> fs_payload f = payload \<and>
     view_on (refs \<noteq> None) (sync.holds os (map_option ref_sizes refs)) (em_out s') f \<and>
     fs_shows (refs \<noteq> None) (sync.holds os (map_option ref_sizes refs)) H (em_out s') (root, []) (fs_root f) []"
proof -
  have sz: "0 \<le> sint (ps_Size (syncSource os) p)"
    if "m \<in> set (nodes_of root)" "ps_open (syncSource os) m = Inr p" for m p
    using sizes that by (auto simp: syncSource_def)
  obtain bs x where bs: "cn_advances (es_w (new_emitter ctx room refs)) (es_w s') (head_bytes (refs \<noteq> None) prelude @ bs)"
      "archived (refs \<noteq> None) (sync.holds os (map_option ref_sizes refs)) (goodbye_of H) root x bs"
    using sync.em_run_archived [OF em] sz by (auto simp: new_emitter_def)
  have B: "em_out s' = head_bytes (refs \<noteq> None) prelude @ bs" using new_emitter_advances [OF bs(1)] by simp
  have h: "(refs \<noteq> None) \<longrightarrow> (\<forall>n off sz. sync.holds os (map_option ref_sizes refs) n (put64 off @ put64 sz) \<longrightarrow> sz \<le> 2 ^ 61)"
    using holds_sizes [OF ref] by blast
  have ver: "(if refs = None then 1 else 2) = (if refs \<noteq> None then 2 else (1 :: nat))" by simp
  show ?thesis unfolding ver using open_shows [OF bs(2) root B m pre h, of payload] by blast
qed

lemma emitted_view:
  assumes "em_run H (syncSource os) prelude root (new_emitter ctx room refs) = (s', Inr ())"
    and "\<forall>n \<in> set (nodes_of root). \<forall>p. syncSource_open os n = Inr p \<longrightarrow> 0 \<le> sint (payload_Size p)"
    and "nd_Kind root = KindDirectory" "tree_ok 0 root" "browsable root"
    and "\<forall>p. prelude = Some p \<longrightarrow> length p \<le> 2 ^ 20"
    and "\<forall>r. refs = Some r \<longrightarrow> (\<forall>sz \<in> ref_sizes r. sz \<le> 2 ^ 61)"
    and "serves m (em_out s')" "length (em_out s') < 2 ^ 61"
  shows "\<exists>f. fs_open m (len64 (em_out s')) payload (if refs = None then 1 else 2) = Inr f \<and> fs_payload f = payload \<and>
     view_on (refs \<noteq> None) (sync.holds os (map_option ref_sizes refs)) (em_out s') f \<and>
     stands_for (refs \<noteq> None) (sync.holds os (map_option ref_sizes refs)) H (em_out s') root [] (fs_root f) []"
  using emitted_shows [OF assms(1-4,6-9), of payload] assms(4,5) unfolding stands_for_def by blast

lemma target_path:
  assumes "view_on v P B f" "stands_for v P H B root [] (fs_root f) ct" "nd_Kind root = KindDirectory"
    and "meant root (n, path) (t, tp)" "nd_Kind n = KindHardlink"
  obtains ts where "tree_find root ts = Some t" "plain ts" "ts \<noteq> []" "nd_Kind t \<notin> {KindHardlink, KindDirectory}"
    "tp = join_slash ts" "nd_LinkTarget n = join_slash ts"
proof -
  have t: "(t, tp) \<in> set (preorder root [])" "tp = nd_LinkTarget n" "nd_Kind t \<notin> {KindHardlink, KindDirectory}"
    using assms(4,5) by (auto simp: meant_def)
  obtain dep where rt: "tree_ok dep root" "browsable root" using assms(2) by (auto simp: stands_for_def)
  obtain ts where ts: "tree_find root ts = Some t" "tp = path_of [] ts" "plain ts"
    using preorder_find [OF rt t(1)] by blast
  have "ts \<noteq> []" using ts(1) t(3) assms(3) by auto
  then show thesis using that [OF ts(1,3) _ t(3)] ts(2) t(2) path_of_root [OF ts(3)] by simp
qed

lemma shown_lookup:
  assumes view: "view_on v P B f" "stands_for v P H B root [] (fs_root f) ct"
    and np: "(n, path) \<in> set (preorder root [])" "path \<noteq> []" "ValidString path"
    and tp: "meant root (n, path) (t, tp)" "follow \<longrightarrow> nd_Kind t \<noteq> KindSymlink"
  shows "\<exists>c ct. fs_lookup H f op path follow = Inr c \<and> fn_name c = nd_Name n \<and> stands_for v P H B t tp c ct"
proof -
  obtain dep where rt: "tree_ok dep root" "browsable root" using view(2) by (auto simp: stands_for_def)
  obtain cs where cs: "tree_find root cs = Some n" "path = path_of [] cs" "plain cs"
    using preorder_find [OF rt np(1)] by blast
  have p: "path = join_slash cs" using path_of_root [OF cs(3)] cs(2) by simp
  have ne: "cs \<noteq> []" using np(2) cs(2) by auto
  have nm: "nd_Name n = last cs" by (rule tree_find_last [OF cs(1) ne])
  show ?thesis
  proof (cases "nd_Kind n = KindHardlink")
    case False
    then show ?thesis
      using lookup_entry [OF view cs(1,3) ne, of follow op] np(3) tp unfolding p nm by (simp add: meant_def)
  next
    case True
    have rd: "nd_Kind root = KindDirectory" using cs(1) ne by (cases cs) (auto split: if_splits)
    obtain ts where ts: "tree_find root ts = Some t" "plain ts" "ts \<noteq> []" "nd_Kind t \<notin> {KindHardlink, KindDirectory}"
        "tp = join_slash ts" "nd_LinkTarget n = join_slash ts"
      by (rule target_path [OF view rd tp(1) True])
    show ?thesis
      using lookup_hardlink [OF view cs(1,3) ne _ True ts(6) ts(1-4) tp(2), of op] np(3) unfolding p nm ts(5) by simp
  qed
qed

text \<open>
  C5: the file system view of an archive shows the archived tree.  For every tree that the format
  holds and the view can browse, when the emitter succeeds (v1, or v2 with references of possible sizes)
  and the source serves its output, opening the archive succeeds, and \<open>Lstat\<close> finds every
  entry at its path, hash collisions among siblings included, under its name, with the metadata it was
  emitted with; a hardlink shows the file it names.  A name that a directory does not have does not exist.
\<close>

theorem fs_finds_entries:
  assumes "em_run H (syncSource os) prelude root (new_emitter ctx room refs) = (s', Inr ())"
    and "\<forall>n \<in> set (nodes_of root). \<forall>p. syncSource_open os n = Inr p \<longrightarrow> 0 \<le> sint (payload_Size p)"
    and "nd_Kind root = KindDirectory" "tree_ok 0 root" "browsable root"
    and "\<forall>p. prelude = Some p \<longrightarrow> length p \<le> 2 ^ 20"
    and "\<forall>r. refs = Some r \<longrightarrow> (\<forall>sz \<in> ref_sizes r. sz \<le> 2 ^ 61)"
    and "serves m (em_out s')" "length (em_out s') < 2 ^ 61"
  shows "\<exists>f. fs_open m (len64 (em_out s')) payload (if refs = None then 1 else 2) = Inr f \<and>
     (\<forall>(n, path) \<in> set (preorder root []). path \<noteq> [] \<and> ValidString path \<longrightarrow>
        (\<forall>t tp. meant root (n, path) (t, tp) \<longrightarrow>
           (\<exists>c ct. fs_Lstat H f path = Inr c \<and> fn_name c = nd_Name n \<and>
              reads_as (refs \<noteq> None) False (sync.holds os (map_option ref_sizes refs)) (t, tp) (fn_Node c, ct)))) \<and>
     (\<forall>(n, path) \<in> set (preorder root []). \<forall>nm. nd_Kind n = KindDirectory \<and> nm \<notin> nd_Name ` set (nd_Children n) \<and>
        ValidateFilename nm = None \<and> ValidString (joinArchive path nm) \<longrightarrow>
        fs_Lstat H f (joinArchive path nm) = Inl (FsPathError ''lstat'' (joinArchive path nm) FsNotExist))"
proof -
  let ?v = "refs \<noteq> None" and ?P = "sync.holds os (map_option ref_sizes refs)"
  obtain f where f: "fs_open m (len64 (em_out s')) payload (if refs = None then 1 else 2) = Inr f"
      "view_on ?v ?P (em_out s') f" "stands_for ?v ?P H (em_out s') root [] (fs_root f) []"
    using emitted_view [OF assms, of payload] by blast
  have a: "\<exists>c ct. fs_Lstat H f path = Inr c \<and> fn_name c = nd_Name n \<and> reads_as ?v False ?P (t, tp) (fn_Node c, ct)"
    if "(n, path) \<in> set (preorder root [])" "path \<noteq> []" "ValidString path" "meant root (n, path) (t, tp)" for n path t tp
    using shown_lookup [OF f(2,3) that, of False "''lstat''"] by (auto simp: fs_Lstat_def stands_for_def fs_shows_def)
  have b: "fs_Lstat H f (joinArchive path nm) = Inl (FsPathError ''lstat'' (joinArchive path nm) FsNotExist)"
    if np: "(n, path) \<in> set (preorder root [])" and n: "nd_Kind n = KindDirectory" "nm \<notin> nd_Name ` set (nd_Children n)"
      and nm: "ValidateFilename nm = None" "ValidString (joinArchive path nm)" for n path nm
  proof -
    obtain cs where cs: "tree_find root cs = Some n" "path = path_of [] cs" "plain cs"
      using preorder_find [OF assms(4,5) np] by blast
    have pl: "plain (cs @ [nm])" using cs(3) nm(1) by simp
    have j: "joinArchive path nm = join_slash (cs @ [nm])" using path_of_root [OF pl] cs(2) by simp
    note v = pl _ nm(2) [unfolded j]
    show ?thesis unfolding j
      using walk_missing [OF f(2,3) cs(1,3) n nm(1), of "resolveHardlink H f" False 0] valid_join [OF v] root_walk [OF v]
      by (simp add: fs_Lstat_def fs_lookup_def fs_resolve_def)
  qed
  show ?thesis using f(1) a b by (intro exI [of _ f] conjI) (auto simp only: split_beta prod.collapse)
qed

subsection \<open>Listings\<close>

text \<open>
  What an entry of a directory is to show: the child's name, and the child itself or, for a hardlink, the
  file it names.
\<close>

definition entry_shows :: "bool \<Rightarrow> (Node \<Rightarrow> bytes \<Rightarrow> bool) \<Rightarrow> Node \<Rightarrow> bytes \<Rightarrow> Node \<Rightarrow> fsNode \<Rightarrow> bool" where
  "entry_shows v P root path m e \<longleftrightarrow> fn_name e = nd_Name m \<and>
     (\<forall>t tp. meant root (m, joinArchive path (nd_Name m)) (t, tp) \<longrightarrow> (\<exists>ct. reads_as v False P (t, tp) (fn_Node e, ct)))"

text \<open>Every child is listed, a hardlink when what it names is in the archive.\<close>

lemma child_resolves:
  assumes view: "view_on v P B f" "stands_for v P H B root [] (fs_root f) ct0" "nd_Kind root = KindDirectory"
    and c: "stands_for v P H B n path c ct" "nd_Kind n = KindHardlink \<longrightarrow> (\<exists>tp. meant root (n, path) tp)"
  shows "\<exists>c'. resolveHardlink H f c = Inr c' \<and> fn_name c' = fn_name c \<and>
    (\<forall>t tp. meant root (n, path) (t, tp) \<longrightarrow> (\<exists>ct. reads_as v False P (t, tp) (fn_Node c', ct)))"
proof (cases "nd_Kind n = KindHardlink")
  case False
  then show ?thesis using stands_for_fields(2) [OF c(1)] c(1)
    by (auto simp: resolveHardlink_def meant_def stands_for_def fs_shows_def)
next
  case True
  have r: "\<exists>c' ct. resolveHardlink H f c = Inr c' \<and> fn_name c' = fn_name c \<and> reads_as v False P (t, tp) (fn_Node c', ct)"
    if m: "meant root (n, path) (t, tp)" for t tp
  proof -
    obtain ts where ts: "tree_find root ts = Some t" "plain ts" "ts \<noteq> []" "nd_Kind t \<notin> {KindHardlink, KindDirectory}"
        "tp = join_slash ts" "nd_LinkTarget n = join_slash ts"
      by (rule target_path [OF view m True])
    have "pn_Hardlink (fn_Node c)" "pn_LinkTarget (fn_Node c) = join_slash ts"
      using c(1) True ts(6) by (auto simp: stands_for_def fs_shows_def reads_as_def)
    from hardlink_target [OF view(1,2) ts(1-4) this not_dot [OF ts(2,3)]] show ?thesis
      unfolding ts(5) stands_for_def fs_shows_def by blast
  qed
  obtain t tp where "meant root (n, path) (t, tp)" using c(2) True by auto
  with r show ?thesis by (metis sum.inject(2))
qed

lemma entries_load:
  assumes "list_all2 (item_shows v P H B f d gb) ms items"
    and "\<And>m c ct. m \<in> set ms \<Longrightarrow> fs_shows v P H B (m, joinArchive (pn_Path (fn_Node d)) (nd_Name m)) c ct \<Longrightarrow>
      fn_name c = nd_Name m \<Longrightarrow> \<exists>c'. resolveHardlink H f c = Inr c' \<and> Q m c'"
  shows "\<exists>cs. load_entries H f d gb items = (cs, None) \<and> list_all2 Q ms cs"
  using assms
proof (induction rule: list_all2_induct)
  case (Cons m ms it items)
  obtain cs where cs: "load_entries H f d gb items = (cs, None)" "list_all2 Q ms cs"
    using Cons.IH Cons.prems [OF list.set_intros(2)] by blast
  obtain c ct where c: "fs_child f d it gb = Inr c" "fn_name c = nd_Name m"
      "fs_shows v P H B (m, joinArchive (pn_Path (fn_Node d)) (nd_Name m)) c ct"
    using Cons.hyps(1) by (auto simp: item_shows_def)
  obtain c' where "resolveHardlink H f c = Inr c'" "Q m c'" using Cons.prems [OF _ c(3,2)] by auto
  then show ?case using cs c by auto
qed simp

lemma sort_names: "map k (sort_key k xs) = sort (map k xs)"
  by (rule properties_for_sort [symmetric]) simp_all

lemma entries_names: "list_all2 (entry_shows v P root path) ms es \<Longrightarrow> map fn_name es = map nd_Name ms"
  by (induction rule: list_all2_induct) (auto simp: entry_shows_def)

definition dir_shows :: "bool \<Rightarrow> (Node \<Rightarrow> bytes \<Rightarrow> bool) \<Rightarrow> Node \<Rightarrow> bytes \<Rightarrow> Node \<Rightarrow> fsNode list \<Rightarrow> bool" where
  "dir_shows v P root path n es \<longleftrightarrow> map fn_name es = sort (map nd_Name (nd_Children n)) \<and>
     (\<forall>m \<in> set (nd_Children n). \<exists>e \<in> set es. entry_shows v P root path m e)"

lemma dir_lists:
  assumes view: "view_on v P B f" "stands_for v P H B root [] (fs_root f) ct0" "nd_Kind root = KindDirectory"
    and d: "stands_for v P H B n path d ct" "nd_Kind n = KindDirectory"
    and l: "\<forall>m \<in> set (nd_Children n). nd_Kind m = KindHardlink \<longrightarrow> (\<exists>tp. meant root (m, joinArchive path (nd_Name m)) tp)"
  shows "\<exists>es. snd (dir_ReadDir H f (new_dirFile d) (-1)) = Inr es \<and> dir_shows v P root path n es"
proof -
  obtain dep where t: "tree_ok dep n" "browsable n" "dir_at v P H B d n"
    using d by (auto simp: stands_for_def fs_shows_def)
  obtain items gb where g: "fs_goodbye f d = Inr (items, gb)" "list_all2 (item_shows v P H B f d gb) (nd_Children n) items"
    using dir_items [OF view(1) t(3,1,2)] by blast
  note pd = stands_for_fields(1) [OF d(1)]
  have res: "\<exists>c'. resolveHardlink H f c = Inr c' \<and> entry_shows v P root path m c'"
    if m: "m \<in> set (nd_Children n)" "fs_shows v P H B (m, joinArchive (pn_Path (fn_Node d)) (nd_Name m)) c ct" "fn_name c = nd_Name m"
    for m c ct
  proof -
    have "browsable m" "tree_ok (dep + 1) m"
      using t(2) d(2) m(1) tree_ok_child(1) [OF t(1) d(2) m(1)] by (auto simp: browsable.simps [of n])
    then have "stands_for v P H B m (joinArchive path (nd_Name m)) c ct" using m(2) pd by (auto simp: stands_for_def)
    from child_resolves [OF view this] l m(1,3) show ?thesis unfolding entry_shows_def by auto
  qed
  have "\<exists>cs. load_entries H f d gb items = (cs, None) \<and> list_all2 (entry_shows v P root path) (nd_Children n) cs"
    by (rule entries_load [OF g(2)]) (rule res)
  then obtain cs where cs: "load_entries H f d gb items = (cs, None)" "list_all2 (entry_shows v P root path) (nd_Children n) cs"
    by blast
  have "snd (dir_ReadDir H f (new_dirFile d) (-1)) = Inr (sort_key fn_name cs)"
    using g(1) cs(1) by (simp add: dir_ReadDir_def dir_load_def new_dirFile_def)
  moreover have "map fn_name (sort_key fn_name cs) = sort (map nd_Name (nd_Children n))"
    unfolding sort_names entries_names [OF cs(2)] ..
  moreover have "\<exists>e \<in> set (sort_key fn_name cs). entry_shows v P root path m e" if "m \<in> set (nd_Children n)" for m
    using cs(2) that unfolding set_sort by (fastforce simp: list_all2_conv_all_nth in_set_conv_nth)
  ultimately show ?thesis unfolding dir_shows_def by blast
qed

text \<open>
  C35: listings show the archived directories.  For every tree that the format holds and the view can
  browse (below every directory the names differ, there are at most 2796201 of them, and the last child
  is neither a fifo nor a socket), when the emitter succeeds and the source serves its output, \<open>ReadDir\<close> of
  every directory of the tree with a path in valid UTF-8, the root as \<^verbatim>\<open>.\<close>, succeeds, provided what its
  hardlinks name is in the archive: it returns one entry per child, in ascending order of the names, and
  the entry of a name shows that child, with its path and the metadata it was emitted with, or the file
  that the hardlink of this name stands for.
\<close>

theorem fs_lists_children:
  assumes "em_run H (syncSource os) prelude root (new_emitter ctx room refs) = (s', Inr ())"
    and "\<forall>n \<in> set (nodes_of root). \<forall>p. syncSource_open os n = Inr p \<longrightarrow> 0 \<le> sint (payload_Size p)"
    and "nd_Kind root = KindDirectory" "tree_ok 0 root" "browsable root"
    and "\<forall>p. prelude = Some p \<longrightarrow> length p \<le> 2 ^ 20"
    and "\<forall>r. refs = Some r \<longrightarrow> (\<forall>sz \<in> ref_sizes r. sz \<le> 2 ^ 61)"
    and "serves m (em_out s')" "length (em_out s') < 2 ^ 61"
  shows "\<exists>f. fs_open m (len64 (em_out s')) payload (if refs = None then 1 else 2) = Inr f \<and>
     (\<forall>(n, path) \<in> set (preorder root []). nd_Kind n = KindDirectory \<and> ValidString path \<and>
        (\<forall>c \<in> set (nd_Children n). nd_Kind c = KindHardlink \<longrightarrow> (\<exists>tp. meant root (c, joinArchive path (nd_Name c)) tp)) \<longrightarrow>
        (\<exists>es. fs_ReadDir H f (if path = [] then str ''.'' else path) = Inr es \<and>
           map fn_name es = sort (map nd_Name (nd_Children n)) \<and>
           (\<forall>c \<in> set (nd_Children n). \<exists>e \<in> set es. fn_name e = nd_Name c \<and>
              (\<forall>t tp. meant root (c, joinArchive path (nd_Name c)) (t, tp) \<longrightarrow>
                 (\<exists>ct. reads_as (refs \<noteq> None) False (sync.holds os (map_option ref_sizes refs)) (t, tp) (fn_Node e, ct))))))"
proof -
  let ?v = "refs \<noteq> None" and ?P = "sync.holds os (map_option ref_sizes refs)"
  obtain f where f: "fs_open m (len64 (em_out s')) payload (if refs = None then 1 else 2) = Inr f"
      "view_on ?v ?P (em_out s') f" "stands_for ?v ?P H (em_out s') root [] (fs_root f) []"
    using emitted_view [OF assms, of payload] by blast
  have main: "\<exists>es. fs_ReadDir H f (if path = [] then str ''.'' else path) = Inr es \<and> dir_shows ?v ?P root path n es"
    if np: "(n, path) \<in> set (preorder root [])" and n: "nd_Kind n = KindDirectory" "ValidString path"
      and l: "\<forall>c \<in> set (nd_Children n). nd_Kind c = KindHardlink \<longrightarrow> (\<exists>tp. meant root (c, joinArchive path (nd_Name c)) tp)"
    for n path
  proof (cases "path = []")
    case True
    obtain cs where cs: "tree_find root cs = Some n" "path = path_of [] cs" "plain cs"
      using preorder_find [OF assms(4,5) np] by blast
    then have "cs = []" using True path_of_root [OF cs(3)] join_empty [OF cs(3)] by simp
    then have r: "n = root" using cs(1) by simp
    from valid_dot have "fs_lookup H f ''readdir'' (str ''.'') True = Inr (fs_root f)"
      by (simp add: fs_lookup_def fs_ValidPath_def fs_resolve_def walk_from_root_def fs_walk.simps [of _ _ _ _ _ "[]"])
    then have rd: "fs_ReadDir H f (str ''.'') = snd (dir_ReadDir H f (new_dirFile (fs_root f)) (-1))"
      unfolding fs_ReadDir_def by (simp only: sum.case)
    show ?thesis unfolding if_P [OF True] rd r
      using dir_lists [OF f(2,3) assms(3) f(3) assms(3) l [unfolded True r]] unfolding True .
  next
    case False
    have "meant root (n, path) (n, path)" using n(1) by (simp add: meant_def)
    then obtain c ct where c: "fs_lookup H f ''readdir'' path True = Inr c" "stands_for ?v ?P H (em_out s') n path c ct"
      using shown_lookup [OF f(2,3) np False n(2), of n path True "''readdir''"] n(1) by auto
    show ?thesis using dir_lists [OF f(2,3) assms(3) c(2) n(1) l] c(1) False by (simp add: fs_ReadDir_def)
  qed
  show ?thesis
    unfolding dir_shows_def [of ?v ?P, unfolded entry_shows_def, symmetric]
  proof (intro exI [of _ f] conjI ballI, rule f(1), clarify)
    fix n path assume "(n, path) \<in> set (preorder root [])" "nd_Kind n = KindDirectory" "ValidString path"
      "\<forall>c \<in> set (nd_Children n). nd_Kind c = KindHardlink \<longrightarrow> (\<exists>tp. meant root (c, joinArchive path (nd_Name c)) tp)"
    then show "\<exists>es. fs_ReadDir H f (if path = [] then str ''.'' else path) = Inr es \<and> dir_shows ?v ?P root path n es" by (rule main)
  qed
qed

subsection \<open>Contents\<close>

lemma no_prelude_v1: "em_run H S prelude root (new_emitter ctx room None) = em_run H S None root (new_emitter ctx room None)"
  by (simp add: em_run_def new_emitter_def)

lemma file_reads:
  assumes "view_on False P B f" "fn_content c = of_nat p" "p + length ct \<le> length B" "take (length ct) (drop p B) = ct"
    and h: "h = \<lparr> ff_n = c, ff_src = FromMeta, ff_base = fn_content c, ff_size = len64 ct, ff_off = 0 \<rparr>"
  shows "\<exists>h' e. file_Read f h want = (h', take want ct, e) \<and> (ct \<noteq> [] \<longrightarrow> e = None) \<and> (ct = [] \<longrightarrow> e = Some FileEOF)"
proof -
  have small: "length B < 2 ^ 61" "serves (fs_meta f) B" using assms(1) by (auto simp: view_on_def)
  have si: "sint (len64 ct :: u64) = int (length ct)" "sint (of_nat p :: u64) = int p"
    using assms(3) small(1) by (auto intro!: sint_of_nat63)
  show ?thesis
  proof (cases "ct = []")
    case True
    then show ?thesis unfolding h by (simp add: file_Read_def short_err_def)
  next
    case False
    let ?n = "min want (length ct)"
    have "fs_meta f (int p) ?n = (take ?n (drop p B), ROk)"
      using small(2) assms(3) unfolding serves_def by simp
    moreover have "take ?n (drop p B) = take want ct" using assms(4) by (metis min.commute take_take)
    ultimately have "fs_meta f (int p) ?n = (take want ct, ROk)" by simp
    then show ?thesis using False unfolding h assms(2)
      by (simp add: file_Read_def si source_at_def short_err_def Let_def)
  qed
qed

text \<open>
  C34: opening a regular file of a v1 archive by its path and reading it gives the content that was
  emitted, the bytes its payload stood for; also through a hardlink.
\<close>

theorem fs_reads_content:
  assumes "em_run H (syncSource os) prelude root (new_emitter ctx room None) = (s', Inr ())"
    and "\<forall>n \<in> set (nodes_of root). \<forall>p. syncSource_open os n = Inr p \<longrightarrow> 0 \<le> sint (payload_Size p)"
    and "nd_Kind root = KindDirectory" "tree_ok 0 root" "browsable root"
    and "serves m (em_out s')" "length (em_out s') < 2 ^ 61"
  shows "\<exists>f. OpenV1 m (len64 (em_out s')) = Inr f \<and>
     (\<forall>(n, path) \<in> set (preorder root []). path \<noteq> [] \<and> ValidString path \<longrightarrow>
        (\<forall>t tp. meant root (n, path) (t, tp) \<and> nd_Kind t \<in> {KindFile, KindStream} \<longrightarrow>
           (\<exists>h p. fs_Open H f path = Inr (OpenedFile h) \<and> syncSource_open os t = Inr p \<and>
              (\<forall>want. \<exists>h' e. file_Read f h want = (h', take want (payload_image p), e) \<and>
                 (payload_image p \<noteq> [] \<longrightarrow> e = None)))))"
proof -
  let ?B = "em_out s'"
  obtain f where f: "OpenV1 m (len64 ?B) = Inr f" "view_on False (sync.sized os) ?B f"
      "stands_for False (sync.sized os) H ?B root [] (fs_root f) []"
    using emitted_view [OF assms(1) [unfolded no_prelude_v1 [of H _ prelude]] assms(2-5) _ _ assms(6,7), of None]
    unfolding OpenV1_def by auto
  have "\<exists>h p. fs_Open H f path = Inr (OpenedFile h) \<and> syncSource_open os t = Inr p \<and>
      (\<forall>want. \<exists>h' e. file_Read f h want = (h', take want (payload_image p), e) \<and> (payload_image p \<noteq> [] \<longrightarrow> e = None))"
    if np: "(n, path) \<in> set (preorder root [])" "path \<noteq> []" "ValidString path" "meant root (n, path) (t, tp)"
      and t: "nd_Kind t \<in> {KindFile, KindStream}" for n path t tp
  proof -
    obtain c ct where c: "fs_lookup H f ''open'' path True = Inr c" "stands_for False (sync.sized os) H ?B t tp c ct"
      using shown_lookup [OF f(2,3) np, of True "''open''"] t by auto
    have r: "reads_as False False (sync.sized os) (t, tp) (fn_Node c, ct)" using c(2) by (simp add: stands_for_def fs_shows_def)
    then have "sync.sized os t ct" and sz: "pn_Size (fn_Node c) = len64 ct" using t by (auto simp: reads_as_def)
    then obtain p where p: "syncSource_open os t = Inr p" "ct = payload_image p"
      unfolding sync.sized_def by (auto simp: syncSource_def)
    obtain q where q: "fn_content c = of_nat q" "q + length ct \<le> length ?B" "take (length ct) (drop q ?B) = ct"
      using c(2) t by (auto simp: stands_for_def fs_shows_def)
    have ty: "node_type c = ModeRegular" using stands_for_fields(5) [OF c(2)] t by auto
    have "fs_version f = 1" using f(2) by (simp add: view_on_def)
    then have "fs_Open H f path = Inr (OpenedFile \<lparr> ff_n = c, ff_src = FromMeta, ff_base = fn_content c, ff_size = len64 ct, ff_off = 0 \<rparr>)"
      using c(1) ty sz by (simp add: fs_Open_def modes_distinct')
    then show ?thesis using file_reads [OF f(2) q refl] p(1,2) by blast
  qed
  then show ?thesis using f(1) by (intro exI [of _ f] conjI) auto
qed

subsection \<open>What the view cannot show\<close>

lemma find_truncated:
  assumes "length items = length ms" "distinct (map nd_Name ms)" "i < length ms"
    and "\<forall>j < i. item_shows v P H B f d gb (ms ! j) (items ! j)" "item_truncated H f d gb (ms ! i) (items ! i)"
  shows "\<exists>p. find_child f d gb (nd_Name (ms ! i)) (H (nd_Name (ms ! i))) items = Inl (FsPx (PxTruncated p))"
  using assms
proof (induction items arbitrary: ms i)
  case (Cons it items)
  then obtain m' ms' where ms: "ms = m' # ms'" by (cases ms) auto
  show ?case
  proof (cases i)
    case 0
    then show ?thesis using Cons.prems(5) ms by (auto simp: item_truncated_def)
  next
    case (Suc k)
    have IH: "\<exists>p. find_child f d gb (nd_Name (ms' ! k)) (H (nd_Name (ms' ! k))) items = Inl (FsPx (PxTruncated p))"
    proof (rule Cons.IH)
      show "\<forall>j < k. item_shows v P H B f d gb (ms' ! j) (items ! j)"
        using Cons.prems(4) Suc ms by (metis Suc_mono nth_Cons_Suc)
    qed (use Cons.prems ms Suc in auto)
    have "item_shows v P H B f d gb m' it" using Cons.prems(4) Suc ms by fastforce
    moreover have "nd_Name m' \<noteq> nd_Name (ms' ! k)" using Cons.prems(2,3) ms Suc by (auto simp: image_iff)
    ultimately show ?thesis using IH ms Suc by (auto simp: item_shows_def)
  qed
qed simp

lemma load_truncated:
  assumes "item_truncated H f d gb m it" "it \<in> set items"
  shows "\<exists>cs e. load_entries H f d gb items = (cs, Some e)"
  using assms(2)
proof (induction items)
  case (Cons it' items)
  then show ?case using assms(1) by (auto simp: item_truncated_def split: sum.splits prod.splits)
qed simp

text \<open>
  C37: a FIFO or socket that is the last child of the root cannot be looked up, and the directory cannot
  be listed, although the archive was emitted without an error and its sequential reader reads it:
  \<open>child\<close> gives the reader a section that ends where the goodbye record begins, and the reader, looking for
  the record behind the metadata, reports a truncated archive.
\<close>

theorem fs_last_special_fails:
  assumes "em_run H (syncSource os) prelude root (new_emitter ctx room refs) = (s', Inr ())"
    and "\<forall>n \<in> set (nodes_of root). \<forall>p. syncSource_open os n = Inr p \<longrightarrow> 0 \<le> sint (payload_Size p)"
    and "nd_Kind root = KindDirectory" "tree_ok 0 root"
    and "\<forall>p. prelude = Some p \<longrightarrow> length p \<le> 2 ^ 20"
    and "\<forall>r. refs = Some r \<longrightarrow> (\<forall>sz \<in> ref_sizes r. sz \<le> 2 ^ 61)"
    and "serves m (em_out s')" "length (em_out s') < 2 ^ 61"
    and "nd_Children root = cs @ [c]" "nd_Kind c \<in> {KindFifo, KindSocket}"
    and "distinct (map nd_Name (nd_Children root))" "length (nd_Children root) \<le> 2796201"
    and "ValidString (nd_Name c)"
  shows "\<exists>f. fs_open m (len64 (em_out s')) payload (if refs = None then 1 else 2) = Inr f \<and>
     (\<exists>p. fs_Lstat H f (nd_Name c) = Inl (FsPathError ''lstat'' (nd_Name c) (FsPx (PxTruncated p)))) \<and>
     (\<exists>e. fs_ReadDir H f (str ''.'') = Inl (DirError e))"
proof -
  let ?v = "refs \<noteq> None" and ?P = "sync.holds os (map_option ref_sizes refs)" and ?B = "em_out s'"
  let ?ns = "nd_Children root" and ?k = "length cs"
  obtain f where f: "fs_open m (len64 ?B) payload (if refs = None then 1 else 2) = Inr f" "view_on ?v ?P ?B f"
      "fs_shows ?v ?P H ?B (root, []) (fs_root f) []"
    using emitted_shows [OF assms(1-8), of payload] by blast
  have d: "dir_at ?v ?P H ?B (fs_root f) root" using f(3) assms(3) by (simp add: fs_shows_def)
  obtain items gb where g: "fs_goodbye f (fs_root f) = Inr (items, gb)" "length items = length ?ns"
      "\<forall>i < length ?ns. if nd_Kind (?ns ! i) \<in> {KindFifo, KindSocket} \<and> Suc i = length ?ns
        then item_truncated H f (fs_root f) gb (?ns ! i) (items ! i) else item_shows ?v ?P H ?B f (fs_root f) gb (?ns ! i) (items ! i)"
    using dir_items_nth [OF f(2) d assms(4,12)] by (elim exE conjE) (rule that)
  have c: "?ns ! ?k = c" "Suc ?k = length ?ns" unfolding assms(9) by simp_all
  have tr: "item_truncated H f (fs_root f) gb (?ns ! ?k) (items ! ?k)"
    using g(3) [rule_format, of ?k] c assms(10) by simp
  have sh: "\<forall>j < ?k. item_shows ?v ?P H ?B f (fs_root f) gb (?ns ! j) (items ! j)"
    using g(3) c(2) by (metis Suc_less_eq less_SucI nat_neq_iff)
  have kl: "?k < length ?ns" using c(2) by simp
  have ns: "\<exists>p. lookupChild H f (fs_root f) (nd_Name c) = Inl (FsPx (PxTruncated p))"
    using find_truncated [OF g(2) assms(11) kl sh tr] g(1) unfolding c(1) by (simp add: lookupChild_def)
  have vc: "ValidateFilename (nd_Name c) = None"
    using tree_ok_child(2) [OF assms(4,3), of c] unfolding assms(9) name_ok_def by simp
  have ok: "node_ok root" using assms(4) unfolding tree_ok.simps [of 0 root] by simp
  have r: "reads_as ?v False ?P (root, []) (fn_Node (fs_root f), [])" using f(3) by (simp add: fs_shows_def)
  have ty: "node_type (fs_root f) = ModeDir"
    using kind_of_mode(1) [OF reads_as_fields(3) [OF r ok]] assms(3) by (simp add: node_type_def)
  have pl: "plain [nd_Name c]" "[nd_Name c] \<noteq> []" "ValidString (join_slash [nd_Name c])" using vc assms(13) by simp_all
  have "fs_resolve H f (nd_Name c) False = lookupChild H f (fs_root f) (nd_Name c)" if "lookupChild H f (fs_root f) (nd_Name c) = Inl e" for e
    using root_walk [OF pl] name_plain(1) [OF vc] cut_join [OF name_plain(2) [OF vc], of "[]"] ty that
    by (simp add: fs_resolve_def fs_walk.simps [of _ _ _ _ _ "nd_Name c"])
  then have l: "\<exists>p. fs_Lstat H f (nd_Name c) = Inl (FsPathError ''lstat'' (nd_Name c) (FsPx (PxTruncated p)))"
    using ns valid_join(1) [OF pl] by (auto simp: fs_Lstat_def fs_lookup_def)
  obtain es e where "load_entries H f (fs_root f) gb items = (es, Some e)"
    using load_truncated [OF tr, of items] kl g(2) nth_mem [of ?k items] by auto
  then have "snd (dir_ReadDir H f (new_dirFile (fs_root f)) (-1)) = Inl (DirError e)"
    using g(1) by (simp add: dir_ReadDir_def dir_load_def new_dirFile_def)
  moreover have "fs_lookup H f ''readdir'' (str ''.'') True = Inr (fs_root f)"
    using valid_dot by (simp add: fs_lookup_def fs_ValidPath_def fs_resolve_def walk_from_root_def fs_walk.simps [of _ _ _ _ _ "[]"])
  ultimately have "fs_ReadDir H f (str ''.'') = Inl (DirError e)" unfolding fs_ReadDir_def by (simp only: sum.case)
  then show ?thesis using f(1) l by blast
qed

subsection \<open>Examples\<close>

definition served :: "bytes \<Rightarrow> metaAt" where
  "served B off len = (take len (drop (nat off) B), ROk)"

lemma serves_served: "serves (served B) B"
  by (simp add: serves_def served_def)

text \<open>A directory whose only child is a FIFO.\<close>

definition fifo_node :: Node where
  "fifo_node = Node (str ''p'') [] KindFifo (zero_stat\<lparr> st_Mode := ModeFifo OR 0x1A4 \<rparr>) [] [] None [] 0 [] None"

definition fifo_tree :: Node where
  "fifo_tree = Node (str ''root'') [] KindDirectory (zero_stat\<lparr> st_Mode := ModeDir OR 0x1FF \<rparr>) [] [] None [] 0 [fifo_node] None"

lemma fifo_emits:
  "\<exists>s'. em_run H (syncSource no_files) None fifo_tree (new_emitter None None None) = (s', Inr ()) \<and> length (em_out s') < 2 ^ 61"
  by (simp add: em_run_def fifo_tree_def fifo_node_def new_emitter_def em_node.simps em_write_def cn_write_free
      em_open_def syncSource_def AppendGoodbye_def permuteBST_def
      Len64.simps zero_stat_def Let_def cn_out_def metadataBytes_records extra_records_def entry_body_def
      append_records appendHeader_def goodbye_item_bytes_def del: append_assoc)

lemma example_emits_short:
  "\<exists>s'. em_run H (syncSource no_files) None example_tree (new_emitter None None None) = (s', Inr ()) \<and> length (em_out s') < 2 ^ 61"
  by (simp add: em_run_def example_tree_def new_emitter_def em_node.simps em_write_def cn_write_free
      em_open_def syncSource_def syncSource_open_def em_content_def streamPayload_Copy_def
      copyExactly_def copy_loop.simps pad_loop.simps copyChunk_def AppendGoodbye_def permuteBST_def
      Len64.simps zero_stat_def Let_def cn_out_def metadataBytes_records extra_records_def entry_body_def
      append_records appendHeader_def goodbye_item_bytes_def AppendPayloadHeader_def del: append_assoc)

lemma fifo_tree_ok:
  "nd_Kind fifo_tree = KindDirectory" "tree_ok 0 fifo_tree"
  "\<forall>n \<in> set (nodes_of fifo_tree). \<forall>p. syncSource_open no_files n = Inr p \<longrightarrow> 0 \<le> sint (payload_Size p)"
proof -
  show k: "nd_Kind fifo_tree = KindDirectory" by (simp add: fifo_tree_def)
  have c: "nd_Children fifo_tree = [fifo_node]" "nd_Children fifo_node = []" by (simp_all add: fifo_tree_def fifo_node_def)
  have n: "node_ok fifo_tree" "node_ok fifo_node" "name_ok fifo_node" "nd_Kind fifo_node \<noteq> KindDirectory"
    by (simp_all add: fifo_tree_def fifo_node_def node_ok_def name_ok_def kind_mode_def modeType_def mode_defs
        zero_stat_def ValidateFilename_def)
  then have "tree_ok (0 + 1) fifo_node" unfolding tree_ok.simps [of "0 + 1"] by simp
  then show "tree_ok 0 fifo_tree" unfolding tree_ok.simps [of 0] using n c by (simp add: maxDepth_px_def)
  have "set (nodes_of fifo_tree) = {fifo_tree, fifo_node}"
    unfolding nodes_of.simps [of fifo_tree] c list.map concat.simps nodes_of.simps [of fifo_node] by simp
  then show "\<forall>n \<in> set (nodes_of fifo_tree). \<forall>p. syncSource_open no_files n = Inr p \<longrightarrow> 0 \<le> sint (payload_Size p)"
    by (auto simp: fifo_tree_def fifo_node_def syncSource_open_def no_files_def zero_stat_def)
qed

lemma example_browsable: "browsable example_tree"
proof -
  obtain c where c: "nd_Children example_tree = [c]" "nd_Kind c = KindStream" by (simp add: example_tree_def)
  then have "browsable c" by (subst browsable.simps) simp
  then show ?thesis unfolding browsable.simps [of example_tree] c(1) using c(2) by simp
qed

lemma example_entry:
  "(hd (nd_Children example_tree), str ''a'') \<in> set (preorder example_tree [])"
  "nd_Kind (hd (nd_Children example_tree)) = KindStream" "nd_Name (hd (nd_Children example_tree)) = str ''a''"
  "ValidString (str ''a'')" "ValidString (str ''p'')"
  by (simp_all add: example_tree_def preorder.simps joinArchive_def ValidString.simps(2) DecodeRune.simps(2))

lemma example_sizes:
  "\<forall>n \<in> set (nodes_of example_tree). \<forall>p. syncSource_open no_files n = Inr p \<longrightarrow> 0 \<le> sint (payload_Size p)"
  using example_opens by blast

theorem fs_finds_entries_witness:
  "\<exists>s' f c. em_run (\<lambda>_. 7) (syncSource no_files) None example_tree (new_emitter None None None) = (s', Inr ()) \<and>
     fs_open (served (em_out s')) (len64 (em_out s')) None 1 = Inr f \<and>
     fs_Lstat (\<lambda>_. 7) f (str ''a'') = Inr c \<and> fn_name c = str ''a''"
proof -
  obtain s' where s': "em_run (\<lambda>_. 7) (syncSource no_files) None example_tree (new_emitter None None None) = (s', Inr ())"
      "length (em_out s') < 2 ^ 61" using example_emits_short by blast
  have m: "meant example_tree (hd (nd_Children example_tree), str ''a'') (hd (nd_Children example_tree), str ''a'')"
    using example_entry(2) by (simp add: meant_def)
  show ?thesis
    using fs_finds_entries [OF s'(1) example_sizes example_tree_ok(2,1) example_browsable _ _ serves_served s'(2), of None]
      example_entry m s'(1) by fastforce
qed

theorem fs_lists_children_witness:
  "\<exists>s' f es. em_run (\<lambda>_. 7) (syncSource no_files) None example_tree (new_emitter None None None) = (s', Inr ()) \<and>
     fs_open (served (em_out s')) (len64 (em_out s')) None 1 = Inr f \<and>
     fs_ReadDir (\<lambda>_. 7) f (str ''.'') = Inr es \<and> map fn_name es = [str ''a'']"
proof -
  obtain s' where s': "em_run (\<lambda>_. 7) (syncSource no_files) None example_tree (new_emitter None None None) = (s', Inr ())"
      "length (em_out s') < 2 ^ 61" using example_emits_short by blast
  have e: "(example_tree, []) \<in> set (preorder example_tree [])" "\<forall>c \<in> set (nd_Children example_tree). nd_Kind c \<noteq> KindHardlink"
      "map nd_Name (nd_Children example_tree) = [str ''a'']"
    by (simp_all add: example_tree_def preorder.simps)
  show ?thesis
    using fs_lists_children [OF s'(1) example_sizes example_tree_ok(2,1) example_browsable _ _ serves_served s'(2), of None]
      e s'(1) example_tree_ok(2) by fastforce
qed

theorem fs_reads_content_witness:
  "\<exists>s' f h h' e. em_run (\<lambda>_. 7) (syncSource no_files) None example_tree (new_emitter None None None) = (s', Inr ()) \<and>
     OpenV1 (served (em_out s')) (len64 (em_out s')) = Inr f \<and> fs_Open (\<lambda>_. 7) f (str ''a'') = Inr (OpenedFile h) \<and>
     file_Read f h 10 = (h', [5, 6], e)"
proof -
  obtain s' where s': "em_run (\<lambda>_. 7) (syncSource no_files) None example_tree (new_emitter None None None) = (s', Inr ())"
      "length (em_out s') < 2 ^ 61" using example_emits_short by blast
  let ?n = "hd (nd_Children example_tree)"
  have m: "meant example_tree (?n, str ''a'') (?n, str ''a'')" using example_entry(2) by (simp add: meant_def)
  have p: "take 10 (payload_image p) = [5, 6]" if "syncSource_open no_files ?n = Inr p" for p
    using that by (auto simp: syncSource_open_def example_tree_def zero_stat_def fit_def)
  obtain f where f: "OpenV1 (served (em_out s')) (len64 (em_out s')) = Inr f"
      "\<exists>h p. fs_Open (\<lambda>_. 7) f (str ''a'') = Inr (OpenedFile h) \<and> syncSource_open no_files ?n = Inr p \<and>
        (\<forall>want. \<exists>h' e. file_Read f h want = (h', take want (payload_image p), e) \<and> (payload_image p \<noteq> [] \<longrightarrow> e = None))"
    using fs_reads_content [OF s'(1) example_sizes example_tree_ok(2,1) example_browsable serves_served s'(2)]
      example_entry m by fastforce
  then show ?thesis using s'(1) p by metis
qed

theorem fs_last_special_fails_witness:
  "\<exists>s' f p. em_run (\<lambda>_. 7) (syncSource no_files) None fifo_tree (new_emitter None None None) = (s', Inr ()) \<and>
     fs_open (served (em_out s')) (len64 (em_out s')) None 1 = Inr f \<and>
     fs_Lstat (\<lambda>_. 7) f (str ''p'') = Inl (FsPathError ''lstat'' (str ''p'') (FsPx (PxTruncated p)))"
proof -
  obtain s' where s': "em_run (\<lambda>_. 7) (syncSource no_files) None fifo_tree (new_emitter None None None) = (s', Inr ())"
      "length (em_out s') < 2 ^ 61" using fifo_emits by blast
  let ?c = "hd (nd_Children fifo_tree)"
  have c: "nd_Children fifo_tree = [] @ [?c]" "nd_Kind ?c \<in> {KindFifo, KindSocket}" "distinct (map nd_Name (nd_Children fifo_tree))"
      "length (nd_Children fifo_tree) \<le> 2796201" "nd_Name ?c = str ''p''" by (simp_all add: fifo_tree_def fifo_node_def)
  show ?thesis
    using fs_last_special_fails [OF s'(1) fifo_tree_ok(3,1,2) _ _ serves_served s'(2) c(1-4), of None] example_entry(5) c(5) s'(1)
    by auto
qed

subsection \<open>Any archive\<close>

text \<open>
  C36: no archive can send a walk through its directories on forever.  Whatever the bytes of the archive
  are and whatever the source delivers, each directory that a directory lists lies inside it, at least 41
  bytes smaller, so a descent from the root has at most one directory per 41 bytes of the archive.
\<close>

theorem fs_descent_bounded:
  assumes "fs_open m sz payload version = Inr f" "0 \<le> sint sz" "sint sz < 2 ^ 62" "descends f (fs_root f) ds"
  shows "41 * int (length ds) \<le> sint sz"
proof -
  have r: "fn_start (fs_root f) = 0" "fn_end (fs_root f) = sz"
    using assms(1) by (auto simp: fs_open_def split: prod.splits sum.splits if_splits)
  then show ?thesis using descends_bounded [OF assms(4)] assms(2,3) by (simp add: span_ok_def)
qed

definition dir_node :: Node where
  "dir_node = Node (str ''d'') [] KindDirectory (zero_stat\<lparr> st_Mode := ModeDir OR 0x1FF \<rparr>) [] [] None [] 0 [] None"

definition dir_tree :: Node where
  "dir_tree = Node (str ''root'') [] KindDirectory (zero_stat\<lparr> st_Mode := ModeDir OR 0x1FF \<rparr>) [] [] None [] 0 [dir_node] None"

lemma dir_emits:
  "\<exists>s'. em_run H (syncSource no_files) None dir_tree (new_emitter None None None) = (s', Inr ()) \<and> length (em_out s') < 2 ^ 61"
  by (simp add: em_run_def dir_tree_def dir_node_def new_emitter_def em_node.simps em_write_def cn_write_free
      em_open_def syncSource_def AppendGoodbye_def permuteBST_def
      Len64.simps zero_stat_def Let_def cn_out_def metadataBytes_records extra_records_def entry_body_def
      append_records appendHeader_def goodbye_item_bytes_def del: append_assoc)

lemma dir_tree_ok:
  "nd_Kind dir_tree = KindDirectory" "tree_ok 0 dir_tree" "browsable dir_tree"
  "\<forall>n \<in> set (nodes_of dir_tree). \<forall>p. syncSource_open no_files n = Inr p \<longrightarrow> 0 \<le> sint (payload_Size p)"
proof -
  show k: "nd_Kind dir_tree = KindDirectory" by (simp add: dir_tree_def)
  have c: "nd_Children dir_tree = [dir_node]" "nd_Children dir_node = []" "nd_Kind dir_node = KindDirectory"
    by (simp_all add: dir_tree_def dir_node_def)
  have n: "node_ok dir_tree" "node_ok dir_node" "name_ok dir_node"
    by (simp_all add: dir_tree_def dir_node_def node_ok_def name_ok_def kind_mode_def modeType_def mode_defs
        zero_stat_def ValidateFilename_def)
  then have "tree_ok (0 + 1) dir_node" unfolding tree_ok.simps [of "0 + 1"] c by (simp add: maxDepth_px_def)
  then show "tree_ok 0 dir_tree" unfolding tree_ok.simps [of 0] using n c by (simp add: maxDepth_px_def)
  have "browsable dir_node" unfolding browsable.simps [of dir_node] c by simp
  then show "browsable dir_tree" unfolding browsable.simps [of dir_tree] c(1) using c(3) by simp
  have "set (nodes_of dir_tree) = {dir_tree, dir_node}"
    unfolding nodes_of.simps [of dir_tree] c list.map concat.simps nodes_of.simps [of dir_node] by simp
  then show "\<forall>n \<in> set (nodes_of dir_tree). \<forall>p. syncSource_open no_files n = Inr p \<longrightarrow> 0 \<le> sint (payload_Size p)"
    by (auto simp: dir_tree_def dir_node_def syncSource_open_def no_files_def zero_stat_def)
qed

theorem fs_descent_bounded_witness:
  "\<exists>s' f d. em_run (\<lambda>_. 7) (syncSource no_files) None dir_tree (new_emitter None None None) = (s', Inr ()) \<and>
     fs_open (served (em_out s')) (len64 (em_out s')) None 1 = Inr f \<and> descends f (fs_root f) [d] \<and>
     41 \<le> sint (len64 (em_out s') :: u64)"
proof -
  obtain s' where s': "em_run (\<lambda>_. 7) (syncSource no_files) None dir_tree (new_emitter None None None) = (s', Inr ())"
      "length (em_out s') < 2 ^ 61" using dir_emits by blast
  let ?P = "sync.holds no_files None" and ?B = "em_out s'"
  obtain f where f: "fs_open (served ?B) (len64 ?B) None 1 = Inr f" "view_on False ?P ?B f"
      "stands_for False ?P (\<lambda>_. 7) ?B dir_tree [] (fs_root f) []"
    using emitted_view [OF s'(1) dir_tree_ok(4,1-3) _ _ serves_served s'(2), of None] by auto
  have d: "dir_at False ?P (\<lambda>_. 7) ?B (fs_root f) dir_tree" using f(3) dir_tree_ok(1) by (simp add: stands_for_def fs_shows_def)
  obtain items gb where g: "fs_goodbye f (fs_root f) = Inr (items, gb)"
      "list_all2 (item_shows False ?P (\<lambda>_. 7) ?B f (fs_root f) gb) (nd_Children dir_tree) items"
    using dir_items [OF f(2) d dir_tree_ok(2,3)] by blast
  have c: "nd_Children dir_tree = [dir_node]" "nd_Kind dir_node = KindDirectory" by (simp_all add: dir_tree_def dir_node_def)
  obtain it c ct where i: "it \<in> set items" "fs_child f (fs_root f) it gb = Inr c"
      "fs_shows False ?P (\<lambda>_. 7) ?B (dir_node, joinArchive (pn_Path (fn_Node (fs_root f))) (nd_Name dir_node)) c ct"
    using g(2) unfolding c(1) list_all2_Cons1 item_shows_def by auto
  have "node_ok dir_node" using tree_ok_child(1) [OF dir_tree_ok(2,1), of dir_node] c(1) unfolding tree_ok.simps [of "0 + 1" dir_node] by simp
  note rf = reads_as_fields [OF conjunct1 [OF i(3) [unfolded fs_shows_def]] this]
  have t: "\<not> pn_Hardlink (fn_Node c)" "node_type c = ModeDir"
    using rf(2) kind_of_mode(1) [OF rf(3)] c(2) by (simp_all add: node_type_def)
  have ds: "descends f (fs_root f) [c]" using g(1) i(1,2) t by auto
  have "sint (len64 ?B :: u64) = int (length ?B)" using s'(2) by (intro sint_of_nat63) simp
  then show ?thesis using fs_descent_bounded [OF f(1) _ _ ds] s' f(1) ds by auto
qed

text \<open>
  A \<open>ReadDir\<close> that fails keeps the entries it had decoded; when the source recovers, the next call lists
  them a second time.
\<close>

lemma readdir_retry_duplicates:
  assumes "fs_goodbye f1 n = Inr (items, gb)" "load_entries H f1 n gb items = (part, Some e)"
    and "fs_goodbye f2 n = Inr (items, gb)" "load_entries H f2 n gb items = (cs, None)"
    and "dir_ReadDir H f1 (new_dirFile n) k = (d, r)"
  shows "r = Inl (DirError e)" "snd (dir_ReadDir H f2 d (-1)) = Inr (sort_key fn_name (part @ cs))"
  using assms by (auto simp: dir_ReadDir_def dir_load_def new_dirFile_def)

end
