(* ===== verification/Target.thy ===== *)
theory Target
  imports Fs_View
begin

unbundle bit_operations_syntax

text \<open>
  The file system below the directory a restore writes to, as the package \<open>restore\<close> uses it through an
  \<open>os.Root\<close> and, for metadata, through the system calls on a parent directory.

  Names are lists of components below the root, which is the empty list. They lead to inodes, which
  hard links share. An operation resolves its name the way \<open>os.Root\<close> does: symbolic links among the
  directories are followed as long as they stay below the root, the last component is not followed.
  Creating or removing a name sets the modification time of the directory that holds it.

  The world decides which operation fails, when the context is cancelled and what time it is; each is
  indexed by the number of operations before. An operation that the world lets fail has no effect.
\<close>

type_synonym comps = "bytes list"
type_synonym time = "int \<times> int"

datatype okind = ODir | OFile bytes | OSymlink bytes | ONode u32 u64

record inode =
  in_kind :: okind
  in_owner :: "u32 \<times> u32"
  in_perm :: u32
  in_xattrs :: "bytes \<rightharpoonup> bytes"
  in_mtime :: time

text \<open>
  \<open>tg_followed\<close> lists the changes of permissions that went through a symbolic link, with the link's
  target: the system call resolves it from the link's directory, with no regard to the root.
\<close>

record target =
  tg_names :: "comps \<rightharpoonup> nat"
  tg_inodes :: "nat \<Rightarrow> inode"
  tg_next :: nat
  tg_tick :: nat
  tg_followed :: "(comps \<times> bytes \<times> u32) list"

record world =
  wd_fault :: "nat \<Rightarrow> string option"
  wd_cancelled :: "nat \<Rightarrow> bool"
  wd_now :: "nat \<Rightarrow> time"
  wd_umask :: u32
  wd_ids :: "u32 \<times> u32"

datatype os_error =
    EExist
  | ENoEnt
  | ENotDir
  | ENotEmpty
  | EPerm
  | ELoop
  | EEscapes
  | EEmptyPath
  | EOther string

type_synonym 'a osres = "target \<times> (os_error + 'a)"

definition tg_step :: "world \<Rightarrow> target \<Rightarrow> (target \<Rightarrow> 'a osres) \<Rightarrow> 'a osres" where
  "tg_step W t f =
     (let t' = t\<lparr> tg_tick := Suc (tg_tick t) \<rparr> in
      case wd_fault W (tg_tick t) of
        Some e \<Rightarrow> (t', Inl (EOther e))
      | None \<Rightarrow> f t')"

definition ctx_Err :: "world \<Rightarrow> target \<Rightarrow> target \<times> bool" where
  "ctx_Err W t = (t\<lparr> tg_tick := Suc (tg_tick t) \<rparr>, wd_cancelled W (tg_tick t))"

abbreviation dot :: bytes where "dot \<equiv> str ''.''"
abbreviation dotdot :: bytes where "dotdot \<equiv> str ''..''"

definition tg_kind :: "target \<Rightarrow> comps \<Rightarrow> okind option" where
  "tg_kind t p = map_option (\<lambda>i. in_kind (tg_inodes t i)) (tg_names t p)"

definition tg_object :: "target \<Rightarrow> comps \<Rightarrow> inode option" where
  "tg_object t p = map_option (tg_inodes t) (tg_names t p)"

subsection \<open>Resolving names\<close>

text \<open>
  \<open>splitPathInRoot\<close> of the package \<open>os\<close>: the components of \<open>s\<close>, runs of separators being one, dots left
  out except at the end, followed by \<open>suffix\<close>.
\<close>

definition split_in_root :: "bytes \<Rightarrow> comps \<Rightarrow> os_error + comps" where
  "split_in_root s suffix =
     (if s = [] then Inl EEmptyPath
      else if hd s = slash then Inl EEscapes
      else
        (let parts = filter (\<lambda>c. c \<noteq> []) (split_slash s);
             inner = filter (\<lambda>c. c \<noteq> dot) (butlast parts);
             fin = (if suffix \<noteq> [] \<and> last parts = dot then [] else [last parts])
         in Inr (inner @ fin @ suffix)))"

text \<open>
  The walk of \<open>os.Root\<close>: directories are entered one by one, a parent component leaves the directory
  entered last and never the root, and at most \<open>k\<close> symbolic links are followed; with \<open>follow\<close> also the
  last component's. The result is the directory and the last component.
\<close>

function walk_in_root :: "target \<Rightarrow> bool \<Rightarrow> nat \<Rightarrow> comps \<Rightarrow> comps \<Rightarrow> os_error + (comps \<times> bytes)" where
  "walk_in_root t follow k at [] = Inr (if at = [] then ([], dot) else (butlast at, last at))"
| "walk_in_root t follow k at (c # cs) =
     (if c = dotdot then (if at = [] then Inl EEscapes else walk_in_root t follow k (butlast at) cs)
      else if cs = [] \<and> (c = dot \<or> \<not> follow) then Inr (at, c)
      else
        (case tg_kind t (at @ [c]) of
           Some (OSymlink l) \<Rightarrow>
             (case k of
                0 \<Rightarrow> Inl ELoop
              | Suc k' \<Rightarrow>
                  (case split_in_root l cs of
                     Inl e \<Rightarrow> Inl e
                   | Inr ps \<Rightarrow> walk_in_root t follow k' at ps))
         | ob \<Rightarrow>
             if cs = [] then Inr (at, c)
             else if ob = None then Inl ENoEnt
             else if ob = Some ODir then walk_in_root t follow k (at @ [c]) cs
             else Inl ENotDir))"
  by pat_completeness auto
termination
  by (relation "measures [\<lambda>(t, follow, k, at, cs). k, \<lambda>(t, follow, k, at, cs). length cs]") auto

declare walk_in_root.simps(2) [simp del]

definition rootMaxSymlinks :: nat where "rootMaxSymlinks = 8"

definition in_root :: "target \<Rightarrow> bool \<Rightarrow> bytes \<Rightarrow> os_error + comps" where
  "in_root t follow name =
     (case split_in_root name [] of
        Inl e \<Rightarrow> Inl e
      | Inr ps \<Rightarrow>
          (case walk_in_root t follow rootMaxSymlinks [] ps of
             Inl e \<Rightarrow> Inl e
           | Inr (at, c) \<Rightarrow> Inr (if c = dot then at else at @ [c])))"

subsection \<open>Operations\<close>

definition set_inode :: "nat \<Rightarrow> (inode \<Rightarrow> inode) \<Rightarrow> target \<Rightarrow> target" where
  "set_inode i f t = t\<lparr> tg_inodes := (tg_inodes t)(i := f (tg_inodes t i)) \<rparr>"

text \<open>The modification time of the directory that holds a name.\<close>

definition touch_parent :: "world \<Rightarrow> comps \<Rightarrow> target \<Rightarrow> target" where
  "touch_parent W p t =
     (case tg_names t (butlast p) of
        None \<Rightarrow> t
      | Some i \<Rightarrow> set_inode i (in_mtime_update (\<lambda>_. wd_now W (tg_tick t))) t)"

definition fresh_inode :: "world \<Rightarrow> target \<Rightarrow> okind \<Rightarrow> u32 \<Rightarrow> inode" where
  "fresh_inode W t k perm = \<lparr> in_kind = k, in_owner = wd_ids W, in_perm = perm AND NOT (wd_umask W),
     in_xattrs = Map.empty, in_mtime = wd_now W (tg_tick t) \<rparr>"

text \<open>A new name for a new inode, in a directory that exists.\<close>

definition tg_add :: "world \<Rightarrow> comps \<Rightarrow> okind \<Rightarrow> u32 \<Rightarrow> target \<Rightarrow> nat osres" where
  "tg_add W p k perm t =
     (if tg_names t p \<noteq> None then (t, Inl EExist)
      else if tg_kind t (butlast p) \<noteq> Some ODir then (t, Inl ENotDir)
      else
        (let i = tg_next t in
         (touch_parent W p (t\<lparr> tg_names := (tg_names t)(p \<mapsto> i),
            tg_inodes := (tg_inodes t)(i := fresh_inode W t k perm), tg_next := Suc i \<rparr>), Inr i)))"

definition root_add :: "world \<Rightarrow> bytes \<Rightarrow> okind \<Rightarrow> u32 \<Rightarrow> target \<Rightarrow> nat osres" where
  "root_add W name k perm t =
     tg_step W t (\<lambda>t. case in_root t False name of Inl e \<Rightarrow> (t, Inl e) | Inr p \<Rightarrow> tg_add W p k perm t)"

definition root_Lstat :: "world \<Rightarrow> bytes \<Rightarrow> target \<Rightarrow> bool osres" where
  "root_Lstat W name t =
     tg_step W t (\<lambda>t. case in_root t False name of
         Inl e \<Rightarrow> (t, Inl e)
       | Inr p \<Rightarrow> (t, case tg_kind t p of None \<Rightarrow> Inl ENoEnt | Some k \<Rightarrow> Inr (k = ODir)))"

definition root_Remove :: "world \<Rightarrow> bytes \<Rightarrow> target \<Rightarrow> unit osres" where
  "root_Remove W name t =
     tg_step W t (\<lambda>t. case in_root t False name of
         Inl e \<Rightarrow> (t, Inl e)
       | Inr p \<Rightarrow>
           (case tg_kind t p of
              None \<Rightarrow> (t, Inl ENoEnt)
            | Some k \<Rightarrow>
                if p = [] then (t, Inl EPerm)
                else if k = ODir \<and> (\<exists>q \<in> dom (tg_names t). q \<noteq> [] \<and> butlast q = p) then (t, Inl ENotEmpty)
                else (touch_parent W p (t\<lparr> tg_names := (tg_names t)(p := None) \<rparr>), Inr ())))"

definition root_Mkdir :: "world \<Rightarrow> bytes \<Rightarrow> u32 \<Rightarrow> target \<Rightarrow> nat osres" where
  "root_Mkdir W name perm t = root_add W name ODir perm t"

text \<open>\<open>OpenFile\<close> with \<open>O_WRONLY|O_CREATE|O_EXCL\<close>; the file is its inode.\<close>

definition root_OpenFile :: "world \<Rightarrow> bytes \<Rightarrow> u32 \<Rightarrow> target \<Rightarrow> nat osres" where
  "root_OpenFile W name perm t = root_add W name (OFile []) perm t"

definition root_Symlink :: "world \<Rightarrow> bytes \<Rightarrow> bytes \<Rightarrow> target \<Rightarrow> nat osres" where
  "root_Symlink W link name t = root_add W name (OSymlink link) (NOT 0) t"

definition root_Link :: "world \<Rightarrow> bytes \<Rightarrow> bytes \<Rightarrow> target \<Rightarrow> unit osres" where
  "root_Link W old name t =
     tg_step W t (\<lambda>t.
       case (in_root t False old, in_root t False name) of
         (Inl e, _) \<Rightarrow> (t, Inl e)
       | (_, Inl e) \<Rightarrow> (t, Inl e)
       | (Inr p, Inr q) \<Rightarrow>
           (case tg_names t p of
              None \<Rightarrow> (t, Inl ENoEnt)
            | Some i \<Rightarrow>
                if tg_names t q \<noteq> None then (t, Inl EExist)
                else if tg_kind t (butlast q) \<noteq> Some ODir then (t, Inl ENotDir)
                else if in_kind (tg_inodes t i) = ODir then (t, Inl EPerm)
                else (touch_parent W q (t\<lparr> tg_names := (tg_names t)(q \<mapsto> i) \<rparr>), Inr ())))"

definition file_Write :: "world \<Rightarrow> nat \<Rightarrow> bytes \<Rightarrow> target \<Rightarrow> unit osres" where
  "file_Write W i bs t =
     tg_step W t (\<lambda>t.
       (set_inode i (\<lambda>f. f\<lparr> in_kind := (case in_kind f of OFile c \<Rightarrow> OFile (c @ bs) | k \<Rightarrow> k),
          in_mtime := wd_now W (tg_tick t) \<rparr>) t, Inr ()))"

definition file_Close :: "world \<Rightarrow> target \<Rightarrow> unit osres" where
  "file_Close W t = tg_step W t (\<lambda>t. (t, Inr ()))"

text \<open>A call on the component \<open>base\<close> of an open directory that does not follow a symbolic link.\<close>

definition at_dir :: "comps \<Rightarrow> bytes \<Rightarrow> comps" where
  "at_dir d base = (if base = dot then d else d @ [base])"

definition sys_at :: "world \<Rightarrow> comps \<Rightarrow> bytes \<Rightarrow> (inode \<Rightarrow> inode) \<Rightarrow> target \<Rightarrow> unit osres" where
  "sys_at W d base f t =
     tg_step W t (\<lambda>t.
       case tg_names t (at_dir d base) of
         None \<Rightarrow> (t, Inl ENoEnt)
       | Some i \<Rightarrow> (set_inode i f t, Inr ()))"

text \<open>A change of owner takes the capabilities and the set-id bits of anything but a directory.\<close>

definition chown_inode :: "u32 \<times> u32 \<Rightarrow> inode \<Rightarrow> inode" where
  "chown_inode ids f =
     (if in_kind f = ODir then f\<lparr> in_owner := ids \<rparr>
      else f\<lparr> in_owner := ids, in_perm := in_perm f AND NOT 0xC00,
        in_xattrs := (in_xattrs f)(str ''security.capability'' := None) \<rparr>)"

text \<open>\<open>fchmodat\<close> without flags, which follows one.\<close>

definition sys_chmod :: "world \<Rightarrow> comps \<Rightarrow> bytes \<Rightarrow> u32 \<Rightarrow> target \<Rightarrow> unit osres" where
  "sys_chmod W d base perm t =
     (case tg_kind t (at_dir d base) of
        Some (OSymlink l) \<Rightarrow> tg_step W t (\<lambda>t. (t\<lparr> tg_followed := tg_followed t @ [(at_dir d base, l, perm)] \<rparr>, Inr ()))
      | _ \<Rightarrow> sys_at W d base (in_perm_update (\<lambda>_. perm)) t)"

definition sys_mknod :: "world \<Rightarrow> comps \<Rightarrow> bytes \<Rightarrow> u32 \<Rightarrow> u64 \<Rightarrow> target \<Rightarrow> unit osres" where
  "sys_mknod W d base mode dev t =
     tg_step W t (\<lambda>t.
       case tg_add W (at_dir d base) (ONode (mode AND 0xF000) dev) (mode AND 0x1FF) t of
         (t, Inl e) \<Rightarrow> (t, Inl e)
       | (t, Inr _) \<Rightarrow> (t, Inr ()))"

text \<open>\<open>Open\<close> of a directory, followed through symbolic links below the root.\<close>

definition root_Open :: "world \<Rightarrow> bytes \<Rightarrow> target \<Rightarrow> comps osres" where
  "root_Open W name t =
     tg_step W t (\<lambda>t. case in_root t True name of
         Inl e \<Rightarrow> (t, Inl e)
       | Inr p \<Rightarrow> (t, if tg_names t p = None then Inl ENoEnt else Inr p))"

end
