(* ===== verification/Acl.thy ===== *)
theory Acl
  imports Pxar_Reader
begin

unbundle bit_operations_syntax

text \<open>
  POSIX access control lists as the kernel keeps them: \<open>parseACLXattr\<close> of the scanner
  (\<^verbatim>\<open>src/scan/linux.go\<close>), which turns the extended attributes into the records of the archive, and
  \<open>accessACL\<close> and \<open>defaultACL\<close> of the restore (\<^verbatim>\<open>src/restore/linux.go\<close>), which turn them back.
  An attribute in the order the kernel writes it comes back byte for byte.
\<close>

subsection \<open>Scanning\<close>

definition aclVersion :: u32 where "aclVersion = 2"
definition aclTagUserObj :: "16 word" where "aclTagUserObj = 0x01"
definition aclTagUser :: "16 word" where "aclTagUser = 0x02"
definition aclTagGroupObj :: "16 word" where "aclTagGroupObj = 0x04"
definition aclTagGroup :: "16 word" where "aclTagGroup = 0x08"
definition aclTagMask :: "16 word" where "aclTagMask = 0x10"
definition aclTagOther :: "16 word" where "aclTagOther = 0x20"

lemmas acl_tags = aclTagUserObj_def aclTagUser_def aclTagGroupObj_def aclTagGroup_def aclTagMask_def aclTagOther_def

datatype acl_error = AclLength nat | AclVersion u32 | AclTag "16 word"

record aclVars =
  av_users :: "ACLUser list"
  av_groups :: "ACLGroup list"
  av_userObj :: u64
  av_groupObj :: u64
  av_other :: u64
  av_mask :: u64
  av_haveMask :: bool

definition zero_vars :: aclVars where
  "zero_vars = \<lparr> av_users = [], av_groups = [], av_userObj = 0, av_groupObj = 0, av_other = 0, av_mask = 0, av_haveMask = False \<rparr>"

text \<open>The body of the loop, for one entry.\<close>

definition acl_entry :: "aclVars \<Rightarrow> 16 word \<Rightarrow> u64 \<Rightarrow> u32 \<Rightarrow> acl_error + aclVars" where
  "acl_entry a tag perm ident =
     (if tag = aclTagUserObj then Inr (a\<lparr> av_userObj := perm \<rparr>)
      else if tag = aclTagUser then Inr (a\<lparr> av_users := av_users a @ [\<lparr> au_UID = ucast ident, au_Permissions = perm \<rparr>] \<rparr>)
      else if tag = aclTagGroupObj then Inr (a\<lparr> av_groupObj := perm \<rparr>)
      else if tag = aclTagGroup then Inr (a\<lparr> av_groups := av_groups a @ [\<lparr> ag_GID = ucast ident, ag_Permissions = perm \<rparr>] \<rparr>)
      else if tag = aclTagMask then Inr (a\<lparr> av_mask := perm, av_haveMask := True \<rparr>)
      else if tag = aclTagOther then Inr (a\<lparr> av_other := perm \<rparr>)
      else Inl (AclTag tag))"

function acl_loop :: "aclVars \<Rightarrow> bytes \<Rightarrow> acl_error + aclVars" where
  "acl_loop a rest =
     (if 8 \<le> length rest then
        (case acl_entry a (get16 rest) (ucast (get16 (drop 2 rest))) (get32 (drop 4 rest)) of
           Inl e \<Rightarrow> Inl e
         | Inr a' \<Rightarrow> acl_loop a' (drop 8 rest))
      else Inr a)"
  by pat_completeness auto
termination
  by (relation "measure (\<lambda>(a, rest). length rest)") auto

declare acl_loop.simps [simp del]

text \<open>\<open>sort.Slice\<close> leaves the order of equal identifiers open, which the kernel does not have; taken as stable.\<close>

definition parseACLXattr :: "bytes \<Rightarrow> ACLs \<Rightarrow> bool \<Rightarrow> acl_error + ACLs" where
  "parseACLXattr data out isDefault =
     (if length data < 4 \<or> (length data - 4) mod 8 \<noteq> 0 then Inl (AclLength (length data))
      else if get32 data \<noteq> aclVersion then Inl (AclVersion (get32 data))
      else
        (case acl_loop zero_vars (drop 4 data) of
           Inl e \<Rightarrow> Inl e
         | Inr a \<Rightarrow>
             (let users = sort_key au_UID (av_users a); groups = sort_key ag_GID (av_groups a) in
              if isDefault then
                Inr (out\<lparr> acl_Default := Some \<lparr> ad_UserObjPermissions = av_userObj a, ad_GroupObjPermissions = av_groupObj a,
                       ad_OtherPermissions = av_other a,
                       ad_MaskPermissions = (if av_haveMask a then av_mask a else ACLNoMask) \<rparr>,
                     acl_DefaultUsers := users, acl_DefaultGroups := groups \<rparr>)
              else
                Inr (out\<lparr> acl_Users := users, acl_Groups := groups,
                     acl_GroupObj := (if av_haveMask a then Some (av_groupObj a) else acl_GroupObj out) \<rparr>))))"

text \<open>\<open>ACLs\<close> of the Linux reader; \<open>None\<close> as an attribute is one that does not exist or is not supported.\<close>

definition reader_ACLs :: "bytes option \<Rightarrow> bytes option \<Rightarrow> acl_error + ACLs option" where
  "reader_ACLs acc deflt =
     (case (case acc of None \<Rightarrow> Inr no_acls | Some x \<Rightarrow> parseACLXattr x no_acls False) of
        Inl e \<Rightarrow> Inl e
      | Inr out \<Rightarrow>
          (case (case deflt of None \<Rightarrow> Inr out | Some x \<Rightarrow> parseACLXattr x out True) of
             Inl e \<Rightarrow> Inl e
           | Inr out \<Rightarrow> Inr (if out = no_acls then None else Some out)))"

subsection \<open>Restoring\<close>

definition aclUndefinedID :: u32 where "aclUndefinedID = 0xffffffff"

definition appendACLEntry :: "bytes \<Rightarrow> 16 word \<Rightarrow> u64 \<Rightarrow> u32 \<Rightarrow> bytes" where
  "appendACLEntry b tag perm ident = b @ le_bytes 2 tag @ le_bytes 2 (ucast perm :: 16 word) @ put32 ident"

definition accessACL :: "u64 \<Rightarrow> ACLs \<Rightarrow> bytes" where
  "accessACL mode acl =
     (let b = put32 aclVersion;
          b = appendACLEntry b aclTagUserObj (drop_bit 6 mode AND 7) aclUndefinedID;
          b = foldl (\<lambda>b u. appendACLEntry b aclTagUser (au_Permissions u) (ucast (au_UID u))) b (acl_Users acl);
          groupObj = (case acl_GroupObj acl of None \<Rightarrow> drop_bit 3 mode AND 7 | Some g \<Rightarrow> g);
          b = appendACLEntry b aclTagGroupObj groupObj aclUndefinedID;
          b = foldl (\<lambda>b g. appendACLEntry b aclTagGroup (ag_Permissions g) (ucast (ag_GID g))) b (acl_Groups acl);
          b = (if acl_GroupObj acl \<noteq> None then appendACLEntry b aclTagMask (drop_bit 3 mode AND 7) aclUndefinedID else b)
      in appendACLEntry b aclTagOther (mode AND 7) aclUndefinedID)"

text \<open>\<open>defaultACL\<close>, called only when there is a default record \<open>d\<close>.\<close>

definition defaultACL :: "ACLs \<Rightarrow> ACLDefault \<Rightarrow> bytes" where
  "defaultACL acl d =
     (let b = put32 aclVersion;
          b = appendACLEntry b aclTagUserObj (ad_UserObjPermissions d) aclUndefinedID;
          b = foldl (\<lambda>b u. appendACLEntry b aclTagUser (au_Permissions u) (ucast (au_UID u))) b (acl_DefaultUsers acl);
          b = appendACLEntry b aclTagGroupObj (ad_GroupObjPermissions d) aclUndefinedID;
          b = foldl (\<lambda>b g. appendACLEntry b aclTagGroup (ag_Permissions g) (ucast (ag_GID g))) b (acl_DefaultGroups acl);
          b = (if ad_MaskPermissions d \<noteq> ACLNoMask then appendACLEntry b aclTagMask (ad_MaskPermissions d) aclUndefinedID else b)
      in appendACLEntry b aclTagOther (ad_OtherPermissions d) aclUndefinedID)"

text \<open>
  Which attributes \<open>setXattrs\<close> sets, in order. A node without capabilities and one with an empty
  capability record, which the encoder never writes, are the same here.
\<close>

definition acl_xattrs :: "PNode \<Rightarrow> (bytes \<times> bytes) list" where
  "acl_xattrs n =
     map (\<lambda>x. (xa_Name x, xa_Value x)) (pn_Xattrs n) @
     (case pn_ACL n of
        None \<Rightarrow> []
      | Some acl \<Rightarrow>
          (if acl_Users acl \<noteq> [] \<or> acl_Groups acl \<noteq> [] \<or> acl_GroupObj acl \<noteq> None
           then [(str ''system.posix_acl_access'', accessACL (pe_Mode (pn_Entry n)) acl)] else []) @
          (case acl_Default acl of None \<Rightarrow> [] | Some d \<Rightarrow> [(str ''system.posix_acl_default'', defaultACL acl d)])) @
     (if pn_FCaps n \<noteq> [] then [(str ''security.capability'', pn_FCaps n)] else [])"

subsection \<open>The attribute as the kernel writes it\<close>

text \<open>
  An access control list as the kernel holds it, and its external representation: the owner, the named
  users by identifier, the owning group, the named groups by identifier, the mask if there is one and
  the others (\<open>posix_acl_to_xattr\<close> of \<^verbatim>\<open>linux/posix_acl_xattr.h\<close>).
\<close>

record posix_acl =
  k_owner :: "16 word"
  k_users :: "(u32 \<times> 16 word) list"
  k_group :: "16 word"
  k_groups :: "(u32 \<times> 16 word) list"
  k_mask :: "16 word option"
  k_other :: "16 word"

definition entry_image :: "16 word \<Rightarrow> 16 word \<Rightarrow> u32 \<Rightarrow> bytes" where
  "entry_image tag perm ident = le_bytes 2 tag @ le_bytes 2 perm @ put32 ident"

definition acl_image :: "posix_acl \<Rightarrow> bytes" where
  "acl_image a = put32 aclVersion @
     concat ([entry_image aclTagUserObj (k_owner a) aclUndefinedID] @
       map (\<lambda>(i, p). entry_image aclTagUser p i) (k_users a) @
       [entry_image aclTagGroupObj (k_group a) aclUndefinedID] @
       map (\<lambda>(i, p). entry_image aclTagGroup p i) (k_groups a) @
       (case k_mask a of None \<Rightarrow> [] | Some m \<Rightarrow> [entry_image aclTagMask m aclUndefinedID]) @
       [entry_image aclTagOther (k_other a) aclUndefinedID])"

definition acl_sorted :: "posix_acl \<Rightarrow> bool" where
  "acl_sorted a \<longleftrightarrow> sorted (map fst (k_users a)) \<and> sorted (map fst (k_groups a))"

text \<open>
  The permission bits of the file's mode, which the kernel derives from its list: the group bits are the
  mask when there is one. A list that says no more than the mode is not stored.
\<close>

definition mode_agrees :: "u64 \<Rightarrow> posix_acl \<Rightarrow> bool" where
  "mode_agrees mode a \<longleftrightarrow>
     drop_bit 6 mode AND 7 = ucast (k_owner a) \<and>
     drop_bit 3 mode AND 7 = ucast (case k_mask a of None \<Rightarrow> k_group a | Some m \<Rightarrow> m) \<and>
     mode AND 7 = ucast (k_other a)"

definition acl_stored :: "posix_acl \<Rightarrow> bool" where
  "acl_stored a \<longleftrightarrow> k_users a \<noteq> [] \<or> k_groups a \<noteq> [] \<or> k_mask a \<noteq> None"

subsection \<open>Reading it\<close>

abbreviation user_of :: "u32 \<times> 16 word \<Rightarrow> ACLUser" where
  "user_of x \<equiv> \<lparr> au_UID = ucast (fst x), au_Permissions = ucast (snd x) \<rparr>"
abbreviation group_of :: "u32 \<times> 16 word \<Rightarrow> ACLGroup" where
  "group_of x \<equiv> \<lparr> ag_GID = ucast (fst x), ag_Permissions = ucast (snd x) \<rparr>"

lemma length_entry_image [simp]: "length (entry_image tag perm ident) = 8"
  by (simp add: entry_image_def)

lemma get16_le_bytes: "get16 (le_bytes 2 w @ xs) = w"
  by (simp add: get16_def le_word_le_bytes take_bit_word_eq_self)

lemma acl_loop_entry:
  "acl_loop a (entry_image tag perm ident @ rest) =
     (case acl_entry a tag (ucast perm) ident of Inl e \<Rightarrow> Inl e | Inr a' \<Rightarrow> acl_loop a' rest)"
proof -
  have "get16 (entry_image tag perm ident @ rest) = tag"
    "get16 (drop 2 (entry_image tag perm ident @ rest)) = perm"
    "get32 (drop 4 (entry_image tag perm ident @ rest)) = ident"
    by (simp_all add: entry_image_def get16_le_bytes)
  moreover have "drop 8 (entry_image tag perm ident @ rest) = rest"
    by simp
  ultimately show ?thesis
    by (subst acl_loop.simps) (simp del: drop_append split: sum.split)
qed

lemma acl_entry_tags [simp]:
  "acl_entry a aclTagUserObj perm ident = Inr (a\<lparr> av_userObj := perm \<rparr>)"
  "acl_entry a aclTagUser perm ident = Inr (a\<lparr> av_users := av_users a @ [\<lparr> au_UID = ucast ident, au_Permissions = perm \<rparr>] \<rparr>)"
  "acl_entry a aclTagGroupObj perm ident = Inr (a\<lparr> av_groupObj := perm \<rparr>)"
  "acl_entry a aclTagGroup perm ident = Inr (a\<lparr> av_groups := av_groups a @ [\<lparr> ag_GID = ucast ident, ag_Permissions = perm \<rparr>] \<rparr>)"
  "acl_entry a aclTagMask perm ident = Inr (a\<lparr> av_mask := perm, av_haveMask := True \<rparr>)"
  "acl_entry a aclTagOther perm ident = Inr (a\<lparr> av_other := perm \<rparr>)"
  by (simp_all add: acl_entry_def acl_tags)

lemma acl_loop_users:
  "acl_loop a (concat (map (\<lambda>(i, p). entry_image aclTagUser p i) us) @ rest) =
     acl_loop (a\<lparr> av_users := av_users a @ map user_of us \<rparr>) rest"
  by (induction us arbitrary: a) (auto simp: acl_loop_entry)

lemma acl_loop_groups:
  "acl_loop a (concat (map (\<lambda>(i, p). entry_image aclTagGroup p i) gs) @ rest) =
     acl_loop (a\<lparr> av_groups := av_groups a @ map group_of gs \<rparr>) rest"
  by (induction gs arbitrary: a) (auto simp: acl_loop_entry)

definition vars_of :: "posix_acl \<Rightarrow> aclVars" where
  "vars_of a = \<lparr> av_users = map user_of (k_users a), av_groups = map group_of (k_groups a),
     av_userObj = ucast (k_owner a), av_groupObj = ucast (k_group a), av_other = ucast (k_other a),
     av_mask = (case k_mask a of None \<Rightarrow> 0 | Some m \<Rightarrow> ucast m), av_haveMask = (k_mask a \<noteq> None) \<rparr>"

lemma acl_loop_image: "acl_loop zero_vars (drop 4 (acl_image a)) = Inr (vars_of a)"
proof -
  have nil: "acl_loop v [] = Inr v" for v
    by (simp add: acl_loop.simps [of v "[]"])
  have last: "acl_loop v (entry_image aclTagOther p i) = Inr (v\<lparr> av_other := ucast p \<rparr>)" for v p i
    using acl_loop_entry [of v aclTagOther p i "[]"] by (simp add: nil)
  show ?thesis
    by (cases "k_mask a")
      (simp_all add: acl_image_def acl_loop_entry acl_loop_users acl_loop_groups last zero_vars_def vars_of_def)
qed

lemma image_length_mod: "(length (acl_image a) - 4) mod 8 = 0"
proof -
  have "length (concat (map (\<lambda>(i, p). entry_image t p i) xs)) = 8 * length xs" for t xs
    by (induction xs) auto
  thus ?thesis
    by (simp add: acl_image_def mod_Suc split: option.split)
qed

lemma ucast_mono: "x \<le> y \<Longrightarrow> (ucast x :: u64) \<le> ucast (y :: u32)"
proof -
  have "uint (ucast z :: u64) = uint z" for z :: u32
    by transfer simp
  thus "x \<le> y \<Longrightarrow> (ucast x :: u64) \<le> ucast y"
    by (simp add: word_le_def)
qed

lemma sorted_ucast: "sorted (map fst (xs :: (u32 \<times> 'a) list)) \<Longrightarrow> sorted (map (\<lambda>x. ucast (fst x) :: u64) xs)"
  by (induction xs) (auto intro: ucast_mono)

lemma image_sorted:
  assumes "acl_sorted a"
  shows "sort_key au_UID (map user_of (k_users a)) = map user_of (k_users a)"
    "sort_key ag_GID (map group_of (k_groups a)) = map group_of (k_groups a)"
  using assms unfolding acl_sorted_def
  by (auto intro!: sort_key_id_if_sorted simp: comp_def sorted_ucast)

lemma parse_image:
  assumes "acl_sorted a"
  shows "parseACLXattr (acl_image a) out False =
           Inr (out\<lparr> acl_Users := map user_of (k_users a), acl_Groups := map group_of (k_groups a),
             acl_GroupObj := (if k_mask a \<noteq> None then Some (ucast (k_group a)) else acl_GroupObj out) \<rparr>)"
    "parseACLXattr (acl_image a) out True =
       Inr (out\<lparr> acl_Default := Some \<lparr> ad_UserObjPermissions = ucast (k_owner a), ad_GroupObjPermissions = ucast (k_group a),
              ad_OtherPermissions = ucast (k_other a),
              ad_MaskPermissions = (case k_mask a of None \<Rightarrow> ACLNoMask | Some m \<Rightarrow> ucast m) \<rparr>,
            acl_DefaultUsers := map user_of (k_users a), acl_DefaultGroups := map group_of (k_groups a) \<rparr>)"
proof -
  have "4 \<le> length (acl_image a)" "get32 (acl_image a) = aclVersion"
    by (simp_all add: acl_image_def)
  thus "parseACLXattr (acl_image a) out False =
           Inr (out\<lparr> acl_Users := map user_of (k_users a), acl_Groups := map group_of (k_groups a),
             acl_GroupObj := (if k_mask a \<noteq> None then Some (ucast (k_group a)) else acl_GroupObj out) \<rparr>)"
    "parseACLXattr (acl_image a) out True =
       Inr (out\<lparr> acl_Default := Some \<lparr> ad_UserObjPermissions = ucast (k_owner a), ad_GroupObjPermissions = ucast (k_group a),
              ad_OtherPermissions = ucast (k_other a),
              ad_MaskPermissions = (case k_mask a of None \<Rightarrow> ACLNoMask | Some m \<Rightarrow> ucast m) \<rparr>,
            acl_DefaultUsers := map user_of (k_users a), acl_DefaultGroups := map group_of (k_groups a) \<rparr>)"
    using image_length_mod [of a]
    by (auto simp: parseACLXattr_def Let_def acl_loop_image vars_of_def image_sorted [OF assms] split: option.split)
qed

subsection \<open>Writing it\<close>

lemma ucast_back [simp]:
  "(ucast (ucast (x :: 16 word) :: u64) :: 16 word) = x"
  "(ucast (ucast (y :: u32) :: u64) :: u32) = y"
  by (transfer, simp)+

lemma append_users:
  "foldl (\<lambda>b u. appendACLEntry b aclTagUser (au_Permissions u) (ucast (au_UID u))) b (map user_of us) =
     b @ concat (map (\<lambda>(i, p). entry_image aclTagUser p i) us)"
  by (induction us arbitrary: b) (auto simp: appendACLEntry_def entry_image_def)

lemma append_groups:
  "foldl (\<lambda>b g. appendACLEntry b aclTagGroup (ag_Permissions g) (ucast (ag_GID g))) b (map group_of gs) =
     b @ concat (map (\<lambda>(i, p). entry_image aclTagGroup p i) gs)"
  by (induction gs arbitrary: b) (auto simp: appendACLEntry_def entry_image_def)

lemma append_entry: "appendACLEntry b tag (ucast perm) ident = b @ entry_image tag perm ident"
  by (simp add: appendACLEntry_def entry_image_def)

lemma mask_narrow: "(ucast (m :: 16 word) :: u64) \<noteq> ACLNoMask"
proof -
  have "\<not> bit (ucast m :: u64) 20" "bit ACLNoMask 20"
    by (auto simp: ACLNoMask_def bit_simps dest: bit_imp_le_length)
  thus ?thesis
    by metis
qed

lemma access_image:
  assumes "mode_agrees mode a" "acl_Users acl = map user_of (k_users a)" "acl_Groups acl = map group_of (k_groups a)"
    "acl_GroupObj acl = (if k_mask a \<noteq> None then Some (ucast (k_group a)) else None)"
  shows "accessACL mode acl = acl_image a"
  using assms
  by (cases "k_mask a")
    (simp_all add: accessACL_def acl_image_def Let_def append_users append_groups append_entry mode_agrees_def)

lemma default_image:
  assumes "d = \<lparr> ad_UserObjPermissions = ucast (k_owner a), ad_GroupObjPermissions = ucast (k_group a),
              ad_OtherPermissions = ucast (k_other a),
              ad_MaskPermissions = (case k_mask a of None \<Rightarrow> ACLNoMask | Some m \<Rightarrow> ucast m) \<rparr>"
    "acl_DefaultUsers acl = map user_of (k_users a)" "acl_DefaultGroups acl = map group_of (k_groups a)"
  shows "defaultACL acl d = acl_image a"
  using assms
  by (cases "k_mask a")
    (simp_all add: defaultACL_def acl_image_def Let_def append_users append_groups append_entry mask_narrow)

subsection \<open>Scan and restore\<close>

definition access_records :: "posix_acl \<Rightarrow> ACLs \<Rightarrow> ACLs" where
  "access_records a out = out\<lparr> acl_Users := map user_of (k_users a), acl_Groups := map group_of (k_groups a),
     acl_GroupObj := (if k_mask a \<noteq> None then Some (ucast (k_group a)) else acl_GroupObj out) \<rparr>"

definition default_records :: "posix_acl \<Rightarrow> ACLs \<Rightarrow> ACLs" where
  "default_records a out =
     out\<lparr> acl_Default := Some \<lparr> ad_UserObjPermissions = ucast (k_owner a), ad_GroupObjPermissions = ucast (k_group a),
              ad_OtherPermissions = ucast (k_other a),
              ad_MaskPermissions = (case k_mask a of None \<Rightarrow> ACLNoMask | Some m \<Rightarrow> ucast m) \<rparr>,
            acl_DefaultUsers := map user_of (k_users a), acl_DefaultGroups := map group_of (k_groups a) \<rparr>"

lemma reader_records:
  assumes "\<And>a. acc = Some a \<Longrightarrow> acl_sorted a" "\<And>a. deflt = Some a \<Longrightarrow> acl_sorted a"
  shows "reader_ACLs (map_option acl_image acc) (map_option acl_image deflt) =
    (let out = (case deflt of None \<Rightarrow> id | Some d \<Rightarrow> default_records d)
                 ((case acc of None \<Rightarrow> id | Some a \<Rightarrow> access_records a) no_acls)
     in Inr (if out = no_acls then None else Some out))"
  using assms
  by (cases acc; cases deflt) (simp_all add: reader_ACLs_def parse_image access_records_def default_records_def Let_def)

lemma acl_xattrs_out:
  assumes "pn_ACL n = (if out = no_acls then None else Some out)"
  shows "acl_xattrs n = map (\<lambda>x. (xa_Name x, xa_Value x)) (pn_Xattrs n) @
      (if acl_Users out \<noteq> [] \<or> acl_Groups out \<noteq> [] \<or> acl_GroupObj out \<noteq> None
       then [(str ''system.posix_acl_access'', accessACL (pe_Mode (pn_Entry n)) out)] else []) @
      (case acl_Default out of None \<Rightarrow> [] | Some d \<Rightarrow> [(str ''system.posix_acl_default'', defaultACL out d)]) @
      (if pn_FCaps n \<noteq> [] then [(str ''security.capability'', pn_FCaps n)] else [])"
  using assms by (cases "out = no_acls") (simp_all add: acl_xattrs_def no_acls_def)

text \<open>
  C38: access control lists survive a backup. Whatever access and default lists a file has in the form in
  which the kernel keeps them, the scanner accepts both attributes, and a restore of a node that carries
  what it made of them and the file's mode sets exactly those two attributes again, byte for byte, between
  the node's other attributes and its capabilities; a list a file does not have is not set.
\<close>

theorem acl_xattrs_roundtrip:
  assumes acc: "\<And>a. acc = Some a \<Longrightarrow> acl_sorted a \<and> acl_stored a \<and> mode_agrees mode a"
    and deflt: "\<And>a. deflt = Some a \<Longrightarrow> acl_sorted a"
  shows "\<exists>acl. reader_ACLs (map_option acl_image acc) (map_option acl_image deflt) = Inr acl \<and>
    (\<forall>n. pn_ACL n = acl \<longrightarrow> pe_Mode (pn_Entry n) = mode \<longrightarrow>
      acl_xattrs n = map (\<lambda>x. (xa_Name x, xa_Value x)) (pn_Xattrs n) @
        (case acc of None \<Rightarrow> [] | Some a \<Rightarrow> [(str ''system.posix_acl_access'', acl_image a)]) @
        (case deflt of None \<Rightarrow> [] | Some a \<Rightarrow> [(str ''system.posix_acl_default'', acl_image a)]) @
        (if pn_FCaps n \<noteq> [] then [(str ''security.capability'', pn_FCaps n)] else []))"
proof -
  define out where "out = (case deflt of None \<Rightarrow> id | Some d \<Rightarrow> default_records d)
                 ((case acc of None \<Rightarrow> id | Some a \<Rightarrow> access_records a) no_acls)"
  have access: "(if acl_Users out \<noteq> [] \<or> acl_Groups out \<noteq> [] \<or> acl_GroupObj out \<noteq> None
       then [(str ''system.posix_acl_access'', accessACL mode out)] else []) =
     (case acc of None \<Rightarrow> [] | Some a \<Rightarrow> [(str ''system.posix_acl_access'', acl_image a)])"
  proof (cases acc)
    case None
    thus ?thesis
      by (auto simp: out_def default_records_def no_acls_def split: option.split)
  next
    case (Some a)
    have f: "acl_Users out = map user_of (k_users a)" "acl_Groups out = map group_of (k_groups a)"
      "acl_GroupObj out = (if k_mask a \<noteq> None then Some (ucast (k_group a)) else None)"
      using Some by (auto simp: out_def access_records_def default_records_def no_acls_def split: option.split)
    show ?thesis
      using acc [OF Some] access_image [OF _ f] Some f by (auto simp: acl_stored_def)
  qed
  have default: "(case acl_Default out of None \<Rightarrow> [] | Some d \<Rightarrow> [(str ''system.posix_acl_default'', defaultACL out d)]) =
     (case deflt of None \<Rightarrow> [] | Some a \<Rightarrow> [(str ''system.posix_acl_default'', acl_image a)])"
    by (cases deflt; cases acc)
      (simp_all add: out_def default_records_def access_records_def no_acls_def default_image [OF refl])
  show ?thesis
    using reader_records [of acc deflt] acc deflt acl_xattrs_out [of _ out] access default
    unfolding Let_def out_def [symmetric] by (intro exI conjI allI impI) auto
qed

text \<open>A file of mode 0754 with a named user, a mask and a default list.\<close>

definition demo_acl :: posix_acl where
  "demo_acl = \<lparr> k_owner = 7, k_users = [(1000, 6), (1001, 4)], k_group = 4, k_groups = [(50, 5)], k_mask = Some 5, k_other = 4 \<rparr>"

theorem acl_xattrs_roundtrip_witness:
  "acl_sorted demo_acl \<and> acl_stored demo_acl \<and> mode_agrees 492 demo_acl \<and>
   (\<exists>acl. reader_ACLs (Some (acl_image demo_acl)) (Some (acl_image demo_acl)) = Inr acl \<and>
    (\<forall>n. pn_ACL n = acl \<longrightarrow> pe_Mode (pn_Entry n) = 492 \<longrightarrow> pn_Xattrs n = [] \<longrightarrow> pn_FCaps n = [] \<longrightarrow>
      acl_xattrs n = [(str ''system.posix_acl_access'', acl_image demo_acl), (str ''system.posix_acl_default'', acl_image demo_acl)]))"
proof -
  have "acl_sorted demo_acl" "acl_stored demo_acl" "mode_agrees 492 demo_acl"
    by (simp_all add: demo_acl_def acl_sorted_def acl_stored_def mode_agrees_def)
  thus ?thesis
    using acl_xattrs_roundtrip [of "Some demo_acl" "492" "Some demo_acl"] by auto
qed

end
