(* ===== verification/Restore.thy ===== *)
theory Restore
  imports Target Acl
begin

unbundle bit_operations_syntax

text \<open>
  The sequential restore, \<^verbatim>\<open>src/restore/restore.go\<close>, with the metadata writer of Linux,
  \<^verbatim>\<open>src/restore/linux.go\<close>: \<open>Extract\<close> reads the entries of an archive one by one and writes them below the
  target directory; directory metadata is applied at the end, the deepest first.

  The extractor's state is a record with the target, the directories to finish, the skipped subtree and,
  as lists, what it gave to \<open>OnWarn\<close> and \<open>OnProgress\<close>. The content of a file is read from the archive's
  reader; a reader may return nothing for ever, so the copy loop is a partial function, and what it
  returns is proved.  \<open>unix.Mkdev\<close> and \<open>unix.NsecToTimespec\<close>, of a library, are arguments of the writer.
\<close>

subsection \<open>Warnings, errors, the platform\<close>

datatype warning =
    WOs os_error
  | WHardlink bytes os_error
  | WName string
  | WChown os_error
  | WXattrOpen os_error
  | WXattr bytes os_error
  | WXattrKind
  | WQuota
  | WChmod os_error
  | WMtime os_error

datatype restore_error =
    ErrTargetNotEmpty
  | RsCtx
  | RsOs os_error
  | RsInTheWay bytes
  | RsRead pxar_error
  | RsCopy bytes restore_error

text \<open>\<open>MetadataWriter\<close> and the platform's \<open>validName\<close>.\<close>

record platform =
  pf_validName :: "bytes \<Rightarrow> string option"
  pf_Mknod :: "world \<Rightarrow> bytes \<Rightarrow> PNode \<Rightarrow> target \<Rightarrow> target \<times> os_error option"
  pf_Apply :: "world \<Rightarrow> bytes \<Rightarrow> PNode \<Rightarrow> target \<Rightarrow> target \<times> warning list"

definition typeMask :: u64 where "typeMask = 0xF000"
definition modeSymlink :: u64 where "modeSymlink = 0xA000"
definition modeRegular :: u64 where "modeRegular = 0x8000"
definition modeDir :: u64 where "modeDir = 0x4000"

lemmas restore_modes = typeMask_def modeSymlink_def modeRegular_def modeDir_def

subsection \<open>The extractor\<close>

record extractor =
  x_Overwrite :: bool
  x_t :: target
  x_dirs :: "(bytes \<times> PNode) list"
  x_skip :: bytes
  x_warns :: "(bytes \<times> warning) list"
  x_progress :: "(bytes \<times> nat) list"

definition x_warn :: "bytes \<Rightarrow> warning \<Rightarrow> extractor \<Rightarrow> extractor" where
  "x_warn name w x = x\<lparr> x_warns := x_warns x @ [(name, w)] \<rparr>"

text \<open>
  \<open>newExtractor\<close>, for a directory with the content \<open>t\<close>, or that is created: making it, listing it
  without \<open>Overwrite\<close>, and opening it as a root.
\<close>

definition newExtractor :: "world \<Rightarrow> bool \<Rightarrow> target \<Rightarrow> target \<times> (restore_error + extractor)" where
  "newExtractor W overwrite t =
     (case tg_step W t (\<lambda>t. (t, Inr ())) of
        (t, Inl e) \<Rightarrow> (t, Inl (RsOs e))
      | (t, Inr _) \<Rightarrow>
          (case (if overwrite then (t, Inr False) else tg_step W t (\<lambda>t. (t, Inr (\<exists>q. tg_names t [q] \<noteq> None)))) of
             (t, Inl e) \<Rightarrow> (t, Inl (RsOs e))
           | (t, Inr nonempty) \<Rightarrow>
               if nonempty then (t, Inl ErrTargetNotEmpty)
               else
                 (case tg_step W t (\<lambda>t. (t, Inr ())) of
                    (t, Inl e) \<Rightarrow> (t, Inl (RsOs e))
                  | (t, Inr _) \<Rightarrow>
                      (t, Inr \<lparr> x_Overwrite = overwrite, x_t = t, x_dirs = [], x_skip = [], x_warns = [], x_progress = [] \<rparr>))))"

definition x_clear :: "world \<Rightarrow> bytes \<Rightarrow> bool \<Rightarrow> extractor \<Rightarrow> extractor \<times> restore_error option" where
  "x_clear W osName isDir x =
     (if \<not> x_Overwrite x then (x, None)
      else
        (case root_Lstat W osName (x_t x) of
           (t, Inl e) \<Rightarrow> (x\<lparr> x_t := t \<rparr>, None)
         | (t, Inr fiIsDir) \<Rightarrow>
             if fiIsDir then (x\<lparr> x_t := t \<rparr>, if isDir then None else Some (RsInTheWay osName))
             else
               (case root_Remove W osName t of
                  (t, Inl e) \<Rightarrow> (x\<lparr> x_t := t \<rparr>, Some (RsOs e))
                | (t, Inr _) \<Rightarrow> (x\<lparr> x_t := t \<rparr>, None))))"

text \<open>
  \<open>io.Copy\<close> from a \<open>ctxReader\<close> over the archive's reader: the context is looked at before every read of
  at most 32 KiB, and the bytes are written before the read's error is.
\<close>

definition copy_buffer :: nat where "copy_buffer = 32 * 1024"

partial_function (option) x_copy ::
  "world \<Rightarrow> bytes \<Rightarrow> nat \<Rightarrow> Reader_px \<Rightarrow> extractor \<Rightarrow> (Reader_px \<times> extractor \<times> restore_error option) option" where
  "x_copy W name i r x =
     (case ctx_Err W (x_t x) of (t, stop) \<Rightarrow>
        if stop then Some (r, x\<lparr> x_t := t \<rparr>, Some RsCtx)
        else
          (case px_Read r copy_buffer of
             (r, bs, er) \<Rightarrow>
               (case (if bs = [] then (x\<lparr> x_t := t \<rparr>, None)
                      else (case file_Write W i bs t of
                              (t, Inl e) \<Rightarrow> (x\<lparr> x_t := t, x_progress := x_progress x @ [(name, length bs)] \<rparr>, Some (RsOs e))
                            | (t, Inr _) \<Rightarrow> (x\<lparr> x_t := t, x_progress := x_progress x @ [(name, length bs)] \<rparr>, None))) of
                  (x, Some ew) \<Rightarrow> Some (r, x, Some ew)
                | (x, None) \<Rightarrow>
                    (case er of
                       None \<Rightarrow> x_copy W name i r x
                     | Some e \<Rightarrow> Some (r, x, if e = PxEOF then None else Some (RsRead e))))))"

definition x_apply :: "platform \<Rightarrow> world \<Rightarrow> bytes \<Rightarrow> PNode \<Rightarrow> extractor \<Rightarrow> extractor" where
  "x_apply P W name n x =
     (case pf_Apply P W name n (x_t x) of
        (t, ws) \<Rightarrow> x\<lparr> x_t := t, x_warns := x_warns x @ map (Pair name) ws \<rparr>)"

definition x_hardlink :: "world \<Rightarrow> bytes \<Rightarrow> PNode \<Rightarrow> extractor \<Rightarrow> extractor \<times> restore_error option" where
  "x_hardlink W name n x =
     (case x_clear W name False x of
        (x, Some e) \<Rightarrow> (x, Some e)
      | (x, None) \<Rightarrow>
          (case root_Link W (pn_LinkTarget n) name (x_t x) of
             (t, Inl e) \<Rightarrow> (x_warn name (WHardlink (pn_LinkTarget n) e) (x\<lparr> x_t := t \<rparr>), None)
           | (t, Inr _) \<Rightarrow> (x\<lparr> x_t := t \<rparr>, None)))"

definition x_directory :: "world \<Rightarrow> bytes \<Rightarrow> PNode \<Rightarrow> extractor \<Rightarrow> extractor \<times> restore_error option" where
  "x_directory W name n x =
     (case (if name = dot then (x, None)
            else
              (case x_clear W name True x of
                 (x, Some e) \<Rightarrow> (x, Some e)
               | (x, None) \<Rightarrow>
                   (case root_Mkdir W name 0x1C0 (x_t x) of
                      (t, Inl e) \<Rightarrow> (x\<lparr> x_t := t \<rparr>, if e = EExist then None else Some (RsOs e))
                    | (t, Inr _) \<Rightarrow> (x\<lparr> x_t := t \<rparr>, None)))) of
        (x, Some e) \<Rightarrow> (x, Some e)
      | (x, None) \<Rightarrow> (x\<lparr> x_dirs := x_dirs x @ [(name, n)] \<rparr>, None))"

definition x_symlink :: "platform \<Rightarrow> world \<Rightarrow> bytes \<Rightarrow> PNode \<Rightarrow> extractor \<Rightarrow> extractor \<times> restore_error option" where
  "x_symlink P W name n x =
     (case x_clear W name False x of
        (x, Some e) \<Rightarrow> (x, Some e)
      | (x, None) \<Rightarrow>
          (case root_Symlink W (pn_LinkTarget n) name (x_t x) of
             (t, Inl e) \<Rightarrow> (x_warn name (WOs e) (x\<lparr> x_t := t \<rparr>), None)
           | (t, Inr _) \<Rightarrow> (x_apply P W name n (x\<lparr> x_t := t \<rparr>), None)))"

definition x_special :: "platform \<Rightarrow> world \<Rightarrow> bytes \<Rightarrow> PNode \<Rightarrow> extractor \<Rightarrow> extractor \<times> restore_error option" where
  "x_special P W name n x =
     (case x_clear W name False x of
        (x, Some e) \<Rightarrow> (x, Some e)
      | (x, None) \<Rightarrow>
          (case pf_Mknod P W name n (x_t x) of
             (t, Some e) \<Rightarrow> (x_warn name (WOs e) (x\<lparr> x_t := t \<rparr>), None)
           | (t, None) \<Rightarrow> (x_apply P W name n (x\<lparr> x_t := t \<rparr>), None)))"

definition x_regular ::
  "platform \<Rightarrow> world \<Rightarrow> bytes \<Rightarrow> PNode \<Rightarrow> Reader_px \<Rightarrow> extractor \<Rightarrow> (Reader_px \<times> extractor \<times> restore_error option) option" where
  "x_regular P W name n r x =
     (case x_clear W name False x of
        (x, Some e) \<Rightarrow> Some (r, x, Some e)
      | (x, None) \<Rightarrow>
          (case root_OpenFile W name 0x180 (x_t x) of
             (t, Inl e) \<Rightarrow> Some (r, x\<lparr> x_t := t \<rparr>, Some (RsOs e))
           | (t, Inr i) \<Rightarrow>
               (case x_copy W name i r (x\<lparr> x_t := t \<rparr>) of
                  None \<Rightarrow> None
                | Some (r, x, err) \<Rightarrow>
                    (case file_Close W (x_t x) of
                       (t, cerr) \<Rightarrow>
                         (let x = x\<lparr> x_t := t \<rparr>;
                              err = (case err of Some e \<Rightarrow> Some e | None \<Rightarrow> (case cerr of Inl e \<Rightarrow> Some (RsOs e) | Inr _ \<Rightarrow> None))
                          in case err of
                               Some e \<Rightarrow> Some (r, x, Some (RsCopy name e))
                             | None \<Rightarrow> Some (r, x_apply P W name n x, None))))))"

definition x_entry ::
  "platform \<Rightarrow> world \<Rightarrow> PNode \<Rightarrow> bytes \<Rightarrow> Reader_px \<Rightarrow> extractor \<Rightarrow> (Reader_px \<times> extractor \<times> restore_error option) option" where
  "x_entry P W n rel r x =
     (case ctx_Err W (x_t x) of (t, stop) \<Rightarrow>
        if stop then Some (r, x\<lparr> x_t := t \<rparr>, Some RsCtx)
        else
          (let x = x\<lparr> x_t := t \<rparr>;
               name = (if rel = [] then dot else rel);
               ty = pe_Mode (pn_Entry n) AND typeMask;
               bad = (if name = dot then None else pf_validName P (slash_Base name))
           in if x_skip x \<noteq> [] \<and> has_prefix name (x_skip x @ [slash]) then Some (r, x, None)
              else if bad \<noteq> None then
                Some (r, (x_warn name (WName (the bad)) x)\<lparr> x_skip := (if ty = modeDir then name else x_skip x) \<rparr>, None)
              else if pn_Hardlink n then Some (r, x_hardlink W name n x)
              else if ty = modeDir then Some (r, x_directory W name n x)
              else if ty = modeRegular then x_regular P W name n r x
              else if ty = modeSymlink then Some (r, x_symlink P W name n x)
              else Some (r, x_special P W name n x)))"

text \<open>\<open>finish\<close>, over the directories from the last to the first.\<close>

fun finish_loop :: "platform \<Rightarrow> world \<Rightarrow> (bytes \<times> PNode) list \<Rightarrow> extractor \<Rightarrow> extractor \<times> restore_error option" where
  "finish_loop P W [] x = (x, None)"
| "finish_loop P W (d # ds) x =
     (case ctx_Err W (x_t x) of (t, stop) \<Rightarrow>
        if stop then (x\<lparr> x_t := t \<rparr>, Some RsCtx)
        else finish_loop P W ds (x_apply P W (fst d) (snd d) (x\<lparr> x_t := t \<rparr>)))"

definition x_finish :: "platform \<Rightarrow> world \<Rightarrow> extractor \<Rightarrow> extractor \<times> restore_error option" where
  "x_finish P W x = finish_loop P W (rev (x_dirs x)) x"

partial_function (option) extract_loop ::
  "platform \<Rightarrow> world \<Rightarrow> Reader_px \<Rightarrow> extractor \<Rightarrow> (extractor \<times> restore_error option) option" where
  "extract_loop P W r x =
     (case px_Next r of
        (r, Inl e) \<Rightarrow> if e = PxEOF then Some (x_finish P W x) else Some (x, Some (RsRead e))
      | (r, Inr n) \<Rightarrow>
          (case x_entry P W n (pn_Path n) r x of
             None \<Rightarrow> None
           | Some (r, x, Some e) \<Rightarrow> Some (x, Some e)
           | Some (r, x, None) \<Rightarrow> extract_loop P W r x))"

text \<open>The extractor and the error \<open>Extract\<close> ends with; \<open>None\<close> in place of the extractor when it never had one.\<close>

definition Extract ::
  "platform \<Rightarrow> world \<Rightarrow> Reader_px \<Rightarrow> bool \<Rightarrow> target \<Rightarrow> (target \<times> extractor option \<times> restore_error option) option" where
  "Extract P W r overwrite t =
     (case newExtractor W overwrite t of
        (t, Inl e) \<Rightarrow> Some (t, None, Some e)
      | (t, Inr x) \<Rightarrow> map_option (\<lambda>(x, e). (x_t x, Some x, e)) (extract_loop P W r x))"

definition covered :: "bytes \<Rightarrow> bytes list \<Rightarrow> bool" where
  "covered p paths \<longleftrightarrow> (\<exists>q \<in> set paths. q \<noteq> p \<and> (q = dot \<or> has_prefix p (q @ [slash])))"

subsection \<open>The writer of Linux\<close>

definition linux_validName :: "bytes \<Rightarrow> string option" where
  "linux_validName name = None"

text \<open>\<open>path.Dir\<close>.\<close>

definition slash_Dir :: "bytes \<Rightarrow> bytes" where
  "slash_Dir p = slash_Clean (concat (map (\<lambda>c. c @ [slash]) (butlast (split_slash p))))"

definition openParent :: "world \<Rightarrow> bytes \<Rightarrow> target \<Rightarrow> (comps \<times> bytes) osres" where
  "openParent W name t =
     (let parent = (if name = dot then dot else slash_Dir name) in
      case root_Open W parent t of
        (t, Inl e) \<Rightarrow> (t, Inl e)
      | (t, Inr d) \<Rightarrow> (t, Inr (d, slash_Base name)))"

definition linux_Mknod ::
  "(u32 \<Rightarrow> u32 \<Rightarrow> u64) \<Rightarrow> world \<Rightarrow> bytes \<Rightarrow> PNode \<Rightarrow> target \<Rightarrow> target \<times> os_error option" where
  "linux_Mknod Mkdev W name n t =
     (case openParent W name t of
        (t, Inl e) \<Rightarrow> (t, Some e)
      | (t, Inr (d, base)) \<Rightarrow>
          (case sys_mknod W d base (ucast (pe_Mode (pn_Entry n) AND (typeMask OR 0x1FF)))
                  (Mkdev (ucast (dv_Major (pn_Device n))) (ucast (dv_Minor (pn_Device n)))) t of
             (t, Inl e) \<Rightarrow> (t, Some e)
           | (t, Inr _) \<Rightarrow> (t, None)))"

fun set_loop :: "world \<Rightarrow> comps \<Rightarrow> bytes \<Rightarrow> (bytes \<times> bytes) list \<Rightarrow> target \<times> warning list \<Rightarrow> target \<times> warning list" where
  "set_loop W d base [] (t, ws) = (t, ws)"
| "set_loop W d base ((name, v) # xs) (t, ws) =
     (case sys_at W d base (\<lambda>f. f\<lparr> in_xattrs := (in_xattrs f)(name \<mapsto> v) \<rparr>) t of
        (t, Inl e) \<Rightarrow> set_loop W d base xs (t, ws @ [WXattr name e])
      | (t, Inr _) \<Rightarrow> set_loop W d base xs (t, ws))"

definition setXattrs :: "world \<Rightarrow> comps \<Rightarrow> bytes \<Rightarrow> PNode \<Rightarrow> target \<times> warning list \<Rightarrow> target \<times> warning list" where
  "setXattrs W d base n tw =
     (case tw of (t, ws) \<Rightarrow>
       (case tg_step W t (\<lambda>t. (t, case tg_kind t (at_dir d base) of
               None \<Rightarrow> Inl ENoEnt
             | Some (OSymlink _) \<Rightarrow> Inl ELoop
             | _ \<Rightarrow> Inr ())) of
          (t, Inl e) \<Rightarrow> (t, ws @ [WXattrOpen e])
        | (t, Inr _) \<Rightarrow> set_loop W d base (acl_xattrs n) (t, ws)))"

text \<open>The modification time \<open>n.MtimeSecs*1e9 + int64(n.MtimeNanos)\<close>, in 64 bits, as a time.\<close>

definition mtime_nsec :: "PNode \<Rightarrow> i64" where
  "mtime_nsec n = pe_MtimeSecs (pn_Entry n) * 1000000000 + ucast (pe_MtimeNanos (pn_Entry n))"

definition warned :: "(os_error \<Rightarrow> warning) \<Rightarrow> unit osres \<Rightarrow> warning list \<Rightarrow> target \<times> warning list" where
  "warned w r ws = (case r of (t, Inl e) \<Rightarrow> (t, ws @ [w e]) | (t, Inr _) \<Rightarrow> (t, ws))"

definition linux_Apply :: "(i64 \<Rightarrow> time) \<Rightarrow> world \<Rightarrow> bytes \<Rightarrow> PNode \<Rightarrow> target \<Rightarrow> target \<times> warning list" where
  "linux_Apply NsecToTimespec W name n t =
     (case openParent W name t of
        (t, Inl e) \<Rightarrow> (t, [WOs e])
      | (t, Inr (d, base)) \<Rightarrow>
          (let ty = pe_Mode (pn_Entry n) AND typeMask;
               (t, ws) = warned WChown (sys_at W d base
                  (chown_inode (pe_UID (pn_Entry n), pe_GID (pn_Entry n))) t) [];
               (t, ws) =
                 (if pn_Xattrs n \<noteq> [] \<or> pn_ACL n \<noteq> None \<or> pn_FCaps n \<noteq> [] then
                    (if ty = modeRegular \<or> ty = modeDir then setXattrs W d base n (t, ws) else (t, ws @ [WXattrKind]))
                  else (t, ws));
               ws = (if pn_QuotaProjID n \<noteq> 0 then ws @ [WQuota] else ws);
               (t, ws) =
                 (if ty \<noteq> modeSymlink
                  then warned WChmod (sys_chmod W d base (ucast (pe_Mode (pn_Entry n) AND 0xFFF)) t) ws else (t, ws))
           in warned WMtime (sys_at W d base (in_mtime_update (\<lambda>_. NsecToTimespec (mtime_nsec n))) t) ws))"

definition linuxWriter :: "(u32 \<Rightarrow> u32 \<Rightarrow> u64) \<Rightarrow> (i64 \<Rightarrow> time) \<Rightarrow> platform" where
  "linuxWriter Mkdev NsecToTimespec =
     \<lparr> pf_validName = linux_validName, pf_Mknod = linux_Mknod Mkdev, pf_Apply = linux_Apply NsecToTimespec \<rparr>"

end
