(* ===== verification/Restore_Ops.thy ===== *)
theory Restore_Ops
  imports Restore Fs_Path
begin

text \<open>
  The target's operations when nothing fails: how a plain name is resolved, what the operations of the
  restore then do, and what the metadata writer of Linux leaves on the object it is called for.
\<close>

subsection \<open>A world in which nothing fails\<close>

definition healthy :: "world \<Rightarrow> bool" where
  "healthy W \<longleftrightarrow> (\<forall>k. wd_fault W k = None \<and> \<not> wd_cancelled W k)"

lemma step_healthy [simp]: "healthy W \<Longrightarrow> tg_step W t f = f (t\<lparr> tg_tick := Suc (tg_tick t) \<rparr>)"
  by (simp add: tg_step_def healthy_def Let_def)

lemma ctx_healthy [simp]: "healthy W \<Longrightarrow> ctx_Err W t = (t\<lparr> tg_tick := Suc (tg_tick t) \<rparr>, False)"
  by (simp add: ctx_Err_def healthy_def)

text \<open>The clock of the operations has no part in what names lead to.\<close>

lemma kind_tick [simp]:
  "tg_kind (t\<lparr> tg_tick := k \<rparr>) = tg_kind t" "tg_object (t\<lparr> tg_tick := k \<rparr>) = tg_object t"
  by (simp_all add: tg_kind_def tg_object_def fun_eq_iff)

lemma kind_object: "tg_kind t p = map_option in_kind (tg_object t p)"
  by (simp add: tg_kind_def tg_object_def option.map_comp comp_def)

subsection \<open>Names\<close>

definition comps_of :: "bytes \<Rightarrow> comps" where
  "comps_of p = (if p = [] then [] else split_slash p)"

text \<open>The name an entry at these components is restored under.\<close>

definition os_name :: "comps \<Rightarrow> bytes" where
  "os_name cs = (if cs = [] then dot else join_slash cs)"

lemma comps_of_join: "plain cs \<Longrightarrow> comps_of (join_slash cs) = cs"
  by (simp add: comps_of_def split_join_slash join_empty)

lemma base_of_join:
  assumes "plain cs" "cs \<noteq> []"
  shows "slash_Base (join_slash cs) = last cs"
proof -
  obtain ds c where ds: "cs = ds @ [c]"
    using assms(2) by (cases cs rule: rev_cases) auto
  have "join_slash cs = joinArchive (path_of [] (butlast cs)) (last cs)"
    unfolding path_of_root [OF assms(1), symmetric] unfolding ds by simp
  thus ?thesis
    using base_join assms by simp
qed

lemma join_not_abs:
  assumes "plain cs" "cs \<noteq> []"
  shows "join_slash cs \<noteq> []" "hd (join_slash cs) \<noteq> slash"
proof -
  obtain c ds where "cs = c # ds"
    using assms(2) by (cases cs) auto
  hence "c \<noteq> []" "hd c \<noteq> slash" "\<exists>r. join_slash cs = c @ r"
    using assms(1) name_plain(1,2) [of c] by (auto simp: neq_Nil_conv intro: exI [of _ "[]"])
      (cases ds; auto)+
  thus "join_slash cs \<noteq> []" "hd (join_slash cs) \<noteq> slash"
    by auto
qed

lemma split_in_root_join:
  assumes "plain cs" "cs \<noteq> []"
  shows "split_in_root (join_slash cs) [] = Inr cs"
proof -
  note sp = split_join_slash [OF assms]
  note ne = join_not_abs [OF assms]
  have "filter (\<lambda>c. c \<noteq> []) cs = cs" "filter (\<lambda>c. c \<noteq> dot) (butlast cs) = butlast cs"
    using assms(1) by (auto simp: filter_id_conv dest: name_plain dest!: in_set_butlastD)
  thus ?thesis
    unfolding split_in_root_def Let_def sp using ne assms(2) by simp
qed

text \<open>Every proper prefix is a directory.\<close>

definition dirs_to :: "target \<Rightarrow> comps \<Rightarrow> bool" where
  "dirs_to t cs \<longleftrightarrow> (\<forall>k < length cs. tg_kind t (take k cs) = Some ODir)"

lemma walk_plain:
  assumes "plain cs" "cs \<noteq> []" "\<And>k. k < length cs \<Longrightarrow> tg_kind t (at @ take k cs) = Some ODir"
    and "follow \<longrightarrow> (\<forall>l. tg_kind t (at @ cs) \<noteq> Some (OSymlink l))"
  shows "walk_in_root t follow n at cs = Inr (at @ butlast cs, last cs)"
  using assms
proof (induction cs arbitrary: at)
  case (Cons c cs)
  have c: "c \<noteq> dotdot" "c \<noteq> dot"
    using Cons.prems(1) name_plain(3,4) by auto
  show ?case
  proof (cases "cs = []")
    case True
    thus ?thesis
      using c Cons.prems(4) by (auto simp: walk_in_root.simps(2) split: option.split okind.split)
  next
    case False
    have d: "tg_kind t (at @ [c]) = Some ODir"
      using Cons.prems(3) [of 1] False by (cases cs) auto
    have "walk_in_root t follow n (at @ [c]) cs = Inr ((at @ [c]) @ butlast cs, last cs)"
      by (rule Cons.IH) (use Cons.prems(1,4) Cons.prems(3) [of "Suc k" for k] False in auto)
    thus ?thesis
      using c False d by (simp add: walk_in_root.simps(2))
  qed
qed simp

lemma in_root_join:
  assumes "plain cs" "dirs_to t cs" "follow \<longrightarrow> (\<forall>l. tg_kind t cs \<noteq> Some (OSymlink l))"
  shows "in_root t follow (os_name cs) = Inr cs"
proof (cases "cs = []")
  case True
  have "split_in_root dot [] = Inr [dot]"
    by (simp add: split_in_root_def)
  thus ?thesis
    using True by (simp add: in_root_def os_name_def walk_in_root.simps(2))
next
  case False
  have "last cs \<noteq> dot"
    using assms(1) False name_plain(3) by (meson last_in_set)
  thus ?thesis
    using False walk_plain [of cs t "[]" follow] assms split_in_root_join [OF assms(1) False]
    by (simp add: in_root_def os_name_def dirs_to_def)
qed

lemma clean_plain: "plain cs \<Longrightarrow> clean_comps False st (cs @ [[]]) = rev st @ cs"
  by (induction cs arbitrary: st) (auto dest: name_plain)

lemma concat_slashes: "cs \<noteq> [] \<Longrightarrow> concat (map (\<lambda>c. c @ [slash]) cs) = join_slash cs @ [slash]"
  by (induction cs rule: join_slash.induct) simp_all

lemma dir_of_join:
  assumes "plain cs" "cs \<noteq> []"
  shows "slash_Dir (join_slash cs) = os_name (butlast cs)"
proof (cases "butlast cs = []")
  case True
  thus ?thesis
    using split_join_slash [OF assms] by (simp add: slash_Dir_def slash_Clean_def os_name_def)
next
  case False
  let ?ds = "butlast cs"
  have p: "plain ?ds"
    using assms(1) by (auto dest: in_set_butlastD)
  note ne = join_not_abs [OF p False]
  have "split_slash (join_slash ?ds @ slash # []) = ?ds @ [[]]"
    unfolding split_append using split_join_slash [OF p False] by simp
  hence "slash_Clean (join_slash ?ds @ [slash]) = join_slash ?ds"
    unfolding slash_Clean_def slash_IsAbs_def Let_def using ne clean_plain [OF p, of "[]"] by simp
  thus ?thesis
    unfolding slash_Dir_def split_join_slash [OF assms] concat_slashes [OF False] using False by (simp add: os_name_def)
qed

subsection \<open>Changing one object\<close>

text \<open>The target \<open>t'\<close> is \<open>t\<close> with the object of the inode \<open>i\<close> replaced.\<close>

definition puts :: "nat \<Rightarrow> inode \<Rightarrow> target \<Rightarrow> target \<Rightarrow> bool" where
  "puts i f t t' \<longleftrightarrow> tg_names t' = tg_names t \<and> tg_next t' = tg_next t \<and> tg_followed t' = tg_followed t \<and>
     tg_inodes t' = (tg_inodes t)(i := f)"

lemma puts_tick [simp]: "puts i (tg_inodes t i) t t" "puts i (tg_inodes t i) t (t\<lparr> tg_tick := k \<rparr>)"
  "puts i f t (t'\<lparr> tg_tick := k \<rparr>) \<longleftrightarrow> puts i f t t'"
  by (simp_all add: puts_def)

lemma puts_trans: "puts i f t t' \<Longrightarrow> puts i f' t' t'' \<Longrightarrow> puts i f' t t''"
  by (simp add: puts_def)

lemma puts_at: "puts i f t t' \<Longrightarrow> tg_inodes t' i = f"
  by (simp add: puts_def)

lemma puts_kind:
  assumes "puts i f t t'" "in_kind f = in_kind (tg_inodes t i)"
  shows "tg_kind t' = tg_kind t"
  using assms by (auto simp: puts_def tg_kind_def fun_eq_iff intro!: option.map_cong)

lemma sys_at_puts:
  assumes "healthy W" "tg_names t (at_dir d b) = Some i"
  shows "\<exists>t'. sys_at W d b g t = (t', Inr ()) \<and> puts i (g (tg_inodes t i)) t t'"
  using assms by (auto simp: sys_at_def set_inode_def puts_def)

lemma sys_chmod_puts:
  assumes "healthy W" "tg_names t (at_dir d b) = Some i" "\<forall>l. in_kind (tg_inodes t i) \<noteq> OSymlink l"
  shows "\<exists>t'. sys_chmod W d b perm t = (t', Inr ()) \<and> puts i ((tg_inodes t i)\<lparr> in_perm := perm \<rparr>) t t'"
proof -
  have "\<forall>l. tg_kind t (at_dir d b) \<noteq> Some (OSymlink l)"
    using assms(2,3) by (simp add: tg_kind_def)
  hence "sys_chmod W d b perm t = sys_at W d b (in_perm_update (\<lambda>_. perm)) t"
    by (auto simp: sys_chmod_def split: option.split okind.split)
  thus ?thesis
    using sys_at_puts [OF assms(1,2), of "in_perm_update (\<lambda>_. perm)"] by simp
qed

text \<open>Setting attributes one after the other.\<close>

fun set_attrs :: "(bytes \<times> bytes) list \<Rightarrow> (bytes \<rightharpoonup> bytes) \<Rightarrow> (bytes \<rightharpoonup> bytes)" where
  "set_attrs [] m = m"
| "set_attrs ((k, v) # xs) m = set_attrs xs (m(k \<mapsto> v))"

lemma set_loop_puts:
  assumes "healthy W"
  shows "tg_names t (at_dir d b) = Some i \<Longrightarrow>
    \<exists>t'. set_loop W d b xs (t, ws) = (t', ws) \<and>
      puts i ((tg_inodes t i)\<lparr> in_xattrs := set_attrs xs (in_xattrs (tg_inodes t i)) \<rparr>) t t'"
proof (induction xs arbitrary: t)
  case Nil
  show ?case
    by (simp add: puts_def)
next
  case (Cons x xs)
  obtain k v where x: "x = (k, v)"
    by (cases x)
  obtain t1 where t1: "sys_at W d b (\<lambda>f. f\<lparr> in_xattrs := (in_xattrs f)(k \<mapsto> v) \<rparr>) t = (t1, Inr ())"
      "puts i ((tg_inodes t i)\<lparr> in_xattrs := (in_xattrs (tg_inodes t i))(k \<mapsto> v) \<rparr>) t t1"
    using sys_at_puts [OF assms Cons.prems, of "\<lambda>f. f\<lparr> in_xattrs := (in_xattrs f)(k \<mapsto> v) \<rparr>"] by auto
  have "tg_names t1 (at_dir d b) = Some i"
    using t1(2) Cons.prems by (simp add: puts_def)
  from Cons.IH [OF this] obtain t2 where t2: "set_loop W d b xs (t1, ws) = (t2, ws)"
      "puts i ((tg_inodes t1 i)\<lparr> in_xattrs := set_attrs xs (in_xattrs (tg_inodes t1 i)) \<rparr>) t1 t2"
    by blast
  have "puts i ((tg_inodes t i)\<lparr> in_xattrs := set_attrs (x # xs) (in_xattrs (tg_inodes t i)) \<rparr>) t t2"
    using puts_trans [OF t1(2) t2(2)] unfolding puts_at [OF t1(2)] x by simp
  thus ?case
    using t1(1) t2(1) by (simp add: x)
qed

subsection \<open>The metadata writer\<close>

lemma open_parent:
  assumes "healthy W" "plain cs" "dirs_to t cs" "tg_kind t [] = Some ODir"
  shows "\<exists>d b. openParent W (os_name cs) t = (t\<lparr> tg_tick := Suc (tg_tick t) \<rparr>, Inr (d, b)) \<and> at_dir d b = cs \<and>
    (cs \<noteq> [] \<longrightarrow> d = butlast cs \<and> b = last cs)"
proof (cases "cs = []")
  case True
  have "in_root (t\<lparr> tg_tick := Suc (tg_tick t) \<rparr>) True dot = Inr []"
    using in_root_join [of "[]" "t\<lparr> tg_tick := Suc (tg_tick t) \<rparr>" True] assms(4) by (simp add: dirs_to_def os_name_def)
  moreover have "slash_Base dot = dot"
    using split_plain [of dot] by (simp add: slash_Base_def)
  moreover have "tg_names t [] \<noteq> None"
    using assms(4) by (auto simp: tg_kind_def)
  ultimately have "openParent W (os_name cs) t = (t\<lparr> tg_tick := Suc (tg_tick t) \<rparr>, Inr ([], dot))"
    using True assms(1) unfolding openParent_def root_Open_def os_name_def Let_def by (simp del: str_Cons)
  thus ?thesis
    using True by (simp add: at_dir_def)
next
  case False
  let ?d = "butlast cs"
  have d: "tg_kind t ?d = Some ODir"
    using assms(3) False unfolding dirs_to_def by (metis butlast_conv_take diff_less length_greater_0_conv less_numeral_extra(1))
  have "in_root (t\<lparr> tg_tick := Suc (tg_tick t) \<rparr>) True (os_name ?d) = Inr ?d"
  proof (rule in_root_join)
    show "plain ?d"
      using assms(2) by (auto dest: in_set_butlastD)
    show "dirs_to (t\<lparr> tg_tick := Suc (tg_tick t) \<rparr>) ?d"
      using assms(3) by (auto simp: dirs_to_def take_butlast)
  qed (use d in simp)
  moreover have "os_name cs \<noteq> dot" "slash_Dir (os_name cs) = os_name ?d" "slash_Base (os_name cs) = last cs"
    using False not_dot [OF assms(2)] dir_of_join [OF assms(2)] base_of_join [OF assms(2)] by (simp_all add: os_name_def)
  moreover have "tg_names t ?d \<noteq> None"
    using d by (auto simp: tg_kind_def)
  moreover have "at_dir ?d (last cs) = cs"
    using False assms(2) name_plain(3) [of "last cs"] by (simp add: at_dir_def)
  ultimately show ?thesis
    using assms(1) by (simp add: openParent_def root_Open_def)
qed

text \<open>What \<open>Apply\<close> makes of an object.\<close>

definition applied :: "(i64 \<Rightarrow> time) \<Rightarrow> PNode \<Rightarrow> inode \<Rightarrow> inode" where
  "applied NsecToTimespec n f =
     (let ty = pe_Mode (pn_Entry n) AND typeMask;
          f = chown_inode (pe_UID (pn_Entry n), pe_GID (pn_Entry n)) f;
          f = (if ty = modeRegular \<or> ty = modeDir then f\<lparr> in_xattrs := set_attrs (acl_xattrs n) (in_xattrs f) \<rparr> else f);
          f = (if ty \<noteq> modeSymlink then f\<lparr> in_perm := ucast (pe_Mode (pn_Entry n) AND 0xFFF) \<rparr> else f)
      in f\<lparr> in_mtime := NsecToTimespec (mtime_nsec n) \<rparr>)"

definition apply_ok :: "PNode \<Rightarrow> inode \<Rightarrow> bool" where
  "apply_ok n f \<longleftrightarrow> ((\<exists>l. in_kind f = OSymlink l) \<longrightarrow> pe_Mode (pn_Entry n) AND typeMask = modeSymlink)"

lemma chown_kind [simp]: "in_kind (chown_inode ids f) = in_kind f"
  by (simp add: chown_inode_def)

lemma setXattrs_puts:
  assumes "healthy W" "tg_names t (at_dir d b) = Some i" "\<forall>l. in_kind (tg_inodes t i) \<noteq> OSymlink l"
  shows "\<exists>t'. setXattrs W d b n (t, ws) = (t', ws) \<and>
    puts i ((tg_inodes t i)\<lparr> in_xattrs := set_attrs (acl_xattrs n) (in_xattrs (tg_inodes t i)) \<rparr>) t t'"
proof -
  let ?t = "t\<lparr> tg_tick := Suc (tg_tick t) \<rparr>"
  have "setXattrs W d b n (t, ws) = set_loop W d b (acl_xattrs n) (?t, ws)"
    using assms by (auto simp: setXattrs_def tg_kind_def split: okind.split)
  moreover have "tg_names ?t (at_dir d b) = Some i"
    using assms(2) by simp
  note set_loop_puts [OF assms(1) this, of "acl_xattrs n" ws]
  ultimately show ?thesis
    by (simp add: puts_def)
qed

lemma linux_Apply_puts:
  assumes W: "healthy W" and cs: "plain cs" "dirs_to t cs" "tg_kind t [] = Some ODir" "tg_names t cs = Some i"
    and ok: "apply_ok n (tg_inodes t i)"
  shows "\<exists>t' ws. linux_Apply NT W (os_name cs) n t = (t', ws) \<and> puts i (applied NT n (tg_inodes t i)) t t' \<and> set ws \<subseteq> {WQuota, WXattrKind}"
proof -
  let ?ty = "pe_Mode (pn_Entry n) AND typeMask" and ?f = "tg_inodes t i"
  let ?x = "pn_Xattrs n \<noteq> [] \<or> pn_ACL n \<noteq> None \<or> pn_FCaps n \<noteq> []"
  define t0 where "t0 = t\<lparr> tg_tick := Suc (tg_tick t) \<rparr>"
  obtain d b where d: "openParent W (os_name cs) t = (t0, Inr (d, b))" "at_dir d b = cs"
    using open_parent [OF W cs(1-3)] unfolding t0_def by blast
  have p0: "puts i ?f t t0"
    by (simp add: t0_def)
  have at: "tg_names t' (at_dir d b) = Some i" if "puts i f t t'" for f t'
    using that cs(4) d(2) by (simp add: puts_def)
  let ?f1 = "chown_inode (pe_UID (pn_Entry n), pe_GID (pn_Entry n)) ?f"
  obtain t1 where t1: "sys_at W d b (chown_inode (pe_UID (pn_Entry n), pe_GID (pn_Entry n))) t0 = (t1, Inr ())" "puts i ?f1 t t1"
    using sys_at_puts [OF W at [OF p0]] puts_trans [OF p0] unfolding puts_at [OF p0] by blast
  define f2 where "f2 = (if ?ty = modeRegular \<or> ?ty = modeDir then ?f1\<lparr> in_xattrs := set_attrs (acl_xattrs n) (in_xattrs ?f1) \<rparr> else ?f1)"
  have nx: "acl_xattrs n = []" if "\<not> ?x"
    using that by (simp add: acl_xattrs_def)
  obtain t2 ws where t2: "(if ?x then (if ?ty = modeRegular \<or> ?ty = modeDir then setXattrs W d b n (t1, []) else (t1, [] @ [WXattrKind])) else (t1, [])) = (t2, ws)"
      "puts i f2 t t2" "set ws \<subseteq> {WXattrKind}"
  proof (cases "?x \<and> (?ty = modeRegular \<or> ?ty = modeDir)")
    case True
    hence "\<forall>l. in_kind (tg_inodes t1 i) \<noteq> OSymlink l"
      using ok unfolding puts_at [OF t1(2)] apply_ok_def by (auto simp: restore_modes)
    from setXattrs_puts [OF W at [OF t1(2)] this, of n "[]"] show ?thesis
      using that True puts_trans [OF t1(2)] unfolding puts_at [OF t1(2)] f2_def by force
  next
    case False
    hence "f2 = ?f1"
      using nx by (auto simp: f2_def)
    thus ?thesis
      using that [of t1] False t1(2) by (cases ?x) auto
  qed
  have k2: "in_kind f2 = in_kind ?f"
    by (simp add: f2_def)
  let ?f3 = "if ?ty \<noteq> modeSymlink then f2\<lparr> in_perm := ucast (pe_Mode (pn_Entry n) AND 0xFFF) \<rparr> else f2"
  let ?ws = "if pn_QuotaProjID n \<noteq> 0 then ws @ [WQuota] else ws"
  obtain t3 where t3: "(if ?ty \<noteq> modeSymlink then warned WChmod (sys_chmod W d b (ucast (pe_Mode (pn_Entry n) AND 0xFFF)) t2) ?ws else (t2, ?ws)) = (t3, ?ws)"
      "puts i ?f3 t t3"
  proof (cases "?ty = modeSymlink")
    case True
    thus ?thesis
      using that t2(2) by simp
  next
    case False
    hence "\<forall>l. in_kind (tg_inodes t2 i) \<noteq> OSymlink l"
      using ok k2 unfolding puts_at [OF t2(2)] apply_ok_def by auto
    from sys_chmod_puts [OF W at [OF t2(2)] this, of "ucast (pe_Mode (pn_Entry n) AND 0xFFF)"] show ?thesis
      using that False puts_trans [OF t2(2)] unfolding puts_at [OF t2(2)] by (auto simp: warned_def)
  qed
  let ?f4 = "?f3\<lparr> in_mtime := NT (mtime_nsec n) \<rparr>"
  obtain t4 where t4: "sys_at W d b (in_mtime_update (\<lambda>_. NT (mtime_nsec n))) t3 = (t4, Inr ())" "puts i ?f4 t t4"
    using sys_at_puts [OF W at [OF t3(2)], of "in_mtime_update (\<lambda>_. NT (mtime_nsec n))"] puts_trans [OF t3(2)]
    unfolding puts_at [OF t3(2)] by blast
  have "linux_Apply NT W (os_name cs) n t = (t4, ?ws)"
    unfolding linux_Apply_def d(1) prod.case sum.case Let_def t1(1) warned_def [of WChown] t2(1) t3(1)
    by (simp only: prod.case sum.case t2(1) t3(1) t4(1) warned_def [of WMtime])
  moreover have "?f4 = applied NT n ?f"
    by (simp add: applied_def Let_def f2_def)
  moreover have "set ?ws \<subseteq> {WQuota, WXattrKind}"
    using t2(3) by auto
  ultimately show ?thesis
    using t4(2) by metis
qed

end
