(* ===== verification/Restore_Tree.thy ===== *)
theory Restore_Tree
  imports Restore_Ops Scan_Tree
begin

unbundle bit_operations_syntax

text \<open>
  What a restore leaves in its target.  Each entry adds one name, which leads to an object of the entry's
  kind, content and metadata, and changes nothing else but the modification times of directories; these
  and the rest of the directories' metadata are set when everything else is in place.  Put together with
  the reader and the emitter: an archive restored into an empty directory is the tree that was archived.
\<close>

subsection \<open>Adding a name\<close>

text \<open>An object is kept, except that a directory may have a new modification time.\<close>

definition kept :: "inode \<Rightarrow> inode \<Rightarrow> bool" where
  "kept f f' \<longleftrightarrow> f' = f \<or> in_kind f = ODir \<and> (\<exists>m. f' = f\<lparr> in_mtime := m \<rparr>)"

lemma kept_refl [simp]: "kept f f"
  by (simp add: kept_def)

lemma kept_mtime: "in_kind f = ODir \<Longrightarrow> kept f (f\<lparr> in_mtime := m \<rparr>)"
  unfolding kept_def by (intro disjI2 conjI exI [of _ m]) simp_all

lemma kept_kind: "kept f f' \<Longrightarrow> in_kind f' = in_kind f"
  by (auto simp: kept_def)

text \<open>Targets: the root is a directory, names lead into directories, and a directory has one name.\<close>

definition tg_ok :: "target \<Rightarrow> bool" where
  "tg_ok t \<longleftrightarrow> tg_kind t [] = Some ODir \<and>
     (\<forall>p i. tg_names t p = Some i \<longrightarrow> i < tg_next t \<and> (p \<noteq> [] \<longrightarrow> tg_kind t (butlast p) = Some ODir)) \<and>
     (\<forall>p q i. tg_names t p = Some i \<and> tg_names t q = Some i \<and> in_kind (tg_inodes t i) = ODir \<longrightarrow> p = q)"

definition grows :: "target \<Rightarrow> target \<Rightarrow> comps \<Rightarrow> nat \<Rightarrow> bool" where
  "grows t t' p i \<longleftrightarrow> tg_names t p = None \<and> p \<noteq> [] \<and> tg_kind t (butlast p) = Some ODir \<and>
     tg_names t' = (tg_names t)(p \<mapsto> i) \<and> tg_next t \<le> tg_next t' \<and> i < tg_next t' \<and>
     tg_followed t' = tg_followed t \<and> (\<forall>j < tg_next t. kept (tg_inodes t j) (tg_inodes t' j)) \<and>
     (i < tg_next t \<longrightarrow> in_kind (tg_inodes t i) \<noteq> ODir)"

lemma grows_tick [simp]:
  "grows (t\<lparr> tg_tick := k \<rparr>) t' p i = grows t t' p i" "grows t (t'\<lparr> tg_tick := k \<rparr>) p i = grows t t' p i"
  by (simp_all add: grows_def)

lemma ok_tick [simp]: "tg_ok (t\<lparr> tg_tick := k \<rparr>) = tg_ok t"
  by (simp add: tg_ok_def)

lemma grows_object:
  assumes "tg_ok t" "grows t t' p i" "q \<noteq> p" "tg_object t q = Some f"
  shows "\<exists>f'. tg_object t' q = Some f' \<and> kept f f'"
  using assms by (auto simp: tg_object_def grows_def tg_ok_def)

lemma grows_kind:
  assumes "tg_ok t" "grows t t' p i"
  shows "tg_kind t' q = (if q = p then Some (in_kind (tg_inodes t' i)) else tg_kind t q)"
proof (cases "q = p")
  case True
  thus ?thesis
    using assms(2) by (simp add: tg_kind_def grows_def)
next
  case False
  thus ?thesis
    using grows_object [OF assms False] assms(2) kept_kind
    by (cases "tg_names t q") (fastforce simp: tg_kind_def tg_object_def grows_def)+
qed

lemma grows_ok:
  assumes "tg_ok t" "grows t t' p i"
  shows "tg_ok t'"
proof -
  have root: "tg_kind t' [] = Some ODir"
    using assms grows_kind [OF assms, of "[]"] by (auto simp: tg_ok_def grows_def)
  have parent: "j < tg_next t' \<and> (q \<noteq> [] \<longrightarrow> tg_kind t' (butlast q) = Some ODir)" if q: "tg_names t' q = Some j" for q j
  proof (cases "q = p")
    case True
    thus ?thesis
      using assms(2) q grows_kind [OF assms, of "butlast p"] by (auto simp: grows_def tg_kind_def)
  next
    case False
    hence "tg_names t q = Some j"
      using q assms(2) by (simp add: grows_def)
    hence "j < tg_next t" "q \<noteq> [] \<longrightarrow> tg_kind t (butlast q) = Some ODir"
      using assms(1) by (simp_all add: tg_ok_def)
    moreover have "tg_kind t p = None"
      using assms(2) by (simp add: grows_def tg_kind_def)
    ultimately show ?thesis
      using assms(2) grows_kind [OF assms, of "butlast q"] by (auto simp: grows_def)
  qed
  have one: "q = q'" if q: "tg_names t' q = Some j" "tg_names t' q' = Some j" "in_kind (tg_inodes t' j) = ODir" for q q' j
  proof -
    have old: "in_kind (tg_inodes t j) = ODir \<and> r \<noteq> p \<and> j \<noteq> i" if "tg_names t r = Some j" for r
    proof -
      have "j < tg_next t"
        using assms(1) that by (simp add: tg_ok_def)
      hence "in_kind (tg_inodes t j) = ODir"
        using assms(2) q(3) kept_kind unfolding grows_def by metis
      thus ?thesis
        using assms(2) that \<open>j < tg_next t\<close> by (auto simp: grows_def)
    qed
    have new: "r = p \<and> j = i \<or> tg_names t r = Some j" if "tg_names t' r = Some j" for r
      using assms(2) that by (auto simp: grows_def split: if_splits)
    show ?thesis
      using new [OF q(1)] new [OF q(2)] old [of q] old [of q'] assms(1) unfolding tg_ok_def by metis
  qed
  show ?thesis
    unfolding tg_ok_def using root parent one by blast
qed

lemma ok_dirs_to:
  assumes "tg_ok t"
  shows "tg_kind t (butlast cs) = Some ODir \<Longrightarrow> dirs_to t cs"
proof (induction cs rule: rev_induct)
  case (snoc c cs)
  hence d: "tg_kind t cs = Some ODir"
    by simp
  have "dirs_to t cs"
  proof (cases "cs = []")
    case False
    obtain i where "tg_names t cs = Some i"
      using d by (auto simp: tg_kind_def)
    hence "tg_kind t (butlast cs) = Some ODir"
      using assms False by (simp add: tg_ok_def)
    thus ?thesis
      by (rule snoc.IH)
  qed (simp add: dirs_to_def)
  thus ?case
    using d by (auto simp: dirs_to_def less_Suc_eq)
qed (simp add: dirs_to_def)

lemma ok_dirs_to_name: "tg_ok t \<Longrightarrow> tg_names t cs \<noteq> None \<Longrightarrow> dirs_to t cs"
  by (cases "cs = []") (simp add: dirs_to_def, rule ok_dirs_to, auto simp: tg_ok_def)

subsection \<open>The operations that add\<close>

lemma touch_parent_kept:
  assumes "tg_names t (butlast p) = Some j" "in_kind (tg_inodes t j) = ODir"
  shows "\<exists>m. touch_parent W p t = set_inode j (in_mtime_update (\<lambda>_. m)) t"
  using assms by (intro exI [of _ "wd_now W (tg_tick t)"]) (simp add: touch_parent_def)

text \<open>A free name in a directory.\<close>

definition room :: "target \<Rightarrow> comps \<Rightarrow> bool" where
  "room t cs \<longleftrightarrow> plain cs \<and> cs \<noteq> [] \<and> tg_names t cs = None \<and> tg_kind t (butlast cs) = Some ODir"

lemma room_tick [simp]: "room (t\<lparr> tg_tick := k \<rparr>) cs = room t cs"
  by (simp add: room_def)

lemma in_root_room:
  assumes "tg_ok t" "room t cs"
  shows "in_root t False (os_name cs) = Inr cs"
  using assms ok_dirs_to [OF assms(1), of cs] by (intro in_root_join) (auto simp: room_def)

lemma tg_add_grows:
  assumes "tg_ok t" "room t cs"
  shows "\<exists>t'. tg_add W cs k perm t = (t', Inr (tg_next t)) \<and> grows t t' cs (tg_next t) \<and> tg_next t' = Suc (tg_next t) \<and>
    tg_inodes t' (tg_next t) = fresh_inode W t k perm"
proof -
  obtain j where j: "tg_names t (butlast cs) = Some j" "in_kind (tg_inodes t j) = ODir"
    using assms(2) by (auto simp: room_def tg_kind_def)
  let ?i = "tg_next t"
  have lt: "j < ?i" and ne: "butlast cs \<noteq> cs"
    using assms j(1) by (auto simp: tg_ok_def room_def)
  let ?t = "t\<lparr> tg_names := (tg_names t)(cs \<mapsto> ?i), tg_inodes := (tg_inodes t)(?i := fresh_inode W t k perm), tg_next := Suc ?i \<rparr>"
  obtain m where m: "touch_parent W cs ?t = set_inode j (in_mtime_update (\<lambda>_. m)) ?t"
    using touch_parent_kept [of ?t cs j W] j lt ne by auto
  have "grows t (touch_parent W cs ?t) cs ?i"
    unfolding m using assms j lt by (auto simp: grows_def room_def set_inode_def kept_mtime)
  moreover have "tg_inodes (touch_parent W cs ?t) ?i = fresh_inode W t k perm" "tg_next (touch_parent W cs ?t) = Suc ?i"
    unfolding m using lt by (simp_all add: set_inode_def)
  moreover have "tg_add W cs k perm t = (touch_parent W cs ?t, Inr ?i)"
    using assms(2) by (simp add: tg_add_def room_def Let_def)
  ultimately show ?thesis
    by blast
qed

lemma root_add_grows:
  assumes "healthy W" "tg_ok t" "room t cs"
  shows "\<exists>t'. root_add W (os_name cs) k perm t = (t', Inr (tg_next t)) \<and> grows t t' cs (tg_next t) \<and>
    tg_next t' = Suc (tg_next t) \<and> (\<exists>u. tg_inodes t' (tg_next t) = fresh_inode W u k perm)"
proof -
  let ?t = "t\<lparr> tg_tick := Suc (tg_tick t) \<rparr>"
  have "tg_ok ?t" "room ?t cs"
    using assms(2,3) by simp_all
  from tg_add_grows [OF this, of W k perm] in_root_room [OF this] show ?thesis
    using assms(1) by (auto simp: root_add_def)
qed

lemma grows_puts:
  assumes "grows t t' cs i" "tg_next t \<le> i" "puts i f t' t''"
  shows "grows t t'' cs i"
  using assms by (auto simp: grows_def puts_def)

lemma root_Link_grows:
  assumes "healthy W" "tg_ok t" "room t cs" "plain ts" "tg_names t ts = Some i" "in_kind (tg_inodes t i) \<noteq> ODir"
  shows "\<exists>t'. root_Link W (os_name ts) (os_name cs) t = (t', Inr ()) \<and> grows t t' cs i"
proof -
  let ?t = "t\<lparr> tg_tick := Suc (tg_tick t) \<rparr>"
  have ok: "tg_ok ?t" "room ?t cs"
    using assms(2,3) by simp_all
  have "in_root ?t False (os_name ts) = Inr ts"
    using ok_dirs_to_name [OF ok(1), of ts] assms(4,5) by (intro in_root_join) auto
  obtain j where j: "tg_names t (butlast cs) = Some j" "in_kind (tg_inodes t j) = ODir"
    using assms(3) by (auto simp: room_def tg_kind_def)
  have lt: "j < tg_next t" "i < tg_next t" and ne: "butlast cs \<noteq> cs"
    using assms(2,3,5) j(1) by (auto simp: tg_ok_def room_def)
  let ?u = "?t\<lparr> tg_names := (tg_names t)(cs \<mapsto> i) \<rparr>"
  obtain m where m: "touch_parent W cs ?u = set_inode j (in_mtime_update (\<lambda>_. m)) ?u"
    using touch_parent_kept [of ?u cs j W] j ne by auto
  have "grows t (touch_parent W cs ?u) cs i"
    unfolding m using assms(3,6) j lt by (auto simp: grows_def room_def set_inode_def kept_mtime)
  moreover have "root_Link W (os_name ts) (os_name cs) t = (touch_parent W cs ?u, Inr ())"
    using assms(1,3,5,6) \<open>in_root ?t False (os_name ts) = Inr ts\<close> in_root_room [OF ok] by (simp add: root_Link_def room_def)
  ultimately show ?thesis
    by blast
qed

subsection \<open>Objects of entries\<close>

definition node_ty :: "PNode \<Rightarrow> u64" where
  "node_ty n = pe_Mode (pn_Entry n) AND typeMask"

text \<open>The kind of the object that stands for an entry with the content \<open>c\<close>, and its metadata.\<close>

definition kind_of :: "(u32 \<Rightarrow> u32 \<Rightarrow> u64) \<Rightarrow> PNode \<Rightarrow> bytes \<Rightarrow> okind" where
  "kind_of MK n c =
     (if node_ty n = modeDir then ODir else if node_ty n = modeRegular then OFile c
      else if node_ty n = modeSymlink then OSymlink (pn_LinkTarget n)
      else ONode (ucast (node_ty n)) (MK (ucast (dv_Major (pn_Device n))) (ucast (dv_Minor (pn_Device n)))))"

definition has_meta :: "(i64 \<Rightarrow> time) \<Rightarrow> PNode \<Rightarrow> inode \<Rightarrow> bool" where
  "has_meta NT n f \<longleftrightarrow> in_owner f = (pe_UID (pn_Entry n), pe_GID (pn_Entry n)) \<and>
     (node_ty n \<noteq> modeSymlink \<longrightarrow> in_perm f = ucast (pe_Mode (pn_Entry n) AND 0xFFF)) \<and>
     (node_ty n \<in> {modeRegular, modeDir} \<longrightarrow> in_xattrs f = set_attrs (acl_xattrs n) Map.empty) \<and>
     in_mtime f = NT (mtime_nsec n)"

lemma applied_kind [simp]: "in_kind (applied NT n f) = in_kind f"
  by (simp add: applied_def Let_def)

lemma applied_meta: "in_xattrs f = Map.empty \<Longrightarrow> has_meta NT n (applied NT n f)"
  by (auto simp: applied_def has_meta_def node_ty_def Let_def chown_inode_def)

lemma apply_new:
  assumes "healthy W" "tg_ok t" "grows t t' cs i" "tg_next t \<le> i" "plain cs" "in_xattrs (tg_inodes t' i) = Map.empty"
    "apply_ok n (tg_inodes t' i)"
  shows "\<exists>t'' ws. linux_Apply NT W (os_name cs) n t' = (t'', ws) \<and> grows t t'' cs i \<and> set ws \<subseteq> {WQuota, WXattrKind} \<and>
    in_kind (tg_inodes t'' i) = in_kind (tg_inodes t' i) \<and> has_meta NT n (tg_inodes t'' i)"
proof -
  have ok: "tg_ok t'"
    by (rule grows_ok [OF assms(2,3)])
  have n: "tg_names t' cs = Some i"
    using assms(3) by (simp add: grows_def)
  have "tg_kind t' [] = Some ODir" "dirs_to t' cs"
    using ok ok_dirs_to_name [OF ok] n by (auto simp: tg_ok_def)
  then obtain t'' ws where t'': "linux_Apply NT W (os_name cs) n t' = (t'', ws)" "puts i (applied NT n (tg_inodes t' i)) t' t''"
      "set ws \<subseteq> {WQuota, WXattrKind}"
    using linux_Apply_puts [OF assms(1,5) _ _ n assms(7)] by blast
  thus ?thesis
    using grows_puts [OF assms(3,4) t''(2)] applied_meta [OF assms(6)] by (simp add: puts_at [OF t''(2)])
qed

lemma mode_type_word: "(ucast (m AND (typeMask OR 0x1FF)) :: u32) AND 0xF000 = ucast (m AND typeMask)"
  by (simp add: typeMask_def unsigned_and_eq and.assoc)

lemma linux_Mknod_grows:
  assumes "healthy W" "tg_ok t" "room t cs"
  shows "\<exists>t'. linux_Mknod MK W (os_name cs) n t = (t', None) \<and> grows t t' cs (tg_next t) \<and>
    in_kind (tg_inodes t' (tg_next t)) =
      ONode (ucast (node_ty n)) (MK (ucast (dv_Major (pn_Device n))) (ucast (dv_Minor (pn_Device n)))) \<and>
    in_xattrs (tg_inodes t' (tg_next t)) = Map.empty"
proof -
  let ?t = "t\<lparr> tg_tick := Suc (tg_tick t) \<rparr>"
  have p: "plain cs" "cs \<noteq> []"
    using assms(3) by (simp_all add: room_def)
  have "tg_kind t [] = Some ODir" "dirs_to t cs"
    using assms(2,3) ok_dirs_to [OF assms(2), of cs] by (auto simp: tg_ok_def room_def)
  then obtain d b where d: "openParent W (os_name cs) t = (?t, Inr (d, b))" "at_dir d b = cs"
    using open_parent [OF assms(1) p(1)] by blast
  define u where "u = t\<lparr> tg_tick := Suc (Suc (tg_tick t)) \<rparr>"
  have u: "tg_ok u" "room u cs" "tg_next u = tg_next t"
    using assms(2,3) by (simp_all add: u_def)
  let ?k = "ONode (ucast (node_ty n)) (MK (ucast (dv_Major (pn_Device n))) (ucast (dv_Minor (pn_Device n))))"
    and ?perm = "(ucast (pe_Mode (pn_Entry n) AND (typeMask OR 0x1FF)) :: u32) AND 0x1FF"
  obtain t' where t': "tg_add W cs ?k ?perm u = (t', Inr (tg_next t))" "grows u t' cs (tg_next t)"
      "tg_inodes t' (tg_next t) = fresh_inode W u ?k ?perm"
    using tg_add_grows [OF u(1,2)] u(3) by metis
  have "linux_Mknod MK W (os_name cs) n t = (t', None)"
    using d assms(1) t'(1) by (simp add: linux_Mknod_def sys_mknod_def mode_type_word node_ty_def u_def)
  thus ?thesis
    using t'(2,3) by (simp add: fresh_inode_def u_def)
qed

subsection \<open>Copying content\<close>

text \<open>The reads of a copy that come to an end, with the bytes they deliver.\<close>

inductive copies :: "Reader_px \<Rightarrow> bytes \<Rightarrow> Reader_px \<Rightarrow> bool" where
  copies_end: "px_Read r copy_buffer = (r', [], Some PxEOF) \<Longrightarrow> copies r [] r'"
| copies_step: "px_Read r copy_buffer = (r1, bs, None) \<Longrightarrow> copies r1 c r' \<Longrightarrow> copies r (bs @ c) r'"

lemma x_copy_copies:
  assumes "copies r c r'" "healthy W" "in_kind (tg_inodes (x_t x) i) = OFile b"
  shows "\<exists>x'. x_copy W name i r x = Some (r', x', None) \<and>
    x_Overwrite x' = x_Overwrite x \<and> x_dirs x' = x_dirs x \<and> x_skip x' = x_skip x \<and> x_warns x' = x_warns x \<and>
    (\<exists>f. puts i f (x_t x) (x_t x') \<and> in_kind f = OFile (b @ c) \<and> in_xattrs f = in_xattrs (tg_inodes (x_t x) i))"
  using assms
proof (induction arbitrary: x b rule: copies.induct)
  case (copies_end r r')
  have "puts i (tg_inodes (x_t x) i) (x_t x) ((x_t x)\<lparr> tg_tick := Suc (tg_tick (x_t x)) \<rparr>)"
    by simp
  thus ?case
    using copies_end by (subst x_copy.simps) (auto intro!: exI [of _ "tg_inodes (x_t x) i"])
next
  case (copies_step r r1 bs c r')
  show ?case
  proof (cases "bs = []")
    case True
    let ?x = "x\<lparr> x_t := (x_t x)\<lparr> tg_tick := Suc (tg_tick (x_t x)) \<rparr> \<rparr>"
    have "x_copy W name i r x = x_copy W name i r1 ?x"
      using True copies_step.hyps(1) copies_step.prems(1) by (subst x_copy.simps) simp
    thus ?thesis
      using copies_step.IH [OF copies_step.prems(1), of ?x b] copies_step.prems(2) True by (auto simp: puts_def)
  next
    case False
    let ?f = "(tg_inodes (x_t x) i)\<lparr> in_kind := OFile (b @ bs), in_mtime := wd_now W (Suc (Suc (tg_tick (x_t x)))) \<rparr>"
    let ?t = "set_inode i (\<lambda>_. ?f) ((x_t x)\<lparr> tg_tick := Suc (Suc (tg_tick (x_t x))) \<rparr>)"
    let ?x = "x\<lparr> x_t := ?t, x_progress := x_progress x @ [(name, length bs)] \<rparr>"
    have "x_copy W name i r x = x_copy W name i r1 ?x"
      using False copies_step.hyps(1) copies_step.prems
      by (subst x_copy.simps) (simp add: file_Write_def set_inode_def)
    moreover have p: "puts i ?f (x_t x) ?t"
      by (simp add: set_inode_def puts_def)
    have k: "in_kind (tg_inodes (x_t ?x) i) = OFile (b @ bs)" "in_xattrs (tg_inodes (x_t ?x) i) = in_xattrs (tg_inodes (x_t x) i)"
      by (simp_all add: puts_at [OF p])
    obtain x' f where x': "x_copy W name i r1 ?x = Some (r', x', None)"
        "x_Overwrite x' = x_Overwrite ?x" "x_dirs x' = x_dirs ?x" "x_skip x' = x_skip ?x" "x_warns x' = x_warns ?x"
        "puts i f (x_t ?x) (x_t x')" "in_kind f = OFile ((b @ bs) @ c)" "in_xattrs f = in_xattrs (tg_inodes (x_t ?x) i)"
      using copies_step.IH [OF copies_step.prems(1) k(1)] by blast
    moreover have "puts i f (x_t x) (x_t x')"
      using puts_trans [OF p] x'(6) by simp
    ultimately show ?thesis
      using k(2) by (intro exI [of _ x'] conjI exI [of _ f]) simp_all
  qed
qed

subsection \<open>The extractor\<close>

definition is_dir :: "PNode \<Rightarrow> bool" where
  "is_dir n \<longleftrightarrow> \<not> pn_Hardlink n \<and> node_ty n = modeDir"

text \<open>
  An entry, its components and content, is in place; a directory's metadata is still to come.
\<close>

definition staged :: "(i64 \<Rightarrow> time) \<Rightarrow> (u32 \<Rightarrow> u32 \<Rightarrow> u64) \<Rightarrow> target \<Rightarrow> comps \<times> PNode \<times> bytes \<Rightarrow> bool" where
  "staged NT MK t e \<longleftrightarrow>
     (case e of (cs, n, c) \<Rightarrow>
       if pn_Hardlink n then tg_names t cs \<noteq> None \<and> tg_names t cs = tg_names t (comps_of (pn_LinkTarget n))
       else \<exists>f. tg_object t cs = Some f \<and> in_kind f = kind_of MK n c \<and>
         (if is_dir n then in_xattrs f = Map.empty else has_meta NT n f))"

definition xinv :: "(i64 \<Rightarrow> time) \<Rightarrow> (u32 \<Rightarrow> u32 \<Rightarrow> u64) \<Rightarrow> extractor \<Rightarrow> (comps \<times> PNode \<times> bytes) list \<Rightarrow> bool" where
  "xinv NT MK x L \<longleftrightarrow> tg_ok (x_t x) \<and> tg_followed (x_t x) = [] \<and> \<not> x_Overwrite x \<and> x_skip x = [] \<and>
     dom (tg_names (x_t x)) = insert [] (fst ` set L) \<and> (\<forall>e \<in> set L. staged NT MK (x_t x) e) \<and>
     (\<forall>f. tg_object (x_t x) [] = Some f \<longrightarrow> in_xattrs f = Map.empty) \<and>
     x_dirs x = map (\<lambda>(cs, n, c). (os_name cs, n)) (filter (\<lambda>(cs, n, c). is_dir n) L) \<and>
     snd ` set (x_warns x) \<subseteq> {WQuota, WXattrKind}"

lemma staged_tick [simp]: "staged NT MK (t\<lparr> tg_tick := k \<rparr>) e = staged NT MK t e"
  by (simp add: staged_def split: prod.split)

lemma xinv_tick [simp]: "xinv NT MK (x\<lparr> x_t := (x_t x)\<lparr> tg_tick := k \<rparr> \<rparr>) L = xinv NT MK x L"
  by (simp add: xinv_def)

lemma kind_of_dir: "kind_of MK n c = ODir \<longleftrightarrow> node_ty n = modeDir"
  by (simp add: kind_of_def)

lemma staged_grows:
  assumes "staged NT MK t e" "tg_ok t" "grows t t' p i"
  shows "staged NT MK t' e"
proof -
  obtain cs n c where e: "e = (cs, n, c)"
    by (cases e)
  show ?thesis
  proof (cases "pn_Hardlink n")
    case True
    have "tg_names t' q = tg_names t q" if "tg_names t q \<noteq> None" for q
      using assms(3) that by (auto simp: grows_def)
    thus ?thesis
      using assms(1) True by (simp add: staged_def e) metis
  next
    case False
    then obtain f where f: "tg_object t cs = Some f" "in_kind f = kind_of MK n c"
        "if is_dir n then in_xattrs f = Map.empty else has_meta NT n f"
      using assms(1) by (auto simp: staged_def e)
    have "cs \<noteq> p"
      using f(1) assms(3) by (auto simp: tg_object_def grows_def)
    then obtain f' where f': "tg_object t' cs = Some f'" "kept f f'"
      using grows_object [OF assms(2,3) _ f(1)] by blast
    hence "in_kind f' = kind_of MK n c" "if is_dir n then in_xattrs f' = Map.empty else has_meta NT n f'"
      using f(2,3) False kind_of_dir [of MK n c] by (auto simp: kept_def is_dir_def split: if_splits)
    thus ?thesis
      using False f'(1) by (simp add: staged_def e)
  qed
qed

lemma xinv_grow:
  assumes inv: "xinv NT MK x L" and g: "grows (x_t x) (x_t x') cs i" and st: "staged NT MK (x_t x') (cs, n, c)"
    and same: "x_Overwrite x' = x_Overwrite x" "x_skip x' = x_skip x"
      "x_dirs x' = x_dirs x @ (if is_dir n then [(os_name cs, n)] else [])"
      "snd ` set (x_warns x') \<subseteq> {WQuota, WXattrKind}"
  shows "xinv NT MK x' (L @ [(cs, n, c)])"
proof -
  have ok: "tg_ok (x_t x)"
    using inv by (simp add: xinv_def)
  have "in_xattrs f' = Map.empty" if o: "tg_object (x_t x') [] = Some f'" for f'
  proof -
    obtain f where f: "tg_object (x_t x) [] = Some f"
      using ok by (auto simp: tg_ok_def kind_object)
    have "[] \<noteq> cs"
      using g by (auto simp: grows_def)
    hence "kept f f'"
      using grows_object [OF ok g _ f] o by auto
    thus ?thesis
      using inv f by (auto simp: kept_def xinv_def)
  qed
  moreover have "dom (tg_names (x_t x')) = insert cs (dom (tg_names (x_t x)))"
    using g by (simp add: grows_def)
  moreover have "tg_followed (x_t x') = tg_followed (x_t x)"
    using g by (simp add: grows_def)
  ultimately show ?thesis
    using inv same st staged_grows [OF _ ok g] grows_ok [OF ok g] unfolding xinv_def by auto
qed

text \<open>Each kind of entry, at a free name.\<close>

lemma clear_none [simp]: "\<not> x_Overwrite x \<Longrightarrow> x_clear W name d x = (x, None)"
  by (simp add: x_clear_def)

lemma xinv_ok: "xinv NT MK x L \<Longrightarrow> tg_ok (x_t x) \<and> \<not> x_Overwrite x \<and> x_skip x = [] \<and> snd ` set (x_warns x) \<subseteq> {WQuota, WXattrKind}"
  by (simp add: xinv_def)

lemma apply_step:
  assumes W: "healthy W" and inv: "xinv NT MK x L" and g: "grows (x_t x) t' cs i" "tg_next (x_t x) \<le> i" "plain cs"
    and f: "in_xattrs (tg_inodes t' i) = Map.empty" "in_kind (tg_inodes t' i) = kind_of MK n c" "apply_ok n (tg_inodes t' i)"
    and n: "\<not> pn_Hardlink n" "\<not> is_dir n"
    and y: "x_t y = t'" "x_Overwrite y = x_Overwrite x" "x_skip y = x_skip x" "x_dirs y = x_dirs x" "x_warns y = x_warns x"
  shows "xinv NT MK (x_apply (linuxWriter MK NT) W (os_name cs) n y) (L @ [(cs, n, c)])"
proof -
  have ok: "tg_ok (x_t x)"
    using xinv_ok [OF inv] by simp
  obtain t'' ws where a: "linux_Apply NT W (os_name cs) n t' = (t'', ws)" "grows (x_t x) t'' cs i" "set ws \<subseteq> {WQuota, WXattrKind}"
      "in_kind (tg_inodes t'' i) = in_kind (tg_inodes t' i)" "has_meta NT n (tg_inodes t'' i)"
    using apply_new [OF W ok g f(1,3), of NT] by (elim exE conjE)
  have "staged NT MK t'' (cs, n, c)"
    using n a(2,4,5) f(2) by (simp add: staged_def tg_object_def grows_def)
  moreover have "snd ` set (x_warns x @ map (Pair (os_name cs)) ws) \<subseteq> {WQuota, WXattrKind}"
    using xinv_ok [OF inv] a(3) by auto
  ultimately show ?thesis
    using xinv_grow [OF inv, of "x_apply (linuxWriter MK NT) W (os_name cs) n y" cs i n c] a(1,2) n(2) y
    by (simp add: x_apply_def linuxWriter_def)
qed

lemma hardlink_step:
  assumes "healthy W" "xinv NT MK x L" "room (x_t x) cs" "pn_Hardlink n" "pn_LinkTarget n = join_slash ts" "plain ts" "ts \<noteq> []"
    "tg_kind (x_t x) ts \<notin> {None, Some ODir}"
  shows "\<exists>x'. x_hardlink W (os_name cs) n x = (x', None) \<and> xinv NT MK x' (L @ [(cs, n, c)])"
proof -
  obtain i where i: "tg_names (x_t x) ts = Some i" "in_kind (tg_inodes (x_t x) i) \<noteq> ODir"
    using assms(8) by (auto simp: tg_kind_def)
  obtain t' where t': "root_Link W (os_name ts) (os_name cs) (x_t x) = (t', Inr ())" "grows (x_t x) t' cs i"
    using root_Link_grows [OF assms(1) _ assms(3,6) i] xinv_ok [OF assms(2)] by blast
  have "staged NT MK t' (cs, n, c)"
    using t'(2) i(1) assms(4-6) by (simp add: staged_def grows_def comps_of_join)
  hence "xinv NT MK (x\<lparr> x_t := t' \<rparr>) (L @ [(cs, n, c)])"
    using xinv_grow [OF assms(2), of "x\<lparr> x_t := t' \<rparr>" cs i n c] t'(2) assms(4) xinv_ok [OF assms(2)] by (simp add: is_dir_def)
  thus ?thesis
    using t'(1) assms(5,7) xinv_ok [OF assms(2)] by (simp add: x_hardlink_def os_name_def)
qed

lemma directory_step:
  assumes "healthy W" "xinv NT MK x L" "room (x_t x) cs" "is_dir n"
  shows "\<exists>x'. x_directory W (os_name cs) n x = (x', None) \<and> xinv NT MK x' (L @ [(cs, n, c)])"
proof -
  have ok: "tg_ok (x_t x)" "\<not> x_Overwrite x"
    using xinv_ok [OF assms(2)] by simp_all
  obtain t' u where t': "root_Mkdir W (os_name cs) 0x1C0 (x_t x) = (t', Inr (tg_next (x_t x)))" "grows (x_t x) t' cs (tg_next (x_t x))"
      "tg_inodes t' (tg_next (x_t x)) = fresh_inode W u ODir 0x1C0"
    using root_add_grows [OF assms(1) ok(1) assms(3)] unfolding root_Mkdir_def by metis
  have "staged NT MK t' (cs, n, c)"
    using t'(2,3) assms(4) by (simp add: staged_def grows_def is_dir_def tg_object_def fresh_inode_def kind_of_def)
  hence "xinv NT MK (x\<lparr> x_t := t', x_dirs := x_dirs x @ [(os_name cs, n)] \<rparr>) (L @ [(cs, n, c)])"
    using xinv_grow [OF assms(2), of "x\<lparr> x_t := t', x_dirs := x_dirs x @ [(os_name cs, n)] \<rparr>" cs _ n c] t'(2) assms(4)
      xinv_ok [OF assms(2)] by simp
  moreover have "os_name cs \<noteq> dot"
    using assms(3) not_dot [of cs] by (simp add: room_def os_name_def)
  ultimately show ?thesis
    using t'(1) ok(2) by (simp add: x_directory_def)
qed

lemma symlink_step:
  assumes "healthy W" "xinv NT MK x L" "room (x_t x) cs" "\<not> pn_Hardlink n" "node_ty n = modeSymlink"
  shows "\<exists>x'. x_symlink (linuxWriter MK NT) W (os_name cs) n x = (x', None) \<and> xinv NT MK x' (L @ [(cs, n, c)])"
proof -
  have ok: "tg_ok (x_t x)" "\<not> x_Overwrite x"
    using xinv_ok [OF assms(2)] by simp_all
  obtain t' u where t': "root_Symlink W (pn_LinkTarget n) (os_name cs) (x_t x) = (t', Inr (tg_next (x_t x)))"
      "grows (x_t x) t' cs (tg_next (x_t x))" "tg_inodes t' (tg_next (x_t x)) = fresh_inode W u (OSymlink (pn_LinkTarget n)) (NOT 0)"
    using root_add_grows [OF assms(1) ok(1) assms(3)] unfolding root_Symlink_def by metis
  have "xinv NT MK (x_apply (linuxWriter MK NT) W (os_name cs) n (x\<lparr> x_t := t' \<rparr>)) (L @ [(cs, n, c)])"
    by (rule apply_step [OF assms(1,2) t'(2)])
      (use assms(3-5) t'(3) in \<open>simp_all add: room_def fresh_inode_def kind_of_def apply_ok_def is_dir_def node_ty_def restore_modes\<close>)
  thus ?thesis
    using t'(1) ok(2) by (simp add: x_symlink_def)
qed

lemma special_step:
  assumes "healthy W" "xinv NT MK x L" "room (x_t x) cs" "\<not> pn_Hardlink n" "node_ty n \<notin> {modeSymlink, modeDir, modeRegular}"
  shows "\<exists>x'. x_special (linuxWriter MK NT) W (os_name cs) n x = (x', None) \<and> xinv NT MK x' (L @ [(cs, n, c)])"
proof -
  have ok: "tg_ok (x_t x)" "\<not> x_Overwrite x"
    using xinv_ok [OF assms(2)] by simp_all
  obtain t' where t': "linux_Mknod MK W (os_name cs) n (x_t x) = (t', None)" "grows (x_t x) t' cs (tg_next (x_t x))"
      "in_kind (tg_inodes t' (tg_next (x_t x))) = kind_of MK n c" "in_xattrs (tg_inodes t' (tg_next (x_t x))) = Map.empty"
    using linux_Mknod_grows [OF assms(1) ok(1) assms(3), of MK n] assms(5) by (auto simp: kind_of_def)
  have "xinv NT MK (x_apply (linuxWriter MK NT) W (os_name cs) n (x\<lparr> x_t := t' \<rparr>)) (L @ [(cs, n, c)])"
    by (rule apply_step [OF assms(1,2) t'(2)])
      (use assms(3-5) t'(3,4) in \<open>auto simp: room_def kind_of_def apply_ok_def is_dir_def\<close>)
  thus ?thesis
    using t'(1) ok(2) by (simp add: x_special_def linuxWriter_def)
qed

lemma regular_step:
  assumes "healthy W" "xinv NT MK x L" "room (x_t x) cs" "\<not> pn_Hardlink n" "node_ty n = modeRegular" "copies r c r'"
  shows "\<exists>x'. x_regular (linuxWriter MK NT) W (os_name cs) n r x = Some (r', x', None) \<and> xinv NT MK x' (L @ [(cs, n, c)])"
proof -
  let ?i = "tg_next (x_t x)"
  have ok: "tg_ok (x_t x)" "\<not> x_Overwrite x"
    using xinv_ok [OF assms(2)] by simp_all
  obtain t' u where t': "root_OpenFile W (os_name cs) 0x180 (x_t x) = (t', Inr ?i)"
      "grows (x_t x) t' cs ?i" "tg_inodes t' ?i = fresh_inode W u (OFile []) 0x180"
    using root_add_grows [OF assms(1) ok(1) assms(3)] unfolding root_OpenFile_def by metis
  let ?x = "x\<lparr> x_t := t' \<rparr>"
  have "in_kind (tg_inodes (x_t ?x) ?i) = OFile []"
    using t'(3) by (simp add: fresh_inode_def)
  from x_copy_copies [OF assms(6,1) this, of "os_name cs"]
  obtain y f where y: "x_copy W (os_name cs) ?i r ?x = Some (r', y, None)"
      "x_Overwrite y = x_Overwrite ?x" "x_dirs y = x_dirs ?x" "x_skip y = x_skip ?x" "x_warns y = x_warns ?x"
      "puts ?i f t' (x_t y)" "in_kind f = OFile c" "in_xattrs f = Map.empty"
    using t'(3) by (auto simp: fresh_inode_def)
  define t2 where "t2 = (x_t y)\<lparr> tg_tick := Suc (tg_tick (x_t y)) \<rparr>"
  have g: "grows (x_t x) t2 cs ?i" "tg_inodes t2 ?i = f"
    using grows_puts [OF t'(2) order_refl y(6)] puts_at [OF y(6)] by (simp_all add: t2_def)
  have "xinv NT MK (x_apply (linuxWriter MK NT) W (os_name cs) n (y\<lparr> x_t := t2 \<rparr>)) (L @ [(cs, n, c)])"
    by (rule apply_step [OF assms(1,2) g(1)])
      (use assms(3-5) g(2) y in \<open>simp_all add: room_def kind_of_def apply_ok_def is_dir_def node_ty_def restore_modes\<close>)
  thus ?thesis
    using t'(1) ok(2) y(1) assms(1) by (simp add: x_regular_def file_Close_def t2_def)
qed

end
