(* ===== verification/Restore_Result.thy ===== *)
theory Restore_Result
  imports Restore_Tree
begin

unbundle bit_operations_syntax

text \<open>
  Whole restores: the extractor over a sequence of entries, the directories at the end, the reader that
  delivers the entries of an emitted archive, and the properties of \<open>Extract\<close>.
\<close>

subsection \<open>One entry\<close>

text \<open>The reader after an entry: the content of a regular file has been copied.\<close>

definition reads :: "Reader_px \<Rightarrow> PNode \<Rightarrow> bytes \<Rightarrow> Reader_px \<Rightarrow> bool" where
  "reads r n c r' \<longleftrightarrow> (if \<not> pn_Hardlink n \<and> node_ty n = modeRegular then copies r c r' else r' = r)"

lemma entry_step:
  assumes W: "healthy W" and inv: "xinv NT MK x L" and cs: "plain cs" "cs \<noteq> []" "cs \<notin> fst ` set L"
    and d: "tg_kind (x_t x) (butlast cs) = Some ODir"
    and hl: "pn_Hardlink n \<Longrightarrow> \<exists>ts. plain ts \<and> ts \<noteq> [] \<and> pn_LinkTarget n = join_slash ts \<and> tg_kind (x_t x) ts \<notin> {None, Some ODir}"
    and r: "reads r n c r'"
  shows "\<exists>x'. x_entry (linuxWriter MK NT) W n (join_slash cs) r x = Some (r', x', None) \<and> xinv NT MK x' (L @ [(cs, n, c)])"
proof -
  let ?x = "x\<lparr> x_t := (x_t x)\<lparr> tg_tick := Suc (tg_tick (x_t x)) \<rparr> \<rparr>"
  have inv': "xinv NT MK ?x L"
    using inv by simp
  have "tg_names (x_t x) cs = None"
    using inv cs(2,3) by (auto simp: xinv_def dom_def)
  hence room: "room (x_t ?x) cs"
    using cs d by (simp add: room_def)
  have ne: "join_slash cs \<noteq> []" "join_slash cs = os_name cs"
    using join_empty [OF cs(1)] cs(2) by (simp_all add: os_name_def)
  have e: "x_entry (linuxWriter MK NT) W n (join_slash cs) r x =
      (if pn_Hardlink n then Some (r, x_hardlink W (os_name cs) n ?x)
       else if node_ty n = modeDir then Some (r, x_directory W (os_name cs) n ?x)
       else if node_ty n = modeRegular then x_regular (linuxWriter MK NT) W (os_name cs) n r ?x
       else if node_ty n = modeSymlink then Some (r, x_symlink (linuxWriter MK NT) W (os_name cs) n ?x)
       else Some (r, x_special (linuxWriter MK NT) W (os_name cs) n ?x))"
    using W ne xinv_ok [OF inv] by (simp add: x_entry_def Let_def linuxWriter_def linux_validName_def node_ty_def)
  consider "pn_Hardlink n" | "is_dir n" | "\<not> pn_Hardlink n" "node_ty n = modeRegular" | "\<not> pn_Hardlink n" "node_ty n = modeSymlink"
    | "\<not> pn_Hardlink n" "node_ty n \<notin> {modeSymlink, modeDir, modeRegular}"
    unfolding is_dir_def by blast
  thus ?thesis
  proof cases
    case 1
    then obtain ts where "plain ts" "ts \<noteq> []" "pn_LinkTarget n = join_slash ts" "tg_kind (x_t ?x) ts \<notin> {None, Some ODir}"
      using hl by auto
    thus ?thesis
      using hardlink_step [OF W inv' room 1, of ts c] e r 1 by (auto simp: reads_def)
  next
    case 2
    thus ?thesis
      using directory_step [OF W inv' room 2, of c] e r by (auto simp: reads_def is_dir_def restore_modes)
  next
    case 3
    thus ?thesis
      using regular_step [OF W inv' room 3] e r by (auto simp: reads_def restore_modes)
  next
    case 4
    thus ?thesis
      using symlink_step [OF W inv' room 4, of c] e r by (auto simp: reads_def restore_modes)
  next
    case 5
    thus ?thesis
      using special_step [OF W inv' room 5, of c] e r by (auto simp: reads_def)
  qed
qed

lemma root_step:
  assumes "healthy W" "xinv NT MK x []" "is_dir n"
  shows "\<exists>x'. x_entry (linuxWriter MK NT) W n [] r x = Some (r, x', None) \<and> xinv NT MK x' [([], n, c)]"
proof -
  let ?x = "x\<lparr> x_t := (x_t x)\<lparr> tg_tick := Suc (tg_tick (x_t x)) \<rparr>, x_dirs := x_dirs x @ [(dot, n)] \<rparr>"
  have e: "x_entry (linuxWriter MK NT) W n [] r x = Some (r, ?x, None)"
    using assms xinv_ok [OF assms(2)]
    by (simp add: x_entry_def Let_def linuxWriter_def x_directory_def is_dir_def node_ty_def)
  obtain f where f: "tg_object (x_t x) [] = Some f" "in_kind f = ODir"
    using assms(2) by (auto simp: xinv_def tg_ok_def kind_object)
  have "staged NT MK (x_t x) ([], n, c)"
    using assms(2,3) f by (auto simp: staged_def is_dir_def kind_of_def xinv_def)
  hence "xinv NT MK ?x [([], n, c)]"
    using assms(2,3) by (simp add: xinv_def os_name_def)
  thus ?thesis
    using e by blast
qed

subsection \<open>The directories\<close>

text \<open>An entry is restored when its object has its metadata too.\<close>

definition restored :: "(i64 \<Rightarrow> time) \<Rightarrow> (u32 \<Rightarrow> u32 \<Rightarrow> u64) \<Rightarrow> target \<Rightarrow> comps \<times> PNode \<times> bytes \<Rightarrow> bool" where
  "restored NT MK t e \<longleftrightarrow>
     (case e of (cs, n, c) \<Rightarrow>
       if pn_Hardlink n then tg_names t cs \<noteq> None \<and> tg_names t cs = tg_names t (comps_of (pn_LinkTarget n))
       else \<exists>f. tg_object t cs = Some f \<and> in_kind f = kind_of MK n c \<and> has_meta NT n f)"

lemma puts_ok:
  assumes "tg_ok t" "puts i f t t'" "in_kind f = in_kind (tg_inodes t i)"
  shows "tg_ok t'"
  using assms puts_kind [OF assms(2,3)] by (auto simp: tg_ok_def puts_def split: if_splits)

lemma finish_dirs:
  assumes W: "healthy W"
  shows "tg_ok (x_t x) \<Longrightarrow> distinct (map fst D) \<Longrightarrow>
    \<forall>(cs, n, c) \<in> set D. plain cs \<and> is_dir n \<and> (\<exists>f. tg_object (x_t x) cs = Some f \<and> in_kind f = ODir \<and> in_xattrs f = Map.empty) \<Longrightarrow>
    snd ` set (x_warns x) \<subseteq> {WQuota, WXattrKind} \<Longrightarrow>
    \<exists>x'. finish_loop (linuxWriter MK NT) W (map (\<lambda>(cs, n, c). (os_name cs, n)) D) x = (x', None) \<and>
      tg_names (x_t x') = tg_names (x_t x) \<and> tg_followed (x_t x') = tg_followed (x_t x) \<and>
      snd ` set (x_warns x') \<subseteq> {WQuota, WXattrKind} \<and>
      (\<forall>(cs, n, c) \<in> set D. \<exists>f. tg_object (x_t x') cs = Some f \<and> in_kind f = ODir \<and> has_meta NT n f) \<and>
      (\<forall>i. (\<forall>cs \<in> fst ` set D. tg_names (x_t x) cs \<noteq> Some i) \<longrightarrow> tg_inodes (x_t x') i = tg_inodes (x_t x) i)"
proof (induction D arbitrary: x)
  case (Cons e D)
  obtain cs n c where e: "e = (cs, n, c)"
    by (cases e)
  obtain i where i: "plain cs" "is_dir n" "tg_names (x_t x) cs = Some i" "in_kind (tg_inodes (x_t x) i) = ODir"
      "in_xattrs (tg_inodes (x_t x) i) = Map.empty"
    using Cons.prems(3) by (auto simp: e tg_object_def)
  let ?t = "(x_t x)\<lparr> tg_tick := Suc (tg_tick (x_t x)) \<rparr>"
  have ok: "tg_ok ?t" "tg_kind ?t [] = Some ODir" "dirs_to ?t cs" "tg_names ?t cs = Some i"
    using Cons.prems(1) i(3) ok_dirs_to_name [of ?t cs] by (auto simp: tg_ok_def)
  have "apply_ok n (tg_inodes ?t i)"
    using i(4) by (simp add: apply_ok_def)
  from linux_Apply_puts [OF W i(1) ok(3,2,4) this, of NT]
  obtain t' ws where a: "linux_Apply NT W (os_name cs) n ?t = (t', ws)" "puts i (applied NT n (tg_inodes (x_t x) i)) (x_t x) t'"
      "set ws \<subseteq> {WQuota, WXattrKind}"
    by (auto simp: puts_def)
  let ?x = "x\<lparr> x_t := t', x_warns := x_warns x @ map (Pair (os_name cs)) ws \<rparr>"
  have fl: "finish_loop (linuxWriter MK NT) W (map (\<lambda>(cs, n, c). (os_name cs, n)) (e # D)) x =
      finish_loop (linuxWriter MK NT) W (map (\<lambda>(cs, n, c). (os_name cs, n)) D) ?x"
    using W a(1) by (simp add: e x_apply_def linuxWriter_def)
  have ok': "tg_ok t'"
    by (rule puts_ok [OF _ a(2)]) (use Cons.prems(1) in simp_all)
  have other: "tg_names (x_t x) cs' \<noteq> Some i" if "cs' \<in> fst ` set D" for cs'
  proof
    assume "tg_names (x_t x) cs' = Some i"
    hence "cs' = cs"
      using Cons.prems(1) i(3,4) unfolding tg_ok_def by blast
    thus False
      using that Cons.prems(2) by (simp add: e)
  qed
  have "\<exists>x'. finish_loop (linuxWriter MK NT) W (map (\<lambda>(cs, n, c). (os_name cs, n)) D) ?x = (x', None) \<and>
      tg_names (x_t x') = tg_names (x_t ?x) \<and> tg_followed (x_t x') = tg_followed (x_t ?x) \<and>
      snd ` set (x_warns x') \<subseteq> {WQuota, WXattrKind} \<and>
      (\<forall>(cs, n, c) \<in> set D. \<exists>f. tg_object (x_t x') cs = Some f \<and> in_kind f = ODir \<and> has_meta NT n f) \<and>
      (\<forall>i. (\<forall>cs \<in> fst ` set D. tg_names (x_t ?x) cs \<noteq> Some i) \<longrightarrow> tg_inodes (x_t x') i = tg_inodes (x_t ?x) i)"
  proof (rule Cons.IH)
    show "\<forall>(cs, n, c) \<in> set D. plain cs \<and> is_dir n \<and>
        (\<exists>f. tg_object (x_t ?x) cs = Some f \<and> in_kind f = ODir \<and> in_xattrs f = Map.empty)"
      using Cons.prems(3) a(2) other by (fastforce simp: puts_def tg_object_def)
    show "snd ` set (x_warns ?x) \<subseteq> {WQuota, WXattrKind}"
      using Cons.prems(4) a(3) by auto
  qed (use ok' Cons.prems(2) in simp_all)
  then obtain x' where x': "finish_loop (linuxWriter MK NT) W (map (\<lambda>(cs, n, c). (os_name cs, n)) D) ?x = (x', None)"
      "tg_names (x_t x') = tg_names t'" "tg_followed (x_t x') = tg_followed t'" "snd ` set (x_warns x') \<subseteq> {WQuota, WXattrKind}"
      "\<forall>(cs, n, c) \<in> set D. \<exists>f. tg_object (x_t x') cs = Some f \<and> in_kind f = ODir \<and> has_meta NT n f"
      "\<And>i. (\<forall>cs \<in> fst ` set D. tg_names t' cs \<noteq> Some i) \<Longrightarrow> tg_inodes (x_t x') i = tg_inodes t' i"
    by auto
  have nm: "tg_names t' = tg_names (x_t x)" "tg_followed t' = tg_followed (x_t x)"
    using a(2) by (simp_all add: puts_def)
  have "tg_inodes (x_t x') i = applied NT n (tg_inodes (x_t x) i)"
    using x'(6) [of i] other nm(1) puts_at [OF a(2)] by simp
  hence "\<exists>f. tg_object (x_t x') cs = Some f \<and> in_kind f = ODir \<and> has_meta NT n f"
    using i(3-5) applied_meta [OF i(5)] x'(2) nm(1) by (simp add: tg_object_def)
  moreover have "tg_inodes (x_t x') j = tg_inodes (x_t x) j" if "\<forall>cs \<in> fst ` set (e # D). tg_names (x_t x) cs \<noteq> Some j" for j
    using that x'(6) [of j] nm(1) a(2) i(3) by (auto simp: e puts_def)
  ultimately show ?case
    using x' nm fl by (intro exI [of _ x']) (auto simp: e)
qed simp

lemma finish_restored:
  assumes "healthy W" "xinv NT MK x L" "distinct (map fst L)" "\<forall>e \<in> set L. plain (fst e)"
  shows "\<exists>x'. x_finish (linuxWriter MK NT) W x = (x', None) \<and> (\<forall>e \<in> set L. restored NT MK (x_t x') e) \<and>
    dom (tg_names (x_t x')) = insert [] (fst ` set L) \<and> tg_followed (x_t x') = [] \<and> snd ` set (x_warns x') \<subseteq> {WQuota, WXattrKind}"
proof -
  let ?D = "filter (\<lambda>(cs, n, c). is_dir n) L"
  have st: "\<forall>e \<in> set L. staged NT MK (x_t x) e" and ok: "tg_ok (x_t x)"
    using assms(2) by (simp_all add: xinv_def)
  have D: "\<forall>(cs, n, c) \<in> set (rev ?D). plain cs \<and> is_dir n \<and>
      (\<exists>f. tg_object (x_t x) cs = Some f \<and> in_kind f = ODir \<and> in_xattrs f = Map.empty)"
    using st assms(4) by (fastforce simp: staged_def is_dir_def kind_of_def)
  have "distinct (map fst (rev ?D))"
    using assms(3) by (simp add: rev_map [symmetric] distinct_map_filter)
  from finish_dirs [OF assms(1) ok this D, of MK NT] xinv_ok [OF assms(2)]
  obtain x' where x': "finish_loop (linuxWriter MK NT) W (map (\<lambda>(cs, n, c). (os_name cs, n)) (rev ?D)) x = (x', None)"
      "tg_names (x_t x') = tg_names (x_t x)" "tg_followed (x_t x') = tg_followed (x_t x)" "snd ` set (x_warns x') \<subseteq> {WQuota, WXattrKind}"
      "\<forall>(cs, n, c) \<in> set (rev ?D). \<exists>f. tg_object (x_t x') cs = Some f \<and> in_kind f = ODir \<and> has_meta NT n f"
      "\<And>i. (\<forall>cs \<in> fst ` set (rev ?D). tg_names (x_t x) cs \<noteq> Some i) \<Longrightarrow> tg_inodes (x_t x') i = tg_inodes (x_t x) i"
    by blast
  have "restored NT MK (x_t x') (cs, n, c)" if e: "(cs, n, c) \<in> set L" for cs n c
  proof -
    have s: "staged NT MK (x_t x) (cs, n, c)"
      using st e by blast
    consider "pn_Hardlink n" | "is_dir n" | "\<not> pn_Hardlink n" "\<not> is_dir n"
      by blast
    thus ?thesis
    proof cases
      case 1
      show ?thesis
        using s unfolding staged_def restored_def prod.case x'(2) if_P [OF 1] .
    next
      case 2
      thus ?thesis
        using x'(5) e by (fastforce simp: restored_def is_dir_def kind_of_def)
    next
      case 3
      then obtain i where i: "tg_names (x_t x) cs = Some i" "in_kind (tg_inodes (x_t x) i) = kind_of MK n c" "has_meta NT n (tg_inodes (x_t x) i)"
        using s by (auto simp: staged_def tg_object_def)
      have "in_kind (tg_inodes (x_t x) i) \<noteq> ODir"
        using i(2) 3 kind_of_dir by (auto simp: is_dir_def)
      hence "tg_inodes (x_t x') i = tg_inodes (x_t x) i"
        using x'(6) [of i] D by (fastforce simp: tg_object_def)
      thus ?thesis
        using i x'(2) 3 by (simp add: restored_def tg_object_def)
    qed
  qed
  thus ?thesis
    using x' assms(2) by (intro exI [of _ x']) (auto simp: x_finish_def xinv_def rev_map)
qed

subsection \<open>A sequence of entries\<close>

text \<open>What the reader delivers, file contents copied in between.\<close>

fun delivers :: "Reader_px \<Rightarrow> (PNode \<times> bytes) list \<Rightarrow> bool" where
  "delivers r [] \<longleftrightarrow> (\<exists>r'. px_Next r = (r', Inl PxEOF))"
| "delivers r ((n, c) # pcs) \<longleftrightarrow> (\<exists>s r'. px_Next r = (s, Inr n) \<and> reads s n c r' \<and> delivers r' pcs)"

definition ent :: "PNode \<times> bytes \<Rightarrow> comps \<times> PNode \<times> bytes" where
  "ent pc = (comps_of (pn_Path (fst pc)), pc)"

definition dirs_of :: "(comps \<times> PNode \<times> bytes) list \<Rightarrow> comps set" where
  "dirs_of K = {cs. \<exists>n c. (cs, n, c) \<in> set K \<and> is_dir n}"

definition files_of :: "(comps \<times> PNode \<times> bytes) list \<Rightarrow> comps set" where
  "files_of K = {cs. \<exists>n c. (cs, n, c) \<in> set K \<and> \<not> is_dir n \<and> \<not> pn_Hardlink n}"

text \<open>Every entry comes after its directory, every hardlink after the file it names.\<close>

definition follows :: "(comps \<times> PNode \<times> bytes) list \<Rightarrow> PNode \<times> bytes \<Rightarrow> bool" where
  "follows K pc \<longleftrightarrow> (\<exists>cs. plain cs \<and> cs \<noteq> [] \<and> pn_Path (fst pc) = join_slash cs \<and> butlast cs \<in> dirs_of K)"

definition link_follows :: "(comps \<times> PNode \<times> bytes) list \<Rightarrow> PNode \<times> bytes \<Rightarrow> bool" where
  "link_follows K pc \<longleftrightarrow> (pn_Hardlink (fst pc) \<longrightarrow>
     (\<exists>ts \<in> files_of K. plain ts \<and> ts \<noteq> [] \<and> pn_LinkTarget (fst pc) = join_slash ts))"

fun in_order :: "((comps \<times> PNode \<times> bytes) list \<Rightarrow> PNode \<times> bytes \<Rightarrow> bool) \<Rightarrow> (comps \<times> PNode \<times> bytes) list \<Rightarrow> (PNode \<times> bytes) list \<Rightarrow> bool" where
  "in_order Q K [] \<longleftrightarrow> True"
| "in_order Q K (pc # pcs) \<longleftrightarrow> Q K pc \<and> in_order Q (K @ [ent pc]) pcs"

lemma in_order_append: "in_order Q K (xs @ ys) \<longleftrightarrow> in_order Q K xs \<and> in_order Q (K @ map ent xs) ys"
  by (induction Q K xs rule: in_order.induct) simp_all

lemma xinv_dirs: "xinv NT MK x K \<Longrightarrow> cs \<in> dirs_of K \<Longrightarrow> tg_kind (x_t x) cs = Some ODir"
  by (fastforce simp: xinv_def dirs_of_def staged_def is_dir_def kind_of_def kind_object)

lemma xinv_files:
  assumes "xinv NT MK x K" "cs \<in> files_of K"
  shows "tg_kind (x_t x) cs \<notin> {None, Some ODir}"
proof -
  obtain n c where e: "(cs, n, c) \<in> set K" "\<not> is_dir n" "\<not> pn_Hardlink n"
    using assms(2) by (auto simp: files_of_def)
  hence "staged NT MK (x_t x) (cs, n, c)"
    using assms(1) by (auto simp: xinv_def)
  thus ?thesis
    using e kind_of_dir [of MK n c] by (auto simp: staged_def kind_object is_dir_def)
qed

lemma loop_step:
  assumes W: "healthy W"
  shows "xinv NT MK x K \<Longrightarrow> delivers r pcs \<Longrightarrow> in_order follows K pcs \<Longrightarrow> in_order link_follows K pcs \<Longrightarrow>
    distinct (map fst (K @ map ent pcs)) \<Longrightarrow>
    \<exists>x'. extract_loop (linuxWriter MK NT) W r x = Some (x_finish (linuxWriter MK NT) W x') \<and> xinv NT MK x' (K @ map ent pcs)"
proof (induction pcs arbitrary: x K r)
  case Nil
  then obtain r' where "px_Next r = (r', Inl PxEOF)"
    by auto
  thus ?case
    using Nil.prems(1) by (subst extract_loop.simps) auto
next
  case (Cons pc pcs)
  obtain n c where pc: "pc = (n, c)"
    by (cases pc)
  obtain s r' where r: "px_Next r = (s, Inr n)" "reads s n c r'" "delivers r' pcs"
    using Cons.prems(2) by (auto simp: pc)
  obtain cs where cs: "plain cs" "cs \<noteq> []" "pn_Path n = join_slash cs" "butlast cs \<in> dirs_of K"
    using Cons.prems(3) by (auto simp: follows_def pc)
  have e: "ent pc = (cs, n, c)"
    using cs(1,3) by (simp add: ent_def pc comps_of_join)
  obtain x1 where x1: "x_entry (linuxWriter MK NT) W n (join_slash cs) s x = Some (r', x1, None)" "xinv NT MK x1 (K @ [(cs, n, c)])"
  proof -
    have "cs \<notin> fst ` set K"
      using Cons.prems(5) e by auto
    moreover have "\<exists>ts. plain ts \<and> ts \<noteq> [] \<and> pn_LinkTarget n = join_slash ts \<and> tg_kind (x_t x) ts \<notin> {None, Some ODir}"
      if "pn_Hardlink n"
      using Cons.prems(4) that xinv_files [OF Cons.prems(1)] by (auto simp: pc link_follows_def)
    ultimately show ?thesis
      using entry_step [OF W Cons.prems(1) cs(1,2) _ xinv_dirs [OF Cons.prems(1) cs(4)] _ r(2)] that by blast
  qed
  have "extract_loop (linuxWriter MK NT) W r x = extract_loop (linuxWriter MK NT) W r' x1"
    using r(1) x1(1) cs(3) by (subst extract_loop.simps) simp
  moreover have "\<exists>x'. extract_loop (linuxWriter MK NT) W r' x1 = Some (x_finish (linuxWriter MK NT) W x') \<and>
      xinv NT MK x' ((K @ [ent pc]) @ map ent pcs)"
    by (rule Cons.IH) (use x1(2) r(3) Cons.prems(3-5) e in simp_all)
  ultimately show ?case
    by simp
qed

text \<open>The directory a restore starts from: new and empty.\<close>

definition empty_dir :: "target \<Rightarrow> bool" where
  "empty_dir t \<longleftrightarrow> tg_names t = [[] \<mapsto> 0] \<and> tg_next t = 1 \<and> tg_followed t = [] \<and>
     in_kind (tg_inodes t 0) = ODir \<and> in_xattrs (tg_inodes t 0) = Map.empty"

lemma start_restore:
  assumes W: "healthy W" and t: "empty_dir t"
  shows "\<exists>x. newExtractor W False t = (x_t x, Inr x) \<and> xinv NT MK x []"
proof -
  define x0 where "x0 = \<lparr> x_Overwrite = False, x_t = t\<lparr> tg_tick := Suc (Suc (Suc (tg_tick t))) \<rparr>,
     x_dirs = [], x_skip = [], x_warns = [], x_progress = [] \<rparr>"
  have n: "newExtractor W False t = (x_t x0, Inr x0)"
    using W t by (simp add: newExtractor_def empty_dir_def x0_def)
  have "tg_ok t"
    using t by (auto simp: tg_ok_def empty_dir_def tg_kind_def split: if_splits)
  hence "xinv NT MK x0 []"
    using t by (auto simp: xinv_def x0_def empty_dir_def tg_object_def)
  thus ?thesis
    using n by blast
qed

lemma extract_delivered:
  assumes W: "healthy W" and t: "empty_dir t" and d: "delivers r ((root, c) # pcs)"
    and root: "is_dir root" "pn_Path root = []"
    and ord: "in_order follows [([], root, c)] pcs" "in_order link_follows [([], root, c)] pcs"
    and dist: "distinct (map fst (map ent ((root, c) # pcs)))"
    and pl: "\<forall>e \<in> set (map ent pcs). plain (fst e)"
  shows "\<exists>x. Extract (linuxWriter MK NT) W r False t = Some (x_t x, Some x, None) \<and>
    (\<forall>e \<in> set (map ent ((root, c) # pcs)). restored NT MK (x_t x) e) \<and>
    dom (tg_names (x_t x)) = fst ` set (map ent ((root, c) # pcs)) \<and>
    tg_followed (x_t x) = [] \<and> snd ` set (x_warns x) \<subseteq> {WQuota, WXattrKind}"
proof -
  obtain x0 where n: "newExtractor W False t = (x_t x0, Inr x0)" and inv: "xinv NT MK x0 []"
    using start_restore [OF W t] by blast
  have e0: "ent (root, c) = ([], root, c)"
    using root(2) by (simp add: ent_def comps_of_def)
  obtain s where s: "px_Next r = (s, Inr root)" "delivers s pcs"
    using d root(1) by (auto simp: reads_def is_dir_def restore_modes)
  obtain x1 where x1: "x_entry (linuxWriter MK NT) W root [] s x0 = Some (s, x1, None)" "xinv NT MK x1 [([], root, c)]"
    using root_step [OF W inv root(1)] by blast
  obtain x2 where x2: "extract_loop (linuxWriter MK NT) W s x1 = Some (x_finish (linuxWriter MK NT) W x2)"
      "xinv NT MK x2 ([([], root, c)] @ map ent pcs)"
    using loop_step [OF W x1(2) s(2) ord] dist e0 by auto
  have "extract_loop (linuxWriter MK NT) W r x0 = Some (x_finish (linuxWriter MK NT) W x2)"
    using s(1) x1(1) x2(1) root(2) by (subst extract_loop.simps) simp
  moreover obtain x where x: "x_finish (linuxWriter MK NT) W x2 = (x, None)"
      "\<forall>e \<in> set ([([], root, c)] @ map ent pcs). restored NT MK (x_t x) e"
      "dom (tg_names (x_t x)) = insert [] (fst ` set ([([], root, c)] @ map ent pcs))"
      "tg_followed (x_t x) = []" "snd ` set (x_warns x) \<subseteq> {WQuota, WXattrKind}"
    using finish_restored [OF W x2(2)] dist e0 pl by auto
  ultimately show ?thesis
    using n e0 by (intro exI [of _ x]) (auto simp: Extract_def)
qed

subsection \<open>The reader\<close>

lemma px_at_ex: "\<exists>inp. px_at inp r"
proof -
  let ?k = "unat (pr_pos r + (if pr_have r then 16 else 0))"
  show ?thesis
    unfolding px_at_def by (rule exI [of _ "replicate ?k 0 @ pr_in r"], rule exI [of _ ?k]) simp
qed

lemma head_version:
  assumes "px_readHead r = (r', Inr u)" "pr_version r = 1"
  shows "pr_version r' = 1"
proof -
  obtain inp where a: "px_at inp r"
    using px_at_ex by blast
  obtain r1 tl where pk: "px_peek r = (r1, Inr tl)"
    using assms(1) unfolding px_readHead_def by (rule px_bind_ok)
  show ?thesis
    using assms(1) unfolding px_readHead_def pk using peek_at(3) [OF a pk] assms(2) by (auto split: prod.splits if_splits)
qed

lemma next_content:
  assumes "px_next r = (s, Inr n)" "pr_version r = 1"
  shows "at_content s n \<and> pr_version s = 1"
proof -
  obtain r1 where sk: "px_skip_content r = (r1, Inr ())"
    using assms(1) unfolding px_next_def by (cases "px_skip_content r"; cases "snd (px_skip_content r)") auto
  have v: "pr_version r1 = 1"
    using sk assms(2) by (auto simp: px_skip_content_def Let_def split: if_splits)
  let ?r = "r1\<lparr> pr_content := NoContent, pr_left := 0, pr_inline := False \<rparr>"
  have nx: "(if \<not> pr_started ?r then px_bind (px_readHead (?r\<lparr> pr_started := True \<rparr>)) (\<lambda>r _. px_node r []) else px_loop ?r (pr_dirs ?r)) = (s, Inr n)"
    using assms(1) unfolding px_next_def sk Let_def by simp
  show ?thesis
  proof (cases "pr_started r1")
    case True
    thus ?thesis
      using nx px_at_ex [of ?r] loop_at [of ?r _ s n] v by auto
  next
    case False
    obtain r2 where r2: "px_readHead (?r\<lparr> pr_started := True \<rparr>) = (r2, Inr ())" "px_node r2 [] = (s, Inr n)"
      using nx False by (auto elim!: px_bind_ok)
    have "pr_version r2 = 1"
      using head_version [OF r2(1)] v by simp
    thus ?thesis
      using px_at_ex [of r2] node_at [OF r2(2)] by auto
  qed
qed

text \<open>Inline content is copied whole, and the reader is then where skipping it would have led.\<close>

definition consumed :: "Reader_px \<Rightarrow> Reader_px" where
  "consumed s = s\<lparr> pr_in := drop (unat (pr_left s)) (pr_in s), pr_pos := pr_pos s + pr_left s, pr_left := 0 \<rparr>"

lemma copies_inline:
  assumes "pr_content s = Inline" "pr_inline s" "unat (pr_left s) \<le> length (pr_in s)"
  shows "copies s (take (unat (pr_left s)) (pr_in s)) (consumed s)"
  using assms
proof (induction "unat (pr_left s)" arbitrary: s rule: less_induct)
  case less
  show ?case
  proof (cases "pr_left s = 0")
    case True
    hence "consumed s = s"
      by (simp add: consumed_def)
    thus ?thesis
      using True by (auto intro!: copies_end simp: px_Read_def)
  next
    case False
    let ?w = "min copy_buffer (unat (pr_left s))"
    have w: "0 < ?w" "?w \<le> unat (pr_left s)"
      using False by (simp_all add: copy_buffer_def unat_gt_0)
    let ?s = "s\<lparr> pr_in := drop ?w (pr_in s), pr_left := pr_left s - of_nat ?w, pr_pos := pr_pos s + of_nat ?w \<rparr>"
    have u: "unat (of_nat ?w :: u64) = ?w"
      using le_less_trans [OF w(2) unsigned_less] by (simp add: unsigned_of_nat take_bit_nat_eq_self)
    have l: "unat (pr_left ?s) = unat (pr_left s) - ?w"
      using w(2) u by (simp add: unat_sub word_le_nat_alt)
    have len: "length (take ?w (pr_in s)) = ?w"
      using less.prems(3) w(2) by simp
    have rd: "px_Read s copy_buffer = (?s, take ?w (pr_in s), None)"
      using False less.prems w len by (auto simp: px_Read_def Let_def simp del: length_take)
    have rest: "copies ?s (take (unat (pr_left ?s)) (pr_in ?s)) (consumed ?s)"
      by (rule less.hyps) (use less.prems w l in auto)
    have whole: "take ?w (pr_in s) @ take (unat (pr_left ?s)) (pr_in ?s) = take (unat (pr_left s)) (pr_in s)"
      using w(2) unfolding l by (simp add: take_drop [symmetric] take_add [symmetric] del: take_append)
    have "consumed ?s = consumed s"
      using w(2) l by (simp add: consumed_def)
    thus ?thesis
      using copies_step [OF rd rest] unfolding whole by simp
  qed
qed

lemma next_consumed:
  assumes "pr_inline s" "0 \<le> sint (pr_left s)" "unat (pr_left s) \<le> length (pr_in s)"
  shows "px_next (consumed s) = px_next s"
proof -
  have "px_skip_content s = (if pr_left s = 0 then (s, Inr ()) else (consumed s, Inr ()))"
    using assms by (auto simp: px_skip_content_def consumed_def word_gt_0)
  moreover have "px_skip_content (consumed s) = (consumed s, Inr ())" "pr_left s = 0 \<Longrightarrow> consumed s = s"
    by (simp_all add: px_skip_content_def consumed_def)
  ultimately show ?thesis
    unfolding px_next_def by simp
qed

lemma node_ty_mode: "node_ty n = modeType (pe_Mode (pn_Entry n))"
  by (simp add: node_ty_def modeType_def typeMask_def ModeTypeMask_def)

lemma mode_values: "modeDir = ModeDir" "modeRegular = ModeRegular" "modeSymlink = ModeSymlink"
  by (simp_all add: restore_modes mode_defs)

text \<open>A chain of results of a v1 reader, whose files have the sizes their records say, is delivered.\<close>

lemma yields_delivers:
  assumes "pr_err r = None" "pr_version r = 1" "yields (px_next r) pcs (e, Inl PxEOF)"
    "\<forall>(n, c) \<in> set pcs. \<not> pn_Hardlink n \<and> node_ty n = modeRegular \<longrightarrow> pn_Size n = len64 c \<and> length c < 2 ^ 63"
  shows "delivers r pcs"
  using assms
proof (induction pcs arbitrary: r)
  case Nil
  thus ?case
    by (simp add: px_Next_def)
next
  case (Cons pc pcs)
  obtain n c where pc: "pc = (n, c)"
    by (cases pc)
  obtain s where s: "px_next r = (s, Inr n)" "pr_err s = None" "px_content s = c" "yields (px_next s) pcs (e, Inl PxEOF)"
    using Cons.prems(3) by (auto simp: pc)
  have N: "px_Next r = (s, Inr n)"
    using s(1) Cons.prems(1) by (simp add: px_Next_def)
  note at = next_content [OF s(1) Cons.prems(2)]
  have sizes: "\<forall>(n, c) \<in> set pcs. \<not> pn_Hardlink n \<and> node_ty n = modeRegular \<longrightarrow> pn_Size n = len64 c \<and> length c < 2 ^ 63"
    using Cons.prems(4) by simp
  show ?case
  proof (cases "\<not> pn_Hardlink n \<and> node_ty n = modeRegular")
    case True
    have c: "pr_content s = Inline" "pr_inline s" "pr_left s = len64 c" "length c < 2 ^ 63"
      using at True Cons.prems(4) by (auto simp: pc at_content_def node_ty_mode mode_values)
    have l: "unat (pr_left s) = length c"
      using c(3,4) by (simp add: unsigned_of_nat take_bit_nat_eq_self)
    have t: "c = take (unat (pr_left s)) (pr_in s)"
      using s(3) c(1) l by (auto simp: px_content_def px_Read_def Let_def split: if_splits)
    have le: "unat (pr_left s) \<le> length (pr_in s)"
      using t l by (metis length_take min.absorb_iff2 min.commute)
    have "copies s c (consumed s)"
      using copies_inline [OF c(1,2) le] t by simp
    moreover have "px_next (consumed s) = px_next s"
      using next_consumed [OF c(2) _ le] sint_of_nat63 [OF c(4)] c(3) by simp
    hence "delivers (consumed s) pcs"
      using Cons.IH [of "consumed s"] s(2,4) at sizes by (simp add: consumed_def)
    ultimately show ?thesis
      using N True by (auto simp: pc reads_def)
  next
    case False
    have "delivers s pcs"
      by (rule Cons.IH) (use s at sizes in simp_all)
    thus ?thesis
      using N False by (auto simp: pc reads_def)
  qed
qed

subsection \<open>Trees\<close>

lemma read_node:
  assumes "reads_as v km P (n, path) (pn, c)" "node_ok n"
  shows "pn_Path pn = path" "pn_Hardlink pn \<longleftrightarrow> nd_Kind n = KindHardlink" "is_dir pn \<longleftrightarrow> nd_Kind n = KindDirectory"
    "nd_Kind n = KindHardlink \<Longrightarrow> pn_LinkTarget pn = nd_LinkTarget n"
    "\<not> pn_Hardlink pn \<Longrightarrow> node_ty pn = modeRegular \<longleftrightarrow> nd_Kind n \<in> {KindFile, KindStream}"
proof -
  note f = reads_as_fields [OF assms]
  show "pn_Path pn = path" "pn_Hardlink pn \<longleftrightarrow> nd_Kind n = KindHardlink"
    by (rule f)+
  show "nd_Kind n = KindHardlink \<Longrightarrow> pn_LinkTarget pn = nd_LinkTarget n"
    using assms(1) by (simp add: reads_as_def)
  show "is_dir pn \<longleftrightarrow> nd_Kind n = KindDirectory"
    using f(2,3) kind_of_mode(1) by (auto simp: is_dir_def node_ty_mode mode_values)
  show "\<not> pn_Hardlink pn \<Longrightarrow> node_ty pn = modeRegular \<longleftrightarrow> nd_Kind n \<in> {KindFile, KindStream}"
    using f(2,3) kind_of_mode(2) by (auto simp: node_ty_mode mode_values)
qed

lemma join_child: "plain (cs @ [nm]) \<Longrightarrow> joinArchive (join_slash cs) nm = join_slash (cs @ [nm])"
  using path_of_root [of "cs @ [nm]"] path_of_root [of cs] by simp

lemma preorder_paths:
  "tree_ok d n \<Longrightarrow> plain cs \<Longrightarrow> (m, p) \<in> set (preorder n (join_slash cs)) \<Longrightarrow>
     \<exists>ds. plain (cs @ ds) \<and> p = join_slash (cs @ ds) \<and> (ds = [] \<longrightarrow> m = n)"
proof (induction n arbitrary: d cs rule: measure_induct_rule [of size])
  case (less n)
  show ?case
  proof (cases "(m, p) = (n, join_slash cs)")
    case True
    thus ?thesis
      using less.prems(2) by (intro exI [of _ "[]"]) simp
  next
    case False
    then obtain c where c: "nd_Kind n = KindDirectory" "c \<in> set (nd_Children n)"
        "(m, p) \<in> set (preorder c (joinArchive (join_slash cs) (nd_Name c)))"
      using less.prems(3) by (auto simp: preorder.simps [of n] split: if_splits)
    note t = tree_ok_child [OF less.prems(1) c(1,2)]
    have pl: "plain (cs @ [nd_Name c])"
      using t(2) less.prems(2) by (simp add: name_ok_def)
    obtain ds where "plain ((cs @ [nd_Name c]) @ ds)" "p = join_slash ((cs @ [nd_Name c]) @ ds)"
      using less.IH [OF size_child [OF c(2)] t(1) pl] c(3) join_child [OF pl] by auto
    thus ?thesis
      by (intro exI [of _ "nd_Name c # ds"]) simp
  qed
qed

lemma dirs_of_simps [simp]:
  "dirs_of (K @ L) = dirs_of K \<union> dirs_of L" "dirs_of [(cs, n, c)] = (if is_dir n then {cs} else {})"
  by (auto simp: dirs_of_def)

lemma files_of_simps [simp]:
  "files_of (K @ L) = files_of K \<union> files_of L"
  "files_of [(cs, n, c)] = (if \<not> is_dir n \<and> \<not> pn_Hardlink n then {cs} else {})"
  by (auto simp: files_of_def)

lemma children_follow:
  assumes "\<And>c K pcs. c \<in> set ns \<Longrightarrow> cs \<in> dirs_of K \<Longrightarrow>
      list_all2 R (preorder c (joinArchive path (nd_Name c))) pcs \<Longrightarrow> in_order follows K pcs"
  shows "cs \<in> dirs_of K \<Longrightarrow> list_all2 R (concat (map (\<lambda>c. preorder c (joinArchive path (nd_Name c))) ns)) pcs \<Longrightarrow>
    in_order follows K pcs"
  using assms
proof (induction ns arbitrary: K pcs)
  case (Cons c ns)
  obtain xs ys where pcs: "pcs = xs @ ys" "list_all2 R (preorder c (joinArchive path (nd_Name c))) xs"
      "list_all2 R (concat (map (\<lambda>c. preorder c (joinArchive path (nd_Name c))) ns)) ys"
    using Cons.prems(2) by (auto simp: list_all2_append1)
  have "in_order follows K xs"
    by (rule Cons.prems(3)) (use Cons.prems(1) pcs(2) in simp_all)
  moreover have "in_order follows (K @ map ent xs) ys"
    by (rule Cons.IH) (use Cons.prems(1,3) pcs(3) in auto)
  ultimately show ?case
    by (simp add: pcs(1) in_order_append)
qed simp

lemma tree_follows:
  "tree_ok d n \<Longrightarrow> plain cs \<Longrightarrow> cs \<noteq> [] \<Longrightarrow> butlast cs \<in> dirs_of K \<Longrightarrow>
     list_all2 (reads_as v km P) (preorder n (join_slash cs)) pcs \<Longrightarrow> in_order follows K pcs"
proof (induction n arbitrary: d cs K pcs rule: measure_induct_rule [of size])
  case (less n)
  obtain pn c rest where pcs: "pcs = (pn, c) # rest" "reads_as v km P (n, join_slash cs) (pn, c)"
      "list_all2 (reads_as v km P) (if nd_Kind n = KindDirectory
         then concat (map (\<lambda>c. preorder c (joinArchive (join_slash cs) (nd_Name c))) (nd_Children n)) else []) rest"
    using less.prems(5) by (auto simp: preorder.simps [of n] list_all2_Cons1)
  have "node_ok n"
    using less.prems(1) by (simp add: tree_ok.simps [of d n])
  note f = read_node [OF pcs(2) this]
  have e: "ent (pn, c) = (cs, pn, c)"
    using f(1) less.prems(2) by (simp add: ent_def comps_of_join)
  have head: "follows K (pn, c)"
    using f(1) less.prems(2-4) by (auto simp: follows_def)
  have "in_order follows (K @ [(cs, pn, c)]) rest"
  proof (cases "nd_Kind n = KindDirectory")
    case True
    have cs: "cs \<in> dirs_of (K @ [(cs, pn, c)])"
      using f(3) True by simp
    have child: "in_order follows K' qs" if m: "m \<in> set (nd_Children n)" and K': "cs \<in> dirs_of K'"
      and qs: "list_all2 (reads_as v km P) (preorder m (joinArchive (join_slash cs) (nd_Name m))) qs" for m K' qs
    proof -
      note t = tree_ok_child [OF less.prems(1) True m]
      have pl: "plain (cs @ [nd_Name m])"
        using t(2) less.prems(2) by (simp add: name_ok_def)
      show ?thesis
        using less.IH [OF size_child [OF m] t(1) pl _ _ qs [unfolded join_child [OF pl]]] K' by simp
    qed
    show ?thesis
      by (rule children_follow [OF child cs]) (use pcs(3) True in simp_all)
  qed (use pcs(3) in simp)
  thus ?case
    using head e pcs(1) by simp
qed

lemma links_follow:
  "links_ok A xs \<Longrightarrow> list_all2 (reads_as v km P) xs pcs \<Longrightarrow>
     \<forall>(n, p) \<in> set xs. node_ok n \<and> (\<exists>cs. plain cs \<and> p = join_slash cs \<and> (cs = [] \<longrightarrow> nd_Kind n = KindDirectory)) \<Longrightarrow>
     \<forall>a \<in> A. \<exists>ts \<in> files_of K. plain ts \<and> ts \<noteq> [] \<and> a = join_slash ts \<Longrightarrow> in_order link_follows K pcs"
proof (induction xs arbitrary: A K pcs)
  case (Cons np xs)
  obtain n p where np: "np = (n, p)"
    by (cases np)
  obtain pn c rest where pcs: "pcs = (pn, c) # rest" "reads_as v km P (n, p) (pn, c)" "list_all2 (reads_as v km P) xs rest"
    using Cons.prems(2) by (auto simp: list_all2_Cons1 np)
  obtain cs where cs: "node_ok n" "plain cs" "p = join_slash cs" "cs = [] \<longrightarrow> nd_Kind n = KindDirectory"
    using Cons.prems(3) by (auto simp: np)
  note f = read_node [OF pcs(2) cs(1)]
  have e: "ent (pn, c) = (cs, pn, c)"
    using f(1) cs(2,3) by (simp add: ent_def comps_of_join)
  have head: "link_follows K (pn, c)"
    using Cons.prems(1,4) f(2,4) by (auto simp: link_follows_def np)
  let ?A = "if link_source np then insert p A else A"
  have "in_order link_follows (K @ [(cs, pn, c)]) rest"
  proof (rule Cons.IH [of ?A])
    show "\<forall>a \<in> ?A. \<exists>ts \<in> files_of (K @ [(cs, pn, c)]). plain ts \<and> ts \<noteq> [] \<and> a = join_slash ts"
      using Cons.prems(4) cs f(2,3) by (auto simp: link_source_def np)
  qed (use Cons.prems(1,3) pcs(3) in \<open>auto simp: np split: if_splits\<close>)
  thus ?case
    using head e pcs(1) by simp
qed simp

subsection \<open>Properties\<close>

text \<open>What the object of a node looks like, in the terms of the node.\<close>

definition node_kind :: "os_open \<Rightarrow> (u32 \<Rightarrow> u32 \<Rightarrow> u64) \<Rightarrow> Node \<Rightarrow> okind \<Rightarrow> bool" where
  "node_kind os MK n k \<longleftrightarrow>
     (if nd_Kind n = KindDirectory then k = ODir
      else if nd_Kind n \<in> {KindFile, KindStream} then \<exists>p. syncSource_open os n = Inr p \<and> k = OFile (payload_image p)
      else if nd_Kind n = KindSymlink then k = OSymlink (nd_LinkTarget n)
      else if nd_Kind n \<in> {KindBlockDevice, KindCharDevice} then
        k = ONode (ucast (st_Mode (nd_Stat n) AND typeMask)) (MK (ucast (dv_Major (st_Rdev (nd_Stat n)))) (ucast (dv_Minor (st_Rdev (nd_Stat n)))))
      else k = ONode (ucast (st_Mode (nd_Stat n) AND typeMask)) (MK 0 0))"

definition node_meta :: "(i64 \<Rightarrow> time) \<Rightarrow> Node \<Rightarrow> inode \<Rightarrow> bool" where
  "node_meta NT n f \<longleftrightarrow> in_owner f = (st_UID (nd_Stat n), st_GID (nd_Stat n)) \<and>
     (nd_Kind n \<noteq> KindSymlink \<longrightarrow> in_perm f = ucast (st_Mode (nd_Stat n) AND 0xFFF)) \<and>
     (nd_Kind n \<in> {KindDirectory, KindFile, KindStream} \<longrightarrow> in_xattrs f = set_attrs (acl_xattrs (meta_node False n [])) Map.empty) \<and>
     in_mtime f = NT (st_MtimeSecs (nd_Stat n) * 1000000000 + ucast (st_MtimeNanos (nd_Stat n)))"

definition node_restored :: "os_open \<Rightarrow> (i64 \<Rightarrow> time) \<Rightarrow> (u32 \<Rightarrow> u32 \<Rightarrow> u64) \<Rightarrow> target \<Rightarrow> Node \<times> bytes \<Rightarrow> bool" where
  "node_restored os NT MK t np \<longleftrightarrow>
     (case np of (n, path) \<Rightarrow>
       if nd_Kind n = KindHardlink
       then tg_names t (comps_of path) \<noteq> None \<and> tg_names t (comps_of path) = tg_names t (comps_of (nd_LinkTarget n))
       else \<exists>f. tg_object t (comps_of path) = Some f \<and> node_kind os MK n (in_kind f) \<and> node_meta NT n f)"

lemma acl_xattrs_cong:
  "pn_Xattrs a = pn_Xattrs b \<Longrightarrow> pn_ACL a = pn_ACL b \<Longrightarrow> pn_FCaps a = pn_FCaps b \<Longrightarrow> pn_Entry a = pn_Entry b \<Longrightarrow>
     acl_xattrs a = acl_xattrs b"
  by (cases "pn_ACL b") (simp_all add: acl_xattrs_def)

lemma restored_node:
  assumes r: "reads_as False False (sync.sized os) (n, path) (pn, c)" "node_ok n" and t: "restored NT MK t (ent (pn, c))"
  shows "node_restored os NT MK t (n, path)"
proof (cases "nd_Kind n = KindHardlink")
  case True
  thus ?thesis
    using t read_node [OF r] by (simp add: restored_def node_restored_def ent_def) metis
next
  case False
  note f = read_node [OF r]
  obtain sz off where pn: "pn = (meta_node False n path)\<lparr>
           pn_LinkTarget := (if nd_Kind n = KindSymlink then nd_LinkTarget n else []),
           pn_Device := (if nd_Kind n \<in> {KindBlockDevice, KindCharDevice} then st_Rdev (nd_Stat n)
             else \<lparr> dv_Major = 0, dv_Minor = 0 \<rparr>),
           pn_Size := sz, pn_PayloadOffset := off \<rparr>"
    and content: "if nd_Kind n \<in> {KindFile, KindStream} then (if False then sync.sized os n (put64 off @ put64 sz)
        else sync.sized os n c \<and> sz = len64 c \<and> off = 0) else sz = 0 \<and> off = 0 \<and> c = []"
    using r(1) unfolding reads_as_def prod.case if_not_P [OF False] by (elim exE conjE)
  have sized: "nd_Kind n \<in> {KindFile, KindStream} \<Longrightarrow> sync.sized os n c"
    using content by simp
  have m: "pe_Mode (pn_Entry pn) = st_Mode (nd_Stat n)" "node_ty pn = st_Mode (nd_Stat n) AND typeMask"
    "pe_UID (pn_Entry pn) = st_UID (nd_Stat n)" "pe_GID (pn_Entry pn) = st_GID (nd_Stat n)"
    "mtime_nsec pn = st_MtimeSecs (nd_Stat n) * 1000000000 + ucast (st_MtimeNanos (nd_Stat n))"
    by (simp_all add: pn meta_node_def node_ty_def mtime_nsec_def)
  have x: "acl_xattrs pn = acl_xattrs (meta_node False n [])"
    by (rule acl_xattrs_cong) (simp_all add: pn meta_node_def new_node_def)
  have km: "kind_mode (nd_Kind n) (pe_Mode (pn_Entry pn))"
    using reads_as_fields(3) [OF r False] .
  have ty: "node_ty pn = modeDir \<longleftrightarrow> nd_Kind n = KindDirectory" "node_ty pn = modeRegular \<longleftrightarrow> nd_Kind n \<in> {KindFile, KindStream}"
    "node_ty pn = modeSymlink \<longleftrightarrow> nd_Kind n = KindSymlink"
    using kind_of_mode [OF km False] by (simp_all add: node_ty_mode mode_values)
  obtain g where g: "tg_object t (comps_of path) = Some g" "in_kind g = kind_of MK pn c" "has_meta NT pn g"
    using t f(1,2) False by (auto simp: restored_def ent_def)
  have lt: "pn_LinkTarget pn = (if nd_Kind n = KindSymlink then nd_LinkTarget n else [])"
    "pn_Device pn = (if nd_Kind n \<in> {KindBlockDevice, KindCharDevice} then st_Rdev (nd_Stat n) else \<lparr> dv_Major = 0, dv_Minor = 0 \<rparr>)"
    by (simp_all add: pn)
  have "nd_Kind n \<in> {KindFile, KindStream} \<Longrightarrow> \<exists>p. syncSource_open os n = Inr p \<and> c = payload_image p"
    using sized unfolding sync.sized_def by (auto simp: syncSource_def)
  hence "node_kind os MK n (in_kind g)"
    unfolding g(2) kind_of_def ty node_kind_def unfolding m(2) lt by auto
  moreover have "node_meta NT n g"
    using g(3) ty unfolding has_meta_def node_meta_def m(1,3-5) x by auto
  ultimately show ?thesis
    using g(1) False by (simp add: node_restored_def)
qed

lemma list_all2_partner:
  assumes "list_all2 R xs ys"
  shows "x \<in> set xs \<Longrightarrow> \<exists>y \<in> set ys. R x y" "y \<in> set ys \<Longrightarrow> \<exists>x \<in> set xs. R x y"
  using assms by (induction rule: list_all2_induct) auto

lemma sized_small: "sync.sized os n c \<Longrightarrow> length c < 2 ^ 63"
proof -
  assume "sync.sized os n c"
  then obtain p where "c = payload_image p" "0 \<le> sint (ps_Size (syncSource os) p)"
    by (auto simp: sync.sized_def)
  moreover have "sint (ps_Size (syncSource os) p) < 2 ^ 63"
    using sint_lt [of "ps_Size (syncSource os) p"] by simp
  ultimately show ?thesis
    using sync.image_size [of p os] by (simp add: nat_less_iff)
qed

lemma ent_comps:
  assumes "list_all2 (reads_as v km P) xs pcs" "\<forall>np \<in> set xs. node_ok (fst np)"
  shows "map fst (map ent pcs) = map (\<lambda>np. comps_of (snd np)) xs"
  using assms
proof (induction rule: list_all2_induct)
  case (Cons np xs pc pcs)
  thus ?case
    using read_node(1) [of v km P "fst np" "snd np" "fst pc" "snd pc"] by (simp add: ent_def)
qed simp

text \<open>What the reader of an archive delivers is in the order the extractor needs.\<close>

lemma tree_in_order:
  assumes "tree_ok 0 root" "nd_Kind root = KindDirectory" "links_ok {} (preorder root [])"
    and y: "list_all2 (reads_as v km P) (preorder root []) ((pn, c) # pcs)"
  shows "is_dir pn" "pn_Path pn = []" "in_order follows [([], pn, c)] pcs" "in_order link_follows [([], pn, c)] pcs"
proof -
  have r: "reads_as v km P (root, []) (pn, c)"
      "list_all2 (reads_as v km P) (concat (map (\<lambda>c. preorder c (joinArchive [] (nd_Name c))) (nd_Children root))) pcs"
    using y assms(2) by (auto simp: preorder.simps [of root])
  have "node_ok root"
    using assms(1) by (simp add: tree_ok.simps [of 0 root])
  note f = read_node [OF r(1) this]
  show d: "is_dir pn" and p: "pn_Path pn = []"
    using f assms(2) by simp_all
  have child: "in_order follows K qs" if m: "m \<in> set (nd_Children root)" and K: "[] \<in> dirs_of K"
    and qs: "list_all2 (reads_as v km P) (preorder m (joinArchive [] (nd_Name m))) qs" for m K qs
  proof -
    note t = tree_ok_child [OF assms(1,2) m]
    have pl: "plain [nd_Name m]"
      using t(2) by (simp add: name_ok_def)
    show ?thesis
      by (rule tree_follows [OF t(1) pl]) (use qs K in \<open>simp_all add: joinArchive_def\<close>)
  qed
  show "in_order follows [([], pn, c)] pcs"
    by (rule children_follow [OF child _ r(2)]) (use d in \<open>simp_all add: dirs_of_def\<close>)
  have "in_order link_follows [] ((pn, c) # pcs)"
  proof (rule links_follow [OF assms(3) y])
    show "\<forall>(n, p) \<in> set (preorder root []). node_ok n \<and> (\<exists>cs. plain cs \<and> p = join_slash cs \<and> (cs = [] \<longrightarrow> nd_Kind n = KindDirectory))"
      using preorder_ok [OF assms(1), of "[]"] preorder_paths [OF assms(1), of "[]"] assms(2) by fastforce
  qed simp
  thus "in_order link_follows [([], pn, c)] pcs"
    using p by (simp add: ent_def comps_of_def)
qed

lemma comps_distinct:
  assumes "tree_ok 0 root" "distinct (map snd (preorder root []))"
  shows "distinct (map (\<lambda>np. comps_of (snd np)) (preorder root []))" "\<forall>np \<in> set (preorder root []). plain (comps_of (snd np))"
proof -
  have p: "\<exists>cs. plain cs \<and> q = join_slash cs" if "q \<in> snd ` set (preorder root [])" for q
    using that preorder_paths [OF assms(1), of "[]"] by fastforce
  hence "inj_on comps_of (snd ` set (preorder root []))"
    by (intro inj_onI) (metis comps_of_join)
  hence "distinct (map comps_of (map snd (preorder root [])))"
    using assms(2) unfolding distinct_map [of comps_of] by simp
  thus "distinct (map (\<lambda>np. comps_of (snd np)) (preorder root []))"
    by (simp add: comp_def)
  show "\<forall>np \<in> set (preorder root []). plain (comps_of (snd np))"
    using p comps_of_join by (metis imageI)
qed

text \<open>The reader of an emitted v1 archive delivers its nodes and contents.\<close>

lemma emitted_delivers:
  assumes em: "em_run H (syncSource os) prelude root (new_emitter ctx cap None) = (s', Inr ())"
    and sizes: "\<forall>n \<in> set (nodes_of root). \<forall>p. syncSource_open os n = Inr p \<longrightarrow> 0 \<le> sint (payload_Size p)"
    and root: "nd_Kind root = KindDirectory" "tree_ok 0 root"
  shows "\<exists>all. delivers (NewReaderV1 (em_out s') None) all \<and> list_all2 (reads_as False False (sync.sized os)) (preorder root []) all"
proof -
  let ?R = "reads_as False False (sync.sized os)" and ?r = "NewReaderV1 (em_out s') None" and ?N = "preorder root []"
  have sz: "0 \<le> sint (ps_Size (syncSource os) p)" if "m \<in> set (nodes_of root)" "ps_open (syncSource os) m = Inr p" for m p
    using sizes that by (auto simp: syncSource_def)
  obtain bs y where bs: "cn_advances (es_w (new_emitter ctx cap None)) (es_w s') bs" "archived False (sync.sized os) (goodbye_of H) root y bs"
    using sync.em_run_archived [OF em] sz by (auto simp: new_emitter_def head_bytes_def)
  have r: "start_reader 1 False bs = ?r"
    using new_emitter_advances [OF bs(1)] by (simp add: start_reader_def NewReaderV1_def new_reader_def)
  obtain all e where y: "yields (px_next ?r) all (e, Inl PxEOF)" "list_all2 ?R ?N all"
    using archive_reads [OF bs(2) root, of 1 None False] unfolding r [symmetric] by (auto simp: head_bytes_def)
  have ok: "\<forall>np \<in> set ?N. node_ok (fst np)"
    by (rule preorder_ok [OF root(2)])
  have node: "\<exists>np \<in> set ?N. node_ok (fst np) \<and> ?R np pc" if "pc \<in> set all" for pc
    using list_all2_partner(2) [OF y(2) that] ok by blast
  have "delivers ?r all"
  proof (rule yields_delivers [OF _ _ y(1)])
    show "\<forall>(n, c) \<in> set all. \<not> pn_Hardlink n \<and> node_ty n = modeRegular \<longrightarrow> pn_Size n = len64 c \<and> length c < 2 ^ 63"
    proof clarify
      fix n c assume "(n, c) \<in> set all" and reg: "\<not> pn_Hardlink n" "node_ty n = modeRegular"
      then obtain m p where m: "node_ok m" "?R (m, p) (n, c)"
        using node by fastforce
      have k: "nd_Kind m \<in> {KindFile, KindStream}"
        using read_node(5) [OF m(2,1) reg(1)] reg(2) by simp
      have "sync.sized os m c"
        using m(2) k by (auto simp: reads_as_def split: if_splits)
      thus "pn_Size n = len64 c \<and> length c < 2 ^ 63"
        using reads_as_fields(4) [OF m(2,1) k] sized_small by simp
    qed
  qed (simp_all add: NewReaderV1_def new_reader_def)
  thus ?thesis
    using y(2) by blast
qed


text \<open>A world without failures, and a directory with nothing in it.\<close>

definition calm :: world where
  "calm = \<lparr> wd_fault = \<lambda>_. None, wd_cancelled = \<lambda>_. False, wd_now = \<lambda>k. (int k, 0), wd_umask = 0x12, wd_ids = (0, 0) \<rparr>"

definition fresh_dir :: target where
  "fresh_dir = \<lparr> tg_names = [[] \<mapsto> 0], tg_inodes = \<lambda>_. \<lparr> in_kind = ODir, in_owner = (0, 0), in_perm = 0x1ED, in_xattrs = Map.empty, in_mtime = (0, 0) \<rparr>, tg_next = 1, tg_tick = 0, tg_followed = [] \<rparr>"

lemma calm_fresh: "healthy calm" "empty_dir fresh_dir"
  by (simp_all add: healthy_def calm_def empty_dir_def fresh_dir_def)


end
