(* ===== verification/Restore_Limits.thy ===== *)
theory Restore_Limits
  imports Restore_Result
begin

unbundle bit_operations_syntax

text \<open>
  Where a restore falls short: an archive that names an entry twice, first as a symbolic link and then as
  a directory, has the permissions of whatever the link points to changed, outside the target too; and
  a modification time far from 1970 does not survive the conversion to nanoseconds.
\<close>

subsection \<open>Permissions through a symbolic link\<close>

lemma linux_Apply_follows:
  assumes W: "healthy W" and cs: "plain cs" "dirs_to t cs" "tg_kind t [] = Some ODir" "tg_names t cs = Some i"
    and n: "in_kind (tg_inodes t i) = OSymlink l" "node_ty n \<noteq> modeSymlink" "pn_Xattrs n = []" "pn_ACL n = None" "pn_FCaps n = []"
  shows "\<exists>t' ws. linux_Apply NT W (os_name cs) n t = (t', ws) \<and> tg_names t' = tg_names t \<and> tg_kind t' = tg_kind t \<and>
    tg_followed t' = tg_followed t @ [(cs, l, ucast (pe_Mode (pn_Entry n) AND 0xFFF))] \<and> set ws \<subseteq> {WQuota}"
proof -
  let ?ids = "(pe_UID (pn_Entry n), pe_GID (pn_Entry n))" and ?perm = "ucast (pe_Mode (pn_Entry n) AND 0xFFF) :: u32"
  obtain d b where d: "openParent W (os_name cs) t = (t\<lparr> tg_tick := Suc (tg_tick t) \<rparr>, Inr (d, b))" "at_dir d b = cs"
    using open_parent [OF W cs(1-3)] by blast
  let ?t0 = "t\<lparr> tg_tick := Suc (tg_tick t) \<rparr>"
  have "tg_names ?t0 (at_dir d b) = Some i"
    using cs(4) d(2) by simp
  from sys_at_puts [OF W this, of "chown_inode ?ids"]
  obtain t1 where t1: "sys_at W d b (chown_inode ?ids) ?t0 = (t1, Inr ())" "puts i (chown_inode ?ids (tg_inodes t i)) t t1"
    by (auto simp: puts_def)
  have k1: "tg_kind t1 = tg_kind t" "tg_kind t1 (at_dir d b) = Some (OSymlink l)"
    using puts_kind [OF t1(2)] n(1) cs(4) d(2) by (simp_all add: tg_kind_def)
  define t2 where "t2 = t1\<lparr> tg_tick := Suc (tg_tick t1), tg_followed := tg_followed t1 @ [(cs, l, ?perm)] \<rparr>"
  have t2: "sys_chmod W d b ?perm t1 = (t2, Inr ())"
    using W k1(2) d(2) by (simp add: sys_chmod_def t2_def)
  have "tg_names t2 (at_dir d b) = Some i"
    using t1(2) cs(4) d(2) by (simp add: t2_def puts_def)
  from sys_at_puts [OF W this, of "in_mtime_update (\<lambda>_. NT (mtime_nsec n))"]
  obtain t3 where t3: "sys_at W d b (in_mtime_update (\<lambda>_. NT (mtime_nsec n))) t2 = (t3, Inr ())"
      "puts i ((tg_inodes t2 i)\<lparr> in_mtime := NT (mtime_nsec n) \<rparr>) t2 t3"
    by blast
  let ?ws = "if pn_QuotaProjID n \<noteq> 0 then [WQuota] else []"
  have "linux_Apply NT W (os_name cs) n t = (t3, ?ws)"
    using d(1) t1(1) t2 t3(1) n(2-5) by (simp add: linux_Apply_def Let_def warned_def node_ty_def)
  moreover have "tg_kind t3 = tg_kind t2" "tg_kind t2 = tg_kind t1"
    using puts_kind [OF t3(2)] by (simp_all add: t2_def tg_kind_def fun_eq_iff)
  ultimately show ?thesis
    using k1(1) t1(2) t3(2) by (intro exI [of _ t3] exI [of _ ?ws]) (auto simp: puts_def t2_def)
qed

text \<open>Two entries of one name: a symbolic link, then a directory.\<close>

lemma second_directory:
  assumes W: "healthy W" and inv: "xinv NT MK x [([], rt, c0), ([nm], sy, c1)]" and nm: "ValidateFilename nm = None"
    and sy: "\<not> pn_Hardlink sy" "node_ty sy = modeSymlink" and dr: "is_dir dr" "pn_Xattrs dr = []" "pn_ACL dr = None" "pn_FCaps dr = []"
    and rt: "is_dir rt"
  shows "\<exists>x' x''. x_entry (linuxWriter MK NT) W dr nm r x = Some (r, x', None) \<and>
    x_finish (linuxWriter MK NT) W x' = (x'', None) \<and>
    tg_followed (x_t x'') = [([nm], pn_LinkTarget sy, ucast (pe_Mode (pn_Entry dr) AND 0xFFF))]"
proof -
  have ok: "tg_ok (x_t x)" "tg_followed (x_t x) = []" "x_skip x = []" "\<not> x_Overwrite x" "x_dirs x = [(dot, rt)]"
    using inv rt sy by (auto simp: xinv_def is_dir_def os_name_def restore_modes)
  have pl: "plain [nm]" and on: "os_name [nm] = nm" "nm \<noteq> []" "nm \<noteq> dot"
    using nm name_plain [OF nm] by (simp_all add: os_name_def)
  obtain i where i: "tg_names (x_t x) [nm] = Some i" "in_kind (tg_inodes (x_t x) i) = OSymlink (pn_LinkTarget sy)"
    using inv sy by (auto simp: xinv_def staged_def tg_object_def kind_of_def restore_modes)
  let ?t = "(x_t x)\<lparr> tg_tick := Suc (Suc (tg_tick (x_t x))) \<rparr>" and ?x = "\<lambda>t. x\<lparr> x_t := t, x_dirs := [(dot, rt), (nm, dr)] \<rparr>"
  have "in_root ?t False (os_name [nm]) = Inr [nm]"
    by (rule in_root_join [OF pl ok_dirs_to_name]) (use ok(1) i(1) in simp_all)
  hence "root_Mkdir W nm 0x1C0 ((x_t x)\<lparr> tg_tick := Suc (tg_tick (x_t x)) \<rparr>) = (?t, Inl EExist)"
    using W on(1) i(1) by (simp add: root_Mkdir_def root_add_def tg_add_def)
  hence e: "x_entry (linuxWriter MK NT) W dr nm r x = Some (r, ?x ?t, None)"
    using W on ok(3-5) dr(1) by (simp add: x_entry_def x_directory_def Let_def linuxWriter_def linux_validName_def is_dir_def node_ty_def)
  define u where "u = ?t\<lparr> tg_tick := Suc (Suc (Suc (tg_tick (x_t x)))) \<rparr>"
  have u: "tg_ok u" "tg_followed u = []" "tg_names u [nm] = Some i" "in_kind (tg_inodes u i) = OSymlink (pn_LinkTarget sy)"
    using ok i by (simp_all add: u_def)
  have ty: "node_ty dr \<noteq> modeSymlink"
    using dr(1) by (simp add: is_dir_def restore_modes)
  have "tg_kind u [] = Some ODir" "dirs_to u [nm]"
    using u(1,3) ok_dirs_to_name [OF u(1), of "[nm]"] by (simp_all add: tg_ok_def)
  from linux_Apply_follows [OF W pl this(2,1) u(3,4) ty dr(2-4), of NT]
  obtain u1 ws where u1: "linux_Apply NT W nm dr u = (u1, ws)" "tg_names u1 = tg_names u" "tg_kind u1 = tg_kind u"
      "tg_followed u1 = [([nm], pn_LinkTarget sy, ucast (pe_Mode (pn_Entry dr) AND 0xFFF))]"
    using u(2) on(1) by auto
  let ?u1 = "u1\<lparr> tg_tick := Suc (tg_tick u1) \<rparr>"
  have r1: "tg_kind ?u1 [] = Some ODir" "dirs_to ?u1 []"
    using u1(3) u(1) by (simp_all add: tg_ok_def dirs_to_def)
  then obtain j where j: "tg_names ?u1 [] = Some j" "in_kind (tg_inodes ?u1 j) = ODir"
    by (auto simp: tg_kind_def)
  have "apply_ok rt (tg_inodes ?u1 j)"
    using j(2) by (simp add: apply_ok_def)
  from linux_Apply_puts [OF W _ r1(2,1) j(1) this, of NT]
  obtain u2 ws2 where u2: "linux_Apply NT W dot rt ?u1 = (u2, ws2)" "tg_followed u2 = tg_followed u1"
    by (auto simp: os_name_def puts_def)
  have "\<exists>x''. x_finish (linuxWriter MK NT) W (?x ?t) = (x'', None) \<and> x_t x'' = u2"
    using W u1(1) u2(1) by (simp add: x_finish_def x_apply_def linuxWriter_def u_def)
  thus ?thesis
    using e u1(4) u2(2) by auto
qed

definition link_node :: "bytes \<Rightarrow> Node" where
  "link_node l = Node (str ''a'') [] KindSymlink (zero_stat\<lparr> st_Mode := ModeSymlink OR 0x1FF \<rparr>) l [] None [] 0 [] None"

definition open_node :: Node where
  "open_node = Node (str ''a'') [] KindDirectory (zero_stat\<lparr> st_Mode := ModeDir OR 0x1FF \<rparr>) [] [] None [] 0 [] None"

definition twice_tree :: "bytes \<Rightarrow> Node" where
  "twice_tree l = Node (str ''root'') [] KindDirectory (zero_stat\<lparr> st_Mode := ModeDir OR 0x1FF \<rparr>) [] [] None [] 0 [link_node l, open_node] None"

lemma twice_tree_ok:
  assumes "l \<noteq> []" "length l < 2 ^ 20"
  shows "nd_Kind (twice_tree l) = KindDirectory" "tree_ok 0 (twice_tree l)"
    "\<forall>n \<in> set (nodes_of (twice_tree l)). \<forall>p. syncSource_open no_files n = Inr p \<longrightarrow> 0 \<le> sint (payload_Size p)"
    "preorder (twice_tree l) [] = [(twice_tree l, []), (link_node l, str ''a''), (open_node, str ''a'')]"
proof -
  show k: "nd_Kind (twice_tree l) = KindDirectory"
    by (simp add: twice_tree_def)
  have c: "nd_Children (twice_tree l) = [link_node l, open_node]" "nd_Children open_node = []" "nd_Children (link_node l) = []"
    by (simp_all add: twice_tree_def open_node_def link_node_def)
  have n: "node_ok (twice_tree l)" "node_ok (link_node l)" "node_ok open_node" "name_ok open_node" "name_ok (link_node l)"
    using assms by (simp_all add: twice_tree_def link_node_def open_node_def node_ok_def name_ok_def kind_mode_def modeType_def
        mode_defs zero_stat_def ValidateFilename_def)
  have kl: "nd_Kind (link_node l) \<noteq> KindDirectory" and nm: "nd_Name (link_node l) = str ''a''" "nd_Name open_node = str ''a''"
    by (simp_all add: link_node_def open_node_def)
  have "tree_ok (0 + 1) (link_node l)" "tree_ok (0 + 1) open_node"
    unfolding tree_ok.simps [of "0 + 1"] using n c kl by (simp_all add: maxDepth_px_def)
  thus "tree_ok 0 (twice_tree l)"
    unfolding tree_ok.simps [of 0] using n c by (simp add: maxDepth_px_def)
  have "set (nodes_of (twice_tree l)) = {twice_tree l, link_node l, open_node}"
    unfolding nodes_of.simps [of "twice_tree l"] c list.map concat.simps nodes_of.simps [of open_node] nodes_of.simps [of "link_node l"]
    by auto
  moreover have "nd_Kind (twice_tree l) \<noteq> KindStream" "nd_Kind (link_node l) \<noteq> KindStream" "nd_Kind open_node \<noteq> KindStream"
    by (simp_all add: twice_tree_def link_node_def open_node_def)
  ultimately show "\<forall>n \<in> set (nodes_of (twice_tree l)). \<forall>p. syncSource_open no_files n = Inr p \<longrightarrow> 0 \<le> sint (payload_Size p)"
    by (auto simp: syncSource_open_def no_files_def)
  show "preorder (twice_tree l) [] = [(twice_tree l, []), (link_node l, str ''a''), (open_node, str ''a'')]"
    using k kl c nm by (simp add: preorder.simps [of "twice_tree l"] preorder.simps [of open_node] preorder.simps [of "link_node l"]
        joinArchive_def)
qed

text \<open>
  C39: an archive can make a restore change permissions outside the target directory.  For every link
  target of less than a megabyte, an absolute path for instance, the restore of the emitted v1 archive of \<open>twice_tree\<close>,
  whose root holds two entries named \<^verbatim>\<open>a\<close>, a symbolic link to it and then a directory of mode 0777,
  into any empty directory, without \<open>Overwrite\<close> and with no system call failing, ends
  without an error and has called \<open>fchmodat\<close> on the link, which follows it: whatever the link points to
  gets mode 0777.  \<open>Mkdir\<close> reports that the name exists, which is ignored for directories, and \<open>finish\<close>
  applies the directory's metadata to the link.
\<close>

theorem duplicate_directory_escapes:
  assumes em: "em_run H (syncSource no_files) prelude (twice_tree l) (new_emitter ctx cap None) = (s', Inr ())"
    and l: "l \<noteq> []" "length l < 2 ^ 20" and W: "healthy W" "empty_dir t"
  shows "\<exists>x. Extract (linuxWriter MK NT) W (NewReaderV1 (em_out s') None) False t = Some (x_t x, Some x, None) \<and>
    tg_followed (x_t x) = [([str ''a''], l, 0x1FF)]"
proof -
  note ok = twice_tree_ok [OF l]
  let ?r = "NewReaderV1 (em_out s') None" and ?R = "reads_as False False (sync.sized no_files)"
  obtain all where y: "delivers ?r all" "list_all2 ?R (preorder (twice_tree l) []) all"
    using emitted_delivers [OF em ok(3,1,2)] by blast
  obtain rt c0 sy c1 dr c2 where all: "all = [(rt, c0), (sy, c1), (dr, c2)]" and R: "?R (twice_tree l, []) (rt, c0)"
      "?R (link_node l, str ''a'') (sy, c1)" "?R (open_node, str ''a'') (dr, c2)"
    using y(2) unfolding ok(4) by (auto simp: list_all2_Cons1)
  have nok: "node_ok (twice_tree l)" "node_ok (link_node l)" "node_ok open_node"
    using preorder_ok [OF ok(2), of "[]"] unfolding ok(4) by simp_all
  note f0 = read_node [OF R(1) nok(1)] and f1 = read_node [OF R(2) nok(2)] and f2 = read_node [OF R(3) nok(3)]
  have k: "is_dir rt" "\<not> pn_Hardlink sy" "is_dir dr" "pn_Path rt = []" "pn_Path sy = str ''a''" "pn_Path dr = str ''a''"
    using f0 f1 f2 by (simp_all add: twice_tree_def link_node_def open_node_def)
  have sy: "node_ty sy = modeSymlink" "pn_LinkTarget sy = l"
    using R(2) by (auto simp: reads_as_def link_node_def meta_node_def node_ty_def restore_modes mode_defs zero_stat_def)
  have dr: "pn_Xattrs dr = []" "pn_ACL dr = None" "pn_FCaps dr = []" "ucast (pe_Mode (pn_Entry dr) AND 0xFFF) = (0x1FF :: u32)"
    using R(3) by (auto simp: reads_as_def open_node_def meta_node_def mode_defs zero_stat_def new_node_def)
  obtain s0 s1 s2 s3 where s: "px_Next ?r = (s0, Inr rt)" "px_Next s0 = (s1, Inr sy)" "px_Next s1 = (s2, Inr dr)" "px_Next s2 = (s3, Inl PxEOF)"
    using y(1) k(1-3) sy(1) by (auto simp: all reads_def is_dir_def restore_modes)
  have nm: "ValidateFilename (str ''a'') = None" "plain [str ''a'']" "join_slash [str ''a''] = str ''a''"
    by (simp_all add: ValidateFilename_def)
  obtain x0 where x0: "newExtractor W False t = (x_t x0, Inr x0)" "xinv NT MK x0 []"
    using start_restore [OF W] by blast
  obtain x1 where x1: "x_entry (linuxWriter MK NT) W rt [] s0 x0 = Some (s0, x1, None)" "xinv NT MK x1 [([], rt, c0)]"
    using root_step [OF W(1) x0(2) k(1)] by blast
  have "tg_kind (x_t x1) (butlast [str ''a'']) = Some ODir" "reads s1 sy c1 s1" "[str ''a''] \<notin> fst ` set [([], rt, c0)]"
    using xinv_ok [OF x1(2)] sy(1) by (simp_all add: tg_ok_def reads_def restore_modes)
  from entry_step [OF W(1) x1(2) nm(2) _ this(3,1) _ this(2)] k(2)
  obtain x2 where x2: "x_entry (linuxWriter MK NT) W sy (str ''a'') s1 x1 = Some (s1, x2, None)"
      "xinv NT MK x2 [([], rt, c0), ([str ''a''], sy, c1)]"
    unfolding nm(3) by auto
  obtain x3 x4 where x3: "x_entry (linuxWriter MK NT) W dr (str ''a'') s2 x2 = Some (s2, x3, None)"
      "x_finish (linuxWriter MK NT) W x3 = (x4, None)" "tg_followed (x_t x4) = [([str ''a''], l, 0x1FF)]"
    using second_directory [OF W(1) x2(2) nm(1) k(2) sy(1) k(3) dr(1-3) k(1), of s2] unfolding sy(2) dr(4) by blast
  have "extract_loop (linuxWriter MK NT) W s2 x3 = Some (x4, None)"
    using s(4) x3(2) by (subst extract_loop.simps) simp
  hence "extract_loop (linuxWriter MK NT) W s1 x2 = Some (x4, None)"
    using s(3) x3(1) k(6) by (subst extract_loop.simps) simp
  hence "extract_loop (linuxWriter MK NT) W s0 x1 = Some (x4, None)"
    using s(2) x2(1) k(5) by (subst extract_loop.simps) simp
  hence "extract_loop (linuxWriter MK NT) W ?r x0 = Some (x4, None)"
    using s(1) x1(1) k(4) by (subst extract_loop.simps) simp
  thus ?thesis
    using x0(1) x3(3) by (intro exI [of _ x4]) (simp add: Extract_def)
qed

lemma twice_emits:
  "\<exists>s'. em_run (\<lambda>_. 7) (syncSource no_files) None (twice_tree (str ''/etc'')) (new_emitter None None None) = (s', Inr ())"
  by (simp add: em_run_def twice_tree_def link_node_def open_node_def new_emitter_def em_node.simps em_write_def cn_write_free
      em_open_def syncSource_def em_content_def AppendGoodbye_def permuteBST_def Len64.simps zero_stat_def Let_def del: append_assoc)

theorem duplicate_directory_escapes_witness:
  "\<exists>s' x. em_run (\<lambda>_. 7) (syncSource no_files) None (twice_tree (str ''/etc'')) (new_emitter None None None) = (s', Inr ()) \<and>
     Extract (linuxWriter (\<lambda>a b. 0) (\<lambda>w. (0, 0))) calm (NewReaderV1 (em_out s') None) False fresh_dir = Some (x_t x, Some x, None) \<and>
     tg_followed (x_t x) = [([str ''a''], str ''/etc'', 0x1FF)]"
proof -
  obtain s' where s': "em_run (\<lambda>_. 7) (syncSource no_files) None (twice_tree (str ''/etc'')) (new_emitter None None None) = (s', Inr ())"
    using twice_emits by blast
  show ?thesis
    using duplicate_directory_escapes [OF s' _ _ calm_fresh] s' by simp
qed

subsection \<open>Modification times\<close>

lemma sint_in_range: "sint (word_of_int k :: i64) = k \<longleftrightarrow> - (2 ^ 63) \<le> k \<and> k < 2 ^ 63"
proof
  assume "sint (word_of_int k :: i64) = k"
  thus "- (2 ^ 63) \<le> k \<and> k < 2 ^ 63"
    using sint_ge [of "word_of_int k :: i64"] sint_lt [of "word_of_int k :: i64"] by simp
next
  assume "- (2 ^ 63) \<le> k \<and> k < 2 ^ 63"
  thus "sint (word_of_int k :: i64) = k"
    by (simp add: signed_of_int signed_take_bit_int_eq_self)
qed

lemma split_seconds:
  assumes "0 \<le> n" "n < (b :: int)"
  shows "(k div b, k mod b) = (s, n) \<longleftrightarrow> k = s * b + n"
  using assms div_mult_mod_eq [of k b] by (auto simp: add.commute [of _ n])

text \<open>
  C40: the range of modification times a restore sets right.  With \<open>unix.NsecToTimespec\<close> splitting its
  nanoseconds into seconds and a remainder that is not negative, \<open>Apply\<close> on an entry of the target (not a
  symbolic link in the place of something else), no system call failing, gives it the modification time
  of the node, whose nanoseconds are below a second, exactly when seconds and nanoseconds together fit
  into the 64-bit number of nanoseconds since 1970 it goes through, that is for the years 1677 to 2262;
  any other time the archive holds comes out wrong.
\<close>

theorem mtime_set_in_range:
  assumes NT: "\<And>w. NsecToTimespec w = (sint w div 1000000000, sint w mod 1000000000)"
    and nanos: "pe_MtimeNanos (pn_Entry n) < 1000000000"
    and W: "healthy W" and cs: "plain cs" "dirs_to t cs" "tg_kind t [] = Some ODir" "tg_names t cs = Some i"
    and ok: "apply_ok n (tg_inodes t i)"
  shows "\<exists>t' ws f. linux_Apply NsecToTimespec W (os_name cs) n t = (t', ws) \<and> tg_object t' cs = Some f \<and>
    (in_mtime f = (sint (pe_MtimeSecs (pn_Entry n)), uint (pe_MtimeNanos (pn_Entry n))) \<longleftrightarrow>
       - (2 ^ 63) \<le> sint (pe_MtimeSecs (pn_Entry n)) * 1000000000 + uint (pe_MtimeNanos (pn_Entry n)) \<and>
       sint (pe_MtimeSecs (pn_Entry n)) * 1000000000 + uint (pe_MtimeNanos (pn_Entry n)) < 2 ^ 63)"
proof -
  let ?s = "sint (pe_MtimeSecs (pn_Entry n))" and ?n = "uint (pe_MtimeNanos (pn_Entry n))"
  obtain t' ws where a: "linux_Apply NsecToTimespec W (os_name cs) n t = (t', ws)" "puts i (applied NsecToTimespec n (tg_inodes t i)) t t'"
    using linux_Apply_puts [OF W cs ok, of NsecToTimespec] by blast
  have n: "0 \<le> ?n" "?n < 1000000000"
    using nanos by (simp_all add: word_less_def)
  have w: "mtime_nsec n = word_of_int (?s * 1000000000 + ?n)"
    unfolding mtime_nsec_def of_int_add of_int_mult of_int_numeral of_int_sint scast_id ucast_eq ..
  have "tg_object t' cs = Some (applied NsecToTimespec n (tg_inodes t i))"
    using a(2) cs(4) by (simp add: tg_object_def puts_def)
  moreover have "in_mtime (applied NsecToTimespec n (tg_inodes t i)) =
      (sint (mtime_nsec n) div 1000000000, sint (mtime_nsec n) mod 1000000000)"
    by (simp add: applied_def Let_def NT)
  ultimately show ?thesis
    using a(1) split_seconds [OF n, of "sint (mtime_nsec n)" ?s] sint_in_range [of "?s * 1000000000 + ?n"] unfolding w by simp
qed

text \<open>A time of the year 2300, and one of 2026.\<close>

theorem mtime_set_in_range_witness:
  "(\<exists>t' ws f. linux_Apply (\<lambda>w. (sint w div 1000000000, sint w mod 1000000000)) calm (os_name [])
       ((new_node [])\<lparr> pn_Entry := zero_entry\<lparr> pe_MtimeSecs := 10413792000 \<rparr> \<rparr>) fresh_dir = (t', ws) \<and>
     tg_object t' [] = Some f \<and> in_mtime f \<noteq> (10413792000, 0)) \<and>
   (\<exists>t' ws f. linux_Apply (\<lambda>w. (sint w div 1000000000, sint w mod 1000000000)) calm (os_name [])
       ((new_node [])\<lparr> pn_Entry := zero_entry\<lparr> pe_MtimeSecs := 1767225600 \<rparr> \<rparr>) fresh_dir = (t', ws) \<and>
     tg_object t' [] = Some f \<and> in_mtime f = (1767225600, 0))"
proof -
  let ?n = "\<lambda>s. (new_node [])\<lparr> pn_Entry := zero_entry\<lparr> pe_MtimeSecs := s \<rparr> \<rparr>"
  have d: "plain []" "dirs_to fresh_dir []" "tg_kind fresh_dir [] = Some ODir" "tg_names fresh_dir [] = Some 0"
    by (simp_all add: dirs_to_def tg_kind_def fresh_dir_def)
  have ok: "apply_ok (?n s) (tg_inodes fresh_dir 0)" "pe_MtimeNanos (pn_Entry (?n s)) < 1000000000" for s
    by (simp_all add: apply_ok_def fresh_dir_def zero_entry_def)
  note r = mtime_set_in_range [OF refl ok(2) calm_fresh(1) d ok(1)]
  show ?thesis
    using r [of 10413792000] r [of 1767225600] by (intro conjI) (auto simp: zero_entry_def)
qed

end
