(* ===== verification/Spec2Isabelle.thy ===== *)
theory Spec2Isabelle
  imports Chunker Archive Async_Bytes Budget Snapshot Index_At Fs_Path Restore_Limits
begin

text \<open>
  Verification of gopbs, a Go client for Proxmox Backup Server.

  \<^bold>\<open>The program.\<close>  A backup scans directories into a tree of nodes (\<^verbatim>\<open>src/scan\<close>), lays the roots out and emits
  the tree as a pxar archive (\<^verbatim>\<open>src/archive\<close>, \<^verbatim>\<open>src/pxar\<close>): one stream in format v1, a metadata and a payload
  stream in v2, where the payload of files found unchanged in the previous snapshot is a reference to
  chunks of the old stream (\<^verbatim>\<open>src/reuse\<close>); next to it goes a catalog (\<^verbatim>\<open>src/catalog\<close>). File contents are read
  ahead by goroutines (\<^verbatim>\<open>src/archive/async.go\<close>). A stream is cut at content-defined boundaries (\<^verbatim>\<open>src/chunker\<close>)
  and uploaded (\<^verbatim>\<open>src/pbs/upload.go\<close>): workers send the chunks the server does not have, each framed as a blob
  (\<^verbatim>\<open>src/pbs/blob.go\<close>), a collector appends them to the index in stream order, and the manifest records the
  index's checksum. A restore reads an index back, in order (\<^verbatim>\<open>src/pbs/reader.go\<close>) or at random
  (\<^verbatim>\<open>src/pbs/indexat.go\<close>), checks every chunk, decodes the archive (\<^verbatim>\<open>src/pxar/reader.go\<close>), shows it as a file
  system (\<^verbatim>\<open>src/pxar/fs.go\<close>) or writes it to disk (\<^verbatim>\<open>src/restore\<close>).

  \<^bold>\<open>The theories.\<close>

  \<^item> \<open>Prelude\<close>: bytes, little-endian words, readers as lists of the results of their calls, sinks that may
    fail, binary search. \<open>Codec\<close>: the contract of a prefix codec, a locale. \<open>Transition\<close>: transition systems
    whose runs end, a locale.
  \<^item> \<open>Chunker\<close> (\<^verbatim>\<open>src/chunker\<close>): the rolling hash and \<open>Split\<close>, refined to a definition of the cuts that knows no
    state; sizes within bounds, no bytes lost.
  \<^item> \<open>Catalog\<close> (\<^verbatim>\<open>src/catalog\<close>): the varints, an instance of \<open>Codec\<close>, the writer against an abstract tree builder,
    the decoder and the round trip. \<open>Archive_Catalog\<close> (\<^verbatim>\<open>src/archive/catalog.go\<close>): the catalog of an archive
    shows its tree.
  \<^item> \<open>Pxar_Format\<close> (\<^verbatim>\<open>src/pxar/encode.go\<close>, \<^verbatim>\<open>goodbye.go\<close>, \<^verbatim>\<open>bintree.go\<close>): the encoders, and that the goodbye table is a
    search tree. \<open>Scan_Node\<close> (\<^verbatim>\<open>src/scan/scan.go\<close>): the node tree. \<open>Payload\<close> (\<^verbatim>\<open>src/archive/payload.go\<close>): the copy that
    pads and truncates. \<open>Emit\<close> (\<^verbatim>\<open>emit.go\<close>, \<^verbatim>\<open>emitv2.go\<close>, \<^verbatim>\<open>refs.go\<close>, \<^verbatim>\<open>estimate.go\<close>): the emitters. \<open>Image\<close>: what they write as a
    relation between nodes and bytes, in the contract of a payload source, a locale; the estimates are
    exact.
  \<^item> \<open>Pxar_Reader\<close> (\<^verbatim>\<open>src/pxar/reader.go\<close>, \<^verbatim>\<open>decode.go\<close>) and \<open>Roundtrip\<close>: the sequential reader, and that it returns
    the emitted tree.
  \<^item> \<open>Fs_View\<close> (\<^verbatim>\<open>src/pxar/fs.go\<close>), \<open>Fs_Safe\<close>, \<open>Fs_Tree\<close>, \<open>Fs_Path\<close>: random access through the goodbye tables; every
    entry of an emitted archive is found, listed and read, and no archive makes a descent endless.
  \<^item> \<open>Reuse\<close> (\<^verbatim>\<open>src/reuse\<close>), \<open>Previous\<close> (\<^verbatim>\<open>src/archive/previous.go\<close>), \<open>Resolve\<close>: the framing, the plan what to reuse, and
    that every reference of the metadata stream names a record with the content of its file.
  \<^item> \<open>Glob\<close>, \<open>Pattern\<close>, \<open>Scanner\<close>, \<open>Scan_Tree\<close>, \<open>Links\<close> (\<^verbatim>\<open>src/scan\<close>): patterns, the walk, its invariants and its
    termination; hardlinks of a scanned tree can be emitted. \<open>Archive\<close> (\<^verbatim>\<open>src/archive/archive.go\<close>, \<^verbatim>\<open>prelude.go\<close>): the
    builder. \<open>Acl\<close> (\<^verbatim>\<open>src/scan/linux.go\<close>, \<^verbatim>\<open>src/restore/linux.go\<close>): access control lists come back byte for byte.
  \<^item> \<open>Async\<close>, \<open>Async_Live\<close>, \<open>Async_Bytes\<close>, \<open>Budget\<close> (\<^verbatim>\<open>src/archive/async.go\<close>): the goroutines as a transition system
    over all interleavings: the bytes are those of the synchronous copy, the bounds hold, runs end; and
    two ways in which a cancellation can leave a goroutine waiting.
  \<^item> \<open>Produce\<close>, \<open>Collect\<close>, \<open>Upload\<close>, \<open>Upload_Inv\<close>, \<open>Upload_Result\<close> (\<^verbatim>\<open>src/pbs/upload.go\<close>): an upload next to other uploads
    of the session. \<open>Blob\<close>, \<open>Didx\<close>, \<open>Index_Read\<close>, \<open>Index_At\<close>, \<open>Snapshot\<close> (\<^verbatim>\<open>src/pbs/blob.go\<close>, \<^verbatim>\<open>index.go\<close>, \<^verbatim>\<open>reader.go\<close>,
    \<^verbatim>\<open>indexat.go\<close>): frames, index files, the two readers, and that a snapshot restores what was uploaded.
  \<^item> \<open>Target\<close>, \<open>Restore\<close>, \<open>Restore_Ops\<close> (\<^verbatim>\<open>src/restore\<close>): the directory a restore writes to with the operations of
    \<open>os.Root\<close>, the extractor, and the Linux metadata writer. \<open>Restore_Tree\<close>, \<open>Restore_Result\<close>: restoring an emitted
    v1 archive into an empty directory recreates the tree. \<open>Restore_Limits\<close>: two entries of one name can
    change permissions outside the target, and times far from 1970 are set wrong.

  \<^bold>\<open>How the code is modelled.\<close>  Byte slices and strings are lists of 8-bit words, integers keep their width.
  An error is the left side of a sum or an option. State is a record that is passed on. Goroutines,
  channels and locks are inductive step relations. Loops are recursive functions with a termination
  proof; the scanner's recursion takes the depth of the directory tree as fuel, and a theorem says that
  more never changes a result; the copy loop of a restore, which can run for ever on a reader that
  returns nothing, is a partial function.

  \<^bold>\<open>Parameters.\<close>  SHA-256, the filename hash, zstd, the cipher and its random source, the comparison of a
  float with the padding threshold, \<open>unix.Mkdev\<close> and \<open>unix.NsecToTimespec\<close>, the files and directories of the
  operating system, the clock, the store of the previous snapshot and everything a server answers.
  Theorems that need something of them say so as hypotheses, such as that SHA-256 does not collide on
  the messages at hand.

  \<^bold>\<open>Choices.\<close>  \<open>sort.Slice\<close> and \<open>slices.SortFunc\<close>, which leave the order of equal elements open, are stable here.
  A stream node without a reader reads as empty in the asynchronous source, which also reports no
  warnings; what its emitter writes between two payloads does not fail, and the cancellation at the end
  of \<open>GenerateV2\<close> takes effect at once. The log of an upload has the chunks that were sent successfully. The
  catalog theorems are about a sink that accepts everything, the theorem on the restore about system
  calls that succeed. Random access to an index is one \<open>ReadAt\<close> at a time with all interleavings of its
  fetches. The JSON of the prelude is written and not read back by the program, and there is no theorem
  on it. The archive view reads a section of its source with one call; what it cannot show, a fifo or
  socket at the end of a directory, is excluded from the theorems that say what it shows and is a theorem
  of its own.

  \<^bold>\<open>Not modelled.\<close>  The HTTP client with its sessions, login and TLS, the key files and the
  canonical JSON they sign: requests, cryptography of libraries and text formats around them. The system
  calls of the metadata readers and the writer for other platforms than Linux. \<open>ExtractPaths\<close>, which
  drives the same extractor over the archive view. The top-level glue, the command line tool, the test
  server and the examples.
\<close>

end
